(* ===== verification/Prelude.thy ===== *)
theory Prelude
  imports Main "HOL-Library.Multiset"
begin

text \<open>
  Shared material of the development: the exceptions the modelled code raises and the result
  type that carries them, sequencing of fallible steps, the Python arithmetic and list
  operations the sources use, and generic lemmas on lists and folds.
\<close>

section \<open>Errors as values\<close>

text \<open>
  One constructor per Python exception class that the modelled code can raise. The state a
  Python object is left in after an exception is not observed: an exception of this layer
  ends the engine process.
\<close>

datatype error =
    ValueError
  | RuntimeError
  | AssertionError
  | IndexError
  | KeyError
  | NotImplementedError
  | AttributeError
  | OverflowError
  | StopIteration
  | ZeroDivisionError

type_synonym 'a res = "error + 'a"

named_theorems res_simps \<open>equations for sequencing fallible steps\<close>
named_theorems invs \<open>facts that operations keep an invariant\<close>

definition bindR :: "'a res \<Rightarrow> ('a \<Rightarrow> 'b res) \<Rightarrow> 'b res" where
  "bindR r f = (case r of Inl e \<Rightarrow> Inl e | Inr x \<Rightarrow> f x)"

definition assertR :: "bool \<Rightarrow> unit res" where
  "assertR b = (if b then Inr () else Inl AssertionError)"

definition is_ok :: "'a res \<Rightarrow> bool" where
  "is_ok r = (case r of Inl _ \<Rightarrow> False | Inr _ \<Rightarrow> True)"

lemma bindR_Inl [simp, res_simps]: "bindR (Inl e) f = Inl e"
  by (simp add: bindR_def)

lemma bindR_Inr [simp, res_simps]: "bindR (Inr x) f = f x"
  by (simp add: bindR_def)

lemma bindR_eq_Inr [res_simps]: "bindR r f = Inr y \<longleftrightarrow> (\<exists>x. r = Inr x \<and> f x = Inr y)"
  by (cases r) auto

lemma bindR_assoc: "bindR (bindR r f) g = bindR r (\<lambda>x. bindR (f x) g)"
  by (cases r) auto

lemma bindR_cong [fundef_cong]:
  "r = r' \<Longrightarrow> (\<And>x. r' = Inr x \<Longrightarrow> f x = f' x) \<Longrightarrow> bindR r f = bindR r' f'"
  by (cases r') auto

lemma assertR_eq_Inr [simp, res_simps]: "assertR b = Inr u \<longleftrightarrow> b"
  by (simp add: assertR_def)

lemma assertR_True [simp]: "assertR True = Inr ()"
  by (simp add: assertR_def)

lemma assertR_False [simp]: "assertR False = Inl AssertionError"
  by (simp add: assertR_def)

lemma is_ok_simps [simp]: "is_ok (Inr x)" "\<not> is_ok (Inl e)"
  by (simp_all add: is_ok_def)

lemma is_ok_iff: "is_ok r \<longleftrightarrow> (\<exists>x. r = Inr x)"
  by (cases r) auto

text \<open>A \<^verbatim>\<open>for\<close> loop whose body may raise: a left fold that stops at the first error.\<close>

fun foldR :: "('a \<Rightarrow> 's \<Rightarrow> 's res) \<Rightarrow> 'a list \<Rightarrow> 's \<Rightarrow> 's res" where
  "foldR f [] s = Inr s"
| "foldR f (x # xs) s = bindR (f x s) (foldR f xs)"

lemma foldR_append: "foldR f (xs @ ys) s = bindR (foldR f xs s) (foldR f ys)"
proof (induction xs arbitrary: s)
  case (Cons x xs)
  then have "foldR f (xs @ ys) = (\<lambda>s. bindR (foldR f xs s) (foldR f ys))" by blast
  then show ?case by (simp add: bindR_assoc)
qed simp

lemma foldR_invariant:
  assumes "foldR f xs s = Inr s'" and "P s"
    and "\<And>x s s'. x \<in> set xs \<Longrightarrow> P s \<Longrightarrow> f x s = Inr s' \<Longrightarrow> P s'"
  shows "P s'"
  using assms by (induction xs arbitrary: s) (auto simp: bindR_eq_Inr)

lemma foldR_total:
  assumes "P s" and "\<And>x s. x \<in> set xs \<Longrightarrow> P s \<Longrightarrow> \<exists>s'. f x s = Inr s' \<and> P s'"
  shows "\<exists>s'. foldR f xs s = Inr s' \<and> P s'"
  using assms
proof (induction xs arbitrary: s)
  case (Cons x xs)
  then obtain s1 where "f x s = Inr s1" "P s1" by fastforce
  with Cons show ?case by fastforce
qed simp

text \<open>A list comprehension whose element expression may raise.\<close>

fun mapR :: "('a \<Rightarrow> 'b res) \<Rightarrow> 'a list \<Rightarrow> 'b list res" where
  "mapR f [] = Inr []"
| "mapR f (x # xs) = bindR (f x) (\<lambda>y. bindR (mapR f xs) (\<lambda>ys. Inr (y # ys)))"

lemma mapR_cong [fundef_cong]: "xs = ys \<Longrightarrow> (\<And>x. x \<in> set ys \<Longrightarrow> f x = g x) \<Longrightarrow> mapR f xs = mapR g ys"
  by (induction xs arbitrary: ys) auto

lemma mapR_eq_Inr: "mapR f xs = Inr ys \<longleftrightarrow> list_all2 (\<lambda>x y. f x = Inr y) xs ys"
  by (induction xs arbitrary: ys) (auto simp: bindR_eq_Inr list_all2_Cons1)

lemma mapR_Inr: "(\<And>x. x \<in> set xs \<Longrightarrow> f x = Inr (g x)) \<Longrightarrow> mapR f xs = Inr (map g xs)"
  by (induction xs) auto

lemma mapR_length: "mapR f xs = Inr ys \<Longrightarrow> length ys = length xs"
  by (simp add: mapR_eq_Inr list_all2_lengthD)

text \<open>\<^verbatim>\<open>max(xs)\<close> and \<^verbatim>\<open>min(xs)\<close>, which raise on an empty iterable.\<close>

fun maxR :: "int list \<Rightarrow> int res" where
  "maxR [] = Inl ValueError"
| "maxR (x # xs) = Inr (fold max xs x)"

fun minR :: "int list \<Rightarrow> int res" where
  "minR [] = Inl ValueError"
| "minR (x # xs) = Inr (fold min xs x)"

lemma fold_max: "fold max xs (x :: int) = Max (set (x # xs))"
  by (metis Max.set_eq_fold)

lemma fold_min: "fold min xs (x :: int) = Min (set (x # xs))"
  by (metis Min.set_eq_fold)

lemma maxR_Max: "xs \<noteq> [] \<Longrightarrow> maxR xs = Inr (Max (set xs))"
  using fold_max by (cases xs) simp_all

lemma minR_Min: "xs \<noteq> [] \<Longrightarrow> minR xs = Inr (Min (set xs))"
  using fold_min by (cases xs) simp_all

section \<open>Python integers and sequences\<close>

text \<open>\<^verbatim>\<open>cdiv(a, b) = -(a // -b)\<close> of vllm/utils/math\_utils.py; HOL's \<open>div\<close> on
  \<open>int\<close> rounds towards minus infinity, as Python's \<^verbatim>\<open>//\<close> does.\<close>

definition cdiv :: "int \<Rightarrow> int \<Rightarrow> int" where
  "cdiv a b = - (a div (- b))"

definition round_up :: "int \<Rightarrow> int \<Rightarrow> int" where
  "round_up x y = ((x + y - 1) div y) * y"

definition round_down :: "int \<Rightarrow> int \<Rightarrow> int" where
  "round_down x y = (x div y) * y"

lemma int_le_div_iff: "0 < b \<Longrightarrow> k \<le> a div b \<longleftrightarrow> k * b \<le> a" for a b k :: int
proof
  assume b: "0 < b" and "k \<le> a div b"
  then have "k * b \<le> a div b * b" by simp
  also have "\<dots> \<le> a" using b by (simp add: minus_mod_eq_div_mult [symmetric])
  finally show "k * b \<le> a" .
next
  assume b: "0 < b" and "k * b \<le> a"
  then have "k * b div b \<le> a div b" by (intro zdiv_mono1)
  with b show "k \<le> a div b" by simp
qed

lemma cdiv_le_iff: "0 < b \<Longrightarrow> cdiv a b \<le> k \<longleftrightarrow> a \<le> k * b"
  using int_le_div_iff [of b "- k" "- a"] by (auto simp: cdiv_def div_minus_right)

lemma less_cdiv_iff: "0 < b \<Longrightarrow> k < cdiv a b \<longleftrightarrow> k * b < a"
  using cdiv_le_iff [of b a k] by (simp add: not_le [symmetric])

lemma cdiv_upper: "0 < b \<Longrightarrow> a \<le> cdiv a b * b"
  using cdiv_le_iff [of b a "cdiv a b"] by simp

lemma cdiv_lower: "0 < b \<Longrightarrow> cdiv a b * b < a + b"
  using less_cdiv_iff [of b "cdiv a b - 1" a] by (simp add: algebra_simps)

lemma cdiv_mono: "0 < b \<Longrightarrow> a \<le> a' \<Longrightarrow> cdiv a b \<le> cdiv a' b"
  using cdiv_upper [of b a'] by (simp add: cdiv_le_iff)

lemma cdiv_nonneg: "0 < b \<Longrightarrow> 0 \<le> a \<Longrightarrow> 0 \<le> cdiv a b"
  using less_cdiv_iff [of b "- 1" a] by simp

lemma cdiv_0 [simp]: "cdiv 0 b = 0"
  by (simp add: cdiv_def)

lemma cdiv_mult [simp]: "0 < b \<Longrightarrow> cdiv (k * b) b = k"
  by (simp add: cdiv_def div_minus_right minus_mult_left del: mult_minus_left)

lemma div_le_cdiv: "0 < b \<Longrightarrow> a div b \<le> cdiv a b"
  using cdiv_upper [of b a] int_le_div_iff [of b "a div b" a]
  by (metis mult_le_cancel_right order_trans not_less order_refl)

lemma cdiv_unique: "0 < b \<Longrightarrow> (k - 1) * b < a \<Longrightarrow> a \<le> k * b \<Longrightarrow> cdiv a b = k"
  using cdiv_le_iff [of b a k] less_cdiv_iff [of b "k - 1" a] by simp

lemma cdiv_floor_form: "0 < b \<Longrightarrow> cdiv a b = (a + b - 1) div b"
proof (rule cdiv_unique)
  assume b: "0 < b"
  have "(a + b - 1) div b * b = a + b - 1 - (a + b - 1) mod b"
    by (simp add: minus_mod_eq_div_mult)
  then show "((a + b - 1) div b - 1) * b < a" "a \<le> (a + b - 1) div b * b"
    using b pos_mod_sign [OF b, of "a + b - 1"] pos_mod_bound [OF b, of "a + b - 1"]
    unfolding left_diff_distrib by linarith+
qed

lemma full_block_iff: "0 < bs \<Longrightarrow> i < n div bs \<longleftrightarrow> i * bs + bs \<le> n" for i n bs :: nat
  using less_eq_div_iff_mult_less_eq [of bs "Suc i" n] by (simp add: Suc_le_eq add.commute)

text \<open>Python slices with a non-negative start and any stop: \<^verbatim>\<open>xs[a:b]\<close>.\<close>

definition py_slice :: "nat \<Rightarrow> nat \<Rightarrow> 'a list \<Rightarrow> 'a list" where
  "py_slice a b xs = drop a (take b xs)"

lemma py_slice_length [simp]: "length (py_slice a b xs) = min b (length xs) - a"
  by (simp add: py_slice_def)

lemma py_slice_empty [simp]: "b \<le> a \<Longrightarrow> py_slice a b xs = []"
  by (simp add: py_slice_def)

lemma py_slice_Cons: "a < b \<Longrightarrow> b \<le> length xs \<Longrightarrow> py_slice a b xs = xs ! a # py_slice (Suc a) b xs"
  by (simp add: py_slice_def Cons_nth_drop_Suc [symmetric])

lemma py_slice_append1: "b \<le> length xs \<Longrightarrow> py_slice a b (xs @ ys) = py_slice a b xs"
  by (simp add: py_slice_def)

lemma py_slice_nth: "a + i < b \<Longrightarrow> b \<le> length xs \<Longrightarrow> py_slice a b xs ! i = xs ! (a + i)"
  by (simp add: py_slice_def)

text \<open>Python indexing with IndexError, negative indices counting from the end.\<close>

definition py_get :: "'a list \<Rightarrow> int \<Rightarrow> 'a res" where
  "py_get xs idx =
     (if - int (length xs) \<le> idx \<and> idx < int (length xs)
      then Inr (xs ! nat (if 0 \<le> idx then idx else idx + int (length xs)))
      else Inl IndexError)"

lemma py_get_nth [simp]: "i < length xs \<Longrightarrow> py_get xs (int i) = Inr (xs ! i)"
  by (simp add: py_get_def)

text \<open>A dictionary kept in insertion order: an association list with distinct keys.
  Assigning to a present key keeps its position, as \<^verbatim>\<open>dict\<close> and
  \<^verbatim>\<open>OrderedDict\<close> do.\<close>

type_synonym ('k, 'v) odict = "('k \<times> 'v) list"

fun od_set :: "'k \<Rightarrow> 'v \<Rightarrow> ('k, 'v) odict \<Rightarrow> ('k, 'v) odict" where
  "od_set k v [] = [(k, v)]"
| "od_set k v ((k', v') # d) = (if k = k' then (k, v) # d else (k', v') # od_set k v d)"

definition od_del :: "'k \<Rightarrow> ('k, 'v) odict \<Rightarrow> ('k, 'v) odict" where
  "od_del k d = filter (\<lambda>(k', _). k' \<noteq> k) d"

abbreviation od_get :: "('k, 'v) odict \<Rightarrow> 'k \<Rightarrow> 'v option" where
  "od_get d k \<equiv> map_of d k"

abbreviation od_keys :: "('k, 'v) odict \<Rightarrow> 'k list" where
  "od_keys d \<equiv> map fst d"

definition od_wf :: "('k, 'v) odict \<Rightarrow> bool" where
  "od_wf d = distinct (map fst d)"

lemma od_get_set [simp]: "od_get (od_set k v d) k' = (if k' = k then Some v else od_get d k')"
  by (induction k v d rule: od_set.induct) auto

lemma od_get_del [simp]: "od_get (od_del k d) k' = (if k' = k then None else od_get d k')"
  by (induction d) (auto simp: od_del_def)

lemma od_keys_set: "od_keys (od_set k v d) = (if k \<in> set (od_keys d) then od_keys d else od_keys d @ [k])"
  by (induction k v d rule: od_set.induct) auto

lemma od_keys_del: "od_keys (od_del k d) = filter (\<lambda>k'. k' \<noteq> k) (od_keys d)"
  by (induction d) (auto simp: od_del_def)

lemma od_wf_Nil [simp, invs]: "od_wf []"
  by (simp add: od_wf_def)

lemma od_wf_set [simp, invs]: "od_wf d \<Longrightarrow> od_wf (od_set k v d)"
  by (simp add: od_wf_def od_keys_set)

lemma od_wf_del [simp, invs]: "od_wf d \<Longrightarrow> od_wf (od_del k d)"
  by (simp add: od_wf_def od_keys_del)

lemma od_get_mem: "od_wf d \<Longrightarrow> (k, v) \<in> set d \<longleftrightarrow> od_get d k = Some v"
  by (simp add: od_wf_def)

lemma od_set_absent: "k \<notin> set (od_keys d) \<Longrightarrow> od_set k v d = d @ [(k, v)]"
  by (induction k v d rule: od_set.induct) auto

lemma od_del_absent: "k \<notin> set (od_keys d) \<Longrightarrow> od_del k d = d"
  by (induction d) (auto simp: od_del_def)

lemma od_del_Cons [simp]: "od_del k ((k', v) # d) = (if k' = k then od_del k d else (k', v) # od_del k d)"
  by (simp add: od_del_def)

lemma od_del_Nil [simp]: "od_del k [] = []"
  by (simp add: od_del_def)

lemma od_get_None_iff: "od_get d k = None \<longleftrightarrow> k \<notin> set (od_keys d)"
  by (simp add: map_of_eq_None_iff)

section \<open>Lists\<close>

lemma butlast_subset: "set (butlast xs) \<subseteq> set xs"
  by (auto dest: in_set_butlastD)

lemma tl_subset: "set (tl xs) \<subseteq> set xs"
  by (cases xs) auto

lemma filter_count_partition: "length (filter P xs) + length (filter (\<lambda>x. \<not> P x) xs) = length xs"
  by (rule sum_length_filter_compl)

end
