(* ===== verification/Request.thy ===== *)
theory Request
  imports Prelude "HOL-Library.Word"
begin

text \<open>
  The request of v1/request.py: its status enumeration, the parameters it carries, its token
  lists and counters, and the methods that do not compute block hashes. The fields that only
  transport opaque data (trace headers, KV transfer parameters, client events, the data of a
  multi-modal item) are left out. The order of two requests is the one of
  \<^verbatim>\<open>Request.__lt__\<close>.
\<close>

section \<open>Data\<close>

type_synonym bytes = "8 word list"
type_synonym token = int
type_synonym req_id = string

datatype request_status =
    WAITING
  | WAITING_FOR_FSM
  | WAITING_FOR_REMOTE_KVS
  | WAITING_FOR_STREAMING_REQ
  | RUNNING
  | PREEMPTED
  | FINISHED_STOPPED
  | FINISHED_LENGTH_CAPPED
  | FINISHED_ABORTED
  | FINISHED_IGNORED
  | FINISHED_ERROR
  | FINISHED_REPETITION

text \<open>The values \<^verbatim>\<open>enum.auto()\<close> gives the members, in order from 1.\<close>

fun status_value :: "request_status \<Rightarrow> nat" where
  "status_value WAITING = 1"
| "status_value WAITING_FOR_FSM = 2"
| "status_value WAITING_FOR_REMOTE_KVS = 3"
| "status_value WAITING_FOR_STREAMING_REQ = 4"
| "status_value RUNNING = 5"
| "status_value PREEMPTED = 6"
| "status_value FINISHED_STOPPED = 7"
| "status_value FINISHED_LENGTH_CAPPED = 8"
| "status_value FINISHED_ABORTED = 9"
| "status_value FINISHED_IGNORED = 10"
| "status_value FINISHED_ERROR = 11"
| "status_value FINISHED_REPETITION = 12"

instantiation request_status :: linorder
begin

definition less_eq_request_status :: "request_status \<Rightarrow> request_status \<Rightarrow> bool" where
  "less_eq_request_status a b \<longleftrightarrow> status_value a \<le> status_value b"

definition less_request_status :: "request_status \<Rightarrow> request_status \<Rightarrow> bool" where
  "less_request_status a b \<longleftrightarrow> status_value a < status_value b"

instance
proof
  fix x y z :: request_status
  show "x < y \<longleftrightarrow> x \<le> y \<and> \<not> y \<le> x" "x \<le> x" "x \<le> y \<or> y \<le> x"
    by (auto simp: less_request_status_def less_eq_request_status_def)
  show "x \<le> y \<Longrightarrow> y \<le> z \<Longrightarrow> x \<le> z"
    by (simp add: less_eq_request_status_def)
  show "x \<le> y \<Longrightarrow> y \<le> x \<Longrightarrow> x = y"
    unfolding less_eq_request_status_def by (cases x; cases y) simp_all
qed

end

definition status_is_finished :: "request_status \<Rightarrow> bool" where
  "status_is_finished s \<longleftrightarrow> s > PREEMPTED"

datatype finish_reason = FR_STOP | FR_LENGTH | FR_ABORT | FR_ERROR | FR_REPETITION

fun status_finished_reason :: "request_status \<Rightarrow> finish_reason option" where
  "status_finished_reason FINISHED_STOPPED = Some FR_STOP"
| "status_finished_reason FINISHED_LENGTH_CAPPED = Some FR_LENGTH"
| "status_finished_reason FINISHED_ABORTED = Some FR_ABORT"
| "status_finished_reason FINISHED_IGNORED = Some FR_LENGTH"
| "status_finished_reason FINISHED_ERROR = Some FR_ERROR"
| "status_finished_reason WAITING_FOR_STREAMING_REQ = Some FR_STOP"
| "status_finished_reason FINISHED_REPETITION = Some FR_REPETITION"
| "status_finished_reason _ = None"

datatype stop_reason_val = StopToken token | StopText string

record repetition_detection_params =
  max_pattern_size :: int
  min_pattern_size :: int
  min_count :: int

record sampling_params =
  sp_max_tokens :: "int option"
  min_tokens :: int
  eos_token_id :: "token option"
  stop_token_ids :: "token list option"
  repetition_detection :: "repetition_detection_params option"
  sp_skip_reading_prefix_cache :: "bool option"
  sp_structured_outputs :: bool

record pooling_params =
  pp_skip_reading_prefix_cache :: "bool option"

record lora_request_data =
  lora_name :: string
  lora_int_id :: int

text \<open>PlaceholderRange of vllm/multimodal/inputs.py; \<open>is_embed\<close> is the boolean tensor.\<close>

record placeholder_range =
  offset :: int
  pr_length :: int
  is_embed :: "bool list option"

record mm_feature =
  mm_identifier :: string
  mm_position :: placeholder_range

definition embeds_cumsum :: "bool list \<Rightarrow> nat \<Rightarrow> int" where
  "embeds_cumsum emb i = int (length (filter id (take (Suc i) emb)))"

text \<open>\<^verbatim>\<open>int(self.embeds_cumsum[-1])\<close>: indexing an empty tensor raises.\<close>

definition get_num_embeds :: "placeholder_range \<Rightarrow> int res" where
  "get_num_embeds p =
     (case is_embed p of
        None \<Rightarrow> Inr (pr_length p)
      | Some emb \<Rightarrow> bindR (py_get [0..<length emb] (- 1)) (\<lambda>i. Inr (embeds_cumsum emb i)))"

definition get_embeds_indices_in_range :: "placeholder_range \<Rightarrow> int \<Rightarrow> int \<Rightarrow> (int \<times> int) res" where
  "get_embeds_indices_in_range p start_idx end_idx =
     (case is_embed p of
        None \<Rightarrow> Inr (start_idx, end_idx)
      | Some emb \<Rightarrow>
          bindR (if start_idx > 0
                 then bindR (py_get [0..<length emb] (start_idx - 1)) (\<lambda>i. Inr (embeds_cumsum emb i))
                 else Inr 0)
            (\<lambda>s. bindR (py_get [0..<length emb] (end_idx - 1)) (\<lambda>i. Inr (s, embeds_cumsum emb i))))"

text \<open>StreamingUpdate: the data of one further input chunk of a streaming session.\<close>

record streaming_update =
  su_mm_features :: "mm_feature list option"
  su_prompt_token_ids :: "token list option"
  su_max_tokens :: int
  su_arrival_time :: int
  su_sampling_params :: "sampling_params option"

text \<open>
  \<open>arrival_time\<close> is a float that is only compared and copied; \<open>prompt_embeds\<close> holds the bytes
  of one row per prompt position; \<open>embeds_block_hashes\<close> is the memo
  \<^verbatim>\<open>_prompt_embeds_per_block_hashes\<close>.
\<close>

record request =
  request_id :: req_id
  client_index :: int
  priority :: int
  arrival_time :: int
  status :: request_status
  stop_reason :: "stop_reason_val option"
  sampling :: "sampling_params option"
  pooling :: "pooling_params option"
  max_tokens :: int
  lora_request :: "lora_request_data option"
  cache_salt :: "string option"
  use_structured_output :: bool
  prompt_token_ids :: "token list option"
  prompt_embeds :: "bytes list option"
  embeds_block_hashes :: "nat \<times> nat \<Rightarrow> bytes option"
  num_prompt_tokens :: int
  output_token_ids :: "token list"
  all_token_ids :: "token list"
  spec_token_ids :: "token list"
  num_output_placeholders :: int
  discard_latest_async_tokens :: bool
  num_computed_tokens :: int
  num_cached_tokens :: int
  num_external_computed_tokens :: int
  num_preemptions :: int
  is_prefill_chunk :: bool
  mm_features :: "mm_feature list"
  block_hashes :: "bytes list"
  skip_reading_prefix_cache :: bool
  resumable :: bool
  streaming_queue :: "streaming_update option list option"

section \<open>Methods\<close>

definition length_from_prompt :: "token list option \<Rightarrow> bytes list option \<Rightarrow> int res" where
  "length_from_prompt toks embeds =
     (case toks of
        None \<Rightarrow> (case embeds of None \<Rightarrow> Inl ValueError | Some e \<Rightarrow> Inr (int (length e)))
      | Some ts \<Rightarrow> (case embeds of
            None \<Rightarrow> Inr (int (length ts))
          | Some e \<Rightarrow> if length e \<noteq> length ts then Inl ValueError else Inr (int (length ts))))"

definition skip_reading :: "sampling_params option \<Rightarrow> pooling_params option \<Rightarrow> bool" where
  "skip_reading sp pp =
     (case Option.bind sp sp_skip_reading_prefix_cache of
        Some b \<Rightarrow> b
      | None \<Rightarrow> (case Option.bind pp pp_skip_reading_prefix_cache of Some b \<Rightarrow> b | None \<Rightarrow> False))"

text \<open>\<^verbatim>\<open>Request.__init__\<close> up to the call of \<^verbatim>\<open>update_block_hashes\<close>, which does not
  read the fields set after it.\<close>

definition init_request ::
  "req_id \<Rightarrow> token list option \<Rightarrow> sampling_params option \<Rightarrow> pooling_params option \<Rightarrow> int \<Rightarrow> int \<Rightarrow>
   bytes list option \<Rightarrow> mm_feature list option \<Rightarrow> lora_request_data option \<Rightarrow> string option \<Rightarrow> int \<Rightarrow> bool \<Rightarrow>
   request res"
where
  "init_request rid toks sp pp client arrival embeds mm lora salt prio resum =
     (let structured = (case sp of None \<Rightarrow> False | Some s \<Rightarrow> sp_structured_outputs s)
      in bindR (case pp of
                  Some _ \<Rightarrow> Inr (1, WAITING)
                | None \<Rightarrow> (case sp of
                      Some s \<Rightarrow> (case sp_max_tokens s of
                                   None \<Rightarrow> Inl AssertionError
                                 | Some m \<Rightarrow> Inr (m, if structured then WAITING_FOR_FSM else WAITING))
                    | None \<Rightarrow> Inl ValueError))
           (\<lambda>(mt, st). bindR (length_from_prompt toks embeds) (\<lambda>n.
              Inr \<lparr>request_id = rid, client_index = client, priority = prio, arrival_time = arrival,
                   status = st, stop_reason = None, sampling = sp, pooling = pp, max_tokens = mt,
                   lora_request = lora, cache_salt = salt, use_structured_output = structured,
                   prompt_token_ids = toks, prompt_embeds = embeds, embeds_block_hashes = (\<lambda>_. None),
                   num_prompt_tokens = n, output_token_ids = [],
                   all_token_ids = (case toks of Some ts \<Rightarrow> ts | None \<Rightarrow> replicate (nat n) 0),
                   spec_token_ids = [], num_output_placeholders = 0, discard_latest_async_tokens = False,
                   num_computed_tokens = 0, num_cached_tokens = - 1, num_external_computed_tokens = 0,
                   num_preemptions = 0, is_prefill_chunk = False,
                   mm_features = (case mm of None \<Rightarrow> [] | Some fs \<Rightarrow> fs), block_hashes = [],
                   skip_reading_prefix_cache = skip_reading sp pp, resumable = resum,
                   streaming_queue = None\<rparr>)))"

definition num_tokens :: "request \<Rightarrow> int" where
  "num_tokens r = int (length (all_token_ids r))"

definition num_tokens_with_spec :: "request \<Rightarrow> int" where
  "num_tokens_with_spec r = int (length (all_token_ids r)) + int (length (spec_token_ids r))"

definition num_output_tokens :: "request \<Rightarrow> int" where
  "num_output_tokens r = int (length (output_token_ids r))"

definition has_encoder_inputs :: "request \<Rightarrow> bool" where
  "has_encoder_inputs r \<longleftrightarrow> length (mm_features r) > 0"

definition is_finished :: "request \<Rightarrow> bool" where
  "is_finished r = status_is_finished (status r)"

definition get_finished_reason :: "request \<Rightarrow> finish_reason option" where
  "get_finished_reason r = status_finished_reason (status r)"

text \<open>Both callers pass an index taken from \<^verbatim>\<open>range(len(mm_features))\<close>.\<close>

definition get_num_encoder_embeds :: "request \<Rightarrow> nat \<Rightarrow> int res" where
  "get_num_encoder_embeds r i =
     (if i < length (mm_features r) then get_num_embeds (mm_position (mm_features r ! i))
      else Inl AssertionError)"

definition streaming_update_from_request :: "request \<Rightarrow> streaming_update option" where
  "streaming_update_from_request r =
     (if \<not> resumable r then None
      else Some \<lparr>su_mm_features = Some (mm_features r), su_prompt_token_ids = prompt_token_ids r,
                 su_max_tokens = max_tokens r, su_arrival_time = arrival_time r,
                 su_sampling_params = sampling r\<rparr>)"

text \<open>Strings compare by code point, as in Python.\<close>

fun str_less :: "string \<Rightarrow> string \<Rightarrow> bool" where
  "str_less [] [] = False"
| "str_less [] (_ # _) = True"
| "str_less (_ # _) [] = False"
| "str_less (a # as) (b # bs) =
     (if a = b then str_less as bs else (of_char a :: nat) < of_char b)"

text \<open>\<^verbatim>\<open>Request.__lt__\<close>. The final tie break on \<^verbatim>\<open>id(self)\<close> is between two objects with
  the same request id, which the scheduler never holds at once; here it is \<open>False\<close>.\<close>

definition request_lt :: "request \<Rightarrow> request \<Rightarrow> bool" where
  "request_lt a b =
     (if priority a \<noteq> priority b then priority a < priority b
      else if arrival_time a \<noteq> arrival_time b then arrival_time a < arrival_time b
      else if request_id a \<noteq> request_id b then str_less (request_id a) (request_id b)
      else False)"

section \<open>Lemmas\<close>

lemma status_is_finished_cases:
  "status_is_finished s \<longleftrightarrow> s \<in> {FINISHED_STOPPED, FINISHED_LENGTH_CAPPED, FINISHED_ABORTED,
     FINISHED_IGNORED, FINISHED_ERROR, FINISHED_REPETITION}"
  by (cases s) (simp_all add: status_is_finished_def less_request_status_def)

lemma finished_has_reason: "status_is_finished s \<Longrightarrow> status_finished_reason s \<noteq> None"
  by (cases s) (simp_all add: status_is_finished_def less_request_status_def)

lemma str_less_irrefl: "\<not> str_less s s"
  by (induction s) auto

lemma str_less_trans: "str_less a b \<Longrightarrow> str_less b c \<Longrightarrow> str_less a c"
proof (induction a b arbitrary: c rule: str_less.induct)
  case (2 y ys)
  then show ?case by (cases c) auto
next
  case (4 a as b bs)
  then show ?case by (cases c) (auto split: if_splits)
qed auto

lemma str_less_linear: "a \<noteq> b \<Longrightarrow> str_less a b \<or> str_less b a"
proof (induction a b rule: str_less.induct)
  case (4 a as b bs)
  show ?case
  proof (cases "a = b")
    case False
    then have "(of_char a :: nat) \<noteq> of_char b" using of_char_eq_iff by blast
    then have "(of_char a :: nat) < of_char b \<or> (of_char b :: nat) < of_char a" by (rule nat_neq_iff [THEN iffD1])
    with False show ?thesis by simp
  qed (use 4 in simp)
qed auto

lemma request_lt_irrefl: "\<not> request_lt r r"
  by (simp add: request_lt_def)

lemma request_lt_trans: "request_lt a b \<Longrightarrow> request_lt b c \<Longrightarrow> request_lt a c"
  unfolding request_lt_def using str_less_trans str_less_irrefl by (auto split: if_splits) blast

lemma request_lt_total: "request_id a \<noteq> request_id b \<Longrightarrow> request_lt a b \<or> request_lt b a"
  using str_less_linear unfolding request_lt_def by (auto split: if_splits)

lemma get_num_embeds_nonneg: "get_num_embeds p = Inr n \<Longrightarrow> 0 \<le> pr_length p \<Longrightarrow> 0 \<le> n"
  by (auto simp: get_num_embeds_def bindR_eq_Inr embeds_cumsum_def split: option.splits)

lemma get_num_embeds_mask:
  "is_embed p = Some emb \<Longrightarrow> emb \<noteq> [] \<Longrightarrow> get_num_embeds p = Inr (int (length (filter id emb)))"
  by (cases emb rule: rev_cases) (auto simp: get_num_embeds_def py_get_def Let_def embeds_cumsum_def nth_append)

end
