(* ===== verification/Block_Hash.thy ===== *)
theory Block_Hash
  imports Request
begin

text \<open>
  Block hashes of v1/core/kv\_cache\_utils.py and the methods of v1/request.py that maintain
  them: packing a hash with its group id, the extra keys of a block, the chained hash of a
  block, the hasher that extends a request's hash list, and the view of a hash list at a
  coarser block size. The hash functions and the seed \<^verbatim>\<open>NONE_HASH\<close> are parameters, collected
  in the record \<open>hash_env\<close>. The lemmas relate the incremental hasher to a from-scratch
  definition of the chain and show that, for a collision-free hash function, equal chain
  hashes mean equal token prefixes and extra keys.
\<close>

section \<open>Hash keys with a group id\<close>

text \<open>\<^verbatim>\<open>int.to_bytes(4, "big", signed=False)\<close> and \<^verbatim>\<open>int.from_bytes(_, "big")\<close>.\<close>

definition to_bytes4 :: "int \<Rightarrow> bytes res" where
  "to_bytes4 n =
     (if 0 \<le> n \<and> n < 2 ^ 32
      then Inr [word_of_int (n div 2 ^ 24), word_of_int (n div 2 ^ 16), word_of_int (n div 2 ^ 8), word_of_int n]
      else Inl OverflowError)"

definition from_bytes :: "bytes \<Rightarrow> int" where
  "from_bytes bs = foldl (\<lambda>acc b. acc * 256 + uint b) 0 bs"

definition make_block_hash_with_group_id :: "bytes \<Rightarrow> int \<Rightarrow> bytes res" where
  "make_block_hash_with_group_id block_hash group_id =
     bindR (to_bytes4 group_id) (\<lambda>g. Inr (block_hash @ g))"

definition get_block_hash :: "bytes \<Rightarrow> bytes" where
  "get_block_hash key = take (length key - 4) key"

definition get_group_id :: "bytes \<Rightarrow> int" where
  "get_group_id key = from_bytes (drop (length key - 4) key)"

text \<open>The external form of a hash: the bytes, or their last 64 bits as an integer when
  \<^verbatim>\<open>VLLM_KV_EVENTS_USE_INT_BLOCK_HASHES\<close> is set.\<close>

datatype external_block_hash = ExtBytes bytes | ExtInt int

definition maybe_convert_block_hash :: "bool \<Rightarrow> bytes \<Rightarrow> external_block_hash" where
  "maybe_convert_block_hash use_int hash_bytes =
     (if \<not> use_int then ExtBytes hash_bytes
      else ExtInt (and (from_bytes hash_bytes) (push_bit 64 1 - 1)))"

section \<open>Extra keys\<close>

datatype py_key = PStr string | PBytes bytes

record hash_env =
  caching_hash_fn :: "bytes \<times> token list \<times> py_key list option \<Rightarrow> bytes"
  NONE_HASH :: bytes
  sha256 :: "bytes \<Rightarrow> bytes"

definition need_extra_keys :: "request \<Rightarrow> bool" where
  "need_extra_keys r \<longleftrightarrow> mm_features r \<noteq> [] \<or> lora_request r \<noteq> None \<or> cache_salt r \<noteq> None"

text \<open>The while loop of \<^verbatim>\<open>_gen_mm_extra_hash_keys\<close>.\<close>

function mm_keys_loop :: "mm_feature list \<Rightarrow> int \<Rightarrow> int \<Rightarrow> nat \<Rightarrow> string list \<Rightarrow> string list \<times> nat" where
  "mm_keys_loop feats start_token_idx end_token_idx curr_mm_idx extra_keys =
     (if curr_mm_idx < length feats then
        let f = feats ! curr_mm_idx; off = offset (mm_position f); len = pr_length (mm_position f)
        in if end_token_idx > off then
             (if start_token_idx > off + len
              then mm_keys_loop feats start_token_idx end_token_idx (curr_mm_idx + 1) extra_keys
              else if end_token_idx \<ge> off + len
              then mm_keys_loop feats start_token_idx end_token_idx (curr_mm_idx + 1)
                     (extra_keys @ [mm_identifier f])
              else (extra_keys @ [mm_identifier f], curr_mm_idx))
           else (extra_keys, curr_mm_idx)
      else (extra_keys, curr_mm_idx))"
  by pat_completeness auto
termination by (relation "measure (\<lambda>(fs, _, _, i, _). length fs - i)") auto

declare mm_keys_loop.simps [simp del]

definition gen_mm_extra_hash_keys ::
  "request \<Rightarrow> int \<Rightarrow> int \<Rightarrow> int \<Rightarrow> (string list \<times> int) res" where
  "gen_mm_extra_hash_keys r start_token_idx end_token_idx start_mm_idx =
     (let feats = mm_features r in
      if feats = [] then Inr ([], start_mm_idx)
      else let last_pos = mm_position (last feats) in
        if offset last_pos + pr_length last_pos < start_token_idx then Inr ([], start_mm_idx)
        else bindR (assertR (start_mm_idx < 0 \<longrightarrow> - start_mm_idx \<le> int (length feats))) (\<lambda>_.
          let idx = (if start_mm_idx < 0 then int (length feats) + start_mm_idx else start_mm_idx);
              (keys, i) = mm_keys_loop feats start_token_idx end_token_idx (nat idx) []
          in Inr (keys, int i)))"

definition gen_lora_extra_hash_keys :: "request \<Rightarrow> string list" where
  "gen_lora_extra_hash_keys r = (case lora_request r of None \<Rightarrow> [] | Some l \<Rightarrow> [lora_name l])"

text \<open>The memo on the request is read first and written on a miss.\<close>

definition gen_prompt_embeds_extra_hash_keys ::
  "hash_env \<Rightarrow> request \<Rightarrow> nat \<Rightarrow> nat \<Rightarrow> bytes list \<times> request" where
  "gen_prompt_embeds_extra_hash_keys env r start_token_idx end_token_idx =
     (case prompt_embeds r of
        None \<Rightarrow> ([], r)
      | Some rows \<Rightarrow>
          (case embeds_block_hashes r (start_token_idx, end_token_idx) of
             Some h \<Rightarrow> ([h], r)
           | None \<Rightarrow>
               let h = sha256 env (concat (py_slice start_token_idx end_token_idx rows))
               in ([h], r\<lparr>embeds_block_hashes :=
                            (embeds_block_hashes r)((start_token_idx, end_token_idx) := Some h)\<rparr>)))"

definition generate_block_hash_extra_keys ::
  "hash_env \<Rightarrow> request \<Rightarrow> nat \<Rightarrow> nat \<Rightarrow> int \<Rightarrow> (py_key list option \<times> int \<times> request) res" where
  "generate_block_hash_extra_keys env r start_token_idx end_token_idx start_mm_idx =
     bindR (gen_mm_extra_hash_keys r (int start_token_idx) (int end_token_idx) start_mm_idx)
       (\<lambda>(mm_extra_keys, new_start_mm_idx).
          let lora_extra_keys = gen_lora_extra_hash_keys r;
              cache_salt_keys = (case cache_salt r of
                                   Some s \<Rightarrow> if start_token_idx = 0 \<and> s \<noteq> [] then [s] else []
                                 | None \<Rightarrow> []);
              (prompt_embeds_keys, r') =
                 gen_prompt_embeds_extra_hash_keys env r start_token_idx end_token_idx;
              extra_keys = map PStr (lora_extra_keys @ mm_extra_keys @ cache_salt_keys)
                             @ map PBytes prompt_embeds_keys
          in Inr (if extra_keys = [] then None else Some extra_keys, new_start_mm_idx, r'))"

section \<open>The chained hash and the hasher\<close>

definition hash_block_tokens ::
  "hash_env \<Rightarrow> bytes option \<Rightarrow> token list \<Rightarrow> py_key list option \<Rightarrow> bytes" where
  "hash_block_tokens env parent_block_hash curr_block_token_ids extra_keys =
     (let parent = (case parent_block_hash of
                      None \<Rightarrow> NONE_HASH env
                    | Some h \<Rightarrow> if h = [] then NONE_HASH env else h)
      in caching_hash_fn env (parent, curr_block_token_ids, extra_keys))"

text \<open>
  The loop of \<^verbatim>\<open>request_block_hasher\<close>, with the request threaded for its memo. A zero
  block size, for which the Python loop would not end, is outside the configuration's range;
  the model raises there.
\<close>

function hasher_loop ::
  "hash_env \<Rightarrow> nat \<Rightarrow> nat \<Rightarrow> request \<Rightarrow> nat \<Rightarrow> int \<Rightarrow> bytes option \<Rightarrow> bytes list \<Rightarrow> (bytes list \<times> request) res"
where
  "hasher_loop env block_size n r start_token_idx curr_mm_idx prev_block_hash_value new_block_hashes =
     (if block_size = 0 then Inl ValueError
      else let end_token_idx = start_token_idx + block_size in
        if end_token_idx > n then Inr (new_block_hashes, r)
        else bindR (generate_block_hash_extra_keys env r start_token_idx end_token_idx curr_mm_idx)
          (\<lambda>(extra_keys, mm_idx, r').
             let block_tokens = py_slice start_token_idx end_token_idx (all_token_ids r');
                 block_hash = hash_block_tokens env prev_block_hash_value block_tokens extra_keys
             in hasher_loop env block_size n r' end_token_idx mm_idx (Some block_hash)
                  (new_block_hashes @ [block_hash])))"
  by pat_completeness auto
termination by (relation "measure (\<lambda>(_, _, n, _, s, _). n - s)") auto

declare hasher_loop.simps [simp del]

definition request_block_hasher :: "hash_env \<Rightarrow> nat \<Rightarrow> request \<Rightarrow> (bytes list \<times> request) res" where
  "request_block_hasher env block_size r =
     (let start_token_idx = length (block_hashes r) * block_size;
          n = length (all_token_ids r)
      in if start_token_idx + block_size > n then Inr ([], r)
         else let curr_mm_idx = (if start_token_idx > 0 then - 1 else 0);
                  prev = (if block_hashes r \<noteq> [] then Some (last (block_hashes r)) else None)
              in hasher_loop env block_size n r start_token_idx curr_mm_idx prev [])"

text \<open>The hasher of a request is \<^verbatim>\<open>None\<close> when neither prefix caching nor a connector is used.\<close>

type_synonym block_hasher = "(hash_env \<times> nat) option"

definition update_block_hashes :: "block_hasher \<Rightarrow> request \<Rightarrow> request res" where
  "update_block_hashes hasher r =
     (case hasher of
        None \<Rightarrow> Inr r
      | Some (env, block_size) \<Rightarrow>
          bindR (request_block_hasher env block_size r)
            (\<lambda>(hs, r'). Inr (r'\<lparr>block_hashes := block_hashes r' @ hs\<rparr>)))"

definition append_output_token_ids :: "block_hasher \<Rightarrow> token list \<Rightarrow> request \<Rightarrow> request res" where
  "append_output_token_ids hasher token_ids r =
     update_block_hashes hasher
       (r\<lparr>output_token_ids := output_token_ids r @ token_ids,
          all_token_ids := all_token_ids r @ token_ids\<rparr>)"

section \<open>Hashes at a coarser block size\<close>

record hash_list_with_block_size =
  hl_block_hashes :: "bytes list"
  scale_factor :: nat

definition new_hash_list :: "bytes list \<Rightarrow> nat \<Rightarrow> nat \<Rightarrow> hash_list_with_block_size res" where
  "new_hash_list bhs hash_block_size target_block_size =
     bindR (assertR (target_block_size mod hash_block_size = 0))
       (\<lambda>_. Inr \<lparr>hl_block_hashes = bhs, scale_factor = target_block_size div hash_block_size\<rparr>)"

definition hash_list_len :: "hash_list_with_block_size \<Rightarrow> nat" where
  "hash_list_len hl = length (hl_block_hashes hl) div scale_factor hl"

definition get_value_at :: "hash_list_with_block_size \<Rightarrow> nat \<Rightarrow> bytes res" where
  "get_value_at hl idx =
     (let base = idx * scale_factor hl; e = base + scale_factor hl
      in bindR (py_get (hl_block_hashes hl) (int base)) (\<lambda>first.
           foldR (\<lambda>i merged. bindR (py_get (hl_block_hashes hl) (int i)) (\<lambda>h. Inr (merged @ h)))
             [base + 1..<e] first))"

definition hash_list_iter :: "hash_list_with_block_size \<Rightarrow> bytes list res" where
  "hash_list_iter hl = mapR (get_value_at hl) [0..<hash_list_len hl]"

section \<open>Lemmas: packing\<close>

lemma from_bytes_append: "from_bytes (a @ [b]) = from_bytes a * 256 + uint b"
  by (simp add: from_bytes_def)

lemma to_bytes4_length: "to_bytes4 n = Inr g \<Longrightarrow> length g = 4"
  by (auto simp: to_bytes4_def split: if_splits)

lemma uint_byte: "uint (word_of_int n :: 8 word) = n mod 256"
  by (simp add: uint_word_of_int)

lemma from_to_bytes4: "to_bytes4 n = Inr g \<Longrightarrow> from_bytes g = n"
proof -
  assume "to_bytes4 n = Inr g"
  then have n: "0 \<le> n" "n < 4294967296"
    and g: "g = [word_of_int (n div 16777216), word_of_int (n div 65536), word_of_int (n div 256), word_of_int n]"
    by (auto simp: to_bytes4_def split: if_splits)
  have s: "m div 256 * 256 + m mod 256 = m" for m :: int by simp
  have d: "n div 65536 = n div 256 div 256" "n div 16777216 = n div 256 div 256 div 256"
    using zdiv_zmult2_eq [of 256 n 256] zdiv_zmult2_eq [of 256 n 65536] zdiv_zmult2_eq [of 256 "n div 256" 256]
    by simp_all
  have "(n div 16777216) mod 256 = n div 16777216" using n by simp
  then have "(((n div 16777216) mod 256 * 256 + (n div 65536) mod 256) * 256 + (n div 256) mod 256) * 256 + n mod 256 = n"
    by (simp only: d s)
  then show ?thesis by (simp only: g from_bytes_def uint_byte foldl.simps mult_zero_left add_0_left)
qed

lemma group_id_roundtrip:
  assumes "make_block_hash_with_group_id h g = Inr k"
  shows "get_block_hash k = h" "get_group_id k = g"
  using assms to_bytes4_length from_to_bytes4
  by (auto simp: make_block_hash_with_group_id_def bindR_eq_Inr get_block_hash_def get_group_id_def)

lemma make_group_key_ok: "is_ok (make_block_hash_with_group_id h g) \<longleftrightarrow> 0 \<le> g \<and> g < 2 ^ 32"
  by (auto simp: make_block_hash_with_group_id_def to_bytes4_def)

lemma make_group_key_inject:
  "make_block_hash_with_group_id h g = Inr k \<Longrightarrow> make_block_hash_with_group_id h' g' = Inr k \<Longrightarrow>
   h = h' \<and> g = g'"
  using group_id_roundtrip by metis

section \<open>Lemmas: the hasher computes the chain\<close>

text \<open>
  The chain from scratch: what the hash of block \<open>i\<close> is by definition, with no memo, no
  multi-modal index and no incremental state.
\<close>

definition text_keys :: "hash_env \<Rightarrow> nat \<Rightarrow> request \<Rightarrow> nat \<Rightarrow> py_key list option" where
  "text_keys env bs r i =
     (let ks = map PStr (gen_lora_extra_hash_keys r @
                 (case cache_salt r of Some s \<Rightarrow> if i * bs = 0 \<and> s \<noteq> [] then [s] else [] | None \<Rightarrow> [])) @
               (case prompt_embeds r of None \<Rightarrow> []
                | Some rows \<Rightarrow> [PBytes (sha256 env (concat (py_slice (i * bs) (i * bs + bs) rows)))])
      in if ks = [] then None else Some ks)"

fun chain_hash :: "hash_env \<Rightarrow> nat \<Rightarrow> request \<Rightarrow> nat \<Rightarrow> bytes" where
  "chain_hash env bs r 0 =
     hash_block_tokens env None (py_slice 0 bs (all_token_ids r)) (text_keys env bs r 0)"
| "chain_hash env bs r (Suc i) =
     hash_block_tokens env (Some (chain_hash env bs r i))
       (py_slice (Suc i * bs) (Suc i * bs + bs) (all_token_ids r)) (text_keys env bs r (Suc i))"

definition chain :: "hash_env \<Rightarrow> nat \<Rightarrow> request \<Rightarrow> bytes list" where
  "chain env bs r = map (chain_hash env bs r) [0..<length (all_token_ids r) div bs]"

text \<open>The memo holds only hashes of the rows it is keyed by.\<close>

definition memo_ok :: "hash_env \<Rightarrow> request \<Rightarrow> bool" where
  "memo_ok env r \<longleftrightarrow>
     (\<forall>rows s e h. prompt_embeds r = Some rows \<longrightarrow> embeds_block_hashes r (s, e) = Some h \<longrightarrow>
        h = sha256 env (concat (py_slice s e rows)))"

text \<open>Two requests that agree on everything the chain reads.\<close>

definition same_text :: "request \<Rightarrow> request \<Rightarrow> bool" where
  "same_text r r' \<longleftrightarrow> mm_features r' = mm_features r \<and> lora_request r' = lora_request r \<and>
     cache_salt r' = cache_salt r \<and> prompt_embeds r' = prompt_embeds r"

lemma text_keys_cong: "same_text r r' \<Longrightarrow> text_keys env bs r' i = text_keys env bs r i"
  by (simp add: text_keys_def same_text_def gen_lora_extra_hash_keys_def)

lemma chain_hash_cong:
  assumes "same_text r r'" and "\<And>j. j \<le> i \<Longrightarrow>
    py_slice (j * bs) (j * bs + bs) (all_token_ids r') = py_slice (j * bs) (j * bs + bs) (all_token_ids r)"
  shows "chain_hash env bs r' i = chain_hash env bs r i"
  using assms(2)
proof (induction i)
  case 0
  from 0 [of 0] show ?case using text_keys_cong [OF assms(1)] by simp
next
  case (Suc i)
  then show ?case using text_keys_cong [OF assms(1)] Suc.prems [of "Suc i"] by simp
qed

lemma memo_refl: "\<exists>m. r = r\<lparr>embeds_block_hashes := m\<rparr>"
  by (rule exI [of _ "embeds_block_hashes r"]) simp

lemma gen_embeds_keys_memo:
  assumes "memo_ok env r" "gen_prompt_embeds_extra_hash_keys env r s e = (ks, r')"
  shows "ks = (case prompt_embeds r of None \<Rightarrow> [] | Some rows \<Rightarrow> [sha256 env (concat (py_slice s e rows))])"
    and "memo_ok env r'" and "\<exists>m. r' = r\<lparr>embeds_block_hashes := m\<rparr>"
proof -
  show "\<exists>m. r' = r\<lparr>embeds_block_hashes := m\<rparr>"
    using assms(2) unfolding gen_prompt_embeds_extra_hash_keys_def
    by (auto simp: Let_def intro: memo_refl split: option.splits)
  show "ks = (case prompt_embeds r of None \<Rightarrow> [] | Some rows \<Rightarrow> [sha256 env (concat (py_slice s e rows))])"
    using assms by (auto simp: gen_prompt_embeds_extra_hash_keys_def memo_ok_def Let_def split: option.splits)
  show "memo_ok env r'"
    using assms by (auto simp: gen_prompt_embeds_extra_hash_keys_def memo_ok_def Let_def
        split: option.splits if_splits)
qed

lemma extra_keys_text:
  assumes "memo_ok env r" "mm_features r = []"
  shows "\<exists>m. generate_block_hash_extra_keys env r (i * bs) (i * bs + bs) x =
                Inr (text_keys env bs r i, x, r\<lparr>embeds_block_hashes := m\<rparr>) \<and>
             memo_ok env (r\<lparr>embeds_block_hashes := m\<rparr>)"
proof -
  obtain ks r' where g: "gen_prompt_embeds_extra_hash_keys env r (i * bs) (i * bs + bs) = (ks, r')"
    by fastforce
  from gen_embeds_keys_memo [OF assms(1) g] obtain m where m: "r' = r\<lparr>embeds_block_hashes := m\<rparr>"
    and ks: "ks = (case prompt_embeds r of None \<Rightarrow> [] | Some rows \<Rightarrow> [sha256 env (concat (py_slice (i * bs) (i * bs + bs) rows))])"
    and ok: "memo_ok env r'" by blast
  have "gen_mm_extra_hash_keys r a b x = Inr ([], x)" for a b
    using assms(2) by (simp add: gen_mm_extra_hash_keys_def)
  then have "generate_block_hash_extra_keys env r (i * bs) (i * bs + bs) x =
      Inr (text_keys env bs r i, x, r')"
    unfolding generate_block_hash_extra_keys_def text_keys_def g
    by (cases "prompt_embeds r") (simp_all add: Let_def ks)
  then show ?thesis using ok unfolding m by blast
qed

lemma chain_hash_memo [simp]:
  "chain_hash env bs (r\<lparr>embeds_block_hashes := m\<rparr>) i = chain_hash env bs r i"
  by (rule chain_hash_cong) (simp_all add: same_text_def)

lemma hasher_loop_chain:
  assumes "0 < bs" "memo_ok env r" "mm_features r = []" "n = length (all_token_ids r)"
    and "prev = (case i of 0 \<Rightarrow> None | Suc j \<Rightarrow> Some (chain_hash env bs r j))"
  shows "\<exists>m. hasher_loop env bs n r (i * bs) x prev acc =
               Inr (acc @ map (chain_hash env bs r) [i..<n div bs], r\<lparr>embeds_block_hashes := m\<rparr>) \<and>
             memo_ok env (r\<lparr>embeds_block_hashes := m\<rparr>)"
  using assms(2-)
proof (induction "n div bs - i" arbitrary: i r x prev acc)
  case 0
  then have "\<not> i < n div bs" by simp
  then have "n < i * bs + bs" using full_block_iff [OF assms(1), of i n] by linarith
  with assms(1) have "hasher_loop env bs n r (i * bs) x prev acc = Inr (acc, r)"
    by (subst hasher_loop.simps) (simp add: Let_def)
  moreover have "[i..<n div bs] = []" using \<open>\<not> i < n div bs\<close> by simp
  moreover have "r = r\<lparr>embeds_block_hashes := embeds_block_hashes r\<rparr>" by simp
  ultimately show ?case using 0(2) by (metis append_Nil2 list.simps(8))
next
  case (Suc k)
  then have i: "i < n div bs" by simp
  then have le: "\<not> i * bs + bs > n" using full_block_iff [OF assms(1)] by simp
  from extra_keys_text [OF Suc(3,4), of i bs x] obtain m where
    g: "generate_block_hash_extra_keys env r (i * bs) (i * bs + bs) x =
          Inr (text_keys env bs r i, x, r\<lparr>embeds_block_hashes := m\<rparr>)"
    and ok: "memo_ok env (r\<lparr>embeds_block_hashes := m\<rparr>)" by blast
  let ?r = "r\<lparr>embeds_block_hashes := m\<rparr>"
  have h: "hash_block_tokens env prev (py_slice (i * bs) (i * bs + bs) (all_token_ids r)) (text_keys env bs r i)
           = chain_hash env bs r i"
    using Suc.prems(4) by (cases i) auto
  have step: "hasher_loop env bs n r (i * bs) x prev acc =
      hasher_loop env bs n ?r (Suc i * bs) x (Some (chain_hash env bs r i)) (acc @ [chain_hash env bs r i])"
    using assms(1) le g h by (subst hasher_loop.simps) (simp add: Let_def algebra_simps)
  have "\<exists>m'. hasher_loop env bs n ?r (Suc i * bs) x (Some (chain_hash env bs r i)) (acc @ [chain_hash env bs r i]) =
      Inr ((acc @ [chain_hash env bs r i]) @ map (chain_hash env bs ?r) [Suc i..<n div bs], ?r\<lparr>embeds_block_hashes := m'\<rparr>)
      \<and> memo_ok env (?r\<lparr>embeds_block_hashes := m'\<rparr>)"
    using Suc(2) Suc.prems ok by (intro Suc(1)) auto
  then obtain m' where "hasher_loop env bs n r (i * bs) x prev acc =
      Inr (acc @ chain_hash env bs r i # map (chain_hash env bs r) [Suc i..<n div bs], r\<lparr>embeds_block_hashes := m'\<rparr>)"
    "memo_ok env (r\<lparr>embeds_block_hashes := m'\<rparr>)" by (auto simp: step)
  moreover have "map (chain_hash env bs r) [i..<n div bs] =
      chain_hash env bs r i # map (chain_hash env bs r) [Suc i..<n div bs]"
    using i by (simp add: upt_conv_Cons)
  ultimately show ?case by metis
qed

text \<open>The hash list of a request is a prefix of its chain.\<close>

definition hashes_prefix :: "hash_env \<Rightarrow> nat \<Rightarrow> request \<Rightarrow> bool" where
  "hashes_prefix env bs r \<longleftrightarrow> memo_ok env r \<and> length (block_hashes r) \<le> length (all_token_ids r) div bs \<and>
     block_hashes r = map (chain_hash env bs r) [0..<length (block_hashes r)]"

lemma update_block_hashes_chain:
  assumes "0 < bs" "mm_features r = []" "hashes_prefix env bs r"
  shows "\<exists>m. update_block_hashes (Some (env, bs)) r =
           Inr (r\<lparr>embeds_block_hashes := m, block_hashes := chain env bs r\<rparr>) \<and>
         hashes_prefix env bs (r\<lparr>embeds_block_hashes := m, block_hashes := chain env bs r\<rparr>)"
proof -
  let ?k = "length (block_hashes r)" and ?n = "length (all_token_ids r)"
  from assms(3) have ok: "memo_ok env r" and le: "?k \<le> ?n div bs"
    and eq: "block_hashes r = map (chain_hash env bs r) [0..<?k]" by (auto simp: hashes_prefix_def)
  have last: "block_hashes r \<noteq> [] \<Longrightarrow> last (block_hashes r) = chain_hash env bs r (?k - 1)"
    using eq by (metis last_conv_nth length_greater_0_conv diff_less zero_less_one nth_map_upt add_0 minus_nat.diff_0)
  have pre: "\<exists>m. request_block_hasher env bs r = Inr (map (chain_hash env bs r) [?k..<?n div bs], r\<lparr>embeds_block_hashes := m\<rparr>)
               \<and> memo_ok env (r\<lparr>embeds_block_hashes := m\<rparr>)"
  proof (cases "?k * bs + bs > ?n")
    case True
    then have "\<not> ?k < ?n div bs" using full_block_iff [OF assms(1), of ?k ?n] by simp
    then have "[?k..<?n div bs] = []" using le by simp
    then show ?thesis
      using True ok by (intro exI [of _ "embeds_block_hashes r"]) (simp add: request_block_hasher_def Let_def)
  next
    case False
    let ?prev = "if block_hashes r \<noteq> [] then Some (last (block_hashes r)) else None"
    have "?prev = (case ?k of 0 \<Rightarrow> None | Suc j \<Rightarrow> Some (chain_hash env bs r j))"
      using last by (cases ?k) auto
    from hasher_loop_chain [OF assms(1) ok assms(2) refl this, of "if ?k * bs > 0 then - 1 else 0" "[]"]
    show ?thesis using False by (simp add: request_block_hasher_def Let_def cong: if_cong)
  qed
  then obtain m where m: "request_block_hasher env bs r =
      Inr (map (chain_hash env bs r) [?k..<?n div bs], r\<lparr>embeds_block_hashes := m\<rparr>)"
    "memo_ok env (r\<lparr>embeds_block_hashes := m\<rparr>)" by blast
  have cat: "block_hashes r @ map (chain_hash env bs r) [?k..<?n div bs] = chain env bs r"
    unfolding chain_def using eq le by (metis map_append upt_add_eq_append zero_le le_add_diff_inverse)
  let ?r = "r\<lparr>embeds_block_hashes := m, block_hashes := chain env bs r\<rparr>"
  have "chain_hash env bs ?r i = chain_hash env bs r i" for i
    by (rule chain_hash_cong) (simp_all add: same_text_def)
  moreover have "memo_ok env ?r" using m(2) by (simp add: memo_ok_def)
  ultimately have "hashes_prefix env bs ?r" by (simp add: hashes_prefix_def chain_def)
  then show ?thesis using m(1) cat by (auto simp: update_block_hashes_def)
qed

lemma hashes_prefix_append:
  assumes "0 < bs" "hashes_prefix env bs r"
  shows "hashes_prefix env bs (r\<lparr>output_token_ids := out, all_token_ids := all_token_ids r @ ts\<rparr>)"
proof -
  let ?r = "r\<lparr>output_token_ids := out, all_token_ids := all_token_ids r @ ts\<rparr>"
  have "chain_hash env bs ?r i = chain_hash env bs r i" if "i < length (block_hashes r)" for i
  proof (rule chain_hash_cong)
    fix j assume "j \<le> i"
    with that assms have "j < length (all_token_ids r) div bs" by (simp add: hashes_prefix_def)
    with full_block_iff [OF assms(1)] have "j * bs + bs \<le> length (all_token_ids r)" by blast
    then show "py_slice (j * bs) (j * bs + bs) (all_token_ids ?r) = py_slice (j * bs) (j * bs + bs) (all_token_ids r)"
      by (simp add: py_slice_append1)
  qed (simp add: same_text_def)
  then have "map (chain_hash env bs ?r) [0..<length (block_hashes r)] = block_hashes r"
    using assms(2) by (subst hashes_prefix_def [THEN iffD1, THEN conjunct2, THEN conjunct2, OF assms(2)]) simp
  moreover have "length (all_token_ids r) div bs \<le> length (all_token_ids ?r) div bs"
    by (simp add: div_le_mono)
  ultimately show ?thesis using assms(2) by (simp add: hashes_prefix_def memo_ok_def)
qed

lemma append_output_chain:
  assumes "0 < bs" "mm_features r = []" "hashes_prefix env bs r"
  shows "\<exists>r'. append_output_token_ids (Some (env, bs)) ts r = Inr r' \<and> mm_features r' = [] \<and>
           hashes_prefix env bs r' \<and> block_hashes r' = chain env bs r' \<and>
           all_token_ids r' = all_token_ids r @ ts"
proof -
  let ?r = "r\<lparr>output_token_ids := output_token_ids r @ ts, all_token_ids := all_token_ids r @ ts\<rparr>"
  obtain m where m: "update_block_hashes (Some (env, bs)) ?r =
      Inr (?r\<lparr>embeds_block_hashes := m, block_hashes := chain env bs ?r\<rparr>)"
    "hashes_prefix env bs (?r\<lparr>embeds_block_hashes := m, block_hashes := chain env bs ?r\<rparr>)"
    using update_block_hashes_chain [OF assms(1) _ hashes_prefix_append [OF assms(1,3), where ts = ts and out = "output_token_ids r @ ts"]]
      assms(2) by auto
  let ?r' = "?r\<lparr>embeds_block_hashes := m, block_hashes := chain env bs ?r\<rparr>"
  have "chain_hash env bs ?r' i = chain_hash env bs ?r i" for i
    by (rule chain_hash_cong) (simp_all add: same_text_def)
  then have "chain env bs ?r' = chain env bs ?r" by (simp add: chain_def)
  then show ?thesis using m assms(2) by (intro exI [of _ ?r']) (simp add: append_output_token_ids_def)
qed

lemma append_outputs_chain:
  assumes "0 < bs" "mm_features r = []" "hashes_prefix env bs r" "block_hashes r = chain env bs r"
  shows "\<exists>r'. foldR (append_output_token_ids (Some (env, bs))) tss r = Inr r' \<and>
           block_hashes r' = chain env bs r' \<and> all_token_ids r' = all_token_ids r @ concat tss"
  using assms(2-)
proof (induction tss arbitrary: r)
  case (Cons ts tss)
  from append_output_chain [OF assms(1) Cons.prems(1,2), of ts] obtain r1 where
    r1: "append_output_token_ids (Some (env, bs)) ts r = Inr r1" "mm_features r1 = []"
      "hashes_prefix env bs r1" "block_hashes r1 = chain env bs r1" "all_token_ids r1 = all_token_ids r @ ts"
    by blast
  from Cons.IH [OF r1(2-4)] r1 show ?case by auto
qed simp

lemma init_hashes_prefix: "init_request rid toks sp pp c a e mm l salt p rs = Inr r \<Longrightarrow> hashes_prefix env bs r"
  by (auto simp: init_request_def Let_def bindR_eq_Inr hashes_prefix_def memo_ok_def)

section \<open>Lemmas: equal hashes mean equal prefixes\<close>

text \<open>What prefix caching assumes of the hash function: no collisions, no empty digest, and a
  seed that is no digest.\<close>

definition collision_free :: "hash_env \<Rightarrow> bool" where
  "collision_free env \<longleftrightarrow> inj (caching_hash_fn env) \<and>
     (\<forall>x. caching_hash_fn env x \<noteq> [] \<and> caching_hash_fn env x \<noteq> NONE_HASH env)"

lemma chain_hash_nonempty: "collision_free env \<Longrightarrow> chain_hash env bs r i \<noteq> []"
  by (cases i) (simp_all add: collision_free_def hash_block_tokens_def Let_def)

lemma hash_block_tokens_inject:
  assumes "collision_free env" "hash_block_tokens env p ts ks = hash_block_tokens env p' ts' ks'"
    and "p = None \<or> (\<exists>x. p = Some (caching_hash_fn env x))" "p' = None \<or> (\<exists>x. p' = Some (caching_hash_fn env x))"
  shows "p = p' \<and> ts = ts' \<and> ks = ks'"
proof -
  have ne: "caching_hash_fn env x \<noteq> []" "caching_hash_fn env x \<noteq> NONE_HASH env" for x
    using assms(1) by (cases x, simp add: collision_free_def)+
  have "inj (caching_hash_fn env)" using assms(1) by (simp add: collision_free_def)
  from injD [OF this assms(2) [unfolded hash_block_tokens_def Let_def]]
  show ?thesis using assms(3,4) ne by (auto split: option.splits if_splits) (metis ne)+
qed

lemma chain_hash_is_hash: "\<exists>x. chain_hash env bs r i = caching_hash_fn env x"
  by (cases i) (auto simp: hash_block_tokens_def Let_def)

lemma chain_hash_Some: "\<exists>x. Some (chain_hash env bs r i) = Some (caching_hash_fn env x)"
  using chain_hash_is_hash [of env bs r i] by simp

lemma chain_hash_inject:
  assumes "collision_free env" "chain_hash env bs r i = chain_hash env bs r' j"
  shows "i = j \<and> (\<forall>k\<le>i. py_slice (k * bs) (k * bs + bs) (all_token_ids r) =
                        py_slice (k * bs) (k * bs + bs) (all_token_ids r') \<and>
                        text_keys env bs r k = text_keys env bs r' k)"
  using assms(2)
proof (induction i arbitrary: j)
  case 0
  show ?case
  proof (cases j)
    case 0
    with hash_block_tokens_inject [OF assms(1)] \<open>chain_hash env bs r 0 = chain_hash env bs r' j\<close> show ?thesis by auto
  next
    case (Suc j')
    with \<open>chain_hash env bs r 0 = chain_hash env bs r' j\<close> show ?thesis
      using hash_block_tokens_inject [OF assms(1), of None _ _ "Some (chain_hash env bs r' j')"]
        chain_hash_is_hash [of env bs r' j'] by auto
  qed
next
  case (Suc i)
  show ?case
  proof (cases j)
    case 0
    with Suc.prems have "hash_block_tokens env (Some (chain_hash env bs r i))
         (py_slice (Suc i * bs) (Suc i * bs + bs) (all_token_ids r)) (text_keys env bs r (Suc i)) =
       hash_block_tokens env None (py_slice 0 bs (all_token_ids r')) (text_keys env bs r' 0)" by simp
    from hash_block_tokens_inject [OF assms(1) this disjI2 disjI1, OF chain_hash_Some refl] show ?thesis by simp
  next
    case (Suc j')
    with Suc.prems have "hash_block_tokens env (Some (chain_hash env bs r i))
         (py_slice (Suc i * bs) (Suc i * bs + bs) (all_token_ids r)) (text_keys env bs r (Suc i)) =
       hash_block_tokens env (Some (chain_hash env bs r' j'))
         (py_slice (Suc j' * bs) (Suc j' * bs + bs) (all_token_ids r')) (text_keys env bs r' (Suc j'))" by simp
    from hash_block_tokens_inject [OF assms(1) this disjI2 disjI2, OF chain_hash_Some chain_hash_Some]
    have "chain_hash env bs r i = chain_hash env bs r' j'"
      "py_slice (Suc i * bs) (Suc i * bs + bs) (all_token_ids r) = py_slice (Suc j' * bs) (Suc j' * bs + bs) (all_token_ids r')"
      "text_keys env bs r (Suc i) = text_keys env bs r' (Suc j')" by auto
    with Suc.IH [of j'] Suc show ?thesis by (auto simp: le_Suc_eq)
  qed
qed

lemma take_slices: "take (n * bs) xs = concat (map (\<lambda>k. py_slice (k * bs) (k * bs + bs) xs) [0..<n])"
proof (induction n)
  case (Suc n)
  have "take (Suc n * bs) xs = take (n * bs) xs @ take bs (drop (n * bs) xs)"
    using take_add [of "n * bs" bs xs] by (simp add: add.commute)
  with Suc show ?case by (simp add: py_slice_def take_drop add.commute)
qed simp

text \<open>A collision-free hash function exists: a serialiser that writes every component in a
  prefix-free way.\<close>

fun enc_nat :: "nat \<Rightarrow> bytes" where
  "enc_nat 0 = [0]"
| "enc_nat (Suc n) = 1 # enc_nat n"

definition enc_list :: "('a \<Rightarrow> bytes) \<Rightarrow> 'a list \<Rightarrow> bytes" where
  "enc_list f xs = enc_nat (length xs) @ concat (map f xs)"

definition enc_int :: "int \<Rightarrow> bytes" where
  "enc_int z = enc_nat (if z < 0 then 1 else 0) @ enc_nat (nat \<bar>z\<bar>)"

fun enc_key :: "py_key \<Rightarrow> bytes" where
  "enc_key (PStr s) = enc_nat 0 @ enc_list (\<lambda>c. enc_nat (of_char c)) s"
| "enc_key (PBytes b) = enc_nat 1 @ enc_list (\<lambda>w. enc_nat (unat w)) b"

fun enc_opt :: "py_key list option \<Rightarrow> bytes" where
  "enc_opt None = enc_nat 0"
| "enc_opt (Some k) = enc_nat 1 @ enc_list enc_key k"

definition ser_hash :: "bytes \<times> token list \<times> py_key list option \<Rightarrow> bytes" where
  "ser_hash = (\<lambda>(p, ts, ks). enc_list (\<lambda>w. enc_nat (unat w)) p @ enc_list enc_int ts @ enc_opt ks)"

definition ser_env :: hash_env where
  "ser_env = \<lparr>caching_hash_fn = ser_hash, NONE_HASH = [2], sha256 = id\<rparr>"

definition prefix_free :: "('a \<Rightarrow> bytes) \<Rightarrow> bool" where
  "prefix_free f \<longleftrightarrow> (\<forall>x y a b. f x @ a = f y @ b \<longrightarrow> x = y \<and> a = b)"

lemma prefix_freeD: "prefix_free f \<Longrightarrow> f x @ a = f y @ b \<longleftrightarrow> x = y \<and> a = b"
  unfolding prefix_free_def by blast

lemma enc_nat_pf: "enc_nat m @ a = enc_nat n @ b \<longleftrightarrow> m = n \<and> a = b"
proof (induction m arbitrary: n)
  case 0
  show ?case by (cases n) auto
next
  case (Suc m)
  then show ?case by (cases n) auto
qed

lemma enc_list_pf:
  assumes "prefix_free f"
  shows "enc_list f xs @ a = enc_list f ys @ b \<longleftrightarrow> xs = ys \<and> a = b"
proof -
  have "concat (map f xs) @ a = concat (map f ys) @ b \<longleftrightarrow> xs = ys \<and> a = b" if "length xs = length ys"
    using that by (induction xs ys rule: list_induct2) (simp_all add: prefix_freeD [OF assms])
  then show ?thesis by (auto simp: enc_list_def enc_nat_pf)
qed

lemma enc_pf: "prefix_free (\<lambda>w :: 8 word. enc_nat (unat w))" "prefix_free (\<lambda>c :: char. enc_nat (of_char c))"
  "prefix_free enc_int"
  by (auto simp: prefix_free_def enc_nat_pf enc_int_def word_unat_eq_iff split: if_splits)

lemma enc_key_pf: "prefix_free enc_key"
proof -
  have "enc_key x @ a = enc_key y @ b \<longrightarrow> x = y \<and> a = b" for x y a b
    by (cases x; cases y) (simp_all add: enc_nat_pf enc_list_pf enc_pf del: enc_nat.simps)
  then show ?thesis by (simp add: prefix_free_def)
qed

lemma enc_opt_pf: "enc_opt x @ a = enc_opt y @ b \<longleftrightarrow> x = y \<and> a = b"
  by (cases x; cases y) (simp_all add: enc_nat_pf enc_list_pf enc_key_pf del: enc_nat.simps)

lemma ser_hash_inj: "inj ser_hash"
proof -
  have "ser_hash x @ [] = ser_hash y @ [] \<longrightarrow> x = y" for x y
    by (cases x; cases y)
      (simp add: ser_hash_def enc_list_pf enc_pf enc_opt_pf [of _ "[]" _ "[]", simplified] del: append_Nil2)
  then show ?thesis by (simp add: inj_def)
qed

lemma ser_env_collision_free: "collision_free ser_env"
proof -
  have "enc_nat n \<noteq> []" "hd (enc_nat n) \<noteq> 2" for n by (cases n; simp)+
  then have "ser_hash x \<noteq> []" "hd (ser_hash x) \<noteq> 2" for x
    by (cases x; simp add: ser_hash_def enc_list_def)+
  then have "ser_hash x \<noteq> [] \<and> ser_hash x \<noteq> [2]" for x by (metis list.sel(1))
  then show ?thesis using ser_hash_inj by (simp add: collision_free_def ser_env_def)
qed

section \<open>Lemmas: the coarser view\<close>

lemma get_value_at_concat:
  assumes "0 < scale_factor hl" "idx < hash_list_len hl"
  shows "get_value_at hl idx =
    Inr (concat (py_slice (idx * scale_factor hl) (idx * scale_factor hl + scale_factor hl) (hl_block_hashes hl)))"
proof -
  let ?s = "scale_factor hl" and ?h = "hl_block_hashes hl"
  let ?b = "idx * ?s"
  have le: "?b + ?s \<le> length ?h"
    using assms full_block_iff [OF assms(1), of idx "length ?h"] by (simp add: hash_list_len_def)
  have "foldR (\<lambda>i merged. bindR (py_get ?h (int i)) (\<lambda>h. Inr (merged @ h))) [a..<e] acc =
        Inr (acc @ concat (py_slice a e ?h))" if "e \<le> length ?h" for a e acc
    using that
  proof (induction "e - a" arbitrary: a acc)
    case (Suc k)
    then have "[a..<e] = a # [Suc a..<e]" "a < length ?h" by (simp_all add: upt_conv_Cons)
    with Suc show ?case by (simp add: py_slice_Cons)
  qed simp
  note loop = this [OF le, of "?b + 1"]
  have "?b < length ?h" using le assms(1) by simp
  then show ?thesis
    using loop assms(1) le py_get_nth [of ?b ?h] by (simp add: get_value_at_def Let_def py_slice_Cons del: of_nat_mult)
qed

section \<open>Properties\<close>

text \<open>(C11) Incremental hashing equals hashing from scratch. For a request without multi-modal
  items, however its tokens arrive (the prompt, then any sequence of appended output tokens),
  the hash list of the request is the chain of all its full blocks, computed from its tokens,
  LoRA name, cache salt and prompt embeddings; hashing never raises.\<close>

theorem incremental_hashing_from_scratch:
  assumes "0 < bs" and "init_request rid toks sp pp c a e None l salt p rs = Inr r0"
  shows "\<exists>r1 r2. update_block_hashes (Some (env, bs)) r0 = Inr r1 \<and>
           foldR (append_output_token_ids (Some (env, bs))) tss r1 = Inr r2 \<and>
           block_hashes r2 = chain env bs r2 \<and> all_token_ids r2 = all_token_ids r0 @ concat tss"
proof -
  have mm: "mm_features r0 = []" using assms(2) by (auto simp: init_request_def Let_def bindR_eq_Inr)
  obtain m where m: "update_block_hashes (Some (env, bs)) r0 =
      Inr (r0\<lparr>embeds_block_hashes := m, block_hashes := chain env bs r0\<rparr>)"
    "hashes_prefix env bs (r0\<lparr>embeds_block_hashes := m, block_hashes := chain env bs r0\<rparr>)" (is "hashes_prefix _ _ ?r")
    using update_block_hashes_chain [OF assms(1) mm init_hashes_prefix [OF assms(2)]] by blast
  have "chain_hash env bs ?r i = chain_hash env bs r0 i" for i
    by (rule chain_hash_cong) (simp_all add: same_text_def)
  then have "block_hashes ?r = chain env bs ?r" by (simp add: chain_def)
  from append_outputs_chain [OF assms(1) _ m(2) this] m(1) mm show ?thesis by auto
qed

definition sample_sampling :: sampling_params where
  "sample_sampling = \<lparr>sp_max_tokens = Some 16, min_tokens = 0, eos_token_id = Some 2, stop_token_ids = None,
     repetition_detection = None, sp_skip_reading_prefix_cache = None, sp_structured_outputs = False\<rparr>"

definition sample_request :: "string \<Rightarrow> token list \<Rightarrow> request" where
  "sample_request rid toks =
     projr (init_request rid (Some toks) (Some sample_sampling) None 0 0 None None None (Some ''s'') 0 False)"

lemma sample_request_init:
  "init_request rid (Some toks) (Some sample_sampling) None 0 0 None None None (Some ''s'') 0 False =
     Inr (sample_request rid toks)"
  by (simp add: sample_request_def init_request_def sample_sampling_def length_from_prompt_def Let_def)

lemma sample_request_simps [simp]:
  "all_token_ids (sample_request rid toks) = toks" "lora_request (sample_request rid toks) = None"
  "cache_salt (sample_request rid toks) = Some ''s''" "prompt_embeds (sample_request rid toks) = None"
  "mm_features (sample_request rid toks) = []"
  by (simp_all add: sample_request_def init_request_def sample_sampling_def length_from_prompt_def Let_def)

theorem incremental_hashing_witness:
  "\<exists>r1 r2. update_block_hashes (Some (ser_env, 2)) (sample_request ''a'' [5, 6, 7]) = Inr r1 \<and>
     foldR (append_output_token_ids (Some (ser_env, 2))) [[8], [9]] r1 = Inr r2 \<and>
     block_hashes r2 = chain ser_env 2 r2 \<and>
     all_token_ids r2 = all_token_ids (sample_request ''a'' [5, 6, 7]) @ concat [[8], [9]]"
  by (rule incremental_hashing_from_scratch [OF _ sample_request_init]) simp

text \<open>A request as the scheduler sees it: constructed, hashed on arrival, and hashed again whenever output
  tokens are appended.\<close>

definition hashed_request :: "hash_env \<Rightarrow> nat \<Rightarrow> request \<Rightarrow> token list list \<Rightarrow> request res" where
  "hashed_request env bs r0 tss =
     bindR (update_block_hashes (Some (env, bs)) r0) (foldR (append_output_token_ids (Some (env, bs))) tss)"

lemma update_same_text:
  assumes "0 < bs" "mm_features r = []" "hashes_prefix env bs r" "update_block_hashes (Some (env, bs)) r = Inr r'"
  shows "hashes_prefix env bs r' \<and> same_text r r' \<and> all_token_ids r' = all_token_ids r \<and>
     length (block_hashes r') = length (all_token_ids r') div bs"
  using update_block_hashes_chain [OF assms(1-3)] assms(4) by (auto simp: same_text_def chain_def)

lemma appends_same_text:
  assumes "0 < bs" "mm_features r = []" "hashes_prefix env bs r" "length (block_hashes r) = length (all_token_ids r) div bs"
    and "foldR (append_output_token_ids (Some (env, bs))) tss r = Inr r'"
  shows "hashes_prefix env bs r' \<and> same_text r r' \<and> all_token_ids r' = all_token_ids r @ concat tss \<and>
     length (block_hashes r') = length (all_token_ids r') div bs"
  using assms(2-)
proof (induction tss arbitrary: r)
  case (Cons ts tss)
  obtain r1 where r1: "append_output_token_ids (Some (env, bs)) ts r = Inr r1" "foldR (append_output_token_ids (Some (env, bs))) tss r1 = Inr r'"
    using Cons.prems(4) by (auto simp: bindR_eq_Inr)
  have "hashes_prefix env bs r1 \<and> same_text r r1 \<and> all_token_ids r1 = all_token_ids r @ ts \<and>
      length (block_hashes r1) = length (all_token_ids r1) div bs"
    using update_same_text [OF assms(1) _ hashes_prefix_append [OF assms(1) Cons.prems(2)] r1(1) [unfolded append_output_token_ids_def]]
      Cons.prems(1) by (simp add: same_text_def)
  with Cons.IH [OF _ _ _ r1(2)] Cons.prems(1) show ?case by (simp add: same_text_def)
qed (simp add: same_text_def)

lemma hashed_request_props:
  assumes "0 < bs" "init_request rid toks sp pp c a e None l salt p rs = Inr r0" "hashed_request env bs r0 tss = Inr r"
  shows "hashes_prefix env bs r" "same_text r0 r" "all_token_ids r = all_token_ids r0 @ concat tss"
    "length (block_hashes r) = length (all_token_ids r) div bs" "mm_features r = []"
proof -
  have mm: "mm_features r0 = []" using assms(2) by (auto simp: init_request_def Let_def bindR_eq_Inr)
  obtain r1 where r1: "update_block_hashes (Some (env, bs)) r0 = Inr r1" "foldR (append_output_token_ids (Some (env, bs))) tss r1 = Inr r"
    using assms(3) by (auto simp: hashed_request_def bindR_eq_Inr)
  note u = update_same_text [OF assms(1) mm init_hashes_prefix [OF assms(2)] r1(1)]
  have "hashes_prefix env bs r \<and> same_text r1 r \<and> all_token_ids r = all_token_ids r1 @ concat tss \<and>
      length (block_hashes r) = length (all_token_ids r) div bs"
    by (rule appends_same_text [OF assms(1) _ _ _ r1(2)]) (use u mm in \<open>simp_all add: same_text_def\<close>)
  then show "hashes_prefix env bs r" "same_text r0 r" "all_token_ids r = all_token_ids r0 @ concat tss"
    "length (block_hashes r) = length (all_token_ids r) div bs" "mm_features r = []"
    using u mm by (simp_all add: same_text_def)
qed

lemma block_hash_nth: "hashes_prefix env bs r \<Longrightarrow> k < length (block_hashes r) \<Longrightarrow> block_hashes r ! k = chain_hash env bs r k"
  unfolding hashes_prefix_def by (metis nth_map_upt add_0 minus_nat.diff_0)

text \<open>The extra keys that the hasher finds for block \<open>k\<close>.\<close>

definition block_extra_keys :: "hash_env \<Rightarrow> nat \<Rightarrow> request \<Rightarrow> nat \<Rightarrow> py_key list option res" where
  "block_extra_keys env bs r k = bindR (generate_block_hash_extra_keys env r (k * bs) (k * bs + bs) 0) (\<lambda>(ks, _, _). Inr ks)"

lemma block_extra_keys_text: "hashes_prefix env bs r \<Longrightarrow> mm_features r = [] \<Longrightarrow> block_extra_keys env bs r k = Inr (text_keys env bs r k)"
  using extra_keys_text [of env r k bs 0] by (auto simp: block_extra_keys_def hashes_prefix_def)

text \<open>(C12) No false prefix hit. Take two text requests (no multi-modal items) as the engine makes them:
  constructed with any prompt, prompt embeddings, LoRA adapter and cache salt, hashed on arrival and again
  after each batch of output tokens. If the hash function has no collisions and some block of the one has the
  same hash as some block of the other, the two blocks have the same position, the requests agree on every
  token up to the end of that block, and the extra keys of all blocks up to it agree: a cached block is
  only ever reused for the same prefix.\<close>

theorem no_false_prefix_hit:
  assumes "collision_free env" "0 < bs"
    and "init_request rid toks sp pp c a e None l salt p rs = Inr r0" "hashed_request env bs r0 tss = Inr r"
    and "init_request rid' toks' sp' pp' c' a' e' None l' salt' p' rs' = Inr r0'" "hashed_request env bs r0' tss' = Inr r'"
    and "i < length (block_hashes r)" "j < length (block_hashes r')" "block_hashes r ! i = block_hashes r' ! j"
  shows "i = j \<and> take (Suc i * bs) (all_token_ids r) = take (Suc i * bs) (all_token_ids r') \<and>
         (\<forall>k\<le>i. is_ok (block_extra_keys env bs r k) \<and> block_extra_keys env bs r k = block_extra_keys env bs r' k)"
proof -
  note h = hashed_request_props [OF assms(2,3,4)] and h' = hashed_request_props [OF assms(2,5,6)]
  have "chain_hash env bs r i = chain_hash env bs r' j"
    using block_hash_nth [OF h(1) assms(7)] block_hash_nth [OF h'(1) assms(8)] assms(9) by simp
  note c = chain_hash_inject [OF assms(1) this]
  have "take (Suc i * bs) (all_token_ids r) = take (Suc i * bs) (all_token_ids r')"
    unfolding take_slices using c by (auto intro!: arg_cong [of _ _ concat])
  moreover have "\<forall>k\<le>i. is_ok (block_extra_keys env bs r k) \<and> block_extra_keys env bs r k = block_extra_keys env bs r' k"
    using c by (simp add: block_extra_keys_text [OF h(1,5)] block_extra_keys_text [OF h'(1,5)])
  ultimately show ?thesis using c by blast
qed

lemma sample_hashes:
  "\<exists>m. update_block_hashes (Some (ser_env, 2)) (sample_request rid toks) =
     Inr (sample_request rid toks\<lparr>embeds_block_hashes := m, block_hashes := chain ser_env 2 (sample_request rid toks)\<rparr>) \<and>
   hashes_prefix ser_env 2
     (sample_request rid toks\<lparr>embeds_block_hashes := m, block_hashes := chain ser_env 2 (sample_request rid toks)\<rparr>)"
proof (rule update_block_hashes_chain)
  show "mm_features (sample_request rid toks) = []"
    by simp
  show "hashes_prefix ser_env 2 (sample_request rid toks)" using init_hashes_prefix [OF sample_request_init] .
qed simp

lemma sample_hashed:
  "\<exists>r. hashed_request ser_env 2 (sample_request rid toks) tss = Inr r \<and> block_hashes r = chain ser_env 2 r \<and>
     all_token_ids r = toks @ concat tss"
proof -
  let ?q = "sample_request rid toks"
  obtain m where m: "update_block_hashes (Some (ser_env, 2)) ?q = Inr (?q\<lparr>embeds_block_hashes := m, block_hashes := chain ser_env 2 ?q\<rparr>)"
      "hashes_prefix ser_env 2 (?q\<lparr>embeds_block_hashes := m, block_hashes := chain ser_env 2 ?q\<rparr>)" (is "hashes_prefix _ _ ?r")
    using sample_hashes by blast
  have "chain_hash ser_env 2 ?r i = chain_hash ser_env 2 ?q i" for i by (rule chain_hash_cong) (simp_all add: same_text_def)
  then have "block_hashes ?r = chain ser_env 2 ?r" by (simp add: chain_def)
  from append_outputs_chain [OF _ _ m(2) this, of tss] show ?thesis unfolding hashed_request_def m(1) by simp
qed

theorem no_false_prefix_hit_witness:
  "\<exists>r r'. hashed_request ser_env 2 (sample_request ''a'' [5, 6, 7]) [[8]] = Inr r \<and>
     hashed_request ser_env 2 (sample_request ''b'' [5, 6, 9, 9]) [] = Inr r' \<and>
     block_hashes r ! 0 = block_hashes r' ! 0 \<and> take 2 (all_token_ids r) = take 2 (all_token_ids r')"
proof -
  obtain r where r: "hashed_request ser_env 2 (sample_request ''a'' [5, 6, 7]) [[8]] = Inr r" "block_hashes r = chain ser_env 2 r"
      "all_token_ids r = [5, 6, 7, 8]" using sample_hashed [of "''a''" "[5, 6, 7]" "[[8]]"] by auto
  obtain r' where r': "hashed_request ser_env 2 (sample_request ''b'' [5, 6, 9, 9]) [] = Inr r'" "block_hashes r' = chain ser_env 2 r'"
      "all_token_ids r' = [5, 6, 9, 9]" using sample_hashed [of "''b''" "[5, 6, 9, 9]" "[]"] by auto
  have "same_text (sample_request ''a'' [5, 6, 7]) r" "same_text (sample_request ''b'' [5, 6, 9, 9]) r'"
    using hashed_request_props(2) [OF _ sample_request_init r(1)] hashed_request_props(2) [OF _ sample_request_init r'(1)] by simp_all
  then have eq: "block_hashes r ! 0 = block_hashes r' ! 0"
    unfolding r(2) r'(2) chain_def r(3) r'(3)
    by (simp add: r(3) r'(3) same_text_def upt_conv_Cons text_keys_def gen_lora_extra_hash_keys_def py_slice_def)
  have "take (Suc 0 * 2) (all_token_ids r) = take (Suc 0 * 2) (all_token_ids r')"
    using no_false_prefix_hit [OF ser_env_collision_free _ sample_request_init r(1) sample_request_init r'(1), of 0 0] eq
    by (simp add: r(2,3) r'(2,3) chain_def)
  then show ?thesis using eq r(1) r'(1) by (intro exI [of _ r] exI [of _ r']) simp
qed

text \<open>(C13) Packing a block hash with a group id loses nothing: unpacking gives both back, packed
  keys are equal only if both components are, and packing fails (OverflowError) exactly for
  group ids that do not fit four bytes.\<close>

theorem group_key_roundtrip:
  "(\<exists>k. make_block_hash_with_group_id h g = Inr k \<and> get_block_hash k = h \<and> get_group_id k = g \<and>
        (make_block_hash_with_group_id h' g' = Inr k) = (h' = h \<and> g' = g)) \<or>
   (make_block_hash_with_group_id h g = Inl OverflowError \<and> (g < 0 \<or> 2 ^ 32 \<le> g))"
proof (cases "make_block_hash_with_group_id h g")
  case (Inl er)
  then show ?thesis by (auto simp: make_block_hash_with_group_id_def to_bytes4_def split: if_splits)
next
  case (Inr k)
  have "(make_block_hash_with_group_id h' g' = Inr k) = (h' = h \<and> g' = g)"
    using make_group_key_inject [OF Inr] Inr by blast
  then show ?thesis using group_id_roundtrip [OF Inr] Inr by blast
qed

text \<open>The coarser view of a hash list: at a target block size of \<open>k\<close> hash blocks, iterating
  the view yields, for each full target block, the concatenation of its \<open>k\<close> hashes, and a
  trailing incomplete target block is dropped.\<close>

lemma coarse_hash_list:
  assumes "0 < k" "0 < hash_block_size"
  shows "bindR (new_hash_list bhs hash_block_size (k * hash_block_size)) hash_list_iter =
           Inr (map (\<lambda>i. concat (py_slice (i * k) (i * k + k) bhs)) [0..<length bhs div k])"
proof -
  let ?hl = "\<lparr>hl_block_hashes = bhs, scale_factor = k\<rparr>"
  have "new_hash_list bhs hash_block_size (k * hash_block_size) = Inr ?hl"
    using assms by (simp add: new_hash_list_def)
  moreover have "get_value_at ?hl i = Inr (concat (py_slice (i * k) (i * k + k) bhs))"
    if "i \<in> set [0..<length bhs div k]" for i
    using get_value_at_concat [of ?hl i] that assms by (simp add: hash_list_len_def)
  then have "mapR (get_value_at ?hl) [0..<length bhs div k] =
      Inr (map (\<lambda>i. concat (py_slice (i * k) (i * k + k) bhs)) [0..<length bhs div k])" by (rule mapR_Inr)
  ultimately show ?thesis by (simp add: hash_list_iter_def hash_list_len_def)
qed

theorem coarse_hash_list_witness:
  "bindR (new_hash_list [[1], [2], [3], [4], [5]] 16 (2 * 16)) hash_list_iter = Inr [[1, 2], [3, 4]]"
  using coarse_hash_list [of 2 16 "[[1], [2], [3], [4], [5]]"]
  by (simp add: upt_conv_Cons py_slice_def)

text \<open>(C14) The extra keys carry no tag of their origin. Take a text request for the LoRA adapter \<open>x\<close>
  without cache salt and one for the base model with cache salt \<open>x\<close>, hashed by the code. If their first
  blocks hold the same tokens, these blocks have the same hash, so the second request can be served the
  block that was computed with the adapter. The confusion ends there: when the hash function has no
  collisions, no later block of the first request has the hash of any block of the second.\<close>

theorem lora_salt_collision:
  assumes "x \<noteq> []" "0 < bs" "collision_free env"
    and "init_request rid toks sp pp c a None None (Some \<lparr>lora_name = x, lora_int_id = n\<rparr>) None p rs = Inr r0"
    and "init_request rid' toks' sp' pp' c' a' None None None (Some x) p' rs' = Inr r0'"
    and "hashed_request env bs r0 tss = Inr r" "hashed_request env bs r0' tss' = Inr r'"
    and "bs \<le> length (all_token_ids r)" "take bs (all_token_ids r) = take bs (all_token_ids r')"
  shows "block_hashes r \<noteq> [] \<and> block_hashes r' \<noteq> [] \<and> block_hashes r ! 0 = block_hashes r' ! 0 \<and>
    (\<forall>i j. 0 < i \<longrightarrow> i < length (block_hashes r) \<longrightarrow> j < length (block_hashes r') \<longrightarrow> block_hashes r ! i \<noteq> block_hashes r' ! j)"
proof -
  note h = hashed_request_props [OF assms(2,4,6)] and h' = hashed_request_props [OF assms(2,5,7)]
  have "bs \<le> length (all_token_ids r')" using arg_cong [OF assms(9), of length] assms(8) by simp
  then have ne: "0 < length (block_hashes r)" "0 < length (block_hashes r')"
    using assms(2,8) h(4) h'(4) by (simp_all add: div_greater_zero_iff)
  have t: "lora_request r = Some \<lparr>lora_name = x, lora_int_id = n\<rparr>" "cache_salt r = None" "prompt_embeds r = None"
    "lora_request r' = None" "cache_salt r' = Some x" "prompt_embeds r' = None"
    using h(2) h'(2) assms(4,5) by (auto simp: same_text_def init_request_def Let_def bindR_eq_Inr)
  have keys: "text_keys env bs r i = Some [PStr x]" "text_keys env bs r' i = (if i = 0 then Some [PStr x] else None)" for i
    using t assms(1,2) by (simp_all add: text_keys_def gen_lora_extra_hash_keys_def)
  have "block_hashes r ! 0 = block_hashes r' ! 0"
    unfolding block_hash_nth [OF h(1) ne(1)] block_hash_nth [OF h'(1) ne(2)] using assms(9) keys by (simp add: py_slice_def)
  moreover have "block_hashes r ! i \<noteq> block_hashes r' ! j"
    if "0 < i" "i < length (block_hashes r)" "j < length (block_hashes r')" for i j
  proof
    assume "block_hashes r ! i = block_hashes r' ! j"
    then have "chain_hash env bs r i = chain_hash env bs r' j" using block_hash_nth h(1) h'(1) that by simp
    from chain_hash_inject [OF assms(3) this] have "text_keys env bs r i = text_keys env bs r' i" by blast
    then show False using keys that(1) by simp
  qed
  ultimately show ?thesis using ne by simp
qed

definition sample_adapter_request :: request where
  "sample_adapter_request = projr (init_request ''a'' (Some [5, 6, 7]) (Some sample_sampling) None 0 0 None None
     (Some \<lparr>lora_name = ''x'', lora_int_id = 1\<rparr>) None 0 False)"

definition sample_salted_request :: request where
  "sample_salted_request = projr (init_request ''b'' (Some [5, 6, 8]) (Some sample_sampling) None 0 0 None None None (Some ''x'') 0 False)"

theorem lora_salt_collision_witness:
  "\<exists>r r'. hashed_request ser_env 2 sample_adapter_request [[9]] = Inr r \<and> hashed_request ser_env 2 sample_salted_request [] = Inr r' \<and>
     lora_request r \<noteq> lora_request r' \<and> block_hashes r ! 0 = block_hashes r' ! 0"
proof -
  have i: "init_request ''a'' (Some [5, 6, 7]) (Some sample_sampling) None 0 0 None None (Some \<lparr>lora_name = ''x'', lora_int_id = 1\<rparr>) None 0 False
        = Inr sample_adapter_request"
      "init_request ''b'' (Some [5, 6, 8]) (Some sample_sampling) None 0 0 None None None (Some ''x'') 0 False = Inr sample_salted_request"
    by (simp_all add: sample_adapter_request_def sample_salted_request_def init_request_def sample_sampling_def length_from_prompt_def Let_def)
  have "is_ok (hashed_request ser_env 2 sample_adapter_request [[9]])" "is_ok (hashed_request ser_env 2 sample_salted_request [])"
    by code_simp+
  then obtain r r' where r: "hashed_request ser_env 2 sample_adapter_request [[9]] = Inr r" "hashed_request ser_env 2 sample_salted_request [] = Inr r'"
    by (auto simp: is_ok_def split: sum.splits)
  have toks: "all_token_ids r = [5, 6, 7, 9]" "all_token_ids r' = [5, 6, 8]" "lora_request r \<noteq> lora_request r'"
    using hashed_request_props(2,3) [OF _ i(1) r(1)] hashed_request_props(2,3) [OF _ i(2) r(2)]
    by (simp_all add: same_text_def sample_adapter_request_def sample_salted_request_def init_request_def sample_sampling_def
        length_from_prompt_def Let_def)
  have "block_hashes r ! 0 = block_hashes r' ! 0"
    using lora_salt_collision [OF _ _ ser_env_collision_free i r] toks by simp
  then show ?thesis using r toks(3) by blast
qed

text \<open>A multi-modal item that ends exactly where a block starts is counted for that block
  when the hasher resumes (multi-modal index -1), but not when it reaches the block in one
  pass (index returned by the block before), for every item \<open>f\<close> of non-negative length and
  every later block end: the same block gets different extra keys, hence different hashes.\<close>

lemma mm_boundary_keys_differ:
  assumes "mm_features r = [f]" "offset (mm_position f) + pr_length (mm_position f) = s"
    and "0 \<le> pr_length (mm_position f)" "s < e" "s0 \<le> offset (mm_position f)" "offset (mm_position f) < s"
  shows "gen_mm_extra_hash_keys r s0 s 0 = Inr ([mm_identifier f], 1) \<and>
         gen_mm_extra_hash_keys r s e 1 = Inr ([], 1) \<and>
         gen_mm_extra_hash_keys r s e (- 1) = Inr ([mm_identifier f], 1)"
  using assms by (simp add: gen_mm_extra_hash_keys_def Let_def mm_keys_loop.simps [of "[f]" _ _ 0]
      mm_keys_loop.simps [of "[f]" _ _ "Suc 0"])

definition sample_image :: mm_feature where
  "sample_image = \<lparr>mm_identifier = ''img'', mm_position = \<lparr>offset = 0, pr_length = 4, is_embed = None\<rparr>\<rparr>"

theorem mm_boundary_witness:
  "gen_mm_extra_hash_keys (sample_request ''a'' []\<lparr>mm_features := [sample_image]\<rparr>) 4 8 1 = Inr ([], 1) \<and>
   gen_mm_extra_hash_keys (sample_request ''a'' []\<lparr>mm_features := [sample_image]\<rparr>) 4 8 (- 1) = Inr ([''img''], 1)"
  using mm_boundary_keys_differ [of "sample_request ''a'' []\<lparr>mm_features := [sample_image]\<rparr>" sample_image 4 8 0]
  by (simp add: sample_image_def)

end
