(* ===== verification/KV_Offload.thy ===== *)
theory KV_Offload
  imports Block_Hash Complex_Main
begin

text \<open>
  Offloading of KV blocks to CPU memory, v1/kv\_offload: the block status and the slot allocator
  of backend.py and backends/cpu.py, the managers with LRU and with adaptive (ARC) replacement of
  lru\_manager.py and arc\_manager.py, and the decorator of reuse\_manager.py that stores only
  blocks seen often enough. \<^verbatim>\<open>ref_cnt\<close> is a C \<open>int32\<close> field, so it is a 32 bit word read with
  its sign. Python's rounding of a float result is the parameter \<open>fl\<close> of the ARC operations.
\<close>

section \<open>Block status and CPU backend\<close>

record block_status =
  bs_ref_cnt :: "32 word"
  bs_block_id :: int

definition new_block_status :: "int \<Rightarrow> block_status" where
  "new_block_status i = \<lparr>bs_ref_cnt = - 1, bs_block_id = i\<rparr>"

definition is_ready :: "block_status \<Rightarrow> bool" where
  "is_ready b \<longleftrightarrow> 0 \<le> sint (bs_ref_cnt b)"

record cpu_backend =
  be_block_size :: int
  be_num_blocks :: int
  be_num_allocated :: int
  be_free_list :: "int list"

definition new_cpu_backend :: "int \<Rightarrow> int \<Rightarrow> cpu_backend" where
  "new_cpu_backend bsize n = \<lparr>be_block_size = bsize, be_num_blocks = n, be_num_allocated = 0, be_free_list = []\<rparr>"

definition get_num_free_slots :: "cpu_backend \<Rightarrow> int" where
  "get_num_free_slots be = int (length (be_free_list be)) + be_num_blocks be - be_num_allocated be"

text \<open>Fresh slots are numbered on from the last one; reused slots are popped from the end of the
  free list.\<close>

definition be_allocate_blocks :: "bytes list \<Rightarrow> cpu_backend \<Rightarrow> (block_status list \<times> cpu_backend) res" where
  "be_allocate_blocks hs be =
     (let fresh = min (int (length hs)) (be_num_blocks be - be_num_allocated be);
          reused = int (length hs) - fresh;
          free = be_free_list be;
          alloc = be_num_allocated be in
      bindR (assertR (reused \<le> int (length free))) (\<lambda>_.
        Inr (map (\<lambda>i. new_block_status (alloc + int i)) [0..<nat fresh] @
             map new_block_status (take (nat reused) (rev free)),
             be\<lparr>be_num_allocated := alloc + int (nat fresh),
                be_free_list := take (length free - nat reused) free\<rparr>)))"

definition be_free :: "block_status \<Rightarrow> cpu_backend \<Rightarrow> cpu_backend" where
  "be_free b be = be\<lparr>be_free_list := be_free_list be @ [bs_block_id b]\<rparr>"

definition get_load_store_spec :: "block_status list \<Rightarrow> int list" where
  "get_load_store_spec bs = map bs_block_id bs"

record prepare_store_output =
  block_hashes_to_store :: "bytes list"
  store_spec :: "int list"
  block_hashes_evicted :: "bytes list"

record offloading_event =
  oe_block_hashes :: "bytes list"
  oe_block_size :: int
  oe_medium :: string
  oe_removed :: bool

definition add_event :: "bytes list \<Rightarrow> cpu_backend \<Rightarrow> bool \<Rightarrow> offloading_event list option \<Rightarrow> offloading_event list option" where
  "add_event hs be gone events =
     (case events of None \<Rightarrow> None
      | Some es \<Rightarrow> Some (if hs = [] then es
          else es @ [\<lparr>oe_block_hashes = hs, oe_block_size = be_block_size be, oe_medium = ''CPU'', oe_removed = gone\<rparr>]))"

text \<open>\<^verbatim>\<open>OrderedDict.move_to_end\<close>.\<close>

definition od_move_to_end :: "'k \<Rightarrow> ('k, 'v) odict \<Rightarrow> ('k, 'v) odict" where
  "od_move_to_end k d = (case od_get d k of None \<Rightarrow> d | Some v \<Rightarrow> od_del k d @ [(k, v)])"

text \<open>The loop of \<^verbatim>\<open>lookup\<close>, over the way a manager finds a block.\<close>

fun lookup_loop :: "(bytes \<Rightarrow> block_status option) \<Rightarrow> bytes list \<Rightarrow> nat" where
  "lookup_loop get [] = 0"
| "lookup_loop get (h # hs) =
     (case get h of None \<Rightarrow> 0
      | Some b \<Rightarrow> if \<not> is_ready b then 0 else Suc (lookup_loop get hs))"

section \<open>LRU manager\<close>

record lru_manager =
  lru_backend :: cpu_backend
  lru_blocks :: "(bytes, block_status) odict"
  lru_events :: "offloading_event list option"

definition new_lru_manager :: "cpu_backend \<Rightarrow> bool \<Rightarrow> lru_manager" where
  "new_lru_manager be enable_events =
     \<lparr>lru_backend = be, lru_blocks = [], lru_events = (if enable_events then Some [] else None)\<rparr>"

definition lru_lookup :: "bytes list \<Rightarrow> lru_manager \<Rightarrow> nat" where
  "lru_lookup hs s = lookup_loop (od_get (lru_blocks s)) hs"

definition lru_load_step :: "bytes \<Rightarrow> block_status list \<times> lru_manager \<Rightarrow> (block_status list \<times> lru_manager) res" where
  "lru_load_step h st =
     (case st of (acc, s) \<Rightarrow>
       (case od_get (lru_blocks s) h of
          None \<Rightarrow> Inl KeyError
        | Some b \<Rightarrow> bindR (assertR (is_ready b)) (\<lambda>_.
            let b' = b\<lparr>bs_ref_cnt := bs_ref_cnt b + 1\<rparr> in
            Inr (acc @ [b'], s\<lparr>lru_blocks := od_set h b' (lru_blocks s)\<rparr>))))"

definition lru_prepare_load :: "bytes list \<Rightarrow> lru_manager \<Rightarrow> (int list \<times> lru_manager) res" where
  "lru_prepare_load hs s =
     bindR (foldR lru_load_step hs ([], s)) (\<lambda>(bs, s'). Inr (get_load_store_spec bs, s'))"

definition lru_touch :: "bytes list \<Rightarrow> lru_manager \<Rightarrow> lru_manager" where
  "lru_touch hs s =
     fold (\<lambda>h s. if od_get (lru_blocks s) h \<noteq> None then s\<lparr>lru_blocks := od_move_to_end h (lru_blocks s)\<rparr> else s) (rev hs) s"

definition lru_complete_load_step :: "bytes \<Rightarrow> lru_manager \<Rightarrow> lru_manager res" where
  "lru_complete_load_step h s =
     (case od_get (lru_blocks s) h of
        None \<Rightarrow> Inl KeyError
      | Some b \<Rightarrow> bindR (assertR (0 < sint (bs_ref_cnt b))) (\<lambda>_.
          Inr (s\<lparr>lru_blocks := od_set h (b\<lparr>bs_ref_cnt := bs_ref_cnt b - 1\<rparr>) (lru_blocks s)\<rparr>)))"

definition lru_complete_load :: "bytes list \<Rightarrow> lru_manager \<Rightarrow> lru_manager res" where
  "lru_complete_load hs s = foldR lru_complete_load_step hs s"

text \<open>The eviction candidates, oldest first; \<open>None\<close> when the loop ends without a break.\<close>

fun pick_victims :: "int \<Rightarrow> bytes list \<Rightarrow> (bytes, block_status) odict \<Rightarrow> bytes list option" where
  "pick_victims n protected [] = None"
| "pick_victims n protected ((h, b) # items) =
     (if bs_ref_cnt b = 0 \<and> h \<notin> set protected
      then (if n - 1 = 0 then Some [h] else map_option ((#) h) (pick_victims (n - 1) protected items))
      else pick_victims n protected items)"

definition lru_evict_step :: "bytes \<Rightarrow> lru_manager \<Rightarrow> lru_manager res" where
  "lru_evict_step h s =
     (case od_get (lru_blocks s) h of
        None \<Rightarrow> Inl KeyError
      | Some b \<Rightarrow> Inr (s\<lparr>lru_blocks := od_del h (lru_blocks s), lru_backend := be_free b (lru_backend s)\<rparr>))"

definition lru_prepare_store :: "bytes list \<Rightarrow> lru_manager \<Rightarrow> (prepare_store_output option \<times> lru_manager) res" where
  "lru_prepare_store hs s =
     (let to_store = filter (\<lambda>h. od_get (lru_blocks s) h = None) hs;
          n = int (length to_store) - get_num_free_slots (lru_backend s) in
      case (if n > 0 then pick_victims n hs (lru_blocks s) else Some []) of
        None \<Rightarrow> Inr (None, s)
      | Some to_evict \<Rightarrow>
          bindR (foldR lru_evict_step to_evict s) (\<lambda>s1.
          let s2 = s1\<lparr>lru_events := add_event to_evict (lru_backend s1) True (lru_events s1)\<rparr> in
          bindR (be_allocate_blocks to_store (lru_backend s2)) (\<lambda>(bs, be).
          bindR (assertR (length bs = length to_store)) (\<lambda>_.
          Inr (Some \<lparr>block_hashes_to_store = to_store, store_spec = get_load_store_spec bs, block_hashes_evicted = to_evict\<rparr>,
               s2\<lparr>lru_backend := be, lru_blocks := fold (\<lambda>(h, b). od_set h b) (zip to_store bs) (lru_blocks s2)\<rparr>)))))"

definition lru_store_ok_step :: "bytes \<Rightarrow> bytes list \<times> lru_manager \<Rightarrow> (bytes list \<times> lru_manager) res" where
  "lru_store_ok_step h st =
     (case st of (stored, s) \<Rightarrow>
       (case od_get (lru_blocks s) h of
          None \<Rightarrow> Inl KeyError
        | Some b \<Rightarrow> Inr (if \<not> is_ready b
            then (stored @ [h], s\<lparr>lru_blocks := od_set h (b\<lparr>bs_ref_cnt := 0\<rparr>) (lru_blocks s)\<rparr>)
            else (stored, s))))"

definition lru_store_failed_step :: "bytes \<Rightarrow> lru_manager \<Rightarrow> lru_manager res" where
  "lru_store_failed_step h s =
     (case od_get (lru_blocks s) h of
        None \<Rightarrow> Inl KeyError
      | Some b \<Rightarrow> Inr (if \<not> is_ready b
          then s\<lparr>lru_backend := be_free b (lru_backend s), lru_blocks := od_del h (lru_blocks s)\<rparr>
          else s))"

definition lru_complete_store :: "bytes list \<Rightarrow> bool \<Rightarrow> lru_manager \<Rightarrow> lru_manager res" where
  "lru_complete_store hs success s =
     bindR (if success then foldR lru_store_ok_step hs ([], s)
            else bindR (foldR lru_store_failed_step hs s) (\<lambda>s'. Inr ([], s'))) (\<lambda>(stored, s').
     Inr (s'\<lparr>lru_events := add_event stored (lru_backend s') False (lru_events s')\<rparr>))"

definition lru_take_events :: "lru_manager \<Rightarrow> offloading_event list \<times> lru_manager" where
  "lru_take_events s =
     (case lru_events s of None \<Rightarrow> ([], s) | Some es \<Rightarrow> (es, s\<lparr>lru_events := Some []\<rparr>))"

section \<open>ARC manager\<close>

record arc_manager =
  arc_backend :: cpu_backend
  target_t1_size :: rat
  t1 :: "(bytes, block_status) odict"
  t2 :: "(bytes, block_status) odict"
  b1 :: "(bytes, unit) odict"
  b2 :: "(bytes, unit) odict"
  arc_events :: "offloading_event list option"
  cache_capacity :: int

definition new_arc_manager :: "cpu_backend \<Rightarrow> bool \<Rightarrow> arc_manager" where
  "new_arc_manager be enable_events =
     \<lparr>arc_backend = be, target_t1_size = 0, t1 = [], t2 = [], b1 = [], b2 = [],
      arc_events = (if enable_events then Some [] else None), cache_capacity = get_num_free_slots be\<rparr>"

text \<open>\<^verbatim>\<open>self.t1.get(h) or self.t2.get(h)\<close>, and the in-place change of the block found there.\<close>

definition arc_get :: "arc_manager \<Rightarrow> bytes \<Rightarrow> block_status option" where
  "arc_get s h = (case od_get (t1 s) h of Some b \<Rightarrow> Some b | None \<Rightarrow> od_get (t2 s) h)"

definition arc_put :: "bytes \<Rightarrow> block_status \<Rightarrow> arc_manager \<Rightarrow> arc_manager" where
  "arc_put h b s =
     (if od_get (t1 s) h \<noteq> None then s\<lparr>t1 := od_set h b (t1 s)\<rparr> else s\<lparr>t2 := od_set h b (t2 s)\<rparr>)"

definition arc_lookup :: "bytes list \<Rightarrow> arc_manager \<Rightarrow> nat" where
  "arc_lookup hs s = lookup_loop (arc_get s) hs"

definition arc_load_step :: "bytes \<Rightarrow> block_status list \<times> arc_manager \<Rightarrow> (block_status list \<times> arc_manager) res" where
  "arc_load_step h st =
     (case st of (acc, s) \<Rightarrow>
       (case arc_get s h of
          None \<Rightarrow> Inl AssertionError
        | Some b \<Rightarrow> bindR (assertR (is_ready b)) (\<lambda>_.
            let b' = b\<lparr>bs_ref_cnt := bs_ref_cnt b + 1\<rparr> in
            Inr (acc @ [b'], arc_put h b' s))))"

definition arc_prepare_load :: "bytes list \<Rightarrow> arc_manager \<Rightarrow> (int list \<times> arc_manager) res" where
  "arc_prepare_load hs s =
     bindR (foldR arc_load_step hs ([], s)) (\<lambda>(bs, s'). Inr (get_load_store_spec bs, s'))"

definition arc_touch_step :: "(rat \<Rightarrow> rat) \<Rightarrow> bytes \<Rightarrow> arc_manager \<Rightarrow> arc_manager" where
  "arc_touch_step fl h s =
     (case od_get (t1 s) h of
        Some b \<Rightarrow>
          let rest = od_del h (t1 s) in
          if \<not> is_ready b then s\<lparr>t1 := od_set h b rest\<rparr>
          else s\<lparr>t1 := rest, t2 := od_set h b (t2 s)\<rparr>
      | None \<Rightarrow>
          if od_get (t2 s) h \<noteq> None then s\<lparr>t2 := od_move_to_end h (t2 s)\<rparr>
          else if od_get (b1 s) h \<noteq> None then
            (let delta = max 1 (fl (of_nat (length (b2 s)) / of_nat (length (b1 s)))) in
             s\<lparr>target_t1_size := min (fl (target_t1_size s + delta)) (of_int (cache_capacity s)),
               b1 := od_move_to_end h (b1 s)\<rparr>)
          else if od_get (b2 s) h \<noteq> None then
            (let delta = max 1 (fl (of_nat (length (b1 s)) / of_nat (length (b2 s)))) in
             s\<lparr>target_t1_size := max (fl (target_t1_size s - delta)) 0,
               b2 := od_move_to_end h (b2 s)\<rparr>)
          else s)"

definition arc_touch :: "(rat \<Rightarrow> rat) \<Rightarrow> bytes list \<Rightarrow> arc_manager \<Rightarrow> arc_manager" where
  "arc_touch fl hs s = fold (arc_touch_step fl) (rev hs) s"

definition arc_complete_load_step :: "bytes \<Rightarrow> arc_manager \<Rightarrow> arc_manager res" where
  "arc_complete_load_step h s =
     (case arc_get s h of
        None \<Rightarrow> Inl AssertionError
      | Some b \<Rightarrow> bindR (assertR (0 < sint (bs_ref_cnt b))) (\<lambda>_.
          Inr (arc_put h (b\<lparr>bs_ref_cnt := bs_ref_cnt b - 1\<rparr>) s)))"

definition arc_complete_load :: "bytes list \<Rightarrow> arc_manager \<Rightarrow> arc_manager res" where
  "arc_complete_load hs s = foldR arc_complete_load_step hs s"

text \<open>\<^verbatim>\<open>int(x)\<close> of a float truncates towards zero.\<close>

definition py_int :: "rat \<Rightarrow> int" where
  "py_int x = (if 0 \<le> x then \<lfloor>x\<rfloor> else \<lceil>x\<rceil>)"

fun find_victim :: "bytes list \<Rightarrow> (bytes, block_status) odict \<Rightarrow> (bytes \<times> block_status) option" where
  "find_victim protected [] = None"
| "find_victim protected ((h, b) # items) =
     (if bs_ref_cnt b = 0 \<and> h \<notin> set protected then Some (h, b) else find_victim protected items)"

text \<open>The eviction loop; the first component is \<open>None\<close> when it returns because T2 holds no
  candidate, after evictions that already happened.\<close>

fun arc_evict_loop :: "nat \<Rightarrow> bytes list \<Rightarrow> bytes list \<Rightarrow> arc_manager \<Rightarrow> bytes list option \<times> arc_manager" where
  "arc_evict_loop 0 protected to_evict s = (Some to_evict, s)"
| "arc_evict_loop (Suc n) protected to_evict s =
     (case (if py_int (target_t1_size s) \<le> int (length (t1 s)) then find_victim protected (t1 s) else None) of
        Some (h, b) \<Rightarrow>
          arc_evict_loop n protected (to_evict @ [h])
            (s\<lparr>t1 := od_del h (t1 s), b1 := od_set h () (b1 s), arc_backend := be_free b (arc_backend s)\<rparr>)
      | None \<Rightarrow>
          (case find_victim protected (t2 s) of
             Some (h, b) \<Rightarrow>
               arc_evict_loop n protected (to_evict @ [h])
                 (s\<lparr>t2 := od_del h (t2 s), b2 := od_set h () (b2 s), arc_backend := be_free b (arc_backend s)\<rparr>)
           | None \<Rightarrow> (None, s)))"

text \<open>Repeated \<^verbatim>\<open>popitem(last=False)\<close>, which raises on an empty dictionary.\<close>

definition trim_ghosts :: "int \<Rightarrow> (bytes, unit) odict \<Rightarrow> (bytes, unit) odict res" where
  "trim_ghosts cap d =
     (let n = nat (int (length d) - cap) in if n \<le> length d then Inr (drop n d) else Inl KeyError)"

definition arc_insert_step :: "bytes \<times> block_status \<Rightarrow> arc_manager \<Rightarrow> arc_manager" where
  "arc_insert_step hb s =
     (case hb of (h, b) \<Rightarrow> s\<lparr>t1 := od_set h b (t1 s), b1 := od_del h (b1 s), b2 := od_del h (b2 s)\<rparr>)"

definition arc_prepare_store :: "bytes list \<Rightarrow> arc_manager \<Rightarrow> (prepare_store_output option \<times> arc_manager) res" where
  "arc_prepare_store hs s =
     (let to_store = filter (\<lambda>h. od_get (t1 s) h = None \<and> od_get (t2 s) h = None) hs in
      if to_store = []
      then Inr (Some \<lparr>block_hashes_to_store = [], store_spec = get_load_store_spec [], block_hashes_evicted = []\<rparr>, s)
      else
        (case arc_evict_loop (nat (int (length to_store) - get_num_free_slots (arc_backend s))) hs [] s of
           (None, s1) \<Rightarrow> Inr (None, s1)
         | (Some to_evict, s1) \<Rightarrow>
             bindR (trim_ghosts (cache_capacity s1) (b1 s1)) (\<lambda>g1.
             bindR (trim_ghosts (cache_capacity s1) (b2 s1)) (\<lambda>g2.
             let s2 = s1\<lparr>b1 := g1, b2 := g2, arc_events := add_event to_evict (arc_backend s1) True (arc_events s1)\<rparr> in
             bindR (be_allocate_blocks to_store (arc_backend s2)) (\<lambda>(bs, be).
             bindR (assertR (length bs = length to_store)) (\<lambda>_.
             Inr (Some \<lparr>block_hashes_to_store = to_store, store_spec = get_load_store_spec bs, block_hashes_evicted = to_evict\<rparr>,
                  fold arc_insert_step (zip to_store bs) (s2\<lparr>arc_backend := be\<rparr>))))))))"

definition arc_store_ok_step :: "bytes \<Rightarrow> bytes list \<times> arc_manager \<Rightarrow> bytes list \<times> arc_manager" where
  "arc_store_ok_step h st =
     (case st of (stored, s) \<Rightarrow>
       (case arc_get s h of
          None \<Rightarrow> (stored, s)
        | Some b \<Rightarrow> if \<not> is_ready b then (stored @ [h], arc_put h (b\<lparr>bs_ref_cnt := 0\<rparr>) s) else (stored, s)))"

definition arc_store_failed_step :: "bytes \<Rightarrow> arc_manager \<Rightarrow> arc_manager" where
  "arc_store_failed_step h s =
     (let found = arc_get s h;
          s1 = (if od_get (t1 s) h \<noteq> None then s\<lparr>t1 := od_del h (t1 s)\<rparr> else s\<lparr>t2 := od_del h (t2 s)\<rparr>) in
      case found of
        None \<Rightarrow> s1
      | Some b \<Rightarrow> if \<not> is_ready b then s1\<lparr>arc_backend := be_free b (arc_backend s1)\<rparr> else s1)"

definition arc_complete_store :: "bytes list \<Rightarrow> bool \<Rightarrow> arc_manager \<Rightarrow> arc_manager" where
  "arc_complete_store hs success s =
     (case (if success then fold arc_store_ok_step hs ([], s) else ([], fold arc_store_failed_step hs s)) of
        (stored, s') \<Rightarrow> s'\<lparr>arc_events := add_event stored (arc_backend s') False (arc_events s')\<rparr>)"

definition arc_take_events :: "arc_manager \<Rightarrow> offloading_event list \<times> arc_manager" where
  "arc_take_events s =
     (case arc_events s of None \<Rightarrow> ([], s) | Some es \<Rightarrow> (es, s\<lparr>arc_events := Some []\<rparr>))"

section \<open>Reuse filter\<close>

text \<open>The decorator keeps the state of the manager it wraps; the wrapped manager's operations are
  arguments of its own.\<close>

record 's reuse_filter =
  backing :: 's
  store_threshold :: int
  max_tracker_size :: int
  counts :: "(bytes, int) odict"

definition new_reuse_filter :: "'s \<Rightarrow> int \<Rightarrow> int \<Rightarrow> 's reuse_filter res" where
  "new_reuse_filter s threshold max_size =
     (if threshold < 2 then Inl ValueError
      else if max_size < 1 then Inl ValueError
      else Inr \<lparr>backing = s, store_threshold = threshold, max_tracker_size = max_size, counts = []\<rparr>)"

definition track_step :: "int \<Rightarrow> bytes \<Rightarrow> (bytes, int) odict \<Rightarrow> (bytes, int) odict" where
  "track_step max_size h d =
     (case od_get d h of
        Some n \<Rightarrow> od_set h (n + 1) (od_move_to_end h d)
      | None \<Rightarrow> od_set h 1 (if max_size \<le> int (length d) then tl d else d))"

definition fr_lookup ::
  "(bytes list \<Rightarrow> 's \<Rightarrow> nat \<times> 's) \<Rightarrow> bytes list \<Rightarrow> 's reuse_filter \<Rightarrow> nat \<times> 's reuse_filter" where
  "fr_lookup back_lookup hs s =
     (let s1 = s\<lparr>counts := fold (track_step (max_tracker_size s)) hs (counts s)\<rparr> in
      case back_lookup hs (backing s1) of (n, b) \<Rightarrow> (n, s1\<lparr>backing := b\<rparr>))"

definition eligible :: "'s reuse_filter \<Rightarrow> bytes list \<Rightarrow> bytes list" where
  "eligible s hs =
     filter (\<lambda>h. store_threshold s \<le> (case od_get (counts s) h of None \<Rightarrow> 0 | Some n \<Rightarrow> n)) hs"

definition fr_prepare_store ::
  "(bytes list \<Rightarrow> 's \<Rightarrow> (prepare_store_output option \<times> 's) res) \<Rightarrow> bytes list \<Rightarrow> 's reuse_filter \<Rightarrow>
   (prepare_store_output option \<times> 's reuse_filter) res" where
  "fr_prepare_store back_store hs s =
     bindR (back_store (eligible s hs) (backing s)) (\<lambda>(r, b). Inr (r, s\<lparr>backing := b\<rparr>))"

definition fr_prepare_load ::
  "(bytes list \<Rightarrow> 's \<Rightarrow> (int list \<times> 's) res) \<Rightarrow> bytes list \<Rightarrow> 's reuse_filter \<Rightarrow> (int list \<times> 's reuse_filter) res" where
  "fr_prepare_load back_load hs s =
     bindR (back_load hs (backing s)) (\<lambda>(ids, b). Inr (ids, s\<lparr>backing := b\<rparr>))"

definition fr_touch :: "(bytes list \<Rightarrow> 's \<Rightarrow> 's) \<Rightarrow> bytes list \<Rightarrow> 's reuse_filter \<Rightarrow> 's reuse_filter" where
  "fr_touch back_touch hs s = s\<lparr>backing := back_touch hs (backing s)\<rparr>"

definition fr_complete_load ::
  "(bytes list \<Rightarrow> 's \<Rightarrow> 's res) \<Rightarrow> bytes list \<Rightarrow> 's reuse_filter \<Rightarrow> 's reuse_filter res" where
  "fr_complete_load back_load hs s = bindR (back_load hs (backing s)) (\<lambda>b. Inr (s\<lparr>backing := b\<rparr>))"

definition fr_complete_store ::
  "(bytes list \<Rightarrow> bool \<Rightarrow> 's \<Rightarrow> 's res) \<Rightarrow> bytes list \<Rightarrow> bool \<Rightarrow> 's reuse_filter \<Rightarrow> 's reuse_filter res" where
  "fr_complete_store back_store hs success s =
     bindR (back_store hs success (backing s)) (\<lambda>b. Inr (s\<lparr>backing := b\<rparr>))"

definition fr_take_events ::
  "('s \<Rightarrow> offloading_event list \<times> 's) \<Rightarrow> 's reuse_filter \<Rightarrow> offloading_event list \<times> 's reuse_filter" where
  "fr_take_events back_take s = (case back_take (backing s) of (es, b) \<Rightarrow> (es, s\<lparr>backing := b\<rparr>))"

end
