(* ===== verification/KV_Offload_Spec.thy ===== *)
theory KV_Offload_Spec
  imports KV_Offload
begin

text \<open>
  What an offloading manager promises, v1/kv\_offload/abstract.py, as a transition relation on the
  map from block hashes to block states, and the proof that the LRU and the ARC manager implement
  it on the CPU backend: no operation that follows the protocol raises, every stored block has a
  slot of its own, and a block in transfer is never evicted. The interface is the locale
  \<open>offload_manager\<close>; the reuse filter over a manager satisfies it again.
\<close>

section \<open>The specification\<close>

type_synonym offloaded = "bytes \<rightharpoonup> block_status"

definition ready_in :: "offloaded \<Rightarrow> bytes \<Rightarrow> bool" where
  "ready_in M h \<longleftrightarrow> (\<exists>b. M h = Some b \<and> is_ready b)"

definition pending_in :: "offloaded \<Rightarrow> bytes \<Rightarrow> bool" where
  "pending_in M h \<longleftrightarrow> (\<exists>b. M h = Some b \<and> \<not> is_ready b)"

definition idle_in :: "offloaded \<Rightarrow> bytes \<Rightarrow> bool" where
  "idle_in M h \<longleftrightarrow> (\<exists>b. M h = Some b \<and> bs_ref_cnt b = 0)"

definition slot_in :: "offloaded \<Rightarrow> bytes \<Rightarrow> int" where
  "slot_in M h = bs_block_id (the (M h))"

text \<open>Every stored block has a slot of its own below the capacity.\<close>

definition placed :: "int \<Rightarrow> offloaded \<Rightarrow> bool" where
  "placed cap M \<longleftrightarrow> finite (dom M) \<and> inj_on (slot_in M) (dom M) \<and> slot_in M ` dom M \<subseteq> {0..<cap}"

definition bump :: "32 word \<Rightarrow> bytes list \<Rightarrow> offloaded \<Rightarrow> offloaded" where
  "bump d hs M = (\<lambda>h. if h \<in> set hs then map_option (\<lambda>b. b\<lparr>bs_ref_cnt := bs_ref_cnt b + d\<rparr>) (M h) else M h)"

definition make_ready :: "bytes list \<Rightarrow> offloaded \<Rightarrow> offloaded" where
  "make_ready hs M = (\<lambda>h. if h \<in> set hs \<and> pending_in M h then map_option (\<lambda>b. b\<lparr>bs_ref_cnt := 0\<rparr>) (M h) else M h)"

definition put_new :: "bytes list \<Rightarrow> int list \<Rightarrow> offloaded \<Rightarrow> offloaded" where
  "put_new hs ids M = M ++ map_of (zip hs (map new_block_status ids))"

datatype off_op =
    Lookup "bytes list"
  | PrepareLoad "bytes list"
  | Touch "bytes list"
  | CompleteLoad "bytes list"
  | PrepareStore "bytes list"
  | CompleteStore "bytes list" bool

datatype off_result = Hits nat | Slots "int list" | Stored "prepare_store_output option" | Done

inductive spec_step :: "int \<Rightarrow> offloaded \<Rightarrow> off_op \<Rightarrow> off_result \<Rightarrow> offloaded \<Rightarrow> bool" for cap where
  spec_lookup: "spec_step cap M (Lookup hs) (Hits (length (takeWhile (ready_in M) hs))) M"
| spec_load: "spec_step cap M (PrepareLoad hs) (Slots (map (slot_in M) hs)) (bump 1 hs M)"
| spec_touch: "spec_step cap M (Touch hs) Done M"
| spec_loaded: "spec_step cap M (CompleteLoad hs) Done (bump (- 1) hs M)"
| spec_refuse: "M' \<subseteq>\<^sub>m M \<Longrightarrow> (\<forall>h \<in> dom M - dom M'. idle_in M h) \<Longrightarrow> spec_step cap M (PrepareStore hs) (Stored None) M'"
| spec_store: "set (block_hashes_to_store out) \<subseteq> set hs - dom M \<Longrightarrow> distinct (block_hashes_to_store out) \<Longrightarrow>
    length (store_spec out) = length (block_hashes_to_store out) \<Longrightarrow>
    distinct (block_hashes_evicted out) \<Longrightarrow> (\<forall>h \<in> set (block_hashes_evicted out). idle_in M h) \<Longrightarrow>
    int (length (block_hashes_evicted out)) =
      max 0 (int (length (block_hashes_to_store out)) - (cap - int (card (dom M)))) \<Longrightarrow>
    M' = put_new (block_hashes_to_store out) (store_spec out) (M |` (- set (block_hashes_evicted out))) \<Longrightarrow>
    spec_step cap M (PrepareStore hs) (Stored (Some out)) M'"
| spec_stored: "spec_step cap M (CompleteStore hs True) Done (make_ready hs M)"
| spec_failed: "spec_step cap M (CompleteStore hs False) Done (M |` (- set hs))"

inductive_cases spec_stepE: "spec_step cap M op r M'"

text \<open>The protocol of the callers: loads only of ready blocks with room in the counter, completions
  only of what was prepared, no block twice in a call.\<close>

fun admissible :: "offloaded \<Rightarrow> off_op \<Rightarrow> bool" where
  "admissible M (Lookup hs) = True"
| "admissible M (Touch hs) = True"
| "admissible M (PrepareLoad hs) \<longleftrightarrow>
     distinct hs \<and> (\<forall>h \<in> set hs. \<exists>b. M h = Some b \<and> is_ready b \<and> sint (bs_ref_cnt b) < 2 ^ 31 - 1)"
| "admissible M (CompleteLoad hs) \<longleftrightarrow> distinct hs \<and> (\<forall>h \<in> set hs. \<exists>b. M h = Some b \<and> 0 < sint (bs_ref_cnt b))"
| "admissible M (PrepareStore hs) = distinct hs"
| "admissible M (CompleteStore hs ok) \<longleftrightarrow> distinct hs \<and> (\<forall>h \<in> set hs. pending_in M h)"

text \<open>The methods of a manager as one operation on requests and results.\<close>

fun off_exec ::
  "(bytes list \<Rightarrow> 's \<Rightarrow> nat \<times> 's) \<Rightarrow> (bytes list \<Rightarrow> 's \<Rightarrow> (int list \<times> 's) res) \<Rightarrow> (bytes list \<Rightarrow> 's \<Rightarrow> 's) \<Rightarrow>
   (bytes list \<Rightarrow> 's \<Rightarrow> 's res) \<Rightarrow> (bytes list \<Rightarrow> 's \<Rightarrow> (prepare_store_output option \<times> 's) res) \<Rightarrow>
   (bytes list \<Rightarrow> bool \<Rightarrow> 's \<Rightarrow> 's res) \<Rightarrow> off_op \<Rightarrow> 's \<Rightarrow> (off_result \<times> 's) res" where
  "off_exec lk pl tc cl ps cs (Lookup hs) s = (case lk hs s of (n, s') \<Rightarrow> Inr (Hits n, s'))"
| "off_exec lk pl tc cl ps cs (PrepareLoad hs) s = bindR (pl hs s) (\<lambda>(ids, s'). Inr (Slots ids, s'))"
| "off_exec lk pl tc cl ps cs (Touch hs) s = Inr (Done, tc hs s)"
| "off_exec lk pl tc cl ps cs (CompleteLoad hs) s = bindR (cl hs s) (\<lambda>s'. Inr (Done, s'))"
| "off_exec lk pl tc cl ps cs (PrepareStore hs) s = bindR (ps hs s) (\<lambda>(r, s'). Inr (Stored r, s'))"
| "off_exec lk pl tc cl ps cs (CompleteStore hs ok) s = bindR (cs hs ok s) (\<lambda>s'. Inr (Done, s'))"

text \<open>Runs that follow the protocol.\<close>

inductive off_run :: "(off_op \<Rightarrow> 's \<Rightarrow> (off_result \<times> 's) res) \<Rightarrow> ('s \<Rightarrow> offloaded) \<Rightarrow> 's \<Rightarrow> 's \<Rightarrow> bool" for ex st s0 where
  run_start: "off_run ex st s0 s0"
| run_step: "off_run ex st s0 s \<Longrightarrow> admissible (st s) op \<Longrightarrow> ex op s = Inr (r, s') \<Longrightarrow> off_run ex st s0 s'"

section \<open>The interface\<close>

locale offload_manager =
  fixes ok :: "'s \<Rightarrow> bool"
    and stored :: "'s \<Rightarrow> offloaded"
    and capacity :: "'s \<Rightarrow> int"
    and lk :: "bytes list \<Rightarrow> 's \<Rightarrow> nat \<times> 's"
    and pl :: "bytes list \<Rightarrow> 's \<Rightarrow> (int list \<times> 's) res"
    and tc :: "bytes list \<Rightarrow> 's \<Rightarrow> 's"
    and cl :: "bytes list \<Rightarrow> 's \<Rightarrow> 's res"
    and ps :: "bytes list \<Rightarrow> 's \<Rightarrow> (prepare_store_output option \<times> 's) res"
    and cs :: "bytes list \<Rightarrow> bool \<Rightarrow> 's \<Rightarrow> 's res"
  assumes ok_placed: "ok s \<Longrightarrow> placed (capacity s) (stored s)"
    and simulates: "ok s \<Longrightarrow> admissible (stored s) op \<Longrightarrow>
      \<exists>r s'. off_exec lk pl tc cl ps cs op s = Inr (r, s') \<and> ok s' \<and> capacity s' = capacity s \<and>
        spec_step (capacity s) (stored s) op r (stored s')"
begin

abbreviation ex :: "off_op \<Rightarrow> 's \<Rightarrow> (off_result \<times> 's) res" where
  "ex \<equiv> off_exec lk pl tc cl ps cs"

lemma step_ok:
  assumes "ok s" "admissible (stored s) op" "ex op s = Inr (r, s')"
  shows "ok s' \<and> capacity s' = capacity s \<and> spec_step (capacity s) (stored s) op r (stored s')"
  using simulates [OF assms(1,2)] assms(3) by auto

lemma run_ok:
  assumes "off_run ex stored s0 s" "ok s0"
  shows "ok s \<and> capacity s = capacity s0"
  using assms
proof (induction rule: off_run.induct)
  case (run_step s op r s')
  then show ?case using step_ok [of s op r s'] by simp
qed simp

lemma run_simulates:
  assumes "off_run ex stored s0 s" "ok s0" "admissible (stored s) op"
  shows "\<exists>r s'. ex op s = Inr (r, s') \<and> spec_step (capacity s0) (stored s) op r (stored s') \<and>
    placed (capacity s0) (stored s')"
proof -
  have s: "ok s" "capacity s = capacity s0" using run_ok [OF assms(1,2)] by simp_all
  obtain r s' where e: "ex op s = Inr (r, s')" "ok s'" "capacity s' = capacity s"
      "spec_step (capacity s) (stored s) op r (stored s')"
    using simulates [OF s(1) assms(3)] by (elim exE conjE) (rule that)
  have "placed (capacity s0) (stored s')" using ok_placed [OF e(2)] e(3) s(2) by simp
  then show ?thesis using e s by auto
qed

end

text \<open>A block that is being read or written keeps its slot, unless its own store fails.\<close>

lemma put_new_other: "h \<notin> set hs \<Longrightarrow> length ids = length hs \<Longrightarrow> put_new hs ids M h = M h"
proof -
  assume h: "h \<notin> set hs" "length ids = length hs"
  have "map_of (zip hs (map new_block_status ids)) h = None"
    unfolding map_of_eq_None_iff using h by (auto dest: set_zip_leftD)
  then show ?thesis by (simp add: put_new_def map_add_def)
qed

lemma in_flight_kept:
  assumes "spec_step cap M op r M'" "M h = Some b" "bs_ref_cnt b \<noteq> 0" "\<And>hs. op = CompleteStore hs False \<Longrightarrow> h \<notin> set hs"
  shows "\<exists>b'. M' h = Some b' \<and> bs_block_id b' = bs_block_id b"
proof -
  have ni: "\<not> idle_in M h" using assms(2,3) by (simp add: idle_in_def)
  show ?thesis using assms(1)
  proof cases
    case (spec_refuse hs)
    then have "h \<in> dom M'" using ni assms(2) by blast
    then show ?thesis using spec_refuse assms(2) by (metis domIff map_le_def)
  next
    case (spec_store out hs)
    then have "h \<notin> set (block_hashes_to_store out)" "h \<notin> set (block_hashes_evicted out)" using assms(2) ni by auto
    then show ?thesis using spec_store assms(2) by (simp add: put_new_other)
  qed (use assms(2,4) in \<open>auto simp: bump_def make_ready_def\<close>)
qed

section \<open>Slot accounting\<close>

definition slots :: "(bytes, block_status) odict \<Rightarrow> int multiset" where
  "slots d = image_mset (\<lambda>p. bs_block_id (snd p)) (mset d)"

text \<open>Used and free slots together are exactly the slots handed out so far.\<close>

definition accounted :: "cpu_backend \<Rightarrow> int multiset \<Rightarrow> bool" where
  "accounted be S \<longleftrightarrow> S + mset (be_free_list be) = mset [0..be_num_allocated be - 1] \<and>
     0 \<le> be_num_allocated be \<and> be_num_allocated be \<le> be_num_blocks be"

lemma slots_Nil [simp]: "slots [] = {#}"
  by (simp add: slots_def)

lemma slots_append [simp]: "slots (d @ e) = slots d + slots e"
  by (simp add: slots_def)

lemma slots_Cons [simp]: "slots ((h, b) # d) = add_mset (bs_block_id b) (slots d)"
  by (simp add: slots_def)

lemma slots_set_same: "od_get d k = Some v \<Longrightarrow> bs_block_id v' = bs_block_id v \<Longrightarrow> slots (od_set k v' d) = slots d"
  by (induction k v' d rule: od_set.induct) (auto split: if_splits)

lemma slots_del: "od_wf d \<Longrightarrow> od_get d k = Some v \<Longrightarrow> slots d = add_mset (bs_block_id v) (slots (od_del k d))"
proof (induction d)
  case (Cons p d)
  obtain k' v' where p: "p = (k', v')" by fastforce
  have wf: "od_wf d" "k' \<notin> set (od_keys d)" using Cons.prems(1) p by (auto simp: od_wf_def)
  show ?case
  proof (cases "k' = k")
    case True
    then show ?thesis using Cons.prems(2) wf p by (simp add: od_del_absent)
  next
    case False
    then show ?thesis using Cons.IH [OF wf(1)] Cons.prems(2) p by simp
  qed
qed simp

lemma od_move_wf: "od_wf d \<Longrightarrow> od_wf (od_move_to_end k d)"
  by (simp add: od_move_to_end_def od_wf_def od_keys_del split: option.splits)

lemma od_move_get [simp]: "od_get (od_move_to_end k d) = od_get d"
  by (rule ext) (auto simp: od_move_to_end_def map_add_def split: option.splits)

lemma slots_move: "od_wf d \<Longrightarrow> slots (od_move_to_end k d) = slots d"
  using slots_del [of d k] by (auto simp: od_move_to_end_def split: option.splits)

lemma size_slots [simp]: "size (slots d) = length d"
  by (simp add: slots_def)

lemma accounted_size:
  assumes "accounted be S"
  shows "get_num_free_slots be = be_num_blocks be - int (size S)"
proof -
  have "size S + length (be_free_list be) = nat (be_num_allocated be)"
    using arg_cong [where f = size, OF conjunct1 [OF assms [unfolded accounted_def]]] by simp
  moreover have "0 \<le> be_num_allocated be" using assms by (simp add: accounted_def)
  ultimately have "int (size S) + int (length (be_free_list be)) = be_num_allocated be" by linarith
  then show ?thesis by (simp add: get_num_free_slots_def)
qed

lemma accounted_free:
  assumes "accounted be (add_mset (bs_block_id b) S)"
  shows "accounted (be_free b be) S"
  using assms by (simp add: accounted_def be_free_def)

lemma accounted_free_del:
  assumes "accounted be (slots d + S)" "od_wf d" "od_get d k = Some b"
  shows "accounted (be_free b be) (slots (od_del k d) + S)"
  using assms by (intro accounted_free) (simp add: slots_del [OF assms(2,3)])

lemma upto_fresh: "0 \<le> a \<Longrightarrow> mset [0..a + int n - 1] = mset [0..a - 1] + mset (map (\<lambda>i. a + int i) [0..<n])"
proof (induction n)
  case (Suc n)
  then show ?case using upto_rec2 [of 0 "a + int n"] by simp
qed simp

lemma accounted_alloc:
  assumes "accounted be S" "int (length hs) \<le> get_num_free_slots be"
  shows "\<exists>ids be'. be_allocate_blocks hs be = Inr (map new_block_status ids, be') \<and> length ids = length hs \<and>
     accounted be' (S + mset ids) \<and> be_num_blocks be' = be_num_blocks be"
proof -
  let ?a = "be_num_allocated be" and ?free = "be_free_list be"
  define f where "f = nat (min (int (length hs)) (be_num_blocks be - ?a))"
  define u where "u = length hs - f"
  have fm: "min (int (length hs)) (be_num_blocks be - ?a) = int f" "f \<le> length hs"
    using assms(1) by (auto simp: f_def accounted_def)
  have u: "int (length hs) - int f = int u" "u \<le> length ?free"
    using fm assms(2) by (auto simp: u_def get_num_free_slots_def of_nat_diff min_def split: if_splits)
  define ids where "ids = map (\<lambda>i. ?a + int i) [0..<f] @ take u (rev ?free)"
  define be' where "be' = be\<lparr>be_num_allocated := ?a + int f, be_free_list := take (length ?free - u) ?free\<rparr>"
  have e: "be_allocate_blocks hs be = Inr (map new_block_status ids, be')"
    using u by (simp add: be_allocate_blocks_def Let_def fm ids_def be'_def comp_def)
  have l: "length ids = length hs" using u fm by (simp add: ids_def u_def)
  have sp: "mset ?free = mset (take u (rev ?free)) + mset (take (length ?free - u) ?free)"
    using arg_cong [where f = mset, OF append_take_drop_id [of "length ?free - u" ?free]] u
    unfolding mset_append take_rev mset_rev by (metis add.commute)
  have "accounted be' (S + mset ids)"
    using assms(1) fm sp upto_fresh [of ?a f] by (simp add: accounted_def ids_def be'_def ac_simps)
  then show ?thesis using e l by (auto simp: be'_def)
qed

lemma accounted_placed:
  assumes wf: "od_wf d" and ac: "accounted be (slots d)"
  shows "placed (be_num_blocks be) (map_of d)"
proof -
  let ?ids = "map (\<lambda>p. bs_block_id (snd p)) d"
  have m: "mset (?ids @ be_free_list be) = mset [0..be_num_allocated be - 1]"
    using ac by (simp add: accounted_def slots_def)
  have "distinct (?ids @ be_free_list be)" using mset_eq_imp_distinct_iff [OF m] by simp
  then have di: "distinct ?ids" by simp
  have ra: "set ?ids \<subseteq> {0..<be_num_blocks be}"
  proof -
    have "set ?ids \<union> set (be_free_list be) = {0..be_num_allocated be - 1}" using mset_eq_setD [OF m] by simp
    then have "set ?ids \<subseteq> {0..be_num_allocated be - 1}" by blast
    moreover have "{0..be_num_allocated be - 1} \<subseteq> {0..<be_num_blocks be}" using ac by (auto simp: accounted_def)
    ultimately show ?thesis by (rule subset_trans)
  qed
  have dom: "dom (map_of d) = fst ` set d" by (simp add: dom_map_of_conv_image_fst)
  have sl: "slot_in (map_of d) (fst p) = bs_block_id (snd p)" if "p \<in> set d" for p
  proof -
    have "map_of d (fst p) = Some (snd p)" using that wf by (intro map_of_is_SomeI) (simp_all add: od_wf_def)
    then show ?thesis by (simp add: slot_in_def)
  qed
  have "inj_on (\<lambda>p. bs_block_id (snd p)) (set d)" using di by (simp add: distinct_map)
  then have "inj_on (slot_in (map_of d)) (fst ` set d)" by (auto simp: inj_on_def sl)
  moreover have "slot_in (map_of d) ` (fst ` set d) \<subseteq> {0..<be_num_blocks be}" using ra sl by auto
  ultimately show ?thesis by (simp add: placed_def dom finite_dom_map_of)
qed

section \<open>Status changes in place\<close>

text \<open>Both managers keep block objects in dictionaries and change their counters in place; what
  they need of these dictionaries is \<open>block_table\<close>. The loops over block hashes are shared.\<close>

definition load_step ::
  "('s \<Rightarrow> offloaded) \<Rightarrow> (bytes \<Rightarrow> block_status \<Rightarrow> 's \<Rightarrow> 's) \<Rightarrow> error \<Rightarrow> bytes \<Rightarrow> block_status list \<times> 's \<Rightarrow> (block_status list \<times> 's) res" where
  "load_step get put e h st =
     (case get (snd st) h of
        None \<Rightarrow> Inl e
      | Some b \<Rightarrow> bindR (assertR (is_ready b)) (\<lambda>_.
          let b' = b\<lparr>bs_ref_cnt := bs_ref_cnt b + 1\<rparr> in Inr (fst st @ [b'], put h b' (snd st))))"

definition unload_step :: "('s \<Rightarrow> offloaded) \<Rightarrow> (bytes \<Rightarrow> block_status \<Rightarrow> 's \<Rightarrow> 's) \<Rightarrow> error \<Rightarrow> bytes \<Rightarrow> 's \<Rightarrow> 's res" where
  "unload_step get put e h s =
     (case get s h of
        None \<Rightarrow> Inl e
      | Some b \<Rightarrow> bindR (assertR (0 < sint (bs_ref_cnt b))) (\<lambda>_. Inr (put h (b\<lparr>bs_ref_cnt := bs_ref_cnt b - 1\<rparr>) s)))"

definition ready_step ::
  "('s \<Rightarrow> offloaded) \<Rightarrow> (bytes \<Rightarrow> block_status \<Rightarrow> 's \<Rightarrow> 's) \<Rightarrow> (bytes list \<times> 's \<Rightarrow> (bytes list \<times> 's) res) \<Rightarrow>
   bytes \<Rightarrow> bytes list \<times> 's \<Rightarrow> (bytes list \<times> 's) res" where
  "ready_step get put miss h st =
     (case get (snd st) h of
        None \<Rightarrow> miss st
      | Some b \<Rightarrow> Inr (if \<not> is_ready b then (fst st @ [h], put h (b\<lparr>bs_ref_cnt := 0\<rparr>) (snd st)) else st))"

locale block_table =
  fixes ok :: "'s \<Rightarrow> bool"
    and cap :: "'s \<Rightarrow> int"
    and get :: "'s \<Rightarrow> offloaded"
    and put :: "bytes \<Rightarrow> block_status \<Rightarrow> 's \<Rightarrow> 's"
  assumes get_put: "get s h = Some b \<Longrightarrow> get (put h b' s) = (get s)(h \<mapsto> b')"
    and ok_put: "ok s \<Longrightarrow> get s h = Some b \<Longrightarrow> bs_block_id b' = bs_block_id b \<Longrightarrow> ok (put h b' s)"
    and cap_put: "cap (put h b s) = cap s"
begin

lemma load_loop:
  assumes "ok s" "distinct hs" "\<forall>h \<in> set hs. ready_in (get s) h"
  shows "\<exists>bs s'. foldR (load_step get put e) hs (acc, s) = Inr (acc @ bs, s') \<and> map bs_block_id bs = map (slot_in (get s)) hs \<and>
     get s' = bump 1 hs (get s) \<and> ok s' \<and> cap s' = cap s"
  using assms
proof (induction hs arbitrary: s acc)
  case Nil
  show ?case by (rule exI [of _ "[]"], rule exI [of _ s]) (use Nil in \<open>simp add: bump_def\<close>)
next
  case (Cons h hs)
  obtain b where b: "get s h = Some b" "is_ready b" using Cons.prems(3) by (auto simp: ready_in_def)
  have ds: "distinct hs" using Cons.prems(2) by simp
  define b' where "b' = b\<lparr>bs_ref_cnt := bs_ref_cnt b + 1\<rparr>"
  define s1 where "s1 = put h b' s"
  have g: "get s1 = (get s)(h \<mapsto> b')" using b by (simp add: s1_def get_put)
  have ok1: "ok s1" using ok_put [OF Cons.prems(1) b(1)] by (simp add: s1_def b'_def)
  have r: "\<forall>h' \<in> set hs. ready_in (get s1) h'"
    using Cons.prems(2,3) g by (auto simp: ready_in_def)
  obtain bs s' where i: "foldR (load_step get put e) hs (acc @ [b'], s1) = Inr ((acc @ [b']) @ bs, s')"
      "map bs_block_id bs = map (slot_in (get s1)) hs" "get s' = bump 1 hs (get s1)" "ok s'" "cap s' = cap s1"
    using Cons.IH [OF ok1 ds r, of "acc @ [b']"] by (elim exE conjE) (rule that)
  have "map (slot_in (get s1)) hs = map (slot_in (get s)) hs" using Cons.prems(2) g by (auto simp: slot_in_def)
  moreover have "bump 1 hs (get s1) = bump 1 (h # hs) (get s)"
    using Cons.prems(2) b by (auto simp: bump_def g b'_def fun_eq_iff)
  moreover have "load_step get put e h (acc, s) = Inr (acc @ [b'], s1)" using b by (simp add: load_step_def b'_def s1_def Let_def)
  ultimately have "foldR (load_step get put e) (h # hs) (acc, s) = Inr (acc @ (b' # bs), s') \<and>
      map bs_block_id (b' # bs) = map (slot_in (get s)) (h # hs) \<and> get s' = bump 1 (h # hs) (get s) \<and> ok s' \<and> cap s' = cap s"
    using i b by (simp add: slot_in_def b'_def s1_def cap_put)
  then show ?case by blast
qed

lemma unload_loop:
  assumes "ok s" "distinct hs" "\<forall>h \<in> set hs. \<exists>b. get s h = Some b \<and> 0 < sint (bs_ref_cnt b)"
  shows "\<exists>s'. foldR (unload_step get put e) hs s = Inr s' \<and> get s' = bump (- 1) hs (get s) \<and> ok s' \<and> cap s' = cap s"
  using assms
proof (induction hs arbitrary: s)
  case Nil
  then show ?case by (simp add: bump_def)
next
  case (Cons h hs)
  obtain b where b: "get s h = Some b" "0 < sint (bs_ref_cnt b)" using Cons.prems(3) by auto
  have ds: "distinct hs" using Cons.prems(2) by simp
  define b' where "b' = b\<lparr>bs_ref_cnt := bs_ref_cnt b - 1\<rparr>"
  define s1 where "s1 = put h b' s"
  have g: "get s1 = (get s)(h \<mapsto> b')" using b by (simp add: s1_def get_put)
  have ok1: "ok s1" using ok_put [OF Cons.prems(1) b(1)] by (simp add: s1_def b'_def)
  have r: "\<forall>h' \<in> set hs. \<exists>b. get s1 h' = Some b \<and> 0 < sint (bs_ref_cnt b)"
    using Cons.prems(2,3) g by auto
  obtain s' where i: "foldR (unload_step get put e) hs s1 = Inr s'" "get s' = bump (- 1) hs (get s1)" "ok s'" "cap s' = cap s1"
    using Cons.IH [OF ok1 ds r] by (elim exE conjE) (rule that)
  have "bump (- 1) hs (get s1) = bump (- 1) (h # hs) (get s)"
    using Cons.prems(2) b by (auto simp: bump_def g b'_def fun_eq_iff)
  moreover have "unload_step get put e h s = Inr s1" using b by (simp add: unload_step_def b'_def s1_def)
  ultimately show ?case using i by (simp add: s1_def cap_put)
qed

lemma ready_loop:
  assumes "ok s" "distinct hs" "\<forall>h \<in> set hs. pending_in (get s) h"
  shows "\<exists>s'. foldR (ready_step get put miss) hs (acc, s) = Inr (acc @ hs, s') \<and> get s' = make_ready hs (get s) \<and> ok s' \<and> cap s' = cap s"
  using assms
proof (induction hs arbitrary: s acc)
  case Nil
  then show ?case by (simp add: make_ready_def)
next
  case (Cons h hs)
  obtain b where b: "get s h = Some b" "\<not> is_ready b" using Cons.prems(3) by (auto simp: pending_in_def)
  have ds: "distinct hs" using Cons.prems(2) by simp
  define b' where "b' = b\<lparr>bs_ref_cnt := 0\<rparr>"
  define s1 where "s1 = put h b' s"
  have g: "get s1 = (get s)(h \<mapsto> b')" using b by (simp add: s1_def get_put)
  have ok1: "ok s1" using ok_put [OF Cons.prems(1) b(1)] by (simp add: s1_def b'_def)
  have r: "\<forall>h' \<in> set hs. pending_in (get s1) h'"
    using Cons.prems(2,3) g by (auto simp: pending_in_def)
  obtain s' where i: "foldR (ready_step get put miss) hs (acc @ [h], s1) = Inr ((acc @ [h]) @ hs, s')"
      "get s' = make_ready hs (get s1)" "ok s'" "cap s' = cap s1"
    using Cons.IH [OF ok1 ds r, of "acc @ [h]"] by (elim exE conjE) (rule that)
  have "make_ready hs (get s1) = make_ready (h # hs) (get s)"
    using Cons.prems(2) b by (auto simp: make_ready_def pending_in_def g b'_def fun_eq_iff)
  moreover have "ready_step get put miss h (acc, s) = Inr (acc @ [h], s1)" using b by (simp add: ready_step_def b'_def s1_def)
  ultimately show ?case using i by (simp add: s1_def cap_put)
qed

end

lemma lookup_loop_spec: "lookup_loop M hs = length (takeWhile (ready_in M) hs)"
  by (induction hs) (auto simp: ready_in_def split: option.splits)

lemma fold_od_set_new:
  assumes "od_wf d" "distinct hs" "set hs \<inter> set (od_keys d) = {}" "length ids = length hs"
  shows "fold (\<lambda>(h, b). od_set h b) (zip hs (map new_block_status ids)) d = d @ zip hs (map new_block_status ids)"
  using assms
proof (induction hs arbitrary: ids d)
  case (Cons h hs)
  obtain i js where ids: "ids = i # js" using Cons.prems(4) by (cases ids) auto
  have h: "od_set h (new_block_status i) d = d @ [(h, new_block_status i)]"
    using Cons.prems(3) by (simp add: od_set_absent)
  have "od_wf (d @ [(h, new_block_status i)])" using Cons.prems by (simp add: od_wf_def)
  then show ?case using Cons.IH [of "d @ [(h, new_block_status i)]" js] Cons.prems ids h by auto
qed simp

lemma slots_zip_new: "length ids = length hs \<Longrightarrow> slots (zip hs (map new_block_status ids)) = mset ids"
  by (induction hs ids rule: list_induct2') (simp_all add: new_block_status_def)

lemma map_of_put_new:
  assumes "set hs \<inter> set (od_keys d) = {}" "length ids = length hs"
  shows "map_of (d @ zip hs (map new_block_status ids)) = put_new hs ids (map_of d)"
proof -
  have "dom (map_of (zip hs (map new_block_status ids))) = set hs"
    using assms(2) by (simp add: dom_map_of_zip)
  then show ?thesis using assms(1) by (simp add: put_new_def map_add_comm dom_map_of_conv_image_fst inf_commute)
qed

section \<open>The LRU manager implements the specification\<close>

definition lru_ok :: "lru_manager \<Rightarrow> bool" where
  "lru_ok s \<longleftrightarrow> od_wf (lru_blocks s) \<and> accounted (lru_backend s) (slots (lru_blocks s))"

definition lru_stored :: "lru_manager \<Rightarrow> offloaded" where
  "lru_stored s = map_of (lru_blocks s)"

definition lru_capacity :: "lru_manager \<Rightarrow> int" where
  "lru_capacity s = be_num_blocks (lru_backend s)"

definition lru_put :: "bytes \<Rightarrow> block_status \<Rightarrow> lru_manager \<Rightarrow> lru_manager" where
  "lru_put h b s = s\<lparr>lru_blocks := od_set h b (lru_blocks s)\<rparr>"

interpretation lru_tab: block_table lru_ok lru_capacity lru_stored lru_put
proof unfold_locales
  fix s :: lru_manager and h b b'
  show "lru_stored (lru_put h b' s) = (lru_stored s)(h \<mapsto> b')" if "lru_stored s h = Some b"
    by (auto simp: lru_stored_def lru_put_def)
  show "lru_ok (lru_put h b' s)" if "lru_ok s" "lru_stored s h = Some b" "bs_block_id b' = bs_block_id b"
    using that by (simp add: lru_ok_def lru_put_def lru_stored_def slots_set_same)
  show "lru_capacity (lru_put h b s) = lru_capacity s" by (simp add: lru_capacity_def lru_put_def)
qed

lemma lru_load_step_eq: "lru_load_step = load_step lru_stored lru_put KeyError"
  by (intro ext) (simp add: lru_load_step_def load_step_def lru_stored_def lru_put_def Let_def split: prod.splits option.splits)

lemma lru_complete_load_step_eq: "lru_complete_load_step = unload_step lru_stored lru_put KeyError"
  by (intro ext) (simp add: lru_complete_load_step_def unload_step_def lru_stored_def lru_put_def split: option.splits)

lemma lru_store_ok_step_eq: "lru_store_ok_step = ready_step lru_stored lru_put (\<lambda>_. Inl KeyError)"
  by (intro ext) (auto simp: lru_store_ok_step_def ready_step_def lru_stored_def lru_put_def split: prod.splits option.splits)

lemma lru_touch_ok:
  assumes "lru_ok s"
  shows "lru_ok (lru_touch hs s) \<and> lru_capacity (lru_touch hs s) = lru_capacity s \<and> lru_stored (lru_touch hs s) = lru_stored s"
proof -
  have "lru_ok s \<Longrightarrow> lru_ok (fold f xs s) \<and> lru_capacity (fold f xs s) = lru_capacity s \<and> lru_stored (fold f xs s) = lru_stored s"
    if "f = (\<lambda>h s. if od_get (lru_blocks s) h \<noteq> None then s\<lparr>lru_blocks := od_move_to_end h (lru_blocks s)\<rparr> else s)" for xs f
  proof (induction xs arbitrary: s)
    case (Cons h xs)
    have "lru_ok (f h s) \<and> lru_capacity (f h s) = lru_capacity s \<and> lru_stored (f h s) = lru_stored s"
      using Cons.prems by (simp add: that lru_ok_def lru_capacity_def lru_stored_def od_move_wf slots_move)
    then show ?case using Cons.IH [of "f h s"] by simp
  qed simp
  then show ?thesis using assms by (simp add: lru_touch_def)
qed

text \<open>Candidates for eviction, oldest first.\<close>

definition candidates :: "bytes list \<Rightarrow> (bytes, block_status) odict \<Rightarrow> bytes list" where
  "candidates protected d = map fst (filter (\<lambda>(h, b). bs_ref_cnt b = 0 \<and> h \<notin> set protected) d)"

lemma candidates_simps [simp]:
  "candidates p [] = []"
  "candidates p ((h, b) # d) = (if bs_ref_cnt b = 0 \<and> h \<notin> set p then h # candidates p d else candidates p d)"
  by (simp_all add: candidates_def)

lemma candidates_props:
  assumes "od_wf d"
  shows "distinct (candidates p d)" "h \<in> set (candidates p d) \<longleftrightarrow> idle_in (map_of d) h \<and> h \<notin> set p"
proof -
  show "distinct (candidates p d)"
    using assms by (induction d) (auto simp: od_wf_def candidates_def)
  show "h \<in> set (candidates p d) \<longleftrightarrow> idle_in (map_of d) h \<and> h \<notin> set p"
    using od_get_mem [OF assms, of h] by (force simp: candidates_def idle_in_def)
qed

lemma pick_victims_eq:
  "0 < n \<Longrightarrow> pick_victims n p d =
     (if n \<le> int (length (candidates p d)) then Some (take (nat n) (candidates p d)) else None)"
proof (induction d arbitrary: n)
  case (Cons x d)
  obtain h b where x: "x = (h, b)" by fastforce
  have n: "nat n = Suc (nat (n - 1))" using Cons.prems by simp
  show ?case
  proof (cases "bs_ref_cnt b = 0 \<and> h \<notin> set p")
    case True
    show ?thesis
    proof (cases "n = 1")
      case False
      then show ?thesis using Cons.IH [of "n - 1"] Cons.prems True x n by (simp add: le_diff_eq add.commute)
    qed (use True x in simp)
  next
    case False
    then show ?thesis using Cons.IH [OF Cons.prems] x by (simp add: if_not_P [OF False])
  qed
qed simp

lemma filter_od_del: "filter (\<lambda>(k, _). k \<notin> set (v # vs)) d = filter (\<lambda>(k, _). k \<notin> set vs) (od_del v d)"
  by (simp add: od_del_def case_prod_unfold)

lemma length_filter_keys:
  assumes "od_wf d" "distinct vs" "set vs \<subseteq> set (od_keys d)"
  shows "length (filter (\<lambda>(k, _). k \<notin> set vs) d) = length d - length vs" "length vs \<le> length d"
proof -
  have "distinct (filter (\<lambda>k. k \<in> set vs) (od_keys d))" using assms(1) by (simp add: od_wf_def)
  moreover have "set (filter (\<lambda>k. k \<in> set vs) (od_keys d)) = set vs" using assms(3) by auto
  ultimately have "length (filter (\<lambda>k. k \<in> set vs) (od_keys d)) = length vs" using assms(2) by (metis distinct_card)
  then have "length (filter (\<lambda>(k, _). k \<in> set vs) d) = length vs" by (simp add: filter_map comp_def case_prod_unfold)
  moreover have "length (filter (\<lambda>(k, _). k \<in> set vs) d) + length (filter (\<lambda>(k, _). k \<notin> set vs) d) = length d"
    using filter_count_partition [of "\<lambda>(k, _). k \<in> set vs" d] by (simp add: case_prod_unfold)
  ultimately show "length (filter (\<lambda>(k, _). k \<notin> set vs) d) = length d - length vs" "length vs \<le> length d" by simp_all
qed

lemma lru_evict_loop:
  assumes "lru_ok s" "distinct vs" "set vs \<subseteq> dom (lru_stored s)"
  shows "\<exists>s'. foldR lru_evict_step vs s = Inr s' \<and> lru_ok s' \<and> lru_capacity s' = lru_capacity s \<and>
     lru_blocks s' = filter (\<lambda>(k, _). k \<notin> set vs) (lru_blocks s) \<and> lru_events s' = lru_events s \<and>
     be_block_size (lru_backend s') = be_block_size (lru_backend s)"
  using assms
proof (induction vs arbitrary: s)
  case Nil
  then show ?case by simp
next
  case (Cons v vs)
  obtain b where b: "od_get (lru_blocks s) v = Some b" using Cons.prems(3) by (auto simp: lru_stored_def)
  define s1 where "s1 = s\<lparr>lru_blocks := od_del v (lru_blocks s), lru_backend := be_free b (lru_backend s)\<rparr>"
  have e: "lru_evict_step v s = Inr s1" using b by (simp add: lru_evict_step_def s1_def)
  have ok1: "lru_ok s1"
    using Cons.prems(1) accounted_free_del [of "lru_backend s" "lru_blocks s" "{#}" v b] b by (simp add: lru_ok_def s1_def)
  have sub: "set vs \<subseteq> dom (lru_stored s1)" using Cons.prems(2,3) by (auto simp: lru_stored_def s1_def)
  have bl: "filter (\<lambda>(k, _). k \<notin> set (v # vs)) (lru_blocks s) = filter (\<lambda>(k, _). k \<notin> set vs) (lru_blocks s1)"
    unfolding filter_od_del by (simp add: s1_def)
  obtain s' where "foldR lru_evict_step vs s1 = Inr s'" "lru_ok s'" "lru_capacity s' = lru_capacity s1"
      "lru_blocks s' = filter (\<lambda>(k, _). k \<notin> set vs) (lru_blocks s1)" "lru_events s' = lru_events s1"
      "be_block_size (lru_backend s') = be_block_size (lru_backend s1)"
    using Cons.IH [OF ok1 _ sub] Cons.prems(2) by auto
  then show ?case using e bl by (simp add: s1_def lru_capacity_def be_free_def)
qed

text \<open>The complete behaviour of \<^verbatim>\<open>prepare_store\<close>: which blocks are stored, which are evicted and in
  which order, and when it refuses.\<close>

lemma lru_prepare_store_eq:
  fixes s :: lru_manager
  assumes ok: "lru_ok s" and hs: "distinct hs"
  defines "new \<equiv> filter (\<lambda>h. h \<notin> dom (lru_stored s)) hs"
    and "n \<equiv> int (length (filter (\<lambda>h. h \<notin> dom (lru_stored s)) hs)) - (lru_capacity s - int (length (lru_blocks s)))"
    and "cands \<equiv> candidates hs (lru_blocks s)"
  shows "n \<le> int (length cands) \<Longrightarrow>
      \<exists>ids s'. lru_prepare_store hs s =
          Inr (Some \<lparr>block_hashes_to_store = new, store_spec = ids, block_hashes_evicted = take (nat n) cands\<rparr>, s') \<and>
        length ids = length new \<and> lru_ok s' \<and> lru_capacity s' = lru_capacity s \<and>
        lru_blocks s' = filter (\<lambda>(k, _). k \<notin> set (take (nat n) cands)) (lru_blocks s) @ zip new (map new_block_status ids) \<and>
        lru_events s' = add_event (take (nat n) cands) (lru_backend s) True (lru_events s)"
    and "int (length cands) < n \<Longrightarrow> lru_prepare_store hs s = Inr (None, s)"
proof -
  have wf: "od_wf (lru_blocks s)" and ac: "accounted (lru_backend s) (slots (lru_blocks s))" using ok by (simp_all add: lru_ok_def)
  have fr: "get_num_free_slots (lru_backend s) = lru_capacity s - int (length (lru_blocks s))"
    using accounted_size [OF ac] by (simp add: lru_capacity_def)
  have nw: "filter (\<lambda>h. od_get (lru_blocks s) h = None) hs = new" by (simp add: new_def lru_stored_def domIff)
  have nn: "int (length new) - get_num_free_slots (lru_backend s) = n" by (simp add: fr n_def new_def)
  have pick: "(if n > 0 then pick_victims n hs (lru_blocks s) else Some []) =
      (if n \<le> int (length cands) then Some (take (nat n) cands) else None)"
    by (simp add: pick_victims_eq cands_def)
  show "lru_prepare_store hs s = Inr (None, s)" if "int (length cands) < n"
    using that unfolding lru_prepare_store_def Let_def nw nn pick by simp
  assume le: "n \<le> int (length cands)"
  let ?vs = "take (nat n) cands"
  note cp = candidates_props [OF wf, where p = hs]
  have dv: "distinct ?vs" using cp(1) by (simp add: cands_def)
  have vs: "set ?vs \<subseteq> dom (lru_stored s)"
    using cp(2) set_take_subset [of "nat n" cands] by (auto simp: cands_def lru_stored_def idle_in_def)
  obtain s1 where s1: "foldR lru_evict_step ?vs s = Inr s1" "lru_ok s1" "lru_capacity s1 = lru_capacity s"
      "lru_blocks s1 = filter (\<lambda>(k, _). k \<notin> set ?vs) (lru_blocks s)" "lru_events s1 = lru_events s"
      "be_block_size (lru_backend s1) = be_block_size (lru_backend s)"
    using lru_evict_loop [OF ok dv vs] by (elim exE conjE) (rule that)
  have len: "length (lru_blocks s1) = length (lru_blocks s) - length ?vs" "length ?vs \<le> length (lru_blocks s)"
    using length_filter_keys [OF wf dv] vs by (simp_all add: s1(4) lru_stored_def dom_map_of_conv_image_fst)
  have room: "int (length new) \<le> get_num_free_slots (lru_backend s1)"
  proof -
    have "get_num_free_slots (lru_backend s1) = lru_capacity s - (int (length (lru_blocks s)) - int (length ?vs))"
      using accounted_size [of "lru_backend s1" "slots (lru_blocks s1)"] s1(2,3) len by (simp add: lru_ok_def lru_capacity_def)
    moreover have "n \<le> int (length ?vs)" using le by simp
    ultimately show ?thesis by (simp add: n_def new_def)
  qed
  have ac1: "accounted (lru_backend s1) (slots (lru_blocks s1))" using s1(2) by (simp add: lru_ok_def)
  obtain ids be where al: "be_allocate_blocks new (lru_backend s1) = Inr (map new_block_status ids, be)" "length ids = length new"
      "accounted be (slots (lru_blocks s1) + mset ids)" "be_num_blocks be = be_num_blocks (lru_backend s1)"
    using accounted_alloc [OF ac1 room] by (elim exE conjE) (rule that)
  define s' where "s' = s1\<lparr>lru_events := add_event ?vs (lru_backend s1) True (lru_events s1), lru_backend := be,
      lru_blocks := lru_blocks s1 @ zip new (map new_block_status ids)\<rparr>"
  have wf1: "od_wf (lru_blocks s1)" "distinct new" "set new \<inter> set (od_keys (lru_blocks s1)) = {}"
    using s1(2) hs by (auto simp: lru_ok_def new_def s1(4) lru_stored_def dom_map_of_conv_image_fst)
  note fo = fold_od_set_new [OF wf1 al(2)]
  have ids: "get_load_store_spec (map new_block_status ids) = ids"
    by (simp add: get_load_store_spec_def new_block_status_def comp_def)
  have "lru_prepare_store hs s =
      Inr (Some \<lparr>block_hashes_to_store = new, store_spec = ids, block_hashes_evicted = ?vs\<rparr>, s')"
    using le unfolding lru_prepare_store_def Let_def nw nn pick by (simp add: s1(1) al(1,2) fo ids s'_def)
  moreover have "lru_ok s'"
  proof -
    have "od_wf (lru_blocks s')" using wf1 al(2) by (auto simp: s'_def od_wf_def)
    moreover have "accounted (lru_backend s') (slots (lru_blocks s'))"
      using al(3) by (simp add: s'_def slots_zip_new al(2))
    ultimately show ?thesis by (simp add: lru_ok_def)
  qed
  moreover have "lru_capacity s' = lru_capacity s" using s1(3) al(4) by (simp add: s'_def lru_capacity_def)
  moreover have "lru_events s' = add_event ?vs (lru_backend s) True (lru_events s)"
    using s1(5,6) by (simp add: s'_def add_event_def split: option.splits)
  ultimately show "\<exists>ids s'. lru_prepare_store hs s =
          Inr (Some \<lparr>block_hashes_to_store = new, store_spec = ids, block_hashes_evicted = take (nat n) cands\<rparr>, s') \<and>
        length ids = length new \<and> lru_ok s' \<and> lru_capacity s' = lru_capacity s \<and>
        lru_blocks s' = filter (\<lambda>(k, _). k \<notin> set (take (nat n) cands)) (lru_blocks s) @ zip new (map new_block_status ids) \<and>
        lru_events s' = add_event (take (nat n) cands) (lru_backend s) True (lru_events s)"
    using al(2) s1(4) by (intro exI [of _ ids] exI [of _ s']) (simp add: s'_def)
qed

lemma map_of_filter_keys: "map_of (filter (\<lambda>(k, _). k \<notin> set vs) d) = map_of d |` (- set vs)"
  by (induction d) (auto simp: restrict_map_def fun_eq_iff)

lemma card_od: "od_wf d \<Longrightarrow> card (dom (map_of d)) = length d"
  using distinct_card [of "od_keys d"] by (simp add: od_wf_def dom_map_of_conv_image_fst)

lemma lru_store_failed_loop:
  assumes "lru_ok s" "distinct hs" "\<forall>h \<in> set hs. pending_in (lru_stored s) h"
  shows "foldR lru_store_failed_step hs s = foldR lru_evict_step hs s"
  using assms
proof (induction hs arbitrary: s)
  case (Cons h hs)
  obtain b where b: "od_get (lru_blocks s) h = Some b" "\<not> is_ready b"
    using Cons.prems(3) by (auto simp: pending_in_def lru_stored_def)
  have e: "lru_store_failed_step h s = lru_evict_step h s"
    using b by (simp add: lru_store_failed_step_def lru_evict_step_def)
  define s1 where "s1 = s\<lparr>lru_blocks := od_del h (lru_blocks s), lru_backend := be_free b (lru_backend s)\<rparr>"
  have s1: "lru_evict_step h s = Inr s1" using b by (simp add: lru_evict_step_def s1_def)
  have "lru_ok s1"
    using Cons.prems(1) accounted_free_del [of "lru_backend s" "lru_blocks s" "{#}" h b] b by (simp add: lru_ok_def s1_def)
  moreover have "\<forall>h' \<in> set hs. pending_in (lru_stored s1) h'"
    using Cons.prems(2,3) by (auto simp: pending_in_def lru_stored_def s1_def)
  ultimately show ?case using Cons.IH [of s1] Cons.prems(2) e s1 by simp
qed simp

abbreviation lru_exec :: "off_op \<Rightarrow> lru_manager \<Rightarrow> (off_result \<times> lru_manager) res" where
  "lru_exec \<equiv> off_exec (\<lambda>hs s. (lru_lookup hs s, s)) lru_prepare_load lru_touch lru_complete_load lru_prepare_store lru_complete_store"

lemma lru_events_irrelevant [simp]:
  "lru_ok (s\<lparr>lru_events := e\<rparr>) = lru_ok s" "lru_stored (s\<lparr>lru_events := e\<rparr>) = lru_stored s"
  "lru_capacity (s\<lparr>lru_events := e\<rparr>) = lru_capacity s"
  by (simp_all add: lru_ok_def lru_stored_def lru_capacity_def)

lemma lru_prepare_store_simulates:
  assumes ok: "lru_ok s" and hs: "distinct hs"
  shows "\<exists>r s'. lru_prepare_store hs s = Inr (r, s') \<and> lru_ok s' \<and> lru_capacity s' = lru_capacity s \<and>
    spec_step (lru_capacity s) (lru_stored s) (PrepareStore hs) (Stored r) (lru_stored s')"
proof -
  define new where "new = filter (\<lambda>h. h \<notin> dom (lru_stored s)) hs"
  define n where "n = int (length new) - (lru_capacity s - int (length (lru_blocks s)))"
  define vs where "vs = take (nat n) (candidates hs (lru_blocks s))"
  note eq = lru_prepare_store_eq [OF ok hs, folded new_def, folded n_def, folded vs_def]
  have wf: "od_wf (lru_blocks s)" using ok by (simp add: lru_ok_def)
  show ?thesis
  proof (cases "n \<le> int (length (candidates hs (lru_blocks s)))")
    case True
    obtain ids s' where e: "lru_prepare_store hs s =
          Inr (Some \<lparr>block_hashes_to_store = new, store_spec = ids, block_hashes_evicted = vs\<rparr>, s')"
        "length ids = length new" "lru_ok s'" "lru_capacity s' = lru_capacity s"
        "lru_blocks s' = filter (\<lambda>(k, _). k \<notin> set vs) (lru_blocks s) @ zip new (map new_block_status ids)"
      using eq(1) [OF True] by (elim exE conjE) (rule that)
    have dj: "set new \<inter> set (od_keys (filter (\<lambda>(k, _). k \<notin> set vs) (lru_blocks s))) = {}"
      by (auto simp: new_def lru_stored_def dom_map_of_conv_image_fst)
    have "lru_stored s' = put_new new ids (lru_stored s |` (- set vs))"
      using map_of_put_new [OF dj e(2)] by (simp add: lru_stored_def e(5) map_of_filter_keys)
    moreover have "int (length vs) = max 0 (int (length new) - (lru_capacity s - int (card (dom (lru_stored s)))))"
      using True card_od [OF wf] by (simp add: vs_def lru_stored_def n_def [symmetric])
    moreover have "\<forall>h \<in> set vs. idle_in (lru_stored s) h"
      by (auto simp: vs_def lru_stored_def dest!: in_set_takeD simp: candidates_props(2) [OF wf])
    moreover have "distinct vs" using candidates_props(1) [OF wf] by (simp add: vs_def)
    moreover have "set new \<subseteq> set hs - dom (lru_stored s)" "distinct new" using hs by (auto simp: new_def)
    ultimately have "spec_step (lru_capacity s) (lru_stored s) (PrepareStore hs)
        (Stored (Some \<lparr>block_hashes_to_store = new, store_spec = ids, block_hashes_evicted = vs\<rparr>)) (lru_stored s')"
      using e(2) by (intro spec_store) simp_all
    then show ?thesis using e(1-4) by blast
  next
    case False
    then show ?thesis using eq(2) ok by (auto intro: spec_refuse)
  qed
qed

lemma lru_complete_store_simulates:
  assumes ok: "lru_ok s" and hs: "distinct hs" "\<forall>h \<in> set hs. pending_in (lru_stored s) h"
  shows "\<exists>s'. lru_complete_store hs success s = Inr s' \<and> lru_ok s' \<and> lru_capacity s' = lru_capacity s \<and>
    spec_step (lru_capacity s) (lru_stored s) (CompleteStore hs success) Done (lru_stored s')"
proof (cases success)
  case True
  obtain s1 where s1: "foldR lru_store_ok_step hs ([], s) = Inr ([] @ hs, s1)" "lru_stored s1 = make_ready hs (lru_stored s)"
      "lru_ok s1" "lru_capacity s1 = lru_capacity s"
    using lru_tab.ready_loop [OF ok hs, of "\<lambda>_. Inl KeyError" "[]", folded lru_store_ok_step_eq]
    by (elim exE conjE) (rule that)
  then show ?thesis using True spec_stored [of "lru_capacity s" "lru_stored s" hs] by (simp add: lru_complete_store_def)
next
  case False
  have sub: "set hs \<subseteq> dom (lru_stored s)" using hs(2) by (auto simp: pending_in_def)
  obtain s1 where s1: "foldR lru_evict_step hs s = Inr s1" "lru_ok s1" "lru_capacity s1 = lru_capacity s"
      "lru_blocks s1 = filter (\<lambda>(k, _). k \<notin> set hs) (lru_blocks s)"
    using lru_evict_loop [OF ok hs(1) sub] by (elim exE conjE) (rule that)
  have "lru_stored s1 = lru_stored s |` (- set hs)" using s1(4) by (simp add: lru_stored_def map_of_filter_keys)
  then show ?thesis using False s1 lru_store_failed_loop [OF ok hs] spec_failed [of "lru_capacity s" "lru_stored s" hs]
    by (simp add: lru_complete_store_def)
qed

lemma lru_simulates:
  assumes ok: "lru_ok s" and ad: "admissible (lru_stored s) op"
  shows "\<exists>r s'. lru_exec op s = Inr (r, s') \<and> lru_ok s' \<and> lru_capacity s' = lru_capacity s \<and>
    spec_step (lru_capacity s) (lru_stored s) op r (lru_stored s')"
proof (cases op)
  case (Lookup hs)
  then show ?thesis using ok spec_lookup [of "lru_capacity s" "lru_stored s" hs]
    by (simp add: lru_lookup_def lookup_loop_spec lru_stored_def)
next
  case (PrepareLoad hs)
  have "\<forall>h \<in> set hs. ready_in (lru_stored s) h" "distinct hs" using ad PrepareLoad by (auto simp: ready_in_def)
  from lru_tab.load_loop [OF ok this(2,1), of KeyError "[]"] obtain bs s1 where
    "foldR lru_load_step hs ([], s) = Inr (bs, s1)" "map bs_block_id bs = map (slot_in (lru_stored s)) hs"
    "lru_stored s1 = bump 1 hs (lru_stored s)" "lru_ok s1" "lru_capacity s1 = lru_capacity s"
    unfolding lru_load_step_eq by auto
  then show ?thesis using PrepareLoad spec_load [of "lru_capacity s" "lru_stored s" hs]
    by (simp add: lru_prepare_load_def get_load_store_spec_def)
next
  case (Touch hs)
  then show ?thesis using lru_touch_ok [OF ok, of hs] spec_touch [of "lru_capacity s" "lru_stored s" hs] by simp
next
  case (CompleteLoad hs)
  have "\<forall>h \<in> set hs. \<exists>b. lru_stored s h = Some b \<and> 0 < sint (bs_ref_cnt b)" "distinct hs" using ad CompleteLoad by auto
  from lru_tab.unload_loop [OF ok this(2,1), of KeyError] show ?thesis
    using CompleteLoad spec_loaded [of "lru_capacity s" "lru_stored s" hs]
    by (auto simp: lru_complete_load_def lru_complete_load_step_eq)
next
  case (PrepareStore hs)
  then show ?thesis using lru_prepare_store_simulates [OF ok, of hs] ad by fastforce
next
  case (CompleteStore hs success)
  then show ?thesis using lru_complete_store_simulates [OF ok, of hs success] ad by fastforce
qed

interpretation lru: offload_manager lru_ok lru_stored lru_capacity
  "\<lambda>hs s. (lru_lookup hs s, s)" lru_prepare_load lru_touch lru_complete_load lru_prepare_store lru_complete_store
proof unfold_locales
  show "placed (lru_capacity s) (lru_stored s)" if "lru_ok s" for s
    using that accounted_placed by (simp add: lru_ok_def lru_capacity_def lru_stored_def)
qed (rule lru_simulates)

section \<open>The ARC manager implements the specification\<close>

definition arc_ok :: "arc_manager \<Rightarrow> bool" where
  "arc_ok s \<longleftrightarrow> od_wf (t1 s @ t2 s) \<and> accounted (arc_backend s) (slots (t1 s @ t2 s)) \<and>
     cache_capacity s = be_num_blocks (arc_backend s) \<and> 0 \<le> cache_capacity s"

definition arc_stored :: "arc_manager \<Rightarrow> offloaded" where
  "arc_stored s = map_of (t1 s @ t2 s)"

lemma od_wf_append: "od_wf (d @ e) \<longleftrightarrow> od_wf d \<and> od_wf e \<and> set (od_keys d) \<inter> set (od_keys e) = {}"
  by (auto simp: od_wf_def)

lemma od_get_key: "od_get d k = Some v \<Longrightarrow> k \<in> set (od_keys d)"
  using od_get_None_iff [of d k] by simp

lemma arc_get_stored: "arc_get s = arc_stored s"
  by (rule ext) (simp add: arc_get_def arc_stored_def map_add_def split: option.splits)

interpretation arc_tab: block_table arc_ok cache_capacity arc_stored arc_put
proof unfold_locales
  fix s :: arc_manager and h b b'
  show "arc_stored (arc_put h b' s) = (arc_stored s)(h \<mapsto> b')" if "arc_stored s h = Some b"
    by (rule ext) (auto simp: arc_stored_def arc_put_def map_add_def split: option.splits)
  show "arc_ok (arc_put h b' s)" if "arc_ok s" "arc_stored s h = Some b" "bs_block_id b' = bs_block_id b"
  proof (cases "od_get (t1 s) h")
    case None
    then have g: "od_get (t2 s) h = Some b" using that(2) by (simp add: arc_stored_def map_add_def)
    then show ?thesis
      using that None od_get_key [OF g] by (auto simp: arc_ok_def arc_put_def slots_set_same od_wf_append od_keys_set)
  next
    case (Some c)
    then have g: "od_get (t1 s) h = Some b" using that(2) by (simp add: arc_stored_def map_add_def)
    then show ?thesis
      using that od_get_key [OF g] by (auto simp: arc_ok_def arc_put_def slots_set_same od_wf_append od_keys_set)
  qed
  show "cache_capacity (arc_put h b s) = cache_capacity s" by (simp add: arc_put_def)
qed

lemma arc_load_step_eq: "arc_load_step = load_step arc_stored arc_put AssertionError"
  by (intro ext) (simp add: arc_load_step_def load_step_def arc_get_stored Let_def split: prod.splits option.splits)

lemma arc_complete_load_step_eq: "arc_complete_load_step = unload_step arc_stored arc_put AssertionError"
  by (intro ext) (simp add: arc_complete_load_step_def unload_step_def arc_get_stored split: option.splits)

lemma foldR_pure: "foldR (\<lambda>x s. Inr (f x s)) xs s = Inr (fold f xs s)"
  by (induction xs arbitrary: s) simp_all

lemma arc_store_ok_step_eq: "(\<lambda>h st. Inr (arc_store_ok_step h st)) = ready_step arc_stored arc_put Inr"
  by (intro ext) (auto simp: arc_store_ok_step_def ready_step_def arc_get_stored split: prod.splits option.splits)

text \<open>Moving entries inside and between T1 and T2 changes neither the stored map nor the slots.\<close>

lemma arc_touch_step_ok:
  assumes "arc_ok s"
  shows "arc_ok (arc_touch_step fl h s) \<and> cache_capacity (arc_touch_step fl h s) = cache_capacity s \<and>
    arc_stored (arc_touch_step fl h s) = arc_stored s"
proof -
  have wf: "od_wf (t1 s)" "od_wf (t2 s)" "set (od_keys (t1 s)) \<inter> set (od_keys (t2 s)) = {}"
    and ac: "accounted (arc_backend s) (slots (t1 s) + slots (t2 s))"
    using assms by (simp_all add: arc_ok_def od_wf_append)
  show ?thesis
  proof (cases "od_get (t1 s) h")
    case (Some b)
    have "h \<notin> set (od_keys (t2 s))" using od_get_key [OF Some] wf(3) by blast
    then have h2: "h \<notin> set (od_keys (t2 s))" "od_get (t2 s) h = None" by (simp_all add: od_get_None_iff)
    have sd: "od_set h b (od_del h (t1 s)) = od_del h (t1 s) @ [(h, b)]" "od_set h b (t2 s) = t2 s @ [(h, b)]"
      using h2 by (simp_all add: od_set_absent od_keys_del)
    have sl: "slots (t1 s) = add_mset (bs_block_id b) (slots (od_del h (t1 s)))" using slots_del [OF wf(1) Some] .
    have kd: "set (od_keys (od_del h (t1 s))) = set (od_keys (t1 s)) - {h}" by (auto simp: od_keys_del)
    have w1: "od_wf ((od_del h (t1 s) @ [(h, b)]) @ t2 s)" "od_wf (od_del h (t1 s) @ (t2 s @ [(h, b)]))"
      unfolding od_wf_append using wf h2(1) kd by (auto simp: od_wf_def od_keys_del)
    have m: "map_of ((od_del h (t1 s) @ [(h, b)]) @ t2 s) = map_of (t1 s @ t2 s)"
      "map_of (od_del h (t1 s) @ (t2 s @ [(h, b)])) = map_of (t1 s @ t2 s)"
      by (rule ext, use Some h2 in \<open>simp add: map_add_def split: option.splits\<close>)+
    show ?thesis
    proof (cases "is_ready b")
      case True
      have "arc_touch_step fl h s = s\<lparr>t1 := od_del h (t1 s), t2 := t2 s @ [(h, b)]\<rparr>"
        using Some True by (simp add: arc_touch_step_def Let_def sd)
      then show ?thesis using w1(2) m(2) ac sl assms by (simp add: arc_ok_def arc_stored_def add.commute)
    next
      case False
      have "arc_touch_step fl h s = s\<lparr>t1 := od_del h (t1 s) @ [(h, b)]\<rparr>"
        using Some False by (simp add: arc_touch_step_def Let_def sd)
      then show ?thesis using w1(1) m(1) ac sl assms by (simp add: arc_ok_def arc_stored_def add.commute)
    qed
  next
    case None
    have mk: "set (od_keys (od_move_to_end h (t2 s))) = set (od_keys (t2 s))"
      by (metis dom_map_of_conv_image_fst od_move_get set_map)
    have "map_of (t1 s @ od_move_to_end h (t2 s)) = map_of (t1 s @ t2 s)" by simp
    then show ?thesis
      using assms None wf mk
      by (auto simp: arc_ok_def arc_stored_def arc_touch_step_def Let_def od_wf_append od_move_wf slots_move)
  qed
qed

lemma arc_touch_ok:
  assumes "arc_ok s"
  shows "arc_ok (arc_touch fl hs s) \<and> cache_capacity (arc_touch fl hs s) = cache_capacity s \<and>
    arc_stored (arc_touch fl hs s) = arc_stored s"
proof -
  have "arc_ok s \<Longrightarrow> arc_ok (fold (arc_touch_step fl) xs s) \<and> cache_capacity (fold (arc_touch_step fl) xs s) = cache_capacity s \<and>
      arc_stored (fold (arc_touch_step fl) xs s) = arc_stored s" for xs
  proof (induction xs arbitrary: s)
    case (Cons x xs)
    then show ?case using arc_touch_step_ok [of s fl x] Cons.IH [of "arc_touch_step fl x s"] by simp
  qed simp
  then show ?thesis using assms by (simp add: arc_touch_def)
qed

lemma od_del_append [simp]: "od_del k (d @ e) = od_del k d @ od_del k e"
  by (simp add: od_del_def)

lemma arc_drop:
  assumes ok: "arc_ok s" and h: "arc_stored s h = Some b"
    and s': "t1 s' @ t2 s' = od_del h (t1 s @ t2 s)" "arc_backend s' = be_free b (arc_backend s)" "cache_capacity s' = cache_capacity s"
  shows "arc_ok s' \<and> arc_stored s' = (arc_stored s)(h := None) \<and> length (t1 s' @ t2 s') + 1 = length (t1 s @ t2 s)"
proof -
  let ?d = "t1 s @ t2 s"
  have wf: "od_wf ?d" and g: "od_get ?d h = Some b" and ac: "accounted (arc_backend s) (slots ?d + {#})"
    using ok h by (simp_all add: arc_ok_def arc_stored_def)
  have "od_wf (od_del h ?d)" using wf by (rule od_wf_del)
  moreover have "accounted (be_free b (arc_backend s)) (slots (od_del h ?d))" using accounted_free_del [OF ac wf g] by simp
  ultimately have "arc_ok s'" using ok s' by (simp add: arc_ok_def be_free_def del: od_del_append slots_append)
  moreover have "map_of (od_del h ?d) = (map_of ?d)(h := None)" by (rule ext) (simp del: od_del_append map_of_append)
  moreover have "length (od_del h ?d) + 1 = length ?d" using arg_cong [where f = size, OF slots_del [OF wf g]] by simp
  ultimately show ?thesis using s' by (simp add: arc_stored_def del: od_del_append map_of_append)
qed

lemma find_victim_mem: "find_victim p d = Some (h, b) \<Longrightarrow> (h, b) \<in> set d \<and> bs_ref_cnt b = 0 \<and> h \<notin> set p"
  by (induction p d rule: find_victim.induct) (auto split: if_splits)

lemma find_victim_Some:
  "find_victim p d = Some (h, b) \<Longrightarrow> od_wf d \<Longrightarrow> od_get d h = Some b \<and> bs_ref_cnt b = 0 \<and> h \<notin> set p"
  using find_victim_mem [of p d h b] od_get_mem [of d h b] by simp

lemma arc_evict_Suc:
  assumes ok: "arc_ok s"
  shows "arc_evict_loop (Suc n) p ev s = (None, s) \<or>
    (\<exists>h s1. arc_evict_loop (Suc n) p ev s = arc_evict_loop n p (ev @ [h]) s1 \<and> idle_in (arc_stored s) h \<and> h \<notin> set p \<and> arc_ok s1 \<and>
       arc_stored s1 = (arc_stored s)(h := None) \<and> length (t1 s1 @ t2 s1) + 1 = length (t1 s @ t2 s) \<and> cache_capacity s1 = cache_capacity s)"
proof -
  have wf: "od_wf (t1 s)" "od_wf (t2 s)" "set (od_keys (t1 s)) \<inter> set (od_keys (t2 s)) = {}"
    using ok by (simp_all add: arc_ok_def od_wf_append)
  let ?v1 = "if py_int (target_t1_size s) \<le> int (length (t1 s)) then find_victim p (t1 s) else None"
  consider h b where "?v1 = Some (h, b)" | h b where "?v1 = None" "find_victim p (t2 s) = Some (h, b)"
    | "?v1 = None" "find_victim p (t2 s) = None"
    by (cases ?v1; cases "find_victim p (t2 s)") auto
  then show ?thesis
  proof cases
    case (1 h b)
    then have v: "od_get (t1 s) h = Some b" "bs_ref_cnt b = 0" "h \<notin> set p"
      using find_victim_Some [OF _ wf(1)] by (auto split: if_splits)
    have h2: "h \<notin> set (od_keys (t2 s))" using od_get_key [OF v(1)] wf(3) by blast
    have st: "arc_stored s h = Some b" using v(1) by (simp add: arc_stored_def map_add_def)
    let ?s1 = "s\<lparr>t1 := od_del h (t1 s), b1 := od_set h () (b1 s), arc_backend := be_free b (arc_backend s)\<rparr>"
    have "t1 ?s1 @ t2 ?s1 = od_del h (t1 s @ t2 s)" using h2 by (simp add: od_del_absent)
    from arc_drop [OF ok st this] show ?thesis
      using 1 v st by (intro disjI2 exI [of _ h] exI [of _ ?s1]) (simp add: idle_in_def)
  next
    case (2 h b)
    then have v: "od_get (t2 s) h = Some b" "bs_ref_cnt b = 0" "h \<notin> set p"
      using find_victim_Some [OF _ wf(2)] by auto
    have h1: "h \<notin> set (od_keys (t1 s))" using od_get_key [OF v(1)] wf(3) by blast
    then have "od_get (t1 s) h = None" by (simp add: od_get_None_iff)
    then have st: "arc_stored s h = Some b" using v(1) by (simp add: arc_stored_def map_add_def)
    let ?s1 = "s\<lparr>t2 := od_del h (t2 s), b2 := od_set h () (b2 s), arc_backend := be_free b (arc_backend s)\<rparr>"
    have "t1 ?s1 @ t2 ?s1 = od_del h (t1 s @ t2 s)" using h1 by (simp add: od_del_absent)
    from arc_drop [OF ok st this] show ?thesis
      using 2 v st by (intro disjI2 exI [of _ h] exI [of _ ?s1]) (simp add: idle_in_def)
  qed simp
qed

lemma arc_evict_loop_ok:
  assumes "arc_ok s"
  shows "\<exists>r vs s'. arc_evict_loop n p ev s = (r, s') \<and> (r = None \<or> r = Some (ev @ vs) \<and> length vs = n) \<and> distinct vs \<and>
    (\<forall>h \<in> set vs. idle_in (arc_stored s) h \<and> h \<notin> set p) \<and> arc_stored s' = arc_stored s |` (- set vs) \<and> arc_ok s' \<and>
    cache_capacity s' = cache_capacity s \<and> length (t1 s' @ t2 s') + length vs = length (t1 s @ t2 s)"
  using assms
proof (induction n arbitrary: s ev)
  case 0
  show ?case by (rule exI [of _ "Some ev"], rule exI [of _ "[]"], rule exI [of _ s]) (use 0 in simp)
next
  case (Suc n)
  from arc_evict_Suc [OF Suc.prems, of n p ev] show ?case
  proof (elim disjE exE conjE)
    assume "arc_evict_loop (Suc n) p ev s = (None, s)"
    then show ?thesis using Suc.prems by (intro exI [of _ None] exI [of _ "[]"] exI [of _ s]) simp
  next
    fix h s1
    assume s1: "arc_evict_loop (Suc n) p ev s = arc_evict_loop n p (ev @ [h]) s1" "idle_in (arc_stored s) h" "h \<notin> set p" "arc_ok s1"
      "arc_stored s1 = (arc_stored s)(h := None)" "length (t1 s1 @ t2 s1) + 1 = length (t1 s @ t2 s)" "cache_capacity s1 = cache_capacity s"
    obtain r vs s' where i: "arc_evict_loop n p (ev @ [h]) s1 = (r, s')" "r = None \<or> r = Some ((ev @ [h]) @ vs) \<and> length vs = n" "distinct vs"
        "\<forall>h \<in> set vs. idle_in (arc_stored s1) h \<and> h \<notin> set p" "arc_stored s' = arc_stored s1 |` (- set vs)" "arc_ok s'"
        "cache_capacity s' = cache_capacity s1" "length (t1 s' @ t2 s') + length vs = length (t1 s1 @ t2 s1)"
      using Suc.IH [OF s1(4), of "ev @ [h]"] by (elim exE conjE) (rule that)
    have nh: "h' \<noteq> h \<and> idle_in (arc_stored s) h'" if "idle_in (arc_stored s1) h'" for h'
      using that by (auto simp: idle_in_def s1(5) split: if_splits)
    have "arc_stored s' = arc_stored s |` (- set (h # vs))" by (auto simp: i(5) s1(5) restrict_map_def fun_eq_iff)
    moreover have "distinct (h # vs)" "\<forall>h' \<in> set (h # vs). idle_in (arc_stored s) h' \<and> h' \<notin> set p"
      using i(3,4) nh s1(2,3) by auto
    ultimately show ?thesis using s1(1,6,7) i
      by (intro exI [of _ r] exI [of _ "h # vs"] exI [of _ s']) auto
  qed
qed

lemma arc_insert_fold:
  "t1 (fold arc_insert_step xs s) = fold (\<lambda>(h, b). od_set h b) xs (t1 s)" "t2 (fold arc_insert_step xs s) = t2 s"
  "arc_backend (fold arc_insert_step xs s) = arc_backend s" "cache_capacity (fold arc_insert_step xs s) = cache_capacity s"
  by (induction xs arbitrary: s) (auto simp: arc_insert_step_def split: prod.splits)

abbreviation arc_exec :: "(rat \<Rightarrow> rat) \<Rightarrow> off_op \<Rightarrow> arc_manager \<Rightarrow> (off_result \<times> arc_manager) res" where
  "arc_exec fl \<equiv> off_exec (\<lambda>hs s. (arc_lookup hs s, s)) arc_prepare_load (arc_touch fl) arc_complete_load arc_prepare_store
     (\<lambda>hs success s. Inr (arc_complete_store hs success s))"

lemma arc_frame:
  assumes "arc_ok s" "t1 s' = t1 s" "t2 s' = t2 s" "arc_backend s' = arc_backend s" "cache_capacity s' = cache_capacity s"
  shows "arc_ok s' \<and> arc_stored s' = arc_stored s"
  using assms by (simp add: arc_ok_def arc_stored_def)

lemma trim_ghosts_ok: "0 \<le> cap \<Longrightarrow> trim_ghosts cap d = Inr (drop (nat (int (length d) - cap)) d)"
  by (simp add: trim_ghosts_def Let_def)

text \<open>The second half of \<^verbatim>\<open>prepare_store\<close>, after the evictions.\<close>

lemma arc_insert_ok:
  assumes ok: "arc_ok s" and new: "distinct new" "set new \<inter> dom (arc_stored s) = {}"
    and room: "int (length new) \<le> cache_capacity s - int (length (t1 s @ t2 s))"
  shows "\<exists>ids be. be_allocate_blocks new (arc_backend s) = Inr (map new_block_status ids, be) \<and> length ids = length new \<and>
    (\<forall>s2. t1 s2 = t1 s \<and> t2 s2 = t2 s \<and> arc_backend s2 = be \<and> cache_capacity s2 = cache_capacity s \<longrightarrow>
       (let s' = fold arc_insert_step (zip new (map new_block_status ids)) s2 in
        arc_ok s' \<and> arc_stored s' = put_new new ids (arc_stored s) \<and> cache_capacity s' = cache_capacity s))"
proof -
  let ?d = "t1 s @ t2 s"
  have wf: "od_wf ?d" and ac: "accounted (arc_backend s) (slots ?d)" and cc: "cache_capacity s = be_num_blocks (arc_backend s)"
    using ok by (simp_all add: arc_ok_def)
  have "int (length new) \<le> get_num_free_slots (arc_backend s)" using accounted_size [OF ac] room cc by simp
  from accounted_alloc [OF ac this] obtain ids be where al: "be_allocate_blocks new (arc_backend s) = Inr (map new_block_status ids, be)"
      "length ids = length new" "accounted be (slots ?d + mset ids)" "be_num_blocks be = be_num_blocks (arc_backend s)"
    by (elim exE conjE) (rule that)
  let ?z = "zip new (map new_block_status ids)"
  have dj: "set new \<inter> set (od_keys ?d) = {}" using new(2) by (simp add: arc_stored_def dom_map_of_conv_image_fst image_Un)
  have kz: "od_keys ?z = new" using al(2) by simp
  have w: "od_wf ((t1 s @ ?z) @ t2 s)" using wf dj new(1) kz by (auto simp: od_wf_def simp del: map_fst_zip)
  have m: "map_of ((t1 s @ ?z) @ t2 s) = put_new new ids (map_of ?d)"
  proof -
    have "dom (map_of ?z) = set new" using al(2) by (simp add: dom_map_of_zip)
    then have "dom (map_of ?z) \<inter> dom (map_of (t2 s)) = {}" using dj by (auto simp: dom_map_of_conv_image_fst)
    then have "map_of (t2 s) ++ map_of ?z = map_of ?z ++ map_of (t2 s)" by (metis map_add_comm inf_commute)
    then have "map_of ((t1 s @ ?z) @ t2 s) = map_of (?d @ ?z)" by simp
    then show ?thesis using map_of_put_new [OF dj al(2)] by simp
  qed
  have "let s' = fold arc_insert_step ?z s2 in
      arc_ok s' \<and> arc_stored s' = put_new new ids (arc_stored s) \<and> cache_capacity s' = cache_capacity s"
    if s2: "t1 s2 = t1 s \<and> t2 s2 = t2 s \<and> arc_backend s2 = be \<and> cache_capacity s2 = cache_capacity s" for s2
  proof -
    have w1: "od_wf (t1 s)" "set new \<inter> set (od_keys (t1 s)) = {}" using wf dj by (auto simp: od_wf_append)
    have "t1 (fold arc_insert_step ?z s2) = t1 s @ ?z"
      using fold_od_set_new [OF w1(1) new(1) w1(2) al(2)] s2 by (simp add: arc_insert_fold)
    then show ?thesis
      using s2 w m ok al(3,4) by (simp add: arc_ok_def arc_stored_def arc_insert_fold slots_zip_new al(2) ac_simps)
  qed
  then show ?thesis using al(1,2) by blast
qed

lemma arc_prepare_store_simulates:
  assumes ok: "arc_ok s" and hs: "distinct hs"
  shows "\<exists>r s'. arc_prepare_store hs s = Inr (r, s') \<and> arc_ok s' \<and> cache_capacity s' = cache_capacity s \<and>
    (\<forall>h \<in> set hs. h \<in> dom (arc_stored s) \<longrightarrow> arc_stored s' h = arc_stored s h) \<and>
    spec_step (cache_capacity s) (arc_stored s) (PrepareStore hs) (Stored r) (arc_stored s')"
proof -
  define new where "new = filter (\<lambda>h. h \<notin> dom (arc_stored s)) hs"
  define n where "n = nat (int (length new) - get_num_free_slots (arc_backend s))"
  have wf: "od_wf (t1 s @ t2 s)" and ac: "accounted (arc_backend s) (slots (t1 s @ t2 s))" and
    cc: "cache_capacity s = be_num_blocks (arc_backend s)" "0 \<le> cache_capacity s"
    using ok by (simp_all add: arc_ok_def)
  have fr: "get_num_free_slots (arc_backend s) = cache_capacity s - int (length (t1 s @ t2 s))"
    using accounted_size [OF ac] cc by simp
  have cd: "card (dom (arc_stored s)) = length (t1 s @ t2 s)" using card_od [OF wf] by (simp add: arc_stored_def)
  have nw: "filter (\<lambda>h. od_get (t1 s) h = None \<and> od_get (t2 s) h = None) hs = new"
    unfolding new_def by (rule filter_cong) (auto simp: arc_stored_def domIff map_add_None)
  have nsub: "set new \<subseteq> set hs - dom (arc_stored s)" "distinct new" using hs by (auto simp: new_def)
  have free: "0 \<le> get_num_free_slots (arc_backend s)"
    using ac by (simp add: get_num_free_slots_def accounted_def)
  show ?thesis
  proof (cases "new = []")
    case True
    let ?out = "\<lparr>block_hashes_to_store = [], store_spec = get_load_store_spec [], block_hashes_evicted = []\<rparr>"
    have "spec_step (cache_capacity s) (arc_stored s) (PrepareStore hs) (Stored (Some ?out)) (arc_stored s)"
      using free fr cd by (intro spec_store) (simp_all add: get_load_store_spec_def put_new_def restrict_map_def)
    then show ?thesis using True ok by (simp add: arc_prepare_store_def nw)
  next
    case False
    obtain r vs s1 where e: "arc_evict_loop n hs [] s = (r, s1)" "r = None \<or> r = Some ([] @ vs) \<and> length vs = n" "distinct vs"
        "\<forall>h \<in> set vs. idle_in (arc_stored s) h \<and> h \<notin> set hs" "arc_stored s1 = arc_stored s |` (- set vs)" "arc_ok s1"
        "cache_capacity s1 = cache_capacity s" "length (t1 s1 @ t2 s1) + length vs = length (t1 s @ t2 s)"
      using arc_evict_loop_ok [OF ok, of n hs "[]"] by (elim exE conjE) (rule that)
    have keep: "\<forall>h \<in> set hs. h \<in> dom (arc_stored s) \<longrightarrow> arc_stored s1 h = arc_stored s h" using e(4,5) by auto
    show ?thesis
    proof (cases r)
      case None
      have "spec_step (cache_capacity s) (arc_stored s) (PrepareStore hs) (Stored None) (arc_stored s1)"
        using e(4,5) by (intro spec_refuse) (auto simp: map_le_def)
      then show ?thesis using None False e(1,6,7) keep by (simp add: arc_prepare_store_def nw Let_def n_def [symmetric])
    next
      case (Some v)
      then have v: "r = Some vs" "length vs = n" using e(2) by auto
      have room: "int (length new) \<le> cache_capacity s1 - int (length (t1 s1 @ t2 s1))"
        using e(7,8) v(2) fr by (simp add: n_def)
      have nd: "set new \<inter> dom (arc_stored s1) = {}" using nsub(1) by (auto simp: e(5))
      from arc_insert_ok [OF e(6) nsub(2) nd room] obtain ids be where a: "be_allocate_blocks new (arc_backend s1) = Inr (map new_block_status ids, be)"
          "length ids = length new"
          "\<forall>s2. t1 s2 = t1 s1 \<and> t2 s2 = t2 s1 \<and> arc_backend s2 = be \<and> cache_capacity s2 = cache_capacity s1 \<longrightarrow>
            (let s' = fold arc_insert_step (zip new (map new_block_status ids)) s2 in
             arc_ok s' \<and> arc_stored s' = put_new new ids (arc_stored s1) \<and> cache_capacity s' = cache_capacity s1)"
        by (elim exE conjE) (rule that)
      define cap where "cap = cache_capacity s1"
      define s2 where "s2 = s1\<lparr>b1 := drop (nat (int (length (b1 s1)) - cap)) (b1 s1), b2 := drop (nat (int (length (b2 s1)) - cap)) (b2 s1),
          arc_events := add_event vs (arc_backend s1) True (arc_events s1), arc_backend := be\<rparr>"
      define s' where "s' = fold arc_insert_step (zip new (map new_block_status ids)) s2"
      have s': "arc_ok s'" "arc_stored s' = put_new new ids (arc_stored s1)" "cache_capacity s' = cache_capacity s"
        using a(3) [THEN spec, of s2] e(7) by (simp_all add: s2_def s'_def Let_def)
      let ?out = "\<lparr>block_hashes_to_store = new, store_spec = ids, block_hashes_evicted = vs\<rparr>"
      have ids: "get_load_store_spec (map new_block_status ids) = ids"
        by (simp add: get_load_store_spec_def new_block_status_def comp_def)
      have tg: "trim_ghosts (cache_capacity s1) d = Inr (drop (nat (int (length d) - cap)) d)" for d
        using trim_ghosts_ok cc(2) e(7) by (simp add: cap_def)
      have "arc_prepare_store hs s = Inr (Some ?out, s')"
        using False e(1) v by (simp add: arc_prepare_store_def nw Let_def n_def [symmetric] tg a(1,2) ids s'_def s2_def)
      moreover have "spec_step (cache_capacity s) (arc_stored s) (PrepareStore hs) (Stored (Some ?out)) (arc_stored s')"
        using e(3,4) s'(2) e(5) a(2) nsub v(2) fr cd by (intro spec_store) (auto simp: n_def)
      moreover have "\<forall>h \<in> set hs. h \<in> dom (arc_stored s) \<longrightarrow> arc_stored s' h = arc_stored s h"
      proof (intro ballI impI)
        fix h
        assume h: "h \<in> set hs" "h \<in> dom (arc_stored s)"
        then have "h \<notin> set new" using nsub(1) by blast
        then show "arc_stored s' h = arc_stored s h" using h keep a(2) by (simp add: s'(2) put_new_other)
      qed
      ultimately show ?thesis using s' by blast
    qed
  qed
qed

lemma arc_failed_step_ok:
  assumes ok: "arc_ok s" and h: "pending_in (arc_stored s) h"
  shows "arc_ok (arc_store_failed_step h s) \<and> arc_stored (arc_store_failed_step h s) = (arc_stored s)(h := None) \<and>
    cache_capacity (arc_store_failed_step h s) = cache_capacity s"
proof -
  obtain b where b: "arc_stored s h = Some b" "\<not> is_ready b" using h by (auto simp: pending_in_def)
  have dj: "set (od_keys (t1 s)) \<inter> set (od_keys (t2 s)) = {}" using ok by (simp add: arc_ok_def od_wf_append)
  have "t1 (arc_store_failed_step h s) @ t2 (arc_store_failed_step h s) = od_del h (t1 s @ t2 s)"
  proof (cases "od_get (t1 s) h")
    case None
    then show ?thesis using b by (simp add: arc_store_failed_step_def arc_get_stored od_get_None_iff od_del_absent)
  next
    case (Some c)
    then have "h \<notin> set (od_keys (t2 s))" using od_get_key [OF Some] dj by blast
    then show ?thesis using Some b by (simp add: arc_store_failed_step_def arc_get_stored od_del_absent)
  qed
  from arc_drop [OF ok b(1) this] show ?thesis using b by (simp add: arc_store_failed_step_def arc_get_stored)
qed

lemma arc_failed_loop:
  assumes "arc_ok s" "distinct hs" "\<forall>h \<in> set hs. pending_in (arc_stored s) h"
  shows "arc_ok (fold arc_store_failed_step hs s) \<and> arc_stored (fold arc_store_failed_step hs s) = arc_stored s |` (- set hs) \<and>
    cache_capacity (fold arc_store_failed_step hs s) = cache_capacity s"
  using assms
proof (induction hs arbitrary: s)
  case Nil
  then show ?case by (simp add: restrict_map_def)
next
  case (Cons h hs)
  let ?s1 = "arc_store_failed_step h s"
  have s1: "arc_ok ?s1" "arc_stored ?s1 = (arc_stored s)(h := None)" "cache_capacity ?s1 = cache_capacity s"
    using arc_failed_step_ok [OF Cons.prems(1)] Cons.prems(3) by simp_all
  have "\<forall>h \<in> set hs. pending_in (arc_stored ?s1) h" using Cons.prems(2,3) by (auto simp: pending_in_def s1(2))
  then have i: "arc_ok (fold arc_store_failed_step hs ?s1)"
      "arc_stored (fold arc_store_failed_step hs ?s1) = arc_stored ?s1 |` (- set hs)"
      "cache_capacity (fold arc_store_failed_step hs ?s1) = cache_capacity ?s1"
    using Cons.IH [OF s1(1)] Cons.prems(2) by simp_all
  have "arc_stored ?s1 |` (- set hs) = arc_stored s |` (- set (h # hs))" unfolding s1(2) by (auto simp: restrict_map_def)
  then show ?case using i s1(3) by simp
qed

lemma arc_complete_store_simulates:
  assumes ok: "arc_ok s" and hs: "distinct hs" "\<forall>h \<in> set hs. pending_in (arc_stored s) h"
  shows "arc_ok (arc_complete_store hs success s) \<and> cache_capacity (arc_complete_store hs success s) = cache_capacity s \<and>
    spec_step (cache_capacity s) (arc_stored s) (CompleteStore hs success) Done (arc_stored (arc_complete_store hs success s))"
proof -
  have ev: "arc_ok (s'\<lparr>arc_events := e\<rparr>) = arc_ok s'" "arc_stored (s'\<lparr>arc_events := e\<rparr>) = arc_stored s'" for s' e
    by (simp_all add: arc_ok_def arc_stored_def)
  show ?thesis
  proof (cases success)
    case True
    from arc_tab.ready_loop [OF ok hs, of Inr "[]", folded arc_store_ok_step_eq, unfolded foldR_pure]
    obtain s1 where "fold arc_store_ok_step hs ([], s) = (hs, s1)" "arc_stored s1 = make_ready hs (arc_stored s)" "arc_ok s1"
        "cache_capacity s1 = cache_capacity s"
      by auto
    then show ?thesis using True spec_stored [of "cache_capacity s" "arc_stored s" hs] by (simp add: arc_complete_store_def ev)
  next
    case False
    then show ?thesis using arc_failed_loop [OF ok hs] spec_failed [of "cache_capacity s" "arc_stored s" hs]
      by (simp add: arc_complete_store_def ev)
  qed
qed

lemma arc_simulates:
  assumes ok: "arc_ok s" and ad: "admissible (arc_stored s) op"
  shows "\<exists>r s'. arc_exec fl op s = Inr (r, s') \<and> arc_ok s' \<and> cache_capacity s' = cache_capacity s \<and>
    spec_step (cache_capacity s) (arc_stored s) op r (arc_stored s')"
proof (cases op)
  case (Lookup hs)
  then show ?thesis using ok spec_lookup [of "cache_capacity s" "arc_stored s" hs]
    by (simp add: arc_lookup_def lookup_loop_spec arc_get_stored)
next
  case (PrepareLoad hs)
  have "\<forall>h \<in> set hs. ready_in (arc_stored s) h" "distinct hs" using ad PrepareLoad by (auto simp: ready_in_def)
  from arc_tab.load_loop [OF ok this(2,1), of AssertionError "[]"] obtain bs s1 where
    "foldR arc_load_step hs ([], s) = Inr (bs, s1)" "map bs_block_id bs = map (slot_in (arc_stored s)) hs"
    "arc_stored s1 = bump 1 hs (arc_stored s)" "arc_ok s1" "cache_capacity s1 = cache_capacity s"
    unfolding arc_load_step_eq by auto
  then show ?thesis using PrepareLoad spec_load [of "cache_capacity s" "arc_stored s" hs]
    by (simp add: arc_prepare_load_def get_load_store_spec_def)
next
  case (Touch hs)
  then show ?thesis using arc_touch_ok [OF ok, of fl hs] spec_touch [of "cache_capacity s" "arc_stored s" hs] by simp
next
  case (CompleteLoad hs)
  have "\<forall>h \<in> set hs. \<exists>b. arc_stored s h = Some b \<and> 0 < sint (bs_ref_cnt b)" "distinct hs" using ad CompleteLoad by auto
  from arc_tab.unload_loop [OF ok this(2,1), of AssertionError] show ?thesis
    using CompleteLoad spec_loaded [of "cache_capacity s" "arc_stored s" hs]
    by (auto simp: arc_complete_load_def arc_complete_load_step_eq)
next
  case (PrepareStore hs)
  then show ?thesis using arc_prepare_store_simulates [OF ok, of hs] ad by fastforce
next
  case (CompleteStore hs success)
  then show ?thesis using arc_complete_store_simulates [OF ok, of hs success] ad by simp
qed

interpretation arc: offload_manager arc_ok arc_stored cache_capacity
  "\<lambda>hs s. (arc_lookup hs s, s)" arc_prepare_load "arc_touch fl" arc_complete_load arc_prepare_store
  "\<lambda>hs success s. Inr (arc_complete_store hs success s)" for fl
proof unfold_locales
  show "placed (cache_capacity s) (arc_stored s)" if "arc_ok s" for s
    using that accounted_placed [of "t1 s @ t2 s" "arc_backend s"] by (simp add: arc_ok_def arc_stored_def)
qed (rule arc_simulates)

section \<open>The reuse filter\<close>

text \<open>The filter over any manager is a manager again.\<close>

lemma spec_step_more:
  assumes "spec_step cap M (PrepareStore hs') r M'" "set hs' \<subseteq> set hs"
  shows "spec_step cap M (PrepareStore hs) r M'"
  using assms(1)
proof cases
  case (spec_store out)
  then show ?thesis using assms(2) by (auto intro!: spec_step.spec_store)
qed (auto intro: spec_step.spec_refuse)

lemma eligible_sub: "set (eligible s hs) \<subseteq> set hs" "distinct hs \<Longrightarrow> distinct (eligible s hs)"
  by (auto simp: eligible_def)

context offload_manager
begin

lemma filter_is_manager:
  "offload_manager (\<lambda>s. ok (backing s)) (\<lambda>s. stored (backing s)) (\<lambda>s. capacity (backing s))
     (fr_lookup lk) (fr_prepare_load pl) (fr_touch tc) (fr_complete_load cl) (fr_prepare_store ps) (fr_complete_store cs)"
proof
  fix s :: "'s reuse_filter" and op
  assume ok: "ok (backing s)"
  then show "placed (capacity (backing s)) (stored (backing s))" by (rule ok_placed)
  assume ad: "admissible (stored (backing s)) op"
  show "\<exists>r s'. off_exec (fr_lookup lk) (fr_prepare_load pl) (fr_touch tc) (fr_complete_load cl) (fr_prepare_store ps) (fr_complete_store cs) op s
      = Inr (r, s') \<and> ok (backing s') \<and> capacity (backing s') = capacity (backing s) \<and>
      spec_step (capacity (backing s)) (stored (backing s)) op r (stored (backing s'))"
  proof (cases op)
    case (PrepareStore hs)
    have "admissible (stored (backing s)) (PrepareStore (eligible s hs))" using ad PrepareStore eligible_sub(2) by simp
    from simulates [OF ok this] show ?thesis
      using PrepareStore spec_step_more [OF _ eligible_sub(1)]
      by (auto simp: fr_prepare_store_def bindR_eq_Inr split: prod.splits)
  qed (use simulates [OF ok ad] in
      \<open>auto simp: fr_lookup_def fr_prepare_load_def fr_touch_def fr_complete_load_def fr_complete_store_def Let_def bindR_eq_Inr split: prod.splits\<close>)
qed

end

interpretation flru: offload_manager "\<lambda>s. lru_ok (backing s)" "\<lambda>s. lru_stored (backing s)" "\<lambda>s. lru_capacity (backing s)"
  "fr_lookup (\<lambda>hs s. (lru_lookup hs s, s))" "fr_prepare_load lru_prepare_load" "fr_touch lru_touch"
  "fr_complete_load lru_complete_load" "fr_prepare_store lru_prepare_store" "fr_complete_store lru_complete_store"
  by (rule lru.filter_is_manager)

interpretation farc: offload_manager "\<lambda>s. arc_ok (backing s)" "\<lambda>s. arc_stored (backing s)" "\<lambda>s. cache_capacity (backing s)"
  "fr_lookup (\<lambda>hs s. (arc_lookup hs s, s))" "fr_prepare_load arc_prepare_load" "fr_touch (arc_touch fl)"
  "fr_complete_load arc_complete_load" "fr_prepare_store arc_prepare_store"
  "fr_complete_store (\<lambda>hs success s. Inr (arc_complete_store hs success s))" for fl
  by (rule arc.filter_is_manager)

section \<open>Properties\<close>

lemma new_lru_ok: "0 \<le> n \<Longrightarrow> lru_ok (new_lru_manager (new_cpu_backend bs n) ev)"
  by (simp add: lru_ok_def new_lru_manager_def new_cpu_backend_def accounted_def)

lemma new_arc_ok: "0 \<le> n \<Longrightarrow> arc_ok (new_arc_manager (new_cpu_backend bs n) ev)"
  by (simp add: arc_ok_def new_arc_manager_def new_cpu_backend_def accounted_def get_num_free_slots_def)

text \<open>(C38) The LRU manager on the CPU backend implements the specification of an offloading manager: in
  every state reached by a run that follows the protocol, every further operation of the protocol
  returns without an exception, its result and its effect on the offloaded blocks are a step of the
  specification, and every block keeps a slot of its own below the capacity.\<close>

theorem lru_refines_spec:
  assumes "0 \<le> n" "off_run lru_exec lru_stored (new_lru_manager (new_cpu_backend bs n) ev) s" "admissible (lru_stored s) op"
  shows "\<exists>r s'. lru_exec op s = Inr (r, s') \<and> spec_step n (lru_stored s) op r (lru_stored s') \<and> placed n (lru_stored s')"
  using lru.run_simulates [OF assms(2) new_lru_ok [OF assms(1)] assms(3)]
  by (simp add: lru_capacity_def new_lru_manager_def new_cpu_backend_def)

theorem lru_refines_witness:
  "\<exists>r s'. lru_exec (PrepareStore [[1], [2]]) (new_lru_manager (new_cpu_backend 16 1) False) = Inr (r, s') \<and>
     spec_step 1 Map.empty (PrepareStore [[1], [2]]) r (lru_stored s')"
proof -
  let ?s = "new_lru_manager (new_cpu_backend 16 1) False"
  have e: "lru_stored ?s = Map.empty" by (simp add: lru_stored_def new_lru_manager_def)
  show ?thesis using lru_refines_spec [OF _ run_start, of 1 16 False "PrepareStore [[1], [2]]"] unfolding e by auto
qed

text \<open>(C39) The ARC manager implements the same specification, for every rounding of its adaptive target.\<close>

theorem arc_refines_spec:
  assumes "0 \<le> n" "off_run (arc_exec fl) arc_stored (new_arc_manager (new_cpu_backend bs n) ev) s" "admissible (arc_stored s) op"
  shows "\<exists>r s'. arc_exec fl op s = Inr (r, s') \<and> spec_step n (arc_stored s) op r (arc_stored s') \<and> placed n (arc_stored s')"
  using arc.run_simulates [OF assms(2) new_arc_ok [OF assms(1)] assms(3)]
  by (simp add: new_arc_manager_def new_cpu_backend_def get_num_free_slots_def)

theorem arc_refines_witness:
  "\<exists>r s'. arc_exec (\<lambda>x. x) (PrepareStore [[1]]) (new_arc_manager (new_cpu_backend 16 1) True) = Inr (r, s') \<and>
     spec_step 1 Map.empty (PrepareStore [[1]]) r (arc_stored s')"
proof -
  let ?s = "new_arc_manager (new_cpu_backend 16 1) True"
  have e: "arc_stored ?s = Map.empty" by (simp add: arc_stored_def new_arc_manager_def)
  show ?thesis using arc_refines_spec [OF _ run_start, of 1 16 True "PrepareStore [[1]]" "\<lambda>x. x"] unfolding e by auto
qed

text \<open>(C40) What LRU \<^verbatim>\<open>prepare_store\<close> does: with \<open>n\<close> the number of missing slots, it refuses exactly when fewer than
  \<open>n\<close> blocks are idle and not in the request, and then changes nothing; otherwise it evicts the \<open>n\<close> oldest
  of them, keeps the order of the others and appends the new blocks, not yet ready.\<close>

theorem lru_eviction_order:
  fixes s :: lru_manager
  assumes "lru_ok s" "distinct hs"
  defines "new \<equiv> filter (\<lambda>h. h \<notin> dom (lru_stored s)) hs"
    and "n \<equiv> int (length (filter (\<lambda>h. h \<notin> dom (lru_stored s)) hs)) - (lru_capacity s - int (length (lru_blocks s)))"
    and "cands \<equiv> map fst (filter (\<lambda>(h, b). bs_ref_cnt b = 0 \<and> h \<notin> set hs) (lru_blocks s))"
  shows "if int (length cands) < n then lru_prepare_store hs s = Inr (None, s)
    else \<exists>ids s'. lru_prepare_store hs s =
          Inr (Some \<lparr>block_hashes_to_store = new, store_spec = ids, block_hashes_evicted = take (nat n) cands\<rparr>, s') \<and>
        lru_ok s' \<and> length ids = length new \<and>
        lru_blocks s' = filter (\<lambda>(k, _). k \<notin> set (take (nat n) cands)) (lru_blocks s) @ zip new (map new_block_status ids)"
proof -
  note eq = lru_prepare_store_eq [OF assms(1,2), unfolded candidates_def, folded new_def n_def cands_def]
  have n': "n = int (length new) - (lru_capacity s - int (length (lru_blocks s)))" by (simp add: n_def new_def)
  show ?thesis
  proof (cases "int (length cands) < n")
    case False
    then have "n \<le> int (length cands)" by simp
    from eq(1) [folded n', OF this] False show ?thesis by (auto simp: n')
  qed (use eq(2) [folded n'] in simp)
qed

theorem lru_eviction_witness:
  "\<exists>ids s'. lru_prepare_store [[3]] (new_lru_manager (new_cpu_backend 16 2) False
       \<lparr>lru_blocks := [([1], \<lparr>bs_ref_cnt = 0, bs_block_id = 0\<rparr>), ([2], \<lparr>bs_ref_cnt = 0, bs_block_id = 1\<rparr>)],
        lru_backend := \<lparr>be_block_size = 16, be_num_blocks = 2, be_num_allocated = 2, be_free_list = []\<rparr>\<rparr>) =
     Inr (Some \<lparr>block_hashes_to_store = [[3]], store_spec = ids, block_hashes_evicted = [[1]]\<rparr>, s')"
proof -
  let ?s = "new_lru_manager (new_cpu_backend 16 2) False
       \<lparr>lru_blocks := [([1], \<lparr>bs_ref_cnt = 0, bs_block_id = 0\<rparr>), ([2], \<lparr>bs_ref_cnt = 0, bs_block_id = 1\<rparr>)],
        lru_backend := \<lparr>be_block_size = 16, be_num_blocks = 2, be_num_allocated = 2, be_free_list = []\<rparr>\<rparr>"
  have "[0..2 - 1] = [0, 1 :: int]" by (simp add: upto.simps)
  then have "lru_ok ?s" by (simp add: lru_ok_def od_wf_def accounted_def)
  from lru_eviction_order [OF this, of "[[3]]"] show ?thesis by (auto simp: lru_stored_def lru_capacity_def)
qed

text \<open>ARC refuses a store after having evicted blocks: they are gone from the cache, and neither the result nor
  an event reports them. It also refuses although T1 holds an idle block, when T1 is below its target and T2
  is in use.\<close>

definition arc_example :: "rat \<Rightarrow> arc_manager" where
  "arc_example target = \<lparr>arc_backend = \<lparr>be_block_size = 16, be_num_blocks = 2, be_num_allocated = 2, be_free_list = []\<rparr>,
     target_t1_size = target, t1 = [([1], \<lparr>bs_ref_cnt = 0, bs_block_id = 0\<rparr>)], t2 = [([2], \<lparr>bs_ref_cnt = 1, bs_block_id = 1\<rparr>)],
     b1 = [], b2 = [], arc_events = Some [], cache_capacity = 2\<rparr>"

lemma arc_refusal_loses_block:
  "\<exists>s'. arc_prepare_store [[3], [4]] (arc_example 0) = Inr (None, s') \<and> arc_stored (arc_example 0) [1] \<noteq> None \<and>
     arc_stored s' [1] = None \<and> arc_events s' = Some []"
proof -
  have n: "arc_evict_loop (2 :: nat) p ev s = arc_evict_loop (Suc (Suc 0)) p ev s" for p ev s by (simp only: numeral_2_eq_2)
  show ?thesis
    by (simp add: arc_prepare_store_def arc_example_def Let_def get_num_free_slots_def n py_int_def arc_stored_def)
qed

lemma arc_refuses_with_idle_block:
  "arc_prepare_store [[3]] (arc_example 2) = Inr (None, arc_example 2) \<and> idle_in (arc_stored (arc_example 2)) [1]"
  by (simp add: arc_prepare_store_def arc_example_def Let_def get_num_free_slots_def py_int_def arc_stored_def idle_in_def)

text \<open>A failed completion for a block that is ready, outside the protocol, drops the block and leaks its slot.\<close>

lemma arc_failed_store_leaks:
  "arc_stored (arc_complete_store [[1]] False (arc_example 0)) [1] = None \<and>
   get_num_free_slots (arc_backend (arc_complete_store [[1]] False (arc_example 0))) = 0"
  by (simp add: arc_complete_store_def arc_example_def arc_store_failed_step_def arc_get_def is_ready_def Let_def
      get_num_free_slots_def arc_stored_def)

end
