(* ===== verification/Free_Queue.thy ===== *)
theory Free_Queue
  imports Prelude
begin

text \<open>
  The free block queue of v1/core/kv\_cache\_utils.py (class FreeKVCacheBlockQueue): a doubly
  linked list of KVCacheBlock objects between a fake head and a fake tail. A reference to a
  KVCacheBlock object is a value of \<open>block_ref\<close>; the two link attributes of the objects,
  which only this class writes, are kept here as two functions from references. Every method
  is translated with its assignments in order and its raises. The refinement lemmas relate
  the pointer structure to a list of block ids (\<open>dll\<close>), and the locale \<open>free_list\<close> states
  the contract the block pool relies on.
\<close>

section \<open>State\<close>

datatype block_ref = FakeHead | FakeTail | Blk (blk_id: nat)

record free_queue =
  num_free_blocks :: int
  prev_free_block :: "block_ref \<Rightarrow> block_ref option"
  next_free_block :: "block_ref \<Rightarrow> block_ref option"

definition set_prev :: "block_ref \<Rightarrow> block_ref option \<Rightarrow> free_queue \<Rightarrow> free_queue" where
  "set_prev b v q = q\<lparr>prev_free_block := (prev_free_block q)(b := v)\<rparr>"

definition set_next :: "block_ref \<Rightarrow> block_ref option \<Rightarrow> free_queue \<Rightarrow> free_queue" where
  "set_next b v q = q\<lparr>next_free_block := (next_free_block q)(b := v)\<rparr>"

lemma set_prev_simps [simp]:
  "num_free_blocks (set_prev b v q) = num_free_blocks q"
  "prev_free_block (set_prev b v q) = (prev_free_block q)(b := v)"
  "next_free_block (set_prev b v q) = next_free_block q"
  by (simp_all add: set_prev_def)

lemma set_next_simps [simp]:
  "num_free_blocks (set_next b v q) = num_free_blocks q"
  "prev_free_block (set_next b v q) = prev_free_block q"
  "next_free_block (set_next b v q) = (next_free_block q)(b := v)"
  by (simp_all add: set_next_def)

section \<open>Operations\<close>

text \<open>\<^verbatim>\<open>__init__\<close>: the loop that links consecutive blocks, then the fake ends. The blocks
  passed in are freshly built objects, whose links are \<^verbatim>\<open>None\<close>.\<close>

definition link_step :: "block_ref list \<Rightarrow> nat \<Rightarrow> free_queue \<Rightarrow> free_queue" where
  "link_step blocks i q =
     (let q1 = (if 0 < i then set_prev (blocks ! i) (Some (blocks ! (i - 1))) q else q)
      in if i + 1 < length blocks then set_next (blocks ! i) (Some (blocks ! (i + 1))) q1 else q1)"

definition new_free_queue :: "block_ref list \<Rightarrow> free_queue" where
  "new_free_queue blocks =
     (let q0 = \<lparr>num_free_blocks = int (length blocks), prev_free_block = (\<lambda>_. None),
                next_free_block = (\<lambda>_. None)\<rparr>;
          q1 = fold (link_step blocks) [0..<length blocks] q0
      in if blocks \<noteq> []
         then set_next (last blocks) (Some FakeTail)
               (set_prev FakeTail (Some (last blocks))
                 (set_prev (hd blocks) (Some FakeHead)
                   (set_next FakeHead (Some (hd blocks)) q1)))
         else set_prev FakeTail (Some FakeHead) (set_next FakeHead (Some FakeTail) q1))"

definition popleft :: "free_queue \<Rightarrow> (block_ref \<times> free_queue) res" where
  "popleft q =
     (if next_free_block q FakeHead = Some FakeTail \<or> next_free_block q FakeHead = None
      then (if num_free_blocks q = 0 then Inl ValueError else Inl AssertionError)
      else let first_block = the (next_free_block q FakeHead)
           in case next_free_block q first_block of
                None \<Rightarrow> Inl RuntimeError
              | Some nx \<Rightarrow>
                  let q1 = set_next FakeHead (Some nx) q;
                      q2 = set_prev nx (Some FakeHead) q1;
                      q3 = set_next first_block None (set_prev first_block None q2)
                  in Inr (first_block, q3\<lparr>num_free_blocks := num_free_blocks q - 1\<rparr>))"

text \<open>The \<^verbatim>\<open>for _ in range(n)\<close> loop of \<^verbatim>\<open>popleft_n\<close>.\<close>

fun popleft_loop ::
  "nat \<Rightarrow> block_ref option \<Rightarrow> block_ref list \<Rightarrow> free_queue \<Rightarrow> (block_ref option \<times> block_ref list \<times> free_queue) res"
where
  "popleft_loop 0 cur ret q = Inr (cur, ret, q)"
| "popleft_loop (Suc n) None ret q = Inl AssertionError"
| "popleft_loop (Suc n) (Some cur) ret q =
     popleft_loop n (next_free_block q cur) (ret @ [cur]) (set_next cur None (set_prev cur None q))"

definition popleft_n :: "int \<Rightarrow> free_queue \<Rightarrow> (block_ref list \<times> free_queue) res" where
  "popleft_n n q =
     (if n = 0 then Inr ([], q)
      else if \<not> num_free_blocks q \<ge> n then Inl AssertionError
      else let q1 = q\<lparr>num_free_blocks := num_free_blocks q - n\<rparr>
           in bindR (popleft_loop (nat n) (next_free_block q1 FakeHead) [] q1)
                (\<lambda>(cur, ret, q2). case cur of
                    None \<Rightarrow> Inr (ret, q2)
                  | Some c \<Rightarrow> Inr (ret, set_prev c (Some FakeHead) (set_next FakeHead (Some c) q2))))"

definition remove_block :: "block_ref \<Rightarrow> free_queue \<Rightarrow> free_queue res" where
  "remove_block block q =
     (case (prev_free_block q block, next_free_block q block) of
        (Some p, Some nx) \<Rightarrow>
          let q1 = set_next p (Some nx) q;
              q2 = set_prev nx (Some p) q1;
              q3 = set_next block None (set_prev block None q2)
          in Inr (q3\<lparr>num_free_blocks := num_free_blocks q - 1\<rparr>)
      | _ \<Rightarrow> Inl RuntimeError)"

definition append_block :: "block_ref \<Rightarrow> free_queue \<Rightarrow> free_queue res" where
  "append_block block q =
     (case prev_free_block q FakeTail of
        None \<Rightarrow> Inl RuntimeError
      | Some last_block \<Rightarrow>
          let q1 = set_next last_block (Some block) q;
              q2 = set_prev block (Some last_block) q1;
              q3 = set_next block (Some FakeTail) q2;
              q4 = set_prev FakeTail (Some block) q3
          in Inr (q4\<lparr>num_free_blocks := num_free_blocks q + 1\<rparr>))"

text \<open>The loop of \<^verbatim>\<open>append_n\<close>, carrying \<^verbatim>\<open>last_block\<close>.\<close>

fun append_loop :: "block_ref list \<Rightarrow> block_ref \<Rightarrow> free_queue \<Rightarrow> block_ref \<times> free_queue" where
  "append_loop [] last_block q = (last_block, q)"
| "append_loop (b # bs) last_block q =
     append_loop bs b (set_next last_block (Some b) (set_prev b (Some last_block) q))"

definition append_n :: "block_ref list \<Rightarrow> free_queue \<Rightarrow> free_queue res" where
  "append_n blocks q =
     (if blocks = [] then Inr q
      else case prev_free_block q FakeTail of
             None \<Rightarrow> Inl AssertionError
           | Some last_block \<Rightarrow>
               let (lst, q1) = append_loop blocks last_block q;
                   q2 = set_prev FakeTail (Some lst) (set_next lst (Some FakeTail) q1)
               in Inr (q2\<lparr>num_free_blocks := num_free_blocks q + int (length blocks)\<rparr>))"

text \<open>The \<^verbatim>\<open>while curr_block.next_free_block is not None\<close> loop of
  \<^verbatim>\<open>get_all_free_blocks\<close>, which would not return on a cyclic structure.\<close>

partial_function (option) collect_free ::
  "free_queue \<Rightarrow> block_ref \<Rightarrow> block_ref list \<Rightarrow> block_ref list option"
where
  "collect_free q cur ret =
     (case next_free_block q cur of
        None \<Rightarrow> Some ret
      | Some nx \<Rightarrow> collect_free q nx (ret @ [cur]))"

definition get_all_free_blocks :: "free_queue \<Rightarrow> block_ref list res option" where
  "get_all_free_blocks q =
     (case next_free_block q FakeHead of
        None \<Rightarrow> Some (Inl RuntimeError)
      | Some cur \<Rightarrow> map_option Inr (collect_free q cur []))"

section \<open>The representation relation\<close>

text \<open>\<open>dseg nx pv ns\<close>: consecutive references of \<open>ns\<close> are linked in both directions.\<close>

fun dseg :: "('a \<Rightarrow> 'a option) \<Rightarrow> ('a \<Rightarrow> 'a option) \<Rightarrow> 'a list \<Rightarrow> bool" where
  "dseg nx pv (a # b # ns) = (nx a = Some b \<and> pv b = Some a \<and> dseg nx pv (b # ns))"
| "dseg nx pv _ = True"

lemma dseg_append:
  "dseg nx pv (xs @ a # ys) \<longleftrightarrow> dseg nx pv (xs @ [a]) \<and> dseg nx pv (a # ys)"
proof (induction xs)
  case (Cons x xs)
  then show ?case by (cases xs) auto
qed simp

lemma dseg_nx_upd [simp]: "a \<notin> set (butlast ns) \<Longrightarrow> dseg (nx(a := v)) pv ns = dseg nx pv ns"
  by (induction nx pv ns rule: dseg.induct) auto

lemma dseg_pv_upd [simp]: "a \<notin> set (tl ns) \<Longrightarrow> dseg nx (pv(a := v)) ns = dseg nx pv ns"
proof (induction nx pv ns rule: dseg.induct)
  case (1 nx pv a b ns)
  then show ?case by (cases ns) auto
qed auto

lemma dseg_nx_frame [simp]: "a \<notin> set ns \<Longrightarrow> dseg (nx(a := v)) pv ns = dseg nx pv ns"
  by (rule dseg_nx_upd) (auto dest: in_set_butlastD)

lemma dseg_pv_frame [simp]: "a \<notin> set ns \<Longrightarrow> dseg nx (pv(a := v)) ns = dseg nx pv ns"
  by (rule dseg_pv_upd) (cases ns; auto)

lemma dseg_pv_first [simp]: "a \<notin> set ns \<Longrightarrow> dseg nx (pv(a := v)) (a # ns) = dseg nx pv (a # ns)"
  by (rule dseg_pv_upd) simp

lemma dseg_nx_last [simp]: "a \<notin> set ns \<Longrightarrow> dseg (nx(a := v)) pv (ns @ [a]) = dseg nx pv (ns @ [a])"
  by (rule dseg_nx_upd) simp

lemma dseg_snoc: "dseg nx pv (xs @ [a, b]) \<longleftrightarrow> dseg nx pv (xs @ [a]) \<and> nx a = Some b \<and> pv b = Some a"
  using dseg_append [of nx pv xs a "[b]"] by simp

definition ends :: "nat list \<Rightarrow> block_ref list" where
  "ends xs = FakeHead # map Blk xs @ [FakeTail]"

definition dll :: "free_queue \<Rightarrow> nat list \<Rightarrow> bool" where
  "dll q xs \<longleftrightarrow>
     distinct xs \<and> num_free_blocks q = int (length xs) \<and>
     dseg (next_free_block q) (prev_free_block q) (ends xs) \<and>
     next_free_block q FakeTail = None \<and> prev_free_block q FakeHead = None \<and>
     (\<forall>b. b \<notin> set xs \<longrightarrow> next_free_block q (Blk b) = None \<and> prev_free_block q (Blk b) = None)"

lemma Blk_mem [simp]: "Blk x \<in> Blk ` S \<longleftrightarrow> x \<in> S" "FakeHead \<notin> Blk ` S" "FakeTail \<notin> Blk ` S"
  by auto

lemma distinct_map_Blk [simp]: "distinct (map Blk xs) = distinct xs"
  by (simp add: distinct_map inj_on_def)

lemma dll_unique:
  assumes "dll q xs" and "dll q ys"
  shows "xs = ys"
proof -
  have "dseg nx pv (a # map Blk xs @ [FakeTail]) \<Longrightarrow> dseg nx pv (a # map Blk ys @ [FakeTail]) \<Longrightarrow>
        nx FakeTail = None \<Longrightarrow> xs = ys" for nx pv a
  proof (induction xs arbitrary: a ys)
    case Nil
    then show ?case by (cases ys) auto
  next
    case (Cons x xs)
    then show ?case by (cases ys) auto
  qed
  with assms show ?thesis by (auto simp: dll_def ends_def)
qed


section \<open>Refinement: every operation acts as a list operation\<close>

lemma dll_Cons_head: "dll q (x # xs) \<Longrightarrow> next_free_block q FakeHead = Some (Blk x)"
  by (simp add: dll_def ends_def)

lemma dll_tail_prev:
  assumes "dll q xs"
  shows "prev_free_block q FakeTail = Some (if xs = [] then FakeHead else Blk (last xs))"
proof (cases xs rule: rev_cases)
  case Nil
  with assms show ?thesis by (simp add: dll_def ends_def)
next
  case (snoc ys y)
  then have "ends xs = (FakeHead # map Blk ys) @ [Blk y, FakeTail]" by (simp add: ends_def)
  with assms have "dseg (next_free_block q) (prev_free_block q) ((FakeHead # map Blk ys) @ [Blk y, FakeTail])"
    by (simp add: dll_def)
  with snoc show ?thesis unfolding dseg_snoc by simp
qed

lemma popleft_Nil: "dll q [] \<Longrightarrow> popleft q = Inl ValueError"
  by (simp add: dll_def ends_def popleft_def)

lemma ends_ne: "\<exists>y ns. map Blk xs @ [FakeTail] = y # ns \<and> y \<noteq> FakeHead"
  by (cases xs) auto

lemma popleft_Cons:
  assumes "dll q (x # xs)"
  shows "\<exists>q'. popleft q = Inr (Blk x, q') \<and> dll q' xs"
proof -
  obtain y ns where y: "map Blk xs @ [FakeTail] = y # ns" "y \<noteq> FakeHead" using ends_ne by blast
  have "Blk x \<notin> set (map Blk xs @ [FakeTail])" "FakeHead \<notin> set (map Blk xs @ [FakeTail])"
    "distinct (map Blk xs @ [FakeTail])"
    using assms by (auto simp: dll_def)
  then have yn: "Blk x \<notin> set (y # ns)" "FakeHead \<notin> set (y # ns)" "distinct (y # ns)"
    by (simp_all add: y)
  have d: "next_free_block q FakeHead = Some (Blk x)" "next_free_block q (Blk x) = Some y"
    "prev_free_block q y = Some (Blk x)" "dseg (next_free_block q) (prev_free_block q) (y # ns)"
    using assms y by (auto simp: dll_def ends_def)
  have yt: "y \<noteq> Blk x" "Blk x \<notin> set ns" "FakeHead \<notin> set ns" "y \<notin> set ns" using yn by auto
  show ?thesis
    using assms d y yt
    by (auto simp: popleft_def Let_def dll_def ends_def dest: in_set_butlastD)
qed

lemma popleft_loop_spec:
  assumes "length xs = n" "distinct (xs @ ys)"
    and "dseg nx (prev_free_block q) (map Blk xs @ map Blk ys @ [FakeTail])"
    and "next_free_block q = nx" "ret0 = map Blk rs"
  shows "\<exists>q'. popleft_loop n (Some (hd (map Blk xs @ map Blk ys @ [FakeTail]))) ret0 q =
           Inr (Some (hd (map Blk ys @ [FakeTail])), ret0 @ map Blk xs, q') \<and>
         num_free_blocks q' = num_free_blocks q \<and>
         next_free_block q' = (\<lambda>b. if b \<in> Blk ` set xs then None else next_free_block q b) \<and>
         prev_free_block q' = (\<lambda>b. if b \<in> Blk ` set xs then None else prev_free_block q b)"
  using assms
proof (induction xs arbitrary: n q nx ret0 rs)
  case Nil
  then show ?case by (auto simp: fun_eq_iff)
next
  case (Cons x xs)
  then obtain m where n: "n = Suc m" "length xs = m" by auto
  let ?q1 = "set_next (Blk x) None (set_prev (Blk x) None q)"
  obtain y ns where y: "map Blk xs @ map Blk ys @ [FakeTail] = y # ns"
    by (cases "map Blk xs @ map Blk ys @ [FakeTail]") auto
  have xn: "Blk x \<notin> set (map Blk xs @ map Blk ys @ [FakeTail])"
    using Cons.prems(2) by auto
  have nxt: "next_free_block q (Blk x) = Some y"
    using Cons.prems(3,4) y by (simp del: map_map)
  have ds: "dseg (next_free_block q) (prev_free_block q) (y # ns)"
    using Cons.prems(3,4) y by auto
  have ds1: "dseg (next_free_block ?q1) (prev_free_block ?q1) (map Blk xs @ map Blk ys @ [FakeTail])"
    using ds xn unfolding y by (auto dest: in_set_butlastD)
  from Cons.IH [OF n(2) _ ds1 refl, of "ret0 @ [Blk x]" "rs @ [x]"] Cons.prems(2,5)
  obtain q' where q': "popleft_loop m (Some (hd (map Blk xs @ map Blk ys @ [FakeTail]))) (ret0 @ [Blk x]) ?q1 =
           Inr (Some (hd (map Blk ys @ [FakeTail])), (ret0 @ [Blk x]) @ map Blk xs, q')"
     "num_free_blocks q' = num_free_blocks ?q1"
     "next_free_block q' = (\<lambda>b. if b \<in> Blk ` set xs then None else next_free_block ?q1 b)"
     "prev_free_block q' = (\<lambda>b. if b \<in> Blk ` set xs then None else prev_free_block ?q1 b)"
    by auto
  have "popleft_loop n (Some (hd (map Blk (x # xs) @ map Blk ys @ [FakeTail]))) ret0 q =
        popleft_loop m (Some (hd (map Blk xs @ map Blk ys @ [FakeTail]))) (ret0 @ [Blk x]) ?q1"
    using nxt y by (simp add: n)
  with q' show ?case by (auto simp: fun_eq_iff)
qed

lemma popleft_n_spec:
  assumes d: "dll q xs" and n: "0 \<le> n" "n \<le> int (length xs)"
  shows "\<exists>q'. popleft_n n q = Inr (map Blk (take (nat n) xs), q') \<and> dll q' (drop (nat n) xs)"
proof (cases "n = 0")
  case True
  with d show ?thesis by (simp add: popleft_n_def)
next
  case False
  let ?a = "take (nat n) xs" and ?b = "drop (nat n) xs"
  let ?q1 = "q\<lparr>num_free_blocks := num_free_blocks q - n\<rparr>"
  have ab: "xs = ?a @ ?b" by simp
  have la: "length ?a = nat n" using n by simp
  have ane: "?a \<noteq> []" using False n by auto
  have di: "distinct (?a @ ?b)" "set ?a \<inter> set ?b = {}"
    using d by (auto simp: dll_def set_take_disj_set_drop_if_distinct)
  have seg: "dseg (next_free_block q) (prev_free_block q) (FakeHead # map Blk ?a @ map Blk ?b @ [FakeTail])"
    using d by (simp add: dll_def ends_def flip: map_append append_assoc)
  then have seg1: "dseg (next_free_block ?q1) (prev_free_block ?q1) (map Blk ?a @ map Blk ?b @ [FakeTail])"
    using ane by (cases ?a) auto
  have hd1: "next_free_block ?q1 FakeHead = Some (hd (map Blk ?a @ map Blk ?b @ [FakeTail]))"
    using seg ane by (cases ?a) auto
  from popleft_loop_spec [OF la di(1) seg1 refl, of "[]" "[]"]
  obtain q2 where q2: "popleft_loop (nat n) (Some (hd (map Blk ?a @ map Blk ?b @ [FakeTail]))) [] ?q1 =
         Inr (Some (hd (map Blk ?b @ [FakeTail])), map Blk ?a, q2)"
      "num_free_blocks q2 = num_free_blocks q - n"
      "next_free_block q2 = (\<lambda>b. if b \<in> Blk ` set ?a then None else next_free_block q b)"
      "prev_free_block q2 = (\<lambda>b. if b \<in> Blk ` set ?a then None else prev_free_block q b)"
    by (auto simp: fun_eq_iff)
  obtain y ns where y: "map Blk ?b @ [FakeTail] = y # ns" "y \<noteq> FakeHead" using ends_ne by blast
  let ?q' = "set_prev y (Some FakeHead) (set_next FakeHead (Some y) q2)"
  have r: "popleft_n n q = Inr (map Blk ?a, ?q')"
    using False n d hd1 q2(1) y by (simp add: popleft_n_def dll_def Let_def)
  have yn: "FakeHead \<notin> set (y # ns)" "distinct (y # ns)" "set (y # ns) \<inter> Blk ` set ?a = {}"
  proof -
    have "FakeHead \<notin> set (map Blk ?b @ [FakeTail])" by auto
    then show "FakeHead \<notin> set (y # ns)" unfolding y .
    have "distinct (map Blk ?b @ [FakeTail])" using di by auto
    then show "distinct (y # ns)" unfolding y .
    have "set (map Blk ?b @ [FakeTail]) \<inter> Blk ` set ?a = {}" using di by auto
    then show "set (y # ns) \<inter> Blk ` set ?a = {}" unfolding y .
  qed
  have "dseg (next_free_block q) (prev_free_block q) (y # ns)"
    using seg dseg_append [of "next_free_block q" "prev_free_block q" "FakeHead # map Blk ?a" y ns]
    by (simp add: y)
  moreover have "dseg (next_free_block q2) (prev_free_block q2) ms = dseg (next_free_block q) (prev_free_block q) ms"
    if "set ms \<inter> Blk ` set ?a = {}" for ms
    using that unfolding q2 by (induction "next_free_block q" "prev_free_block q" ms rule: dseg.induct) auto
  ultimately have s2: "dseg (next_free_block q2) (prev_free_block q2) (y # ns)"
    using yn by blast
  have "dseg (next_free_block ?q') (prev_free_block ?q') (FakeHead # y # ns)"
    using s2 yn y(2) by (auto dest: in_set_butlastD)
  then have "dseg (next_free_block ?q') (prev_free_block ?q') (ends ?b)"
    by (simp only: ends_def y append_Cons)
  moreover have "y \<noteq> Blk b" if "b \<notin> set ?b" for b
    using y that by (cases ?b) auto
  moreover have "b \<in> set ?a \<or> b \<notin> set xs" if "b \<notin> set ?b" for b
    using that ab by (metis Un_iff set_append)
  moreover have "y = FakeTail \<or> y \<noteq> FakeTail" by blast
  ultimately have "dll ?q' ?b"
    using d n q2 y(2) di unfolding dll_def by (auto simp: fun_upd_def)
  with r show ?thesis by blast
qed

lemma popleft_n_too_many: "dll q xs \<Longrightarrow> n > int (length xs) \<Longrightarrow> popleft_n n q = Inl AssertionError"
  by (simp add: popleft_n_def dll_def)


lemma remove_block_spec:
  assumes d: "dll q (ys @ x # zs)"
  shows "\<exists>q'. remove_block (Blk x) q = Inr q' \<and> dll q' (ys @ zs)"
proof -
  obtain us p where p: "FakeHead # map Blk ys = us @ [p]"
    by (metis append_butlast_last_id list.distinct(1))
  obtain nx ns where n: "map Blk zs @ [FakeTail] = nx # ns" using ends_ne by blast
  have e1: "ends (ys @ x # zs) = us @ p # Blk x # nx # ns"
    and e2: "ends (ys @ zs) = us @ p # nx # ns"
    using p n by (simp_all add: ends_def)
  have "distinct (ends (ys @ x # zs))"
    using d by (auto simp: dll_def ends_def)
  then have dis: "distinct (us @ p # Blk x # nx # ns)" by (simp only: e1)
  have seg: "dseg (next_free_block q) (prev_free_block q) (us @ p # Blk x # nx # ns)"
    using d by (simp only: dll_def e1)
  then have s1: "dseg (next_free_block q) (prev_free_block q) (us @ [p])"
    and s2: "dseg (next_free_block q) (prev_free_block q) (nx # ns)"
    and l: "prev_free_block q (Blk x) = Some p" "next_free_block q (Blk x) = Some nx"
    using dseg_append [of _ _ us p "Blk x # nx # ns"] by auto
  let ?q' = "(set_next (Blk x) None (set_prev (Blk x) None (set_prev nx (Some p) (set_next p (Some nx) q))))
               \<lparr>num_free_blocks := num_free_blocks q - 1\<rparr>"
  have r: "remove_block (Blk x) q = Inr ?q'"
    using l by (simp add: remove_block_def)
  have "dseg (next_free_block ?q') (prev_free_block ?q') (us @ p # nx # ns)"
    using s1 s2 dis dseg_append [of _ _ us p "nx # ns"] by (auto simp: fun_upd_twist)
  then have "dseg (next_free_block ?q') (prev_free_block ?q') (ends (ys @ zs))"
    by (simp only: e2)
  moreover have "nx \<noteq> FakeHead" using n by (cases zs) auto
  moreover have "p \<noteq> FakeTail" using p by (cases ys rule: rev_cases) auto
  moreover have "nx \<noteq> Blk b" if "b \<notin> set zs" for b using n that by (cases zs) auto
  moreover have "p \<noteq> Blk b" if "b \<notin> set ys" for b using p that by (cases ys rule: rev_cases) auto
  ultimately have "dll ?q' (ys @ zs)"
    using d by (auto simp: dll_def)
  with r show ?thesis by blast
qed

lemma remove_block_absent: "dll q xs \<Longrightarrow> x \<notin> set xs \<Longrightarrow> remove_block (Blk x) q = Inl RuntimeError"
  by (simp add: remove_block_def dll_def)

lemma append_loop_spec:
  assumes "dseg (next_free_block q) (prev_free_block q) (us @ [l])"
    and "distinct (us @ l # bs)"
  shows "\<exists>q'. append_loop bs l q = (last (l # bs), q') \<and> num_free_blocks q' = num_free_blocks q \<and>
     dseg (next_free_block q') (prev_free_block q') (us @ l # bs) \<and>
     (\<forall>b. b \<notin> set (l # bs) \<longrightarrow> next_free_block q' b = next_free_block q b) \<and>
     (\<forall>b. b \<notin> set bs \<longrightarrow> prev_free_block q' b = prev_free_block q b)"
  using assms
proof (induction bs arbitrary: us l q)
  case Nil
  then show ?case by simp
next
  case (Cons b bs)
  let ?q1 = "set_next l (Some b) (set_prev b (Some l) q)"
  have d1: "dseg (next_free_block ?q1) (prev_free_block ?q1) ((us @ [l]) @ [b])"
    using Cons.prems dseg_snoc [of _ _ us l b] by auto
  have d2: "distinct ((us @ [l]) @ b # bs)" using Cons.prems by auto
  obtain q' where q': "append_loop bs b ?q1 = (last (b # bs), q')"
     "num_free_blocks q' = num_free_blocks ?q1"
     "dseg (next_free_block q') (prev_free_block q') ((us @ [l]) @ b # bs)"
     "\<forall>c. c \<notin> set (b # bs) \<longrightarrow> next_free_block q' c = next_free_block ?q1 c"
     "\<forall>c. c \<notin> set bs \<longrightarrow> prev_free_block q' c = prev_free_block ?q1 c"
    using Cons.IH [OF d1 d2] by blast
  then show ?case by auto
qed

lemma append_n_spec:
  assumes d: "dll q xs" and ys: "distinct ys" "set xs \<inter> set ys = {}"
  shows "\<exists>q'. append_n (map Blk ys) q = Inr q' \<and> dll q' (xs @ ys)"
proof (cases "ys = []")
  case True
  with d show ?thesis by (simp add: append_n_def)
next
  case False
  obtain us l where l: "FakeHead # map Blk xs = us @ [l]"
    by (metis append_butlast_last_id list.distinct(1))
  have lt: "prev_free_block q FakeTail = Some l"
    using dll_tail_prev [OF d] l by (cases xs rule: rev_cases) auto
  have e1: "ends xs = us @ [l, FakeTail]" using l by (simp add: ends_def)
  have e2: "ends (xs @ ys) = (us @ l # map Blk ys) @ [FakeTail]" using l by (simp add: ends_def)
  have "distinct (FakeHead # map Blk xs @ map Blk ys)" using d ys by (auto simp: dll_def)
  moreover have "FakeHead # map Blk xs @ map Blk ys = us @ l # map Blk ys" using l by simp
  ultimately have dis: "distinct (us @ l # map Blk ys)" by simp
  have "FakeTail \<notin> set (FakeHead # map Blk xs)" by auto
  then have ft: "FakeTail \<notin> set (us @ l # map Blk ys)" by (auto simp: l)
  have "dseg (next_free_block q) (prev_free_block q) (us @ [l])"
    using d e1 dseg_snoc by (metis dll_def)
  from append_loop_spec [OF this dis]
  obtain q1 where q1: "append_loop (map Blk ys) l q = (last (l # map Blk ys), q1)"
     "num_free_blocks q1 = num_free_blocks q"
     "dseg (next_free_block q1) (prev_free_block q1) (us @ l # map Blk ys)"
     "\<forall>b. b \<notin> set (l # map Blk ys) \<longrightarrow> next_free_block q1 b = next_free_block q b"
     "\<forall>b. b \<notin> set (map Blk ys) \<longrightarrow> prev_free_block q1 b = prev_free_block q b" by blast
  let ?e = "Blk (last ys)"
  let ?q' = "(set_prev FakeTail (Some ?e) (set_next ?e (Some FakeTail) q1))
               \<lparr>num_free_blocks := num_free_blocks q + int (length ys)\<rparr>"
  have r: "append_n (map Blk ys) q = Inr ?q'"
    using False lt q1(1) by (simp add: append_n_def last_map)
  obtain vs where vs: "us @ l # map Blk ys = vs @ [?e]"
  proof -
    have "last (us @ l # map Blk ys) = ?e" using False by (simp add: last_map)
    then show thesis
      by (intro that [of "butlast (us @ l # map Blk ys)"])
        (metis append_butlast_last_id append_is_Nil_conv list.distinct(1))
  qed
  have "?e \<notin> set vs" "FakeTail \<notin> set vs" using dis ft unfolding vs by auto
  then have "dseg (next_free_block ?q') (prev_free_block ?q') (vs @ [?e, FakeTail])"
    using q1(3) unfolding vs dseg_snoc by simp
  then have seg: "dseg (next_free_block ?q') (prev_free_block ?q') (ends (xs @ ys))"
    by (simp add: e2 vs)
  have nb: "Blk b \<notin> set (l # map Blk ys)" if "b \<notin> set xs" "b \<notin> set ys" for b
    using that l by (cases xs rule: rev_cases) auto
  have "dll ?q' (xs @ ys)"
    unfolding dll_def
  proof (intro conjI allI impI)
    show "distinct (xs @ ys)" using d ys by (simp add: dll_def)
    show "num_free_blocks ?q' = int (length (xs @ ys))" using d by (simp add: dll_def)
    show "next_free_block ?q' FakeTail = None"
      using d q1(4) ft by (auto simp: dll_def dest: in_set_butlastD)
    show "prev_free_block ?q' FakeHead = None" using d q1(5) by (auto simp: dll_def)
    fix b assume b: "b \<notin> set (xs @ ys)"
    then have "Blk b \<noteq> ?e" using False by auto
    with b nb [of b] show "next_free_block ?q' (Blk b) = None" "prev_free_block ?q' (Blk b) = None"
      using d q1(4,5) by (auto simp: dll_def dest: in_set_butlastD)
  qed (fact seg)
  with r show ?thesis by blast
qed


text \<open>\<^verbatim>\<open>append\<close> is \<^verbatim>\<open>append_n\<close> on one block, up to the exception raised on a
  missing tail link.\<close>

lemma append_block_as_append_n:
  assumes "dll q xs"
  shows "append_block (Blk b) q = append_n [Blk b] q"
proof -
  obtain l where l: "prev_free_block q FakeTail = Some l" "l = FakeHead \<or> (\<exists>x. l = Blk x)"
    using dll_tail_prev [OF assms] by auto
  then show ?thesis
    by (auto simp: append_block_def append_n_def set_prev_def set_next_def Let_def)
qed

lemma collect_free_spec:
  assumes "dseg (next_free_block q) pv (map Blk xs @ [FakeTail])" and "next_free_block q FakeTail = None"
  shows "collect_free q (hd (map Blk xs @ [FakeTail])) ret = Some (ret @ map Blk xs)"
  using assms
proof (induction xs arbitrary: ret)
  case Nil
  then show ?case by (simp add: collect_free.simps)
next
  case (Cons x xs)
  obtain y ns where y: "map Blk xs @ [FakeTail] = y # ns" using ends_ne by blast
  with Cons have "collect_free q (hd (map Blk xs @ [FakeTail])) (ret @ [Blk x]) = Some ((ret @ [Blk x]) @ map Blk xs)"
    by (intro Cons.IH) auto
  moreover have "next_free_block q (Blk x) = Some y" using Cons.prems(1) y by simp
  ultimately show ?case using y by (simp add: collect_free.simps [of q "Blk x"])
qed

lemma get_all_free_blocks_spec: "dll q xs \<Longrightarrow> get_all_free_blocks q = Some (Inr (map Blk xs))"
proof -
  assume d: "dll q xs"
  obtain y ns where y: "map Blk xs @ [FakeTail] = y # ns" using ends_ne by blast
  with d have "next_free_block q FakeHead = Some y" "dseg (next_free_block q) (prev_free_block q) (map Blk xs @ [FakeTail])"
    "next_free_block q FakeTail = None"
    by (auto simp: dll_def ends_def)
  with collect_free_spec [of q "prev_free_block q" xs "[]"] y
  show ?thesis by (simp add: get_all_free_blocks_def)
qed

lemma dseg_nthI:
  "(\<And>i. Suc i < length ns \<Longrightarrow> nx (ns ! i) = Some (ns ! Suc i) \<and> pv (ns ! Suc i) = Some (ns ! i)) \<Longrightarrow>
   dseg nx pv ns"
proof (induction nx pv ns rule: dseg.induct)
  case (1 nx pv a b ns)
  have "dseg nx pv (b # ns)"
    using 1(2) by (intro 1(1)) fastforce
  with 1(2) [of 0] show ?case by simp
qed auto

lemma link_fold:
  assumes "distinct blocks" "k \<le> length blocks"
    and q: "q = fold (link_step blocks) [0..<k]
              \<lparr>num_free_blocks = n, prev_free_block = (\<lambda>_. None), next_free_block = (\<lambda>_. None)\<rparr>"
  shows "num_free_blocks q = n \<and>
     (\<forall>i<length blocks. prev_free_block q (blocks ! i) = (if 0 < i \<and> i < k then Some (blocks ! (i - 1)) else None)) \<and>
     (\<forall>i<length blocks. next_free_block q (blocks ! i) = (if i < k \<and> i + 1 < length blocks then Some (blocks ! (i + 1)) else None)) \<and>
     (\<forall>b. b \<notin> set blocks \<longrightarrow> prev_free_block q b = None \<and> next_free_block q b = None)"
  using assms(2) q
proof (induction k arbitrary: q)
  case (Suc k)
  define q0 where "q0 = fold (link_step blocks) [0..<k]
              \<lparr>num_free_blocks = n, prev_free_block = (\<lambda>_. None), next_free_block = (\<lambda>_. None)\<rparr>"
  have q: "q = link_step blocks k q0" using Suc.prems by (simp add: q0_def)
  have IH: "num_free_blocks q0 = n"
    "\<forall>i<length blocks. prev_free_block q0 (blocks ! i) = (if 0 < i \<and> i < k then Some (blocks ! (i - 1)) else None)"
    "\<forall>i<length blocks. next_free_block q0 (blocks ! i) = (if i < k \<and> i + 1 < length blocks then Some (blocks ! (i + 1)) else None)"
    "\<forall>b. b \<notin> set blocks \<longrightarrow> prev_free_block q0 b = None \<and> next_free_block q0 b = None"
    using Suc.IH [OF _ q0_def] Suc.prems(1) by auto
  have k: "k < length blocks" using Suc.prems by simp
  have qs: "num_free_blocks q = num_free_blocks q0"
    "prev_free_block q = (if 0 < k then (prev_free_block q0)(blocks ! k := Some (blocks ! (k - 1))) else prev_free_block q0)"
    "next_free_block q = (if k + 1 < length blocks then (next_free_block q0)(blocks ! k := Some (blocks ! (k + 1))) else next_free_block q0)"
    by (simp_all add: q link_step_def Let_def)
  have "b \<noteq> blocks ! k" if "b \<notin> set blocks" for b using that k by auto
  with IH k show ?case unfolding qs by (auto simp: nth_eq_iff_index_eq [OF assms(1)] less_Suc_eq)
qed simp

lemma new_free_queue_dll:
  assumes "distinct ids"
  shows "dll (new_free_queue (map Blk ids)) ids"
proof (cases "ids = []")
  case True
  then show ?thesis by (simp add: new_free_queue_def dll_def ends_def)
next
  case False
  let ?bs = "map Blk ids" and ?n = "length ids"
  define q0 where "q0 = fold (link_step ?bs) [0..<length ?bs]
              \<lparr>num_free_blocks = int ?n, prev_free_block = (\<lambda>_. None), next_free_block = (\<lambda>_. None)\<rparr>"
  have n: "0 < ?n" using False by simp
  have L: "num_free_blocks q0 = int ?n"
    "\<And>i. i < ?n \<Longrightarrow> prev_free_block q0 (Blk (ids ! i)) = (if 0 < i then Some (Blk (ids ! (i - 1))) else None)"
    "\<And>i. i < ?n \<Longrightarrow> next_free_block q0 (Blk (ids ! i)) = (if i + 1 < ?n then Some (Blk (ids ! (i + 1))) else None)"
    "\<And>b. b \<notin> set ?bs \<Longrightarrow> prev_free_block q0 b = None \<and> next_free_block q0 b = None"
    using link_fold [of ?bs "length ?bs" q0 "int ?n"] assms by (auto simp: q0_def)
  define q where "q = new_free_queue ?bs"
  have hl: "hd ?bs = Blk (ids ! 0)" "last ?bs = Blk (ids ! (?n - 1))"
    using False by (simp_all add: hd_conv_nth last_conv_nth)
  have q: "num_free_blocks q = int ?n"
    "next_free_block q = (next_free_block q0)(FakeHead := Some (Blk (ids ! 0)), Blk (ids ! (?n - 1)) := Some FakeTail)"
    "prev_free_block q = (prev_free_block q0)(Blk (ids ! 0) := Some FakeHead, FakeTail := Some (Blk (ids ! (?n - 1))))"
    using False L(1) by (simp_all add: q_def new_free_queue_def Let_def hl q0_def)
  have inj: "ids ! i = ids ! j \<longleftrightarrow> i = j" if "i < ?n" "j < ?n" for i j
    using assms that by (simp add: nth_eq_iff_index_eq)
  have e: "ends ids ! 0 = FakeHead" "ends ids ! Suc ?n = FakeTail"
    "\<And>i. i < ?n \<Longrightarrow> ends ids ! Suc i = Blk (ids ! i)" "length (ends ids) = ?n + 2"
    by (simp_all add: ends_def nth_append)
  have "dseg (next_free_block q) (prev_free_block q) (ends ids)"
  proof (rule dseg_nthI)
    fix i assume "Suc i < length (ends ids)"
    then consider (first) "i = 0" | (tail) "i \<noteq> 0" "i = ?n" | (mid) "i \<noteq> 0" "i < ?n"
      using e(4) by linarith
    then show "next_free_block q (ends ids ! i) = Some (ends ids ! Suc i) \<and>
               prev_free_block q (ends ids ! Suc i) = Some (ends ids ! i)"
    proof cases
      case first
      then show ?thesis using e n by (auto simp: q)
    next
      case tail
      then show ?thesis using e(2) e(3) [of "i - 1"] by (auto simp: q)
    next
      case mid
      then show ?thesis using e(3) [of "i - 1"] e(3) [of i] L(2) [of i] L(3) [of "i - 1"] inj [of i 0]
          inj [of "i - 1" "?n - 1"] n
        by (auto simp: q)
    qed
  qed
  moreover have "FakeTail \<notin> set ?bs" "FakeHead \<notin> set ?bs" by auto
  moreover have "b \<noteq> ids ! i" if "b \<notin> set ids" "i < ?n" for b i using that by auto
  ultimately show ?thesis
    using L(4) q assms n by (auto simp: dll_def simp flip: q_def)
qed

section \<open>The contract of a free list\<close>

text \<open>
  What the block pool relies on: the queue represents a list of blocks without repetition,
  blocks leave from the front or from the middle, and return at the back. Failing calls are
  those the source guards against.
\<close>

locale free_list =
  fixes rep :: "'q \<Rightarrow> 'b list \<Rightarrow> bool"
    and elem :: "'b \<Rightarrow> bool"
    and count :: "'q \<Rightarrow> int"
    and pop_n :: "int \<Rightarrow> 'q \<Rightarrow> ('b list \<times> 'q) res"
    and rem :: "'b \<Rightarrow> 'q \<Rightarrow> 'q res"
    and put_n :: "'b list \<Rightarrow> 'q \<Rightarrow> 'q res"
  assumes rep_distinct: "rep q xs \<Longrightarrow> distinct xs"
    and rep_elem: "rep q xs \<Longrightarrow> x \<in> set xs \<Longrightarrow> elem x"
    and rep_count: "rep q xs \<Longrightarrow> count q = int (length xs)"
    and pop_n_ok: "rep q xs \<Longrightarrow> 0 \<le> n \<Longrightarrow> n \<le> int (length xs) \<Longrightarrow>
          \<exists>q'. pop_n n q = Inr (take (nat n) xs, q') \<and> rep q' (drop (nat n) xs)"
    and pop_n_err: "rep q xs \<Longrightarrow> int (length xs) < n \<Longrightarrow> pop_n n q = Inl AssertionError"
    and rem_ok: "rep q xs \<Longrightarrow> x \<in> set xs \<Longrightarrow> \<exists>q'. rem x q = Inr q' \<and> rep q' (remove1 x xs)"
    and rem_err: "rep q xs \<Longrightarrow> x \<notin> set xs \<Longrightarrow> rem x q = Inl RuntimeError"
    and put_n_ok: "rep q xs \<Longrightarrow> distinct ys \<Longrightarrow> set xs \<inter> set ys = {} \<Longrightarrow> \<forall>y\<in>set ys. elem y \<Longrightarrow>
          \<exists>q'. put_n ys q = Inr q' \<and> rep q' (xs @ ys)"
begin

text \<open>Blocks that return are reused last: least recently used first.\<close>

lemma put_then_pop_lru:
  assumes "rep q xs" "distinct ys" "set xs \<inter> set ys = {}" "\<forall>y\<in>set ys. elem y" "k \<le> length ys"
  shows "\<exists>q1 q2. put_n ys q = Inr q1 \<and>
           pop_n (int (length xs + k)) q1 = Inr (xs @ take k ys, q2) \<and> rep q2 (drop k ys)"
proof -
  obtain q1 where q1: "put_n ys q = Inr q1" "rep q1 (xs @ ys)" using put_n_ok [OF assms(1-4)] by blast
  from pop_n_ok [OF q1(2), of "int (length xs + k)"] assms(5)
  obtain q2 where "pop_n (int (length xs + k)) q1 = Inr (xs @ take k ys, q2)" "rep q2 (drop k ys)"
    by (auto simp: nat_add_distrib)
  with q1 show ?thesis by blast
qed

text \<open>A block taken out of the middle and returned moves to the back; the others keep their order.\<close>

lemma rem_then_put_moves_to_back:
  assumes "rep q xs" "x \<in> set xs"
  shows "\<exists>q1 q2. rem x q = Inr q1 \<and> put_n [x] q1 = Inr q2 \<and> rep q2 (remove1 x xs @ [x])"
proof -
  obtain q1 where q1: "rem x q = Inr q1" "rep q1 (remove1 x xs)" using rem_ok [OF assms] by blast
  have "x \<notin> set (remove1 x xs)" using rep_distinct [OF assms(1)] by simp
  with put_n_ok [OF q1(2), of "[x]"] rep_elem [OF assms] q1 show ?thesis by auto
qed

lemma rem_iff: "rep q xs \<Longrightarrow> is_ok (rem x q) \<longleftrightarrow> x \<in> set xs"
  using rem_ok [of q xs x] rem_err [of q xs x] by (cases "x \<in> set xs") auto

end

definition queue_rep :: "free_queue \<Rightarrow> block_ref list \<Rightarrow> bool" where
  "queue_rep q bs \<longleftrightarrow> (\<exists>ids. bs = map Blk ids \<and> dll q ids)"

definition is_blk :: "block_ref \<Rightarrow> bool" where
  "is_blk b \<longleftrightarrow> (\<exists>i. b = Blk i)"

lemma is_blk_simps [simp]: "is_blk (Blk i)" "\<not> is_blk FakeHead" "\<not> is_blk FakeTail"
  by (auto simp: is_blk_def)

lemma is_blk_list: "\<forall>y\<in>set ys. is_blk y \<Longrightarrow> \<exists>ids. ys = map Blk ids"
  by (induction ys) (auto simp: is_blk_def, metis list.simps(9))

lemma remove1_map_Blk: "remove1 (Blk x) (map Blk ids) = map Blk (remove1 x ids)"
  by (induction ids) auto

interpretation fq: free_list queue_rep is_blk num_free_blocks popleft_n remove_block append_n
proof unfold_locales
  fix q xs x
  assume r: "queue_rep q xs"
  then obtain ids where ids: "xs = map Blk ids" "dll q ids" by (auto simp: queue_rep_def)
  show "distinct xs" using ids by (simp add: dll_def)
  show "num_free_blocks q = int (length xs)" using ids by (simp add: dll_def)
  show "is_blk x" if "x \<in> set xs" using ids that by auto
  show "\<exists>q'. popleft_n n q = Inr (take (nat n) xs, q') \<and> queue_rep q' (drop (nat n) xs)"
    if "0 \<le> n" "n \<le> int (length xs)" for n
    using popleft_n_spec [OF ids(2), of n] that ids(1)
    by (auto simp: queue_rep_def take_map drop_map)
  show "popleft_n n q = Inl AssertionError" if "int (length xs) < n" for n
    using popleft_n_too_many [OF ids(2)] that ids(1) by simp
  show "\<exists>q'. remove_block x q = Inr q' \<and> queue_rep q' (remove1 x xs)" if "x \<in> set xs"
  proof -
    from that ids obtain i where i: "x = Blk i" "i \<in> set ids" by auto
    then obtain ys zs where s: "ids = ys @ i # zs" "i \<notin> set ys" by (meson split_list_first)
    then have "remove1 x xs = map Blk (ys @ zs)"
      using ids(1) i(1) by (auto simp: remove1_append)
    with remove_block_spec [of q ys i zs] ids(2) s(1) i(1) show ?thesis
      by (auto simp: queue_rep_def simp del: map_append)
  qed
  show "remove_block x q = Inl RuntimeError" if "x \<notin> set xs"
    using that ids by (cases x) (auto simp: remove_block_absent, auto simp: remove_block_def dll_def split: option.splits)
  show "\<exists>q'. append_n ys q = Inr q' \<and> queue_rep q' (xs @ ys)"
    if ys: "distinct ys" "set xs \<inter> set ys = {}" "\<forall>y\<in>set ys. is_blk y" for ys
  proof -
    obtain js where js: "ys = map Blk js" using is_blk_list [OF ys(3)] by blast
    with ys ids have "distinct js" "set ids \<inter> set js = {}" by auto
    from append_n_spec [OF ids(2) this] show ?thesis
      by (auto simp: queue_rep_def js ids(1) simp flip: map_append)
  qed
qed

end
