(* ===== verification/Block_Pool.thy ===== *)
theory Block_Pool
  imports Free_Queue Block_Hash Complex_Main
begin

text \<open>
  The block pool of v1/core/block\_pool.py: reference counts and hashes of the KV cache blocks,
  the free queue in eviction order, and the map from block hashes to cached blocks. The fields
  of the KVCacheBlock objects other than the queue links are kept in a function from block
  references. The metrics collector, which only observes, is left out. The invariant
  \<open>pool_inv p H\<close> relates the pool to the multiset \<open>H\<close> of references that requests hold; the
  locale \<open>ref_pool\<close> is the contract the managers of the block tables rely on.
\<close>

section \<open>State\<close>

record kv_block =
  ref_cnt :: int
  block_hash :: "bytes option"
  is_null :: bool

datatype cached_blocks = OneBlock block_ref | ManyBlocks "(int, block_ref) odict"

type_synonym block_hash_map = "bytes \<Rightarrow> cached_blocks option"

record block_stored =
  bs_block_hashes :: "external_block_hash list"
  bs_parent_block_hash :: "external_block_hash option"
  bs_token_ids :: "token list"
  bs_block_size :: nat
  bs_lora_id :: "int option"
  bs_lora_name :: "string option"
  bs_extra_keys :: "py_key list option list option"

datatype kv_event =
    BlockStored block_stored
  | BlockRemoved "external_block_hash list"
  | AllBlocksCleared

record block_pool =
  num_gpu_blocks :: nat
  enable_caching :: bool
  hash_block_size :: nat
  blocks :: "block_ref \<Rightarrow> kv_block"
  free_block_queue :: free_queue
  cached_block_hash_to_block :: block_hash_map
  null_block :: block_ref
  enable_kv_cache_events :: bool
  use_int_block_hashes :: bool
  kv_event_queue :: "kv_event list"

text \<open>The \<^verbatim>\<open>block_id\<close> attribute; the fake ends of the queue have id -1.\<close>

fun block_id :: "block_ref \<Rightarrow> int" where
  "block_id (Blk i) = int i"
| "block_id _ = - 1"

section \<open>The map from hashes to blocks\<close>

definition get_one_block :: "block_hash_map \<Rightarrow> bytes \<Rightarrow> block_ref option" where
  "get_one_block m key =
     (case m key of
        None \<Rightarrow> None
      | Some (OneBlock b) \<Rightarrow> Some b
      | Some (ManyBlocks d) \<Rightarrow> Some (snd (hd d)))"

definition map_insert :: "bytes \<Rightarrow> block_ref \<Rightarrow> block_hash_map \<Rightarrow> block_hash_map" where
  "map_insert key block m =
     m(key \<mapsto> (case m key of
                None \<Rightarrow> OneBlock block
              | Some (OneBlock b) \<Rightarrow> ManyBlocks (od_set (block_id block) block [(block_id b, b)])
              | Some (ManyBlocks d) \<Rightarrow> ManyBlocks (od_set (block_id block) block d)))"

definition map_pop :: "bytes \<Rightarrow> int \<Rightarrow> block_hash_map \<Rightarrow> block_ref option \<times> block_hash_map" where
  "map_pop key bid m =
     (case m key of
        None \<Rightarrow> (None, m)
      | Some (OneBlock b) \<Rightarrow> if block_id b = bid then (Some b, m(key := None)) else (None, m)
      | Some (ManyBlocks d) \<Rightarrow>
          let d' = od_del bid d
          in (od_get d bid, m(key := if length d' > 0 then Some (ManyBlocks d') else None)))"

section \<open>The pool\<close>

definition fresh_block :: kv_block where
  "fresh_block = \<lparr>ref_cnt = 0, block_hash = None, is_null = False\<rparr>"

definition new_block_pool :: "int \<Rightarrow> bool \<Rightarrow> nat \<Rightarrow> bool \<Rightarrow> bool \<Rightarrow> block_pool res" where
  "new_block_pool n caching hbs events use_int =
     bindR (assertR (n > 0)) (\<lambda>_.
     let bs = map Blk [0..<nat n];
         q = new_free_queue bs
     in bindR (popleft q) (\<lambda>(nb, q').
        Inr \<lparr>num_gpu_blocks = nat n, enable_caching = caching, hash_block_size = hbs,
             blocks = (\<lambda>_. fresh_block)(nb := fresh_block\<lparr>is_null := True\<rparr>),
             free_block_queue = q', cached_block_hash_to_block = (\<lambda>_. None), null_block = nb,
             enable_kv_cache_events = events, use_int_block_hashes = use_int, kv_event_queue = []\<rparr>))"

definition set_ref_cnt :: "block_ref \<Rightarrow> int \<Rightarrow> block_pool \<Rightarrow> block_pool" where
  "set_ref_cnt b n p = p\<lparr>blocks := (blocks p)(b := (blocks p b)\<lparr>ref_cnt := n\<rparr>)\<rparr>"

definition set_block_hash :: "block_ref \<Rightarrow> bytes option \<Rightarrow> block_pool \<Rightarrow> block_pool" where
  "set_block_hash b h p = p\<lparr>blocks := (blocks p)(b := (blocks p b)\<lparr>block_hash := h\<rparr>)\<rparr>"

definition get_num_free_blocks :: "block_pool \<Rightarrow> int" where
  "get_num_free_blocks p = num_free_blocks (free_block_queue p)"

fun cached_for_groups :: "block_pool \<Rightarrow> bytes \<Rightarrow> int list \<Rightarrow> block_ref list \<Rightarrow> block_ref list option res" where
  "cached_for_groups p h [] acc = Inr (Some acc)"
| "cached_for_groups p h (g # gs) acc =
     bindR (make_block_hash_with_group_id h g) (\<lambda>key.
       case get_one_block (cached_block_hash_to_block p) key of
         None \<Rightarrow> Inr None
       | Some b \<Rightarrow> cached_for_groups p h gs (acc @ [b]))"

definition get_cached_block :: "block_pool \<Rightarrow> bytes \<Rightarrow> int list \<Rightarrow> block_ref list option res" where
  "get_cached_block p h kv_cache_group_ids = cached_for_groups p h kv_cache_group_ids []"

text \<open>\<^verbatim>\<open>BlockHashList\<close>: a plain list or the coarser view, with \<^verbatim>\<open>len\<close>, indexing and
  \<^verbatim>\<open>[start:]\<close>.\<close>

datatype block_hash_list = PlainHashes "bytes list" | ScaledHashes hash_list_with_block_size

fun bhl_len :: "block_hash_list \<Rightarrow> nat" where
  "bhl_len (PlainHashes hs) = length hs"
| "bhl_len (ScaledHashes hl) = hash_list_len hl"

fun bhl_get :: "block_hash_list \<Rightarrow> nat \<Rightarrow> bytes res" where
  "bhl_get (PlainHashes hs) i = py_get hs (int i)"
| "bhl_get (ScaledHashes hl) i = get_value_at hl i"

fun bhl_from :: "block_hash_list \<Rightarrow> nat \<Rightarrow> bytes list res" where
  "bhl_from (PlainHashes hs) i = Inr (drop i hs)"
| "bhl_from (ScaledHashes hl) i = mapR (get_value_at hl) [i..<hash_list_len hl]"

definition hashes_at_size :: "bytes list \<Rightarrow> nat \<Rightarrow> nat \<Rightarrow> block_hash_list res" where
  "hashes_at_size hs hbs block_size =
     (if block_size = hbs then Inr (PlainHashes hs)
      else bindR (assertR (block_size mod hbs = 0)) (\<lambda>_.
           bindR (new_hash_list hs hbs block_size) (\<lambda>hl. Inr (ScaledHashes hl))))"

text \<open>The loop of \<^verbatim>\<open>cache_full_blocks\<close> over the new full blocks; the external hashes are collected
  when events are enabled. The setter of \<^verbatim>\<open>block_hash\<close> repeats the assertion made before it.\<close>

definition cache_one_block ::
  "int \<Rightarrow> bytes \<Rightarrow> block_ref \<Rightarrow> block_pool \<Rightarrow> block_pool res" where
  "cache_one_block gid h blk p =
     bindR (assertR (block_hash (blocks p blk) = None)) (\<lambda>_.
     bindR (make_block_hash_with_group_id h gid) (\<lambda>key.
       let p1 = set_block_hash blk (Some key) p
       in Inr (p1\<lparr>cached_block_hash_to_block := map_insert key blk (cached_block_hash_to_block p1)\<rparr>)))"

fun cache_loop ::
  "bytes list \<Rightarrow> int \<Rightarrow> nat \<Rightarrow> block_ref list \<Rightarrow> block_pool \<times> external_block_hash list \<Rightarrow>
   (block_pool \<times> external_block_hash list) res" where
  "cache_loop bhs gid i [] st = Inr st"
| "cache_loop bhs gid i (blk # blks) (p, new_hashes) =
     (if is_null (blocks p blk) then cache_loop bhs gid (Suc i) blks (p, new_hashes)
      else bindR (assertR (block_hash (blocks p blk) = None)) (\<lambda>_.
           bindR (py_get bhs (int i)) (\<lambda>h.
           bindR (cache_one_block gid h blk p) (\<lambda>p'.
             cache_loop bhs gid (Suc i) blks
               (p', new_hashes @ [maybe_convert_block_hash (use_int_block_hashes p) h])))))"

definition extra_keys_step ::
  "hash_env \<Rightarrow> block_pool \<Rightarrow> block_ref list \<Rightarrow> nat \<Rightarrow> nat \<Rightarrow> py_key list option list \<times> int \<times> request \<Rightarrow>
   (py_key list option list \<times> int \<times> request) res" where
  "extra_keys_step env p blks block_size i = (\<lambda>(ks, mm_idx, r).
     bindR (py_get blks (int i)) (\<lambda>b.
       if is_null (blocks p b) then Inr (ks, mm_idx, r)
       else bindR (generate_block_hash_extra_keys env r (i * block_size) (i * block_size + block_size) mm_idx)
              (\<lambda>(k, mm_idx', r'). Inr (ks @ [k], mm_idx', r'))))"

definition stored_event ::
  "hash_env \<Rightarrow> request \<Rightarrow> block_ref list \<Rightarrow> nat \<Rightarrow> nat \<Rightarrow> nat \<Rightarrow> block_hash_list \<Rightarrow>
   external_block_hash list \<Rightarrow> block_pool \<Rightarrow> (block_pool \<times> request) res" where
  "stored_event env r blks num_cached_blocks num_full_blocks block_size bhl new_hashes p =
     bindR (if num_cached_blocks = 0 then Inr None
            else bindR (bhl_get bhl (num_cached_blocks - 1))
                   (\<lambda>h. Inr (Some (maybe_convert_block_hash (use_int_block_hashes p) h)))) (\<lambda>parent.
     bindR (foldR (extra_keys_step env p blks block_size) [num_cached_blocks..<num_full_blocks] ([], 0, r))
       (\<lambda>(ks, _, r').
          Inr (p\<lparr>kv_event_queue := kv_event_queue p @ [BlockStored
                 \<lparr>bs_block_hashes = new_hashes, bs_parent_block_hash = parent,
                  bs_token_ids = py_slice (num_cached_blocks * block_size) (num_full_blocks * block_size) (all_token_ids r),
                  bs_block_size = block_size, bs_lora_id = map_option lora_int_id (lora_request r),
                  bs_lora_name = map_option lora_name (lora_request r),
                  bs_extra_keys = (if ks = [] then None else Some ks)\<rparr>]\<rparr>, r')))"

definition cache_full_blocks ::
  "hash_env \<Rightarrow> request \<Rightarrow> block_ref list \<Rightarrow> nat \<Rightarrow> nat \<Rightarrow> nat \<Rightarrow> int \<Rightarrow> block_pool \<Rightarrow> (block_pool \<times> request) res"
where
  "cache_full_blocks env r blks num_cached_blocks num_full_blocks block_size gid p =
     (if num_cached_blocks \<ge> num_full_blocks then Inr (p, r)
      else let new_full_blocks = py_slice num_cached_blocks num_full_blocks blks in
        bindR (assertR (length (block_hashes r) \<ge> num_full_blocks)) (\<lambda>_.
        bindR (hashes_at_size (block_hashes r) (hash_block_size p) block_size) (\<lambda>bhl.
        bindR (bhl_from bhl num_cached_blocks) (\<lambda>new_block_hashes.
        bindR (cache_loop new_block_hashes gid 0 new_full_blocks (p, [])) (\<lambda>(p', new_hashes).
          if enable_kv_cache_events p'
          then stored_event env r blks num_cached_blocks num_full_blocks block_size bhl new_hashes p'
          else Inr (p', r))))))"

definition maybe_evict_cached_block :: "block_ref \<Rightarrow> block_pool \<Rightarrow> bool \<times> block_pool" where
  "maybe_evict_cached_block b p =
     (case block_hash (blocks p b) of
        None \<Rightarrow> (False, p)
      | Some h \<Rightarrow>
          let (found, m) = map_pop h (block_id b) (cached_block_hash_to_block p);
              p1 = p\<lparr>cached_block_hash_to_block := m\<rparr>
          in if found = None then (False, p1)
             else let p2 = set_block_hash b None p1
                  in (True, if enable_kv_cache_events p2
                            then p2\<lparr>kv_event_queue := kv_event_queue p2 @
                                   [BlockRemoved [maybe_convert_block_hash (use_int_block_hashes p2) (get_block_hash h)]]\<rparr>
                            else p2))"

definition alloc_step :: "block_ref \<Rightarrow> block_pool \<Rightarrow> block_pool res" where
  "alloc_step b p =
     (let p1 = (if enable_caching p then snd (maybe_evict_cached_block b p) else p)
      in bindR (assertR (ref_cnt (blocks p1 b) = 0)) (\<lambda>_.
           Inr (set_ref_cnt b (ref_cnt (blocks p1 b) + 1) p1)))"

definition get_new_blocks :: "int \<Rightarrow> block_pool \<Rightarrow> (block_ref list \<times> block_pool) res" where
  "get_new_blocks n p =
     (if n > get_num_free_blocks p then Inl ValueError
      else bindR (popleft_n n (free_block_queue p)) (\<lambda>(ret, q).
           bindR (foldR alloc_step ret (p\<lparr>free_block_queue := q\<rparr>)) (\<lambda>p'. Inr (ret, p'))))"

definition touch_step :: "block_ref \<Rightarrow> block_pool \<Rightarrow> block_pool res" where
  "touch_step b p =
     bindR (if ref_cnt (blocks p b) = 0 \<and> \<not> is_null (blocks p b)
            then bindR (remove_block b (free_block_queue p)) (\<lambda>q. Inr (p\<lparr>free_block_queue := q\<rparr>))
            else Inr p)
       (\<lambda>p1. Inr (set_ref_cnt b (ref_cnt (blocks p1 b) + 1) p1))"

definition touch :: "block_ref list \<Rightarrow> block_pool \<Rightarrow> block_pool res" where
  "touch bs p = foldR touch_step bs p"

definition dec_step :: "block_ref \<Rightarrow> block_pool \<Rightarrow> block_pool" where
  "dec_step b p = set_ref_cnt b (ref_cnt (blocks p b) - 1) p"

definition free_blocks :: "block_ref list \<Rightarrow> block_pool \<Rightarrow> block_pool res" where
  "free_blocks ordered_blocks p =
     (let p1 = fold dec_step ordered_blocks p
      in bindR (append_n (filter (\<lambda>b. ref_cnt (blocks p1 b) = 0 \<and> \<not> is_null (blocks p1 b)) ordered_blocks)
                 (free_block_queue p1))
           (\<lambda>q. Inr (p1\<lparr>free_block_queue := q\<rparr>)))"

text \<open>The set of ids is iterated in some order, the order of the list given here.\<close>

definition evict_step :: "nat \<Rightarrow> block_pool \<Rightarrow> block_pool res" where
  "evict_step i p =
     bindR (assertR (i < num_gpu_blocks p)) (\<lambda>_. Inr (snd (maybe_evict_cached_block (Blk i) p)))"

definition evict_blocks :: "nat list \<Rightarrow> block_pool \<Rightarrow> block_pool res" where
  "evict_blocks ids p = foldR evict_step ids p"

definition reset_prefix_cache :: "block_pool \<Rightarrow> bool \<times> block_pool" where
  "reset_prefix_cache p =
     (let num_used_blocks = int (num_gpu_blocks p) - get_num_free_blocks p
      in if num_used_blocks \<noteq> 1 then (False, p)
         else let p1 = p\<lparr>cached_block_hash_to_block := (\<lambda>_. None)\<rparr>;
                  p2 = fold (\<lambda>i. set_block_hash (Blk i) None) [0..<num_gpu_blocks p] p1
              in (True, if enable_kv_cache_events p2
                        then p2\<lparr>kv_event_queue := kv_event_queue p2 @ [AllBlocksCleared]\<rparr> else p2))"

text \<open>The float is modelled by the rational it approximates.\<close>

definition get_usage :: "block_pool \<Rightarrow> rat" where
  "get_usage p =
     (let total = int (num_gpu_blocks p) - 1
      in if total = 0 then 0 else 1 - of_int (get_num_free_blocks p) / of_int total)"

definition pool_take_events :: "block_pool \<Rightarrow> kv_event list \<times> block_pool" where
  "pool_take_events p =
     (if \<not> enable_kv_cache_events p then ([], p) else (kv_event_queue p, p\<lparr>kv_event_queue := []\<rparr>))"

section \<open>The contract of the hash index\<close>

text \<open>
  The index represents which hash each block is cached under: any number of blocks may share a
  hash, a lookup returns one of them, and removing one keeps the others.
\<close>

locale block_index =
  fixes rep :: "'m \<Rightarrow> ('b \<Rightarrow> 'k option) \<Rightarrow> bool"
    and elem :: "'b \<Rightarrow> bool"
    and look :: "'m \<Rightarrow> 'k \<Rightarrow> 'b option"
    and ins :: "'k \<Rightarrow> 'b \<Rightarrow> 'm \<Rightarrow> 'm"
    and del :: "'k \<Rightarrow> 'b \<Rightarrow> 'm \<Rightarrow> 'b option \<times> 'm"
  assumes look_None: "rep m hf \<Longrightarrow> look m k = None \<longleftrightarrow> (\<forall>b. hf b \<noteq> Some k)"
    and look_Some: "rep m hf \<Longrightarrow> look m k = Some b \<Longrightarrow> hf b = Some k"
    and ins_rep: "rep m hf \<Longrightarrow> elem b \<Longrightarrow> hf b = None \<Longrightarrow> rep (ins k b m) (hf(b := Some k))"
    and del_rep: "rep m hf \<Longrightarrow> hf b = Some k \<Longrightarrow> \<exists>m'. del k b m = (Some b, m') \<and> rep m' (hf(b := None))"
begin

lemma look_after_ins: "rep m hf \<Longrightarrow> elem b \<Longrightarrow> hf b = None \<Longrightarrow> \<exists>b'. look (ins k b m) k = Some b'"
  using ins_rep look_None by (metis fun_upd_same not_None_eq)

lemma look_other_after_ins:
  assumes "rep m hf" "elem b" "hf b = None" "k' \<noteq> k"
  shows "look (ins k b m) k' = None \<longleftrightarrow> look m k' = None"
proof -
  have "(\<forall>c. (hf(b := Some k)) c \<noteq> Some k') \<longleftrightarrow> (\<forall>c. hf c \<noteq> Some k')"
    using assms(3,4) by (metis fun_upd_apply option.distinct(1) option.inject)
  then show ?thesis using look_None [OF ins_rep [OF assms(1-3)]] look_None [OF assms(1)] by simp
qed

text \<open>After one of two blocks with the same hash is removed the other is still found.\<close>

lemma look_after_del_duplicate:
  assumes "rep m hf" "hf b = Some k" "hf b' = Some k" "b \<noteq> b'" "\<And>c. hf c = Some k \<Longrightarrow> c = b \<or> c = b'"
  shows "\<exists>m'. del k b m = (Some b, m') \<and> look m' k = Some b'"
proof -
  obtain m' where m': "del k b m = (Some b, m')" "rep m' (hf(b := None))" using del_rep [OF assms(1,2)] by blast
  have "look m' k \<noteq> None" using look_None [OF m'(2), of k] assms(3,4) by (metis fun_upd_apply)
  then obtain c where c: "look m' k = Some c" by blast
  then have "hf c = Some k" "c \<noteq> b" using look_Some [OF m'(2) c] by (auto split: if_splits)
  with assms(5) c m'(1) show ?thesis by blast
qed

end

definition entry_blocks :: "cached_blocks option \<Rightarrow> block_ref set" where
  "entry_blocks c = (case c of None \<Rightarrow> {} | Some (OneBlock b) \<Rightarrow> {b} | Some (ManyBlocks d) \<Rightarrow> snd ` set d)"

definition entry_ok :: "cached_blocks option \<Rightarrow> bool" where
  "entry_ok c = (case c of Some (ManyBlocks d) \<Rightarrow> od_wf d \<and> d \<noteq> [] \<and> (\<forall>(i, b)\<in>set d. i = block_id b) | _ \<Rightarrow> True)"

definition cache_ok :: "block_hash_map \<Rightarrow> (block_ref \<Rightarrow> bytes option) \<Rightarrow> bool" where
  "cache_ok m hf \<longleftrightarrow> (\<forall>k. entry_ok (m k) \<and> entry_blocks (m k) = {b. hf b = Some k}) \<and>
     (\<forall>b k. hf b = Some k \<longrightarrow> is_blk b)"

lemma block_id_eq_iff [simp]:
  "is_blk b \<Longrightarrow> block_id c = block_id b \<longleftrightarrow> c = b" "is_blk b \<Longrightarrow> block_id b = block_id c \<longleftrightarrow> b = c"
  by (cases b; cases c; auto)+

lemma cache_ok_entry: "cache_ok m hf \<Longrightarrow> entry_ok (m k)" "cache_ok m hf \<Longrightarrow> entry_blocks (m k) = {b. hf b = Some k}"
  by (auto simp: cache_ok_def)

lemma entry_blocks_empty: "entry_ok c \<Longrightarrow> entry_blocks c = {} \<longleftrightarrow> c = None"
  by (auto simp: entry_ok_def entry_blocks_def split: option.splits cached_blocks.splits)

lemma get_one_block_entry: "entry_ok (m k) \<Longrightarrow> get_one_block m k = Some b \<Longrightarrow> b \<in> entry_blocks (m k)"
  by (auto simp: entry_ok_def entry_blocks_def get_one_block_def split: option.splits cached_blocks.splits)

lemma get_one_block_None: "get_one_block m k = None \<longleftrightarrow> m k = None"
  by (auto simp: get_one_block_def split: option.splits cached_blocks.splits)

lemma entry_insert:
  assumes "entry_ok (m k)" "b \<notin> entry_blocks (m k)" "is_blk b"
  shows "entry_ok (map_insert k b m k)" "entry_blocks (map_insert k b m k) = insert b (entry_blocks (m k))"
proof -
  have new: "block_id b \<notin> set (od_keys d)" if "m k = Some (ManyBlocks d)" for d
    using assms that by (force simp: entry_ok_def entry_blocks_def)
  show "entry_ok (map_insert k b m k)"
    using assms new by (auto simp: entry_ok_def map_insert_def entry_blocks_def od_wf_def od_set_absent
        split: option.splits cached_blocks.splits)
  show "entry_blocks (map_insert k b m k) = insert b (entry_blocks (m k))"
    using assms new by (auto simp: map_insert_def entry_blocks_def od_set_absent
        split: option.splits cached_blocks.splits)
qed

lemma entry_pop:
  assumes "entry_ok (m k)" "b \<in> entry_blocks (m k)" "is_blk b"
  shows "\<exists>m'. map_pop k (block_id b) m = (Some b, m') \<and> entry_ok (m' k) \<and>
           entry_blocks (m' k) = entry_blocks (m k) - {b} \<and> (\<forall>k'. k' \<noteq> k \<longrightarrow> m' k' = m k')"
proof (cases "m k")
  case None
  with assms show ?thesis by (simp add: entry_blocks_def)
next
  case (Some c)
  show ?thesis
  proof (cases c)
    case (OneBlock b')
    then show ?thesis using assms Some by (simp add: map_pop_def entry_blocks_def entry_ok_def)
  next
    case (ManyBlocks d)
    have d: "od_wf d" "\<forall>(i, b)\<in>set d. i = block_id b" "(block_id b, b) \<in> set d"
      using assms Some ManyBlocks by (auto simp: entry_ok_def entry_blocks_def)
    have "snd ` set (od_del (block_id b) d) = snd ` set d - {b}"
      using d(2) assms(3) by (force simp: od_del_def)
    moreover have "od_get d (block_id b) = Some b" using d od_get_mem by metis
    moreover have "od_wf (od_del (block_id b) d)" "\<forall>(i, b)\<in>set (od_del (block_id b) d). i = block_id b"
      using d by (auto simp: od_del_def od_wf_del [unfolded od_del_def])
    ultimately show ?thesis
      using Some ManyBlocks by (auto simp: map_pop_def entry_blocks_def entry_ok_def Let_def)
  qed
qed

definition map_pop_block :: "bytes \<Rightarrow> block_ref \<Rightarrow> block_hash_map \<Rightarrow> block_ref option \<times> block_hash_map" where
  "map_pop_block k b = map_pop k (block_id b)"

interpretation bix: block_index cache_ok is_blk get_one_block map_insert map_pop_block
proof unfold_locales
  fix m hf k b
  assume ok: "cache_ok m hf"
  show "get_one_block m k = None \<longleftrightarrow> (\<forall>b. hf b \<noteq> Some k)"
    using entry_blocks_empty [OF cache_ok_entry(1) [OF ok, of k]] cache_ok_entry(2) [OF ok, of k]
    by (auto simp: get_one_block_None)
  show "hf b = Some k" if "get_one_block m k = Some b"
    using get_one_block_entry [OF cache_ok_entry(1) [OF ok] that] cache_ok_entry(2) [OF ok] by blast
  show "cache_ok (map_insert k b m) (hf(b := Some k))" if b: "is_blk b" "hf b = None"
  proof -
    have nb: "b \<notin> entry_blocks (m j)" for j using cache_ok_entry(2) [OF ok] b(2) by auto
    have "entry_ok (map_insert k b m j) \<and> entry_blocks (map_insert k b m j) = {c. (hf(b := Some k)) c = Some j}" for j
    proof (cases "j = k")
      case True
      then show ?thesis
        using entry_insert [OF cache_ok_entry(1) [OF ok] nb b(1)] cache_ok_entry(2) [OF ok, of k] by auto
    next
      case False
      then have "map_insert k b m j = m j" by (simp add: map_insert_def)
      with False b cache_ok_entry [OF ok, of j] show ?thesis by auto
    qed
    then show ?thesis using ok b(1) by (auto simp: cache_ok_def)
  qed
  show "\<exists>m'. map_pop_block k b m = (Some b, m') \<and> cache_ok m' (hf(b := None))" if b: "hf b = Some k"
  proof -
    have ib: "is_blk b" using ok b by (auto simp: cache_ok_def)
    have mem: "b \<in> entry_blocks (m k)" using cache_ok_entry(2) [OF ok] b by blast
    obtain m' where m': "map_pop k (block_id b) m = (Some b, m')" "entry_ok (m' k)"
      "entry_blocks (m' k) = entry_blocks (m k) - {b}" "\<forall>k'. k' \<noteq> k \<longrightarrow> m' k' = m k'"
      using entry_pop [of m k b] cache_ok_entry(1) [OF ok, of k] mem ib by blast
    have "entry_ok (m' j) \<and> entry_blocks (m' j) = {c. (hf(b := None)) c = Some j}" for j
      using m' cache_ok_entry [OF ok, of j] b by (cases "j = k") auto
    then show ?thesis using ok m'(1) by (auto simp: cache_ok_def map_pop_block_def split: if_splits)
  qed
qed

section \<open>The invariant\<close>

definition real_block :: "block_pool \<Rightarrow> block_ref \<Rightarrow> bool" where
  "real_block p b \<longleftrightarrow> (\<exists>i. b = Blk i \<and> 0 < i \<and> i < num_gpu_blocks p)"

text \<open>The references a block table holds: its entries without the null block.\<close>

definition held :: "block_ref list \<Rightarrow> block_ref multiset" where
  "held bs = mset (filter (\<lambda>b. b \<noteq> Blk 0) bs)"

text \<open>
  \<open>pool_rep p fs H\<close>: the free queue is the list \<open>fs\<close> of exactly the blocks with reference
  count 0 other than the null block (block 0); every reference count is the number of
  references in \<open>H\<close>; the hash index agrees with the hashes of the blocks.
\<close>

definition pool_rep :: "block_pool \<Rightarrow> block_ref list \<Rightarrow> block_ref multiset \<Rightarrow> bool" where
  "pool_rep p fs H \<longleftrightarrow>
     0 < num_gpu_blocks p \<and> null_block p = Blk 0 \<and> (\<forall>b. is_null (blocks p b) \<longleftrightarrow> b = Blk 0) \<and>
     queue_rep (free_block_queue p) fs \<and>
     set fs = {b. real_block p b \<and> ref_cnt (blocks p b) = 0} \<and>
     (\<forall>b. real_block p b \<longrightarrow> ref_cnt (blocks p b) = int (count H b)) \<and>
     (\<forall>b. b \<in># H \<longrightarrow> real_block p b) \<and>
     cache_ok (cached_block_hash_to_block p) (\<lambda>b. block_hash (blocks p b)) \<and>
     (\<forall>b. block_hash (blocks p b) \<noteq> None \<longrightarrow> real_block p b) \<and>
     (\<not> enable_caching p \<longrightarrow> (\<forall>b. block_hash (blocks p b) = None))"

definition pool_inv :: "block_pool \<Rightarrow> block_ref multiset \<Rightarrow> bool" where
  "pool_inv p H \<longleftrightarrow> (\<exists>fs. pool_rep p fs H)"

text \<open>The fields no operation changes.\<close>

definition same_config :: "block_pool \<Rightarrow> block_pool \<Rightarrow> bool" where
  "same_config p p' \<longleftrightarrow> num_gpu_blocks p' = num_gpu_blocks p \<and> enable_caching p' = enable_caching p \<and>
     hash_block_size p' = hash_block_size p \<and> null_block p' = null_block p \<and>
     enable_kv_cache_events p' = enable_kv_cache_events p \<and> use_int_block_hashes p' = use_int_block_hashes p"

lemma same_config_refl [simp]: "same_config p p"
  by (simp add: same_config_def)

lemma same_config_trans: "same_config p q \<Longrightarrow> same_config q r \<Longrightarrow> same_config p r"
  by (simp add: same_config_def)

lemma real_block_config: "same_config p p' \<Longrightarrow> real_block p' = real_block p"
  by (simp add: real_block_def same_config_def fun_eq_iff)

end
