(* ===== verification/Block_Pool_Inv.thy ===== *)
theory Block_Pool_Inv
  imports Block_Pool
begin

text \<open>
  The operations of the block pool keep its invariant: the effect of each on the free list,
  the held references and the hashes, the contract \<open>ref_pool\<close> the managers rely on, and the
  properties of the pool.
\<close>

section \<open>Single steps\<close>

lemma blocks_set_ref_cnt [simp]:
  "blocks (set_ref_cnt b n p) = (blocks p)(b := (blocks p b)\<lparr>ref_cnt := n\<rparr>)"
  "free_block_queue (set_ref_cnt b n p) = free_block_queue p"
  "cached_block_hash_to_block (set_ref_cnt b n p) = cached_block_hash_to_block p"
  "same_config p' (set_ref_cnt b n p) = same_config p' p"
  by (simp_all add: set_ref_cnt_def same_config_def)

lemma blocks_set_block_hash [simp]:
  "blocks (set_block_hash b h p) = (blocks p)(b := (blocks p b)\<lparr>block_hash := h\<rparr>)"
  "free_block_queue (set_block_hash b h p) = free_block_queue p"
  "cached_block_hash_to_block (set_block_hash b h p) = cached_block_hash_to_block p"
  "same_config p' (set_block_hash b h p) = same_config p' p"
  by (simp_all add: set_block_hash_def same_config_def)

lemma same_config_upd [simp]:
  "same_config p' (p\<lparr>free_block_queue := q\<rparr>) = same_config p' p"
  "same_config p' (p\<lparr>cached_block_hash_to_block := m\<rparr>) = same_config p' p"
  "same_config p' (p\<lparr>kv_event_queue := ev\<rparr>) = same_config p' p"
  by (simp_all add: same_config_def)

text \<open>The part of the invariant about hashes, kept by everything that only changes counts.\<close>

definition hash_inv :: "block_pool \<Rightarrow> bool" where
  "hash_inv p \<longleftrightarrow> cache_ok (cached_block_hash_to_block p) (\<lambda>b. block_hash (blocks p b)) \<and>
     (\<forall>b. block_hash (blocks p b) \<noteq> None \<longrightarrow> real_block p b) \<and>
     (\<not> enable_caching p \<longrightarrow> (\<forall>b. block_hash (blocks p b) = None))"

text \<open>The part about counts: which blocks are null, what is free, what is referenced.\<close>

definition cnt_inv :: "block_pool \<Rightarrow> block_ref list \<Rightarrow> block_ref multiset \<Rightarrow> bool" where
  "cnt_inv p fs H \<longleftrightarrow>
     0 < num_gpu_blocks p \<and> null_block p = Blk 0 \<and> (\<forall>b. is_null (blocks p b) \<longleftrightarrow> b = Blk 0) \<and>
     queue_rep (free_block_queue p) fs \<and>
     set fs = {b. real_block p b \<and> ref_cnt (blocks p b) = 0} \<and>
     (\<forall>b. real_block p b \<longrightarrow> ref_cnt (blocks p b) = int (count H b)) \<and>
     (\<forall>b. b \<in># H \<longrightarrow> real_block p b)"

lemma pool_rep_split: "pool_rep p fs H \<longleftrightarrow> cnt_inv p fs H \<and> hash_inv p"
  unfolding pool_rep_def cnt_inv_def hash_inv_def by blast

lemma hash_inv_cong:
  assumes "hash_inv p" "same_config p p'" "\<And>b. block_hash (blocks p' b) = block_hash (blocks p b)"
    and "cached_block_hash_to_block p' = cached_block_hash_to_block p"
  shows "hash_inv p'"
  using assms real_block_config [OF assms(2)] by (simp add: hash_inv_def same_config_def)

lemma real_not_null: "real_block p b \<Longrightarrow> b \<noteq> Blk 0"
  by (auto simp: real_block_def)

lemma real_is_blk: "real_block p b \<Longrightarrow> is_blk b"
  by (auto simp: real_block_def)

lemma evict_spec:
  assumes "hash_inv p"
  obtains p' where "snd (maybe_evict_cached_block b p) = p'" "hash_inv p'" "same_config p p'"
    "free_block_queue p' = free_block_queue p"
    "blocks p' = (blocks p)(b := (blocks p b)\<lparr>block_hash := None\<rparr>)"
    "fst (maybe_evict_cached_block b p) \<longleftrightarrow> block_hash (blocks p b) \<noteq> None"
proof (cases "block_hash (blocks p b)")
  case None
  then have "blocks p = (blocks p)(b := (blocks p b)\<lparr>block_hash := None\<rparr>)" by (metis fun_upd_triv kv_block.surjective kv_block.update_convs(2))
  then show thesis using None assms that [of p] by (simp add: maybe_evict_cached_block_def)
next
  case (Some h)
  have ok: "cache_ok (cached_block_hash_to_block p) (\<lambda>b. block_hash (blocks p b))"
    using assms by (simp add: hash_inv_def)
  from bix.del_rep [OF ok, of b h] Some obtain m where
    m: "map_pop h (block_id b) (cached_block_hash_to_block p) = (Some b, m)"
      "cache_ok m ((\<lambda>b. block_hash (blocks p b))(b := None))" by (auto simp: map_pop_block_def)
  let ?p = "set_block_hash b None (p\<lparr>cached_block_hash_to_block := m\<rparr>)"
  let ?e = "if enable_kv_cache_events ?p then ?p\<lparr>kv_event_queue := kv_event_queue ?p @
              [BlockRemoved [maybe_convert_block_hash (use_int_block_hashes ?p) (get_block_hash h)]]\<rparr> else ?p"
  have eq: "maybe_evict_cached_block b p = (True, ?e)" using Some m(1) by (simp add: maybe_evict_cached_block_def Let_def)
  have "(\<lambda>c. block_hash (blocks ?p c)) = (\<lambda>b. block_hash (blocks p b))(b := None)" by auto
  then have "hash_inv ?p" using m(2) assms by (auto simp: hash_inv_def real_block_def same_config_def set_block_hash_def)
  then have "hash_inv ?e" by (auto intro: hash_inv_cong [of ?p])
  then show thesis using that [of ?e] eq Some by simp
qed

lemma kv_block_upd_swap: "b\<lparr>block_hash := h, ref_cnt := n\<rparr> = b\<lparr>ref_cnt := n, block_hash := h\<rparr>"
  by (cases b) simp

lemma alloc_step_spec:
  assumes "hash_inv p" "ref_cnt (blocks p b) = 0"
  shows "\<exists>p'. alloc_step b p = Inr p' \<and> hash_inv p' \<and> same_config p p' \<and>
           free_block_queue p' = free_block_queue p \<and>
           blocks p' = (blocks p)(b := (blocks p b)\<lparr>ref_cnt := 1, block_hash := None\<rparr>)"
proof (cases "enable_caching p")
  case True
  obtain p1 where p1: "snd (maybe_evict_cached_block b p) = p1" "hash_inv p1" "same_config p p1"
    "free_block_queue p1 = free_block_queue p" "blocks p1 = (blocks p)(b := (blocks p b)\<lparr>block_hash := None\<rparr>)"
    using evict_spec [OF assms(1)] by metis
  have "hash_inv (set_ref_cnt b 1 p1)" by (rule hash_inv_cong [OF p1(2)]) simp_all
  then show ?thesis using True p1 assms(2) by (simp add: alloc_step_def Let_def kv_block_upd_swap)
next
  case False
  then have "block_hash (blocks p b) = None" using assms(1) by (simp add: hash_inv_def)
  then have "(blocks p b)\<lparr>ref_cnt := 1\<rparr> = (blocks p b)\<lparr>ref_cnt := 1, block_hash := None\<rparr>"
    by (metis kv_block.surjective kv_block.update_convs)
  moreover have "hash_inv (set_ref_cnt b 1 p)" by (rule hash_inv_cong [OF assms(1)]) simp_all
  ultimately show ?thesis using False assms by (simp add: alloc_step_def)
qed

lemma alloc_loop_spec:
  assumes "hash_inv p" "distinct bs" "\<And>b. b \<in> set bs \<Longrightarrow> ref_cnt (blocks p b) = 0"
  shows "\<exists>p'. foldR alloc_step bs p = Inr p' \<and> hash_inv p' \<and> same_config p p' \<and>
           free_block_queue p' = free_block_queue p \<and>
           blocks p' = (\<lambda>b. if b \<in> set bs then (blocks p b)\<lparr>ref_cnt := 1, block_hash := None\<rparr> else blocks p b)"
  using assms
proof (induction bs arbitrary: p)
  case (Cons b bs)
  from alloc_step_spec [of p b] Cons.prems obtain p1 where
    p1: "alloc_step b p = Inr p1" "hash_inv p1" "same_config p p1" "free_block_queue p1 = free_block_queue p"
      "blocks p1 = (blocks p)(b := (blocks p b)\<lparr>ref_cnt := 1, block_hash := None\<rparr>)" by auto
  have "ref_cnt (blocks p1 c) = 0" if "c \<in> set bs" for c using that Cons.prems p1(5) by auto
  with Cons.IH [of p1] Cons.prems p1 obtain p2 where
    p2: "foldR alloc_step bs p1 = Inr p2" "hash_inv p2" "same_config p1 p2" "free_block_queue p2 = free_block_queue p1"
      "blocks p2 = (\<lambda>c. if c \<in> set bs then (blocks p1 c)\<lparr>ref_cnt := 1, block_hash := None\<rparr> else blocks p1 c)"
    by auto
  have "blocks p2 = (\<lambda>c. if c \<in> set (b # bs) then (blocks p c)\<lparr>ref_cnt := 1, block_hash := None\<rparr> else blocks p c)"
    using Cons.prems(2) by (auto simp: p2(5) p1(5) fun_eq_iff)
  then show ?case using p1 p2 same_config_trans by auto
qed simp

lemma cnt_invD:
  assumes "cnt_inv p fs H"
  shows "queue_rep (free_block_queue p) fs" "distinct fs" "get_num_free_blocks p = int (length fs)"
    "b \<in> set fs \<longleftrightarrow> real_block p b \<and> count H b = 0" "is_null (blocks p b) \<longleftrightarrow> b = Blk 0"
    "real_block p b \<Longrightarrow> ref_cnt (blocks p b) = int (count H b)" "b \<in># H \<Longrightarrow> real_block p b"
  using assms fq.rep_distinct fq.rep_count by (auto simp: cnt_inv_def get_num_free_blocks_def)

lemma cnt_inv_cong:
  assumes "cnt_inv p fs H" "same_config p p'" "free_block_queue p' = free_block_queue p"
    and "\<And>b. ref_cnt (blocks p' b) = ref_cnt (blocks p b)" "\<And>b. is_null (blocks p' b) = is_null (blocks p b)"
  shows "cnt_inv p' fs H"
  using assms real_block_config [OF assms(2)] by (simp add: cnt_inv_def same_config_def)

section \<open>Operations\<close>

lemma get_new_blocks_spec:
  assumes "pool_rep p fs H" "0 \<le> n" "n \<le> int (length fs)"
  shows "\<exists>p'. get_new_blocks n p = Inr (take (nat n) fs, p') \<and>
           pool_rep p' (drop (nat n) fs) (H + mset (take (nat n) fs)) \<and> same_config p p' \<and>
           (\<forall>b. block_hash (blocks p' b) = (if b \<in> set (take (nat n) fs) then None else block_hash (blocks p b)))"
proof -
  let ?t = "take (nat n) fs" and ?d = "drop (nat n) fs"
  have c: "cnt_inv p fs H" "hash_inv p" using assms(1) by (simp_all add: pool_rep_split)
  note D = cnt_invD [OF c(1)]
  obtain q where q: "popleft_n n (free_block_queue p) = Inr (?t, q)" "queue_rep q ?d"
    using fq.pop_n_ok [OF D(1) assms(2,3)] by blast
  have fs: "set fs = set ?t \<union> set ?d" by (metis append_take_drop_id set_append)
  have t: "distinct ?t" "set ?t \<inter> set ?d = {}"
    using D(2) set_take_disj_set_drop_if_distinct [OF D(2), of "nat n" "nat n"] by auto
  have tr: "real_block p b \<and> count H b = 0 \<and> ref_cnt (blocks p b) = 0" if "b \<in> set ?t" for b
    using that fs D(4) [of b] D(6) [of b] by auto
  have hi: "hash_inv (p\<lparr>free_block_queue := q\<rparr>)" by (rule hash_inv_cong [OF c(2)]) simp_all
  have "\<exists>p'. foldR alloc_step ?t (p\<lparr>free_block_queue := q\<rparr>) = Inr p' \<and> hash_inv p' \<and>
      same_config (p\<lparr>free_block_queue := q\<rparr>) p' \<and> free_block_queue p' = q \<and>
      blocks p' = (\<lambda>b. if b \<in> set ?t then (blocks p b)\<lparr>ref_cnt := 1, block_hash := None\<rparr> else blocks p b)"
    using alloc_loop_spec [OF hi t(1)] tr by (simp cong: if_cong)
  then obtain p' where
    p': "foldR alloc_step ?t (p\<lparr>free_block_queue := q\<rparr>) = Inr p'" "hash_inv p'"
      "same_config (p\<lparr>free_block_queue := q\<rparr>) p'" "free_block_queue p' = q"
      "blocks p' = (\<lambda>b. if b \<in> set ?t then (blocks p b)\<lparr>ref_cnt := 1, block_hash := None\<rparr> else blocks p b)"
    by (elim exE conjE) (rule that)
  have sc: "same_config p p'" using p'(3) by (simp add: same_config_def)
  note rb = real_block_config [OF sc]
  have cnt: "count (mset ?t) b = (if b \<in> set ?t then 1 else 0)" for b
    using t(1) by (simp add: distinct_count_atmost_1)
  have "cnt_inv p' ?d (H + mset ?t)"
    unfolding cnt_inv_def
  proof (intro conjI)
    have "b \<in> set ?d \<longleftrightarrow> real_block p b \<and> ref_cnt (blocks p' b) = 0" for b
      using t(2) tr [of b] fs D(4) [of b] D(6) [of b] by (auto simp: p'(5))
    then show "set ?d = {b. real_block p' b \<and> ref_cnt (blocks p' b) = 0}" by (auto simp: rb)
    show "\<forall>b. real_block p' b \<longrightarrow> ref_cnt (blocks p' b) = int (count (H + mset ?t) b)"
      using tr D(6) cnt by (auto simp: rb p'(5))
    show "\<forall>b. b \<in># H + mset ?t \<longrightarrow> real_block p' b" using tr D(7) by (auto simp: rb)
  qed (use c(1) sc q(2) p' in \<open>auto simp: cnt_inv_def same_config_def\<close>)
  then show ?thesis
    using assms(3) D(3) q(1) p'(1,2,5) sc by (auto simp: get_new_blocks_def pool_rep_split)
qed

lemma get_new_blocks_too_many: "pool_rep p fs H \<Longrightarrow> int (length fs) < n \<Longrightarrow> get_new_blocks n p = Inl ValueError"
  using cnt_invD(3) [of p fs H] by (simp add: get_new_blocks_def pool_rep_split)

lemma held_Nil [simp]: "held [] = {#}"
  by (simp add: held_def)

lemma held_Cons: "held (b # bs) = (if b = Blk 0 then held bs else add_mset b (held bs))"
  by (simp add: held_def)

lemma held_append [simp]: "held (xs @ ys) = held xs + held ys"
  by (simp add: held_def)

lemma held_rev [simp]: "held (rev xs) = held xs"
  by (simp add: held_def flip: rev_filter)

lemma remove1_filter: "distinct xs \<Longrightarrow> remove1 x xs = filter (\<lambda>y. y \<noteq> x) xs"
  by (simp add: distinct_remove1_removeAll removeAll_filter_not_eq) (metis)

lemma touch_step_spec:
  assumes "pool_rep p fs H" "real_block p b \<or> b = Blk 0"
  shows "\<exists>p'. touch_step b p = Inr p' \<and> pool_rep p' (filter (\<lambda>c. c \<noteq> b) fs) (H + held [b]) \<and> same_config p p' \<and>
           (\<forall>c. block_hash (blocks p' c) = block_hash (blocks p c))"
proof -
  have c: "cnt_inv p fs H" "hash_inv p" using assms(1) by (simp_all add: pool_rep_split)
  note D = cnt_invD [OF c(1)]
  let ?fs = "filter (\<lambda>c. c \<noteq> b) fs"
  have "\<exists>q. (if ref_cnt (blocks p b) = 0 \<and> \<not> is_null (blocks p b)
             then bindR (remove_block b (free_block_queue p)) (\<lambda>q. Inr (p\<lparr>free_block_queue := q\<rparr>))
             else Inr p) = Inr (p\<lparr>free_block_queue := q\<rparr>) \<and> queue_rep q ?fs"
  proof (cases "ref_cnt (blocks p b) = 0 \<and> \<not> is_null (blocks p b)")
    case True
    then have "b \<in> set fs" using assms(2) D(4,5,6) by auto
    from fq.rem_ok [OF D(1) this] remove1_filter [OF D(2)] True show ?thesis by auto
  next
    case False
    then have "b \<notin> set fs" using D(4) [of b] D(5) [of b] D(6) [of b] real_not_null [of p b] by auto
    then have "?fs = fs" by (simp add: filter_id_conv) metis
    with False D(1) show ?thesis by (intro exI [of _ "free_block_queue p"]) auto
  qed
  then obtain q where q: "touch_step b p = Inr (set_ref_cnt b (ref_cnt (blocks p b) + 1) (p\<lparr>free_block_queue := q\<rparr>))"
    "queue_rep q ?fs" by (auto simp: touch_step_def)
  let ?p = "set_ref_cnt b (ref_cnt (blocks p b) + 1) (p\<lparr>free_block_queue := q\<rparr>)"
  have sc: "same_config p ?p" by simp
  note rb = real_block_config [OF sc]
  have "cnt_inv ?p ?fs (H + held [b])"
    unfolding cnt_inv_def
  proof (intro conjI)
    show "set ?fs = {c. real_block ?p c \<and> ref_cnt (blocks ?p c) = 0}"
      using D(4,6) by (auto simp: rb)
    show "\<forall>c. real_block ?p c \<longrightarrow> ref_cnt (blocks ?p c) = int (count (H + held [b]) c)"
      using D(6) real_not_null by (auto simp: rb held_Cons)
    show "\<forall>c. c \<in># H + held [b] \<longrightarrow> real_block ?p c" using D(7) assms(2) by (auto simp: rb held_Cons split: if_splits)
  qed (use c(1) sc q(2) in \<open>auto simp: cnt_inv_def same_config_def\<close>)
  moreover have "hash_inv ?p" by (rule hash_inv_cong [OF c(2) sc]) simp_all
  ultimately show ?thesis using q(1) sc by (auto simp: pool_rep_split)
qed

lemma touch_spec:
  assumes "pool_rep p fs H" "\<forall>b\<in>set bs. real_block p b \<or> b = Blk 0"
  shows "\<exists>p'. touch bs p = Inr p' \<and> pool_rep p' (filter (\<lambda>c. c \<notin> set bs) fs) (H + held bs) \<and> same_config p p' \<and>
           (\<forall>c. block_hash (blocks p' c) = block_hash (blocks p c))"
  using assms
proof (induction bs arbitrary: p fs H)
  case (Cons b bs)
  from touch_step_spec [OF Cons.prems(1), of b] Cons.prems(2) obtain p1 where
    p1: "touch_step b p = Inr p1" "pool_rep p1 (filter (\<lambda>c. c \<noteq> b) fs) (H + held [b])" "same_config p p1"
      "\<forall>c. block_hash (blocks p1 c) = block_hash (blocks p c)" by auto
  from Cons.IH [OF p1(2)] Cons.prems(2) real_block_config [OF p1(3)] obtain p2 where
    p2: "touch bs p1 = Inr p2" "pool_rep p2 (filter (\<lambda>c. c \<notin> set bs) (filter (\<lambda>c. c \<noteq> b) fs)) (H + held [b] + held bs)"
      "same_config p1 p2" "\<forall>c. block_hash (blocks p2 c) = block_hash (blocks p1 c)" by auto
  have "filter (\<lambda>c. c \<notin> set bs) (filter (\<lambda>c. c \<noteq> b) fs) = filter (\<lambda>c. c \<notin> set (b # bs)) fs"
    by (auto intro: filter_cong)
  moreover have "H + held [b] + held bs = H + held (b # bs)" by (simp add: held_Cons)
  ultimately have "pool_rep p2 (filter (\<lambda>c. c \<notin> set (b # bs)) fs) (H + held (b # bs))" using p2(2) by metis
  then show ?case using p1 p2 same_config_trans [OF p1(3) p2(3)] by (auto simp: touch_def)
qed (simp add: touch_def)

lemma dec_fold:
  "blocks (fold dec_step bs p) c = (blocks p c)\<lparr>ref_cnt := ref_cnt (blocks p c) - int (count (mset bs) c)\<rparr>"
  "free_block_queue (fold dec_step bs p) = free_block_queue p"
  "cached_block_hash_to_block (fold dec_step bs p) = cached_block_hash_to_block p"
  "same_config p' (fold dec_step bs p) = same_config p' p"
  by (induction bs arbitrary: p) (simp_all add: dec_step_def)

lemma free_blocks_spec:
  assumes "pool_rep p fs H" "distinct (filter (\<lambda>b. b \<noteq> Blk 0) bs)" "held bs \<subseteq># H"
  shows "\<exists>p'. free_blocks bs p = Inr p' \<and>
           pool_rep p' (fs @ filter (\<lambda>b. b \<noteq> Blk 0 \<and> count H b = 1) bs) (H - held bs) \<and> same_config p p' \<and>
           (\<forall>c. block_hash (blocks p' c) = block_hash (blocks p c))"
proof -
  have c: "cnt_inv p fs H" "hash_inv p" using assms(1) by (simp_all add: pool_rep_split)
  note D = cnt_invD [OF c(1)]
  let ?p = "fold dec_step bs p" and ?nn = "filter (\<lambda>b. b \<noteq> Blk 0) bs"
  let ?r = "filter (\<lambda>b. b \<noteq> Blk 0 \<and> count H b = 1) bs"
  have sc: "same_config p ?p" by (simp add: dec_fold)
  note rb = real_block_config [OF sc]
  have cn: "count (held bs) b = (if b \<in> set ?nn then 1 else 0)" for b
    using assms(2) by (simp add: held_def distinct_count_atmost_1)
  have nn: "count (mset bs) b = count (held bs) b" if "b \<noteq> Blk 0" for b
    using that by (simp add: held_def)
  have inH: "real_block p b \<and> count H b \<ge> 1" if "b \<in> set ?nn" for b
  proof -
    have "count (held bs) b \<le> count H b" using assms(3) by (rule mset_subset_eq_count)
    then have "count H b \<ge> 1" using cn [of b] that by simp
    then show ?thesis using D(7) [of b] by simp
  qed
  have rc: "ref_cnt (blocks ?p b) = int (count H b) - int (count (held bs) b)" if "real_block p b" for b
    using D(6) [OF that] nn [of b] real_not_null [OF that] by (simp add: dec_fold)
  have flt: "filter (\<lambda>b. ref_cnt (blocks ?p b) = 0 \<and> \<not> is_null (blocks ?p b)) bs = ?r"
  proof (rule filter_cong [OF refl])
    fix b assume b: "b \<in> set bs"
    show "(ref_cnt (blocks ?p b) = 0 \<and> \<not> is_null (blocks ?p b)) = (b \<noteq> Blk 0 \<and> count H b = 1)"
    proof (cases "b = Blk 0")
      case False
      then have "b \<in> set ?nn" using b by simp
      then show ?thesis using rc [of b] inH [of b] cn [of b] D(5) [of b] False by (simp add: dec_fold(1))
    qed (simp add: dec_fold(1) D(5))
  qed
  have "?r = filter (\<lambda>b. count H b = 1) ?nn" by (simp add: conj_commute)
  then have dr: "distinct ?r" using assms(2) by (metis distinct_filter)
  have "set fs \<inter> set ?r = {}" using D(4) by auto
  moreover have "\<forall>y\<in>set ?r. is_blk y" using inH real_is_blk by auto
  ultimately obtain q where q: "append_n ?r (free_block_queue p) = Inr q" "queue_rep q (fs @ ?r)"
    using fq.put_n_ok [OF D(1) dr] by blast
  let ?p' = "?p\<lparr>free_block_queue := q\<rparr>"
  have sc': "same_config p ?p'" using sc by simp
  note rb' = real_block_config [OF sc']
  have "cnt_inv ?p' (fs @ ?r) (H - held bs)"
    unfolding cnt_inv_def
  proof (intro conjI)
    have "b \<in> set (fs @ ?r) \<longleftrightarrow> real_block p b \<and> ref_cnt (blocks ?p b) = 0" for b
      using rc [of b] cn [of b] inH [of b] D(4) [of b] real_not_null [of p b]
      by (cases "b \<in> set bs") (auto simp: count_eq_zero_iff)
    then show "set (fs @ ?r) = {b. real_block ?p' b \<and> ref_cnt (blocks ?p' b) = 0}" unfolding rb' by auto
    have "count (held bs) b \<le> count H b" for b using assms(3) by (rule mset_subset_eq_count)
    then show "\<forall>b. real_block ?p' b \<longrightarrow> ref_cnt (blocks ?p' b) = int (count (H - held bs) b)"
      using rc unfolding rb' by (simp add: of_nat_diff)
    show "\<forall>b. b \<in># H - held bs \<longrightarrow> real_block ?p' b" using D(7) unfolding rb' by (auto dest: in_diffD)
  qed (use c(1) sc' q(2) in \<open>auto simp: cnt_inv_def same_config_def dec_fold\<close>)
  moreover have "hash_inv ?p'" by (rule hash_inv_cong [OF c(2) sc']) (simp_all add: dec_fold)
  moreover have "free_blocks bs p = Inr ?p'" unfolding free_blocks_def Let_def flt 
    by (simp only: dec_fold(2) q(1) bindR_Inr)
  moreover have "block_hash (blocks ?p' b) = block_hash (blocks p b)" for b by (simp add: dec_fold(1))
  ultimately show ?thesis using sc' unfolding pool_rep_split by blast
qed

lemma evict_blocks_spec:
  assumes "pool_rep p fs H" "\<forall>i\<in>set ids. i < num_gpu_blocks p"
  shows "\<exists>p'. evict_blocks ids p = Inr p' \<and> pool_rep p' fs H \<and> same_config p p' \<and>
           (\<forall>b. block_hash (blocks p' b) = (if b \<in> Blk ` set ids then None else block_hash (blocks p b)))"
  using assms
proof (induction ids arbitrary: p)
  case (Cons i ids)
  have c: "cnt_inv p fs H" "hash_inv p" using Cons.prems(1) by (simp_all add: pool_rep_split)
  obtain p1 where p1: "snd (maybe_evict_cached_block (Blk i) p) = p1" "hash_inv p1" "same_config p p1"
    "free_block_queue p1 = free_block_queue p" "blocks p1 = (blocks p)(Blk i := (blocks p (Blk i))\<lparr>block_hash := None\<rparr>)"
    using evict_spec [OF c(2)] by metis
  have "cnt_inv p1 fs H" by (rule cnt_inv_cong [OF c(1) p1(3,4)]) (simp_all add: p1(5))
  then have r1: "pool_rep p1 fs H" using p1(2) by (simp add: pool_rep_split)
  from Cons.IH [OF r1] Cons.prems(2) p1(3) obtain p2 where
    p2: "evict_blocks ids p1 = Inr p2" "pool_rep p2 fs H" "same_config p1 p2"
      "\<forall>b. block_hash (blocks p2 b) = (if b \<in> Blk ` set ids then None else block_hash (blocks p1 b))"
    by (auto simp: same_config_def)
  then show ?case
    using Cons.prems(2) p1(1,3,5) same_config_trans [OF p1(3) p2(3)] by (auto simp: evict_blocks_def evict_step_def)
qed (simp add: evict_blocks_def)

lemma evict_blocks_bad_id:
  "i \<in> set ids \<Longrightarrow> num_gpu_blocks p \<le> i \<Longrightarrow> pool_rep p fs H \<Longrightarrow> evict_blocks ids p = Inl AssertionError"
proof (induction ids arbitrary: p)
  case (Cons j ids)
  show ?case
  proof (cases "j < num_gpu_blocks p")
    case True
    then obtain p1 where "evict_blocks [j] p = Inr p1" "pool_rep p1 fs H" "same_config p p1"
      using evict_blocks_spec [OF Cons.prems(3), of "[j]"] by auto
    moreover have "evict_blocks ids p1 = Inl AssertionError"
      using Cons True calculation by (auto simp: same_config_def)
    ultimately show ?thesis by (auto simp: evict_blocks_def bindR_eq_Inr)
  qed (simp add: evict_blocks_def evict_step_def)
qed simp

lemma reset_fold:
  "blocks (fold (\<lambda>i. set_block_hash (Blk i) None) ids p) b =
     (if b \<in> Blk ` set ids then (blocks p b)\<lparr>block_hash := None\<rparr> else blocks p b)"
  "free_block_queue (fold (\<lambda>i. set_block_hash (Blk i) None) ids p) = free_block_queue p"
  "cached_block_hash_to_block (fold (\<lambda>i. set_block_hash (Blk i) None) ids p) = cached_block_hash_to_block p"
  "same_config p' (fold (\<lambda>i. set_block_hash (Blk i) None) ids p) = same_config p' p"
  by (induction ids arbitrary: p) auto

lemma real_blocks_card: "card {b. real_block p b} = num_gpu_blocks p - 1"
proof -
  have "{b. real_block p b} = Blk ` {0<..<num_gpu_blocks p}" by (auto simp: real_block_def)
  moreover have "card (Blk ` {0<..<num_gpu_blocks p}) = num_gpu_blocks p - 1"
    by (subst card_image) (auto simp: inj_on_def)
  ultimately show ?thesis by simp
qed

lemma real_blocks_finite: "finite {b. real_block p b}"
  by (rule finite_subset [of _ "Blk ` {0<..<num_gpu_blocks p}"]) (auto simp: real_block_def)

lemma free_count: "pool_rep p fs H \<Longrightarrow> length fs = num_gpu_blocks p - 1 - card (set_mset H)"
proof -
  assume "pool_rep p fs H"
  then have c: "cnt_inv p fs H" by (simp add: pool_rep_split)
  note D = cnt_invD [OF c]
  have "set fs = {b. real_block p b} - set_mset H" by (rule set_eqI) (simp add: D(4) count_eq_zero_iff)
  moreover have "set_mset H \<subseteq> {b. real_block p b}" using D(7) by blast
  moreover have "finite (set_mset H)" by simp
  ultimately have "card (set fs) = num_gpu_blocks p - 1 - card (set_mset H)"
    using real_blocks_card [of p] by (simp add: card_Diff_subset)
  then show ?thesis using distinct_card [OF D(2)] by simp
qed

lemma reset_prefix_cache_spec:
  assumes "pool_rep p fs H"
  shows "fst (reset_prefix_cache p) \<longleftrightarrow> H = {#}"
    and "\<not> fst (reset_prefix_cache p) \<Longrightarrow> snd (reset_prefix_cache p) = p"
    and "fst (reset_prefix_cache p) \<Longrightarrow> pool_rep (snd (reset_prefix_cache p)) fs H \<and>
           same_config p (snd (reset_prefix_cache p)) \<and>
           (\<forall>b. block_hash (blocks (snd (reset_prefix_cache p)) b) = None)"
proof -
  have c: "cnt_inv p fs H" "hash_inv p" using assms by (simp_all add: pool_rep_split)
  note D = cnt_invD [OF c(1)]
  have N: "0 < num_gpu_blocks p" using c(1) by (simp add: cnt_inv_def)
  have "set_mset H \<subseteq> {b. real_block p b}" using D(7) by blast
  then have le: "card (set_mset H) \<le> num_gpu_blocks p - 1"
    using real_blocks_card [of p] card_mono [OF real_blocks_finite] by metis
  have iff: "int (num_gpu_blocks p) - get_num_free_blocks p = 1 \<longleftrightarrow> H = {#}"
    using free_count [OF assms] D(3) N le by (auto simp: card_eq_0_iff)
  then show "fst (reset_prefix_cache p) \<longleftrightarrow> H = {#}" by (simp add: reset_prefix_cache_def Let_def)
  show "snd (reset_prefix_cache p) = p" if "\<not> fst (reset_prefix_cache p)"
    using that by (simp add: reset_prefix_cache_def Let_def split: if_splits)
  let ?p = "fold (\<lambda>i. set_block_hash (Blk i) None) [0..<num_gpu_blocks p] (p\<lparr>cached_block_hash_to_block := (\<lambda>_. None)\<rparr>)"
  let ?e = "if enable_kv_cache_events ?p then ?p\<lparr>kv_event_queue := kv_event_queue ?p @ [AllBlocksCleared]\<rparr> else ?p"
  have hN: "block_hash (blocks ?p b) = None" for b
  proof (cases "b \<in> Blk ` set [0..<num_gpu_blocks p]")
    case False
    then have "\<not> real_block p b" by (auto simp: real_block_def)
    then have "block_hash (blocks p b) = None" using c(2) unfolding hash_inv_def by blast
    then show ?thesis by (simp add: reset_fold)
  qed (simp add: reset_fold)
  have sc: "same_config p ?p" by (simp add: reset_fold)
  have "hash_inv ?p" using hN by (simp add: hash_inv_def cache_ok_def reset_fold entry_ok_def entry_blocks_def)
  moreover have "cnt_inv ?p fs H" by (rule cnt_inv_cong [OF c(1) sc]) (simp_all add: reset_fold)
  ultimately have "cnt_inv ?e fs H" "hash_inv ?e"
    by (auto intro: cnt_inv_cong [of ?p] hash_inv_cong [of ?p])
  then have "pool_rep ?e fs H" by (simp add: pool_rep_split)
  then show "pool_rep (snd (reset_prefix_cache p)) fs H \<and> same_config p (snd (reset_prefix_cache p)) \<and>
      (\<forall>b. block_hash (blocks (snd (reset_prefix_cache p)) b) = None)" if "fst (reset_prefix_cache p)"
    using that hN sc by (auto simp: reset_prefix_cache_def Let_def split: if_splits)
qed

section \<open>Caching full blocks\<close>

lemma cache_one_block_spec:
  assumes "hash_inv p" "enable_caching p" "real_block p b" "block_hash (blocks p b) = None"
    and "make_block_hash_with_group_id h gid = Inr k"
  shows "\<exists>p'. cache_one_block gid h b p = Inr p' \<and> hash_inv p' \<and> same_config p p' \<and>
           free_block_queue p' = free_block_queue p \<and> kv_event_queue p' = kv_event_queue p \<and>
           blocks p' = (blocks p)(b := (blocks p b)\<lparr>block_hash := Some k\<rparr>)"
proof -
  let ?p = "(set_block_hash b (Some k) p)\<lparr>cached_block_hash_to_block := map_insert k b (cached_block_hash_to_block p)\<rparr>"
  have "cache_ok (map_insert k b (cached_block_hash_to_block p)) ((\<lambda>c. block_hash (blocks p c))(b := Some k))"
    using bix.ins_rep [of _ "\<lambda>c. block_hash (blocks p c)" b k] assms real_is_blk by (simp add: hash_inv_def)
  moreover have "(\<lambda>c. block_hash (blocks ?p c)) = (\<lambda>c. block_hash (blocks p c))(b := Some k)" by auto
  moreover have sc: "same_config p ?p" by simp
  ultimately have "hash_inv ?p"
    using assms real_block_config [OF sc] by (auto simp: hash_inv_def same_config_def)
  then show ?thesis using assms sc by (auto simp: cache_one_block_def Let_def set_block_hash_def)
qed

lemma cache_loop_spec:
  assumes "hash_inv p" "enable_caching p" "\<forall>b. is_null (blocks p b) \<longleftrightarrow> b = Blk 0"
    and "distinct (filter (\<lambda>b. b \<noteq> Blk 0) bs)"
    and "\<forall>b\<in>set bs. b \<noteq> Blk 0 \<longrightarrow> real_block p b \<and> block_hash (blocks p b) = None"
    and "i + length bs \<le> length hs" "0 \<le> gid" "gid < 2 ^ 32"
  shows "\<exists>p' ext. cache_loop hs gid i bs (p, acc) = Inr (p', ext) \<and> hash_inv p' \<and> same_config p p' \<and>
     free_block_queue p' = free_block_queue p \<and> kv_event_queue p' = kv_event_queue p \<and>
     (\<forall>b. ref_cnt (blocks p' b) = ref_cnt (blocks p b) \<and> is_null (blocks p' b) = is_null (blocks p b)) \<and>
     (\<forall>b. b \<notin> set bs \<or> b = Blk 0 \<longrightarrow> block_hash (blocks p' b) = block_hash (blocks p b)) \<and>
     (\<forall>j<length bs. bs ! j \<noteq> Blk 0 \<longrightarrow>
        (\<exists>k. make_block_hash_with_group_id (hs ! (i + j)) gid = Inr k \<and> block_hash (blocks p' (bs ! j)) = Some k))"
  using assms(1-6)
proof (induction bs arbitrary: p i acc)
  case (Cons b bs)
  show ?case
  proof (cases "b = Blk 0")
    case True
    from Cons.IH [of p "Suc i" acc] Cons.prems True obtain p' ext where
      r: "cache_loop hs gid (Suc i) bs (p, acc) = Inr (p', ext)" "hash_inv p'" "same_config p p'"
        "free_block_queue p' = free_block_queue p" "kv_event_queue p' = kv_event_queue p"
        "\<forall>b. ref_cnt (blocks p' b) = ref_cnt (blocks p b) \<and> is_null (blocks p' b) = is_null (blocks p b)"
        "\<forall>b. b \<notin> set bs \<or> b = Blk 0 \<longrightarrow> block_hash (blocks p' b) = block_hash (blocks p b)"
        "\<forall>j<length bs. bs ! j \<noteq> Blk 0 \<longrightarrow> (\<exists>k. make_block_hash_with_group_id (hs ! (Suc i + j)) gid = Inr k \<and> block_hash (blocks p' (bs ! j)) = Some k)"
      by fastforce
    have "cache_loop hs gid i (b # bs) (p, acc) = Inr (p', ext)" using r(1) True Cons.prems(3) by simp
    moreover have "\<forall>j<length (b # bs). (b # bs) ! j \<noteq> Blk 0 \<longrightarrow>
        (\<exists>k. make_block_hash_with_group_id (hs ! (i + j)) gid = Inr k \<and> block_hash (blocks p' ((b # bs) ! j)) = Some k)"
      using r(8) True by (auto simp: nth_Cons split: nat.splits)
    moreover have "\<forall>c. c \<notin> set (b # bs) \<or> c = Blk 0 \<longrightarrow> block_hash (blocks p' c) = block_hash (blocks p c)"
      using r(7) by auto
    ultimately show ?thesis using r(2-6) by blast
  next
    case False
    obtain k where k: "make_block_hash_with_group_id (hs ! i) gid = Inr k"
      using make_group_key_ok [of "hs ! i" gid] assms(7,8) by (auto simp: is_ok_iff)
    have b: "real_block p b" "block_hash (blocks p b) = None" "b \<notin> set bs" "i < length hs"
      using Cons.prems(4,5,6) False by auto
    from cache_one_block_spec [OF Cons.prems(1,2) b(1,2) k] obtain p1 where
      p1: "cache_one_block gid (hs ! i) b p = Inr p1" "hash_inv p1" "same_config p p1"
        "free_block_queue p1 = free_block_queue p" "kv_event_queue p1 = kv_event_queue p"
        "blocks p1 = (blocks p)(b := (blocks p b)\<lparr>block_hash := Some k\<rparr>)" by blast
    have pre: "enable_caching p1" "\<forall>c. is_null (blocks p1 c) \<longleftrightarrow> c = Blk 0" "distinct (filter (\<lambda>b. b \<noteq> Blk 0) bs)"
      "\<forall>c\<in>set bs. c \<noteq> Blk 0 \<longrightarrow> real_block p1 c \<and> block_hash (blocks p1 c) = None" "Suc i + length bs \<le> length hs"
      using Cons.prems p1(3,6) b(3) False real_block_config [OF p1(3)] by (auto simp: same_config_def)
    let ?acc = "acc @ [maybe_convert_block_hash (use_int_block_hashes p) (hs ! i)]"
    from Cons.IH [OF p1(2) pre, of ?acc] obtain p' ext where
      r: "cache_loop hs gid (Suc i) bs (p1, ?acc) = Inr (p', ext)" "hash_inv p'" "same_config p1 p'"
        "free_block_queue p' = free_block_queue p1" "kv_event_queue p' = kv_event_queue p1"
        "\<forall>b. ref_cnt (blocks p' b) = ref_cnt (blocks p1 b) \<and> is_null (blocks p' b) = is_null (blocks p1 b)"
        "\<forall>b. b \<notin> set bs \<or> b = Blk 0 \<longrightarrow> block_hash (blocks p' b) = block_hash (blocks p1 b)"
        "\<forall>j<length bs. bs ! j \<noteq> Blk 0 \<longrightarrow> (\<exists>k. make_block_hash_with_group_id (hs ! (Suc i + j)) gid = Inr k \<and> block_hash (blocks p' (bs ! j)) = Some k)"
      by blast
    have "cache_loop hs gid i (b # bs) (p, acc) = Inr (p', ext)"
      using r(1) False Cons.prems(3) b p1(1) by simp
    moreover have "\<forall>j<length (b # bs). (b # bs) ! j \<noteq> Blk 0 \<longrightarrow>
        (\<exists>k. make_block_hash_with_group_id (hs ! (i + j)) gid = Inr k \<and> block_hash (blocks p' ((b # bs) ! j)) = Some k)"
      using r(7,8) b(3) k p1(6) by (auto simp: nth_Cons split: nat.splits)
    moreover have "\<forall>c. c \<notin> set (b # bs) \<or> c = Blk 0 \<longrightarrow> block_hash (blocks p' c) = block_hash (blocks p c)"
      using r(7) p1(6) False by auto
    moreover have "\<forall>c. ref_cnt (blocks p' c) = ref_cnt (blocks p c) \<and> is_null (blocks p' c) = is_null (blocks p c)"
      using r(6) p1(6) by auto
    ultimately show ?thesis using r(2-5) p1(4,5) same_config_trans [OF p1(3) r(3)] by auto
  qed
qed simp

text \<open>Generating extra keys never raises from a non-negative multi-modal index.\<close>

lemma extra_keys_ok:
  assumes "0 \<le> x"
  shows "\<exists>ks y r'. generate_block_hash_extra_keys env r s e x = Inr (ks, y, r') \<and> 0 \<le> y"
proof -
  have "\<exists>ks y. gen_mm_extra_hash_keys r (int s) (int e) x = Inr (ks, y) \<and> 0 \<le> y"
    using assms by (auto simp: gen_mm_extra_hash_keys_def Let_def split: prod.splits)
  then obtain ks y where "gen_mm_extra_hash_keys r (int s) (int e) x = Inr (ks, y)" "0 \<le> y" by blast
  then show ?thesis by (auto simp: generate_block_hash_extra_keys_def Let_def split: prod.splits)
qed

lemma stored_event_ok:
  assumes "num_full_blocks \<le> length bs" "num_cached_blocks = 0 \<or> is_ok (bhl_get bhl (num_cached_blocks - 1))"
  shows "\<exists>ev r'. stored_event env r bs num_cached_blocks num_full_blocks block_size bhl new_hashes p =
           Inr (p\<lparr>kv_event_queue := kv_event_queue p @ [BlockStored ev]\<rparr>, r')"
proof -
  have "\<exists>st. foldR (extra_keys_step env p bs block_size) [num_cached_blocks..<num_full_blocks] ([], 0, r) = Inr st \<and> 0 \<le> fst (snd st)"
  proof (rule foldR_total)
    fix i and st :: "py_key list option list \<times> int \<times> request"
    assume "i \<in> set [num_cached_blocks..<num_full_blocks]" "0 \<le> fst (snd st)"
    moreover obtain ks x r1 where "st = (ks, x, r1)" by (cases st)
    ultimately show "\<exists>s'. extra_keys_step env p bs block_size i st = Inr s' \<and> 0 \<le> fst (snd s')"
      using assms(1) extra_keys_ok [of x env r1 "i * block_size" "i * block_size + block_size"]
      by (auto simp: extra_keys_step_def)
  qed simp
  moreover have "is_ok (if num_cached_blocks = 0 then Inr None
            else bindR (bhl_get bhl (num_cached_blocks - 1))
                   (\<lambda>h. Inr (Some (maybe_convert_block_hash (use_int_block_hashes p) h))))"
    using assms(2) by (auto simp: is_ok_iff)
  ultimately show ?thesis by (auto simp: stored_event_def is_ok_iff split: prod.splits)
qed

lemma cache_full_blocks_spec:
  assumes "pool_rep p fs H" "enable_caching p"
    and "num_full_blocks \<le> length bs" "num_full_blocks \<le> length (block_hashes r)"
    and "distinct (filter (\<lambda>b. b \<noteq> Blk 0) (py_slice num_cached_blocks num_full_blocks bs))"
    and "\<forall>b\<in>set (py_slice num_cached_blocks num_full_blocks bs). b \<noteq> Blk 0 \<longrightarrow>
           real_block p b \<and> block_hash (blocks p b) = None"
    and "hashes_at_size (block_hashes r) (hash_block_size p) block_size = Inr bhl"
    and "bhl_from bhl num_cached_blocks = Inr hs" "num_full_blocks \<le> num_cached_blocks + length hs"
    and "num_cached_blocks = 0 \<or> is_ok (bhl_get bhl (num_cached_blocks - 1))"
    and "0 \<le> gid" "gid < 2 ^ 32"
  shows "\<exists>p' r'. cache_full_blocks env r bs num_cached_blocks num_full_blocks block_size gid p = Inr (p', r') \<and>
     pool_rep p' fs H \<and> same_config p p' \<and>
     (\<forall>b. b \<notin> set (py_slice num_cached_blocks num_full_blocks bs) \<longrightarrow> block_hash (blocks p' b) = block_hash (blocks p b)) \<and>
     (\<forall>j. num_cached_blocks \<le> j \<longrightarrow> j < num_full_blocks \<longrightarrow> bs ! j \<noteq> Blk 0 \<longrightarrow>
        (\<exists>k. make_block_hash_with_group_id (hs ! (j - num_cached_blocks)) gid = Inr k \<and> block_hash (blocks p' (bs ! j)) = Some k))"
proof (cases "num_cached_blocks \<ge> num_full_blocks")
  case True
  then show ?thesis using assms(1) by (auto simp: cache_full_blocks_def)
next
  case False
  let ?nb = "py_slice num_cached_blocks num_full_blocks bs"
  have c: "cnt_inv p fs H" "hash_inv p" using assms(1) by (simp_all add: pool_rep_split)
  have nl: "\<forall>b. is_null (blocks p b) \<longleftrightarrow> b = Blk 0" using c(1) by (simp add: cnt_inv_def)
  have len: "0 + length ?nb \<le> length hs" using assms(3,9) by simp
  from cache_loop_spec [OF c(2) assms(2) nl assms(5,6) len assms(11,12), of "[]"] obtain p1 ext where
    p1: "cache_loop hs gid 0 ?nb (p, []) = Inr (p1, ext)" "hash_inv p1" "same_config p p1"
      "free_block_queue p1 = free_block_queue p" "kv_event_queue p1 = kv_event_queue p"
      "\<forall>b. ref_cnt (blocks p1 b) = ref_cnt (blocks p b) \<and> is_null (blocks p1 b) = is_null (blocks p b)"
      "\<forall>b. b \<notin> set ?nb \<or> b = Blk 0 \<longrightarrow> block_hash (blocks p1 b) = block_hash (blocks p b)"
      "\<forall>j<length ?nb. ?nb ! j \<noteq> Blk 0 \<longrightarrow> (\<exists>k. make_block_hash_with_group_id (hs ! (0 + j)) gid = Inr k \<and> block_hash (blocks p1 (?nb ! j)) = Some k)"
    by blast
  have rep1: "pool_rep p1 fs H" using cnt_inv_cong [OF c(1) p1(3,4)] p1(2,6) by (simp add: pool_rep_split)
  have keys: "\<exists>k. make_block_hash_with_group_id (hs ! (j - num_cached_blocks)) gid = Inr k \<and> block_hash (blocks p1 (bs ! j)) = Some k"
    if "num_cached_blocks \<le> j" "j < num_full_blocks" "bs ! j \<noteq> Blk 0" for j
    using p1(8) [rule_format, of "j - num_cached_blocks"] that assms(3) by (simp add: py_slice_nth)
  obtain ev r' where ev: "stored_event env r bs num_cached_blocks num_full_blocks block_size bhl ext p1 =
      Inr (p1\<lparr>kv_event_queue := kv_event_queue p1 @ [BlockStored ev]\<rparr>, r')"
    using stored_event_ok [OF assms(3,10)] by blast
  let ?p = "if enable_kv_cache_events p1 then p1\<lparr>kv_event_queue := kv_event_queue p1 @ [BlockStored ev]\<rparr> else p1"
  have "\<exists>r'. cache_full_blocks env r bs num_cached_blocks num_full_blocks block_size gid p = Inr (?p, r')"
    using False assms(4,7,8) p1(1) ev by (simp add: cache_full_blocks_def Let_def)
  moreover have "pool_rep ?p fs H"
    using rep1 by (auto simp: pool_rep_split intro: cnt_inv_cong [of p1] hash_inv_cong [of p1])
  ultimately show ?thesis using p1(3,7) keys by (cases "enable_kv_cache_events p1") auto
qed

lemma cache_loop_inv:
  assumes "cache_loop hs gid i bs (p, acc) = Inr (p', ext)" "hash_inv p" "enable_caching p"
    and "\<forall>b\<in>set bs. real_block p b \<or> is_null (blocks p b)"
  shows "hash_inv p' \<and> same_config p p' \<and> free_block_queue p' = free_block_queue p \<and>
     (\<forall>b. ref_cnt (blocks p' b) = ref_cnt (blocks p b) \<and> is_null (blocks p' b) = is_null (blocks p b))"
  using assms
proof (induction bs arbitrary: p i acc)
  case (Cons b bs)
  show ?case
  proof (cases "is_null (blocks p b)")
    case True
    with Cons show ?thesis by simp
  next
    case False
    with Cons.prems obtain h k where h: "block_hash (blocks p b) = None" "py_get hs (int i) = Inr h"
      "make_block_hash_with_group_id h gid = Inr k" "real_block p b"
      by (auto simp: bindR_eq_Inr cache_one_block_def)
    from cache_one_block_spec [OF Cons.prems(2,3) h(4,1,3)] obtain p1 where
      p1: "cache_one_block gid h b p = Inr p1" "hash_inv p1" "same_config p p1"
        "free_block_queue p1 = free_block_queue p" "blocks p1 = (blocks p)(b := (blocks p b)\<lparr>block_hash := Some k\<rparr>)"
      by blast
    have "cache_loop hs gid (Suc i) bs (p1, acc @ [maybe_convert_block_hash (use_int_block_hashes p) h]) = Inr (p', ext)"
      using Cons.prems(1) False h p1(1) by simp
    moreover have "enable_caching p1" "\<forall>c\<in>set bs. real_block p1 c \<or> is_null (blocks p1 c)"
      using Cons.prems(3,4) p1(3,5) real_block_config [OF p1(3)] by (auto simp: same_config_def)
    ultimately show ?thesis using Cons.IH [of "Suc i" p1] p1 same_config_trans [OF p1(3)] by auto
  qed
qed simp

lemma cache_full_blocks_inv:
  assumes "cache_full_blocks env r bs nc nf block_size gid p = Inr (p', r')" "pool_rep p fs H" "enable_caching p"
    and "\<forall>b\<in>set bs. real_block p b \<or> b = Blk 0"
  shows "pool_rep p' fs H \<and> same_config p p'"
proof (cases "nc \<ge> nf")
  case True
  with assms(1,2) show ?thesis by (simp add: cache_full_blocks_def)
next
  case False
  have c: "cnt_inv p fs H" "hash_inv p" using assms(2) by (simp_all add: pool_rep_split)
  have "\<forall>b\<in>set (py_slice nc nf bs). real_block p b \<or> is_null (blocks p b)"
    using assms(4) cnt_invD(5) [OF c(1)] by (auto simp: py_slice_def dest: in_set_dropD in_set_takeD)
  moreover obtain hs p1 ext where p1: "cache_loop hs gid 0 (py_slice nc nf bs) (p, []) = Inr (p1, ext)"
    "p' = p1 \<or> (\<exists>ev. p' = p1\<lparr>kv_event_queue := ev\<rparr>)"
    using assms(1) False by (auto simp: cache_full_blocks_def Let_def bindR_eq_Inr stored_event_def split: if_splits)
  ultimately have *: "hash_inv p1" "same_config p p1" "free_block_queue p1 = free_block_queue p"
     "\<forall>b. ref_cnt (blocks p1 b) = ref_cnt (blocks p b) \<and> is_null (blocks p1 b) = is_null (blocks p b)"
    using cache_loop_inv [OF _ c(2) assms(3)] by metis+
  then have "cnt_inv p1 fs H" using cnt_inv_cong [OF c(1)] by simp
  with *(1,2) p1(2) show ?thesis
    by (auto simp: pool_rep_split intro: cnt_inv_cong [of p1] hash_inv_cong [of p1])
qed

section \<open>Construction and lookup\<close>

lemma new_block_pool_spec:
  assumes "0 < n"
  shows "\<exists>p. new_block_pool n caching hbs events use_int = Inr p \<and> pool_rep p (map Blk [1..<nat n]) {#} \<and>
           num_gpu_blocks p = nat n \<and> enable_caching p = caching \<and> hash_block_size p = hbs"
proof -
  have u: "[0..<nat n] = 0 # [1..<nat n]" using assms by (simp add: upt_conv_Cons)
  from new_free_queue_dll [of "[0..<nat n]"] have "dll (new_free_queue (map Blk [0..<nat n])) (0 # [1..<nat n])" by (simp add: u)
  from popleft_Cons [OF this] obtain q where q: "popleft (new_free_queue (map Blk [0..<nat n])) = Inr (Blk 0, q)"
    "dll q [1..<nat n]" by blast
  let ?p = "\<lparr>num_gpu_blocks = nat n, enable_caching = caching, hash_block_size = hbs,
             blocks = (\<lambda>_. fresh_block)(Blk 0 := fresh_block\<lparr>is_null := True\<rparr>),
             free_block_queue = q, cached_block_hash_to_block = (\<lambda>_. None), null_block = Blk 0,
             enable_kv_cache_events = events, use_int_block_hashes = use_int, kv_event_queue = []\<rparr>"
  have "new_block_pool n caching hbs events use_int = Inr ?p" using assms q(1) by (simp add: new_block_pool_def Let_def)
  moreover have "pool_rep ?p (map Blk [1..<nat n]) {#}"
    unfolding pool_rep_def using assms q(2)
    by (auto simp: queue_rep_def real_block_def fresh_block_def cache_ok_def entry_ok_def entry_blocks_def)
  ultimately show ?thesis by simp
qed

text \<open>A lookup hits exactly when every group has a block cached under the hash, and then
  returns one such block per group.\<close>

lemma cached_for_groups_spec:
  assumes "pool_rep p fs H" "\<forall>g\<in>set gs. 0 \<le> g \<and> g < 2 ^ 32"
  shows "\<exists>res. cached_for_groups p h gs acc = Inr res \<and>
     (case res of
        None \<Rightarrow> (\<exists>g\<in>set gs. \<exists>k. make_block_hash_with_group_id h g = Inr k \<and> (\<forall>b. block_hash (blocks p b) \<noteq> Some k))
      | Some bs \<Rightarrow> (\<exists>cs. bs = acc @ cs \<and> list_all2 (\<lambda>g b. \<exists>k. make_block_hash_with_group_id h g = Inr k \<and>
            block_hash (blocks p b) = Some k \<and> real_block p b) gs cs))"
  using assms(2)
proof (induction gs arbitrary: acc)
  case (Cons g gs)
  have ok: "cache_ok (cached_block_hash_to_block p) (\<lambda>b. block_hash (blocks p b))"
    and rb: "\<forall>b. block_hash (blocks p b) \<noteq> None \<longrightarrow> real_block p b" using assms(1) by (simp_all add: pool_rep_def)
  obtain k where k: "make_block_hash_with_group_id h g = Inr k"
    using make_group_key_ok [of h g] Cons.prems by (auto simp: is_ok_iff)
  show ?case
  proof (cases "get_one_block (cached_block_hash_to_block p) k")
    case None
    then show ?thesis using bix.look_None [OF ok, of k] k by auto
  next
    case (Some b)
    then have b: "block_hash (blocks p b) = Some k" "real_block p b" using bix.look_Some [OF ok] rb by auto
    from Cons.IH [of "acc @ [b]"] Cons.prems obtain res where
      r: "cached_for_groups p h gs (acc @ [b]) = Inr res"
      "case res of
        None \<Rightarrow> (\<exists>g\<in>set gs. \<exists>k. make_block_hash_with_group_id h g = Inr k \<and> (\<forall>b. block_hash (blocks p b) \<noteq> Some k))
      | Some bs \<Rightarrow> (\<exists>cs. bs = (acc @ [b]) @ cs \<and> list_all2 (\<lambda>g b. \<exists>k. make_block_hash_with_group_id h g = Inr k \<and>
            block_hash (blocks p b) = Some k \<and> real_block p b) gs cs)" by auto
    then show ?thesis using k Some b by (cases res) auto
  qed
qed simp

section \<open>The contract of a reference-counted pool\<close>

text \<open>
  What the managers of the block tables rely on: the pool accounts for the multiset of
  references they hold, and what is available is the capacity minus the distinct blocks
  referenced.
\<close>

locale ref_pool =
  fixes inv :: "'p \<Rightarrow> 'b multiset \<Rightarrow> bool"
    and null :: 'b
    and valid :: "'p \<Rightarrow> 'b \<Rightarrow> bool"
    and cap :: "'p \<Rightarrow> int"
    and avail :: "'p \<Rightarrow> int"
    and get :: "int \<Rightarrow> 'p \<Rightarrow> ('b list \<times> 'p) res"
    and tch :: "'b list \<Rightarrow> 'p \<Rightarrow> 'p res"
    and rel :: "'b list \<Rightarrow> 'p \<Rightarrow> 'p res"
    and same :: "'p \<Rightarrow> 'p \<Rightarrow> bool"
  assumes avail_eq: "inv p H \<Longrightarrow> avail p = cap p - int (card (set_mset H))"
    and get_ok: "inv p H \<Longrightarrow> 0 \<le> n \<Longrightarrow> n \<le> avail p \<Longrightarrow>
          \<exists>bs p'. get n p = Inr (bs, p') \<and> length bs = nat n \<and> distinct bs \<and> set bs \<inter> set_mset H = {} \<and>
            (\<forall>b\<in>set bs. b \<noteq> null \<and> valid p b) \<and> inv p' (H + mset bs) \<and> cap p' = cap p \<and> valid p' = valid p \<and> same p p'"
    and get_err: "inv p H \<Longrightarrow> avail p < n \<Longrightarrow> get n p = Inl ValueError"
    and tch_ok: "inv p H \<Longrightarrow> \<forall>b\<in>set bs. valid p b \<or> b = null \<Longrightarrow>
          \<exists>p'. tch bs p = Inr p' \<and> inv p' (H + mset (filter (\<lambda>b. b \<noteq> null) bs)) \<and> cap p' = cap p \<and> valid p' = valid p \<and> same p p'"
    and rel_ok: "inv p H \<Longrightarrow> distinct (filter (\<lambda>b. b \<noteq> null) bs) \<Longrightarrow> mset (filter (\<lambda>b. b \<noteq> null) bs) \<subseteq># H \<Longrightarrow>
          \<exists>p'. rel bs p = Inr p' \<and> inv p' (H - mset (filter (\<lambda>b. b \<noteq> null) bs)) \<and> cap p' = cap p \<and> valid p' = valid p \<and> same p p'"
begin

text \<open>Nothing is lost: blocks that are allocated and then released are available again.\<close>

lemma get_then_rel:
  assumes "inv p H" "0 \<le> n" "n \<le> avail p"
  shows "\<exists>bs p1 p2. get n p = Inr (bs, p1) \<and> rel (rev bs) p1 = Inr p2 \<and> inv p2 H \<and> avail p2 = avail p"
proof -
  obtain bs p1 where g: "get n p = Inr (bs, p1)" "distinct bs" "\<forall>b\<in>set bs. b \<noteq> null \<and> valid p b"
    "inv p1 (H + mset bs)" "cap p1 = cap p" using get_ok [OF assms] by blast
  have f: "filter (\<lambda>b. b \<noteq> null) (rev bs) = rev bs" using g(3) by (simp add: filter_id_conv)
  obtain p2 where p2: "rel (rev bs) p1 = Inr p2" "inv p2 (H + mset bs - mset (rev bs))" "cap p2 = cap p1"
    using rel_ok [OF g(4), of "rev bs"] g(2) unfolding f by auto
  then have "inv p2 H" by simp
  then show ?thesis using g(1,5) p2 avail_eq [OF assms(1)] avail_eq [of p2 H] by auto
qed

lemma tch_then_rel:
  assumes "inv p H" "\<forall>b\<in>set bs. valid p b \<or> b = null" "distinct (filter (\<lambda>b. b \<noteq> null) bs)"
  shows "\<exists>p1 p2. tch bs p = Inr p1 \<and> rel bs p1 = Inr p2 \<and> inv p2 H \<and> avail p2 = avail p"
proof -
  let ?m = "mset (filter (\<lambda>b. b \<noteq> null) bs)"
  obtain p1 where p1: "tch bs p = Inr p1" "inv p1 (H + ?m)" "cap p1 = cap p" using tch_ok [OF assms(1,2)] by blast
  obtain p2 where p2: "rel bs p1 = Inr p2" "inv p2 (H + ?m - ?m)" "cap p2 = cap p1"
    using rel_ok [OF p1(2) assms(3)] by auto
  then have "inv p2 H" by simp
  then show ?thesis using p1 p2 avail_eq [OF assms(1)] avail_eq [of p2 H] by auto
qed

end

definition pool_cap :: "block_pool \<Rightarrow> int" where
  "pool_cap p = int (num_gpu_blocks p) - 1"

lemma pool_avail: "pool_inv p H \<Longrightarrow> get_num_free_blocks p = pool_cap p - int (card (set_mset H))"
proof -
  assume "pool_inv p H"
  then obtain fs where r: "pool_rep p fs H" by (auto simp: pool_inv_def)
  then have c: "cnt_inv p fs H" by (simp add: pool_rep_split)
  have "set_mset H \<subseteq> {b. real_block p b}" using cnt_invD(7) [OF c] by blast
  then have "card (set_mset H) \<le> num_gpu_blocks p - 1"
    using real_blocks_card [of p] card_mono [OF real_blocks_finite] by metis
  moreover have "0 < num_gpu_blocks p" using c by (simp add: cnt_inv_def)
  ultimately show ?thesis using free_count [OF r] cnt_invD(3) [OF c] by (simp add: pool_cap_def)
qed

lemma same_config_cap: "same_config p p' \<Longrightarrow> pool_cap p' = pool_cap p"
  by (simp add: same_config_def pool_cap_def)

interpretation bp: ref_pool pool_inv "Blk 0" real_block pool_cap get_num_free_blocks get_new_blocks touch free_blocks same_config
proof unfold_locales
  fix p H assume inv: "pool_inv p H"
  then obtain fs where r: "pool_rep p fs H" by (auto simp: pool_inv_def)
  then have c: "cnt_inv p fs H" by (simp add: pool_rep_split)
  note D = cnt_invD [OF c]
  show "get_num_free_blocks p = pool_cap p - int (card (set_mset H))" by (rule pool_avail [OF inv])
  show "get_new_blocks n p = Inl ValueError" if "get_num_free_blocks p < n" for n
    using get_new_blocks_too_many [OF r] that D(3) by simp
  show "\<exists>bs p'. get_new_blocks n p = Inr (bs, p') \<and> length bs = nat n \<and> distinct bs \<and> set bs \<inter> set_mset H = {} \<and>
      (\<forall>b\<in>set bs. b \<noteq> Blk 0 \<and> real_block p b) \<and> pool_inv p' (H + mset bs) \<and> pool_cap p' = pool_cap p \<and> real_block p' = real_block p \<and> same_config p p'"
    if n: "0 \<le> n" "n \<le> get_num_free_blocks p" for n
  proof -
    from get_new_blocks_spec [OF r n(1)] n(2) D(3) obtain p' where
      p': "get_new_blocks n p = Inr (take (nat n) fs, p')" "pool_rep p' (drop (nat n) fs) (H + mset (take (nat n) fs))"
        "same_config p p'" by auto
    have "b \<in> set fs" if "b \<in> set (take (nat n) fs)" for b using that by (rule in_set_takeD)
    then have "real_block p b \<and> count H b = 0 \<and> b \<noteq> Blk 0" if "b \<in> set (take (nat n) fs)" for b
      using that D(4) [of b] real_not_null [of p b] by blast
    then show ?thesis
      using p' D(2,3) n real_block_config [OF p'(3)] same_config_cap [OF p'(3)]
      by (intro exI [of _ "take (nat n) fs"] exI [of _ p']) (auto simp: pool_inv_def count_eq_zero_iff)
  qed
  show "\<exists>p'. touch bs p = Inr p' \<and> pool_inv p' (H + mset (filter (\<lambda>b. b \<noteq> Blk 0) bs)) \<and> pool_cap p' = pool_cap p \<and>
      real_block p' = real_block p \<and> same_config p p'" if "\<forall>b\<in>set bs. real_block p b \<or> b = Blk 0" for bs
    using touch_spec [OF r that] real_block_config same_config_cap unfolding pool_inv_def held_def by blast
  show "\<exists>p'. free_blocks bs p = Inr p' \<and> pool_inv p' (H - mset (filter (\<lambda>b. b \<noteq> Blk 0) bs)) \<and> pool_cap p' = pool_cap p \<and>
      real_block p' = real_block p \<and> same_config p p'"
    if "distinct (filter (\<lambda>b. b \<noteq> Blk 0) bs)" "mset (filter (\<lambda>b. b \<noteq> Blk 0) bs) \<subseteq># H" for bs
    using free_blocks_spec [OF r, of bs] that real_block_config same_config_cap unfolding pool_inv_def held_def by blast
qed

section \<open>Runs of the pool\<close>

text \<open>
  The pool as a transition system over the pool and the references its clients hold. A client
  touches or caches only blocks of the pool or the null block, frees each block of a table
  once and only references it holds; these are the guards of the steps.
\<close>

inductive pool_step :: "block_pool \<times> block_ref multiset \<Rightarrow> block_pool \<times> block_ref multiset \<Rightarrow> bool" where
  step_alloc: "0 \<le> n \<Longrightarrow> get_new_blocks n p = Inr (bs, p') \<Longrightarrow> pool_step (p, H) (p', H + mset bs)"
| step_touch: "\<forall>b\<in>set bs. real_block p b \<or> b = Blk 0 \<Longrightarrow> touch bs p = Inr p' \<Longrightarrow> pool_step (p, H) (p', H + held bs)"
| step_free: "distinct (filter (\<lambda>b. b \<noteq> Blk 0) bs) \<Longrightarrow> held bs \<subseteq># H \<Longrightarrow> free_blocks bs p = Inr p' \<Longrightarrow>
    pool_step (p, H) (p', H - held bs)"
| step_cache: "enable_caching p \<Longrightarrow> \<forall>b\<in>set bs. real_block p b \<or> b = Blk 0 \<Longrightarrow>
    cache_full_blocks env r bs nc nf block_size gid p = Inr (p', r') \<Longrightarrow> pool_step (p, H) (p', H)"
| step_evict: "evict_blocks ids p = Inr p' \<Longrightarrow> pool_step (p, H) (p', H)"
| step_reset: "pool_step (p, H) (snd (reset_prefix_cache p), H)"
| step_events: "pool_step (p, H) (snd (pool_take_events p), H)"

inductive pool_reach :: "block_pool \<times> block_ref multiset \<Rightarrow> bool" where
  reach_init: "new_block_pool n caching hbs events use_int = Inr p \<Longrightarrow> pool_reach (p, {#})"
| reach_step: "pool_reach s \<Longrightarrow> pool_step s s' \<Longrightarrow> pool_reach s'"

inductive_cases pool_stepE: "pool_step (p, H) s'"

lemma evict_blocks_inv: "evict_blocks ids p = Inr p' \<Longrightarrow> pool_rep p fs H \<Longrightarrow> pool_rep p' fs H"
proof -
  assume e: "evict_blocks ids p = Inr p'" and r: "pool_rep p fs H"
  have "\<forall>i\<in>set ids. i < num_gpu_blocks p"
  proof (rule ccontr)
    assume "\<not> (\<forall>i\<in>set ids. i < num_gpu_blocks p)"
    then obtain i where "i \<in> set ids" "num_gpu_blocks p \<le> i" by auto
    from evict_blocks_bad_id [OF this r] e show False by simp
  qed
  from evict_blocks_spec [OF r this] e show ?thesis by auto
qed

lemma take_events_inv: "pool_rep p fs H \<Longrightarrow> pool_rep (snd (pool_take_events p)) fs H"
  by (auto simp: pool_take_events_def pool_rep_split intro: cnt_inv_cong [of p] hash_inv_cong [of p])

lemma pool_step_inv: "pool_step s s' \<Longrightarrow> pool_inv (fst s) (snd s) \<Longrightarrow> pool_inv (fst s') (snd s')"
proof (induction rule: pool_step.induct)
  case (step_alloc n p bs p' H)
  then have "n \<le> get_num_free_blocks p" by (auto simp: get_new_blocks_def split: if_splits)
  then show ?case using bp.get_ok [of p H n] step_alloc by auto
next
  case (step_touch bs p p' H)
  then show ?case using bp.tch_ok [of p H bs] by (auto simp: held_def)
next
  case (step_free bs H p p')
  then show ?case using bp.rel_ok [of p H bs] by (auto simp: held_def)
next
  case (step_cache p bs env r nc nf block_size gid p' r' H)
  then show ?case using cache_full_blocks_inv [OF step_cache(3) _ step_cache(1,2)] unfolding pool_inv_def by auto
next
  case (step_evict ids p p' H)
  then show ?case using evict_blocks_inv [OF step_evict(1)] unfolding pool_inv_def by auto
next
  case (step_reset p H)
  then obtain fs where "pool_rep p fs H" by (auto simp: pool_inv_def)
  then show ?case using reset_prefix_cache_spec(2,3) unfolding pool_inv_def by (metis fst_conv snd_conv)
next
  case (step_events p H)
  then show ?case using take_events_inv unfolding pool_inv_def by auto
qed

section \<open>Properties\<close>

text \<open>(C15) In every state reachable from a new pool by allocating, touching, freeing, caching,
  evicting, resetting and taking events, the pool is consistent: the free queue is a
  well-linked list of exactly the unreferenced blocks other than the null block, every
  reference count equals the number of references held, and the hash index lists exactly the
  blocks that carry each hash.\<close>

theorem pool_invariant_reachable: "pool_reach (p, H) \<Longrightarrow> pool_inv p H"
proof (induction "(p, H)" arbitrary: p H rule: pool_reach.induct)
  case (reach_init n caching hbs events use_int p)
  then have "0 < n" by (auto simp: new_block_pool_def bindR_eq_Inr)
  then show ?case using new_block_pool_spec reach_init unfolding pool_inv_def by (metis sum.inject(2))
next
  case (reach_step s)
  then show ?case using pool_step_inv [of s "(p, H)"] by (cases s) auto
qed

lemma sample_pool: "\<exists>p. new_block_pool 4 True 2 False False = Inr p \<and> pool_rep p [Blk 1, Blk 2, Blk 3] {#} \<and>
    num_gpu_blocks p = 4 \<and> enable_caching p \<and> hash_block_size p = 2"
  using new_block_pool_spec [of 4 True 2 False False] by (simp add: upt_conv_Cons eval_nat_numeral)

theorem pool_invariant_reachable_witness:
  "\<exists>p H. pool_reach (p, H) \<and> H = {#Blk 1, Blk 2#} \<and> pool_inv p H"
proof -
  obtain p where p: "new_block_pool 4 True 2 False False = Inr p" "pool_rep p [Blk 1, Blk 2, Blk 3] {#}"
    using sample_pool by blast
  from get_new_blocks_spec [OF p(2), of 2] obtain p' where g: "get_new_blocks 2 p = Inr ([Blk 1, Blk 2], p')"
    by (auto simp: numeral_2_eq_2)
  have "pool_reach (p', {#} + mset [Blk 1, Blk 2])"
    by (rule reach_step [OF reach_init [OF p(1)] step_alloc [OF _ g]]) simp
  then show ?thesis using pool_invariant_reachable [of p' "{#Blk 1, Blk 2#}"] by auto
qed

text \<open>(C16) Allocation takes the least recently freed blocks: with enough free blocks,
  \<^verbatim>\<open>get_new_blocks(n)\<close> returns the first \<open>n\<close> of the free queue, each with one reference
  and evicted from the prefix cache, and leaves every other block's hash alone; with too few
  it raises ValueError.\<close>

theorem get_new_blocks_lru:
  assumes "pool_rep p fs H" "0 \<le> n"
  shows "if n \<le> int (length fs)
         then \<exists>p'. get_new_blocks n p = Inr (take (nat n) fs, p') \<and>
                pool_rep p' (drop (nat n) fs) (H + mset (take (nat n) fs)) \<and>
                (\<forall>b. block_hash (blocks p' b) = (if b \<in> set (take (nat n) fs) then None else block_hash (blocks p b)))
         else get_new_blocks n p = Inl ValueError"
  using get_new_blocks_spec [OF assms] get_new_blocks_too_many [OF assms(1)] by auto

theorem get_new_blocks_lru_witness:
  "\<exists>p p'. pool_rep p [Blk 1, Blk 2, Blk 3] {#} \<and> get_new_blocks 2 p = Inr ([Blk 1, Blk 2], p') \<and>
     pool_rep p' [Blk 3] {#Blk 1, Blk 2#} \<and> get_new_blocks 7 p = Inl ValueError"
proof -
  obtain p where p: "pool_rep p [Blk 1, Blk 2, Blk 3] {#}" using sample_pool by blast
  show ?thesis using get_new_blocks_lru [OF p, of 2] get_new_blocks_lru [OF p, of 7] p by (auto simp: numeral_2_eq_2)
qed

text \<open>Freeing a block table drops one reference of each of its blocks: those that nobody
  references any more go to the back of the free queue in the given order, ready to be evicted
  last, and all keep their hash so that they can still be hit; shared blocks stay allocated.\<close>

lemma free_blocks_appends_unreferenced:
  assumes "pool_rep p fs H" "distinct (filter (\<lambda>b. b \<noteq> Blk 0) bs)" "held bs \<subseteq># H"
  shows "\<exists>p'. free_blocks bs p = Inr p' \<and>
           pool_rep p' (fs @ filter (\<lambda>b. b \<noteq> Blk 0 \<and> count H b = 1) bs) (H - held bs) \<and>
           (\<forall>c. block_hash (blocks p' c) = block_hash (blocks p c))"
  using free_blocks_spec [OF assms] by blast

theorem free_blocks_witness:
  "\<exists>p p'. pool_rep p [Blk 3] {#Blk 1, Blk 2#} \<and> free_blocks [Blk 2, Blk 0, Blk 1] p = Inr p' \<and>
     pool_rep p' [Blk 3, Blk 2, Blk 1] {#}"
proof -
  obtain p where "pool_rep p [Blk 1, Blk 2, Blk 3] {#}" using sample_pool by blast
  from get_new_blocks_spec [OF this, of 2] obtain p1 where p1: "pool_rep p1 [Blk 3] {#Blk 1, Blk 2#}"
    by (auto simp: numeral_2_eq_2)
  show ?thesis
    using free_blocks_appends_unreferenced [OF p1, of "[Blk 2, Blk 0, Blk 1]"] p1 by (auto simp: held_def)
qed

text \<open>A prefix cache hit takes the block back: touching blocks adds one reference each,
  removes those that were free from the middle of the free queue, keeps the order of the
  others, and changes no hash; it never raises on blocks of the pool.\<close>

lemma touch_removes_from_free:
  assumes "pool_rep p fs H" "\<forall>b\<in>set bs. real_block p b \<or> b = Blk 0"
  shows "\<exists>p'. touch bs p = Inr p' \<and> pool_rep p' (filter (\<lambda>c. c \<notin> set bs) fs) (H + held bs) \<and>
           (\<forall>c. block_hash (blocks p' c) = block_hash (blocks p c))"
  using touch_spec [OF assms] by blast

theorem touch_witness:
  "\<exists>p p'. pool_rep p [Blk 1, Blk 2, Blk 3] {#} \<and> touch [Blk 2, Blk 0, Blk 2] p = Inr p' \<and>
     pool_rep p' [Blk 1, Blk 3] {#Blk 2, Blk 2#}"
proof -
  obtain p where p: "pool_rep p [Blk 1, Blk 2, Blk 3] {#}" "num_gpu_blocks p = 4" using sample_pool by blast
  then have "real_block p (Blk 2)" by (simp add: real_block_def)
  then show ?thesis using touch_removes_from_free [OF p(1), of "[Blk 2, Blk 0, Blk 2]"] p(1) by (auto simp: held_def)
qed

text \<open>The prefix cache finds what was cached and only that. Looking up a hash for a list of
  groups returns, when it hits, one block per group that carries exactly this hash and group;
  it misses only if some group has no block under the hash; it never raises for group ids that
  fit four bytes.\<close>

lemma get_cached_block_correct:
  assumes "pool_rep p fs H" "\<forall>g\<in>set gs. 0 \<le> g \<and> g < 2 ^ 32"
  shows "\<exists>res. get_cached_block p h gs = Inr res \<and>
     (case res of
        None \<Rightarrow> (\<exists>g\<in>set gs. \<exists>k. make_block_hash_with_group_id h g = Inr k \<and> (\<forall>b. block_hash (blocks p b) \<noteq> Some k))
      | Some bs \<Rightarrow> list_all2 (\<lambda>g b. \<exists>k. make_block_hash_with_group_id h g = Inr k \<and>
            block_hash (blocks p b) = Some k \<and> real_block p b) gs bs)"
  using cached_for_groups_spec [OF assms, of h "[]"] unfolding get_cached_block_def append_Nil
  by (simp cong: option.case_cong)

theorem get_cached_block_witness:
  "\<exists>p. pool_rep p [Blk 1, Blk 2, Blk 3] {#} \<and> is_ok (get_cached_block p [7] [0])"
proof -
  obtain p where p: "pool_rep p [Blk 1, Blk 2, Blk 3] {#}" using sample_pool by blast
  show ?thesis using get_cached_block_correct [OF p, of "[0]" "[7]"] p by (auto simp: is_ok_iff)
qed

text \<open>Caching the full blocks of a request at the hash block size never raises when the
  request has hashes for them and the new ones carry no hash yet: afterwards each new non-null
  block carries the request's hash with the group id, no other block's hash changes, and the
  reference counts and the free queue are untouched.\<close>

lemma cache_full_blocks_sets_hashes:
  assumes "pool_rep p fs H" "enable_caching p"
    and "num_full_blocks \<le> length bs" "num_full_blocks \<le> length (block_hashes r)"
    and "num_cached_blocks \<le> num_full_blocks"
    and "distinct (filter (\<lambda>b. b \<noteq> Blk 0) (py_slice num_cached_blocks num_full_blocks bs))"
    and "\<forall>b\<in>set (py_slice num_cached_blocks num_full_blocks bs). b \<noteq> Blk 0 \<longrightarrow>
           real_block p b \<and> block_hash (blocks p b) = None"
    and "0 \<le> gid" "gid < 2 ^ 32"
  shows "\<exists>p' r'. cache_full_blocks env r bs num_cached_blocks num_full_blocks (hash_block_size p) gid p = Inr (p', r') \<and>
     pool_rep p' fs H \<and>
     (\<forall>b. b \<notin> set (py_slice num_cached_blocks num_full_blocks bs) \<longrightarrow> block_hash (blocks p' b) = block_hash (blocks p b)) \<and>
     (\<forall>j. num_cached_blocks \<le> j \<longrightarrow> j < num_full_blocks \<longrightarrow> bs ! j \<noteq> Blk 0 \<longrightarrow>
        (\<exists>k. make_block_hash_with_group_id (block_hashes r ! j) gid = Inr k \<and> block_hash (blocks p' (bs ! j)) = Some k))"
proof -
  have h: "hashes_at_size (block_hashes r) (hash_block_size p) (hash_block_size p) = Inr (PlainHashes (block_hashes r))"
    by (simp add: hashes_at_size_def)
  have g: "num_cached_blocks = 0 \<or> is_ok (bhl_get (PlainHashes (block_hashes r)) (num_cached_blocks - 1))"
    using assms(4,5) by (cases num_cached_blocks) auto
  have "bhl_from (PlainHashes (block_hashes r)) num_cached_blocks = Inr (drop num_cached_blocks (block_hashes r))"
    by simp
  note spec = cache_full_blocks_spec [OF assms(1-4,6,7) h this _ g assms(8,9), of env]
  have nth: "drop num_cached_blocks (block_hashes r) ! (j - num_cached_blocks) = block_hashes r ! j"
    if "num_cached_blocks \<le> j" "j < num_full_blocks" for j using that assms(4) by simp
  show ?thesis using spec assms(4,5) nth by (elim meta_impE exE conjE; simp)
qed

theorem cache_full_blocks_witness:
  "\<exists>p p' r r'. pool_rep p [Blk 3] {#Blk 1, Blk 2#} \<and>
     cache_full_blocks ser_env r [Blk 1, Blk 2] 0 1 2 0 p = Inr (p', r') \<and>
     get_block_hash (the (block_hash (blocks p' (Blk 1)))) = [9] \<and> block_hash (blocks p' (Blk 2)) = None"
proof -
  obtain p where p: "pool_rep p [Blk 1, Blk 2, Blk 3] {#}" "num_gpu_blocks p = 4" "enable_caching p" "hash_block_size p = 2"
    using sample_pool by blast
  from get_new_blocks_spec [OF p(1), of 2] obtain p1 where p1: "pool_rep p1 [Blk 3] {#Blk 1, Blk 2#}"
    "same_config p p1" "block_hash (blocks p1 (Blk 1)) = None" "block_hash (blocks p1 (Blk 2)) = None"
    by (auto simp: numeral_2_eq_2)
  have c: "enable_caching p1" "real_block p1 (Blk 1)" "hash_block_size p1 = 2"
    using p p1(2) by (auto simp: same_config_def real_block_def)
  let ?r = "sample_request ''a'' [1, 2]\<lparr>block_hashes := [[9]]\<rparr>"
  obtain p2 r2 k where "cache_full_blocks ser_env ?r [Blk 1, Blk 2] 0 1 2 0 p1 = Inr (p2, r2)"
    "make_block_hash_with_group_id [9] 0 = Inr k" "block_hash (blocks p2 (Blk 1)) = Some k" "block_hash (blocks p2 (Blk 2)) = None"
    using cache_full_blocks_sets_hashes [OF p1(1) c(1), of 1 "[Blk 1, Blk 2]" ?r 0 0 ser_env] c p1(3,4)
    by (auto simp: py_slice_def)
  then show ?thesis using p1(1) group_id_roundtrip by fastforce
qed

text \<open>The prefix cache can be reset exactly when no block is referenced; a successful reset
  leaves no block with a hash, so that no later lookup hits, and a refused one changes
  nothing.\<close>

lemma reset_prefix_cache_correct:
  assumes "pool_rep p fs H"
  shows "(fst (reset_prefix_cache p) \<longleftrightarrow> H = {#}) \<and>
         (if fst (reset_prefix_cache p)
          then pool_rep (snd (reset_prefix_cache p)) fs H \<and>
               (\<forall>b. block_hash (blocks (snd (reset_prefix_cache p)) b) = None)
          else snd (reset_prefix_cache p) = p)"
  using reset_prefix_cache_spec [OF assms] by auto

theorem reset_prefix_cache_witness:
  "\<exists>p p'. pool_rep p [Blk 1, Blk 2, Blk 3] {#} \<and> fst (reset_prefix_cache p) \<and>
     pool_rep p' [Blk 3] {#Blk 1, Blk 2#} \<and> snd (reset_prefix_cache p') = p'"
proof -
  obtain p where p: "pool_rep p [Blk 1, Blk 2, Blk 3] {#}" using sample_pool by blast
  from get_new_blocks_spec [OF p, of 2] obtain p1 where p1: "pool_rep p1 [Blk 3] {#Blk 1, Blk 2#}"
    by (auto simp: numeral_2_eq_2)
  show ?thesis
    using reset_prefix_cache_correct [OF p] reset_prefix_cache_correct [OF p1] p p1
    by (intro exI [of _ p] exI [of _ p1]) auto
qed

end
