(* ===== verification/KV_Cache_Spec.thy ===== *)
theory KV_Cache_Spec
  imports Prelude
begin

text \<open>
  The KV cache specifications of v1/kv\_cache\_interface.py: one constructor per concrete
  class, the page size and maximal memory of each, merging of the specifications of the layers
  of a group, the uniform-type specification, and the configuration records. The numbers of
  the engine configuration that these methods read form the record \<open>vllm_config\<close>. A
  torch dtype is its name with the element size torch reports for it.
\<close>

section \<open>Data\<close>

datatype dtype = Dtype (dtype_name: string) (get_dtype_size: int)

record attn_fields =
  af_block_size :: int
  num_kv_heads :: int
  head_size :: int
  af_dtype :: dtype
  af_page_size_padded :: "int option"

record full_fields =
  head_size_v :: int
  ff_sliding_window :: "int option"
  ff_attention_chunk_size :: "int option"

record mamba_fields =
  mf_block_size :: int
  shapes :: "int list list"
  dtypes :: "dtype list"
  mf_page_size_padded :: "int option"
  mamba_type :: string
  mf_mamba_cache_mode :: string
  mf_num_speculative_blocks :: int

datatype kv_cache_spec =
    FullAttentionSpec attn_fields full_fields
  | MLAAttentionSpec attn_fields full_fields "string option"
  | SinkFullAttentionSpec attn_fields full_fields "int option"
  | ChunkedLocalAttentionSpec attn_fields int
  | SlidingWindowSpec attn_fields int
  | MambaSpec mamba_fields
  | EncoderOnlyAttentionSpec attn_fields
  | CrossAttentionSpec attn_fields
  | UniformTypeKVCacheSpecs int "(string \<times> kv_cache_spec) list"

record vllm_config =
  max_model_len :: int
  max_num_batched_tokens :: int
  max_num_encoder_input_tokens :: int
  decode_context_parallel_size :: int
  prefill_context_parallel_size :: int
  cfg_mamba_cache_mode :: string
  cfg_enable_prefix_caching :: bool
  num_gpu_blocks_override :: "int option"
  disable_hybrid_kv_cache_manager :: bool
  max_num_seqs :: int

record kv_cache_tensor =
  tensor_size :: int
  shared_by :: "string list"

record kv_cache_group =
  layer_names :: "string list"
  group_spec :: kv_cache_spec

record kv_cache_config =
  num_blocks :: int
  kv_cache_tensors :: "kv_cache_tensor list"
  kv_cache_groups :: "kv_cache_group list"

section \<open>Methods\<close>

fun spec_block_size :: "kv_cache_spec \<Rightarrow> int" where
  "spec_block_size (FullAttentionSpec a _) = af_block_size a"
| "spec_block_size (MLAAttentionSpec a _ _) = af_block_size a"
| "spec_block_size (SinkFullAttentionSpec a _ _) = af_block_size a"
| "spec_block_size (ChunkedLocalAttentionSpec a _) = af_block_size a"
| "spec_block_size (SlidingWindowSpec a _) = af_block_size a"
| "spec_block_size (MambaSpec f) = mf_block_size f"
| "spec_block_size (EncoderOnlyAttentionSpec a) = af_block_size a"
| "spec_block_size (CrossAttentionSpec a) = af_block_size a"
| "spec_block_size (UniformTypeKVCacheSpecs bs _) = bs"

fun copy_with_new_block_size :: "kv_cache_spec \<Rightarrow> int \<Rightarrow> kv_cache_spec" where
  "copy_with_new_block_size (FullAttentionSpec a f) bs = FullAttentionSpec (a\<lparr>af_block_size := bs\<rparr>) f"
| "copy_with_new_block_size (MLAAttentionSpec a f c) bs = MLAAttentionSpec (a\<lparr>af_block_size := bs\<rparr>) f c"
| "copy_with_new_block_size (SinkFullAttentionSpec a f s) bs = SinkFullAttentionSpec (a\<lparr>af_block_size := bs\<rparr>) f s"
| "copy_with_new_block_size (ChunkedLocalAttentionSpec a c) bs = ChunkedLocalAttentionSpec (a\<lparr>af_block_size := bs\<rparr>) c"
| "copy_with_new_block_size (SlidingWindowSpec a w) bs = SlidingWindowSpec (a\<lparr>af_block_size := bs\<rparr>) w"
| "copy_with_new_block_size (MambaSpec f) bs = MambaSpec (f\<lparr>mf_block_size := bs\<rparr>)"
| "copy_with_new_block_size (EncoderOnlyAttentionSpec a) bs = EncoderOnlyAttentionSpec (a\<lparr>af_block_size := bs\<rparr>)"
| "copy_with_new_block_size (CrossAttentionSpec a) bs = CrossAttentionSpec (a\<lparr>af_block_size := bs\<rparr>)"
| "copy_with_new_block_size (UniformTypeKVCacheSpecs _ d) bs = UniformTypeKVCacheSpecs bs d"

definition attn_real_page_size :: "attn_fields \<Rightarrow> int" where
  "attn_real_page_size a = 2 * af_block_size a * num_kv_heads a * head_size a * get_dtype_size (af_dtype a)"

definition full_real_page_size :: "attn_fields \<Rightarrow> full_fields \<Rightarrow> int" where
  "full_real_page_size a f =
     af_block_size a * num_kv_heads a * (head_size a + head_size_v f) * get_dtype_size (af_dtype a)"

definition mla_real_page_size :: "attn_fields \<Rightarrow> string option \<Rightarrow> int" where
  "mla_real_page_size a cache_dtype_str =
     (if cache_dtype_str = Some ''fp8_ds_mla'' then af_block_size a * 656
      else af_block_size a * num_kv_heads a * head_size a * get_dtype_size (af_dtype a))"

definition mamba_page_size :: "mamba_fields \<Rightarrow> int" where
  "mamba_page_size f = sum_list (map (\<lambda>(shape, d). prod_list shape * get_dtype_size d) (zip (shapes f) (dtypes f)))"

definition padded_page_size :: "int option \<Rightarrow> int \<Rightarrow> int res" where
  "padded_page_size padded real_page_size =
     (case padded of
        None \<Rightarrow> Inr real_page_size
      | Some p \<Rightarrow> bindR (assertR (p \<ge> real_page_size)) (\<lambda>_. Inr p))"

fun page_size_bytes :: "kv_cache_spec \<Rightarrow> int res" where
  "page_size_bytes (FullAttentionSpec a f) = padded_page_size (af_page_size_padded a) (full_real_page_size a f)"
| "page_size_bytes (MLAAttentionSpec a f c) = padded_page_size (af_page_size_padded a) (mla_real_page_size a c)"
| "page_size_bytes (SinkFullAttentionSpec a f s) = padded_page_size (af_page_size_padded a) (full_real_page_size a f)"
| "page_size_bytes (ChunkedLocalAttentionSpec a _) = padded_page_size (af_page_size_padded a) (attn_real_page_size a)"
| "page_size_bytes (SlidingWindowSpec a _) = padded_page_size (af_page_size_padded a) (attn_real_page_size a)"
| "page_size_bytes (MambaSpec f) = padded_page_size (mf_page_size_padded f) (mamba_page_size f)"
| "page_size_bytes (EncoderOnlyAttentionSpec a) = padded_page_size (af_page_size_padded a) (attn_real_page_size a)"
| "page_size_bytes (CrossAttentionSpec a) = padded_page_size (af_page_size_padded a) (attn_real_page_size a)"
| "page_size_bytes (UniformTypeKVCacheSpecs _ d) =
     bindR (mapR (\<lambda>kv. page_size_bytes (snd kv)) d) (\<lambda>ps. Inr (sum_list ps))"

definition full_max_pages :: "vllm_config \<Rightarrow> int \<Rightarrow> int" where
  "full_max_pages cfg block_size =
     (let cp = decode_context_parallel_size cfg * prefill_context_parallel_size cfg;
          len = (if cp > 1 then cdiv (max_model_len cfg) cp else max_model_len cfg)
      in cdiv len block_size)"

definition chunked_max_pages :: "vllm_config \<Rightarrow> int \<Rightarrow> int \<Rightarrow> int" where
  "chunked_max_pages cfg attention_chunk_size block_size =
     cdiv (min (attention_chunk_size + max_num_batched_tokens cfg) (max_model_len cfg)) block_size"

definition sliding_max_pages :: "vllm_config \<Rightarrow> int \<Rightarrow> int \<Rightarrow> int" where
  "sliding_max_pages cfg sliding_window block_size =
     cdiv (min (sliding_window - 1 + max_num_batched_tokens cfg) (max_model_len cfg)) block_size + 1"

definition mamba_max_pages :: "vllm_config \<Rightarrow> mamba_fields \<Rightarrow> int" where
  "mamba_max_pages cfg f =
     (if cfg_mamba_cache_mode cfg = ''all'' then cdiv (max_model_len cfg) (mf_block_size f)
      else if cfg_mamba_cache_mode cfg = ''align'' then 2 + mf_num_speculative_blocks f
      else 1 + mf_num_speculative_blocks f)"

fun max_memory_usage_bytes :: "vllm_config \<Rightarrow> kv_cache_spec \<Rightarrow> int res" where
  "max_memory_usage_bytes cfg (FullAttentionSpec a f) =
     bindR (page_size_bytes (FullAttentionSpec a f)) (\<lambda>p. Inr (full_max_pages cfg (af_block_size a) * p))"
| "max_memory_usage_bytes cfg (MLAAttentionSpec a f c) =
     bindR (page_size_bytes (MLAAttentionSpec a f c)) (\<lambda>p. Inr (full_max_pages cfg (af_block_size a) * p))"
| "max_memory_usage_bytes cfg (SinkFullAttentionSpec a f s) =
     bindR (page_size_bytes (SinkFullAttentionSpec a f s)) (\<lambda>p. Inr (full_max_pages cfg (af_block_size a) * p))"
| "max_memory_usage_bytes cfg (ChunkedLocalAttentionSpec a c) =
     bindR (page_size_bytes (ChunkedLocalAttentionSpec a c)) (\<lambda>p. Inr (chunked_max_pages cfg c (af_block_size a) * p))"
| "max_memory_usage_bytes cfg (SlidingWindowSpec a w) =
     bindR (assertR (decode_context_parallel_size cfg = 1)) (\<lambda>_.
     bindR (page_size_bytes (SlidingWindowSpec a w)) (\<lambda>p. Inr (sliding_max_pages cfg w (af_block_size a) * p)))"
| "max_memory_usage_bytes cfg (MambaSpec f) =
     bindR (page_size_bytes (MambaSpec f)) (\<lambda>p. Inr (mamba_max_pages cfg f * p))"
| "max_memory_usage_bytes cfg (EncoderOnlyAttentionSpec a) = Inr 0"
| "max_memory_usage_bytes cfg (CrossAttentionSpec a) =
     bindR (page_size_bytes (CrossAttentionSpec a))
       (\<lambda>p. Inr (cdiv (max_num_encoder_input_tokens cfg) (af_block_size a) * p))"
| "max_memory_usage_bytes cfg (UniformTypeKVCacheSpecs bs d) =
     bindR (mapR (\<lambda>kv. bindR (max_memory_usage_bytes cfg (snd kv)) (\<lambda>b.
                       bindR (page_size_bytes (snd kv)) (\<lambda>p. Inr (cdiv b p)))) d) (\<lambda>pages.
     bindR (maxR pages) (\<lambda>max_num_pages.
     bindR (page_size_bytes (UniformTypeKVCacheSpecs bs d)) (\<lambda>p. Inr (max_num_pages * p))))"

text \<open>\<^verbatim>\<open>isinstance\<close> tests.\<close>

fun is_full_attention :: "kv_cache_spec \<Rightarrow> bool" where
  "is_full_attention (FullAttentionSpec _ _) = True"
| "is_full_attention (MLAAttentionSpec _ _ _) = True"
| "is_full_attention (SinkFullAttentionSpec _ _ _) = True"
| "is_full_attention _ = False"

fun is_mla :: "kv_cache_spec \<Rightarrow> bool" where
  "is_mla (MLAAttentionSpec _ _ _) = True"
| "is_mla _ = False"

fun is_mamba :: "kv_cache_spec \<Rightarrow> bool" where
  "is_mamba (MambaSpec _) = True"
| "is_mamba _ = False"

fun is_cross :: "kv_cache_spec \<Rightarrow> bool" where
  "is_cross (CrossAttentionSpec _) = True"
| "is_cross _ = False"

fun full_parts :: "kv_cache_spec \<Rightarrow> (attn_fields \<times> full_fields) option" where
  "full_parts (FullAttentionSpec a f) = Some (a, f)"
| "full_parts (MLAAttentionSpec a f _) = Some (a, f)"
| "full_parts (SinkFullAttentionSpec a f _) = Some (a, f)"
| "full_parts _ = None"

text \<open>\<^verbatim>\<open>merge_window_sizes\<close> of the set of values present in the list.\<close>

definition merge_window_sizes :: "int list \<Rightarrow> int option res" where
  "merge_window_sizes window_sizes =
     (case remdups window_sizes of [] \<Rightarrow> Inr None | [w] \<Rightarrow> Inr (Some w) | _ \<Rightarrow> Inl ValueError)"

definition somes :: "'a option list \<Rightarrow> 'a list" where
  "somes xs = concat (map (\<lambda>x. case x of None \<Rightarrow> [] | Some y \<Rightarrow> [y]) xs)"

text \<open>The common body of FullAttentionSpec.merge and SinkFullAttentionSpec.merge: what the
  merged specification has of the attention and full attention fields.\<close>

definition merge_full_fields :: "kv_cache_spec list \<Rightarrow> (attn_fields \<times> full_fields) res" where
  "merge_full_fields specs =
     bindR (assertR (list_all is_full_attention specs)) (\<lambda>_.
       let parts = somes (map full_parts specs);
           windows = somes (map (\<lambda>(a, f). ff_sliding_window f) parts);
           chunks = somes (map (\<lambda>(a, f). ff_attention_chunk_size f) parts)
       in bindR (assertR (\<not> list_ex is_mla specs)) (\<lambda>_.
          bindR (py_get parts 0) (\<lambda>(a, f).
          bindR (merge_window_sizes windows) (\<lambda>w.
          bindR (merge_window_sizes chunks) (\<lambda>c.
          bindR (assertR (list_all (\<lambda>(a', f'). a' = a) parts)) (\<lambda>_.
          bindR (assertR (w = None \<or> c = None)) (\<lambda>_.
            Inr (a, \<lparr>head_size_v = head_size_v f, ff_sliding_window = w, ff_attention_chunk_size = c\<rparr>))))))))"

definition merge_mla :: "kv_cache_spec list \<Rightarrow> kv_cache_spec res" where
  "merge_mla specs =
     bindR (assertR (list_all is_mla specs)) (\<lambda>_.
       let strs = remdups (map (\<lambda>s. case s of MLAAttentionSpec _ _ c \<Rightarrow> c | _ \<Rightarrow> None) specs)
       in bindR (assertR (length strs = 1)) (\<lambda>_.
          bindR (py_get (somes (map full_parts specs)) 0) (\<lambda>(a, f).
            Inr (MLAAttentionSpec a
                  \<lparr>head_size_v = head_size a, ff_sliding_window = None, ff_attention_chunk_size = None\<rparr>
                  (hd strs)))))"

text \<open>\<^verbatim>\<open>specs[0].merge(specs)\<close>: the class of the first specification decides.\<close>

definition merge_specs :: "kv_cache_spec list \<Rightarrow> kv_cache_spec res" where
  "merge_specs specs =
     bindR (py_get specs 0) (\<lambda>s0.
       case s0 of
         FullAttentionSpec _ _ \<Rightarrow> bindR (merge_full_fields specs) (\<lambda>(a, f). Inr (FullAttentionSpec a f))
       | SinkFullAttentionSpec _ _ sink \<Rightarrow>
           bindR (merge_full_fields specs) (\<lambda>(a, f). Inr (SinkFullAttentionSpec a f sink))
       | MLAAttentionSpec _ _ _ \<Rightarrow> merge_mla specs
       | _ \<Rightarrow> bindR (assertR (list_all (\<lambda>s. s = s0) (tl specs))) (\<lambda>_. Inr s0))"

text \<open>\<^verbatim>\<open>next(iter(d.values()))\<close>.\<close>

definition next_iter :: "'a list \<Rightarrow> 'a res" where
  "next_iter xs = (case xs of [] \<Rightarrow> Inl StopIteration | x # _ \<Rightarrow> Inr x)"

definition is_uniform_type :: "(string \<times> kv_cache_spec) list \<Rightarrow> bool res" where
  "is_uniform_type d =
     (let specs = map snd d in
      if length (remdups (map spec_block_size specs)) > 1 then Inr False
      else bindR (next_iter specs) (\<lambda>one_spec.
        case one_spec of
          CrossAttentionSpec _ \<Rightarrow> Inr (list_all is_cross specs)
        | SlidingWindowSpec _ w \<Rightarrow>
            Inr (list_all (\<lambda>s. case s of SlidingWindowSpec _ w' \<Rightarrow> w' = w | _ \<Rightarrow> False) specs)
        | ChunkedLocalAttentionSpec _ c \<Rightarrow>
            Inr (list_all (\<lambda>s. case s of ChunkedLocalAttentionSpec _ c' \<Rightarrow> c' = c | _ \<Rightarrow> False) specs)
        | MambaSpec f \<Rightarrow>
            Inr (list_all (\<lambda>s. case s of MambaSpec f' \<Rightarrow>
              mf_num_speculative_blocks f' = mf_num_speculative_blocks f | _ \<Rightarrow> False) specs)
        | EncoderOnlyAttentionSpec _ \<Rightarrow> Inl NotImplementedError
        | UniformTypeKVCacheSpecs _ _ \<Rightarrow> Inl NotImplementedError
        | _ \<Rightarrow> Inr (list_all is_full_attention specs)))"

definition from_specs :: "(string \<times> kv_cache_spec) list \<Rightarrow> kv_cache_spec option res" where
  "from_specs d =
     bindR (is_uniform_type d) (\<lambda>u.
       if u then bindR (next_iter (map snd d)) (\<lambda>s. Inr (Some (UniformTypeKVCacheSpecs (spec_block_size s) d)))
       else Inr None)"

definition has_mamba_layers :: "kv_cache_config \<Rightarrow> bool" where
  "has_mamba_layers c = list_ex (\<lambda>g. is_mamba (group_spec g)) (kv_cache_groups c)"

definition needs_kv_cache_zeroing :: "kv_cache_config \<Rightarrow> bool" where
  "needs_kv_cache_zeroing c = has_mamba_layers c"

end
