(* ===== verification/Single_Type_Manager.thy ===== *)
theory Single_Type_Manager
  imports Block_Pool_Inv KV_Cache_Spec
begin

text \<open>
  The managers of v1/core/single\_type\_kv\_cache\_manager.py: one per KV cache group, each with
  the block tables of the requests. The class of a manager is determined by the class of its
  specification (\<^verbatim>\<open>spec_manager_map\<close>), so the overriding methods are cases on it. The block
  pool is shared by all managers and passed alongside. \<^verbatim>\<open>req_to_blocks\<close> is a
  \<^verbatim>\<open>defaultdict\<close>: reading a missing key inserts an empty table, which \<open>req_table\<close> models.
\<close>

section \<open>State\<close>

record manager =
  mspec :: kv_cache_spec
  block_size :: int
  m_enable_caching :: bool
  new_block_ids :: "int list"
  req_to_blocks :: "(req_id, block_ref list) odict"
  num_cached_block :: "req_id \<Rightarrow> nat option"
  kv_cache_group_id :: int
  m_null_block :: block_ref
  sink_blocks :: "block_ref list"
  cached_blocks_this_step :: "bytes set"
  last_state_block_idx :: "req_id \<Rightarrow> int option"
  allocated_block_reqs :: "req_id set"

definition req_table :: "req_id \<Rightarrow> manager \<Rightarrow> block_ref list \<times> manager" where
  "req_table rid m =
     (case od_get (req_to_blocks m) rid of
        Some bs \<Rightarrow> (bs, m)
      | None \<Rightarrow> ([], m\<lparr>req_to_blocks := od_set rid [] (req_to_blocks m)\<rparr>))"

definition set_table :: "req_id \<Rightarrow> block_ref list \<Rightarrow> manager \<Rightarrow> manager" where
  "set_table rid bs m = m\<lparr>req_to_blocks := od_set rid bs (req_to_blocks m)\<rparr>"

text \<open>\<^verbatim>\<open>self.req_to_blocks.get(request_id, ())\<close>, which inserts nothing.\<close>

definition table_of :: "manager \<Rightarrow> req_id \<Rightarrow> block_ref list" where
  "table_of m rid = (case od_get (req_to_blocks m) rid of Some bs \<Rightarrow> bs | None \<Rightarrow> [])"

fun sink_len_of :: "kv_cache_spec \<Rightarrow> int option" where
  "sink_len_of (SinkFullAttentionSpec _ _ s) = s"
| "sink_len_of _ = None"

fun is_sink :: "kv_cache_spec \<Rightarrow> bool" where
  "is_sink (SinkFullAttentionSpec _ _ _) = True"
| "is_sink _ = False"

fun has_manager :: "kv_cache_spec \<Rightarrow> bool" where
  "has_manager (EncoderOnlyAttentionSpec _) = False"
| "has_manager (UniformTypeKVCacheSpecs _ _) = False"
| "has_manager _ = True"

definition init_manager :: "kv_cache_spec \<Rightarrow> block_pool \<Rightarrow> bool \<Rightarrow> int \<Rightarrow> int \<Rightarrow> int \<Rightarrow> manager" where
  "init_manager spec p caching gid dcp pcp =
     \<lparr>mspec = spec,
      block_size = (if dcp * pcp > 1 then spec_block_size spec * (dcp * pcp) else spec_block_size spec),
      m_enable_caching = caching, new_block_ids = [], req_to_blocks = [], num_cached_block = (\<lambda>_. None),
      kv_cache_group_id = gid, m_null_block = null_block p, sink_blocks = [],
      cached_blocks_this_step = {}, last_state_block_idx = (\<lambda>_. None), allocated_block_reqs = {}\<rparr>"

text \<open>The sink manager takes its blocks straight from the free queue, without a reference.\<close>

definition get_manager_for_kv_cache_spec ::
  "kv_cache_spec \<Rightarrow> block_pool \<Rightarrow> bool \<Rightarrow> int \<Rightarrow> int \<Rightarrow> int \<Rightarrow> (manager \<times> block_pool) res" where
  "get_manager_for_kv_cache_spec spec p caching gid dcp pcp =
     (if \<not> has_manager spec then Inl KeyError
      else let m = init_manager spec p caching gid dcp pcp in
        if is_sink spec then
          bindR (assertR (case sink_len_of spec of None \<Rightarrow> False
                          | Some n \<Rightarrow> n > 0 \<and> n mod block_size m = 0)) (\<lambda>_.
          bindR (popleft_n (the (sink_len_of spec) div block_size m) (free_block_queue p)) (\<lambda>(bs, q).
            Inr (m\<lparr>sink_blocks := bs\<rparr>, p\<lparr>free_block_queue := q\<rparr>)))
        else Inr (m, p))"

section \<open>Allocation\<close>

definition get_num_evictable_blocks :: "block_pool \<Rightarrow> block_ref list \<Rightarrow> int" where
  "get_num_evictable_blocks p bs =
     int (length (filter (\<lambda>b. ref_cnt (blocks p b) = 0 \<and> \<not> is_null (blocks p b)) bs))"

definition get_num_skipped_tokens :: "manager \<Rightarrow> int \<Rightarrow> int" where
  "get_num_skipped_tokens m ncomputed =
     (case mspec m of
        SlidingWindowSpec _ w \<Rightarrow> max 0 (ncomputed - w + 1)
      | ChunkedLocalAttentionSpec _ c \<Rightarrow> (ncomputed div c) * c
      | MambaSpec _ \<Rightarrow> ncomputed - 1
      | _ \<Rightarrow> 0)"

definition base_num_blocks_to_allocate ::
  "req_id \<Rightarrow> int \<Rightarrow> block_ref list \<Rightarrow> int \<Rightarrow> manager \<Rightarrow> block_pool \<Rightarrow> int res" where
  "base_num_blocks_to_allocate rid ntokens new_computed_blocks total_computed_tokens m p =
     (let num_required_blocks = cdiv ntokens (block_size m);
          num_req_blocks = int (length (table_of m rid))
      in if num_cached_block m rid \<noteq> None
         then bindR (assertR (length new_computed_blocks = 0))
                (\<lambda>_. Inr (max (num_required_blocks - num_req_blocks) 0))
         else let num_skipped_tokens = get_num_skipped_tokens m total_computed_tokens;
                  num_local_computed_blocks = int (length new_computed_blocks) + num_req_blocks;
                  num_skipped_blocks = num_skipped_tokens div block_size m;
                  num_new_blocks = max (num_required_blocks - max num_skipped_blocks num_local_computed_blocks) 0;
                  num_skipped_new_computed_blocks = max 0 (num_skipped_blocks - num_req_blocks);
                  num_evictable_blocks =
                    get_num_evictable_blocks p (drop (nat num_skipped_new_computed_blocks) new_computed_blocks)
              in Inr (num_new_blocks + num_evictable_blocks))"

text \<open>In align mode the Mamba manager reads its table through the defaultdict.\<close>

definition mamba_num_blocks_to_allocate ::
  "mamba_fields \<Rightarrow> req_id \<Rightarrow> int \<Rightarrow> block_ref list \<Rightarrow> int \<Rightarrow> int \<Rightarrow> manager \<Rightarrow> block_pool \<Rightarrow> (int \<times> manager) res" where
  "mamba_num_blocks_to_allocate f rid ntokens new_computed_blocks total_computed_tokens main_tokens m p =
     (if length new_computed_blocks > 0 \<and>
         (case block_hash (blocks p (last new_computed_blocks)) of
            None \<Rightarrow> False | Some h \<Rightarrow> h \<in> cached_blocks_this_step m)
      then Inr (int (num_gpu_blocks p) + 1, m)
      else if mf_mamba_cache_mode f \<noteq> ''align'' then
        let n = (if mf_num_speculative_blocks f > 0
                 then ntokens + mf_block_size f * mf_num_speculative_blocks f else ntokens)
        in bindR (base_num_blocks_to_allocate rid n new_computed_blocks total_computed_tokens m p)
             (\<lambda>k. Inr (k, m))
      else
        let num_required_blocks = cdiv main_tokens (block_size m) + mf_num_speculative_blocks f;
            (tbl, m') = req_table rid m;
            n0 = num_required_blocks - int (length new_computed_blocks) - int (length tbl);
            num_new_blocks = (if n0 > 0 then
                                if rid \<in> allocated_block_reqs m' then 1 else 1 + mf_num_speculative_blocks f
                              else n0)
        in Inr (num_new_blocks + get_num_evictable_blocks p new_computed_blocks, m'))"

definition get_num_blocks_to_allocate ::
  "req_id \<Rightarrow> int \<Rightarrow> block_ref list \<Rightarrow> int \<Rightarrow> int \<Rightarrow> manager \<Rightarrow> block_pool \<Rightarrow> (int \<times> manager) res" where
  "get_num_blocks_to_allocate rid ntokens new_computed_blocks total_computed_tokens main_tokens m p =
     (case mspec m of
        MambaSpec f \<Rightarrow> mamba_num_blocks_to_allocate f rid ntokens new_computed_blocks total_computed_tokens main_tokens m p
      | _ \<Rightarrow> bindR (base_num_blocks_to_allocate rid ntokens new_computed_blocks total_computed_tokens m p)
               (\<lambda>k. Inr (k, m)))"

text \<open>\<^verbatim>\<open>type(self.kv_cache_spec) is FullAttentionSpec\<close>: the class itself, no subclass.\<close>

definition note_new_ids :: "block_ref list \<Rightarrow> manager \<Rightarrow> manager" where
  "note_new_ids bs m =
     (case mspec m of
        FullAttentionSpec _ _ \<Rightarrow> m\<lparr>new_block_ids := new_block_ids m @ map block_id bs\<rparr>
      | _ \<Rightarrow> m)"

definition base_allocate_new_computed_blocks ::
  "req_id \<Rightarrow> block_ref list \<Rightarrow> int \<Rightarrow> int \<Rightarrow> manager \<times> block_pool \<Rightarrow> (manager \<times> block_pool) res" where
  "base_allocate_new_computed_blocks rid new_computed_blocks nlocal
       nexternal = (\<lambda>(m, p).
     if num_cached_block m rid \<noteq> None
     then bindR (assertR (length new_computed_blocks = 0)) (\<lambda>_. Inr (m, p))
     else let (tbl, m1) = req_table rid m in
       bindR (assertR (length tbl = 0)) (\<lambda>_.
         let num_total_computed_tokens = nlocal + nexternal;
             num_skipped_tokens = get_num_skipped_tokens m1 num_total_computed_tokens;
             num_skipped_blocks = num_skipped_tokens div block_size m1;
             ncb = (if num_skipped_blocks > 0 then drop (nat num_skipped_blocks) new_computed_blocks
                    else new_computed_blocks);
             ext = (if num_skipped_blocks > 0
                    then min (num_total_computed_tokens - num_skipped_tokens) nexternal
                    else nexternal)
         in bindR (if m_enable_caching m1 then touch ncb p
                   else bindR (assertR (ncb = [])) (\<lambda>_. Inr p)) (\<lambda>p1.
            let req_blocks = tbl @ replicate (nat num_skipped_blocks) (m_null_block m1) @ ncb;
                m2 = (set_table rid req_blocks m1)
                       \<lparr>num_cached_block := (num_cached_block m1)(rid \<mapsto> length req_blocks)\<rparr>
            in if ext > 0
               then bindR (get_new_blocks (cdiv num_total_computed_tokens (block_size m2) - int (length req_blocks)) p1)
                      (\<lambda>(allocated, p2).
                         Inr (note_new_ids allocated (set_table rid (req_blocks @ allocated) m2), p2))
               else Inr (m2, p1))))"

definition allocate_new_computed_blocks ::
  "req_id \<Rightarrow> block_ref list \<Rightarrow> int \<Rightarrow> int \<Rightarrow> manager \<times> block_pool \<Rightarrow> (manager \<times> block_pool) res" where
  "allocate_new_computed_blocks rid new_computed_blocks nlocal nexternal = (\<lambda>(m, p).
     if is_cross (mspec m)
     then bindR (assertR (length new_computed_blocks = 0)) (\<lambda>_. Inr (m, p))
     else base_allocate_new_computed_blocks rid new_computed_blocks nlocal nexternal (m, p))"

definition base_allocate_new_blocks ::
  "req_id \<Rightarrow> int \<Rightarrow> manager \<times> block_pool \<Rightarrow> (block_ref list \<times> manager \<times> block_pool) res" where
  "base_allocate_new_blocks rid ntokens = (\<lambda>(m, p).
     let (req_blocks, m1) = req_table rid m;
         num_required_blocks = cdiv ntokens (block_size m1);
         num_new_blocks = num_required_blocks - int (length req_blocks)
     in if num_new_blocks \<le> 0 then Inr ([], m1, p)
        else bindR (get_new_blocks num_new_blocks p) (\<lambda>(new_blocks, p1).
               Inr (new_blocks, note_new_ids new_blocks (set_table rid (req_blocks @ new_blocks) m1), p1)))"

text \<open>Assignment \<^verbatim>\<open>xs[i] = v\<close> with Python's index rules.\<close>

definition py_set :: "'a list \<Rightarrow> int \<Rightarrow> 'a \<Rightarrow> 'a list res" where
  "py_set xs idx v =
     (if - int (length xs) \<le> idx \<and> idx < int (length xs)
      then Inr (xs[nat (if 0 \<le> idx then idx else idx + int (length xs)) := v])
      else Inl IndexError)"

text \<open>The loop that moves the speculative blocks of the previous step to the end.\<close>

fun reuse_loop :: "block_ref \<Rightarrow> int \<Rightarrow> int list \<Rightarrow> block_ref list \<Rightarrow> block_ref list res" where
  "reuse_loop nb num_skipped_blocks [] req_blocks = Inr req_blocks"
| "reuse_loop nb num_skipped_blocks (i # is) req_blocks =
     (if i < num_skipped_blocks
      then bindR (py_get req_blocks i) (\<lambda>b.
           bindR (py_set (req_blocks @ [b]) i nb) (reuse_loop nb num_skipped_blocks is))
      else Inr req_blocks)"

definition mamba_align_allocate ::
  "mamba_fields \<Rightarrow> req_id \<Rightarrow> int \<Rightarrow> manager \<times> block_pool \<Rightarrow> (block_ref list \<times> manager \<times> block_pool) res" where
  "mamba_align_allocate f rid main_tokens = (\<lambda>(m, p).
     let (req_blocks, m1) = req_table rid m;
         spec = mf_num_speculative_blocks f;
         num_required_blocks = cdiv main_tokens (block_size m1) + spec
     in if num_required_blocks = int (length req_blocks) then Inr ([], m1, p)
        else bindR (assertR (num_required_blocks > int (length req_blocks))) (\<lambda>_.
          let prev_block_len = int (length req_blocks);
              blocks_allocated = (rid \<in> allocated_block_reqs m1);
              m2 = (if blocks_allocated
                    then m1\<lparr>last_state_block_idx := (last_state_block_idx m1)(rid \<mapsto> prev_block_len - 1 - spec)\<rparr>
                    else if prev_block_len > 0
                    then m1\<lparr>last_state_block_idx := (last_state_block_idx m1)(rid \<mapsto> prev_block_len - 1)\<rparr>
                    else m1);
              num_skipped_blocks = num_required_blocks - spec - 1;
              rb1 = (if prev_block_len < num_skipped_blocks
                     then req_blocks @ replicate (nat (num_skipped_blocks - prev_block_len)) (m_null_block m2)
                     else req_blocks)
          in bindR (if blocks_allocated
                    then reuse_loop (m_null_block m2) num_skipped_blocks [prev_block_len - spec..prev_block_len - 1] rb1
                    else Inr rb1) (\<lambda>rb2.
             let num_new_blocks = num_required_blocks - int (length rb2) in
             bindR (assertR (if blocks_allocated then num_new_blocks \<le> 1 else num_new_blocks \<le> spec + 1)) (\<lambda>_.
             bindR (get_new_blocks num_new_blocks p) (\<lambda>(new_blocks, p1).
               let rb3 = rb2 @ new_blocks;
                   m3 = (set_table rid rb3 m2)\<lparr>allocated_block_reqs := insert rid (allocated_block_reqs m2)\<rparr>
               in Inr (drop (length req_blocks) rb3, m3, p1))))))"

definition allocate_new_blocks ::
  "req_id \<Rightarrow> int \<Rightarrow> int \<Rightarrow> manager \<times> block_pool \<Rightarrow> (block_ref list \<times> manager \<times> block_pool) res" where
  "allocate_new_blocks rid ntokens main_tokens = (\<lambda>(m, p).
     case mspec m of
       MambaSpec f \<Rightarrow>
         if mf_mamba_cache_mode f \<noteq> ''align''
         then base_allocate_new_blocks rid
                (if mf_num_speculative_blocks f > 0
                 then ntokens + block_size m * mf_num_speculative_blocks f else ntokens) (m, p)
         else mamba_align_allocate f rid main_tokens (m, p)
     | _ \<Rightarrow> base_allocate_new_blocks rid ntokens (m, p))"

definition take_new_block_ids :: "manager \<Rightarrow> int list \<times> manager" where
  "take_new_block_ids m = (new_block_ids m, m\<lparr>new_block_ids := []\<rparr>)"

section \<open>Caching and freeing\<close>

definition base_cache_blocks ::
  "hash_env \<Rightarrow> request \<Rightarrow> int \<Rightarrow> manager \<times> block_pool \<Rightarrow> (manager \<times> block_pool \<times> request) res" where
  "base_cache_blocks env r ntokens = (\<lambda>(m, p).
     let rid = request_id r;
         num_cached_blocks = (case num_cached_block m rid of None \<Rightarrow> 0 | Some n \<Rightarrow> n);
         num_full_blocks = ntokens div block_size m
     in if int num_cached_blocks \<ge> num_full_blocks then Inr (m, p, r)
        else let (tbl, m1) = req_table rid m in
          bindR (cache_full_blocks env r tbl num_cached_blocks (nat num_full_blocks) (nat (block_size m1))
                   (kv_cache_group_id m1) p)
            (\<lambda>(p1, r1). Inr (m1\<lparr>num_cached_block := (num_cached_block m1)(rid \<mapsto> nat num_full_blocks)\<rparr>, p1, r1)))"

definition cached_this_step ::
  "block_pool \<Rightarrow> block_ref \<Rightarrow> bytes set \<Rightarrow> bytes set res" where
  "cached_this_step p b s =
     (if is_null (blocks p b) then Inr s
      else (case block_hash (blocks p b) of
              None \<Rightarrow> Inl AssertionError
            | Some h \<Rightarrow> Inr (insert h s)))"

definition mamba_cache_blocks ::
  "hash_env \<Rightarrow> request \<Rightarrow> int \<Rightarrow> manager \<times> block_pool \<Rightarrow> (manager \<times> block_pool \<times> request) res" where
  "mamba_cache_blocks env r ntokens = (\<lambda>(m, p).
     let rid = request_id r;
         before = (case num_cached_block m rid of None \<Rightarrow> 0 | Some n \<Rightarrow> n)
     in bindR (base_cache_blocks env r ntokens (m, p)) (\<lambda>(m1, p1, r1).
        let after = (case num_cached_block m1 rid of None \<Rightarrow> 0 | Some n \<Rightarrow> n) in
        if after > before then
          let (tbl, m2) = req_table rid m1 in
          bindR (foldR (cached_this_step p1) (py_slice before after tbl) (cached_blocks_this_step m2))
            (\<lambda>s. Inr (m2\<lparr>cached_blocks_this_step := s\<rparr>, p1, r1))
        else Inr (m1, p1, r1)))"

definition cache_blocks ::
  "hash_env \<Rightarrow> request \<Rightarrow> int \<Rightarrow> manager \<times> block_pool \<Rightarrow> (manager \<times> block_pool \<times> request) res" where
  "cache_blocks env r ntokens = (\<lambda>(m, p).
     case mspec m of
       MambaSpec _ \<Rightarrow> mamba_cache_blocks env r ntokens (m, p)
     | CrossAttentionSpec _ \<Rightarrow> Inl ValueError
     | _ \<Rightarrow> base_cache_blocks env r ntokens (m, p))"

definition base_free :: "req_id \<Rightarrow> manager \<times> block_pool \<Rightarrow> (manager \<times> block_pool) res" where
  "base_free rid = (\<lambda>(m, p).
     let req_blocks = table_of m rid;
         m1 = m\<lparr>req_to_blocks := od_del rid (req_to_blocks m)\<rparr>
     in bindR (free_blocks (rev req_blocks) p) (\<lambda>p1.
          Inr (m1\<lparr>num_cached_block := (num_cached_block m1)(rid := None)\<rparr>, p1)))"

definition free_request :: "req_id \<Rightarrow> manager \<times> block_pool \<Rightarrow> (manager \<times> block_pool) res" where
  "free_request rid = (\<lambda>(m, p).
     case mspec m of
       MambaSpec f \<Rightarrow>
         base_free rid
           (if mf_mamba_cache_mode f = ''align''
            then m\<lparr>allocated_block_reqs := allocated_block_reqs m - {rid},
                   last_state_block_idx := (last_state_block_idx m)(rid := None)\<rparr>
            else m, p)
     | _ \<Rightarrow> base_free rid (m, p))"

text \<open>The loop of \<^verbatim>\<open>remove_skipped_blocks\<close> downwards from block \<open>n - 1\<close>; it returns the removed
  blocks in the order they are appended and the updated table.\<close>

fun skip_loop :: "block_ref \<Rightarrow> nat \<Rightarrow> block_ref list \<Rightarrow> block_ref list \<Rightarrow> block_ref list \<times> block_ref list" where
  "skip_loop nb 0 tbl removed = (removed, tbl)"
| "skip_loop nb (Suc i) tbl removed =
     (if tbl ! i = nb then (removed, tbl)
      else skip_loop nb i (tbl[i := nb]) (removed @ [tbl ! i]))"

definition base_remove_skipped_blocks ::
  "req_id \<Rightarrow> int \<Rightarrow> manager \<times> block_pool \<Rightarrow> (manager \<times> block_pool) res" where
  "base_remove_skipped_blocks rid total_computed_tokens = (\<lambda>(m, p).
     let num_skipped_tokens = get_num_skipped_tokens m total_computed_tokens
     in if num_skipped_tokens \<le> 0 then Inr (m, p)
        else let (tbl, m1) = req_table rid m;
                 num_skipped_blocks = min (num_skipped_tokens div block_size m1) (int (length tbl));
                 (removed, tbl') = skip_loop (m_null_block m1) (nat num_skipped_blocks) tbl []
             in bindR (free_blocks removed p) (\<lambda>p1. Inr (set_table rid tbl' m1, p1)))"

definition mamba_remove_skipped_blocks ::
  "mamba_fields \<Rightarrow> req_id \<Rightarrow> int \<Rightarrow> manager \<times> block_pool \<Rightarrow> (manager \<times> block_pool) res" where
  "mamba_remove_skipped_blocks f rid ncomputed st =
     (let n = max 0 (ncomputed - mf_num_speculative_blocks f)
      in bindR (base_remove_skipped_blocks rid n st) (\<lambda>(m, p).
         if mf_mamba_cache_mode f = ''align'' then
           (case last_state_block_idx m rid of
              None \<Rightarrow> Inr (m, p)
            | Some idx \<Rightarrow>
                if idx < cdiv n (block_size m) - 1 then
                  let (tbl, m1) = req_table rid m in
                  bindR (py_get tbl idx) (\<lambda>b.
                    if b \<noteq> m_null_block m1
                    then bindR (free_blocks [b] p) (\<lambda>p1.
                         bindR (py_set tbl idx (m_null_block m1)) (\<lambda>tbl'.
                           Inr (set_table rid tbl' m1, p1)))
                    else Inr (m1, p))
                else Inr (m, p))
         else Inr (m, p)))"

definition remove_skipped_blocks ::
  "req_id \<Rightarrow> int \<Rightarrow> manager \<times> block_pool \<Rightarrow> (manager \<times> block_pool) res" where
  "remove_skipped_blocks rid total_computed_tokens = (\<lambda>(m, p).
     case mspec m of
       MambaSpec f \<Rightarrow> mamba_remove_skipped_blocks f rid total_computed_tokens (m, p)
     | _ \<Rightarrow> base_remove_skipped_blocks rid total_computed_tokens (m, p))"

definition new_step_starts :: "manager \<Rightarrow> manager" where
  "new_step_starts m = (if is_mamba (mspec m) then m\<lparr>cached_blocks_this_step := {}\<rparr> else m)"

fun count_common :: "block_pool \<Rightarrow> nat \<Rightarrow> block_ref list \<Rightarrow> int" where
  "count_common p n [] = 0"
| "count_common p n (b # bs) = (if ref_cnt (blocks p b) = int n then 1 + count_common p n bs else 0)"

definition get_num_common_prefix_blocks :: "req_id \<Rightarrow> manager \<Rightarrow> block_pool \<Rightarrow> int \<times> manager" where
  "get_num_common_prefix_blocks rid m p =
     (if is_full_attention (mspec m)
      then let (tbl, m1) = req_table rid m in (count_common p (length (req_to_blocks m1)) tbl, m1)
      else (0, m))"

section \<open>Prefix cache hits\<close>

definition append_each :: "block_ref list list \<Rightarrow> block_ref list \<Rightarrow> block_ref list list" where
  "append_each computed cached = map2 (\<lambda>c b. c @ [b]) computed cached"

text \<open>\<^verbatim>\<open>if cached_block := ...\<close> also fails on an empty list, which only an empty list of groups
  gives.\<close>

definition lookup_hit :: "block_pool \<Rightarrow> bytes \<Rightarrow> int list \<Rightarrow> block_ref list option res" where
  "lookup_hit p h gids = bindR (get_cached_block p h gids) (\<lambda>c. Inr (if c = Some [] then None else c))"

text \<open>The forward loop over the hashes at positions \<open>i\<close> to \<open>i + n - 1\<close>, stopping at the first miss.\<close>

fun hit_forward ::
  "block_pool \<Rightarrow> block_hash_list \<Rightarrow> int list \<Rightarrow> nat \<Rightarrow> nat \<Rightarrow> block_ref list list \<Rightarrow> block_ref list list res" where
  "hit_forward p bhl gids i 0 computed = Inr computed"
| "hit_forward p bhl gids i (Suc n) computed =
     bindR (bhl_get bhl i) (\<lambda>h.
     bindR (lookup_hit p h gids) (\<lambda>c.
       case c of
         None \<Rightarrow> Inr computed
       | Some cached \<Rightarrow> hit_forward p bhl gids (Suc i) n (append_each computed cached)))"

definition pop_each :: "block_ref list list \<Rightarrow> block_ref list list" where
  "pop_each computed = map butlast computed"

text \<open>The loop that drops trailing blocks until the hit length is aligned. It ends at the latest
  with no block left; \<open>n\<close> is the number of blocks of the first group.\<close>

fun align_loop :: "int \<Rightarrow> int \<Rightarrow> nat \<Rightarrow> block_ref list list \<Rightarrow> block_ref list list" where
  "align_loop bs alignment_tokens 0 computed = computed"
| "align_loop bs alignment_tokens (Suc n) computed =
     (if bs \<noteq> alignment_tokens \<and> int (Suc n) * bs mod alignment_tokens \<noteq> 0
      then align_loop bs alignment_tokens n (pop_each computed)
      else computed)"

definition cp_block_size :: "kv_cache_spec \<Rightarrow> int \<Rightarrow> int \<Rightarrow> int" where
  "cp_block_size spec dcp pcp = (if dcp * pcp > 1 then spec_block_size spec * (dcp * pcp) else spec_block_size spec)"

fun is_chunked_local :: "kv_cache_spec \<Rightarrow> bool" where
  "is_chunked_local (ChunkedLocalAttentionSpec _ _) = True"
| "is_chunked_local _ = False"

definition full_find_longest_cache_hit ::
  "block_hash_list \<Rightarrow> int \<Rightarrow> int list \<Rightarrow> block_pool \<Rightarrow> kv_cache_spec \<Rightarrow> bool \<Rightarrow> int \<Rightarrow> int \<Rightarrow> int \<Rightarrow>
   block_ref list list res" where
  "full_find_longest_cache_hit bhl max_length gids p spec use_eagle alignment_tokens dcp pcp =
     bindR (assertR (is_full_attention spec \<or> is_chunked_local spec)) (\<lambda>_.
       let bs = cp_block_size spec dcp pcp;
           max_num_blocks = nat (max_length div bs)
       in bindR (hit_forward p bhl gids 0 (min max_num_blocks (bhl_len bhl)) (map (\<lambda>_. []) gids)) (\<lambda>computed.
          bindR (py_get computed 0) (\<lambda>first.
            let c1 = (if use_eagle \<and> first \<noteq> [] then pop_each computed else computed)
            in Inr (align_loop bs alignment_tokens (length (hd c1)) c1))))"

text \<open>The right-to-left search of the sliding window manager: \<open>i\<close> counts the positions left. It
  returns the tables, the contiguous count and whether a match was found.\<close>

fun sliding_loop ::
  "block_pool \<Rightarrow> block_hash_list \<Rightarrow> int list \<Rightarrow> int \<Rightarrow> int \<Rightarrow> int \<Rightarrow> nat \<Rightarrow> nat \<Rightarrow> block_ref list list \<Rightarrow>
   (block_ref list list \<times> nat \<times> bool) res" where
  "sliding_loop p bhl gids bs alignment_tokens need 0 num_contiguous computed =
     Inr (computed, num_contiguous, False)"
| "sliding_loop p bhl gids bs alignment_tokens need (Suc i) num_contiguous computed =
     bindR (bhl_get bhl i) (\<lambda>h.
     bindR (lookup_hit p h gids) (\<lambda>c.
       case c of
         None \<Rightarrow> sliding_loop p bhl gids bs alignment_tokens need i 0 computed
       | Some cached \<Rightarrow>
           if num_contiguous = 0 \<and> bs \<noteq> alignment_tokens \<and> (int i + 1) * bs mod alignment_tokens \<noteq> 0
           then sliding_loop p bhl gids bs alignment_tokens need i num_contiguous computed
           else let computed' = map2 (\<lambda>l b. l[i := b]) computed cached;
                    n' = num_contiguous + 1
                in if int n' \<ge> need then Inr (map (take (i + n')) computed', n', True)
                   else sliding_loop p bhl gids bs alignment_tokens need i n' computed'))"

definition sliding_find_longest_cache_hit ::
  "block_hash_list \<Rightarrow> int \<Rightarrow> int list \<Rightarrow> block_pool \<Rightarrow> kv_cache_spec \<Rightarrow> bool \<Rightarrow> int \<Rightarrow> int \<Rightarrow> int \<Rightarrow>
   block_ref list list res" where
  "sliding_find_longest_cache_hit bhl max_length gids p spec use_eagle alignment_tokens dcp pcp =
     (case spec of
        SlidingWindowSpec a w \<Rightarrow>
          bindR (assertR (dcp = 1)) (\<lambda>_. bindR (assertR (pcp = 1)) (\<lambda>_.
            let bs = af_block_size a;
                need = cdiv (w - 1) bs + (if use_eagle then 1 else 0);
                max_num_blocks = nat (max_length div bs);
                init = map (\<lambda>_. replicate max_num_blocks (null_block p)) gids
            in bindR (sliding_loop p bhl gids bs alignment_tokens need max_num_blocks 0 init)
                 (\<lambda>(computed, num_contiguous, match_found).
                    bindR (py_get computed 0) (\<lambda>_.
                    let c1 = (if match_found then computed
                              else let c = map (take num_contiguous) computed
                                   in align_loop bs alignment_tokens (length (hd c)) c)
                    in if use_eagle \<and> hd c1 \<noteq> []
                       then bindR (assertR (bs = alignment_tokens)) (\<lambda>_. Inr (pop_each c1))
                       else Inr c1))))
      | _ \<Rightarrow> Inl AssertionError)"

definition chunked_find_longest_cache_hit ::
  "block_hash_list \<Rightarrow> int \<Rightarrow> int list \<Rightarrow> block_pool \<Rightarrow> kv_cache_spec \<Rightarrow> bool \<Rightarrow> int \<Rightarrow> int \<Rightarrow> int \<Rightarrow>
   block_ref list list res" where
  "chunked_find_longest_cache_hit bhl max_length gids p spec use_eagle alignment_tokens dcp pcp =
     (case spec of
        ChunkedLocalAttentionSpec a chunk \<Rightarrow>
          bindR (assertR (\<not> use_eagle)) (\<lambda>_. bindR (assertR (dcp = 1)) (\<lambda>_. bindR (assertR (pcp = 1)) (\<lambda>_.
          bindR (assertR (af_block_size a = alignment_tokens)) (\<lambda>_.
            let bs = af_block_size a;
                max_num_blocks = nat (max_length div bs);
                local_attention_start_idx = (if max_length > 0 then max_length div chunk * chunk else 0);
                start_block = nat (local_attention_start_idx div bs);
                init = map (\<lambda>_. replicate start_block (null_block p)) gids
            in hit_forward p bhl gids start_block (max_num_blocks - start_block) init))))
      | _ \<Rightarrow> Inl AssertionError)"

fun mamba_loop ::
  "block_pool \<Rightarrow> block_hash_list \<Rightarrow> int list \<Rightarrow> int \<Rightarrow> int \<Rightarrow> nat \<Rightarrow> block_ref list list res" where
  "mamba_loop p bhl gids bs alignment_tokens 0 = Inr (map (\<lambda>_. []) gids)"
| "mamba_loop p bhl gids bs alignment_tokens (Suc i) =
     bindR (bhl_get bhl i) (\<lambda>h.
     bindR (lookup_hit p h gids) (\<lambda>c.
       case c of
         None \<Rightarrow> mamba_loop p bhl gids bs alignment_tokens i
       | Some cached \<Rightarrow>
           if bs \<noteq> alignment_tokens \<and> (int i + 1) * bs mod alignment_tokens \<noteq> 0
           then mamba_loop p bhl gids bs alignment_tokens i
           else Inr (map (\<lambda>b. replicate i (null_block p) @ [b]) cached)))"

definition mamba_find_longest_cache_hit ::
  "block_hash_list \<Rightarrow> int \<Rightarrow> int list \<Rightarrow> block_pool \<Rightarrow> kv_cache_spec \<Rightarrow> bool \<Rightarrow> int \<Rightarrow> int \<Rightarrow> int \<Rightarrow>
   block_ref list list res" where
  "mamba_find_longest_cache_hit bhl max_length gids p spec use_eagle alignment_tokens dcp pcp =
     bindR (assertR (is_mamba spec)) (\<lambda>_. bindR (assertR (dcp = 1)) (\<lambda>_. bindR (assertR (pcp = 1)) (\<lambda>_.
       let bs = spec_block_size spec
       in mamba_loop p bhl gids bs alignment_tokens (nat (max_length div bs)))))"

text \<open>The class method of the manager class of the specification.\<close>

definition find_longest_cache_hit ::
  "kv_cache_spec \<Rightarrow> block_hash_list \<Rightarrow> int \<Rightarrow> int list \<Rightarrow> block_pool \<Rightarrow> bool \<Rightarrow> int \<Rightarrow> int \<Rightarrow> int \<Rightarrow>
   block_ref list list res" where
  "find_longest_cache_hit spec bhl max_length gids p use_eagle alignment_tokens dcp pcp =
     (case spec of
        SlidingWindowSpec _ _ \<Rightarrow> sliding_find_longest_cache_hit bhl max_length gids p spec use_eagle alignment_tokens dcp pcp
      | ChunkedLocalAttentionSpec _ _ \<Rightarrow> chunked_find_longest_cache_hit bhl max_length gids p spec use_eagle alignment_tokens dcp pcp
      | MambaSpec _ \<Rightarrow> mamba_find_longest_cache_hit bhl max_length gids p spec use_eagle alignment_tokens dcp pcp
      | CrossAttentionSpec _ \<Rightarrow> Inl NotImplementedError
      | EncoderOnlyAttentionSpec _ \<Rightarrow> Inl KeyError
      | UniformTypeKVCacheSpecs _ _ \<Rightarrow> Inl KeyError
      | _ \<Rightarrow> full_find_longest_cache_hit bhl max_length gids p spec use_eagle alignment_tokens dcp pcp)"

end
