(* ===== verification/Single_Type_Inv.thy ===== *)
theory Single_Type_Inv
  imports Single_Type_Manager
begin

text \<open>
  The managers keep the accounting of references: \<open>mgr_inv m p R\<close> says that the references
  counted by the pool are those of the manager's block tables plus \<open>R\<close>, the references
  of everybody else. Every operation that changes a table keeps it, and the number
  \<^verbatim>\<open>get_num_blocks_to_allocate\<close> returns is enough for the allocation that follows.
\<close>

section \<open>Tables\<close>

definition tables_held :: "(req_id, block_ref list) odict \<Rightarrow> block_ref multiset" where
  "tables_held d = sum_list (map (\<lambda>(_, bs). held bs) d)"

definition tbl_in :: "(req_id, block_ref list) odict \<Rightarrow> req_id \<Rightarrow> block_ref list" where
  "tbl_in d rid = (case od_get d rid of Some bs \<Rightarrow> bs | None \<Rightarrow> [])"

lemma table_of_tbl_in: "table_of m rid = tbl_in (req_to_blocks m) rid"
  by (simp add: table_of_def tbl_in_def)

lemma tables_held_set: "tables_held (od_set k bs d) + held (tbl_in d k) = tables_held d + held bs"
  by (induction k bs d rule: od_set.induct) (auto simp: tables_held_def tbl_in_def union_ac)

lemma tables_held_del: "od_wf d \<Longrightarrow> tables_held (od_del k d) + held (tbl_in d k) = tables_held d"
proof (induction d)
  case (Cons x d)
  obtain k' bs where x: "x = (k', bs)" by (cases x)
  show ?case
  proof (cases "k' = k")
    case True
    with Cons.prems x have "k \<notin> set (od_keys d)" by (auto simp: od_wf_def)
    with True x show ?thesis by (simp add: tables_held_def tbl_in_def od_del_absent union_ac)
  next
    case False
    with Cons x show ?thesis by (simp add: tables_held_def tbl_in_def od_wf_def union_ac)
  qed
qed (simp add: tables_held_def tbl_in_def)

lemma held_tbl_subset: "held (tbl_in d k) \<subseteq># tables_held d"
  by (induction d) (auto simp: tables_held_def tbl_in_def intro: subset_mset.add_increasing)

lemma tbl_in_set [simp]: "tbl_in (od_set k bs d) k' = (if k' = k then bs else tbl_in d k')"
  by (simp add: tbl_in_def)

lemma tbl_in_del [simp]: "tbl_in (od_del k d) k' = (if k' = k then [] else tbl_in d k')"
  by (simp add: tbl_in_def)

section \<open>The invariant\<close>

definition mgr_inv :: "manager \<Rightarrow> block_pool \<Rightarrow> block_ref multiset \<Rightarrow> bool" where
  "mgr_inv m p R \<longleftrightarrow> pool_inv p (R + tables_held (req_to_blocks m)) \<and> od_wf (req_to_blocks m) \<and>
     (\<forall>rid. distinct (filter (\<lambda>b. b \<noteq> Blk 0) (table_of m rid))) \<and>
     m_null_block m = Blk 0 \<and> 0 < block_size m"

text \<open>The fields of a manager that allocation does not change.\<close>

definition same_mgr :: "manager \<Rightarrow> manager \<Rightarrow> bool" where
  "same_mgr m m' \<longleftrightarrow> mspec m' = mspec m \<and> block_size m' = block_size m \<and> m_enable_caching m' = m_enable_caching m \<and>
     kv_cache_group_id m' = kv_cache_group_id m \<and> m_null_block m' = m_null_block m"

lemma same_mgr_refl [simp]: "same_mgr m m"
  by (simp add: same_mgr_def)

lemma same_mgr_trans: "same_mgr m m1 \<Longrightarrow> same_mgr m1 m2 \<Longrightarrow> same_mgr m m2"
  by (simp add: same_mgr_def)

lemma set_table_simps [simp]:
  "req_to_blocks (set_table rid bs m) = od_set rid bs (req_to_blocks m)"
  "table_of (set_table rid bs m) rid' = (if rid' = rid then bs else table_of m rid')"
  "num_cached_block (set_table rid bs m) = num_cached_block m"
  "same_mgr m' (set_table rid bs m) = same_mgr m' m"
  "mspec (set_table rid bs m) = mspec m"
  "block_size (set_table rid bs m) = block_size m"
  "m_null_block (set_table rid bs m) = m_null_block m"
  by (simp_all add: set_table_def table_of_tbl_in same_mgr_def)

lemma num_cached_upd_simps [simp]:
  "table_of (m\<lparr>num_cached_block := c\<rparr>) = table_of m"
  "same_mgr m' (m\<lparr>num_cached_block := c\<rparr>) = same_mgr m' m"
  by (simp_all add: table_of_def same_mgr_def fun_eq_iff)

lemma note_new_ids_simps [simp]:
  "req_to_blocks (note_new_ids bs m) = req_to_blocks m"
  "table_of (note_new_ids bs m) = table_of m"
  "num_cached_block (note_new_ids bs m) = num_cached_block m"
  "same_mgr m' (note_new_ids bs m) = same_mgr m' m"
  "block_size (note_new_ids bs m) = block_size m"
  "m_null_block (note_new_ids bs m) = m_null_block m"
  by (auto simp: note_new_ids_def table_of_def same_mgr_def fun_eq_iff split: kv_cache_spec.splits)

lemma req_table_cases:
  obtains m' where "req_table rid m = (table_of m rid, m')" "tables_held (req_to_blocks m') = tables_held (req_to_blocks m)"
    "table_of m' = table_of m" "od_wf (req_to_blocks m) \<Longrightarrow> od_wf (req_to_blocks m')" "same_mgr m m'"
    "num_cached_block m' = num_cached_block m" "rid \<in> set (od_keys (req_to_blocks m'))"
    "allocated_block_reqs m' = allocated_block_reqs m" "last_state_block_idx m' = last_state_block_idx m"
proof (cases "od_get (req_to_blocks m) rid")
  case None
  let ?m = "m\<lparr>req_to_blocks := od_set rid [] (req_to_blocks m)\<rparr>"
  have "tables_held (req_to_blocks ?m) = tables_held (req_to_blocks m)"
    using tables_held_set [of rid "[]" "req_to_blocks m"] None by (simp add: tbl_in_def)
  moreover have "table_of ?m = table_of m" using None by (auto simp: table_of_def)
  moreover have "rid \<in> set (od_keys (req_to_blocks ?m))" by (simp add: od_keys_set)
  ultimately show thesis using that [of ?m] None by (simp add: req_table_def table_of_def same_mgr_def)
next
  case (Some bs)
  then have "rid \<in> set (od_keys (req_to_blocks m))" by (metis od_get_None_iff option.distinct(1))
  then show thesis using that [of m] Some by (simp add: req_table_def table_of_def)
qed

lemma mgr_inv_req_table:
  assumes "mgr_inv m p R" "tables_held (req_to_blocks m') = tables_held (req_to_blocks m)" "table_of m' = table_of m"
    "od_wf (req_to_blocks m')" "same_mgr m m'"
  shows "mgr_inv m' p R"
  using assms by (simp add: mgr_inv_def same_mgr_def)

lemma pool_inv_real: "pool_inv p H \<Longrightarrow> b \<in># H \<Longrightarrow> real_block p b"
  unfolding pool_inv_def pool_rep_def by blast

lemma table_blocks_real:
  assumes "mgr_inv m p R"
  shows "\<forall>b\<in>set (table_of m rid). real_block p b \<or> b = Blk 0"
proof
  fix b assume b: "b \<in> set (table_of m rid)"
  have "b = Blk 0 \<or> b \<in># held (table_of m rid)" using b by (auto simp: held_def)
  moreover have "held (table_of m rid) \<subseteq># R + tables_held (req_to_blocks m)"
    using held_tbl_subset by (simp add: table_of_tbl_in subset_mset.add_increasing)
  ultimately show "real_block p b \<or> b = Blk 0"
    using assms pool_inv_real by (metis mgr_inv_def mset_subset_eqD)
qed

text \<open>Replacing the table of a request when the pool has been updated accordingly.\<close>

lemma mgr_inv_set_table:
  assumes "mgr_inv m p R" "pool_inv p' (R + tables_held (req_to_blocks m) + held new)"
    "distinct (filter (\<lambda>b. b \<noteq> Blk 0) (table_of m rid @ new))"
  shows "mgr_inv (set_table rid (table_of m rid @ new) m) p' R"
proof -
  have "tables_held (od_set rid (table_of m rid @ new) (req_to_blocks m)) = tables_held (req_to_blocks m) + held new"
    using tables_held_set [of rid "table_of m rid @ new" "req_to_blocks m"] by (simp add: table_of_tbl_in)
  then show ?thesis using assms by (simp add: mgr_inv_def union_assoc)
qed

section \<open>Allocation\<close>

lemma card_set_mset_union: "card (set_mset (A + B)) \<le> card (set_mset A) + card (set_mset B - set_mset A)"
proof -
  have "set_mset (A + B) = set_mset A \<union> (set_mset B - set_mset A)" by auto
  then show ?thesis by (metis card_Un_le)
qed

lemma card_set_mset_add_list: "card (set_mset (A + mset xs)) \<le> card (set_mset A) + length xs"
proof -
  have "card (set xs - set_mset A) \<le> length xs"
    by (rule order_trans [OF card_mono card_length]) auto
  then show ?thesis using card_set_mset_union [of A "mset xs"] by simp
qed

lemma base_allocate_new_blocks_spec:
  fixes rid :: req_id and n :: int
  assumes "mgr_inv m p R"
  defines "k \<equiv> cdiv n (block_size m) - int (length (table_of m rid))"
  shows "if k \<le> 0
         then \<exists>m'. base_allocate_new_blocks rid n (m, p) = Inr ([], m', p) \<and> mgr_inv m' p R \<and>
                table_of m' = table_of m \<and> same_mgr m m' \<and> num_cached_block m' = num_cached_block m
         else if k \<le> get_num_free_blocks p
         then \<exists>new m' p'. base_allocate_new_blocks rid n (m, p) = Inr (new, m', p') \<and> mgr_inv m' p' R \<and>
                table_of m' = (table_of m)(rid := table_of m rid @ new) \<and> int (length new) = k \<and>
                (\<forall>b\<in>set new. real_block p b) \<and> same_mgr m m' \<and> num_cached_block m' = num_cached_block m \<and>
                pool_cap p' = pool_cap p \<and> same_config p p' \<and> get_num_free_blocks p - k \<le> get_num_free_blocks p'
         else base_allocate_new_blocks rid n (m, p) = Inl ValueError"
proof -
  obtain m1 where m1: "req_table rid m = (table_of m rid, m1)" "tables_held (req_to_blocks m1) = tables_held (req_to_blocks m)"
    "table_of m1 = table_of m" "od_wf (req_to_blocks m1)" "same_mgr m m1" "num_cached_block m1 = num_cached_block m"
    using req_table_cases [of rid m] assms(1) unfolding mgr_inv_def by metis
  have inv1: "mgr_inv m1 p R" by (rule mgr_inv_req_table [OF assms(1) m1(2-5)])
  have bs: "block_size m1 = block_size m" using m1(5) by (simp add: same_mgr_def)
  have pinv: "pool_inv p (R + tables_held (req_to_blocks m))" using assms(1) by (simp add: mgr_inv_def)
  consider (none) "k \<le> 0" | (ok) "0 < k" "k \<le> get_num_free_blocks p" | (err) "0 < k" "get_num_free_blocks p < k" by linarith
  then show ?thesis
  proof cases
    case none
    then have "base_allocate_new_blocks rid n (m, p) = Inr ([], m1, p)"
      by (simp add: base_allocate_new_blocks_def m1(1) bs k_def Let_def)
    then show ?thesis using none inv1 m1(3,5,6) by simp
  next
    case ok
    obtain new p' where new: "get_new_blocks k p = Inr (new, p')" "length new = nat k" "distinct new"
      "set new \<inter> set_mset (R + tables_held (req_to_blocks m)) = {}" "\<forall>b\<in>set new. b \<noteq> Blk 0 \<and> real_block p b"
      "pool_inv p' (R + tables_held (req_to_blocks m) + mset new)" "pool_cap p' = pool_cap p" "same_config p p'"
      using bp.get_ok [OF pinv _ ok(2)] ok(1) by auto
    have hn: "held new = mset new" using new(5) by (simp add: held_def filter_id_conv)
    have dis: "set (table_of m rid) \<inter> set new = {}"
    proof -
      have "b \<in># R + tables_held (req_to_blocks m)" if "b \<in> set (table_of m rid)" "b \<noteq> Blk 0" for b
      proof -
        have "b \<in># held (tbl_in (req_to_blocks m) rid)" using that by (simp add: held_def table_of_tbl_in)
        then show ?thesis using held_tbl_subset mset_subset_eqD by fastforce
      qed
      then show ?thesis using new(4,5) by auto
    qed
    let ?m = "note_new_ids new (set_table rid (table_of m rid @ new) m1)"
    have "mgr_inv (set_table rid (table_of m1 rid @ new) m1) p' R"
    proof (rule mgr_inv_set_table [OF inv1])
      show "pool_inv p' (R + tables_held (req_to_blocks m1) + held new)" using new(6) hn m1(2) by simp
      show "distinct (filter (\<lambda>b. b \<noteq> Blk 0) (table_of m1 rid @ new))"
        using assms(1) new(3) dis m1(3) by (auto simp: mgr_inv_def)
    qed
    then have "mgr_inv ?m p' R" by (simp add: mgr_inv_def m1(3))
    moreover have "base_allocate_new_blocks rid n (m, p) = Inr (new, ?m, p')"
      using ok new(1) by (simp add: base_allocate_new_blocks_def m1(1) bs k_def Let_def)
    moreover have "table_of ?m = (table_of m)(rid := table_of m rid @ new)" by (auto simp: m1(3))
    moreover have "get_num_free_blocks p - k \<le> get_num_free_blocks p'"
      using card_set_mset_add_list [of "R + tables_held (req_to_blocks m)" new] bp.avail_eq [OF pinv] bp.avail_eq [OF new(6)]
        new(2,7) ok(1) by simp
    ultimately show ?thesis using ok new(2,5,7,8) m1(5,6) by auto
  next
    case err
    then have "get_new_blocks k p = Inl ValueError" using bp.get_err [OF pinv] by simp
    then show ?thesis using err by (simp add: base_allocate_new_blocks_def m1(1) bs k_def Let_def)
  qed
qed

lemma distinct_filter_drop: "distinct (filter P xs) \<Longrightarrow> distinct (filter P (drop n xs))"
  by (metis append_take_drop_id filter_append distinct_append)

lemma le_cdiv: "0 < b \<Longrightarrow> k * b \<le> a \<Longrightarrow> k \<le> cdiv a b"
  using int_le_div_iff [of b k a] div_le_cdiv [of b a] by simp

text \<open>Touching takes at most the evictable blocks away from what is free.\<close>

lemma touch_avail:
  assumes "pool_inv p H" "\<forall>b\<in>set bs. real_block p b \<or> b = Blk 0"
  shows "\<exists>p'. touch bs p = Inr p' \<and> pool_inv p' (H + held bs) \<and> pool_cap p' = pool_cap p \<and>
           real_block p' = real_block p \<and> same_config p p' \<and> get_num_free_blocks p - get_num_evictable_blocks p bs \<le> get_num_free_blocks p'"
proof -
  obtain p' where p': "touch bs p = Inr p'" "pool_inv p' (H + held bs)" "pool_cap p' = pool_cap p" "real_block p' = real_block p" "same_config p p'"
    using bp.tch_ok [OF assms] by (auto simp: held_def)
  obtain fs where fs: "cnt_inv p fs H" using assms(1) by (auto simp: pool_inv_def pool_rep_split)
  let ?ev = "filter (\<lambda>b. ref_cnt (blocks p b) = 0 \<and> \<not> is_null (blocks p b)) bs"
  have "set_mset (held bs) - set_mset H \<subseteq> set ?ev"
  proof
    fix b assume b: "b \<in> set_mset (held bs) - set_mset H"
    then have "b \<in> set bs" "b \<noteq> Blk 0" "count H b = 0" by (auto simp: held_def count_eq_zero_iff)
    then show "b \<in> set ?ev" using assms(2) cnt_invD(5,6) [OF fs, of b] by auto
  qed
  then have "card (set_mset (held bs) - set_mset H) \<le> length ?ev"
    by (meson List.finite_set card_length card_mono order_trans)
  then have "int (card (set_mset (H + held bs))) \<le> int (card (set_mset H)) + get_num_evictable_blocks p bs"
    using card_set_mset_union [of H "held bs"] by (simp add: get_num_evictable_blocks_def)
  then show ?thesis using p' bp.avail_eq [OF assms(1)] bp.avail_eq [OF p'(2)] by auto
qed

text \<open>A specification whose window is not degenerate: the skipped tokens never exceed the computed ones.\<close>

definition window_ok :: "kv_cache_spec \<Rightarrow> bool" where
  "window_ok spec = (case spec of SlidingWindowSpec _ w \<Rightarrow> 1 \<le> w | ChunkedLocalAttentionSpec _ c \<Rightarrow> 0 < c | _ \<Rightarrow> True)"

lemma skipped_le:
  assumes "window_ok (mspec m)" "0 \<le> n"
  shows "get_num_skipped_tokens m n \<le> n"
proof -
  have "(n div c) * c \<le> n" if "0 < c" for c :: int using that by (simp add: minus_mod_eq_div_mult [symmetric])
  then show ?thesis
    using assms by (auto simp: get_num_skipped_tokens_def window_ok_def split: kv_cache_spec.splits)
qed

lemma skipped_blocks_le:
  assumes "window_ok (mspec m)" "0 \<le> n" "0 < block_size m"
  shows "get_num_skipped_tokens m n div block_size m \<le> cdiv n (block_size m)"
  using zdiv_mono1 [OF skipped_le [OF assms(1,2)] assms(3)] div_le_cdiv [OF assms(3), of n] by linarith

lemma computed_blocks_spec:
  fixes m :: manager
  assumes inv: "mgr_inv m p R" and new: "num_cached_block m rid = None" "table_of m rid = []"
    and win: "window_ok (mspec m)" and pos: "0 \<le> nlocal" "0 \<le> nexternal"
    and ncb: "int (length ncb) * block_size m \<le> nlocal" "\<forall>b\<in>set ncb. real_block p b \<or> b = Blk 0"
      "distinct (filter (\<lambda>b. b \<noteq> Blk 0) ncb)" "m_enable_caching m \<or> ncb = []"
  defines "skip \<equiv> get_num_skipped_tokens m (nlocal + nexternal)"
  defines "S \<equiv> nat (skip div block_size m)"
  defines "L \<equiv> max S (length ncb)"
  defines "E \<equiv> (if skip div block_size m > 0 then min (nlocal + nexternal - skip) nexternal else nexternal)"
  defines "a \<equiv> (if E > 0 then cdiv (nlocal + nexternal) (block_size m) - int L else 0)"
  assumes enough: "a + get_num_evictable_blocks p (drop S ncb) \<le> get_num_free_blocks p"
  shows "\<exists>m' p' ext. base_allocate_new_computed_blocks rid ncb nlocal nexternal (m, p) = Inr (m', p') \<and>
     mgr_inv m' p' R \<and> table_of m' = (table_of m)(rid := replicate S (Blk 0) @ drop S ncb @ ext) \<and> int (length ext) = a \<and>
     same_mgr m m' \<and> num_cached_block m' = (num_cached_block m)(rid \<mapsto> L) \<and> real_block p' = real_block p \<and> same_config p p' \<and>
     get_num_free_blocks p - get_num_evictable_blocks p (drop S ncb) - a \<le> get_num_free_blocks p'"
proof -
  let ?T = "nlocal + nexternal" and ?bs = "block_size m" and ?nc = "drop S ncb"
  let ?H = "R + tables_held (req_to_blocks m)"
  obtain m1 where m1: "req_table rid m = ([], m1)" "tables_held (req_to_blocks m1) = tables_held (req_to_blocks m)"
    "table_of m1 = table_of m" "od_wf (req_to_blocks m1)" "same_mgr m m1" "num_cached_block m1 = num_cached_block m"
    using req_table_cases [of rid m] inv new(2) unfolding mgr_inv_def by metis
  have inv1: "mgr_inv m1 p R" by (rule mgr_inv_req_table [OF inv m1(2-5)])
  have sm: "block_size m1 = ?bs" "m_enable_caching m1 = m_enable_caching m" "get_num_skipped_tokens m1 = get_num_skipped_tokens m"
    "m_null_block m1 = Blk 0" "0 < ?bs"
    using m1(5) inv by (auto simp: same_mgr_def get_num_skipped_tokens_def mgr_inv_def fun_eq_iff)
  have nc: "(if skip div ?bs > 0 then drop (nat (skip div ?bs)) ncb else ncb) = ?nc" by (simp add: S_def)
  have "\<forall>b\<in>set ?nc. real_block p b \<or> b = Blk 0" using ncb(2) by (auto dest: in_set_dropD)
  then obtain p1 where p1: "touch ?nc p = Inr p1" "pool_inv p1 (?H + held ?nc)" "pool_cap p1 = pool_cap p" "real_block p1 = real_block p"
    "get_num_free_blocks p - get_num_evictable_blocks p ?nc \<le> get_num_free_blocks p1" "same_config p p1"
    using touch_avail [of p ?H ?nc] inv unfolding mgr_inv_def by blast
  have t: "(if m_enable_caching m1 then touch ?nc p else bindR (assertR (?nc = [])) (\<lambda>_. Inr p)) = Inr p1"
    using p1(1) ncb(4) sm(2) by (auto simp: touch_def)
  let ?rb = "replicate S (Blk 0) @ ?nc"
  have len: "length ?rb = L" by (simp add: L_def)
  let ?m2 = "(set_table rid ?rb m1)\<lparr>num_cached_block := (num_cached_block m1)(rid \<mapsto> length ?rb)\<rparr>"
  have hd: "held ?rb = held ?nc" by (simp add: held_def)
  have dis: "distinct (filter (\<lambda>b. b \<noteq> Blk 0) ?rb)" using distinct_filter_drop [OF ncb(3)] by simp
  have inv2: "mgr_inv (set_table rid ?rb m1) p1 R"
    using mgr_inv_set_table [OF inv1, of p1 ?rb rid] p1(2) hd dis m1(2,3) new(2) by simp
  then have inv2': "mgr_inv ?m2 p1 R" by (simp add: mgr_inv_def table_of_def)
  have tab2: "table_of ?m2 = (table_of m)(rid := ?rb)" using m1(3) by (auto simp: fun_eq_iff)
  have step: "base_allocate_new_computed_blocks rid ncb nlocal nexternal (m, p) =
      (if E > 0 then bindR (get_new_blocks (cdiv ?T ?bs - int (length ?rb)) p1)
                      (\<lambda>(allocated, p2). Inr (note_new_ids allocated (set_table rid (?rb @ allocated) ?m2), p2))
       else Inr (?m2, p1))"
    unfolding base_allocate_new_computed_blocks_def prod.case m1(1) Let_def sm(1,3,4) skip_def [symmetric] nc E_def [symmetric] t
    using new(1) by (simp add: sm(1) S_def)
  show ?thesis
  proof (cases "E > 0")
    case False
    then show ?thesis
      using step inv2' tab2 m1(5,6) p1(4,5,6) len by (intro exI [of _ ?m2] exI [of _ p1] exI [of _ "[]"]) (simp add: a_def)
  next
    case True
    have "int (length ncb) \<le> cdiv ?T ?bs"
      using le_cdiv [OF sm(5), of "int (length ncb)" ?T] ncb(1) pos by linarith
    moreover have "skip div ?bs \<le> cdiv ?T ?bs" unfolding skip_def using skipped_blocks_le [OF win _ sm(5)] pos by simp
    moreover have "0 \<le> cdiv ?T ?bs" using cdiv_nonneg [OF sm(5)] pos by simp
    ultimately have a0: "0 \<le> a" using True by (simp add: a_def L_def S_def)
    have ap: "a = cdiv ?T ?bs - int (length ?rb)" using True len by (simp add: a_def)
    obtain ext p2 where e: "get_new_blocks a p1 = Inr (ext, p2)" "length ext = nat a" "distinct ext"
      "set ext \<inter> set_mset (?H + held ?nc) = {}" "\<forall>b\<in>set ext. b \<noteq> Blk 0 \<and> real_block p1 b"
      "pool_inv p2 (?H + held ?nc + mset ext)" "pool_cap p2 = pool_cap p1" "real_block p2 = real_block p1" "same_config p1 p2"
      using bp.get_ok [OF p1(2) a0] enough p1(5) by auto
    have he: "held ext = mset ext" using e(5) by (simp add: held_def filter_id_conv)
    have "set ?nc \<inter> set ext = {}" using e(4,5) by (auto simp: held_def)
    then have dis': "distinct (filter (\<lambda>b. b \<noteq> Blk 0) (?rb @ ext))" using dis e(3,5) by auto
    have pe: "pool_inv p2 (R + tables_held (req_to_blocks ?m2) + held ext)"
    proof -
      have "tables_held (req_to_blocks ?m2) = tables_held (req_to_blocks m) + held ?nc"
        using tables_held_set [of rid ?rb "req_to_blocks m1"] hd m1(2) table_of_tbl_in [of m1 rid] m1(3) new(2) by simp
      then show ?thesis using e(6) he by (simp add: union_assoc)
    qed
    let ?m3 = "note_new_ids ext (set_table rid (?rb @ ext) ?m2)"
    have "mgr_inv (set_table rid (table_of ?m2 rid @ ext) ?m2) p2 R"
      by (rule mgr_inv_set_table [OF inv2' pe]) (use dis' tab2 in simp)
    then have "mgr_inv ?m3 p2 R" using tab2 by (simp add: mgr_inv_def)
    moreover have "base_allocate_new_computed_blocks rid ncb nlocal nexternal (m, p) = Inr (?m3, p2)"
      using step True e(1) ap by simp
    moreover have "table_of ?m3 = (table_of m)(rid := ?rb @ ext)" using tab2 by auto
    moreover have "get_num_free_blocks p - get_num_evictable_blocks p ?nc - a \<le> get_num_free_blocks p2"
    proof -
      have "card (set_mset (?H + held ?nc + mset ext)) \<le> card (set_mset (?H + held ?nc)) + length ext"
        by (rule card_set_mset_add_list)
      then show ?thesis
        using bp.avail_eq [OF p1(2)] bp.avail_eq [OF e(6)] e(2,7) a0 p1(5) by simp
    qed
    ultimately show ?thesis
      using m1(5,6) e(2,8) same_config_trans [OF p1(6) e(9)] a0 p1(4) len by (intro exI [of _ ?m3] exI [of _ p2] exI [of _ ext]) auto
  qed
qed

text \<open>The number of blocks asked for is enough: first for a new request, then for a running one.\<close>

lemma allocation_suffices_new:
  assumes inv: "mgr_inv m p R" and new: "num_cached_block m rid = None" "table_of m rid = []"
    and win: "window_ok (mspec m)" and pos: "0 \<le> nlocal" "0 \<le> nexternal"
    and ncb: "int (length ncb) * block_size m \<le> nlocal" "\<forall>b\<in>set ncb. real_block p b \<or> b = Blk 0"
      "distinct (filter (\<lambda>b. b \<noteq> Blk 0) ncb)" "m_enable_caching m \<or> ncb = []"
    and n: "nlocal + nexternal \<le> n"
    and k: "base_num_blocks_to_allocate rid n ncb (nlocal + nexternal) m p = Inr k" "k \<le> get_num_free_blocks p"
  shows "\<exists>m1 p1 nb m2 p2. base_allocate_new_computed_blocks rid ncb nlocal nexternal (m, p) = Inr (m1, p1) \<and>
     base_allocate_new_blocks rid n (m1, p1) = Inr (nb, m2, p2) \<and> mgr_inv m2 p2 R \<and>
     int (length (table_of m2 rid)) = cdiv n (block_size m) \<and> same_mgr m m1 \<and> same_mgr m m2 \<and>
     (\<forall>r. r \<noteq> rid \<longrightarrow> table_of m2 r = table_of m r)"
proof -
  let ?T = "nlocal + nexternal" and ?bs = "block_size m"
  let ?skip = "get_num_skipped_tokens m ?T"
  let ?S = "nat (?skip div ?bs)"
  let ?L = "max ?S (length ncb)"
  let ?E = "if ?skip div ?bs > 0 then min (?T - ?skip) nexternal else nexternal"
  let ?a = "if ?E > 0 then cdiv ?T ?bs - int ?L else 0"
  let ?ev = "get_num_evictable_blocks p (drop ?S ncb)"
  have bs: "0 < ?bs" using inv by (simp add: mgr_inv_def)
  have Lc: "int ?L \<le> cdiv ?T ?bs"
    using le_cdiv [OF bs, of "int (length ncb)" ?T] ncb(1) pos skipped_blocks_le [OF win _ bs, of ?T] cdiv_nonneg [OF bs, of ?T]
    by simp
  have Tn: "cdiv ?T ?bs \<le> cdiv n ?bs" using cdiv_mono [OF bs n] .
  have nat0: "nat (max 0 x) = nat x" for x :: int by simp
  have "k = max (cdiv n ?bs - max (?skip div ?bs) (int (length ncb))) 0 + ?ev"
    using k(1) new by (simp add: base_num_blocks_to_allocate_def Let_def nat0)
  moreover have "max (cdiv n ?bs - max (?skip div ?bs) (int (length ncb))) 0 = cdiv n ?bs - int ?L"
    using Lc Tn by (cases "?skip div ?bs < 0") (auto simp: max_def)
  ultimately have kk: "k = cdiv n ?bs - int ?L + ?ev" by simp
  then have en: "?a + ?ev \<le> get_num_free_blocks p" using k(2) Tn Lc by auto
  from computed_blocks_spec [OF inv new win pos ncb en] obtain m1 p1 ext where
    c: "base_allocate_new_computed_blocks rid ncb nlocal nexternal (m, p) = Inr (m1, p1)" "mgr_inv m1 p1 R"
      "table_of m1 = (table_of m)(rid := replicate ?S (Blk 0) @ drop ?S ncb @ ext)" "int (length ext) = ?a" "same_mgr m m1"
      "get_num_free_blocks p - ?ev - ?a \<le> get_num_free_blocks p1"
    by blast
  have "length (table_of m1 rid) = ?S + (length ncb - ?S) + length ext" using c(3) by simp
  also have "\<dots> = ?L + length ext" by (simp add: max_def)
  finally have len: "int (length (table_of m1 rid)) = int ?L + ?a" unfolding c(4) [symmetric] by simp
  have bs1: "block_size m1 = ?bs" using c(5) by (simp add: same_mgr_def)
  let ?k = "cdiv n ?bs - int (length (table_of m1 rid))"
  have kf: "?k \<le> get_num_free_blocks p1" using kk k(2) c(6) len by linarith
  have k0: "0 \<le> ?k" using len Lc Tn by auto
  have "\<exists>nb m2 p2. base_allocate_new_blocks rid n (m1, p1) = Inr (nb, m2, p2) \<and> mgr_inv m2 p2 R \<and>
      table_of m2 = (table_of m1)(rid := table_of m1 rid @ nb) \<and> int (length nb) = ?k \<and> same_mgr m1 m2"
  proof (cases "?k \<le> 0")
    case True
    then show ?thesis using base_allocate_new_blocks_spec [OF c(2), of n rid] k0 bs1 by (auto simp: fun_upd_idem)
  next
    case False
    then show ?thesis using base_allocate_new_blocks_spec [OF c(2), of n rid] kf bs1 by fastforce
  qed
  then obtain nb m2 p2 where d: "base_allocate_new_blocks rid n (m1, p1) = Inr (nb, m2, p2)" "mgr_inv m2 p2 R"
      "table_of m2 = (table_of m1)(rid := table_of m1 rid @ nb)" "int (length nb) = ?k" "same_mgr m1 m2" by blast
  have "int (length (table_of m2 rid)) = cdiv n ?bs" using d(3,4) by simp
  then show ?thesis using c(1,3,5) d same_mgr_trans [OF c(5) d(5)] by auto
qed

lemma allocation_suffices_running:
  assumes inv: "mgr_inv m p R" and run: "num_cached_block m rid \<noteq> None"
    and k: "base_num_blocks_to_allocate rid n [] tot m p = Inr k" "k \<le> get_num_free_blocks p"
  shows "\<exists>nb m2 p2. base_allocate_new_computed_blocks rid [] nlocal nexternal (m, p) = Inr (m, p) \<and>
     base_allocate_new_blocks rid n (m, p) = Inr (nb, m2, p2) \<and> mgr_inv m2 p2 R \<and>
     table_of m2 = (table_of m)(rid := table_of m rid @ nb) \<and>
     int (length (table_of m2 rid)) = max (cdiv n (block_size m)) (int (length (table_of m rid))) \<and> same_mgr m m2"
proof -
  let ?k = "cdiv n (block_size m) - int (length (table_of m rid))"
  have "k = max ?k 0" using k(1) run by (simp add: base_num_blocks_to_allocate_def Let_def)
  then have kf: "?k \<le> get_num_free_blocks p" using k(2) by simp
  have c: "base_allocate_new_computed_blocks rid [] nlocal nexternal (m, p) = Inr (m, p)"
    using run by (simp add: base_allocate_new_computed_blocks_def)
  show ?thesis
  proof (cases "?k \<le> 0")
    case True
    then show ?thesis using base_allocate_new_blocks_spec [OF inv, of n rid] c by (auto simp: fun_upd_idem)
  next
    case False
    then obtain nb m2 p2 where d: "base_allocate_new_blocks rid n (m, p) = Inr (nb, m2, p2)" "mgr_inv m2 p2 R"
      "table_of m2 = (table_of m)(rid := table_of m rid @ nb)" "int (length nb) = ?k" "same_mgr m m2"
      using base_allocate_new_blocks_spec [OF inv, of n rid] kf by auto
    then show ?thesis using c False by (intro exI [of _ nb] exI [of _ m2] exI [of _ p2]) auto
  qed
qed

section \<open>Freeing\<close>

lemma free_mono_diff:
  assumes "pool_inv p H" "pool_inv p' (H - X)" "pool_cap p' = pool_cap p"
  shows "get_num_free_blocks p \<le> get_num_free_blocks p'"
proof -
  have "card (set_mset (H - X)) \<le> card (set_mset H)" by (rule card_mono) (auto dest: in_diffD)
  then show ?thesis using bp.avail_eq [OF assms(1)] bp.avail_eq [OF assms(2)] assms(3) by simp
qed

lemma base_free_spec:
  assumes "mgr_inv m p R"
  shows "\<exists>m' p'. base_free rid (m, p) = Inr (m', p') \<and> mgr_inv m' p' R \<and> table_of m' = (table_of m)(rid := []) \<and>
     num_cached_block m' = (num_cached_block m)(rid := None) \<and> same_mgr m m' \<and>
     rid \<notin> set (od_keys (req_to_blocks m')) \<and> real_block p' = real_block p \<and> same_config p p' \<and>
     get_num_free_blocks p \<le> get_num_free_blocks p'"
proof -
  let ?H = "R + tables_held (req_to_blocks m)" and ?t = "table_of m rid"
  have inv: "pool_inv p ?H" "distinct (filter (\<lambda>b. b \<noteq> Blk 0) ?t)" "od_wf (req_to_blocks m)" using assms by (auto simp: mgr_inv_def)
  have sub: "held ?t \<subseteq># ?H" using held_tbl_subset by (simp add: table_of_tbl_in subset_mset.add_increasing)
  have f: "filter (\<lambda>b. b \<noteq> Blk 0) (rev ?t) = rev (filter (\<lambda>b. b \<noteq> Blk 0) ?t)" by (simp add: rev_filter)
  obtain p' where p': "free_blocks (rev ?t) p = Inr p'" "pool_inv p' (?H - held ?t)" "real_block p' = real_block p"
    "same_config p p'" "pool_cap p' = pool_cap p"
    using bp.rel_ok [OF inv(1), of "rev ?t"] inv(2) sub unfolding f by (auto simp: held_def)
  let ?m = "m\<lparr>req_to_blocks := od_del rid (req_to_blocks m), num_cached_block := (num_cached_block m)(rid := None)\<rparr>"
  have "tables_held (od_del rid (req_to_blocks m)) + held ?t = tables_held (req_to_blocks m)"
    using tables_held_del [OF inv(3)] by (simp add: table_of_tbl_in)
  then have "?H - held ?t = R + tables_held (od_del rid (req_to_blocks m))" by (metis add_diff_cancel_right' union_assoc)
  then have "pool_inv p' (R + tables_held (req_to_blocks ?m))" using p'(2) by simp
  moreover have tab: "table_of ?m = (table_of m)(rid := [])" by (auto simp: table_of_tbl_in)
  ultimately have "mgr_inv ?m p' R" using assms by (simp add: mgr_inv_def)
  moreover have "base_free rid (m, p) = Inr (?m, p')" using p'(1) by (simp add: base_free_def Let_def)
  moreover have "rid \<notin> set (od_keys (req_to_blocks ?m))" by (auto simp: od_keys_del)
  ultimately show ?thesis using tab p'(3,4) free_mono_diff [OF inv(1) p'(2,5)]
    by (intro exI [of _ ?m] exI [of _ p']) (simp add: same_mgr_def)
qed

text \<open>The blocks removed by the loop of \<^verbatim>\<open>remove_skipped_blocks\<close>: a contiguous run of non-null
  blocks ending at \<open>n\<close>, from the last null block before it.\<close>

lemma skip_loop_spec:
  assumes "n \<le> length tbl"
  shows "\<exists>k\<le>n. skip_loop nb n tbl acc = (acc @ rev (py_slice k n tbl), take k tbl @ replicate (n - k) nb @ drop n tbl) \<and>
     (\<forall>i. k \<le> i \<longrightarrow> i < n \<longrightarrow> tbl ! i \<noteq> nb) \<and> (0 < k \<longrightarrow> tbl ! (k - 1) = nb)"
  using assms
proof (induction n arbitrary: tbl acc)
  case (Suc n)
  show ?case
  proof (cases "tbl ! n = nb")
    case True
    then show ?thesis using Suc.prems by (intro exI [of _ "Suc n"]) auto
  next
    case False
    let ?t = "tbl[n := nb]"
    have "n \<le> length ?t" using Suc.prems by simp
    from Suc.IH [OF this, of "acc @ [tbl ! n]"] obtain k where k: "k \<le> n"
      "skip_loop nb n ?t (acc @ [tbl ! n]) = ((acc @ [tbl ! n]) @ rev (py_slice k n ?t), take k ?t @ replicate (n - k) nb @ drop n ?t)"
      "\<forall>i. k \<le> i \<longrightarrow> i < n \<longrightarrow> ?t ! i \<noteq> nb" "0 < k \<longrightarrow> ?t ! (k - 1) = nb" by (elim exE conjE) (rule that)
    have "py_slice k (Suc n) tbl = py_slice k n ?t @ [tbl ! n]"
      using k(1) Suc.prems by (simp add: py_slice_def take_Suc_conv_app_nth)
    moreover have "take k ?t @ replicate (n - k) nb @ drop n ?t = take k tbl @ replicate (Suc n - k) nb @ drop (Suc n) tbl"
      using k(1) Suc.prems
      by (simp add: Suc_diff_le replicate_append_same Cons_nth_drop_Suc [symmetric] drop_update_cancel flip: replicate_Suc)
    moreover have "\<forall>i. k \<le> i \<longrightarrow> i < Suc n \<longrightarrow> tbl ! i \<noteq> nb"
      using k(3) False by (auto simp: less_Suc_eq)
    moreover have "0 < k \<longrightarrow> tbl ! (k - 1) = nb" using k(1,4) Suc.prems by auto
    ultimately show ?thesis using k(1,2) False by (intro exI [of _ k]) simp
  qed
qed simp

lemma py_slice_split: "k \<le> n \<Longrightarrow> n \<le> length xs \<Longrightarrow> xs = take k xs @ py_slice k n xs @ drop n xs"
proof -
  assume "k \<le> n" "n \<le> length xs"
  then have "take n xs = take k xs @ py_slice k n xs"
    using append_take_drop_id [of k "take n xs"] by (simp add: py_slice_def min_absorb1)
  then show ?thesis by (metis append_assoc append_take_drop_id)
qed

lemma base_remove_skipped_spec:
  fixes rid :: req_id and T :: int
  assumes inv: "mgr_inv m p R"
  defines "n \<equiv> nat (min (get_num_skipped_tokens m T div block_size m) (int (length (table_of m rid))))"
  shows "\<exists>m' p' k. base_remove_skipped_blocks rid T (m, p) = Inr (m', p') \<and> mgr_inv m' p' R \<and> same_mgr m m' \<and>
     num_cached_block m' = num_cached_block m \<and> real_block p' = real_block p \<and> same_config p p' \<and>
     get_num_free_blocks p \<le> get_num_free_blocks p' \<and> k \<le> n \<and>
     table_of m' = (table_of m)(rid := take k (table_of m rid) @ replicate (n - k) (Blk 0) @ drop n (table_of m rid)) \<and>
     (0 < k \<longrightarrow> table_of m rid ! (k - 1) = Blk 0)"
proof (cases "get_num_skipped_tokens m T \<le> 0")
  case True
  have bs: "0 < block_size m" using inv by (simp add: mgr_inv_def)
  have "get_num_skipped_tokens m T div block_size m \<le> 0" using zdiv_mono1 [OF True bs] by simp
  then have "n = 0" by (simp add: n_def)
  with True show ?thesis using inv
    by (intro exI [of _ m] exI [of _ p] exI [of _ 0]) (simp add: base_remove_skipped_blocks_def fun_upd_idem)
next
  case False
  let ?t = "table_of m rid" and ?H = "R + tables_held (req_to_blocks m)"
  obtain m1 where m1: "req_table rid m = (?t, m1)" "tables_held (req_to_blocks m1) = tables_held (req_to_blocks m)"
    "table_of m1 = table_of m" "od_wf (req_to_blocks m1)" "same_mgr m m1" "num_cached_block m1 = num_cached_block m"
    using req_table_cases [of rid m] inv unfolding mgr_inv_def by metis
  have i: "pool_inv p ?H" "distinct (filter (\<lambda>b. b \<noteq> Blk 0) ?t)" "m_null_block m1 = Blk 0" "block_size m1 = block_size m"
    using inv m1(5) by (auto simp: mgr_inv_def same_mgr_def)
  have nl: "n \<le> length ?t" by (simp add: n_def nat_le_iff)
  from skip_loop_spec [OF nl, of "Blk 0" "[]"] obtain k where k: "k \<le> n"
    "skip_loop (Blk 0) n ?t [] = (rev (py_slice k n ?t), take k ?t @ replicate (n - k) (Blk 0) @ drop n ?t)"
    "\<forall>i. k \<le> i \<longrightarrow> i < n \<longrightarrow> ?t ! i \<noteq> Blk 0" "0 < k \<longrightarrow> ?t ! (k - 1) = Blk 0" by auto
  let ?rm = "py_slice k n ?t" and ?t' = "take k ?t @ replicate (n - k) (Blk 0) @ drop n ?t"
  have sp: "?t = take k ?t @ ?rm @ drop n ?t" by (rule py_slice_split [OF k(1) nl])
  have nn: "b \<noteq> Blk 0" if "b \<in> set ?rm" for b
  proof -
    obtain j where "j < length ?rm" "b = ?rm ! j" using \<open>b \<in> set ?rm\<close> by (auto simp: in_set_conv_nth)
    then show ?thesis using k(3) nl py_slice_nth [of k j n ?t] by auto
  qed
  have frm: "filter (\<lambda>b. b \<noteq> Blk 0) (rev ?rm) = rev ?rm" using nn by (simp add: filter_id_conv)
  have hs: "held ?t = held ?t' + mset ?rm"
  proof -
    have "held ?rm = mset ?rm" using nn by (simp add: held_def filter_id_conv)
    moreover have "held ?t = held (take k ?t) + held ?rm + held (drop n ?t)" using sp by (metis held_append union_assoc)
    moreover have "held ?t' = held (take k ?t) + held (drop n ?t)" by (simp add: held_def)
    ultimately show ?thesis by (simp add: union_ac)
  qed
  have sub: "mset ?rm \<subseteq># ?H"
    using held_tbl_subset [of "req_to_blocks m" rid] hs
    by (metis table_of_tbl_in mset_subset_eq_add_right subset_mset.order_trans)
  have dt: "distinct (filter (\<lambda>b. b \<noteq> Blk 0) (take k ?t @ ?rm @ drop n ?t))" using i(2) sp by metis
  then have dr: "distinct ?rm" "distinct (filter (\<lambda>b. b \<noteq> Blk 0) ?t')"
    using frm by (auto simp: rev_filter [symmetric])
  obtain p' where p': "free_blocks (rev ?rm) p = Inr p'" "pool_inv p' (?H - mset ?rm)" "real_block p' = real_block p"
    "same_config p p'" "pool_cap p' = pool_cap p"
    using bp.rel_ok [OF i(1), of "rev ?rm"] dr(1) sub unfolding frm by auto
  let ?m = "set_table rid ?t' m1"
  have "tables_held (req_to_blocks ?m) + mset ?rm = tables_held (req_to_blocks m)"
    using tables_held_set [of rid ?t' "req_to_blocks m1"] m1(2,3) hs table_of_tbl_in [of m1 rid]
    by (simp add: union_ac)
  then have "?H - mset ?rm = R + tables_held (req_to_blocks ?m)" by (metis add_diff_cancel_right' union_assoc)
  then have "mgr_inv ?m p' R"
    using p'(2) inv dr(2) m1(3,4,5) i(3) by (auto simp: mgr_inv_def same_mgr_def)
  moreover have "base_remove_skipped_blocks rid T (m, p) = Inr (?m, p')"
    using False m1(1) k(2) p'(1) i(3,4) by (simp add: base_remove_skipped_blocks_def Let_def n_def)
  moreover have "table_of ?m = (table_of m)(rid := ?t')" using m1(3) by auto
  ultimately show ?thesis
    using m1(5,6) p'(3,4) free_mono_diff [OF i(1) p'(2,5)] k(1,4) by (intro exI [of _ ?m] exI [of _ p'] exI [of _ k]) simp
qed

section \<open>Caching\<close>

lemma base_cache_blocks_inv:
  assumes "base_cache_blocks env r n (m, p) = Inr (m', p', r')" "mgr_inv m p R" "enable_caching p"
  shows "mgr_inv m' p' R \<and> table_of m' = table_of m \<and> same_mgr m m' \<and> same_config p p'"
proof (cases "int (case num_cached_block m (request_id r) of None \<Rightarrow> 0 | Some n \<Rightarrow> n) \<ge> n div block_size m")
  case True
  then show ?thesis using assms by (simp add: base_cache_blocks_def Let_def)
next
  case False
  let ?rid = "request_id r"
  obtain m1 where m1: "req_table ?rid m = (table_of m ?rid, m1)" "tables_held (req_to_blocks m1) = tables_held (req_to_blocks m)"
    "table_of m1 = table_of m" "od_wf (req_to_blocks m1)" "same_mgr m m1"
    using req_table_cases [of ?rid m] assms(2) unfolding mgr_inv_def by metis
  have inv1: "mgr_inv m1 p R" by (rule mgr_inv_req_table [OF assms(2) m1(2-5)])
  obtain nc nf bs gid c where c: "cache_full_blocks env r (table_of m ?rid) nc nf bs gid p = Inr (p', r')"
    "m' = m1\<lparr>num_cached_block := c\<rparr>"
    using assms(1) False m1(1) by (auto simp: base_cache_blocks_def Let_def bindR_eq_Inr)
  obtain fs where fs: "pool_rep p fs (R + tables_held (req_to_blocks m))" using assms(2) by (auto simp: mgr_inv_def pool_inv_def)
  from cache_full_blocks_inv [OF c(1) fs assms(3) table_blocks_real [OF assms(2)]]
  have "pool_inv p' (R + tables_held (req_to_blocks m1))" "same_config p p'" using m1(2) by (auto simp: pool_inv_def)
  then show ?thesis using inv1 c(2) m1(3,5) by (simp add: mgr_inv_def)
qed

section \<open>Memory of a windowed request\<close>

text \<open>Blocks between the last skipped block and the end of \<open>x\<close> tokens.\<close>

lemma cdiv_minus_blocks: "0 < bs \<Longrightarrow> cdiv x bs - k = cdiv (x - k * bs) bs"
proof (rule cdiv_unique [symmetric])
  assume bs: "0 < bs"
  show "(cdiv x bs - k - 1) * bs < x - k * bs" using cdiv_lower [OF bs, of x] by (simp add: algebra_simps)
  show "x - k * bs \<le> (cdiv x bs - k) * bs" using cdiv_upper [OF bs, of x] by (simp add: algebra_simps)
qed

lemma div_mult_lower: "0 < bs \<Longrightarrow> s - bs < s div bs * bs" for s bs :: int
  using pos_mod_bound [of bs s] by (simp add: minus_mod_eq_div_mult [symmetric])

section \<open>Properties\<close>

text \<open>(C17) The allocation check is enough for a new request. If
  \<^verbatim>\<open>get_num_blocks_to_allocate\<close> asks for no more blocks than are free, then adding the
  prefix cache hits (with blocks for externally computed tokens) and allocating the rest
  succeeds: the request's table gets exactly the blocks its tokens need, the tables of the
  others are unchanged, and the reference accounting is kept. This holds for every manager
  but the Mamba and cross attention ones, with shared, evictable and skipped blocks.\<close>

theorem allocation_check_suffices:
  assumes "mgr_inv m p R" "\<not> is_mamba (mspec m)" "\<not> is_cross (mspec m)" "window_ok (mspec m)"
    and "num_cached_block m rid = None" "table_of m rid = []"
    and "0 \<le> nlocal" "0 \<le> nexternal" "nlocal + nexternal \<le> n"
    and "int (length ncb) * block_size m \<le> nlocal" "\<forall>b\<in>set ncb. real_block p b \<or> b = Blk 0"
    and "distinct (filter (\<lambda>b. b \<noteq> Blk 0) ncb)" "m_enable_caching m \<or> ncb = []"
    and "get_num_blocks_to_allocate rid n ncb (nlocal + nexternal) main m p = Inr (k, m')" "k \<le> get_num_free_blocks p"
  shows "\<exists>m1 p1 nb m2 p2. allocate_new_computed_blocks rid ncb nlocal nexternal (m, p) = Inr (m1, p1) \<and>
     allocate_new_blocks rid n main (m1, p1) = Inr (nb, m2, p2) \<and> mgr_inv m2 p2 R \<and>
     int (length (table_of m2 rid)) = cdiv n (block_size m) \<and> (\<forall>r. r \<noteq> rid \<longrightarrow> table_of m2 r = table_of m r)"
proof -
  have "base_num_blocks_to_allocate rid n ncb (nlocal + nexternal) m p = Inr k"
    using assms(2,14) by (auto simp: get_num_blocks_to_allocate_def bindR_eq_Inr split: kv_cache_spec.splits)
  from allocation_suffices_new [OF assms(1,5,6,4,7,8,10-13,9) this assms(15)] obtain m1 p1 nb m2 p2 where
    s: "base_allocate_new_computed_blocks rid ncb nlocal nexternal (m, p) = Inr (m1, p1)"
      "base_allocate_new_blocks rid n (m1, p1) = Inr (nb, m2, p2)" "mgr_inv m2 p2 R"
      "int (length (table_of m2 rid)) = cdiv n (block_size m)" "\<forall>r. r \<noteq> rid \<longrightarrow> table_of m2 r = table_of m r"
      "mspec m1 = mspec m"
    unfolding same_mgr_def by blast
  have "allocate_new_blocks rid n main (m1, p1) = base_allocate_new_blocks rid n (m1, p1)"
    using assms(2) s(6) by (auto simp: allocate_new_blocks_def split: kv_cache_spec.splits)
  moreover have "allocate_new_computed_blocks rid ncb nlocal nexternal (m, p) = Inr (m1, p1)"
    using s(1) assms(3) by (simp add: allocate_new_computed_blocks_def)
  ultimately show ?thesis using s by (intro exI [of _ m1] exI [of _ p1] exI [of _ nb] exI [of _ m2] exI [of _ p2]) simp
qed

definition sample_attn :: attn_fields where
  "sample_attn = \<lparr>af_block_size = 2, num_kv_heads = 1, head_size = 1, af_dtype = Dtype ''half'' 2, af_page_size_padded = None\<rparr>"

definition sample_full :: kv_cache_spec where
  "sample_full = FullAttentionSpec sample_attn \<lparr>head_size_v = 1, ff_sliding_window = None, ff_attention_chunk_size = None\<rparr>"

lemma init_manager_inv:
  "pool_rep p fs H \<Longrightarrow> 0 < block_size (init_manager spec p c g d q) \<Longrightarrow> mgr_inv (init_manager spec p c g d q) p H"
  by (auto simp: mgr_inv_def init_manager_def tables_held_def table_of_def pool_inv_def pool_rep_def)

lemma sample_manager: "pool_rep p fs {#} \<Longrightarrow> mgr_inv (init_manager sample_full p True 0 1 1) p {#}"
  by (rule init_manager_inv) (simp_all add: init_manager_def sample_full_def sample_attn_def)

theorem allocation_check_suffices_witness:
  "\<exists>p m m1 p1 nb m2 p2. pool_rep p [Blk 1, Blk 2, Blk 3] {#} \<and>
     allocate_new_computed_blocks ''r'' [] 0 0 (m, p) = Inr (m1, p1) \<and>
     allocate_new_blocks ''r'' 5 5 (m1, p1) = Inr (nb, m2, p2) \<and> mgr_inv m2 p2 {#} \<and> length (table_of m2 ''r'') = 3"
proof -
  obtain p where p: "pool_rep p [Blk 1, Blk 2, Blk 3] {#}" using sample_pool by blast
  let ?m = "init_manager sample_full p True 0 1 1"
  have f: "get_num_free_blocks p = 3" using cnt_invD(3) [of p "[Blk 1, Blk 2, Blk 3]" "{#}"] p by (simp add: pool_rep_split)
  have m: "\<not> is_mamba (mspec ?m)" "\<not> is_cross (mspec ?m)" "window_ok (mspec ?m)" "num_cached_block ?m ''r'' = None"
    "table_of ?m ''r'' = []" "block_size ?m = 2" "m_enable_caching ?m"
    by (simp_all add: init_manager_def sample_full_def sample_attn_def window_ok_def table_of_def)
  have c: "cdiv 5 2 = 3" by (simp add: cdiv_def)
  have "get_num_blocks_to_allocate ''r'' 5 [] (0 + 0) 5 ?m p = Inr (3, ?m)"
    using m(4-6) c
    by (simp add: get_num_blocks_to_allocate_def base_num_blocks_to_allocate_def Let_def get_num_skipped_tokens_def
        init_manager_def sample_full_def get_num_evictable_blocks_def)
  from allocation_check_suffices [OF sample_manager [OF p] m(1-5) _ _ _ _ _ _ _ this] m(6,7) f c obtain m1 p1 nb m2 p2 where
    "allocate_new_computed_blocks ''r'' [] 0 0 (?m, p) = Inr (m1, p1)"
    "allocate_new_blocks ''r'' 5 5 (m1, p1) = Inr (nb, m2, p2)" "mgr_inv m2 p2 {#}" "length (table_of m2 ''r'') = 3" by auto
  then show ?thesis using p by blast
qed

text \<open>Fresh blocks: distinct, none of them the null block, and nobody refers to one.\<close>

definition fresh_blocks :: "block_ref list \<Rightarrow> manager \<Rightarrow> block_pool \<Rightarrow> block_ref multiset \<Rightarrow> bool" where
  "fresh_blocks new m p R \<longleftrightarrow> distinct new \<and> set new \<inter> set_mset R = {} \<and> (\<forall>rid. set new \<inter> set (table_of m rid) = {}) \<and>
     (\<forall>b \<in> set new. b \<noteq> Blk 0 \<and> real_block p b \<and> ref_cnt (blocks p b) = 0)"

lemma base_allocate_fresh:
  assumes "mgr_inv m p R" "base_allocate_new_blocks rid n (m, p) = Inr (new, m', p')"
  shows "fresh_blocks new m p R"
proof (cases "new = []")
  case True
  then show ?thesis by (simp add: fresh_blocks_def)
next
  case False
  obtain m1 where m1: "req_table rid m = (table_of m rid, m1)" "same_mgr m m1" using req_table_cases [of rid m] by metis
  let ?k = "cdiv n (block_size m) - int (length (table_of m rid))" and ?H = "R + tables_held (req_to_blocks m)"
  have inv: "pool_inv p ?H" using assms(1) by (simp add: mgr_inv_def)
  have k: "0 < ?k" "get_new_blocks ?k p = Inr (new, p')"
    using assms(2) m1 False by (auto simp: base_allocate_new_blocks_def Let_def bindR_eq_Inr same_mgr_def split: if_splits)
  then have "?k \<le> get_num_free_blocks p" using bp.get_err [OF inv] by (cases "?k \<le> get_num_free_blocks p") auto
  from bp.get_ok [OF inv _ this] k have new: "distinct new" "set new \<inter> set_mset ?H = {}" "\<forall>b \<in> set new. b \<noteq> Blk 0 \<and> real_block p b"
    by auto
  have free: "b \<notin># ?H" if "b \<in> set new" for b using new(2) that by blast
  obtain fs where fs: "cnt_inv p fs ?H" using inv by (auto simp: pool_inv_def pool_rep_split)
  have "ref_cnt (blocks p b) = 0" if "b \<in> set new" for b
    using cnt_invD(6) [OF fs, of b] new(3) free [OF that] that by (simp add: not_in_iff)
  moreover have "b \<notin> set (table_of m r)" if b: "b \<in> set new" for b r
  proof
    assume "b \<in> set (table_of m r)"
    then have "b \<in># held (tbl_in (req_to_blocks m) r)" using new(3) b by (simp add: held_def table_of_tbl_in)
    then have "b \<in># ?H" using held_tbl_subset mset_subset_eqD by fastforce
    then show False using free [OF b] by simp
  qed
  moreover have "set new \<inter> set_mset R = {}" using free by auto
  ultimately show ?thesis using new(1,3) by (auto simp: fresh_blocks_def)
qed

text \<open>(C18) The allocation check is enough for a running request: it appends exactly the missing
  blocks, and none when rejected draft tokens left spare ones. The appended blocks are fresh: they are
  distinct, none is the null block, their reference counts were zero, and no request's table, nor anybody
  else, referred to one of them.\<close>

theorem allocation_check_suffices_running:
  assumes "mgr_inv m p R" "\<not> is_mamba (mspec m)" "num_cached_block m rid \<noteq> None"
    and "get_num_blocks_to_allocate rid n [] tot main m p = Inr (k, m')" "k \<le> get_num_free_blocks p"
  shows "\<exists>nb m2 p2. allocate_new_blocks rid n main (m, p) = Inr (nb, m2, p2) \<and> mgr_inv m2 p2 R \<and>
     table_of m2 = (table_of m)(rid := table_of m rid @ nb) \<and> fresh_blocks nb m p R \<and>
     int (length (table_of m2 rid)) = max (cdiv n (block_size m)) (int (length (table_of m rid)))"
proof -
  have b: "base_num_blocks_to_allocate rid n [] tot m p = Inr k"
    using assms(2,4) by (auto simp: get_num_blocks_to_allocate_def bindR_eq_Inr split: kv_cache_spec.splits)
  have "allocate_new_blocks rid n main (m, p) = base_allocate_new_blocks rid n (m, p)"
    using assms(2) by (auto simp: allocate_new_blocks_def split: kv_cache_spec.splits)
  then show ?thesis using allocation_suffices_running [OF assms(1,3) b assms(5), of 0 0] base_allocate_fresh [OF assms(1), of rid n] by auto
qed

theorem allocation_running_witness:
  "\<exists>p m nb m2 p2. allocate_new_blocks ''r'' 5 5 (m, p) = Inr (nb, m2, p2) \<and> mgr_inv m2 p2 {#} \<and>
     fresh_blocks nb m p {#} \<and> length (table_of m2 ''r'') = 3"
proof -
  obtain p where p: "pool_rep p [Blk 1, Blk 2, Blk 3] {#}" using sample_pool by blast
  let ?m = "(init_manager sample_full p True 0 1 1)\<lparr>num_cached_block := (\<lambda>_. None)(''r'' \<mapsto> 0)\<rparr>"
  have f: "get_num_free_blocks p = 3" using cnt_invD(3) [of p "[Blk 1, Blk 2, Blk 3]" "{#}"] p by (simp add: pool_rep_split)
  have inv: "mgr_inv ?m p {#}" using sample_manager [OF p] by (simp add: mgr_inv_def)
  have m: "\<not> is_mamba (mspec ?m)" "num_cached_block ?m ''r'' \<noteq> None" "table_of ?m ''r'' = []" "block_size ?m = 2"
    by (simp_all add: init_manager_def sample_full_def sample_attn_def table_of_def)
  have c: "cdiv 5 2 = 3" by (simp add: cdiv_def)
  have "get_num_blocks_to_allocate ''r'' 5 [] 0 5 ?m p = Inr (3, ?m)"
    using m(2-4) c
    by (simp add: get_num_blocks_to_allocate_def base_num_blocks_to_allocate_def Let_def init_manager_def sample_full_def)
  from allocation_check_suffices_running [OF inv m(1,2) this] m(3,4) f c obtain nb m2 p2 where
    "allocate_new_blocks ''r'' 5 5 (?m, p) = Inr (nb, m2, p2)" "mgr_inv m2 p2 {#}" "fresh_blocks nb ?m p {#}" "length (table_of m2 ''r'') = 3" by auto
  then show ?thesis by blast
qed

text \<open>Freeing a request returns all its references and nothing else: its table is gone, the
  tables of the others and the accounting of all references are kept, and it never raises,
  whether or not the request had been given blocks.\<close>

lemma free_request_releases:
  assumes "mgr_inv m p R"
  shows "\<exists>m' p'. free_request rid (m, p) = Inr (m', p') \<and> mgr_inv m' p' R \<and> table_of m' = (table_of m)(rid := []) \<and>
     num_cached_block m' rid = None \<and> rid \<notin> set (od_keys (req_to_blocks m'))"
proof (cases "mspec m")
  case (MambaSpec f)
  let ?m = "if mf_mamba_cache_mode f = ''align''
            then m\<lparr>allocated_block_reqs := allocated_block_reqs m - {rid},
                   last_state_block_idx := (last_state_block_idx m)(rid := None)\<rparr> else m"
  have "mgr_inv ?m p R" "table_of ?m = table_of m" using assms by (auto simp: mgr_inv_def table_of_def)
  then show ?thesis using base_free_spec [of ?m p R rid] MambaSpec by (auto simp: free_request_def)
qed (use base_free_spec [OF assms, of rid] in \<open>auto simp: free_request_def\<close>)

theorem free_request_witness:
  "\<exists>p m m' p'. free_request ''r'' (m, p) = Inr (m', p') \<and> mgr_inv m' p' {#}"
proof -
  obtain p where p: "pool_rep p [Blk 1, Blk 2, Blk 3] {#}" using sample_pool by blast
  from free_request_releases [OF sample_manager [OF p], of "''r''"] show ?thesis by auto
qed

definition null_prefix :: "block_ref list \<Rightarrow> bool" where
  "null_prefix tbl \<longleftrightarrow> (\<forall>i j. i \<le> j \<longrightarrow> j < length tbl \<longrightarrow> tbl ! j = Blk 0 \<longrightarrow> tbl ! i = Blk 0)"

text \<open>What attention may read, independent of the code: the token at position \<open>q\<close> attends to earlier
  ones less than \<open>w\<close> positions back in a sliding window layer, to those of its own chunk in a
  chunked one, and to all of them otherwise. A block is needed, once the first \<open>T\<close> tokens are
  computed, if some later query can attend to some token of it.\<close>

definition attends :: "kv_cache_spec \<Rightarrow> int \<Rightarrow> int \<Rightarrow> bool" where
  "attends spec q j \<longleftrightarrow> j \<le> q \<and>
     (case spec of SlidingWindowSpec _ w \<Rightarrow> q - j < w | ChunkedLocalAttentionSpec _ c \<Rightarrow> j div c = q div c | _ \<Rightarrow> True)"

definition token_needed :: "kv_cache_spec \<Rightarrow> int \<Rightarrow> int \<Rightarrow> bool" where
  "token_needed spec T j \<longleftrightarrow> (\<exists>q \<ge> T. attends spec q j)"

definition block_needed :: "kv_cache_spec \<Rightarrow> int \<Rightarrow> int \<Rightarrow> int \<Rightarrow> bool" where
  "block_needed spec bs T i \<longleftrightarrow> (\<exists>j \<ge> i * bs. j < (i + 1) * bs \<and> token_needed spec T j)"

lemma token_needed_iff:
  assumes "window_ok (mspec m)" "\<not> is_mamba (mspec m)" "0 \<le> T" "0 \<le> j"
  shows "token_needed (mspec m) T j \<longleftrightarrow> get_num_skipped_tokens m T \<le> j"
proof -
  have top: "attends sp (max T j) j \<Longrightarrow> token_needed sp T j" for sp
    unfolding token_needed_def by (rule exI [of _ "max T j"]) simp
  show ?thesis
  proof (cases "mspec m")
    case (SlidingWindowSpec a w)
    then show ?thesis using top [of "mspec m"] assms(1,4)
      by (auto simp: token_needed_def attends_def get_num_skipped_tokens_def window_ok_def)
  next
    case (ChunkedLocalAttentionSpec a c)
    then have c: "0 < c" using assms(1) by (simp add: window_ok_def)
    have "T div c * c \<le> j" if "T \<le> q" "j div c = q div c" for q
    proof -
      have "T div c \<le> j div c" using zdiv_mono1 [OF that(1) c] that(2) by simp
      then have "T div c * c \<le> j div c * c" using c by simp
      also have "\<dots> \<le> j" using int_le_div_iff [OF c, of "j div c" j] by simp
      finally show ?thesis .
    qed
    moreover have "j div c = T div c" if "T div c * c \<le> j" "j \<le> T"
    proof (rule antisym)
      show "j div c \<le> T div c" by (rule zdiv_mono1 [OF that(2) c])
      show "T div c \<le> j div c" using int_le_div_iff [OF c, of "T div c" j] that(1) by simp
    qed
    ultimately show ?thesis using ChunkedLocalAttentionSpec top [of "mspec m"]
      by (cases "j \<le> T") (auto simp: token_needed_def attends_def get_num_skipped_tokens_def)
  qed (use assms(2,4) top [of "mspec m"] in \<open>auto simp: token_needed_def attends_def get_num_skipped_tokens_def\<close>)
qed

lemma block_needed_iff:
  assumes "window_ok (mspec m)" "\<not> is_mamba (mspec m)" "0 \<le> T" "0 \<le> i" "0 < bs"
  shows "block_needed (mspec m) bs T i \<longleftrightarrow> get_num_skipped_tokens m T div bs \<le> i"
proof -
  let ?s = "get_num_skipped_tokens m T"
  have i: "0 \<le> i * bs" "i * bs \<le> (i + 1) * bs - 1" using assms(4,5) by (simp_all add: algebra_simps)
  have "block_needed (mspec m) bs T i \<longleftrightarrow> (\<exists>j \<ge> i * bs. j < (i + 1) * bs \<and> ?s \<le> j)"
    unfolding block_needed_def using token_needed_iff [OF assms(1-3)] i(1) by (meson order_trans)
  also have "\<dots> \<longleftrightarrow> ?s < (i + 1) * bs"
  proof
    assume "?s < (i + 1) * bs"
    then show "\<exists>j \<ge> i * bs. j < (i + 1) * bs \<and> ?s \<le> j" using i(2) by (intro exI [of _ "(i + 1) * bs - 1"]) simp
  qed auto
  also have "\<dots> \<longleftrightarrow> ?s div bs < i + 1" using int_le_div_iff [OF assms(5), of "i + 1" ?s] by (simp add: not_le [symmetric])
  finally show ?thesis by linarith
qed

text \<open>(C19) Removing the blocks outside the attention window, for every manager but the Mamba one: on a
  table whose null blocks form a prefix, a block is replaced by the null block and released exactly
  if no token at position \<open>T\<close> or later can attend to any token of it (\<open>block_needed\<close>, which is
  defined from the attention pattern alone); the others stay in place, the null blocks still form a
  prefix, and the accounting of references is kept.\<close>

theorem remove_skipped_blocks_window:
  assumes "mgr_inv m p R" "\<not> is_mamba (mspec m)" "window_ok (mspec m)" "0 \<le> T" "null_prefix (table_of m rid)"
  shows "\<exists>m' p'. remove_skipped_blocks rid T (m, p) = Inr (m', p') \<and> mgr_inv m' p' R \<and>
     null_prefix (table_of m' rid) \<and> length (table_of m' rid) = length (table_of m rid) \<and>
     (\<forall>i<length (table_of m rid). table_of m' rid ! i =
        (if block_needed (mspec m) (block_size m) T (int i) then table_of m rid ! i else Blk 0)) \<and>
     (\<forall>r. r \<noteq> rid \<longrightarrow> table_of m' r = table_of m r)"
proof -
  let ?t = "table_of m rid" and ?q = "get_num_skipped_tokens m T div block_size m"
  let ?n = "nat (min ?q (int (length ?t)))"
  from base_remove_skipped_spec [OF assms(1), of rid T] obtain m' p' k where
    r: "base_remove_skipped_blocks rid T (m, p) = Inr (m', p')" "mgr_inv m' p' R" "k \<le> ?n"
      "table_of m' = (table_of m)(rid := take k ?t @ replicate (?n - k) (Blk 0) @ drop ?n ?t)"
      "0 < k \<longrightarrow> ?t ! (k - 1) = Blk 0" by (elim exE conjE) (rule that)
  have nl: "?n \<le> length ?t" by (simp add: nat_le_iff)
  have z: "?t ! i = Blk 0" if "i < k" for i
  proof -
    have "i \<le> k - 1" "k - 1 < length ?t" "?t ! (k - 1) = Blk 0" using that r(3,5) nl by auto
    then show ?thesis using assms(5) unfolding null_prefix_def by blast
  qed
  have tr: "table_of m' rid = take k ?t @ replicate (?n - k) (Blk 0) @ drop ?n ?t" using r(4) by simp
  have nth: "table_of m' rid ! i = (if i < ?n then Blk 0 else ?t ! i)" if "i < length ?t" for i
    using that r(3) nl z unfolding tr by (auto simp: nth_append min_absorb2)
  have len: "length (table_of m' rid) = length ?t" unfolding tr using r(3) nl by simp
  have bs: "0 < block_size m" using assms(1) by (simp add: mgr_inv_def)
  have iff: "i < ?n \<longleftrightarrow> \<not> block_needed (mspec m) (block_size m) T (int i)" if "i < length ?t" for i
    using that by (auto simp: block_needed_iff [OF assms(3,2,4) _ bs])
  have "null_prefix (table_of m' rid)"
    unfolding null_prefix_def len
  proof (intro allI impI)
    fix i j assume ij: "i \<le> j" "j < length ?t" "table_of m' rid ! j = Blk 0"
    then have "j < ?n \<or> ?t ! j = Blk 0" using nth [of j] by (auto split: if_splits)
    then have "i < ?n \<or> ?t ! i = Blk 0" using assms(5) ij(1,2) unfolding null_prefix_def by (meson le_less_trans)
    then show "table_of m' rid ! i = Blk 0" using nth [of i] ij by auto
  qed
  moreover have "remove_skipped_blocks rid T (m, p) = Inr (m', p')"
    using r(1) assms(2) by (auto simp: remove_skipped_blocks_def split: kv_cache_spec.splits)
  moreover have "\<forall>r. r \<noteq> rid \<longrightarrow> table_of m' r = table_of m r" using r(4) by simp
  ultimately show ?thesis
    using r(2) len nth iff by (intro exI [of _ m'] exI [of _ p']) simp
qed

text \<open>A sliding window of two tokens, three blocks of two tokens, five tokens computed: the query at
  position 5 attends to positions 4 and 5, so the first two blocks are released.\<close>

theorem remove_skipped_witness:
  "\<exists>p m m1 p1 b1 b2 b3 m2 p2. mspec m = SlidingWindowSpec sample_attn 2 \<and>
     allocate_new_blocks ''r'' 6 6 (m, p) = Inr ([b1, b2, b3], m1, p1) \<and> Blk 0 \<notin> {b1, b2, b3} \<and>
     remove_skipped_blocks ''r'' 5 (m1, p1) = Inr (m2, p2) \<and> table_of m2 ''r'' = [Blk 0, Blk 0, b3] \<and> mgr_inv m2 p2 {#}"
proof -
  obtain p where p: "pool_rep p [Blk 1, Blk 2, Blk 3] {#}" using sample_pool by blast
  let ?m = "init_manager (SlidingWindowSpec sample_attn 2) p True 0 1 1"
  have inv: "mgr_inv ?m p {#}" by (rule init_manager_inv [OF p]) (simp add: init_manager_def sample_attn_def)
  have m: "mspec ?m = SlidingWindowSpec sample_attn 2" "block_size ?m = 2" "table_of ?m ''r'' = []"
    by (simp_all add: init_manager_def sample_attn_def table_of_def)
  have f: "get_num_free_blocks p = 3" using cnt_invD(3) [of p "[Blk 1, Blk 2, Blk 3]" "{#}"] p by (simp add: pool_rep_split)
  obtain nb m1 p1 where a: "base_allocate_new_blocks ''r'' 6 (?m, p) = Inr (nb, m1, p1)" "mgr_inv m1 p1 {#}"
      "table_of m1 = (table_of ?m)(''r'' := nb)" "length nb = 3" "same_mgr ?m m1"
    using base_allocate_new_blocks_spec [OF inv, of 6 "''r''"] m f by (auto simp: cdiv_def)
  have z: "Blk 0 \<notin> set nb" using base_allocate_fresh [OF inv a(1)] by (auto simp: fresh_blocks_def)
  obtain b1 b2 b3 where nb: "nb = [b1, b2, b3]" using a(4) by (auto simp: numeral_3_eq_3 length_Suc_conv)
  have m1: "mspec m1 = SlidingWindowSpec sample_attn 2" "block_size m1 = 2" "table_of m1 ''r'' = nb"
    using a(3,5) m by (simp_all add: same_mgr_def)
  have w: "\<not> is_mamba (mspec m1)" "window_ok (mspec m1)" "null_prefix (table_of m1 ''r'')"
    using m1 z by (auto simp: window_ok_def null_prefix_def in_set_conv_nth)
  from remove_skipped_blocks_window [OF a(2) w(1,2) _ w(3), of 5] obtain m2 p2 where
    r: "remove_skipped_blocks ''r'' 5 (m1, p1) = Inr (m2, p2)" "mgr_inv m2 p2 {#}" "length (table_of m2 ''r'') = 3"
      "\<forall>i<3. table_of m2 ''r'' ! i = (if block_needed (mspec m1) 2 5 (int i) then nb ! i else Blk 0)"
    using m1 a(4) by auto
  have "get_num_skipped_tokens m1 5 = 4" by (simp add: get_num_skipped_tokens_def m1(1))
  then have n: "block_needed (mspec m1) 2 5 i \<longleftrightarrow> 2 \<le> i" if "0 \<le> i" for i
    using block_needed_iff [OF w(2,1) _ that, of 5 2] by simp
  have "table_of m2 ''r'' = [Blk 0, Blk 0, b3]"
    by (rule nth_equalityI) (use r(3,4) n nb in \<open>auto simp: less_Suc_eq numeral_3_eq_3 nth_Cons'\<close>)
  moreover have "allocate_new_blocks ''r'' 6 6 (?m, p) = Inr ([b1, b2, b3], m1, p1)"
    using a(1) m(1) nb by (simp add: allocate_new_blocks_def)
  ultimately show ?thesis using m(1) z r(1,2) nb by fastforce
qed

text \<open>The memory reserved for a sliding window layer is enough: with \<open>c\<close> computed tokens,
  whose skipped blocks are released, and at most the batch size of new ones, a request needs
  no more blocks than \<^verbatim>\<open>SlidingWindowSpec.max_memory_usage_bytes\<close> counts pages.\<close>

lemma sliding_window_memory_suffices:
  assumes "mspec m = SlidingWindowSpec a w" "0 < block_size m" "1 \<le> w" "0 \<le> c" "0 \<le> n"
    and "n \<le> max_num_batched_tokens cfg" "c + n \<le> max_model_len cfg"
  shows "cdiv (c + n) (block_size m) - get_num_skipped_tokens m c div block_size m
           \<le> sliding_max_pages cfg w (block_size m)"
proof -
  let ?bs = "block_size m" and ?s = "get_num_skipped_tokens m c"
  let ?X = "min (w - 1 + max_num_batched_tokens cfg) (max_model_len cfg)"
  have s: "?s = max 0 (c - w + 1)" using assms(1) by (simp add: get_num_skipped_tokens_def)
  have "c + n - ?s div ?bs * ?bs \<le> ?X + 1 * ?bs"
    using div_mult_lower [OF assms(2), of ?s] assms(3-7) unfolding s by auto
  then have "cdiv (c + n - ?s div ?bs * ?bs) ?bs \<le> cdiv (?X + 1 * ?bs) ?bs" by (rule cdiv_mono [OF assms(2)])
  moreover have "cdiv (?X + 1 * ?bs) ?bs = cdiv ?X ?bs + 1"
    using cdiv_minus_blocks [OF assms(2), of ?X "- 1"] by simp
  ultimately show ?thesis
    unfolding sliding_max_pages_def using cdiv_minus_blocks [OF assms(2), of "c + n" "?s div ?bs"] by linarith
qed

definition sample_config :: vllm_config where
  "sample_config = \<lparr>max_model_len = 100, max_num_batched_tokens = 1, max_num_encoder_input_tokens = 0,
     decode_context_parallel_size = 1, prefill_context_parallel_size = 1, cfg_mamba_cache_mode = ''none'',
     cfg_enable_prefix_caching = True, num_gpu_blocks_override = None, disable_hybrid_kv_cache_manager = False, max_num_seqs = 8\<rparr>"

definition sample_window_manager :: "kv_cache_spec \<Rightarrow> manager" where
  "sample_window_manager spec =
     \<lparr>mspec = spec, block_size = spec_block_size spec, m_enable_caching = True, new_block_ids = [], req_to_blocks = [],
      num_cached_block = (\<lambda>_. None), kv_cache_group_id = 0, m_null_block = Blk 0, sink_blocks = [],
      cached_blocks_this_step = {}, last_state_block_idx = (\<lambda>_. None), allocated_block_reqs = {}\<rparr>"

theorem sliding_window_memory_witness:
  "cdiv (7 + 1) 2 - get_num_skipped_tokens (sample_window_manager (SlidingWindowSpec sample_attn 4)) 7 div 2
     \<le> sliding_max_pages sample_config 4 2"
  using sliding_window_memory_suffices [of "sample_window_manager (SlidingWindowSpec sample_attn 4)" sample_attn 4 7 1 sample_config]
  by (simp add: sample_window_manager_def sample_config_def sample_attn_def)

text \<open>For chunked local attention the reserved memory is enough when the chunk size is a
  multiple of the block size.\<close>

lemma chunked_memory_suffices_aligned:
  assumes "mspec m = ChunkedLocalAttentionSpec a ch" "0 < block_size m" "0 < ch" "block_size m dvd ch"
    and "0 \<le> c" "0 \<le> n" "n \<le> max_num_batched_tokens cfg" "c + n \<le> max_model_len cfg"
  shows "cdiv (c + n) (block_size m) - get_num_skipped_tokens m c div block_size m
           \<le> chunked_max_pages cfg ch (block_size m)"
proof -
  let ?bs = "block_size m" and ?s = "c div ch * ch"
  have s: "get_num_skipped_tokens m c = ?s" using assms(1) by (simp add: get_num_skipped_tokens_def)
  have d: "?s div ?bs * ?bs = ?s" using assms(4) by (simp add: dvd_mult)
  have "?s = c - c mod ch" by (simp add: minus_mod_eq_div_mult)
  moreover have "0 \<le> c mod ch" "c mod ch < ch" "c mod ch \<le> c"
    using assms(3,5) zmod_le_nonneg_dividend [OF assms(5), of ch] by auto
  ultimately have "c + n - ?s \<le> min (ch + max_num_batched_tokens cfg) (max_model_len cfg)"
    using assms(7,8) pos_mod_bound [OF assms(3), of c] by linarith
  then have "cdiv (c + n - ?s div ?bs * ?bs) ?bs \<le> chunked_max_pages cfg ch ?bs"
    unfolding d chunked_max_pages_def by (rule cdiv_mono [OF assms(2)])
  then show ?thesis unfolding s using cdiv_minus_blocks [OF assms(2), of "c + n" "?s div ?bs"] by linarith
qed

theorem chunked_memory_witness:
  "cdiv (13 + 1) 2 - get_num_skipped_tokens (sample_window_manager (ChunkedLocalAttentionSpec sample_attn 8)) 13 div 2
     \<le> chunked_max_pages sample_config 8 2"
  using chunked_memory_suffices_aligned [of "sample_window_manager (ChunkedLocalAttentionSpec sample_attn 8)" sample_attn 8 13 1 sample_config]
  by (simp add: sample_window_manager_def sample_config_def sample_attn_def)

text \<open>Without that alignment the reserved memory is too small: with chunks of 7 tokens,
  blocks of 4 and one new token, a request with 13 computed tokens occupies 3 blocks while
  \<^verbatim>\<open>ChunkedLocalAttentionSpec.max_memory_usage_bytes\<close> counts 2 pages.\<close>

lemma chunked_memory_unaligned_short:
  "chunked_max_pages sample_config 7 4 <
     cdiv (13 + 1) 4 - get_num_skipped_tokens (sample_window_manager
       (ChunkedLocalAttentionSpec (sample_attn\<lparr>af_block_size := 4\<rparr>) 7)) 13 div 4"
  by (simp add: chunked_max_pages_def sample_config_def sample_window_manager_def get_num_skipped_tokens_def cdiv_def)

text \<open>Sink blocks make the prefix cache impossible to reset: they leave the free queue when
  the manager is built and are never returned, so that even with no request the pool counts
  more than the null block as used and \<^verbatim>\<open>reset_prefix_cache\<close> refuses.\<close>

lemma sink_blocks_prevent_reset:
  assumes "pool_rep p fs {#}" "0 < af_block_size a"
    and "get_manager_for_kv_cache_spec (SinkFullAttentionSpec a f (Some n)) p caching gid 1 1 = Inr (m, p')"
  shows "\<not> fst (reset_prefix_cache p')"
proof -
  let ?k = "n div af_block_size a"
  have c: "cnt_inv p fs {#}" using assms(1) by (simp add: pool_rep_split)
  note D = cnt_invD [OF c]
  obtain bs q where q: "n > 0" "n mod af_block_size a = 0" "popleft_n ?k (free_block_queue p) = Inr (bs, q)" "p' = p\<lparr>free_block_queue := q\<rparr>"
    using assms(3) by (auto simp: get_manager_for_kv_cache_spec_def init_manager_def Let_def bindR_eq_Inr)
  have "0 \<le> ?k" using q(1) assms(2) by (simp add: pos_imp_zdiv_nonneg_iff)
  moreover have "?k \<noteq> 0" using q(1,2) div_mult_mod_eq [of n "af_block_size a"] by auto
  ultimately have k: "0 < ?k" by simp
  have "\<not> int (length fs) < ?k" using fq.pop_n_err [OF D(1)] q(3) by auto
  then have le: "?k \<le> int (length fs)" by simp
  from fq.pop_n_ok [OF D(1) _ this] k q(3) have "queue_rep q (drop (nat ?k) fs)" by auto
  then have "num_free_blocks q = int (length fs) - ?k" using fq.rep_count k le by fastforce
  moreover have "int (num_gpu_blocks p) - int (length fs) = 1"
    using free_count [OF assms(1)] c by (simp add: cnt_inv_def)
  ultimately show ?thesis using k q(4) by (simp add: reset_prefix_cache_def get_num_free_blocks_def)
qed

theorem sink_blocks_witness:
  "\<exists>p m p'. pool_rep p [Blk 1, Blk 2, Blk 3] {#} \<and>
     get_manager_for_kv_cache_spec (SinkFullAttentionSpec sample_attn
       \<lparr>head_size_v = 1, ff_sliding_window = None, ff_attention_chunk_size = None\<rparr> (Some 4)) p True 0 1 1 = Inr (m, p') \<and>
     \<not> fst (reset_prefix_cache p')"
proof -
  obtain p where p: "pool_rep p [Blk 1, Blk 2, Blk 3] {#}" using sample_pool by blast
  then have "queue_rep (free_block_queue p) [Blk 1, Blk 2, Blk 3]" by (simp add: pool_rep_def)
  from fq.pop_n_ok [OF this, of 2] obtain q where "popleft_n 2 (free_block_queue p) = Inr ([Blk 1, Blk 2], q)"
    by (auto simp: numeral_2_eq_2)
  then obtain m p' where g: "get_manager_for_kv_cache_spec (SinkFullAttentionSpec sample_attn
       \<lparr>head_size_v = 1, ff_sliding_window = None, ff_attention_chunk_size = None\<rparr> (Some 4)) p True 0 1 1 = Inr (m, p')"
    by (auto simp: get_manager_for_kv_cache_spec_def init_manager_def sample_attn_def Let_def)
  show ?thesis using sink_blocks_prevent_reset [OF p _ g] g p by (auto simp: sample_attn_def)
qed

end
