(* ===== verification/Cache_Hit.thy ===== *)
theory Cache_Hit
  imports Single_Type_Inv
begin

text \<open>
  What the prefix cache searches of the managers return. \<open>hits_at p bhl gids j cs\<close> says that
  the blocks \<open>cs\<close> (one per group) are cached under the hash of block \<open>j\<close>. The full
  attention search returns the longest aligned run of hits from the start; the sliding window
  search returns a list whose last blocks, as many as the window reaches back, are all hits.
\<close>

section \<open>Hits\<close>

definition hits_at :: "block_pool \<Rightarrow> block_hash_list \<Rightarrow> int list \<Rightarrow> nat \<Rightarrow> block_ref list \<Rightarrow> bool" where
  "hits_at p bhl gids j cs \<longleftrightarrow> (\<exists>h. bhl_get bhl j = Inr h \<and>
     list_all2 (\<lambda>g b. \<exists>k. make_block_hash_with_group_id h g = Inr k \<and> block_hash (blocks p b) = Some k \<and> real_block p b) gids cs)"

definition misses_at :: "block_pool \<Rightarrow> block_hash_list \<Rightarrow> int list \<Rightarrow> nat \<Rightarrow> bool" where
  "misses_at p bhl gids j \<longleftrightarrow> (\<exists>h. bhl_get bhl j = Inr h \<and>
     (\<exists>g\<in>set gids. \<exists>k. make_block_hash_with_group_id h g = Inr k \<and> (\<forall>b. block_hash (blocks p b) \<noteq> Some k)))"

definition gids_ok :: "int list \<Rightarrow> bool" where
  "gids_ok gids \<longleftrightarrow> gids \<noteq> [] \<and> (\<forall>g\<in>set gids. 0 \<le> g \<and> g < 2 ^ 32)"

lemma hits_length: "hits_at p bhl gids j cs \<Longrightarrow> length cs = length gids"
  by (auto simp: hits_at_def dest: list_all2_lengthD)

lemma lookup_cases:
  assumes "pool_inv p H" "gids_ok gids" "bhl_get bhl j = Inr h"
  obtains (hit) cs where "lookup_hit p h gids = Inr (Some cs)" "hits_at p bhl gids j cs"
    | (miss) "lookup_hit p h gids = Inr None" "misses_at p bhl gids j"
proof -
  obtain fs where fs: "pool_rep p fs H" using assms(1) by (auto simp: pool_inv_def)
  from cached_for_groups_spec [OF fs, of gids h "[]", unfolded append_Nil] assms(2) obtain res where
    r: "get_cached_block p h gids = Inr res"
    "case res of
        None \<Rightarrow> (\<exists>g\<in>set gids. \<exists>k. make_block_hash_with_group_id h g = Inr k \<and> (\<forall>b. block_hash (blocks p b) \<noteq> Some k))
      | Some bs \<Rightarrow> (\<exists>cs. bs = cs \<and> list_all2 (\<lambda>g b. \<exists>k. make_block_hash_with_group_id h g = Inr k \<and>
            block_hash (blocks p b) = Some k \<and> real_block p b) gids cs)"
    by (auto simp: gids_ok_def get_cached_block_def)
  show thesis
  proof (cases res)
    case None
    then show thesis using r assms(3) by (intro miss) (auto simp: lookup_hit_def misses_at_def)
  next
    case (Some cs)
    then have "cs \<noteq> []" using r(2) assms(2) by (auto simp: gids_ok_def dest: list_all2_lengthD)
    then show thesis using r Some assms(3) by (intro hit [of cs]) (auto simp: lookup_hit_def hits_at_def)
  qed
qed

section \<open>Tables of equal length\<close>

definition rect :: "nat \<Rightarrow> nat \<Rightarrow> block_ref list list \<Rightarrow> bool" where
  "rect g n R \<longleftrightarrow> length R = g \<and> (\<forall>l\<in>set R. length l = n)"

definition col :: "nat \<Rightarrow> block_ref list list \<Rightarrow> block_ref list" where
  "col j R = map (\<lambda>l. l ! j) R"

lemma rect_append_each: "rect g n R \<Longrightarrow> length cs = g \<Longrightarrow> rect g (Suc n) (append_each R cs)"
  by (auto simp: rect_def append_each_def in_set_zip)

lemma col_append_each:
  assumes "rect g n R" "length cs = g"
  shows "col n (append_each R cs) = cs" "j < n \<Longrightarrow> col j (append_each R cs) = col j R"
proof -
  have len: "length (R ! i) = n" if "i < g" for i using assms(1) that by (auto simp: rect_def)
  have g: "length R = g" using assms(1) by (simp add: rect_def)
  show "col n (append_each R cs) = cs"
    by (rule nth_equalityI) (use assms g len in \<open>auto simp: col_def append_each_def nth_append\<close>)
  show "col j (append_each R cs) = col j R" if "j < n"
    by (rule nth_equalityI) (use assms g len that in \<open>auto simp: col_def append_each_def nth_append\<close>)
qed

lemma rect_take: "rect g n R \<Longrightarrow> k \<le> n \<Longrightarrow> rect g k (map (take k) R)"
  by (auto simp: rect_def)

lemma rect_take_id: "rect g n R \<Longrightarrow> map (take n) R = R"
  by (auto simp: rect_def intro: map_idI)

lemma col_take: "rect g n R \<Longrightarrow> j < k \<Longrightarrow> k \<le> n \<Longrightarrow> col j (map (take k) R) = col j R"
  by (auto simp: col_def)

lemma pop_each_take: "rect g (Suc n) R \<Longrightarrow> pop_each R = map (take n) R"
  by (auto simp: pop_each_def rect_def butlast_conv_take)

section \<open>The forward search\<close>

lemma hit_forward_spec:
  assumes "pool_inv p H" "gids_ok gids" "\<And>j. j < i + n \<Longrightarrow> is_ok (bhl_get bhl j)"
    and "rect (length gids) i0 R"
  shows "\<exists>k R'. hit_forward p bhl gids i n R = Inr R' \<and> k \<le> n \<and> rect (length gids) (i0 + k) R' \<and>
     (\<forall>j<k. hits_at p bhl gids (i + j) (col (i0 + j) R')) \<and> (\<forall>j<i0. col j R' = col j R) \<and>
     (k < n \<longrightarrow> misses_at p bhl gids (i + k))"
  using assms(3,4)
proof (induction n arbitrary: i i0 R)
  case (Suc n)
  obtain h where h: "bhl_get bhl i = Inr h" using Suc.prems(1) [of i] by (auto simp: is_ok_iff)
  from assms(1,2) h show ?case
  proof (cases rule: lookup_cases)
    case miss
    then show ?thesis using h Suc.prems(2) by (intro exI [of _ 0] exI [of _ R]) simp
  next
    case (hit cs)
    have lc: "length cs = length gids" using hits_length [OF hit(2)] .
    note c = rect_append_each [OF Suc.prems(2) lc] col_append_each [OF Suc.prems(2) lc]
    from Suc.IH [of "Suc i", OF _ c(1)] Suc.prems(1) obtain k R' where
      k: "hit_forward p bhl gids (Suc i) n (append_each R cs) = Inr R'" "k \<le> n" "rect (length gids) (Suc i0 + k) R'"
        "\<forall>j<k. hits_at p bhl gids (Suc i + j) (col (Suc i0 + j) R')" "\<forall>j<Suc i0. col j R' = col j (append_each R cs)"
        "k < n \<longrightarrow> misses_at p bhl gids (Suc i + k)" by auto
    have c0: "col i0 R' = cs" using k(5) c(2) by simp
    have "hits_at p bhl gids (i + j) (col (i0 + j) R')" if "j < Suc k" for j
      using k(4) c0 hit(2) that by (cases j) auto
    then show ?thesis using h hit(1) k c(3) by (intro exI [of _ "Suc k"] exI [of _ R']) auto
  qed
qed simp

lemma align_loop_spec:
  assumes "rect g n R" "0 < al"
  shows "\<exists>L\<le>n. align_loop bs al n R = map (take L) R \<and> (bs = al \<longrightarrow> L = n) \<and> int L * bs mod al = 0 \<and>
     (\<forall>L'. L < L' \<longrightarrow> L' \<le> n \<longrightarrow> int L' * bs mod al \<noteq> 0)"
  using assms(1)
proof (induction n arbitrary: R)
  case 0
  then have "map (take 0) R = R" by (rule rect_take_id)
  then show ?case by (intro exI [of _ 0]) simp
next
  case (Suc n)
  show ?case
  proof (cases "bs \<noteq> al \<and> int (Suc n) * bs mod al \<noteq> 0")
    case True
    have r: "rect g n (pop_each R)" using rect_take [OF Suc.prems, of n] pop_each_take [OF Suc.prems] by simp
    from Suc.IH [OF r] obtain L where L: "L \<le> n" "align_loop bs al n (pop_each R) = map (take L) (pop_each R)"
      "int L * bs mod al = 0" "\<forall>L'. L < L' \<longrightarrow> L' \<le> n \<longrightarrow> int L' * bs mod al \<noteq> 0"
      by (elim exE conjE) (rule that)
    have "map (take L) (pop_each R) = map (take L) R" using pop_each_take [OF Suc.prems] L(1) by (simp add: min_absorb1)
    then show ?thesis using True L by (intro exI [of _ L]) (auto simp: le_Suc_eq simp del: of_nat_Suc)
  next
    case False
    then have "int (Suc n) * bs mod al = 0" by auto
    moreover have "map (take (Suc n)) R = R" using Suc.prems by (rule rect_take_id)
    ultimately show ?thesis using False by (intro exI [of _ "Suc n"]) (auto simp del: of_nat_Suc)
  qed
qed

lemma full_hit_spec:
  fixes dcp pcp max_length :: int
  assumes "pool_inv p H" "gids_ok gids" "\<And>j. j < bhl_len bhl \<Longrightarrow> is_ok (bhl_get bhl j)"
    and "is_full_attention spec \<or> is_chunked_local spec" "0 < al"
  defines "bs \<equiv> cp_block_size spec dcp pcp"
  defines "N \<equiv> min (nat (max_length div bs)) (bhl_len bhl)"
  shows "\<exists>k L R. full_find_longest_cache_hit bhl max_length gids p spec eagle al dcp pcp = Inr R \<and>
     rect (length gids) L R \<and> k \<le> N \<and> (k < N \<longrightarrow> misses_at p bhl gids k) \<and>
     L \<le> (if eagle then k - 1 else k) \<and> (\<forall>j<L. hits_at p bhl gids j (col j R)) \<and>
     (bs = al \<longrightarrow> L = (if eagle then k - 1 else k)) \<and> int L * bs mod al = 0 \<and>
     (\<forall>L'. L < L' \<longrightarrow> L' \<le> (if eagle then k - 1 else k) \<longrightarrow> int L' * bs mod al \<noteq> 0)"
proof -
  have r0: "rect (length gids) 0 (map (\<lambda>_. []) gids)" by (simp add: rect_def)
  have g0: "0 < length gids" using assms(2) by (simp add: gids_ok_def)
  from hit_forward_spec [OF assms(1,2) _ r0, of 0 N bhl] assms(3) obtain k R0 where
    k: "hit_forward p bhl gids 0 N (map (\<lambda>_. []) gids) = Inr R0" "k \<le> N" "rect (length gids) k R0"
      "\<forall>j<k. hits_at p bhl gids j (col j R0)" "k < N \<longrightarrow> misses_at p bhl gids k"
    by (auto simp: N_def)
  have R0: "R0 \<noteq> []" "length (R0 ! 0) = k" "py_get R0 0 = Inr (R0 ! 0)"
    using k(3) g0 py_get_nth [of 0 R0] by (auto simp: rect_def)
  let ?c = "if eagle \<and> R0 ! 0 \<noteq> [] then pop_each R0 else R0" and ?k = "if eagle then k - 1 else k"
  have c: "?c = map (take ?k) R0"
  proof (cases "eagle \<and> R0 ! 0 \<noteq> []")
    case True
    then obtain k' where "k = Suc k'" using R0(2) by (cases k) auto
    then show ?thesis using True k(3) pop_each_take by auto
  next
    case False
    then have "?k = k" using R0(2) by auto
    then show ?thesis using rect_take_id [OF k(3)] if_not_P [OF False] by metis
  qed
  have rc: "rect (length gids) ?k ?c" unfolding c by (rule rect_take [OF k(3)]) simp
  then have hdc: "length (hd ?c) = ?k" using g0 unfolding rect_def by (metis hd_in_set length_greater_0_conv)
  from align_loop_spec [OF rc assms(5), of bs] obtain L where L: "L \<le> ?k"
    "align_loop bs al ?k ?c = map (take L) ?c" "bs = al \<longrightarrow> L = ?k" "int L * bs mod al = 0"
    "\<forall>L'. L < L' \<longrightarrow> L' \<le> ?k \<longrightarrow> int L' * bs mod al \<noteq> 0" by (elim exE conjE) (rule that)
  have tk: "map (take L) ?c = map (take L) R0" unfolding c using L(1) by (simp add: min_absorb1)
  let ?R = "map (take L) R0"
  have "full_find_longest_cache_hit bhl max_length gids p spec eagle al dcp pcp = Inr ?R"
    using assms(4) k(1) R0(3) L(2) hdc tk
    by (simp add: full_find_longest_cache_hit_def Let_def N_def bs_def [symmetric])
  moreover have "L \<le> k" using L(1) by (auto split: if_splits)
  moreover have "rect (length gids) L ?R" using rect_take [OF k(3) \<open>L \<le> k\<close>] .
  moreover have "\<forall>j<L. hits_at p bhl gids j (col j ?R)" using k(4) col_take [OF k(3) _ \<open>L \<le> k\<close>] \<open>L \<le> k\<close> by auto
  ultimately show ?thesis
    using k(2,5) L(1,3-5) by (intro exI [of _ k] exI [of _ L] exI [of _ ?R] conjI)
qed

section \<open>The sliding window search\<close>

lemma rect_update: "rect g n R \<Longrightarrow> length cs = g \<Longrightarrow> rect g n (map2 (\<lambda>l b. l[i := b]) R cs)"
  by (auto simp: rect_def in_set_zip)

lemma col_update:
  assumes "rect g n R" "length cs = g" "i < n"
  shows "col i (map2 (\<lambda>l b. l[i := b]) R cs) = cs" "j \<noteq> i \<Longrightarrow> col j (map2 (\<lambda>l b. l[i := b]) R cs) = col j R"
proof -
  have len: "length (R ! i') = n" if "i' < g" for i' using assms(1) that by (auto simp: rect_def)
  have g: "length R = g" using assms(1) by (simp add: rect_def)
  show "col i (map2 (\<lambda>l b. l[i := b]) R cs) = cs"
    by (rule nth_equalityI) (use assms g len in \<open>auto simp: col_def\<close>)
  show "col j (map2 (\<lambda>l b. l[i := b]) R cs) = col j R" if "j \<noteq> i"
    by (rule nth_equalityI) (use assms g len that in \<open>auto simp: col_def\<close>)
qed

text \<open>No aligned length beyond \<open>L\<close> has hits in its last \<open>need\<close> blocks.\<close>

definition no_longer ::
  "block_pool \<Rightarrow> block_hash_list \<Rightarrow> int list \<Rightarrow> int \<Rightarrow> int \<Rightarrow> int \<Rightarrow> nat \<Rightarrow> nat \<Rightarrow> bool" where
  "no_longer p bhl gids bs al need M L \<longleftrightarrow> (\<forall>L'. L < L' \<longrightarrow> L' \<le> M \<longrightarrow> int L' * bs mod al = 0 \<longrightarrow>
     (\<exists>j < L'. int L' - need \<le> int j \<and> misses_at p bhl gids j))"

lemma no_longer_miss:
  "no_longer p bhl gids bs al need M (Suc i + c) \<Longrightarrow> int c < need \<Longrightarrow> misses_at p bhl gids i \<Longrightarrow> no_longer p bhl gids bs al need M i"
  unfolding no_longer_def
proof (intro allI impI, goal_cases)
  case (1 L')
  show ?case
  proof (cases "Suc i + c < L'")
    case False
    then show ?thesis using 1 by (intro exI [of _ i]) simp
  qed (rule 1(1) [rule_format, OF _ 1(5,6)])
qed

lemma no_longer_unaligned:
  "no_longer p bhl gids bs al need M (Suc i) \<Longrightarrow> int (Suc i) * bs mod al \<noteq> 0 \<Longrightarrow> no_longer p bhl gids bs al need M i"
  unfolding no_longer_def by (metis Suc_lessI)

text \<open>What the right-to-left loop returns from position \<open>i\<close> with \<open>c\<close> contiguous hits above it.\<close>

lemma sliding_loop_spec:
  assumes "pool_inv p H" "gids_ok gids" "\<And>j. j < M \<Longrightarrow> is_ok (bhl_get bhl j)" "0 < al" "1 \<le> need"
    and "rect (length gids) M R" "i + c \<le> M" "int c < need"
    and "\<forall>j. i \<le> j \<longrightarrow> j < i + c \<longrightarrow> hits_at p bhl gids j (col j R)"
    and "0 < c \<longrightarrow> bs = al \<or> int (i + c) * bs mod al = 0" "no_longer p bhl gids bs al need M (i + c)"
  shows "\<exists>R' c' found L. sliding_loop p bhl gids bs al need i c R = Inr (R', c', found) \<and> c' \<le> L \<and> L \<le> M \<and>
     rect (length gids) (if found then L else M) R' \<and>
     (if found then int c' = need \<and> (bs = al \<or> int L * bs mod al = 0) else L = c') \<and>
     (\<forall>j. L - c' \<le> j \<longrightarrow> j < L \<longrightarrow> hits_at p bhl gids j (col j R')) \<and> no_longer p bhl gids bs al need M L"
  using assms(6-)
proof (induction i arbitrary: c R)
  case 0
  then show ?case by (intro exI [of _ R] exI [of _ c] exI [of _ False] exI [of _ c]) auto
next
  case (Suc i)
  obtain h where h: "bhl_get bhl i = Inr h" using assms(3) [of i] Suc.prems(2) by (auto simp: is_ok_iff)
  from assms(1,2) h show ?case
  proof (cases rule: lookup_cases)
    case miss
    have "sliding_loop p bhl gids bs al need (Suc i) c R = sliding_loop p bhl gids bs al need i 0 R"
      using h miss(1) by simp
    moreover note Suc.IH [OF Suc.prems(1), of 0]
    moreover have "no_longer p bhl gids bs al need M i" by (rule no_longer_miss [OF Suc.prems(6,3) miss(2)])
    ultimately show ?thesis using Suc.prems(2) assms(5) by simp
  next
    case (hit cs)
    have lc: "length cs = length gids" using hits_length [OF hit(2)] .
    show ?thesis
    proof (cases "c = 0 \<and> bs \<noteq> al \<and> (int i + 1) * bs mod al \<noteq> 0")
      case True
      then have "sliding_loop p bhl gids bs al need (Suc i) c R = sliding_loop p bhl gids bs al need i c R"
        using h hit(1) by simp
      moreover have "no_longer p bhl gids bs al need M i"
        by (rule no_longer_unaligned) (use Suc.prems(6) True in \<open>simp_all add: ac_simps\<close>)
      ultimately show ?thesis using Suc.IH [OF Suc.prems(1), of c] Suc.prems(2,3) True by simp
    next
      case False
      let ?R = "map2 (\<lambda>l b. l[i := b]) R cs"
      have i: "i < M" using Suc.prems(2) by simp
      note u = rect_update [OF Suc.prems(1) lc, of i] col_update [OF Suc.prems(1) lc i]
      have hits: "hits_at p bhl gids j (col j ?R)" if "i \<le> j" "j < i + Suc c" for j
      proof (cases "j = i")
        case True
        then show ?thesis using u(2) hit(2) by simp
      next
        case False
        then show ?thesis using Suc.prems(4) u(3) [OF False] that by simp
      qed
      have al: "bs = al \<or> int (i + Suc c) * bs mod al = 0"
        using False Suc.prems(5) by (cases c) (auto simp: algebra_simps)
      show ?thesis
      proof (cases "int (c + 1) \<ge> need")
        case True
        then have need: "int (c + 1) = need" using Suc.prems(3) by simp
        have "sliding_loop p bhl gids bs al need (Suc i) c R = Inr (map (take (i + (c + 1))) ?R, c + 1, True)"
          unfolding sliding_loop.simps h bindR_Inr hit(1) option.case if_not_P [OF False] Let_def if_P [OF True] by simp
        moreover have "rect (length gids) (i + Suc c) (map (take (i + (c + 1))) ?R)"
          using rect_take [OF u(1), of "i + Suc c"] Suc.prems(2) by simp
        moreover have "hits_at p bhl gids j (col j (map (take (i + (c + 1))) ?R))" if "i \<le> j" "j < i + Suc c" for j
          using hits [OF that] col_take [OF u(1), of j "i + Suc c"] that Suc.prems(2) by simp
        ultimately show ?thesis
          using need al Suc.prems(2,6)
          by (intro exI [of _ "map (take (i + (c + 1))) ?R"] exI [of _ "c + 1"] exI [of _ True] exI [of _ "i + Suc c"]) auto
      next
        case nf: False
        have "sliding_loop p bhl gids bs al need (Suc i) c R = sliding_loop p bhl gids bs al need i (c + 1) ?R"
          unfolding sliding_loop.simps h bindR_Inr hit(1) option.case if_not_P [OF False] Let_def if_not_P [OF nf] ..
        then show ?thesis using Suc.IH [OF u(1), of "c + 1"] hits al Suc.prems(2,6) nf by simp
      qed
    qed
  qed
qed

text \<open>Block \<open>j\<close> of the first \<open>L\<close> holds one of the last \<open>w - 1\<close> tokens, those that the next token attends to
  beside itself.\<close>

definition window_block :: "int \<Rightarrow> int \<Rightarrow> nat \<Rightarrow> nat \<Rightarrow> bool" where
  "window_block w bs L j \<longleftrightarrow> j < L \<and> int L * bs - (w - 1) < (int j + 1) * bs"

lemma window_block_iff:
  assumes "0 < bs"
  shows "window_block w bs L j \<longleftrightarrow> j < L \<and> int L - cdiv (w - 1) bs \<le> int j"
proof -
  have "int L * bs - (w - 1) < (int j + 1) * bs \<longleftrightarrow> (int L - int j - 1) * bs < w - 1" by (simp add: algebra_simps)
  also have "\<dots> \<longleftrightarrow> int L - int j - 1 < cdiv (w - 1) bs" using less_cdiv_iff [OF assms] by simp
  finally show ?thesis by (auto simp: window_block_def)
qed

lemma sliding_hit_spec:
  assumes "pool_inv p H" "gids_ok gids" "\<And>j. j < nat (max_length div af_block_size a) \<Longrightarrow> is_ok (bhl_get bhl j)"
    and "0 < af_block_size a" "2 \<le> w" "0 < al" "eagle \<longrightarrow> af_block_size a = al"
  defines "bs \<equiv> af_block_size a"
  shows "\<exists>R L. sliding_find_longest_cache_hit bhl max_length gids p (SlidingWindowSpec a w) eagle al 1 1 = Inr R \<and>
     rect (length gids) L R \<and> L \<le> nat (max_length div bs) \<and> int L * bs mod al = 0 \<and>
     (\<forall>j. window_block w bs L j \<longrightarrow> hits_at p bhl gids j (col j R)) \<and>
     (\<forall>L'. L < L' \<longrightarrow> L' + (if eagle then 1 else 0) \<le> nat (max_length div bs) \<longrightarrow> int L' * bs mod al = 0 \<longrightarrow>
        (\<exists>j. (window_block w bs L' j \<or> eagle \<and> j = L') \<and> misses_at p bhl gids j))"
proof -
  let ?M = "nat (max_length div bs)" and ?need = "cdiv (w - 1) bs + (if eagle then 1 else 0)"
  let ?init = "map (\<lambda>_. replicate ?M (null_block p)) gids"
  have bs0: "0 < bs" using assms(4) by (simp add: bs_def)
  have n1: "1 \<le> cdiv (w - 1) bs" using less_cdiv_iff [OF bs0, of 0 "w - 1"] assms(5) by simp
  have g0: "0 < length gids" using assms(2) by (simp add: gids_ok_def)
  have r0: "rect (length gids) ?M ?init" by (simp add: rect_def)
  obtain R1 c found L1 where s: "sliding_loop p bhl gids bs al ?need ?M 0 ?init = Inr (R1, c, found)" "c \<le> L1" "L1 \<le> ?M"
    "rect (length gids) (if found then L1 else ?M) R1"
    "if found then int c = ?need \<and> (bs = al \<or> int L1 * bs mod al = 0) else L1 = c"
    "\<forall>j. L1 - c \<le> j \<longrightarrow> j < L1 \<longrightarrow> hits_at p bhl gids j (col j R1)" "no_longer p bhl gids bs al ?need ?M L1"
  proof -
    have "\<exists>R' c' found L. sliding_loop p bhl gids bs al ?need ?M 0 ?init = Inr (R', c', found) \<and> c' \<le> L \<and> L \<le> ?M \<and>
      rect (length gids) (if found then L else ?M) R' \<and>
      (if found then int c' = ?need \<and> (bs = al \<or> int L * bs mod al = 0) else L = c') \<and>
      (\<forall>j. L - c' \<le> j \<longrightarrow> j < L \<longrightarrow> hits_at p bhl gids j (col j R')) \<and> no_longer p bhl gids bs al ?need ?M L"
      by (rule sliding_loop_spec [OF assms(1,2) _ assms(6) _ r0]) (use assms(3) n1 in \<open>auto simp: bs_def no_longer_def\<close>)
    then show thesis by (elim exE conjE) (rule that)
  qed
  have w1: "w - 1 \<le> cdiv (w - 1) bs * bs" by (rule cdiv_upper [OF bs0])
  have "length R1 = length gids" using s(4) by (simp add: rect_def)
  then have pg: "py_get R1 0 = Inr (R1 ! 0)" using py_get_nth [of 0 R1] g0 by simp
  let ?c1 = "if found then R1 else let c' = map (take c) R1 in align_loop bs al (length (hd c')) c'"
  have "\<exists>L. L \<le> L1 \<and> ?c1 = map (take L) R1 \<and> int L * bs mod al = 0 \<and> (if found then L = L1 else True) \<and>
      no_longer p bhl gids bs al ?need ?M L"
  proof (cases found)
    case True
    then have "map (take L1) R1 = R1" using s(4) rect_take_id by auto
    moreover have "int L1 * bs mod al = 0" using s(5) True by auto
    ultimately show ?thesis using True s(7) by (intro exI [of _ L1]) simp
  next
    case False
    have rc: "rect (length gids) c (map (take c) R1)" using rect_take [of "length gids" ?M R1 c] s(2,3,4) False by simp
    then have hd: "length (hd (map (take c) R1)) = c" using g0 unfolding rect_def by (metis hd_in_set length_greater_0_conv)
    from align_loop_spec [OF rc assms(6), of bs] obtain L where L: "L \<le> c"
      "align_loop bs al c (map (take c) R1) = map (take L) (map (take c) R1)" "int L * bs mod al = 0"
      "\<forall>L'. L < L' \<longrightarrow> L' \<le> c \<longrightarrow> int L' * bs mod al \<noteq> 0" by (elim exE conjE) (rule that)
    have "no_longer p bhl gids bs al ?need ?M L"
      using s(5,7) L(4) False unfolding no_longer_def by (metis not_le)
    moreover have "map (take L) (map (take c) R1) = map (take L) R1" using L(1) by (simp add: min_absorb1)
    ultimately show ?thesis using False L(1-3) hd s(5) by (intro exI [of _ L]) (simp add: Let_def)
  qed
  then obtain L where L: "L \<le> L1" "?c1 = map (take L) R1" "int L * bs mod al = 0" "found \<Longrightarrow> L = L1"
    and longest: "no_longer p bhl gids bs al ?need ?M L" by (elim exE conjE) (rule that, auto)
  have LM: "L \<le> (if found then L1 else ?M)" using L(1) s(3) by auto
  have hdL: "length (hd (map (take L) R1)) = L"
    using rect_take [OF s(4) LM] g0 unfolding rect_def by (metis hd_in_set length_greater_0_conv)
  have hit: "hits_at p bhl gids j (col j R1)" if "j < L" "int L \<le> int j + ?need" for j
    using s(2,5,6) that L(1,4) by (cases found) auto
  let ?L = "if eagle then L - 1 else L"
  have R: "sliding_find_longest_cache_hit bhl max_length gids p (SlidingWindowSpec a w) eagle al 1 1 = Inr (map (take ?L) R1)"
  proof (cases "eagle \<and> map (take L) R1 \<noteq> [] \<and> L \<noteq> 0")
    case True
    then obtain L' where L': "L = Suc L'" by (cases L) auto
    have "pop_each (map (take L) R1) = map (take L') R1"
      using pop_each_take [of "length gids" L' "map (take L) R1"] rect_take [OF s(4) LM] L' by (simp add: min_absorb1)
    moreover have "hd (map (take L) R1) \<noteq> []" using hdL L' by auto
    ultimately show ?thesis
      using True s(1) pg L(2) L' assms(7)
      by (simp add: sliding_find_longest_cache_hit_def bs_def [symmetric] Let_def cong: if_cong)
  next
    case False
    have "R1 \<noteq> []" using pg by (auto simp: py_get_def split: if_splits)
    then have "eagle \<Longrightarrow> L = 0" using False by simp
    then have e: "\<not> (eagle \<and> hd (map (take L) R1) \<noteq> [])" "?L = L" using hdL by auto
    then show ?thesis
      using s(1) pg L(2)
      by (simp add: sliding_find_longest_cache_hit_def bs_def [symmetric] Let_def cong: if_cong) blast
  qed
  have LL: "?L \<le> (if found then L1 else ?M)" using LM by auto
  have al: "int ?L * bs mod al = 0" using L(3) assms(7) by (auto simp: bs_def)
  have "hits_at p bhl gids j (col j (map (take ?L) R1))" if j: "window_block w bs ?L j" for j
  proof -
    have k: "j < ?L" "int ?L - cdiv (w - 1) bs \<le> int j" using j by (simp_all only: window_block_iff [OF bs0])
    then have "hits_at p bhl gids j (col j R1)" using hit [of j] by (auto split: if_splits)
    then show ?thesis using col_take [OF s(4) k(1) LL] by simp
  qed
  moreover have "\<exists>j. (window_block w bs L' j \<or> eagle \<and> j = L') \<and> misses_at p bhl gids j"
    if l: "?L < L'" "L' + (if eagle then 1 else 0) \<le> ?M" "int L' * bs mod al = 0" for L'
  proof -
    let ?L' = "L' + (if eagle then 1 else 0)"
    have a: "L < ?L'" "int ?L' * bs mod al = 0" using l(1,3) assms(7) by (auto simp: bs_def)
    from longest [unfolded no_longer_def, rule_format, OF a(1) l(2) a(2)]
    obtain j where "j < ?L'" "int ?L' - ?need \<le> int j" "misses_at p bhl gids j" by (elim exE conjE) (rule that)
    then show ?thesis by (intro exI [of _ j]) (auto simp: window_block_iff [OF bs0] split: if_splits)
  qed
  ultimately show ?thesis
    using R rect_take [OF s(4) LL] al L(1) s(3) by (intro exI [of _ "map (take ?L) R1"] exI [of _ ?L]) auto
qed

section \<open>Properties\<close>

text \<open>(C20) The full attention search returns the longest usable prefix. With \<open>k\<close> the number of
  leading blocks that are cached for every group (the next one is a miss, or the length limit
  or the hashes end there), the result has for every group the same number \<open>L\<close> of blocks,
  each cached under the hash of its position; \<open>L\<close> is the largest number of blocks, at most
  \<open>k\<close> and one less for EAGLE, whose tokens are a multiple of the alignment.\<close>

theorem full_attention_longest_hit:
  assumes "pool_inv p H" "gids_ok gids" "\<forall>j<bhl_len bhl. is_ok (bhl_get bhl j)"
    and "is_full_attention spec \<or> is_chunked_local spec" "0 < al"
  shows "\<exists>k L R. full_find_longest_cache_hit bhl max_length gids p spec eagle al dcp pcp = Inr R \<and>
     rect (length gids) L R \<and> (\<forall>j<L. hits_at p bhl gids j (col j R)) \<and>
     k \<le> min (nat (max_length div cp_block_size spec dcp pcp)) (bhl_len bhl) \<and>
     (k < min (nat (max_length div cp_block_size spec dcp pcp)) (bhl_len bhl) \<longrightarrow> misses_at p bhl gids k) \<and>
     L \<le> (if eagle then k - 1 else k) \<and> int L * cp_block_size spec dcp pcp mod al = 0 \<and>
     (\<forall>L'. L < L' \<longrightarrow> L' \<le> (if eagle then k - 1 else k) \<longrightarrow> int L' * cp_block_size spec dcp pcp mod al \<noteq> 0)"
proof -
  from full_hit_spec [OF assms(1,2) _ assms(4,5), of bhl max_length eagle dcp pcp] assms(3) obtain k L R where
    "full_find_longest_cache_hit bhl max_length gids p spec eagle al dcp pcp = Inr R"
    "rect (length gids) L R" "k \<le> min (nat (max_length div cp_block_size spec dcp pcp)) (bhl_len bhl)"
    "k < min (nat (max_length div cp_block_size spec dcp pcp)) (bhl_len bhl) \<longrightarrow> misses_at p bhl gids k"
    "L \<le> (if eagle then k - 1 else k)" "\<forall>j<L. hits_at p bhl gids j (col j R)"
    "int L * cp_block_size spec dcp pcp mod al = 0"
    "\<forall>L'. L < L' \<longrightarrow> L' \<le> (if eagle then k - 1 else k) \<longrightarrow> int L' * cp_block_size spec dcp pcp mod al \<noteq> 0"
    by (elim meta_impE exE conjE) (simp, rule that)
  then show ?thesis by (intro exI [of _ k] exI [of _ L] exI [of _ R] conjI)
qed

lemma sample_pool_inv: "\<exists>p. pool_inv p {#} \<and> num_gpu_blocks p = 4"
  using sample_pool unfolding pool_inv_def by blast

theorem full_attention_longest_hit_witness:
  "\<exists>p R. pool_inv p {#} \<and>
     full_find_longest_cache_hit (PlainHashes [[7], [8]]) 4 [0] p sample_full False 2 1 1 = Inr R \<and> length R = 1"
proof -
  obtain p where p: "pool_inv p {#}" using sample_pool_inv by blast
  have "gids_ok [0]" "\<forall>j<bhl_len (PlainHashes [[7], [8]]). is_ok (bhl_get (PlainHashes [[7], [8]]) j)"
    "is_full_attention sample_full \<or> is_chunked_local sample_full"
    by (simp_all add: gids_ok_def sample_full_def)
  from full_attention_longest_hit [OF p this, of 2 4 False 1 1] p show ?thesis by (auto simp: rect_def)
qed

text \<open>(C21) The sliding window search returns the longest usable prefix. The result has for every group
  the same number \<open>L\<close> of blocks, an aligned length within the limit, and every block that holds one of
  the last \<open>w - 1\<close> of these tokens (\<open>window_block\<close>) is a hit, so there is no hole in the window; only blocks
  entirely outside it may be null. And no longer prefix is usable: for every longer aligned length within
  the limit (with EAGLE, one block below it), some block of its window, or with EAGLE the block behind
  it, is missing in the cache for some group.\<close>

theorem sliding_window_longest_hit:
  assumes "pool_inv p H" "gids_ok gids" "\<forall>j<nat (max_length div af_block_size a). is_ok (bhl_get bhl j)"
    and "0 < af_block_size a" "2 \<le> w" "0 < al" "eagle \<longrightarrow> af_block_size a = al"
  shows "\<exists>R L. sliding_find_longest_cache_hit bhl max_length gids p (SlidingWindowSpec a w) eagle al 1 1 = Inr R \<and>
     rect (length gids) L R \<and> L \<le> nat (max_length div af_block_size a) \<and> int L * af_block_size a mod al = 0 \<and>
     (\<forall>j. window_block w (af_block_size a) L j \<longrightarrow> hits_at p bhl gids j (col j R)) \<and>
     (\<forall>L'. L < L' \<longrightarrow> L' + (if eagle then 1 else 0) \<le> nat (max_length div af_block_size a) \<longrightarrow> int L' * af_block_size a mod al = 0 \<longrightarrow>
        (\<exists>j. (window_block w (af_block_size a) L' j \<or> eagle \<and> j = L') \<and> misses_at p bhl gids j))"
  by (rule sliding_hit_spec [OF assms(1,2) _ assms(4-7)]) (use assms(3) in simp)

text \<open>A pool in which two blocks of a request have been cached.\<close>

definition sample_cached :: "(bytes list \<times> block_pool) res" where
  "sample_cached =
     bindR (new_block_pool 4 True 2 False False) (\<lambda>p.
     bindR (get_new_blocks 2 p) (\<lambda>(bs, p1).
     bindR (update_block_hashes (Some (ser_env, 2)) (sample_request ''a'' [5, 6, 7, 8])) (\<lambda>r.
     bindR (cache_full_blocks ser_env r bs 0 2 2 0 p1) (\<lambda>(p2, _). Inr (block_hashes r, p2)))))"

lemma sample_cached_value:
  "\<exists>hs p. sample_cached = Inr (hs, p) \<and> length hs = 2 \<and>
     sliding_find_longest_cache_hit (PlainHashes hs) 4 [0] p (SlidingWindowSpec sample_attn 3) False 2 1 1 = Inr [[Blk 0, Blk 2]]"
proof -
  have "case sample_cached of Inl e \<Rightarrow> False | Inr (hs, p) \<Rightarrow> length hs = 2 \<and>
      sliding_find_longest_cache_hit (PlainHashes hs) 4 [0] p (SlidingWindowSpec sample_attn 3) False 2 1 1 = Inr [[Blk 0, Blk 2]]"
    by code_simp
  then show ?thesis by (auto split: sum.splits)
qed

lemma sample_cached_inv:
  assumes "sample_cached = Inr (hs, p)"
  shows "pool_inv p {#Blk 1, Blk 2#}"
proof -
  obtain p0 where p0: "new_block_pool 4 True 2 False False = Inr p0" "pool_rep p0 [Blk 1, Blk 2, Blk 3] {#}" "enable_caching p0"
    using sample_pool by blast
  from get_new_blocks_spec [OF p0(2), of 2] obtain p1 where p1: "get_new_blocks 2 p0 = Inr ([Blk 1, Blk 2], p1)"
      "pool_rep p1 [Blk 3] {#Blk 1, Blk 2#}" "same_config p0 p1" by (auto simp: numeral_2_eq_2)
  obtain r r' where c: "cache_full_blocks ser_env r [Blk 1, Blk 2] 0 2 2 0 p1 = Inr (p, r')"
    using assms unfolding sample_cached_def p0(1) bindR_Inr p1(1) prod.case by (auto simp: bindR_eq_Inr)
  have "enable_caching p1" using p0(3) p1(3) by (simp add: same_config_def)
  moreover have "\<forall>b \<in> set [Blk 1, Blk 2]. real_block p1 b \<or> b = Blk 0" using p1(2) by (auto simp: pool_rep_def)
  ultimately show ?thesis using cache_full_blocks_inv [OF c p1(2)] by (auto simp: pool_inv_def)
qed

theorem sliding_window_hit_witness:
  "\<exists>hs p. sample_cached = Inr (hs, p) \<and>
     sliding_find_longest_cache_hit (PlainHashes hs) 4 [0] p (SlidingWindowSpec sample_attn 3) False 2 1 1 = Inr [[Blk 0, Blk 2]] \<and>
     hits_at p (PlainHashes hs) [0] 1 [Blk 2]"
proof -
  obtain hs p where s: "sample_cached = Inr (hs, p)" "length hs = 2"
      "sliding_find_longest_cache_hit (PlainHashes hs) 4 [0] p (SlidingWindowSpec sample_attn 3) False 2 1 1 = Inr [[Blk 0, Blk 2]]"
    using sample_cached_value by blast
  have "gids_ok [0]" "\<forall>j<nat (4 div af_block_size sample_attn). is_ok (bhl_get (PlainHashes hs) j)"
    using s(2) py_get_nth by (auto simp: gids_ok_def sample_attn_def)
  from sliding_window_longest_hit [OF sample_cached_inv [OF s(1)] this, of 3 2 False] s(3) obtain L where
    L: "rect 1 L [[Blk 0, Blk 2]]" "\<forall>j. window_block 3 2 L j \<longrightarrow> hits_at p (PlainHashes hs) [0] j (col j [[Blk 0, Blk 2]])"
    by (auto simp: sample_attn_def)
  have "L = 2" using L(1) by (simp add: rect_def)
  then have "hits_at p (PlainHashes hs) [0] 1 (col 1 [[Blk 0, Blk 2]])" using L(2) by (simp add: window_block_def)
  then show ?thesis using s by (auto simp: col_def)
qed

end
