(* ===== verification/Coordinator.thy ===== *)
theory Coordinator
  imports Cache_Hit
begin

text \<open>
  The coordinators of v1/core/kv\_cache\_coordinator.py, which drive the managers of all KV cache
  groups over one block pool. The three classes differ in the prefix cache search and in the
  counting of common prefix blocks; the loops over the managers are shared. The iterative
  search of the hybrid coordinator is a recursion on the hit length, which falls with every
  round.
\<close>

section \<open>State\<close>

datatype coordinator_kind =
    NoPrefixCache
  | Unitary int
  | Hybrid nat "(kv_cache_spec \<times> nat list) list" int

record coordinator =
  c_config :: kv_cache_config
  c_enable_caching :: bool
  use_eagle :: bool
  c_dcp :: int
  c_pcp :: int
  single_type_managers :: "manager list"
  c_block_pool :: block_pool
  c_kind :: coordinator_kind

text \<open>A loop over the managers that threads the pool and collects the results.\<close>

fun each_manager ::
  "(nat \<Rightarrow> manager \<times> block_pool \<Rightarrow> ('a \<times> manager \<times> block_pool) res) \<Rightarrow> nat \<Rightarrow> manager list \<Rightarrow> block_pool \<Rightarrow>
   ('a list \<times> manager list \<times> block_pool) res" where
  "each_manager f i [] p = Inr ([], [], p)"
| "each_manager f i (m # ms) p =
     bindR (f i (m, p)) (\<lambda>(x, m', p').
     bindR (each_manager f (Suc i) ms p') (\<lambda>(xs, ms', p'').
       Inr (x # xs, m' # ms', p'')))"

definition on_managers ::
  "(nat \<Rightarrow> manager \<times> block_pool \<Rightarrow> ('a \<times> manager \<times> block_pool) res) \<Rightarrow> coordinator \<Rightarrow> ('a list \<times> coordinator) res" where
  "on_managers f c =
     bindR (each_manager f 0 (single_type_managers c) (c_block_pool c)) (\<lambda>(xs, ms, p).
       Inr (xs, c\<lparr>single_type_managers := ms, c_block_pool := p\<rparr>))"

text \<open>Operations without a result.\<close>

definition no_result :: "(manager \<times> block_pool) res \<Rightarrow> (unit \<times> manager \<times> block_pool) res" where
  "no_result r = bindR r (\<lambda>(m, p). Inr ((), m, p))"

section \<open>Construction\<close>

fun build_managers ::
  "kv_cache_group list \<Rightarrow> nat \<Rightarrow> bool \<Rightarrow> int \<Rightarrow> int \<Rightarrow> block_pool \<Rightarrow> (manager list \<times> block_pool) res" where
  "build_managers [] i caching dcp pcp p = Inr ([], p)"
| "build_managers (g # gs) i caching dcp pcp p =
     bindR (get_manager_for_kv_cache_spec (group_spec g) p caching (int i) dcp pcp) (\<lambda>(m, p').
     bindR (build_managers gs (Suc i) caching dcp pcp p') (\<lambda>(ms, p''). Inr (m # ms, p'')))"

definition init_coordinator ::
  "kv_cache_config \<Rightarrow> bool \<Rightarrow> bool \<Rightarrow> bool \<Rightarrow> bool \<Rightarrow> int \<Rightarrow> int \<Rightarrow> nat \<Rightarrow> coordinator res" where
  "init_coordinator cfg eagle caching events use_int dcp pcp hbs =
     bindR (new_block_pool (num_blocks cfg) caching hbs events use_int) (\<lambda>p.
     bindR (build_managers (kv_cache_groups cfg) 0 caching dcp pcp p) (\<lambda>(ms, p').
       Inr \<lparr>c_config = cfg, c_enable_caching = caching, use_eagle = eagle, c_dcp = dcp, c_pcp = pcp,
            single_type_managers = ms, c_block_pool = p', c_kind = NoPrefixCache\<rparr>))"

text \<open>\<^verbatim>\<open>verify_and_split_kv_cache_groups\<close>: equal specifications share an entry. Equal
  specifications have the same manager class, so the assertion on the class always holds.\<close>

fun add_attention_group ::
  "kv_cache_spec \<Rightarrow> nat \<Rightarrow> (kv_cache_spec \<times> nat list) list \<Rightarrow> (kv_cache_spec \<times> nat list) list" where
  "add_attention_group spec i [] = [(spec, [i])]"
| "add_attention_group spec i ((s, ids) # gs) =
     (if s = spec then (s, ids @ [i]) # gs else (s, ids) # add_attention_group spec i gs)"

fun split_groups ::
  "kv_cache_group list \<Rightarrow> nat \<Rightarrow> (kv_cache_spec \<times> nat list) list \<Rightarrow> (kv_cache_spec \<times> nat list) list" where
  "split_groups [] i acc = acc"
| "split_groups (g # gs) i acc = split_groups gs (Suc i) (add_attention_group (group_spec g) i acc)"

definition verify_and_split_kv_cache_groups ::
  "kv_cache_config \<Rightarrow> ((kv_cache_spec \<times> nat list) list \<times> int) res" where
  "verify_and_split_kv_cache_groups cfg =
     (let ags = split_groups (kv_cache_groups cfg) 0 []
      in bindR (assertR (length ags > 1)) (\<lambda>_.
           Inr (filter (\<lambda>(s, _). is_full_attention s) ags @ filter (\<lambda>(s, _). \<not> is_full_attention s) ags,
                fold lcm (map (\<lambda>(s, _). spec_block_size s) ags) 1)))"

definition get_kv_cache_coordinator ::
  "kv_cache_config \<Rightarrow> bool \<Rightarrow> bool \<Rightarrow> bool \<Rightarrow> bool \<Rightarrow> int \<Rightarrow> int \<Rightarrow> nat \<Rightarrow> coordinator res" where
  "get_kv_cache_coordinator cfg eagle caching events use_int dcp pcp hbs =
     (if \<not> caching then init_coordinator cfg eagle False events use_int dcp pcp hbs
      else if length (kv_cache_groups cfg) = 1 then
        bindR (init_coordinator cfg eagle caching events use_int dcp pcp hbs) (\<lambda>c.
          let bs0 = spec_block_size (group_spec (hd (kv_cache_groups cfg)));
              bs1 = (if dcp > 1 then bs0 * dcp else bs0);
              bs = (if pcp > 1 then bs1 * pcp else bs1)
          in bindR (assertR (\<not> caching \<or> int hbs = bs)) (\<lambda>_. Inr (c\<lparr>c_kind := Unitary bs\<rparr>)))
      else
        bindR (init_coordinator cfg eagle caching events use_int dcp pcp hbs) (\<lambda>c.
        bindR (assertR (list_all (\<lambda>g. spec_block_size (group_spec g) mod int hbs = 0) (kv_cache_groups cfg))) (\<lambda>_.
        bindR (assertR (dcp = 1)) (\<lambda>_. bindR (assertR (pcp = 1)) (\<lambda>_.
        bindR (verify_and_split_kv_cache_groups cfg) (\<lambda>(ags, l). Inr (c\<lparr>c_kind := Hybrid hbs ags l\<rparr>)))))))"

section \<open>Operations on all managers\<close>

definition co_get_num_blocks_to_allocate ::
  "req_id \<Rightarrow> int \<Rightarrow> block_ref list list \<Rightarrow> int \<Rightarrow> int \<Rightarrow> int \<Rightarrow> coordinator \<Rightarrow> (int \<times> coordinator) res" where
  "co_get_num_blocks_to_allocate rid ntokens new_computed_blocks num_encoder_tokens total_computed_tokens main_tokens c =
     bindR (on_managers (\<lambda>i (m, p).
        if is_cross (mspec m)
        then bindR (get_num_blocks_to_allocate rid num_encoder_tokens [] 0 num_encoder_tokens m p) (\<lambda>(k, m'). Inr (k, m', p))
        else bindR (py_get new_computed_blocks (int i)) (\<lambda>ncb.
             bindR (get_num_blocks_to_allocate rid ntokens ncb total_computed_tokens main_tokens m p) (\<lambda>(k, m').
               Inr (k, m', p)))) c)
       (\<lambda>(ks, c'). Inr (sum_list ks, c'))"

definition co_allocate_new_computed_blocks ::
  "req_id \<Rightarrow> block_ref list list \<Rightarrow> int \<Rightarrow> int \<Rightarrow> coordinator \<Rightarrow> coordinator res" where
  "co_allocate_new_computed_blocks rid new_computed_blocks nlocal nexternal c =
     bindR (on_managers (\<lambda>i st.
        bindR (py_get new_computed_blocks (int i)) (\<lambda>ncb.
          no_result (allocate_new_computed_blocks rid ncb nlocal nexternal st))) c)
       (\<lambda>(_, c'). Inr c')"

definition co_allocate_new_blocks ::
  "req_id \<Rightarrow> int \<Rightarrow> int \<Rightarrow> int \<Rightarrow> coordinator \<Rightarrow> (block_ref list list \<times> coordinator) res" where
  "co_allocate_new_blocks rid ntokens main_tokens num_encoder_tokens c =
     on_managers (\<lambda>i (m, p).
       allocate_new_blocks rid (if is_cross (mspec m) then num_encoder_tokens else ntokens) main_tokens (m, p)) c"

text \<open>Caching threads the request as well, for its memo of embedding hashes.\<close>

fun cache_each ::
  "hash_env \<Rightarrow> request \<Rightarrow> int \<Rightarrow> manager list \<Rightarrow> block_pool \<Rightarrow> (manager list \<times> block_pool \<times> request) res" where
  "cache_each env r ncomputed [] p = Inr ([], p, r)"
| "cache_each env r ncomputed (m # ms) p =
     bindR (cache_blocks env r ncomputed (m, p)) (\<lambda>(m', p', r').
     bindR (cache_each env r' ncomputed ms p') (\<lambda>(ms', p'', r''). Inr (m' # ms', p'', r'')))"

definition co_cache_blocks ::
  "hash_env \<Rightarrow> request \<Rightarrow> int \<Rightarrow> coordinator \<Rightarrow> (coordinator \<times> request) res" where
  "co_cache_blocks env r ncomputed c =
     bindR (cache_each env r ncomputed (single_type_managers c) (c_block_pool c)) (\<lambda>(ms, p, r').
       Inr (c\<lparr>single_type_managers := ms, c_block_pool := p\<rparr>, r'))"

definition co_free :: "req_id \<Rightarrow> coordinator \<Rightarrow> coordinator res" where
  "co_free rid c = bindR (on_managers (\<lambda>_ st. no_result (free_request rid st)) c) (\<lambda>(_, c'). Inr c')"

definition co_remove_skipped_blocks :: "req_id \<Rightarrow> int \<Rightarrow> coordinator \<Rightarrow> coordinator res" where
  "co_remove_skipped_blocks rid total_computed_tokens c =
     bindR (on_managers (\<lambda>_ st. no_result (remove_skipped_blocks rid total_computed_tokens st)) c) (\<lambda>(_, c'). Inr c')"

definition co_get_num_common_prefix_blocks :: "req_id \<Rightarrow> coordinator \<Rightarrow> (int list \<times> coordinator) res" where
  "co_get_num_common_prefix_blocks rid c =
     (case c_kind c of
        NoPrefixCache \<Rightarrow> Inr (replicate (length (single_type_managers c)) 0, c)
      | _ \<Rightarrow> on_managers (\<lambda>_ (m, p). case get_num_common_prefix_blocks rid m p of (n, m') \<Rightarrow> Inr (n, m', p)) c)"

definition co_get_blocks :: "req_id \<Rightarrow> coordinator \<Rightarrow> block_ref list list" where
  "co_get_blocks rid c = map (\<lambda>m. table_of m rid) (single_type_managers c)"

definition co_new_step_starts :: "coordinator \<Rightarrow> coordinator" where
  "co_new_step_starts c = c\<lparr>single_type_managers := map new_step_starts (single_type_managers c)\<rparr>"

section \<open>The hybrid search\<close>

definition group_hashes :: "bytes list \<Rightarrow> nat \<Rightarrow> kv_cache_spec \<Rightarrow> block_hash_list res" where
  "group_hashes bhs hbs spec =
     (if spec_block_size spec = int hbs then Inr (PlainHashes bhs)
      else bindR (new_hash_list bhs hbs (nat (spec_block_size spec))) (\<lambda>hl. Inr (ScaledHashes hl)))"

fun set_groups ::
  "nat list \<Rightarrow> block_ref list list \<Rightarrow> block_ref list option list \<Rightarrow> block_ref list option list" where
  "set_groups (i # is) (b # bs) hits = set_groups is bs (hits[i := Some b])"
| "set_groups _ _ hits = hits"

text \<open>One pass of the inner loop for one attention type.\<close>

definition hybrid_step ::
  "bytes list \<Rightarrow> nat \<Rightarrow> int \<Rightarrow> bool \<Rightarrow> block_pool \<Rightarrow> kv_cache_spec \<times> nat list \<Rightarrow>
   int \<times> block_ref list option list \<Rightarrow> (int \<times> block_ref list option list) res" where
  "hybrid_step bhs hbs lcm_block_size eagle p = (\<lambda>(spec, group_ids) (curr_hit_length, hits).
     bindR (py_get group_ids 0) (\<lambda>g0.
     bindR (py_get hits (int g0)) (\<lambda>cached_blocks.
       if is_full_attention spec \<and> cached_blocks \<noteq> None
       then Inr (curr_hit_length div spec_block_size spec * spec_block_size spec, hits)
       else bindR (group_hashes bhs hbs spec) (\<lambda>bhl.
            bindR (find_longest_cache_hit spec bhl curr_hit_length (map int group_ids) p eagle lcm_block_size 1 1) (\<lambda>hit_blocks.
            bindR (py_get hit_blocks 0) (\<lambda>first.
              Inr (int (length first) * spec_block_size spec, set_groups group_ids hit_blocks hits)))))))"

definition hybrid_pass ::
  "bytes list \<Rightarrow> nat \<Rightarrow> int \<Rightarrow> bool \<Rightarrow> block_pool \<Rightarrow> (kv_cache_spec \<times> nat list) list \<Rightarrow>
   int \<times> block_ref list option list \<Rightarrow> (int \<times> block_ref list option list) res" where
  "hybrid_pass bhs hbs lcm_block_size eagle p ags st = foldR (hybrid_step bhs hbs lcm_block_size eagle p) ags st"

text \<open>The outer loop. Block sizes are positive, so that the length a pass returns is never
  negative; the loop continues only with a smaller one.\<close>

function hybrid_loop ::
  "bytes list \<Rightarrow> nat \<Rightarrow> int \<Rightarrow> bool \<Rightarrow> block_pool \<Rightarrow> (kv_cache_spec \<times> nat list) list \<Rightarrow> bool \<Rightarrow>
   int \<Rightarrow> block_ref list option list \<Rightarrow> (int \<times> block_ref list option list) res" where
  "hybrid_loop bhs hbs lcm_block_size eagle p ags is_simple_hybrid hit_length hits =
     bindR (hybrid_pass bhs hbs lcm_block_size eagle p ags (hit_length, hits)) (\<lambda>(curr_hit_length, hits').
       if curr_hit_length \<ge> hit_length \<or> curr_hit_length < 0 then Inr (hit_length, hits')
       else if is_simple_hybrid then Inr (curr_hit_length, hits')
       else hybrid_loop bhs hbs lcm_block_size eagle p ags is_simple_hybrid curr_hit_length hits')"
  by pat_completeness auto
termination by (relation "measure (\<lambda>(_, _, _, _, _, _, _, l, _). nat l)") auto

declare hybrid_loop.simps [simp del]

definition truncate_full ::
  "(kv_cache_spec \<times> nat list) list \<Rightarrow> int \<Rightarrow> block_ref list option list \<Rightarrow> block_ref list option list" where
  "truncate_full ags hit_length hits =
     (case ags of
        [] \<Rightarrow> hits
      | (spec, group_ids) # _ \<Rightarrow>
          if is_full_attention spec
          then fold (\<lambda>g hs. hs[g := map_option (take (nat (hit_length div spec_block_size spec))) (hs ! g)]) group_ids hits
          else hits)"

definition hybrid_find_longest_cache_hit ::
  "bytes list \<Rightarrow> int \<Rightarrow> nat \<Rightarrow> (kv_cache_spec \<times> nat list) list \<Rightarrow> int \<Rightarrow> coordinator \<Rightarrow> (block_ref list list \<times> int) res" where
  "hybrid_find_longest_cache_hit bhs max_cache_hit_length hbs ags lcm_block_size c =
     (let num_groups = length (kv_cache_groups (c_config c));
          is_simple_hybrid = (length ags = 2 \<and> is_full_attention (fst (hd ags)))
      in bindR (hybrid_loop bhs hbs lcm_block_size (use_eagle c) (c_block_pool c) ags is_simple_hybrid
                  max_cache_hit_length (replicate num_groups None)) (\<lambda>(hit_length, hits).
           Inr (map (\<lambda>b. case b of Some bs \<Rightarrow> bs | None \<Rightarrow> []) (truncate_full ags hit_length hits), hit_length)))"

definition co_find_longest_cache_hit ::
  "bytes list \<Rightarrow> int \<Rightarrow> coordinator \<Rightarrow> (block_ref list list \<times> int) res" where
  "co_find_longest_cache_hit bhs max_cache_hit_length c =
     (case c_kind c of
        NoPrefixCache \<Rightarrow> Inr (replicate (length (single_type_managers c)) [], 0)
      | Unitary bs \<Rightarrow>
          bindR (py_get (kv_cache_groups (c_config c)) 0) (\<lambda>g.
          bindR (find_longest_cache_hit (group_spec g) (PlainHashes bhs) max_cache_hit_length [0] (c_block_pool c)
                   (use_eagle c) bs (c_dcp c) (c_pcp c)) (\<lambda>hit_blocks.
          bindR (py_get hit_blocks 0) (\<lambda>first. Inr (hit_blocks, int (length first) * bs))))
      | Hybrid hbs ags l \<Rightarrow> hybrid_find_longest_cache_hit bhs max_cache_hit_length hbs ags l c)"

end
