(* ===== verification/Coordinator_Inv.thy ===== *)
theory Coordinator_Inv
  imports Coordinator
begin

text \<open>
  The managers of a coordinator share one pool: \<open>coord_inv ms p R\<close> says that the references the
  pool counts are those of all block tables of all groups plus \<open>R\<close>. The locale
  \<open>manager_op\<close> is the contract of an operation on one manager that takes a bounded number of
  free blocks; from it follows that the loop over all managers succeeds when the sum of the
  bounds is free. Freeing, removal of skipped blocks, adding prefix hits and allocation are
  interpretations.
\<close>

section \<open>Indexed lists\<close>

fun idx_all :: "(nat \<Rightarrow> 'a \<Rightarrow> bool) \<Rightarrow> nat \<Rightarrow> 'a list \<Rightarrow> bool" where
  "idx_all P i [] = True"
| "idx_all P i (x # xs) = (P i x \<and> idx_all P (Suc i) xs)"

fun idx_sum :: "(nat \<Rightarrow> 'a \<Rightarrow> int) \<Rightarrow> nat \<Rightarrow> 'a list \<Rightarrow> int" where
  "idx_sum f i [] = 0"
| "idx_sum f i (x # xs) = f i x + idx_sum f (Suc i) xs"

fun idx_all3 :: "(nat \<Rightarrow> 'a \<Rightarrow> 'b \<Rightarrow> 'c \<Rightarrow> bool) \<Rightarrow> nat \<Rightarrow> 'a list \<Rightarrow> 'b list \<Rightarrow> 'c list \<Rightarrow> bool" where
  "idx_all3 P i (x # xs) (y # ys) (z # zs) = (P i x y z \<and> idx_all3 P (Suc i) xs ys zs)"
| "idx_all3 P i xs ys zs = (xs = [] \<and> ys = [] \<and> zs = [])"

lemma idx_all_nth: "idx_all P i xs \<longleftrightarrow> (\<forall>k<length xs. P (i + k) (xs ! k))"
  by (induction P i xs rule: idx_all.induct) (auto simp: less_Suc_eq_0_disj)

lemma idx_all_mono: "idx_all P i xs \<Longrightarrow> (\<And>k x. P k x \<Longrightarrow> Q k x) \<Longrightarrow> idx_all Q i xs"
  by (auto simp: idx_all_nth)

lemma idx_sum_mono: "(\<And>k x. x \<in> set xs \<Longrightarrow> f k x \<le> g k x) \<Longrightarrow> idx_sum f i xs \<le> idx_sum g i xs"
  by (induction xs arbitrary: i) (auto intro: add_mono)

lemma idx_sum_add: "idx_sum (\<lambda>k x. f k x + g k x) i xs = idx_sum f i xs + idx_sum g i xs"
  by (induction xs arbitrary: i) auto

lemma idx_sum_nonneg: "(\<And>k x. 0 \<le> f k x) \<Longrightarrow> 0 \<le> idx_sum f i xs"
  by (induction xs arbitrary: i) auto

lemma idx_all3_nth:
  "idx_all3 P i xs ys zs \<longleftrightarrow> length ys = length xs \<and> length zs = length xs \<and>
     (\<forall>k<length xs. P (i + k) (xs ! k) (ys ! k) (zs ! k))"
proof (induction P i xs ys zs rule: idx_all3.induct)
  case (1 P i x xs y ys z zs)
  then show ?case by (auto simp: less_Suc_eq_0_disj)
qed auto

section \<open>The invariant\<close>

definition mgr_static :: "manager \<Rightarrow> bool" where
  "mgr_static m \<longleftrightarrow> od_wf (req_to_blocks m) \<and> (\<forall>rid. distinct (filter (\<lambda>b. b \<noteq> Blk 0) (table_of m rid))) \<and>
     m_null_block m = Blk 0 \<and> 0 < block_size m"

definition all_held :: "manager list \<Rightarrow> block_ref multiset" where
  "all_held ms = sum_list (map (\<lambda>m. tables_held (req_to_blocks m)) ms)"

definition coord_inv :: "manager list \<Rightarrow> block_pool \<Rightarrow> block_ref multiset \<Rightarrow> bool" where
  "coord_inv ms p R \<longleftrightarrow> pool_inv p (R + all_held ms) \<and> list_all mgr_static ms"

lemma mgr_inv_static: "mgr_inv m p R \<longleftrightarrow> pool_inv p (R + tables_held (req_to_blocks m)) \<and> mgr_static m"
  by (auto simp: mgr_inv_def mgr_static_def)

lemma coord_inv_Cons: "coord_inv (m # ms) p R \<longleftrightarrow> mgr_inv m p (R + all_held ms) \<and> list_all mgr_static ms"
  by (auto simp: coord_inv_def mgr_inv_static all_held_def union_ac)

lemma coord_inv_tail: "mgr_inv m p (R + all_held ms) \<Longrightarrow> list_all mgr_static ms \<Longrightarrow>
    coord_inv ms p (R + tables_held (req_to_blocks m))"
  by (simp add: coord_inv_def mgr_inv_static union_ac)

lemma coord_inv_head: "coord_inv ms p (R + tables_held (req_to_blocks m)) \<Longrightarrow> mgr_static m \<Longrightarrow>
    coord_inv (m # ms) p R"
  by (simp add: coord_inv_def all_held_def union_ac)

lemma coord_inv_Nil: "coord_inv [] p R \<longleftrightarrow> pool_inv p R"
  by (simp add: coord_inv_def all_held_def)

section \<open>Operations on one manager and on all\<close>

locale manager_op =
  fixes op :: "nat \<Rightarrow> manager \<times> block_pool \<Rightarrow> ('a \<times> manager \<times> block_pool) res"
    and pre :: "nat \<Rightarrow> manager \<Rightarrow> block_pool \<Rightarrow> bool"
    and cost :: "nat \<Rightarrow> manager \<Rightarrow> block_pool \<Rightarrow> int"
    and post :: "nat \<Rightarrow> manager \<Rightarrow> 'a \<Rightarrow> manager \<Rightarrow> bool"
    and frame :: "block_pool \<Rightarrow> block_pool \<Rightarrow> bool"
  assumes op_ok: "mgr_inv m p R \<Longrightarrow> pre i m p \<Longrightarrow> cost i m p \<le> get_num_free_blocks p \<Longrightarrow>
          \<exists>x m' p'. op i (m, p) = Inr (x, m', p') \<and> mgr_inv m' p' R \<and> post i m x m' \<and> frame p p' \<and>
            get_num_free_blocks p - cost i m p \<le> get_num_free_blocks p'"
    and frame_pre: "frame p p' \<Longrightarrow> pre i m p \<Longrightarrow> pre i m p' \<and> cost i m p' \<le> cost i m p"
    and cost_nonneg: "0 \<le> cost i m p"
    and frame_refl: "frame p p"
    and frame_trans: "frame p p1 \<Longrightarrow> frame p1 p2 \<Longrightarrow> frame p p2"
begin

lemma idx_frame:
  "frame p p' \<Longrightarrow> idx_all (\<lambda>k m. pre k m p) i ms \<Longrightarrow>
     idx_all (\<lambda>k m. pre k m p') i ms \<and> idx_sum (\<lambda>k m. cost k m p') i ms \<le> idx_sum (\<lambda>k m. cost k m p) i ms"
  by (induction ms arbitrary: i) (auto dest: frame_pre intro: add_mono)

lemma each_ok:
  assumes "coord_inv ms p R" "idx_all (\<lambda>k m. pre k m p) i ms" "idx_sum (\<lambda>k m. cost k m p) i ms \<le> get_num_free_blocks p"
  shows "\<exists>xs ms' p'. each_manager op i ms p = Inr (xs, ms', p') \<and> coord_inv ms' p' R \<and>
     idx_all3 post i ms xs ms' \<and> frame p p' \<and>
     get_num_free_blocks p - idx_sum (\<lambda>k m. cost k m p) i ms \<le> get_num_free_blocks p'"
  using assms
proof (induction ms arbitrary: i p R)
  case Nil
  then show ?case using frame_refl by (auto simp: coord_inv_Nil)
next
  case (Cons m ms)
  have inv: "mgr_inv m p (R + all_held ms)" "list_all mgr_static ms" using Cons.prems(1) by (simp_all add: coord_inv_Cons)
  have rest: "0 \<le> idx_sum (\<lambda>k m. cost k m p) (Suc i) ms" by (rule idx_sum_nonneg) (rule cost_nonneg)
  then have c: "cost i m p \<le> get_num_free_blocks p" using Cons.prems(3) by simp
  have "pre i m p" using Cons.prems(2) by simp
  from op_ok [OF inv(1) this c] obtain x m' p1 where
    o: "op i (m, p) = Inr (x, m', p1)" "mgr_inv m' p1 (R + all_held ms)" "post i m x m'" "frame p p1"
      "get_num_free_blocks p - cost i m p \<le> get_num_free_blocks p1" by (elim exE conjE) (rule that)
  have f: "idx_all (\<lambda>k m. pre k m p1) (Suc i) ms"
    "idx_sum (\<lambda>k m. cost k m p1) (Suc i) ms \<le> idx_sum (\<lambda>k m. cost k m p) (Suc i) ms"
    using idx_frame [OF o(4), of "Suc i" ms] Cons.prems(2) by simp_all
  have c1: "idx_sum (\<lambda>k m. cost k m p1) (Suc i) ms \<le> get_num_free_blocks p1" using f(2) o(5) Cons.prems(3) by simp
  from Cons.IH [OF coord_inv_tail [OF o(2) inv(2)] f(1) c1] obtain xs ms' p' where
    r: "each_manager op (Suc i) ms p1 = Inr (xs, ms', p')" "coord_inv ms' p' (R + tables_held (req_to_blocks m'))"
      "idx_all3 post (Suc i) ms xs ms'" "frame p1 p'"
      "get_num_free_blocks p1 - idx_sum (\<lambda>k m. cost k m p1) (Suc i) ms \<le> get_num_free_blocks p'"
    by (elim exE conjE) (rule that)
  have "mgr_static m'" using o(2) by (simp add: mgr_inv_static)
  then have "coord_inv (m' # ms') p' R" using coord_inv_head r(2) by blast
  then show ?case
    using o(1,3,5) r frame_trans [OF o(4) r(4)] f(2)
    by (intro exI [of _ "x # xs"] exI [of _ "m' # ms'"] exI [of _ p']) simp
qed

end

section \<open>Freeing and skipped blocks\<close>

definition free_post :: "req_id \<Rightarrow> nat \<Rightarrow> manager \<Rightarrow> unit \<Rightarrow> manager \<Rightarrow> bool" where
  "free_post rid i m x m' \<longleftrightarrow> table_of m' = (table_of m)(rid := []) \<and> num_cached_block m' = (num_cached_block m)(rid := None) \<and>
     rid \<notin> set (od_keys (req_to_blocks m')) \<and> mspec m' = mspec m \<and> block_size m' = block_size m \<and>
     m_enable_caching m' = m_enable_caching m"

lemma free_request_spec:
  assumes "mgr_inv m p R"
  shows "\<exists>m' p'. free_request rid (m, p) = Inr (m', p') \<and> mgr_inv m' p' R \<and> free_post rid i m () m' \<and>
     same_config p p' \<and> get_num_free_blocks p \<le> get_num_free_blocks p'"
proof -
  define m0 where "m0 = (case mspec m of MambaSpec f \<Rightarrow>
      if mf_mamba_cache_mode f = ''align''
      then m\<lparr>allocated_block_reqs := allocated_block_reqs m - {rid}, last_state_block_idx := (last_state_block_idx m)(rid := None)\<rparr>
      else m | _ \<Rightarrow> m)"
  have m0: "table_of m0 = table_of m" "num_cached_block m0 = num_cached_block m" "same_mgr m m0" "mgr_inv m0 p R"
    using assms by (auto simp: m0_def mgr_inv_def table_of_def same_mgr_def fun_eq_iff split: kv_cache_spec.splits)
  have "free_request rid (m, p) = base_free rid (m0, p)"
    by (auto simp: free_request_def m0_def split: kv_cache_spec.splits)
  then show ?thesis
    using base_free_spec [OF m0(4), of rid] m0(1,2,3) by (auto simp: free_post_def same_mgr_def)
qed

interpretation free_op: manager_op "\<lambda>_ st. no_result (free_request rid st)" "\<lambda>_ _ _. True" "\<lambda>_ _ _. 0" "free_post rid" same_config
  for rid
proof unfold_locales
  fix m p R i assume "mgr_inv m p R"
  from free_request_spec [OF this, of rid i] show "\<exists>x m' p'. no_result (free_request rid (m, p)) = Inr (x, m', p') \<and> mgr_inv m' p' R \<and>
      free_post rid i m x m' \<and> same_config p p' \<and> get_num_free_blocks p - 0 \<le> get_num_free_blocks p'"
    by (auto simp: no_result_def)
qed (auto intro: same_config_trans)

text \<open>The table after \<^verbatim>\<open>remove_skipped_blocks\<close>: some blocks before the window became null.\<close>

definition skip_post :: "req_id \<Rightarrow> int \<Rightarrow> nat \<Rightarrow> manager \<Rightarrow> unit \<Rightarrow> manager \<Rightarrow> bool" where
  "skip_post rid T i m x m' \<longleftrightarrow> same_mgr m m' \<and> num_cached_block m' = num_cached_block m \<and>
     (\<forall>r. r \<noteq> rid \<longrightarrow> table_of m' r = table_of m r) \<and> length (table_of m' rid) = length (table_of m rid) \<and>
     (\<forall>j<length (table_of m rid). table_of m' rid ! j = table_of m rid ! j \<or>
        int j < get_num_skipped_tokens m T div block_size m \<and> table_of m' rid ! j = Blk 0)"

lemma remove_skipped_spec:
  assumes "mgr_inv m p R" "\<not> is_mamba (mspec m)"
  shows "\<exists>m' p'. remove_skipped_blocks rid T (m, p) = Inr (m', p') \<and> mgr_inv m' p' R \<and> skip_post rid T i m () m' \<and>
     same_config p p' \<and> get_num_free_blocks p \<le> get_num_free_blocks p'"
proof -
  let ?t = "table_of m rid" and ?q = "get_num_skipped_tokens m T div block_size m"
  let ?n = "nat (min ?q (int (length ?t)))"
  from base_remove_skipped_spec [OF assms(1), of rid T] obtain m' p' k where
    r: "base_remove_skipped_blocks rid T (m, p) = Inr (m', p')" "mgr_inv m' p' R" "same_mgr m m'"
      "num_cached_block m' = num_cached_block m" "same_config p p'" "get_num_free_blocks p \<le> get_num_free_blocks p'" "k \<le> ?n"
      "table_of m' = (table_of m)(rid := take k ?t @ replicate (?n - k) (Blk 0) @ drop ?n ?t)"
    by (elim exE conjE) (rule that)
  have n: "?n \<le> length ?t" by simp
  have t': "table_of m' rid = take k ?t @ replicate (?n - k) (Blk 0) @ drop ?n ?t" using r(8) by simp
  have "length (table_of m' rid) = length ?t" unfolding t' using r(7) n by simp
  moreover have "\<forall>j<length ?t. table_of m' rid ! j = ?t ! j \<or> int j < ?q \<and> table_of m' rid ! j = Blk 0"
    unfolding t' using r(7) n by (auto simp: nth_append)
  moreover have "\<forall>r. r \<noteq> rid \<longrightarrow> table_of m' r = table_of m r" using r(8) by simp
  ultimately have "skip_post rid T i m () m'" unfolding skip_post_def using r(3,4) by blast
  moreover have "remove_skipped_blocks rid T (m, p) = Inr (m', p')"
    using r(1) assms(2) by (auto simp: remove_skipped_blocks_def split: kv_cache_spec.splits)
  ultimately show ?thesis using r(2,5,6) by blast
qed

interpretation skip_op: manager_op "\<lambda>_ st. no_result (remove_skipped_blocks rid T st)" "\<lambda>_ m _. \<not> is_mamba (mspec m)" "\<lambda>_ _ _. 0"
    "skip_post rid T" same_config
  for rid T
proof unfold_locales
  fix m p R and i :: nat assume "mgr_inv m p R" "\<not> is_mamba (mspec m)"
  from remove_skipped_spec [OF this, of rid T i] show "\<exists>x m' p'. no_result (remove_skipped_blocks rid T (m, p)) = Inr (x, m', p') \<and>
      mgr_inv m' p' R \<and> skip_post rid T i m x m' \<and> same_config p p' \<and> get_num_free_blocks p - 0 \<le> get_num_free_blocks p'"
    by (auto simp: no_result_def)
qed (auto intro: same_config_trans)

section \<open>Prefix cache hits\<close>

text \<open>What the tables of a manager hold depends on the tables only.\<close>

lemma tables_held_sum:
  assumes "od_wf d" "finite F" "set (od_keys d) \<subseteq> F"
  shows "tables_held d = (\<Sum>r\<in>F. held (tbl_in d r))"
  using assms
proof (induction d arbitrary: F)
  case Nil
  then show ?case by (simp add: tables_held_def tbl_in_def)
next
  case (Cons x d)
  obtain k bs where x: "x = (k, bs)" by (cases x)
  have k: "k \<in> F" "k \<notin> set (od_keys d)" "od_wf d" "set (od_keys d) \<subseteq> F - {k}"
    using Cons.prems x by (auto simp: od_wf_def)
  have "(\<Sum>r\<in>F. held (tbl_in (x # d) r)) = held bs + (\<Sum>r\<in>F - {k}. held (tbl_in (x # d) r))"
    using Cons.prems(2) k(1) x by (subst sum.remove [of F k]) (simp_all add: tbl_in_def)
  also have "(\<Sum>r\<in>F - {k}. held (tbl_in (x # d) r)) = (\<Sum>r\<in>F - {k}. held (tbl_in d r))"
    by (rule sum.cong) (use x in \<open>auto simp: tbl_in_def\<close>)
  also have "\<dots> = tables_held d" using Cons.IH [OF k(3) _ k(4)] Cons.prems(2) by simp
  finally show ?case using x by (simp add: tables_held_def)
qed

lemma tables_held_mono:
  assumes "od_wf d" "od_wf d'" "\<forall>r. r \<noteq> rid \<longrightarrow> tbl_in d' r = tbl_in d r" "tbl_in d rid = []"
  shows "tables_held d \<subseteq># tables_held d'"
proof -
  let ?F = "insert rid (set (od_keys d) \<union> set (od_keys d'))"
  have F: "finite ?F" "rid \<in> ?F" "set (od_keys d) \<subseteq> ?F" "set (od_keys d') \<subseteq> ?F" by auto
  have "(\<Sum>r\<in>?F - {rid}. held (tbl_in d' r)) = (\<Sum>r\<in>?F - {rid}. held (tbl_in d r))"
    by (rule sum.cong) (use assms(3) in auto)
  then have "tables_held d' = held (tbl_in d' rid) + tables_held d"
    using tables_held_sum [OF assms(1) F(1,3)] tables_held_sum [OF assms(2) F(1,4)] assms(4)
      sum.remove [OF F(1,2), of "\<lambda>r. held (tbl_in d' r)"] sum.remove [OF F(1,2), of "\<lambda>r. held (tbl_in d r)"]
    by simp
  then show ?thesis by simp
qed

text \<open>Between two pools references were only added.\<close>

definition refs_grow :: "block_pool \<Rightarrow> block_pool \<Rightarrow> bool" where
  "refs_grow p p' \<longleftrightarrow> same_config p p' \<and>
     (\<forall>b. real_block p b \<longrightarrow> ref_cnt (blocks p' b) = 0 \<longrightarrow> ref_cnt (blocks p b) = 0) \<and>
     (\<forall>b. is_null (blocks p' b) = is_null (blocks p b))"

lemma refs_grow_refl: "refs_grow p p"
  by (simp add: refs_grow_def)

lemma refs_grow_trans: "refs_grow p p1 \<Longrightarrow> refs_grow p1 p2 \<Longrightarrow> refs_grow p p2"
  using real_block_config [of p p1] by (auto simp: refs_grow_def intro: same_config_trans)

lemma refs_growI:
  assumes "pool_inv p H" "pool_inv p' H'" "H \<subseteq># H'" "same_config p p'"
  shows "refs_grow p p'"
proof -
  obtain fs fs' where c: "cnt_inv p fs H" "cnt_inv p' fs' H'" using assms(1,2) by (auto simp: pool_inv_def pool_rep_split)
  have "count H b \<le> count H' b" for b using assms(3) by (rule mset_subset_eq_count)
  then have "\<forall>b. real_block p b \<longrightarrow> ref_cnt (blocks p' b) = 0 \<longrightarrow> ref_cnt (blocks p b) = 0"
    using cnt_invD(6) [OF c(1)] cnt_invD(6) [OF c(2)] real_block_config [OF assms(4)]
    by (metis le_zero_eq of_nat_eq_0_iff)
  then show ?thesis using assms(4) cnt_invD(5) [OF c(1)] cnt_invD(5) [OF c(2)] by (simp add: refs_grow_def)
qed

lemma evictable_mono:
  assumes "refs_grow p p'" "\<forall>b\<in>set bs. real_block p b \<or> b = Blk 0" "is_null (blocks p (Blk 0))"
  shows "get_num_evictable_blocks p' bs \<le> get_num_evictable_blocks p bs"
proof -
  have "length (filter (\<lambda>b. ref_cnt (blocks p' b) = 0 \<and> \<not> is_null (blocks p' b)) bs)
      \<le> length (filter (\<lambda>b. ref_cnt (blocks p b) = 0 \<and> \<not> is_null (blocks p b)) bs)"
    using assms by (induction bs) (auto simp: refs_grow_def)
  then show ?thesis by (simp add: get_num_evictable_blocks_def)
qed

text \<open>The number of blocks of the table after adding the hits \<open>ncb\<close>, without and with the blocks
  allocated for external tokens.\<close>

definition hit_len :: "manager \<Rightarrow> block_ref list \<Rightarrow> int \<Rightarrow> int" where
  "hit_len m ncb tot = int (max (nat (get_num_skipped_tokens m tot div block_size m)) (length ncb))"

definition ext_len :: "manager \<Rightarrow> block_ref list \<Rightarrow> int \<Rightarrow> int \<Rightarrow> int" where
  "ext_len m ncb nlocal nexternal =
     (let tot = nlocal + nexternal; skip = get_num_skipped_tokens m tot;
          e = (if skip div block_size m > 0 then min (tot - skip) nexternal else nexternal)
      in if e > 0 then cdiv tot (block_size m) - hit_len m ncb tot else 0)"

definition live_hits :: "manager \<Rightarrow> block_ref list \<Rightarrow> int \<Rightarrow> block_ref list" where
  "live_hits m ncb tot = drop (nat (get_num_skipped_tokens m tot div block_size m)) ncb"

text \<open>A request that enters with the hits \<open>ncbs\<close>, one list per group.\<close>

definition hits_valid :: "block_ref list list \<Rightarrow> int \<Rightarrow> nat \<Rightarrow> manager \<Rightarrow> block_pool \<Rightarrow> bool" where
  "hits_valid ncbs nlocal i m p \<longleftrightarrow> i < length ncbs \<and> int (length (ncbs ! i)) * block_size m \<le> nlocal \<and>
     (\<forall>b\<in>set (ncbs ! i). real_block p b \<or> b = Blk 0) \<and> distinct (filter (\<lambda>b. b \<noteq> Blk 0) (ncbs ! i)) \<and>
     (m_enable_caching m \<or> ncbs ! i = [])"

definition enters :: "req_id \<Rightarrow> manager \<Rightarrow> bool" where
  "enters rid m \<longleftrightarrow> num_cached_block m rid = None \<and> table_of m rid = [] \<and> \<not> is_cross (mspec m) \<and> window_ok (mspec m)"

definition hit_cost :: "block_ref list list \<Rightarrow> int \<Rightarrow> int \<Rightarrow> nat \<Rightarrow> manager \<Rightarrow> block_pool \<Rightarrow> int" where
  "hit_cost ncbs nlocal nexternal i m p =
     get_num_evictable_blocks p (live_hits m (ncbs ! i) (nlocal + nexternal)) + max 0 (ext_len m (ncbs ! i) nlocal nexternal)"

definition hit_post :: "req_id \<Rightarrow> block_ref list list \<Rightarrow> int \<Rightarrow> int \<Rightarrow> nat \<Rightarrow> manager \<Rightarrow> unit \<Rightarrow> manager \<Rightarrow> bool" where
  "hit_post rid ncbs nlocal nexternal i m x m' \<longleftrightarrow> same_mgr m m' \<and>
     (\<forall>r. r \<noteq> rid \<longrightarrow> table_of m' r = table_of m r \<and> num_cached_block m' r = num_cached_block m r) \<and>
     num_cached_block m' rid = Some (nat (hit_len m (ncbs ! i) (nlocal + nexternal))) \<and>
     (\<exists>ext. table_of m' rid =
        replicate (nat (get_num_skipped_tokens m (nlocal + nexternal) div block_size m)) (Blk 0) @
        live_hits m (ncbs ! i) (nlocal + nexternal) @ ext \<and> int (length ext) = ext_len m (ncbs ! i) nlocal nexternal)"

lemma live_hits_set: "b \<in> set (live_hits m ncb tot) \<Longrightarrow> b \<in> set ncb"
  unfolding live_hits_def by (rule in_set_dropD)

lemma evictable_nonneg: "0 \<le> get_num_evictable_blocks p bs"
  by (simp add: get_num_evictable_blocks_def)

lemma computed_blocks_grow:
  assumes "mgr_inv m p R" "enters rid m" "hits_valid ncbs nlocal i m p" "0 \<le> nlocal" "0 \<le> nexternal"
    and "hit_cost ncbs nlocal nexternal i m p \<le> get_num_free_blocks p"
  shows "\<exists>m' p'. allocate_new_computed_blocks rid (ncbs ! i) nlocal nexternal (m, p) = Inr (m', p') \<and> mgr_inv m' p' R \<and>
     hit_post rid ncbs nlocal nexternal i m () m' \<and> refs_grow p p' \<and>
     get_num_free_blocks p - hit_cost ncbs nlocal nexternal i m p \<le> get_num_free_blocks p'"
proof -
  let ?ncb = "ncbs ! i"
  have e: "num_cached_block m rid = None" "table_of m rid = []" "\<not> is_cross (mspec m)" "window_ok (mspec m)"
    using assms(2) by (simp_all add: enters_def)
  have v: "int (length ?ncb) * block_size m \<le> nlocal" "\<forall>b\<in>set ?ncb. real_block p b \<or> b = Blk 0"
    "distinct (filter (\<lambda>b. b \<noteq> Blk 0) ?ncb)" "m_enable_caching m \<or> ?ncb = []" using assms(3) by (simp_all add: hits_valid_def)
  have "ext_len m ?ncb nlocal nexternal + get_num_evictable_blocks p (live_hits m ?ncb (nlocal + nexternal)) \<le> get_num_free_blocks p"
    using assms(6) by (simp add: hit_cost_def)
  from computed_blocks_spec [OF assms(1) e(1,2,4) assms(4,5) v this [unfolded ext_len_def live_hits_def hit_len_def Let_def]]
  obtain m' p' ext where c: "base_allocate_new_computed_blocks rid ?ncb nlocal nexternal (m, p) = Inr (m', p')" "mgr_inv m' p' R"
    "table_of m' = (table_of m)(rid := replicate (nat (get_num_skipped_tokens m (nlocal + nexternal) div block_size m)) (Blk 0) @
        live_hits m ?ncb (nlocal + nexternal) @ ext)" "int (length ext) = ext_len m ?ncb nlocal nexternal" "same_mgr m m'"
    "num_cached_block m' = (num_cached_block m)(rid \<mapsto> nat (hit_len m ?ncb (nlocal + nexternal)))" "same_config p p'"
    "get_num_free_blocks p - get_num_evictable_blocks p (live_hits m ?ncb (nlocal + nexternal)) - ext_len m ?ncb nlocal nexternal
       \<le> get_num_free_blocks p'"
    by (elim exE conjE) (rule that [unfolded ext_len_def live_hits_def hit_len_def Let_def nat_int])
  have "allocate_new_computed_blocks rid ?ncb nlocal nexternal (m, p) = Inr (m', p')"
    using c(1) e(3) by (simp add: allocate_new_computed_blocks_def)
  moreover have "hit_post rid ncbs nlocal nexternal i m () m'" using c(3,4,5,6) by (auto simp: hit_post_def)
  moreover have "tables_held (req_to_blocks m) \<subseteq># tables_held (req_to_blocks m')"
    using assms(1) c(2,3) e(2) by (intro tables_held_mono [of _ _ rid]) (auto simp: mgr_inv_def table_of_tbl_in fun_eq_iff)
  then have "refs_grow p p'"
    using refs_growI [of p "R + tables_held (req_to_blocks m)" p' "R + tables_held (req_to_blocks m')"] assms(1) c(2,7)
    by (simp add: mgr_inv_def)
  moreover have "get_num_free_blocks p - hit_cost ncbs nlocal nexternal i m p \<le> get_num_free_blocks p'"
    using c(8) by (simp add: hit_cost_def)
  ultimately show ?thesis using c(2) by blast
qed

interpretation hit_op: manager_op
    "\<lambda>i st. bindR (py_get ncbs (int i)) (\<lambda>ncb. no_result (allocate_new_computed_blocks rid ncb nlocal nexternal st))"
    "\<lambda>i m p. enters rid m \<and> hits_valid ncbs nlocal i m p \<and> 0 \<le> nlocal \<and> 0 \<le> nexternal \<and> is_null (blocks p (Blk 0))"
    "hit_cost ncbs nlocal nexternal" "hit_post rid ncbs nlocal nexternal" refs_grow
  for rid ncbs nlocal nexternal
proof unfold_locales
  fix m p R and i :: nat
  assume a: "mgr_inv m p R" "enters rid m \<and> hits_valid ncbs nlocal i m p \<and> 0 \<le> nlocal \<and> 0 \<le> nexternal \<and> is_null (blocks p (Blk 0))"
    "hit_cost ncbs nlocal nexternal i m p \<le> get_num_free_blocks p"
  have "py_get ncbs (int i) = Inr (ncbs ! i)" using a(2) by (simp add: hits_valid_def py_get_def)
  then show "\<exists>x m' p'. bindR (py_get ncbs (int i)) (\<lambda>ncb. no_result (allocate_new_computed_blocks rid ncb nlocal nexternal (m, p))) =
      Inr (x, m', p') \<and> mgr_inv m' p' R \<and> hit_post rid ncbs nlocal nexternal i m x m' \<and> refs_grow p p' \<and>
      get_num_free_blocks p - hit_cost ncbs nlocal nexternal i m p \<le> get_num_free_blocks p'"
    using computed_blocks_grow [OF a(1) _ _ _ _ a(3), of rid] a(2) by (auto simp: no_result_def)
next
  fix p p' m and i :: nat
  assume g: "refs_grow p p'" and h: "enters rid m \<and> hits_valid ncbs nlocal i m p \<and> 0 \<le> nlocal \<and> 0 \<le> nexternal \<and> is_null (blocks p (Blk 0))"
  have rb: "real_block p' = real_block p" using g real_block_config by (auto simp: refs_grow_def)
  have "hits_valid ncbs nlocal i m p'" using g h rb by (simp add: hits_valid_def refs_grow_def)
  moreover have "hit_cost ncbs nlocal nexternal i m p' \<le> hit_cost ncbs nlocal nexternal i m p"
    using evictable_mono [OF g, of "live_hits m (ncbs ! i) (nlocal + nexternal)"] h live_hits_set
    by (fastforce simp: hit_cost_def hits_valid_def)
  ultimately show "(enters rid m \<and> hits_valid ncbs nlocal i m p' \<and> 0 \<le> nlocal \<and> 0 \<le> nexternal \<and> is_null (blocks p' (Blk 0))) \<and>
      hit_cost ncbs nlocal nexternal i m p' \<le> hit_cost ncbs nlocal nexternal i m p" using h g by (simp add: refs_grow_def)
next
  show "0 \<le> hit_cost ncbs nlocal nexternal i m p" for i m p by (simp add: hit_cost_def evictable_nonneg)
qed (auto intro: refs_grow_refl refs_grow_trans)

section \<open>Allocation\<close>

definition alloc_cost :: "req_id \<Rightarrow> int \<Rightarrow> nat \<Rightarrow> manager \<Rightarrow> block_pool \<Rightarrow> int" where
  "alloc_cost rid n i m p = max 0 (cdiv n (block_size m) - int (length (table_of m rid)))"

definition alloc_post :: "req_id \<Rightarrow> int \<Rightarrow> nat \<Rightarrow> manager \<Rightarrow> block_ref list \<Rightarrow> manager \<Rightarrow> bool" where
  "alloc_post rid n i m new m' \<longleftrightarrow> same_mgr m m' \<and> num_cached_block m' = num_cached_block m \<and>
     table_of m' = (table_of m)(rid := table_of m rid @ new) \<and>
     int (length (table_of m' rid)) = max (cdiv n (block_size m)) (int (length (table_of m rid)))"

interpretation alloc_op: manager_op
    "\<lambda>_ (m, p). allocate_new_blocks rid (if is_cross (mspec m) then nenc else n) main (m, p)"
    "\<lambda>_ m _. \<not> is_mamba (mspec m) \<and> \<not> is_cross (mspec m)" "alloc_cost rid n" "alloc_post rid n" same_config
  for rid n main nenc
proof unfold_locales
  fix m p R and i :: nat
  assume a: "mgr_inv m p R" "\<not> is_mamba (mspec m) \<and> \<not> is_cross (mspec m)" "alloc_cost rid n i m p \<le> get_num_free_blocks p"
  have eq: "allocate_new_blocks rid (if is_cross (mspec m) then nenc else n) main (m, p) = base_allocate_new_blocks rid n (m, p)"
    using a(2) by (auto simp: allocate_new_blocks_def split: kv_cache_spec.splits)
  let ?k = "cdiv n (block_size m) - int (length (table_of m rid))"
  show "\<exists>x m' p'. (case (m, p) of (m, p) \<Rightarrow> allocate_new_blocks rid (if is_cross (mspec m) then nenc else n) main (m, p)) =
      Inr (x, m', p') \<and> mgr_inv m' p' R \<and> alloc_post rid n i m x m' \<and> same_config p p' \<and>
      get_num_free_blocks p - alloc_cost rid n i m p \<le> get_num_free_blocks p'"
  proof (cases "?k \<le> 0")
    case True
    then show ?thesis
      using base_allocate_new_blocks_spec [OF a(1), of n rid] unfolding prod.case eq
      by (auto simp: alloc_post_def alloc_cost_def fun_upd_idem)
  next
    case False
    then obtain new m' p' where "base_allocate_new_blocks rid n (m, p) = Inr (new, m', p')" "mgr_inv m' p' R"
      "table_of m' = (table_of m)(rid := table_of m rid @ new)" "int (length new) = ?k" "same_mgr m m'"
      "num_cached_block m' = num_cached_block m" "same_config p p'" "get_num_free_blocks p - ?k \<le> get_num_free_blocks p'"
      using base_allocate_new_blocks_spec [OF a(1), of n rid] a(3) by (auto simp: alloc_cost_def)
    then show ?thesis using False unfolding prod.case eq
      by (intro exI [of _ new] exI [of _ m'] exI [of _ p']) (simp add: alloc_post_def alloc_cost_def)
  qed
qed (auto intro: same_config_trans simp: alloc_cost_def)

section \<open>The allocation check for all groups\<close>

definition count_of :: "req_id \<Rightarrow> block_ref list list \<Rightarrow> int \<Rightarrow> int \<Rightarrow> nat \<Rightarrow> manager \<Rightarrow> block_pool \<Rightarrow> int" where
  "count_of rid ncbs n tot i m p =
     (let req = int (length (table_of m rid)); skipped = get_num_skipped_tokens m tot div block_size m
      in if num_cached_block m rid \<noteq> None then max (cdiv n (block_size m) - req) 0
         else max (cdiv n (block_size m) - max skipped (int (length (ncbs ! i)) + req)) 0 +
              get_num_evictable_blocks p (drop (nat (max 0 (skipped - req))) (ncbs ! i)))"

definition countable_at :: "req_id \<Rightarrow> block_ref list list \<Rightarrow> nat \<Rightarrow> manager \<Rightarrow> bool" where
  "countable_at rid ncbs i m \<longleftrightarrow> \<not> is_mamba (mspec m) \<and> \<not> is_cross (mspec m) \<and> i < length ncbs \<and>
     (num_cached_block m rid = None \<or> ncbs ! i = [])"

lemma count_one:
  assumes "countable_at rid ncbs i m"
  shows "get_num_blocks_to_allocate rid n (ncbs ! i) tot main m p = Inr (count_of rid ncbs n tot i m p, m)"
  using assms
  by (auto simp: get_num_blocks_to_allocate_def base_num_blocks_to_allocate_def count_of_def countable_at_def Let_def
      split: kv_cache_spec.splits)

lemma count_each:
  "idx_all (countable_at rid ncbs) i ms \<Longrightarrow>
   \<exists>ks. each_manager (\<lambda>i (m, p).
      if is_cross (mspec m)
      then bindR (get_num_blocks_to_allocate rid nenc [] 0 nenc m p) (\<lambda>(k, m'). Inr (k, m', p))
      else bindR (py_get ncbs (int i)) (\<lambda>ncb.
           bindR (get_num_blocks_to_allocate rid n ncb tot main m p) (\<lambda>(k, m'). Inr (k, m', p)))) i ms p = Inr (ks, ms, p) \<and>
     sum_list ks = idx_sum (\<lambda>k m. count_of rid ncbs n tot k m p) i ms"
proof (induction ms arbitrary: i)
  case (Cons m ms)
  have c: "countable_at rid ncbs i m" using Cons.prems by simp
  then have "py_get ncbs (int i) = Inr (ncbs ! i)" "\<not> is_cross (mspec m)" by (simp_all add: countable_at_def py_get_def)
  with Cons.IH [of "Suc i"] Cons.prems count_one [OF c, of n tot main p] show ?case by auto
qed simp

lemma hit_alloc_le_count:
  assumes "enters rid m" "hits_valid ncbs nlocal i m p" "hit_post rid ncbs nlocal nexternal i m () m'"
    and "0 < block_size m" "0 \<le> nlocal" "0 \<le> nexternal" "nlocal + nexternal \<le> n"
  shows "hit_cost ncbs nlocal nexternal i m p + alloc_cost rid n i m' p' \<le> count_of rid ncbs n (nlocal + nexternal) i m p"
proof -
  let ?ncb = "ncbs ! i" and ?T = "nlocal + nexternal" and ?bs = "block_size m"
  let ?q = "get_num_skipped_tokens m ?T div ?bs" and ?a = "ext_len m ?ncb nlocal nexternal" and ?L = "hit_len m ?ncb ?T"
  obtain ext where t: "table_of m' rid = replicate (nat ?q) (Blk 0) @ live_hits m ?ncb ?T @ ext" "int (length ext) = ?a"
    "block_size m' = ?bs" using assms(3) by (auto simp: hit_post_def same_mgr_def)
  have e: "num_cached_block m rid = None" "table_of m rid = []" "window_ok (mspec m)" using assms(1) by (simp_all add: enters_def)
  have len: "int (length (table_of m' rid)) = ?L + ?a"
    unfolding t(1) t(2) [symmetric] by (simp add: live_hits_def hit_len_def max_def)
  have "int (length ?ncb) \<le> cdiv ?T ?bs"
    using le_cdiv [OF assms(4), of "int (length ?ncb)" ?T] assms(2,6) by (simp add: hits_valid_def)
  moreover have "?q \<le> cdiv ?T ?bs" using skipped_blocks_le [OF e(3) _ assms(4)] assms(5,6) by simp
  ultimately have L: "?L \<le> cdiv ?T ?bs" using cdiv_nonneg [OF assms(4), of ?T] assms(5,6) by (simp add: hit_len_def)
  have Tn: "cdiv ?T ?bs \<le> cdiv n ?bs" by (rule cdiv_mono [OF assms(4,7)])
  have a: "0 \<le> ?a" "?a \<le> cdiv ?T ?bs - ?L" using t(2) L by (auto simp: ext_len_def Let_def)
  have "alloc_cost rid n i m' p' = cdiv n ?bs - ?L - ?a"
    unfolding alloc_cost_def t(3) len using a Tn by simp
  moreover have "hit_cost ncbs nlocal nexternal i m p = get_num_evictable_blocks p (live_hits m ?ncb ?T) + ?a"
    using a(1) by (simp add: hit_cost_def)
  moreover have "count_of rid ncbs n ?T i m p = cdiv n ?bs - ?L + get_num_evictable_blocks p (live_hits m ?ncb ?T)"
  proof -
    have nz: "nat (max 0 z) = nat z" for z :: int by simp
    have "max (cdiv n ?bs - max ?q (int (length ?ncb))) 0 = cdiv n ?bs - ?L"
      using L Tn unfolding hit_len_def by linarith
    then show ?thesis using e(1,2) unfolding count_of_def live_hits_def Let_def by (simp add: nz)
  qed
  ultimately show ?thesis by simp
qed

text \<open>A request that goes on: it has been cached, or its table covers its computed tokens.\<close>

definition goes_on :: "req_id \<Rightarrow> int \<Rightarrow> manager \<Rightarrow> bool" where
  "goes_on rid tot m \<longleftrightarrow> (num_cached_block m rid \<noteq> None \<or> tot \<le> int (length (table_of m rid)) * block_size m) \<and> window_ok (mspec m)"

lemma alloc_le_count:
  assumes "goes_on rid tot m" "ncbs ! i = []" "0 < block_size m" "0 \<le> tot"
  shows "alloc_cost rid n i m p \<le> count_of rid ncbs n tot i m p"
proof (cases "num_cached_block m rid = None")
  case True
  then have "tot \<le> int (length (table_of m rid)) * block_size m" "window_ok (mspec m)" using assms(1) by (auto simp: goes_on_def)
  then have "get_num_skipped_tokens m tot \<le> int (length (table_of m rid)) * block_size m" using skipped_le [of m tot] assms(4) by simp
  then have "get_num_skipped_tokens m tot div block_size m \<le> int (length (table_of m rid))"
    using zdiv_mono1 [of "get_num_skipped_tokens m tot" "int (length (table_of m rid)) * block_size m" "block_size m"] assms(3) by simp
  then show ?thesis using True assms(2)
    by (simp add: alloc_cost_def count_of_def Let_def get_num_evictable_blocks_def)
qed (simp add: alloc_cost_def count_of_def Let_def)

lemma idx_all_post:
  "idx_all3 P i ms xs ms' \<Longrightarrow> idx_all Q i ms \<Longrightarrow> (\<And>k m x m'. Q k m \<Longrightarrow> P k m x m' \<Longrightarrow> Q' k m') \<Longrightarrow> idx_all Q' i ms'"
  by (induction P i ms xs ms' rule: idx_all3.induct) auto

lemma idx_all_conj: "idx_all (\<lambda>k x. P k x \<and> Q k x) i xs \<longleftrightarrow> idx_all P i xs \<and> idx_all Q i xs"
  by (auto simp: idx_all_nth)

lemma idx_all_list_all: "list_all P xs \<Longrightarrow> idx_all (\<lambda>_. P) i xs"
  by (simp add: idx_all_nth list_all_length)

lemma coord_null: "coord_inv ms p R \<Longrightarrow> is_null (blocks p (Blk 0))"
  by (auto simp: coord_inv_def pool_inv_def pool_rep_split dest: cnt_invD(5))

lemma idx_sum_post:
  assumes "idx_all3 P i ms xs ms'" "\<And>k m x m'. m \<in> set ms \<Longrightarrow> Q k m \<Longrightarrow> P k m x m' \<Longrightarrow> f k m + g k m' \<le> h k m" "idx_all Q i ms"
  shows "idx_sum f i ms + idx_sum g i ms' \<le> idx_sum h i ms"
  using assms
proof (induction P i ms xs ms' rule: idx_all3.induct)
  case (1 P i m ms x xs m' ms')
  have "idx_sum f (Suc i) ms + idx_sum g (Suc i) ms' \<le> idx_sum h (Suc i) ms" using 1 by simp
  moreover have "f i m + g i m' \<le> h i m" by (rule "1.prems"(2) [of m i x]) (use "1.prems"(1,3) in auto)
  ultimately show ?case by simp
qed auto

section \<open>The coordinator's steps\<close>

abbreviation mgrs :: "coordinator \<Rightarrow> manager list" where
  "mgrs \<equiv> single_type_managers"

definition attention_group :: "manager \<Rightarrow> bool" where
  "attention_group m \<longleftrightarrow> \<not> is_mamba (mspec m) \<and> \<not> is_cross (mspec m) \<and> window_ok (mspec m)"

definition with_state :: "manager list \<Rightarrow> block_pool \<Rightarrow> coordinator \<Rightarrow> coordinator" where
  "with_state ms p c = c\<lparr>single_type_managers := ms, c_block_pool := p\<rparr>"

lemma with_state_simps [simp]:
  "mgrs (with_state ms p c) = ms" "c_block_pool (with_state ms p c) = p"
  "with_state ms p (with_state ms' p' c) = with_state ms p c" "with_state (mgrs c) (c_block_pool c) c = c"
  "c_config (with_state ms p c) = c_config c" "c_kind (with_state ms p c) = c_kind c"
  by (simp_all add: with_state_def)

lemma on_managers_run:
  "each_manager op 0 (mgrs c) (c_block_pool c) = Inr (xs, ms, p) \<Longrightarrow> on_managers op c = Inr (xs, with_state ms p c)"
  by (simp add: on_managers_def with_state_def)

lemma idx_sum_zero: "idx_sum (\<lambda>_ _. 0) i xs = 0"
  by (induction xs arbitrary: i) auto

lemma coord_free_nonneg: "coord_inv ms p R \<Longrightarrow> 0 \<le> get_num_free_blocks p"
  using cnt_invD(3) by (fastforce simp: coord_inv_def pool_inv_def pool_rep_split)

lemma coord_pos: "coord_inv ms p R \<Longrightarrow> m \<in> set ms \<Longrightarrow> 0 < block_size m"
  by (auto simp: coord_inv_def mgr_static_def list_all_iff)

lemma co_free_ok:
  assumes "coord_inv (mgrs c) (c_block_pool c) R"
  shows "\<exists>xs ms p. co_free rid c = Inr (with_state ms p c) \<and> coord_inv ms p R \<and>
     idx_all3 (free_post rid) 0 (mgrs c) xs ms \<and> same_config (c_block_pool c) p \<and>
     get_num_free_blocks (c_block_pool c) \<le> get_num_free_blocks p"
proof -
  have "idx_all (\<lambda>k m. True) 0 (mgrs c)" by (simp add: idx_all_nth)
  from free_op.each_ok [OF assms this, of rid] obtain xs ms p where
    "each_manager (\<lambda>_ st. no_result (free_request rid st)) 0 (mgrs c) (c_block_pool c) = Inr (xs, ms, p)" "coord_inv ms p R"
    "idx_all3 (free_post rid) 0 (mgrs c) xs ms" "same_config (c_block_pool c) p"
    "get_num_free_blocks (c_block_pool c) \<le> get_num_free_blocks p"
    using coord_free_nonneg [OF assms] by (auto simp: idx_sum_zero)
  then show ?thesis by (intro exI [of _ xs] exI [of _ ms] exI [of _ p]) (simp add: co_free_def on_managers_run)
qed

lemma co_skip_ok:
  assumes "coord_inv (mgrs c) (c_block_pool c) R" "list_all attention_group (mgrs c)"
  shows "\<exists>xs ms p. co_remove_skipped_blocks rid tot c = Inr (with_state ms p c) \<and> coord_inv ms p R \<and>
     idx_all3 (skip_post rid tot) 0 (mgrs c) xs ms \<and> same_config (c_block_pool c) p"
proof -
  have "idx_all (\<lambda>k m. \<not> is_mamba (mspec m)) 0 (mgrs c)"
    using assms(2) by (auto simp: idx_all_nth list_all_length attention_group_def)
  from skip_op.each_ok [OF assms(1) this, of rid tot] obtain xs ms p where
    "each_manager (\<lambda>_ st. no_result (remove_skipped_blocks rid tot st)) 0 (mgrs c) (c_block_pool c) = Inr (xs, ms, p)"
    "coord_inv ms p R" "idx_all3 (skip_post rid tot) 0 (mgrs c) xs ms" "same_config (c_block_pool c) p"
    using coord_free_nonneg [OF assms(1)] by (auto simp: idx_sum_zero)
  then show ?thesis by (intro exI [of _ xs] exI [of _ ms] exI [of _ p]) (simp add: co_remove_skipped_blocks_def on_managers_run)
qed

lemma co_count_ok:
  assumes "idx_all (countable_at rid ncbs) 0 (mgrs c)"
  shows "co_get_num_blocks_to_allocate rid n ncbs nenc tot main c =
     Inr (idx_sum (\<lambda>k m. count_of rid ncbs n tot k m (c_block_pool c)) 0 (mgrs c), c)"
proof -
  obtain ks where "each_manager (\<lambda>i (m, p).
      if is_cross (mspec m)
      then bindR (get_num_blocks_to_allocate rid nenc [] 0 nenc m p) (\<lambda>(k, m'). Inr (k, m', p))
      else bindR (py_get ncbs (int i)) (\<lambda>ncb.
           bindR (get_num_blocks_to_allocate rid n ncb tot main m p) (\<lambda>(k, m'). Inr (k, m', p)))) 0 (mgrs c) (c_block_pool c) =
      Inr (ks, mgrs c, c_block_pool c)" "sum_list ks = idx_sum (\<lambda>k m. count_of rid ncbs n tot k m (c_block_pool c)) 0 (mgrs c)"
    using count_each [OF assms, of nenc n tot main "c_block_pool c"] by (elim exE conjE) (rule that)
  then show ?thesis unfolding co_get_num_blocks_to_allocate_def by (simp add: on_managers_run)
qed

lemma co_hits_ok:
  assumes "coord_inv (mgrs c) (c_block_pool c) R" "0 \<le> nlocal" "0 \<le> nexternal"
    and "idx_all (\<lambda>i m. enters rid m \<and> hits_valid ncbs nlocal i m (c_block_pool c)) 0 (mgrs c)"
    and "idx_sum (\<lambda>i m. hit_cost ncbs nlocal nexternal i m (c_block_pool c)) 0 (mgrs c) \<le> get_num_free_blocks (c_block_pool c)"
  shows "\<exists>xs ms p. co_allocate_new_computed_blocks rid ncbs nlocal nexternal c = Inr (with_state ms p c) \<and> coord_inv ms p R \<and>
     idx_all3 (hit_post rid ncbs nlocal nexternal) 0 (mgrs c) xs ms \<and> same_config (c_block_pool c) p \<and>
     get_num_free_blocks (c_block_pool c) - idx_sum (\<lambda>i m. hit_cost ncbs nlocal nexternal i m (c_block_pool c)) 0 (mgrs c)
       \<le> get_num_free_blocks p"
proof -
  have "idx_all (\<lambda>i m. enters rid m \<and> hits_valid ncbs nlocal i m (c_block_pool c) \<and> 0 \<le> nlocal \<and> 0 \<le> nexternal \<and>
      is_null (blocks (c_block_pool c) (Blk 0))) 0 (mgrs c)"
    using assms(2-4) coord_null [OF assms(1)] by (auto simp: idx_all_nth)
  from hit_op.each_ok [OF assms(1) this assms(5)] obtain xs ms p where
    "each_manager (\<lambda>i st. bindR (py_get ncbs (int i)) (\<lambda>ncb. no_result (allocate_new_computed_blocks rid ncb nlocal nexternal st)))
       0 (mgrs c) (c_block_pool c) = Inr (xs, ms, p)"
    "coord_inv ms p R" "idx_all3 (hit_post rid ncbs nlocal nexternal) 0 (mgrs c) xs ms" "refs_grow (c_block_pool c) p"
    "get_num_free_blocks (c_block_pool c) - idx_sum (\<lambda>i m. hit_cost ncbs nlocal nexternal i m (c_block_pool c)) 0 (mgrs c)
       \<le> get_num_free_blocks p"
    by (elim exE conjE) (rule that)
  then show ?thesis
    by (intro exI [of _ xs] exI [of _ ms] exI [of _ p])
       (simp add: co_allocate_new_computed_blocks_def on_managers_run refs_grow_def)
qed

lemma co_alloc_ok:
  assumes "coord_inv (mgrs c) (c_block_pool c) R" "list_all attention_group (mgrs c)"
    and "idx_sum (\<lambda>i m. alloc_cost rid n i m (c_block_pool c)) 0 (mgrs c) \<le> get_num_free_blocks (c_block_pool c)"
  shows "\<exists>xs ms p. co_allocate_new_blocks rid n main nenc c = Inr (xs, with_state ms p c) \<and> coord_inv ms p R \<and>
     idx_all3 (alloc_post rid n) 0 (mgrs c) xs ms \<and> same_config (c_block_pool c) p"
proof -
  have "idx_all (\<lambda>k m. \<not> is_mamba (mspec m) \<and> \<not> is_cross (mspec m)) 0 (mgrs c)"
    using assms(2) by (auto simp: idx_all_nth list_all_length attention_group_def)
  from alloc_op.each_ok [OF assms(1) this assms(3), of nenc main] obtain xs ms p where
    "each_manager (\<lambda>_ (m, p). allocate_new_blocks rid (if is_cross (mspec m) then nenc else n) main (m, p))
       0 (mgrs c) (c_block_pool c) = Inr (xs, ms, p)"
    "coord_inv ms p R" "idx_all3 (alloc_post rid n) 0 (mgrs c) xs ms" "same_config (c_block_pool c) p"
    by (elim exE conjE) (rule that)
  then show ?thesis
    by (intro exI [of _ xs] exI [of _ ms] exI [of _ p]) (simp add: co_allocate_new_blocks_def on_managers_run)
qed

lemma hit_le_count:
  assumes "idx_all (\<lambda>i m. enters rid m \<and> hits_valid ncbs nlocal i m p) i ms" "\<And>m. m \<in> set ms \<Longrightarrow> 0 < block_size m"
    and "0 \<le> nlocal" "0 \<le> nexternal" "nlocal + nexternal \<le> n"
  shows "idx_sum (\<lambda>i m. hit_cost ncbs nlocal nexternal i m p) i ms \<le>
     idx_sum (\<lambda>i m. count_of rid ncbs n (nlocal + nexternal) i m p) i ms"
  using assms(1,2)
proof (induction ms arbitrary: i)
  case (Cons m ms)
  let ?ncb = "ncbs ! i" and ?T = "nlocal + nexternal"
  let ?t = "replicate (nat (get_num_skipped_tokens m ?T div block_size m)) (Blk 0) @
     live_hits m ?ncb ?T @ replicate (nat (ext_len m ?ncb nlocal nexternal)) (Blk 0)"
  define m' where "m' = (set_table rid ?t m)\<lparr>num_cached_block := (num_cached_block m)(rid \<mapsto> nat (hit_len m ?ncb ?T))\<rparr>"
  have bs: "0 < block_size m" using Cons.prems(2) by simp
  have e: "enters rid m" "hits_valid ncbs nlocal i m p" using Cons.prems(1) by simp_all
  have "hit_len m ?ncb ?T \<le> cdiv ?T (block_size m)"
    using le_cdiv [OF bs, of "int (length ?ncb)" ?T] skipped_blocks_le [of m ?T] cdiv_nonneg [OF bs, of ?T] e bs assms(3,4)
    by (simp add: hit_len_def hits_valid_def enters_def)
  then have "0 \<le> ext_len m ?ncb nlocal nexternal" by (simp add: ext_len_def Let_def)
  then have "hit_post rid ncbs nlocal nexternal i m () m'" by (simp add: hit_post_def m'_def)
  from hit_alloc_le_count [OF e this bs assms(3-5), of p]
  have "hit_cost ncbs nlocal nexternal i m p \<le> count_of rid ncbs n ?T i m p" by (simp add: alloc_cost_def)
  moreover have "idx_sum (\<lambda>i m. hit_cost ncbs nlocal nexternal i m p) (Suc i) ms \<le>
      idx_sum (\<lambda>i m. count_of rid ncbs n ?T i m p) (Suc i) ms" using Cons.IH [of "Suc i"] Cons.prems by simp
  ultimately show ?case by simp
qed simp

end
