(* ===== verification/Result_Logic.thy ===== *)
theory Result_Logic
  imports Prelude
begin

text \<open>
  Reasoning about fallible programs by their successful results: \<open>ensures Q r\<close> says that \<open>Q\<close> holds
  of the value if \<open>r\<close> returns one. The rules of \<open>ens_intros\<close> follow the structure of a program and
  leave the equations of the calls it makes as assumptions, so that the lemma of a function is
  proved from the lemmas of the functions it calls.
\<close>

named_theorems ens_intros \<open>syntax-directed rules for ensures\<close>

definition ensures :: "('a \<Rightarrow> bool) \<Rightarrow> 'a res \<Rightarrow> bool" where
  "ensures Q r \<longleftrightarrow> (\<forall>x. r = Inr x \<longrightarrow> Q x)"

lemma ensuresD: "ensures Q r \<Longrightarrow> r = Inr x \<Longrightarrow> Q x"
  by (simp add: ensures_def)

lemma ensuresI: "(\<And>x. r = Inr x \<Longrightarrow> Q x) \<Longrightarrow> ensures Q r"
  by (simp add: ensures_def)

lemma ensures_mono: "ensures R r \<Longrightarrow> (\<And>x. R x \<Longrightarrow> Q x) \<Longrightarrow> ensures Q r"
  by (simp add: ensures_def)

lemma ens_ret [ens_intros]: "Q x \<Longrightarrow> ensures Q (Inr x)"
  by (simp add: ensures_def)

lemma ens_raise [ens_intros]: "ensures Q (Inl e)"
  by (simp add: ensures_def)

lemma ens_bind [ens_intros]: "(\<And>x. r = Inr x \<Longrightarrow> ensures Q (f x)) \<Longrightarrow> ensures Q (bindR r f)"
  by (auto simp: ensures_def bindR_eq_Inr)

lemma ens_if [ens_intros]: "(b \<Longrightarrow> ensures Q x) \<Longrightarrow> (\<not> b \<Longrightarrow> ensures Q y) \<Longrightarrow> ensures Q (if b then x else y)"
  by simp

lemma ens_option [ens_intros]:
  "(x = None \<Longrightarrow> ensures Q a) \<Longrightarrow> (\<And>y. x = Some y \<Longrightarrow> ensures Q (b y)) \<Longrightarrow> ensures Q (case x of None \<Rightarrow> a | Some y \<Rightarrow> b y)"
  by (cases x) simp_all

lemma ens_prod [ens_intros]: "(\<And>a b. p = (a, b) \<Longrightarrow> ensures Q (f a b)) \<Longrightarrow> ensures Q (case p of (a, b) \<Rightarrow> f a b)"
  by (cases p) simp

lemma ens_let [ens_intros]: "(\<And>y. y = x \<Longrightarrow> ensures Q (f y)) \<Longrightarrow> ensures Q (Let x f)"
  by (simp add: Let_def)

text \<open>Sequencing by the specification of the first program, where that is itself a conditional.\<close>

lemma ens_seq: "ensures R r \<Longrightarrow> (\<And>x. R x \<Longrightarrow> ensures Q (f x)) \<Longrightarrow> ensures Q (bindR r f)"
  by (auto simp: ensures_def bindR_eq_Inr)

lemma ens_foldR:
  assumes "P s" "\<And>x s. x \<in> set xs \<Longrightarrow> P s \<Longrightarrow> ensures P (f x s)"
  shows "ensures P (foldR f xs s)"
proof (rule ensuresI)
  fix s'
  assume "foldR f xs s = Inr s'"
  then show "P s'" by (rule foldR_invariant) (use assms in \<open>auto simp: ensures_def\<close>)
qed

lemma ens_conj: "ensures P r \<Longrightarrow> ensures Q r \<Longrightarrow> ensures (\<lambda>x. P x \<and> Q x) r"
  by (simp add: ensures_def)

end
