(* ===== verification/Caching.thy ===== *)
theory Caching
  imports Coordinator_Inv Result_Logic
begin

text \<open>
  Caching the full blocks of a request in every group, the last step of
  v1/core/kv\_cache\_manager.py \<^verbatim>\<open>allocate_slots\<close>: what it leaves alone (the request but for a
  memo, the tables, the reference accounting), and when it cannot raise. It asserts that a block
  it is about to give a hash has none yet and that the request has enough hashes, so the
  condition is that the uncached full blocks are new to the cache and that no two groups cache
  the same block.
\<close>

section \<open>Caching blocks changes nothing of a request but its memo\<close>

definition memo_only :: "request \<Rightarrow> request \<Rightarrow> bool" where
  "memo_only r r' \<longleftrightarrow> (\<exists>m. r' = r\<lparr>embeds_block_hashes := m\<rparr>)"

lemma memo_only_refl [simp]: "memo_only r r"
  unfolding memo_only_def by (rule memo_refl)

lemma memo_only_trans: "memo_only r r' \<Longrightarrow> memo_only r' r'' \<Longrightarrow> memo_only r r''"
  by (auto simp: memo_only_def)

lemma memo_only_fields:
  assumes "memo_only r r'"
  shows "request_id r' = request_id r" "status r' = status r" "num_computed_tokens r' = num_computed_tokens r"
    "all_token_ids r' = all_token_ids r" "mm_features r' = mm_features r" "resumable r' = resumable r"
    "streaming_queue r' = streaming_queue r" "block_hashes r' = block_hashes r"
  using assms by (auto simp: memo_only_def)

lemma extra_keys_memo: "ensures (\<lambda>(k, i, r'). memo_only r r') (generate_block_hash_extra_keys env r a b c)"
  unfolding generate_block_hash_extra_keys_def
  by (intro ens_intros) (auto simp: gen_prompt_embeds_extra_hash_keys_def memo_only_def Let_def intro: memo_refl split: option.splits)

lemma extra_keys_step_memo:
  assumes "memo_only r0 r"
  shows "ensures (\<lambda>(ks, i, r'). memo_only r0 r') (extra_keys_step env p blks bs j (ks, i, r))"
  unfolding extra_keys_step_def prod.case
  by (intro ens_intros) (auto intro: memo_only_trans [OF assms] assms dest!: extra_keys_memo [THEN ensuresD])

lemma extra_keys_fold_memo:
  "ensures (\<lambda>(ks, i, r'). memo_only r r') (foldR (extra_keys_step env p blks bs) xs ([], 0, r))"
  by (rule ens_foldR) (auto intro: extra_keys_step_memo)

lemma stored_event_memo: "ensures (\<lambda>(p', r'). memo_only r r') (stored_event env r blks a b bs bhl nh p)"
  unfolding stored_event_def by (intro ens_intros) (auto dest!: extra_keys_fold_memo [THEN ensuresD])

lemma cache_full_blocks_memo: "ensures (\<lambda>(p', r'). memo_only r r') (cache_full_blocks env r blks a b bs gid p)"
  unfolding cache_full_blocks_def by (intro ens_intros) (auto intro: stored_event_memo)

lemma base_cache_blocks_memo: "ensures (\<lambda>(m', p', r'). memo_only r r') (base_cache_blocks env r n (m, p))"
  unfolding base_cache_blocks_def prod.case by (intro ens_intros) (auto dest!: cache_full_blocks_memo [THEN ensuresD])

lemma mamba_cache_blocks_memo: "ensures (\<lambda>(m', p', r'). memo_only r r') (mamba_cache_blocks env r n (m, p))"
  unfolding mamba_cache_blocks_def prod.case Let_def by (intro ens_intros) (auto dest!: base_cache_blocks_memo [THEN ensuresD])

lemma cache_blocks_memo: "ensures (\<lambda>(m', p', r'). memo_only r r') (cache_blocks env r n (m, p))"
  unfolding cache_blocks_def prod.case
  by (cases "mspec m") (auto intro: base_cache_blocks_memo mamba_cache_blocks_memo ens_raise)

lemma cache_each_memo: "ensures (\<lambda>(ms', p', r'). memo_only r r') (cache_each env r n ms p)"
proof (induction ms arbitrary: r p)
  case (Cons m ms)
  show ?case unfolding cache_each.simps
    by (intro ens_intros) (auto intro: memo_only_trans dest!: cache_blocks_memo [THEN ensuresD] Cons [THEN ensuresD])
qed (simp add: ens_ret)

lemma co_cache_blocks_memo: "ensures (\<lambda>(c', r'). memo_only r r') (co_cache_blocks env r n c)"
  unfolding co_cache_blocks_def by (intro ens_intros) (auto dest!: cache_each_memo [THEN ensuresD])

section \<open>Caching in all groups\<close>

lemma cache_blocks_keeps:
  assumes "cache_blocks env r n (m, p) = Inr (m', p', r')" "mgr_inv m p R" "enable_caching p" "attention_group m"
  shows "mgr_inv m' p' R \<and> table_of m' = table_of m \<and> same_mgr m m' \<and> same_config p p'"
proof (rule base_cache_blocks_inv [OF _ assms(2,3)])
  show "base_cache_blocks env r n (m, p) = Inr (m', p', r')"
    using assms(1,4) by (auto simp: cache_blocks_def attention_group_def split: kv_cache_spec.splits)
qed

lemma cache_each_keeps:
  assumes "cache_each env r n ms p = Inr (ms', p', r')" "coord_inv ms p R" "enable_caching p" "list_all attention_group ms"
  shows "coord_inv ms' p' R \<and> same_config p p' \<and> list_all2 (\<lambda>m m'. table_of m' = table_of m \<and> same_mgr m m') ms ms'"
  using assms
proof (induction ms arbitrary: p r ms' R)
  case (Cons m ms)
  obtain m1 p1 r1 ms1 where c: "cache_blocks env r n (m, p) = Inr (m1, p1, r1)" "cache_each env r1 n ms p1 = Inr (ms1, p', r')" "ms' = m1 # ms1"
    using Cons.prems(1) by (auto simp: bindR_eq_Inr)
  have i: "mgr_inv m p (R + all_held ms)" "list_all mgr_static ms" using Cons.prems(2) by (simp_all add: coord_inv_Cons)
  have k: "mgr_inv m1 p1 (R + all_held ms)" "table_of m1 = table_of m" "same_mgr m m1" "same_config p p1"
    using cache_blocks_keeps [OF c(1) i(1) Cons.prems(3)] Cons.prems(4) by simp_all
  have "enable_caching p1" using k(4) Cons.prems(3) by (simp add: same_config_def)
  from Cons.IH [OF c(2) coord_inv_tail [OF k(1) i(2)] this] Cons.prems(4)
  have "coord_inv ms1 p' (R + tables_held (req_to_blocks m1))" "same_config p1 p'"
    "list_all2 (\<lambda>m m'. table_of m' = table_of m \<and> same_mgr m m') ms ms1" by simp_all
  then show ?case using c(3) k coord_inv_head same_config_trans [OF k(4)] by (auto simp: mgr_inv_static)
qed simp

lemma co_cache_blocks_keeps:
  assumes "co_cache_blocks env r n c = Inr (c', r')" "coord_inv (mgrs c) (c_block_pool c) R" "enable_caching (c_block_pool c)"
    "list_all attention_group (mgrs c)"
  shows "coord_inv (mgrs c') (c_block_pool c') R \<and> same_config (c_block_pool c) (c_block_pool c') \<and>
     list_all2 (\<lambda>m m'. table_of m' = table_of m \<and> same_mgr m m') (mgrs c) (mgrs c')"
proof -
  obtain ms p where "cache_each env r n (mgrs c) (c_block_pool c) = Inr (ms, p, r')" "mgrs c' = ms" "c_block_pool c' = p"
    using assms(1) by (auto simp: co_cache_blocks_def bindR_eq_Inr)
  then show ?thesis using cache_each_keeps [OF _ assms(2-4)] by simp
qed

section \<open>When caching succeeds\<close>

text \<open>The full blocks of the first \<open>n\<close> tokens a group has not cached yet.\<close>

definition cached_count :: "request \<Rightarrow> manager \<Rightarrow> nat" where
  "cached_count r m = (case num_cached_block m (request_id r) of None \<Rightarrow> 0 | Some k \<Rightarrow> k)"

definition uncached :: "request \<Rightarrow> int \<Rightarrow> manager \<Rightarrow> block_ref list" where
  "uncached r n m = py_slice (cached_count r m) (nat (n div block_size m)) (table_of m (request_id r))"

text \<open>The hashes of the request, read at the block size of a group, reach from block \<open>k\<close> to block \<open>f\<close>.\<close>

definition hashes_reach :: "bytes list \<Rightarrow> nat \<Rightarrow> nat \<Rightarrow> nat \<Rightarrow> nat \<Rightarrow> bool" where
  "hashes_reach hs hbs bs k f \<longleftrightarrow> f \<le> length hs \<and>
     (case hashes_at_size hs hbs bs of
        Inl _ \<Rightarrow> False
      | Inr bhl \<Rightarrow> (k = 0 \<or> is_ok (bhl_get bhl (k - 1))) \<and>
          (case bhl_from bhl k of Inl _ \<Rightarrow> False | Inr l \<Rightarrow> f \<le> k + length l))"

definition cacheable :: "request \<Rightarrow> int \<Rightarrow> block_pool \<Rightarrow> manager \<Rightarrow> bool" where
  "cacheable r n p m \<longleftrightarrow>
     (let k = cached_count r m; f = nat (n div block_size m)
      in k < f \<longrightarrow> f \<le> length (table_of m (request_id r)) \<and>
           hashes_reach (block_hashes r) (hash_block_size p) (nat (block_size m)) k f \<and>
           0 \<le> kv_cache_group_id m \<and> kv_cache_group_id m < 2 ^ 32 \<and>
           (\<forall>b\<in>set (uncached r n m). b \<noteq> Blk 0 \<longrightarrow> block_hash (blocks p b) = None))"

fun all_cacheable :: "request \<Rightarrow> int \<Rightarrow> block_pool \<Rightarrow> manager list \<Rightarrow> bool" where
  "all_cacheable r n p [] = True"
| "all_cacheable r n p (m # ms) \<longleftrightarrow> cacheable r n p m \<and>
     (\<forall>m'\<in>set ms. set (uncached r n m) \<inter> set (uncached r n m') \<subseteq> {Blk 0}) \<and> all_cacheable r n p ms"

lemma uncached_memo: "memo_only r r' \<Longrightarrow> uncached r' n m = uncached r n m"
  by (simp add: uncached_def cached_count_def memo_only_fields)

lemma all_cacheable_memo: "memo_only r r' \<Longrightarrow> all_cacheable r' n p ms = all_cacheable r n p ms"
  by (induction ms) (simp_all add: cacheable_def uncached_def cached_count_def memo_only_fields)

lemma all_cacheable_mono:
  assumes "all_cacheable r n p ms" "same_config p p'"
    and "\<And>m b. m \<in> set ms \<Longrightarrow> b \<in> set (uncached r n m) \<Longrightarrow> b \<noteq> Blk 0 \<Longrightarrow> block_hash (blocks p' b) = block_hash (blocks p b)"
  shows "all_cacheable r n p' ms"
  using assms
proof (induction ms)
  case (Cons m ms)
  have h: "\<forall>b\<in>set (uncached r n m). b \<noteq> Blk 0 \<longrightarrow> block_hash (blocks p' b) = block_hash (blocks p b)"
    using Cons.prems(3) by (meson list.set_intros(1))
  have "cacheable r n p m" "hash_block_size p' = hash_block_size p"
    using Cons.prems(1,2) by (simp_all add: same_config_def)
  then have "cacheable r n p' m" using h by (simp add: cacheable_def Let_def)
  moreover have "all_cacheable r n p' ms"
    by (rule Cons.IH [OF _ Cons.prems(2)]) (use Cons.prems(1,3) in \<open>simp_all, meson list.set_intros(2)\<close>)
  ultimately show ?case using Cons.prems(1) by simp
qed simp

lemma distinct_filter_slice:
  assumes "distinct (filter P xs)"
  shows "distinct (filter P (py_slice a b xs))"
proof -
  have "distinct (filter P (take b xs @ drop b xs))" using assms by simp
  then have "distinct (filter P (take b xs))" unfolding filter_append by simp
  then have "distinct (filter P (take a (take b xs) @ drop a (take b xs)))" unfolding append_take_drop_id .
  then have "distinct (filter P (drop a (take b xs)))" unfolding filter_append by simp
  then show ?thesis by (simp add: py_slice_def)
qed

lemma base_cache_blocks_ok:
  assumes "mgr_inv m p R" "enable_caching p" "cacheable r n p m"
  shows "\<exists>m' p' r'. base_cache_blocks env r n (m, p) = Inr (m', p', r') \<and>
     (\<forall>b. b \<notin> set (uncached r n m) \<longrightarrow> block_hash (blocks p' b) = block_hash (blocks p b)) \<and>
     (\<forall>b\<in>set (uncached r n m). b \<noteq> Blk 0 \<longrightarrow> block_hash (blocks p' b) \<noteq> None)"
proof (cases "int (cached_count r m) \<ge> n div block_size m")
  case True
  then have "uncached r n m = []" by (simp add: uncached_def py_slice_def)
  then show ?thesis using True by (simp add: base_cache_blocks_def Let_def cached_count_def)
next
  case False
  let ?rid = "request_id r" and ?k = "cached_count r m" and ?f = "nat (n div block_size m)"
  let ?t = "table_of m ?rid"
  obtain m1 where m1: "req_table ?rid m = (?t, m1)" "same_mgr m m1" using req_table_cases [of ?rid m] by metis
  obtain fs where fs: "pool_rep p fs (R + tables_held (req_to_blocks m))" using assms(1) by (auto simp: mgr_inv_def pool_inv_def)
  have kf: "?k < ?f" using False by simp
  then have c: "?f \<le> length ?t" "0 \<le> kv_cache_group_id m" "kv_cache_group_id m < 2 ^ 32"
      "hashes_reach (block_hashes r) (hash_block_size p) (nat (block_size m)) ?k ?f"
      "\<forall>b\<in>set (uncached r n m). b \<noteq> Blk 0 \<longrightarrow> block_hash (blocks p b) = None"
    using assms(3) by (simp_all add: cacheable_def Let_def)
  obtain bhl hs where h: "hashes_at_size (block_hashes r) (hash_block_size p) (nat (block_size m)) = Inr bhl"
      "bhl_from bhl ?k = Inr hs" "?f \<le> ?k + length hs" "?k = 0 \<or> is_ok (bhl_get bhl (?k - 1))" "?f \<le> length (block_hashes r)"
    using c(4) by (auto simp: hashes_reach_def split: sum.splits)
  have sub: "set (uncached r n m) \<subseteq> set ?t" by (auto simp: uncached_def py_slice_def dest: in_set_takeD in_set_dropD)
  have d: "distinct (filter (\<lambda>b. b \<noteq> Blk 0) (py_slice ?k ?f ?t))"
    using assms(1) by (intro distinct_filter_slice) (simp add: mgr_inv_def)
  have b: "\<forall>b\<in>set (py_slice ?k ?f ?t). b \<noteq> Blk 0 \<longrightarrow> real_block p b \<and> block_hash (blocks p b) = None"
    using c(5) sub table_blocks_real [OF assms(1), of ?rid] by (auto simp: uncached_def)
  from cache_full_blocks_spec [OF fs assms(2) c(1) h(5) d b h(1-4) c(2,3), of env] obtain p' r' where
    p': "cache_full_blocks env r ?t ?k ?f (nat (block_size m)) (kv_cache_group_id m) p = Inr (p', r')"
      "\<forall>b. b \<notin> set (uncached r n m) \<longrightarrow> block_hash (blocks p' b) = block_hash (blocks p b)"
      "\<forall>j. ?k \<le> j \<longrightarrow> j < ?f \<longrightarrow> ?t ! j \<noteq> Blk 0 \<longrightarrow> block_hash (blocks p' (?t ! j)) \<noteq> None"
    unfolding uncached_def by fastforce
  have "block_hash (blocks p' b) \<noteq> None" if b: "b \<in> set (uncached r n m)" "b \<noteq> Blk 0" for b
  proof -
    obtain i where "i < length (py_slice ?k ?f ?t)" "b = py_slice ?k ?f ?t ! i" using b(1) by (auto simp: uncached_def in_set_conv_nth)
    then show ?thesis using p'(3) b(2) c(1) by (auto simp: py_slice_def)
  qed
  moreover have "\<exists>m'. base_cache_blocks env r n (m, p) = Inr (m', p', r')"
    using False m1 p'(1) by (simp add: base_cache_blocks_def Let_def cached_count_def same_mgr_def)
  ultimately show ?thesis using p'(2) by blast
qed

lemma cache_each_ok:
  assumes "coord_inv ms p R" "enable_caching p" "list_all attention_group ms" "all_cacheable r n p ms"
  shows "\<exists>ms' p' r'. cache_each env r n ms p = Inr (ms', p', r') \<and>
     (\<forall>b. (\<forall>m\<in>set ms. b \<notin> set (uncached r n m)) \<longrightarrow> block_hash (blocks p' b) = block_hash (blocks p b)) \<and>
     (\<forall>m\<in>set ms. \<forall>b\<in>set (uncached r n m). b \<noteq> Blk 0 \<longrightarrow> block_hash (blocks p' b) \<noteq> None)"
  using assms
proof (induction ms arbitrary: p r R)
  case (Cons m ms)
  have i: "mgr_inv m p (R + all_held ms)" "list_all mgr_static ms" using Cons.prems(1) by (simp_all add: coord_inv_Cons)
  have ca: "cacheable r n p m" "all_cacheable r n p ms"
      "\<forall>m'\<in>set ms. set (uncached r n m) \<inter> set (uncached r n m') \<subseteq> {Blk 0}" using Cons.prems(4) by simp_all
  have g: "attention_group m" "list_all attention_group ms" using Cons.prems(3) by simp_all
  from base_cache_blocks_ok [OF i(1) Cons.prems(2) ca(1), of env] obtain m1 p1 r1 where
    b: "base_cache_blocks env r n (m, p) = Inr (m1, p1, r1)"
      "\<forall>b. b \<notin> set (uncached r n m) \<longrightarrow> block_hash (blocks p1 b) = block_hash (blocks p b)"
      "\<forall>b\<in>set (uncached r n m). b \<noteq> Blk 0 \<longrightarrow> block_hash (blocks p1 b) \<noteq> None" by blast
  have c: "cache_blocks env r n (m, p) = Inr (m1, p1, r1)"
    using b(1) g(1) by (auto simp: cache_blocks_def attention_group_def split: kv_cache_spec.splits)
  from cache_blocks_keeps [OF c i(1) Cons.prems(2) g(1)] have k: "mgr_inv m1 p1 (R + all_held ms)" "same_config p p1" by simp_all
  have mem: "memo_only r r1" using cache_blocks_memo [THEN ensuresD, OF c] by simp
  have e1: "enable_caching p1" using k(2) Cons.prems(2) by (simp add: same_config_def)
  have "all_cacheable r n p1 ms" by (rule all_cacheable_mono [OF ca(2) k(2)]) (use b(2) ca(3) in blast)
  then have "all_cacheable r1 n p1 ms" by (simp add: all_cacheable_memo [OF mem])
  from Cons.IH [OF coord_inv_tail [OF k(1) i(2)] e1 g(2) this] obtain ms' p' r' where
    t: "cache_each env r1 n ms p1 = Inr (ms', p', r')"
      "\<forall>b. (\<forall>m\<in>set ms. b \<notin> set (uncached r n m)) \<longrightarrow> block_hash (blocks p' b) = block_hash (blocks p1 b)"
      "\<forall>m\<in>set ms. \<forall>b\<in>set (uncached r n m). b \<noteq> Blk 0 \<longrightarrow> block_hash (blocks p' b) \<noteq> None"
    unfolding uncached_memo [OF mem] by blast
  have "block_hash (blocks p' b) \<noteq> None" if "b \<in> set (uncached r n m)" "b \<noteq> Blk 0" for b
  proof -
    have "\<forall>m'\<in>set ms. b \<notin> set (uncached r n m')" using that ca(3) by blast
    then show ?thesis using t(2) b(3) that by metis
  qed
  moreover have "cache_each env r n (m # ms) p = Inr (m1 # ms', p', r')" using c t(1) by simp
  ultimately show ?case using t b(2) by (metis set_ConsD list.set_intros)
qed simp

lemma co_cache_blocks_ok:
  assumes "coord_inv (mgrs c) (c_block_pool c) R" "enable_caching (c_block_pool c)" "list_all attention_group (mgrs c)"
    and "all_cacheable r n (c_block_pool c) (mgrs c)"
  shows "\<exists>c' r'. co_cache_blocks env r n c = Inr (c', r') \<and>
     (\<forall>m\<in>set (mgrs c). \<forall>b\<in>set (uncached r n m). b \<noteq> Blk 0 \<longrightarrow> block_hash (blocks (c_block_pool c') b) \<noteq> None)"
  using cache_each_ok [OF assms, of env] by (auto simp: co_cache_blocks_def)

end
