(* ===== verification/KV_Manager.thy ===== *)
theory KV_Manager
  imports Caching
begin

text \<open>
  The KV cache manager of v1/core/kv\_cache\_manager.py, the interface the scheduler uses, with
  the prefix cache statistics of v1/metrics/stats.py it keeps. \<open>kv_blocks\<close> is the tuple of
  block lists inside KVCacheBlocks, one list per group; the precomputed empty object is the
  tuple of empty lists, so the identity test against it is the test that some list is not
  empty (\<^verbatim>\<open>create_kv_cache_blocks\<close> returns that object exactly for empty lists). The main result
  is that \<^verbatim>\<open>allocate_slots\<close> either reports too few free blocks and leaves the other requests
  alone, or gives the request all the blocks it needs, for any number of attention groups.
\<close>

section \<open>Statistics\<close>

record prefix_cache_stats =
  st_reset :: bool
  st_requests :: int
  st_queries :: int
  st_hits :: int
  st_preempted_requests :: int
  st_preempted_queries :: int
  st_preempted_hits :: int

definition new_prefix_cache_stats :: prefix_cache_stats where
  "new_prefix_cache_stats = \<lparr>st_reset = False, st_requests = 0, st_queries = 0, st_hits = 0,
     st_preempted_requests = 0, st_preempted_queries = 0, st_preempted_hits = 0\<rparr>"

definition stats_record :: "int \<Rightarrow> int \<Rightarrow> bool \<Rightarrow> prefix_cache_stats \<Rightarrow> prefix_cache_stats" where
  "stats_record ntokens nhits preempted s =
     (if preempted
      then s\<lparr>st_preempted_requests := st_preempted_requests s + 1,
             st_preempted_queries := st_preempted_queries s + ntokens,
             st_preempted_hits := st_preempted_hits s + nhits\<rparr>
      else s\<lparr>st_requests := st_requests s + 1, st_queries := st_queries s + ntokens, st_hits := st_hits s + nhits\<rparr>)"

text \<open>The sliding aggregate over the most recent requests.\<close>

record caching_metrics =
  max_recent_requests :: int
  aggregated_requests :: int
  aggregated_query_total :: int
  aggregated_query_hit :: int
  query_queue :: "(int \<times> int \<times> int) list"

definition metrics_reset :: "caching_metrics \<Rightarrow> caching_metrics" where
  "metrics_reset c = c\<lparr>aggregated_requests := 0, aggregated_query_total := 0, aggregated_query_hit := 0, query_queue := []\<rparr>"

function drop_oldest :: "caching_metrics \<Rightarrow> caching_metrics" where
  "drop_oldest c =
     (if length (query_queue c) > 1 \<and> aggregated_requests c > max_recent_requests c
      then (case hd (query_queue c) of (r, q, h) \<Rightarrow>
             drop_oldest (c\<lparr>query_queue := tl (query_queue c), aggregated_requests := aggregated_requests c - r,
                            aggregated_query_total := aggregated_query_total c - q,
                            aggregated_query_hit := aggregated_query_hit c - h\<rparr>))
      else c)"
  by pat_completeness auto
termination by (relation "measure (\<lambda>c. length (query_queue c))") auto

declare drop_oldest.simps [simp del]

definition observe :: "prefix_cache_stats \<Rightarrow> caching_metrics \<Rightarrow> caching_metrics" where
  "observe s c0 =
     (let c = (if st_reset s then metrics_reset c0 else c0)
      in if st_requests s = 0 then c
         else drop_oldest (c\<lparr>query_queue := query_queue c @ [(st_requests s, st_queries s, st_hits s)],
                aggregated_requests := aggregated_requests c + st_requests s,
                aggregated_query_total := aggregated_query_total c + st_queries s,
                aggregated_query_hit := aggregated_query_hit c + st_hits s\<rparr>))"

definition hit_rate :: "caching_metrics \<Rightarrow> rat" where
  "hit_rate c = (if aggregated_query_total c = 0 then 0
                 else of_int (aggregated_query_hit c) / of_int (aggregated_query_total c))"

section \<open>Block tuples\<close>

type_synonym kv_blocks = "block_ref list list"

definition blocks_add :: "kv_blocks \<Rightarrow> kv_blocks \<Rightarrow> kv_blocks" where
  "blocks_add a b = map2 (@) a b"

definition blocks_get_block_ids :: "bool \<Rightarrow> kv_blocks \<Rightarrow> int list list option" where
  "blocks_get_block_ids allow_none bs =
     (if allow_none \<and> list_all (\<lambda>g. length g = 0) bs then None else Some (map (map block_id) bs))"

definition get_unhashed_block_ids :: "block_pool \<Rightarrow> kv_blocks \<Rightarrow> int list res" where
  "get_unhashed_block_ids p bs =
     bindR (assertR (length bs = 1)) (\<lambda>_.
       Inr (map block_id (filter (\<lambda>b. block_hash (blocks p b) = None) (hd bs))))"

definition get_unhashed_block_ids_all_groups :: "block_pool \<Rightarrow> kv_blocks \<Rightarrow> int list list" where
  "get_unhashed_block_ids_all_groups p bs =
     map (\<lambda>g. map block_id (filter (\<lambda>b. block_hash (blocks p b) = None \<and> \<not> is_null (blocks p b)) g)) bs"

definition new_empty :: "kv_blocks \<Rightarrow> kv_blocks" where
  "new_empty bs = map (\<lambda>_. []) bs"

definition is_empty_blocks :: "kv_blocks \<Rightarrow> bool" where
  "is_empty_blocks bs = list_all (\<lambda>g. g = []) bs"

section \<open>The manager\<close>

record kv_manager =
  km_max_model_len :: int
  km_enable_caching :: bool
  km_use_eagle :: bool
  log_stats :: bool
  km_prefix_cache_stats :: "prefix_cache_stats option"
  km_coordinator :: coordinator
  num_kv_cache_groups :: nat

definition new_kv_manager ::
  "kv_cache_config \<Rightarrow> int \<Rightarrow> nat \<Rightarrow> bool \<Rightarrow> bool \<Rightarrow> bool \<Rightarrow> bool \<Rightarrow> bool \<Rightarrow> int \<Rightarrow> int \<Rightarrow> kv_manager res" where
  "new_kv_manager cfg mlen hbs caching eagle lstats events use_int dcp pcp =
     bindR (get_kv_cache_coordinator cfg eagle caching events use_int dcp pcp hbs) (\<lambda>c.
       Inr \<lparr>km_max_model_len = mlen, km_enable_caching = caching, km_use_eagle = eagle, log_stats = lstats,
            km_prefix_cache_stats = (if lstats then Some new_prefix_cache_stats else None),
            km_coordinator = c, num_kv_cache_groups = length (kv_cache_groups cfg)\<rparr>)"

definition empty_kv_cache_blocks :: "kv_manager \<Rightarrow> kv_blocks" where
  "empty_kv_cache_blocks km = replicate (num_kv_cache_groups km) []"

definition create_kv_cache_blocks :: "kv_manager \<Rightarrow> kv_blocks \<Rightarrow> kv_blocks" where
  "create_kv_cache_blocks km bs = (if list_ex (\<lambda>g. g \<noteq> []) bs then bs else empty_kv_cache_blocks km)"

definition km_pool :: "kv_manager \<Rightarrow> block_pool" where
  "km_pool km = c_block_pool (km_coordinator km)"

definition set_pool :: "block_pool \<Rightarrow> kv_manager \<Rightarrow> kv_manager" where
  "set_pool p km = km\<lparr>km_coordinator := (km_coordinator km)\<lparr>c_block_pool := p\<rparr>\<rparr>"

definition km_usage :: "kv_manager \<Rightarrow> rat" where
  "km_usage km = get_usage (km_pool km)"

definition make_prefix_cache_stats :: "kv_manager \<Rightarrow> prefix_cache_stats option \<times> kv_manager" where
  "make_prefix_cache_stats km =
     (if \<not> log_stats km then (None, km)
      else (km_prefix_cache_stats km, km\<lparr>km_prefix_cache_stats := Some new_prefix_cache_stats\<rparr>))"

definition get_computed_blocks :: "request \<Rightarrow> kv_manager \<Rightarrow> (kv_blocks \<times> int \<times> kv_manager) res" where
  "get_computed_blocks r km =
     (if \<not> km_enable_caching km \<or> skip_reading_prefix_cache r then Inr (empty_kv_cache_blocks km, 0, km)
      else bindR (co_find_longest_cache_hit (block_hashes r) (num_tokens r - 1) (km_coordinator km)) (\<lambda>(computed, n).
        bindR (if log_stats km
               then (case km_prefix_cache_stats km of
                       None \<Rightarrow> Inl AssertionError
                     | Some s \<Rightarrow> Inr (km\<lparr>km_prefix_cache_stats := Some (stats_record (num_tokens r) n (num_preemptions r > 0) s)\<rparr>))
               else Inr km) (\<lambda>km'.
          Inr (create_kv_cache_blocks km' computed, n, km'))))"

definition allocate_slots ::
  "hash_env \<Rightarrow> request \<Rightarrow> int \<Rightarrow> int \<Rightarrow> kv_blocks option \<Rightarrow> int \<Rightarrow> int \<Rightarrow> bool \<Rightarrow> int \<Rightarrow> kv_manager \<Rightarrow>
   (kv_blocks option \<times> kv_manager \<times> request) res" where
  "allocate_slots env r num_new_tokens num_new_computed_tokens new_computed_blocks num_lookahead_tokens
       nexternal delay_cache_blocks num_encoder_tokens km =
     (if num_new_tokens = 0 \<and> nexternal = 0 then Inl ValueError
      else
        let new_computed_block_list = (case new_computed_blocks of Some bs \<Rightarrow> bs | None \<Rightarrow> empty_kv_cache_blocks km);
            num_local_computed_tokens = num_computed_tokens r + num_new_computed_tokens;
            total_computed_tokens = min (num_local_computed_tokens + nexternal) (km_max_model_len km);
            num_tokens_main_model = total_computed_tokens + num_new_tokens;
            num_tokens_need_slot = min (num_tokens_main_model + num_lookahead_tokens) (km_max_model_len km)
        in bindR (co_remove_skipped_blocks (request_id r) total_computed_tokens (km_coordinator km)) (\<lambda>c1.
           bindR (co_get_num_blocks_to_allocate (request_id r) num_tokens_need_slot new_computed_block_list
                    num_encoder_tokens (num_local_computed_tokens + nexternal) num_tokens_main_model c1)
             (\<lambda>(num_blocks_to_allocate, c2).
                if num_blocks_to_allocate > get_num_free_blocks (c_block_pool c2)
                then Inr (None, km\<lparr>km_coordinator := c2\<rparr>, r)
                else bindR (if \<not> is_empty_blocks new_computed_block_list \<or> nexternal > 0
                            then co_allocate_new_computed_blocks (request_id r) new_computed_block_list
                                   num_local_computed_tokens nexternal c2
                            else Inr c2) (\<lambda>c3.
                     bindR (co_allocate_new_blocks (request_id r) num_tokens_need_slot num_tokens_main_model
                              num_encoder_tokens c3) (\<lambda>(new_blocks, c4).
                       if \<not> km_enable_caching km \<or> delay_cache_blocks
                       then Inr (Some (create_kv_cache_blocks km new_blocks), km\<lparr>km_coordinator := c4\<rparr>, r)
                       else bindR (co_cache_blocks env r
                                     (min (total_computed_tokens + num_new_tokens) (num_tokens r)) c4) (\<lambda>(c5, r').
                              Inr (Some (create_kv_cache_blocks km new_blocks), km\<lparr>km_coordinator := c5\<rparr>, r')))))))"

definition km_free :: "request \<Rightarrow> kv_manager \<Rightarrow> kv_manager res" where
  "km_free r km = bindR (co_free (request_id r) (km_coordinator km)) (\<lambda>c. Inr (km\<lparr>km_coordinator := c\<rparr>))"

definition km_remove_skipped_blocks :: "req_id \<Rightarrow> int \<Rightarrow> kv_manager \<Rightarrow> kv_manager res" where
  "km_remove_skipped_blocks rid tot km =
     bindR (co_remove_skipped_blocks rid tot (km_coordinator km)) (\<lambda>c. Inr (km\<lparr>km_coordinator := c\<rparr>))"

definition km_evict_blocks :: "nat list \<Rightarrow> kv_manager \<Rightarrow> kv_manager res" where
  "km_evict_blocks ids km = bindR (evict_blocks ids (km_pool km)) (\<lambda>p. Inr (set_pool p km))"

definition km_reset_prefix_cache :: "kv_manager \<Rightarrow> (bool \<times> kv_manager) res" where
  "km_reset_prefix_cache km =
     (let (ok, p) = reset_prefix_cache (km_pool km); km1 = set_pool p km
      in if \<not> ok then Inr (False, km1)
         else if log_stats km
         then (case km_prefix_cache_stats km of
                 None \<Rightarrow> Inl AssertionError
               | Some s \<Rightarrow> Inr (True, km1\<lparr>km_prefix_cache_stats := Some (s\<lparr>st_reset := True\<rparr>)\<rparr>))
         else Inr (True, km1))"

definition km_get_num_common_prefix_blocks :: "req_id \<Rightarrow> kv_manager \<Rightarrow> (int list \<times> kv_manager) res" where
  "km_get_num_common_prefix_blocks rid km =
     bindR (co_get_num_common_prefix_blocks rid (km_coordinator km)) (\<lambda>(ns, c). Inr (ns, km\<lparr>km_coordinator := c\<rparr>))"

definition km_take_events :: "kv_manager \<Rightarrow> kv_event list \<times> kv_manager" where
  "km_take_events km = (let (es, p) = pool_take_events (km_pool km) in (es, set_pool p km))"

definition km_get_blocks :: "req_id \<Rightarrow> kv_manager \<Rightarrow> kv_blocks" where
  "km_get_blocks rid km = create_kv_cache_blocks km (co_get_blocks rid (km_coordinator km))"

definition km_get_block_ids :: "req_id \<Rightarrow> kv_manager \<Rightarrow> int list list" where
  "km_get_block_ids rid km = map (map block_id) (km_get_blocks rid km)"

definition km_cache_blocks :: "hash_env \<Rightarrow> request \<Rightarrow> int \<Rightarrow> kv_manager \<Rightarrow> (kv_manager \<times> request) res" where
  "km_cache_blocks env r ncomputed km =
     (if km_enable_caching km
      then bindR (co_cache_blocks env r ncomputed (km_coordinator km)) (\<lambda>(c, r'). Inr (km\<lparr>km_coordinator := c\<rparr>, r'))
      else Inr (km, r))"

definition km_take_new_block_ids :: "kv_manager \<Rightarrow> int list \<times> kv_manager" where
  "km_take_new_block_ids km =
     (let rs = map take_new_block_ids (single_type_managers (km_coordinator km))
      in (concat (map fst rs), km\<lparr>km_coordinator := (km_coordinator km)\<lparr>single_type_managers := map snd rs\<rparr>\<rparr>))"

definition km_new_step_starts :: "kv_manager \<Rightarrow> kv_manager" where
  "km_new_step_starts km = km\<lparr>km_coordinator := co_new_step_starts (km_coordinator km)\<rparr>"

section \<open>Statistics: the aggregates are the sums over the queue\<close>

definition metrics_inv :: "caching_metrics \<Rightarrow> bool" where
  "metrics_inv c \<longleftrightarrow> aggregated_requests c = sum_list (map fst (query_queue c)) \<and>
     aggregated_query_total c = sum_list (map (fst \<circ> snd) (query_queue c)) \<and>
     aggregated_query_hit c = sum_list (map (snd \<circ> snd) (query_queue c))"

lemma drop_oldest_inv:
  assumes "metrics_inv c"
  shows "metrics_inv (drop_oldest c) \<and> (\<exists>k. query_queue (drop_oldest c) = drop k (query_queue c)) \<and>
     (query_queue c \<noteq> [] \<longrightarrow> query_queue (drop_oldest c) \<noteq> []) \<and>
     (length (query_queue (drop_oldest c)) \<le> 1 \<or> aggregated_requests (drop_oldest c) \<le> max_recent_requests c)"
  using assms
proof (induction c rule: drop_oldest.induct)
  case (1 c)
  show ?case
  proof (cases "length (query_queue c) > 1 \<and> aggregated_requests c > max_recent_requests c")
    case False
    then have "drop_oldest c = c" by (subst drop_oldest.simps) auto
    then show ?thesis using False 1(2) by (auto intro: exI [of _ 0])
  next
    case True
    obtain r q h where x: "hd (query_queue c) = (r, q, h)" by (metis prod_cases3)
    let ?c = "c\<lparr>query_queue := tl (query_queue c), aggregated_requests := aggregated_requests c - r,
      aggregated_query_total := aggregated_query_total c - q, aggregated_query_hit := aggregated_query_hit c - h\<rparr>"
    have q: "query_queue c = (r, q, h) # tl (query_queue c)" "tl (query_queue c) \<noteq> []"
      using True x by (cases "query_queue c"; auto)+
    have "metrics_inv ?c" using 1(2) q(1) by (cases "query_queue c") (auto simp: metrics_inv_def)
    note IH = 1(1) [OF True x [symmetric] refl this]
    have d: "drop_oldest c = drop_oldest ?c" using True x by (subst drop_oldest.simps) simp
    obtain k where "query_queue (drop_oldest ?c) = drop k (tl (query_queue c))" using IH by auto
    then have "query_queue (drop_oldest c) = drop (Suc k) (query_queue c)" unfolding d by (simp add: drop_Suc)
    then show ?thesis using IH q(2) unfolding d by (intro conjI exI [of _ "Suc k"]) simp_all
  qed
qed

section \<open>Allocation of slots\<close>

definition kv_inv :: "kv_manager \<Rightarrow> block_ref multiset \<Rightarrow> bool" where
  "kv_inv km R \<longleftrightarrow> coord_inv (mgrs (km_coordinator km)) (km_pool km) R"

text \<open>The two situations in which the scheduler asks for slots: the request enters with prefix hits
  or externally computed tokens, or it goes on with the blocks it has.\<close>

definition slots_ready :: "req_id \<Rightarrow> kv_blocks \<Rightarrow> int \<Rightarrow> int \<Rightarrow> manager list \<Rightarrow> block_pool \<Rightarrow> bool" where
  "slots_ready rid ncbs nlocal nexternal ms p \<longleftrightarrow>
     (if \<not> is_empty_blocks ncbs \<or> nexternal > 0
      then idx_all (\<lambda>i m. enters rid m \<and> hits_valid ncbs nlocal i m p) 0 ms
      else length ncbs = length ms \<and> list_all (goes_on rid (nlocal + nexternal)) ms)"

text \<open>What the request's table of one group is afterwards.\<close>

definition slots_post :: "req_id \<Rightarrow> int \<Rightarrow> nat \<Rightarrow> manager \<Rightarrow> block_ref list \<Rightarrow> manager \<Rightarrow> bool" where
  "slots_post rid n i m new m' \<longleftrightarrow> same_mgr m m' \<and> (\<forall>r. r \<noteq> rid \<longrightarrow> table_of m' r = table_of m r) \<and>
     (\<exists>old. table_of m' rid = old @ new) \<and> cdiv n (block_size m) \<le> int (length (table_of m' rid))"

lemma empty_blocks_nth: "is_empty_blocks bs \<Longrightarrow> i < length bs \<Longrightarrow> bs ! i = []"
  by (auto simp: is_empty_blocks_def list_all_length)

lemma slots_countable:
  assumes "slots_ready rid ncbs nlocal nexternal ms p" "list_all attention_group ms"
  shows "idx_all (countable_at rid ncbs) 0 ms"
  using assms empty_blocks_nth [of ncbs]
  by (auto simp: slots_ready_def idx_all_nth list_all_length countable_at_def attention_group_def enters_def hits_valid_def
      split: if_splits)

lemma attention_same: "same_mgr m m' \<Longrightarrow> attention_group m \<Longrightarrow> attention_group m'"
  by (simp add: same_mgr_def attention_group_def)

lemma idx_attention:
  assumes "idx_all3 P 0 ms xs ms'" "list_all attention_group ms" "\<And>k m x m'. P k m x m' \<Longrightarrow> same_mgr m m'"
  shows "list_all attention_group ms'"
proof -
  have "idx_all (\<lambda>_. attention_group) 0 ms'"
    by (rule idx_all_post [OF assms(1) idx_all_list_all [OF assms(2)]]) (use assms(3) attention_same in blast)
  then show ?thesis by (simp add: idx_all_nth list_all_length)
qed

text \<open>Entering: hits, then allocation.\<close>

lemma slots_enter:
  assumes inv: "coord_inv (mgrs c) (c_block_pool c) R" and ag: "list_all attention_group (mgrs c)"
    and tok: "0 \<le> nlocal" "0 \<le> nexternal" "nlocal + nexternal \<le> n"
    and rdy: "idx_all (\<lambda>i m. enters rid m \<and> hits_valid ncbs nlocal i m (c_block_pool c)) 0 (mgrs c)"
    and cnt: "idx_sum (\<lambda>k m. count_of rid ncbs n (nlocal + nexternal) k m (c_block_pool c)) 0 (mgrs c) \<le> get_num_free_blocks (c_block_pool c)"
  shows "\<exists>c3 xs ms p. co_allocate_new_computed_blocks rid ncbs nlocal nexternal c = Inr c3 \<and>
     co_allocate_new_blocks rid n main nenc c3 = Inr (xs, with_state ms p c) \<and> coord_inv ms p R \<and>
     idx_all3 (slots_post rid n) 0 (mgrs c) xs ms \<and> same_config (c_block_pool c) p"
proof -
  let ?p = "c_block_pool c"
  let ?hits = "idx_sum (\<lambda>i m. hit_cost ncbs nlocal nexternal i m ?p) 0 (mgrs c)"
  have split: "?hits + idx_sum (\<lambda>i m. alloc_cost rid n i m p1) 0 ms1 \<le> get_num_free_blocks ?p"
    if "idx_all3 (hit_post rid ncbs nlocal nexternal) 0 (mgrs c) xs1 ms1" for xs1 ms1 p1
  proof -
    have "?hits + idx_sum (\<lambda>i m. alloc_cost rid n i m p1) 0 ms1 \<le>
        idx_sum (\<lambda>k m. count_of rid ncbs n (nlocal + nexternal) k m ?p) 0 (mgrs c)"
      by (rule idx_sum_post [OF that _ rdy]) (auto intro: hit_alloc_le_count coord_pos [OF inv] tok)
    then show ?thesis using cnt by simp
  qed
  have "?hits \<le> get_num_free_blocks ?p"
  proof -
    have "idx_sum (\<lambda>i m. hit_cost ncbs nlocal nexternal i m ?p) 0 (mgrs c) \<le>
        idx_sum (\<lambda>k m. count_of rid ncbs n (nlocal + nexternal) k m ?p) 0 (mgrs c)"
      by (rule hit_le_count [OF rdy]) (auto intro: coord_pos [OF inv] tok)
    then show ?thesis using cnt by simp
  qed
  from co_hits_ok [OF inv tok(1,2) rdy this] obtain xs1 ms1 p1 where
    h: "co_allocate_new_computed_blocks rid ncbs nlocal nexternal c = Inr (with_state ms1 p1 c)" "coord_inv ms1 p1 R"
      "idx_all3 (hit_post rid ncbs nlocal nexternal) 0 (mgrs c) xs1 ms1" "same_config ?p p1"
      "get_num_free_blocks ?p - ?hits \<le> get_num_free_blocks p1" by (elim exE conjE) (rule that)
  have "list_all attention_group ms1" by (rule idx_attention [OF h(3) ag]) (simp add: hit_post_def)
  moreover have "idx_sum (\<lambda>i m. alloc_cost rid n i m p1) 0 ms1 \<le> get_num_free_blocks p1" using split [OF h(3), of p1] h(5) by linarith
  ultimately obtain xs ms p where
    a: "co_allocate_new_blocks rid n main nenc (with_state ms1 p1 c) = Inr (xs, with_state ms p c)" "coord_inv ms p R"
      "idx_all3 (alloc_post rid n) 0 ms1 xs ms" "same_config p1 p"
    using co_alloc_ok [of "with_state ms1 p1 c" R rid n main nenc] h(2) by auto
  have "idx_all3 (slots_post rid n) 0 (mgrs c) xs ms"
    using h(3) a(3) by (auto simp: idx_all3_nth slots_post_def hit_post_def alloc_post_def same_mgr_def)
  then show ?thesis using h(1) a same_config_trans [OF h(4) a(4)] by blast
qed

text \<open>Going on: allocation only.\<close>

lemma slots_go_on:
  assumes inv: "coord_inv (mgrs c) (c_block_pool c) R" and ag: "list_all attention_group (mgrs c)" "0 \<le> tot"
    and rdy: "list_all (goes_on rid tot) (mgrs c)" "is_empty_blocks ncbs" "length ncbs = length (mgrs c)"
    and cnt: "idx_sum (\<lambda>k m. count_of rid ncbs n tot k m (c_block_pool c)) 0 (mgrs c) \<le> get_num_free_blocks (c_block_pool c)"
  shows "\<exists>xs ms p. co_allocate_new_blocks rid n main nenc c = Inr (xs, with_state ms p c) \<and> coord_inv ms p R \<and>
     idx_all3 (slots_post rid n) 0 (mgrs c) xs ms \<and> same_config (c_block_pool c) p"
proof -
  let ?p = "c_block_pool c"
  have "idx_sum (\<lambda>i m. alloc_cost rid n i m ?p) i ms \<le> idx_sum (\<lambda>k m. count_of rid ncbs n tot k m ?p) i ms"
    if "i + length ms \<le> length ncbs" "list_all (goes_on rid tot) ms" "\<forall>m\<in>set ms. 0 < block_size m" for i ms
    using that
  proof (induction ms arbitrary: i)
    case (Cons m ms)
    have "ncbs ! i = []" using Cons.prems(1) empty_blocks_nth [OF rdy(2)] by simp
    then have "alloc_cost rid n i m ?p \<le> count_of rid ncbs n tot i m ?p"
      using Cons.prems(2,3) ag(2) by (intro alloc_le_count) auto
    moreover have "idx_sum (\<lambda>i m. alloc_cost rid n i m ?p) (Suc i) ms \<le> idx_sum (\<lambda>k m. count_of rid ncbs n tot k m ?p) (Suc i) ms"
      using Cons.IH [of "Suc i"] Cons.prems by simp
    ultimately show ?case by simp
  qed simp
  from this [of 0 "mgrs c"] have "idx_sum (\<lambda>i m. alloc_cost rid n i m ?p) 0 (mgrs c) \<le> get_num_free_blocks ?p"
    using cnt rdy(1,3) coord_pos [OF inv] by simp
  from co_alloc_ok [OF inv ag(1) this, of main nenc] obtain xs ms p where
    a: "co_allocate_new_blocks rid n main nenc c = Inr (xs, with_state ms p c)" "coord_inv ms p R"
      "idx_all3 (alloc_post rid n) 0 (mgrs c) xs ms" "same_config ?p p" by (elim exE conjE) (rule that)
  have "idx_all3 (slots_post rid n) 0 (mgrs c) xs ms"
    using a(3) by (auto simp: idx_all3_nth slots_post_def alloc_post_def)
  then show ?thesis using a by blast
qed

text \<open>Readiness survives the removal of skipped blocks, which keeps the lengths of the tables.\<close>

lemma slots_ready_skip:
  assumes "slots_ready rid ncbs nlocal nexternal ms p" "idx_all3 (skip_post rid tot) 0 ms xs ms'" "same_config p p'"
  shows "slots_ready rid ncbs nlocal nexternal ms' p'"
proof -
  have rb: "real_block p' = real_block p" using assms(3) by (rule real_block_config)
  have len: "length ms' = length ms" using assms(2) by (simp add: idx_all3_nth)
  have e: "enters rid m' \<and> hits_valid ncbs nlocal k m' p'"
    if "enters rid m \<and> hits_valid ncbs nlocal k m p" "skip_post rid tot k m x m'" for k m x m'
    using that rb by (auto simp: enters_def hits_valid_def skip_post_def same_mgr_def)
  have g: "goes_on rid (nlocal + nexternal) m'"
    if "goes_on rid (nlocal + nexternal) m" "skip_post rid tot k m x m'" for k m x m'
    using that by (auto simp: goes_on_def skip_post_def same_mgr_def)
  show ?thesis
  proof (cases "\<not> is_empty_blocks ncbs \<or> nexternal > 0")
    case True
    then show ?thesis using assms(1) idx_all_post [OF assms(2) _ e] by (auto simp: slots_ready_def)
  next
    case False
    then have "idx_all (\<lambda>_. goes_on rid (nlocal + nexternal)) 0 ms"
      using assms(1) by (intro idx_all_list_all) (auto simp: slots_ready_def)
    from idx_all_post [OF assms(2) this g] have "list_all (goes_on rid (nlocal + nexternal)) ms'"
      by (simp add: idx_all_nth list_all_length)
    then show ?thesis using False assms(1) len by (auto simp: slots_ready_def)
  qed
qed

text \<open>The demand of a request for slots: the blocks its groups ask for.\<close>

definition slots_demand :: "req_id \<Rightarrow> kv_blocks \<Rightarrow> int \<Rightarrow> int \<Rightarrow> kv_manager \<Rightarrow> int" where
  "slots_demand rid ncbs n tot km = idx_sum (\<lambda>i m. count_of rid ncbs n tot i m (km_pool km)) 0 (mgrs (km_coordinator km))"

text \<open>What the scheduler guarantees when it calls \<^verbatim>\<open>allocate_slots\<close>.\<close>

definition slots_call :: "request \<Rightarrow> int \<Rightarrow> int \<Rightarrow> kv_blocks \<Rightarrow> int \<Rightarrow> int \<Rightarrow> kv_manager \<Rightarrow> bool" where
  "slots_call r num_new_tokens num_new_computed_tokens ncbs num_lookahead_tokens nexternal km \<longleftrightarrow>
     list_all attention_group (mgrs (km_coordinator km)) \<and> 0 \<le> num_new_tokens \<and> 0 \<le> num_lookahead_tokens \<and>
     0 \<le> num_computed_tokens r + num_new_computed_tokens \<and> 0 \<le> nexternal \<and> (num_new_tokens \<noteq> 0 \<or> nexternal \<noteq> 0) \<and>
     num_computed_tokens r + num_new_computed_tokens + nexternal \<le> km_max_model_len km \<and>
     slots_ready (request_id r) ncbs (num_computed_tokens r + num_new_computed_tokens) nexternal
       (mgrs (km_coordinator km)) (km_pool km)"

definition slots_needed :: "request \<Rightarrow> int \<Rightarrow> int \<Rightarrow> int \<Rightarrow> int \<Rightarrow> kv_manager \<Rightarrow> int" where
  "slots_needed r num_new_tokens num_new_computed_tokens num_lookahead_tokens nexternal km =
     min (num_computed_tokens r + num_new_computed_tokens + nexternal + num_new_tokens + num_lookahead_tokens) (km_max_model_len km)"

lemma allocate_slots_stages:
  fixes r :: request and km :: kv_manager and nc :: "kv_blocks option"
  assumes inv: "kv_inv km R"
    and ncbs: "ncbs = (case nc of Some bs \<Rightarrow> bs | None \<Rightarrow> empty_kv_cache_blocks km)"
    and call: "slots_call r nnew ncomp ncbs look nexternal km"
  defines "n \<equiv> slots_needed r nnew ncomp look nexternal km"
  shows "\<exists>c2. coord_inv (mgrs c2) (c_block_pool c2) R \<and> c_kind c2 = c_kind (km_coordinator km) \<and>
     same_config (km_pool km) (c_block_pool c2) \<and> list_all attention_group (mgrs c2) \<and>
     (\<exists>us. idx_all3 (skip_post (request_id r) (num_computed_tokens r + ncomp + nexternal)) 0 (mgrs (km_coordinator km)) us (mgrs c2)) \<and>
     (if slots_demand (request_id r) ncbs n (num_computed_tokens r + ncomp + nexternal) (km\<lparr>km_coordinator := c2\<rparr>)
         > get_num_free_blocks (c_block_pool c2)
      then allocate_slots env r nnew ncomp nc look nexternal delay nenc km = Inr (None, km\<lparr>km_coordinator := c2\<rparr>, r)
      else \<exists>xs c4. coord_inv (mgrs c4) (c_block_pool c4) R \<and> same_config (km_pool km) (c_block_pool c4) \<and>
        idx_all3 (slots_post (request_id r) n) 0 (mgrs c2) xs (mgrs c4) \<and>
        allocate_slots env r nnew ncomp nc look nexternal delay nenc km =
          (if \<not> km_enable_caching km \<or> delay
           then Inr (Some (create_kv_cache_blocks km xs), km\<lparr>km_coordinator := c4\<rparr>, r)
           else bindR (co_cache_blocks env r (min (num_computed_tokens r + ncomp + nexternal + nnew) (num_tokens r)) c4)
                  (\<lambda>(c5, r'). Inr (Some (create_kv_cache_blocks km xs), km\<lparr>km_coordinator := c5\<rparr>, r'))))"
proof -
  let ?c = "km_coordinator km" and ?rid = "request_id r" and ?nl = "num_computed_tokens r + ncomp"
  let ?tot = "?nl + nexternal"
  have t: "0 \<le> ?nl" "0 \<le> nexternal" "min ?tot (km_max_model_len km) = ?tot" "\<not> (nnew = 0 \<and> nexternal = 0)" "?tot \<le> n"
    "n = min (?tot + nnew + look) (km_max_model_len km)"
    using call by (auto simp: slots_call_def n_def slots_needed_def)
  have ci: "coord_inv (mgrs ?c) (c_block_pool ?c) R" using inv by (simp add: kv_inv_def km_pool_def)
  have ag: "list_all attention_group (mgrs ?c)" using call by (simp add: slots_call_def)
  from co_skip_ok [OF ci ag, of ?rid ?tot] obtain us ms2 p2 where
    s: "co_remove_skipped_blocks ?rid ?tot ?c = Inr (with_state ms2 p2 ?c)" "coord_inv ms2 p2 R"
      "idx_all3 (skip_post ?rid ?tot) 0 (mgrs ?c) us ms2" "same_config (c_block_pool ?c) p2" by (elim exE conjE) (rule that)
  let ?c2 = "with_state ms2 p2 ?c"
  have ag2: "list_all attention_group ms2" by (rule idx_attention [OF s(3) ag]) (simp add: skip_post_def)
  have rdy: "slots_ready ?rid ncbs ?nl nexternal ms2 p2"
    by (rule slots_ready_skip [OF _ s(3,4)]) (use call in \<open>simp add: slots_call_def km_pool_def\<close>)
  let ?k = "idx_sum (\<lambda>k m. count_of ?rid ncbs n ?tot k m p2) 0 ms2"
  have cnt: "co_get_num_blocks_to_allocate ?rid n ncbs nenc ?tot (?tot + nnew) ?c2 = Inr (?k, ?c2)"
    using co_count_ok [of ?rid ncbs ?c2] slots_countable [OF rdy ag2] by simp
  have dem: "slots_demand ?rid ncbs n ?tot (km\<lparr>km_coordinator := ?c2\<rparr>) = ?k" by (simp add: slots_demand_def km_pool_def)
  let ?rest = "\<lambda>xs c4. if \<not> km_enable_caching km \<or> delay
           then Inr (Some (create_kv_cache_blocks km xs), km\<lparr>km_coordinator := c4\<rparr>, r)
           else bindR (co_cache_blocks env r (min (?tot + nnew) (num_tokens r)) c4)
                  (\<lambda>(c5, r'). Inr (Some (create_kv_cache_blocks km xs), km\<lparr>km_coordinator := c5\<rparr>, r'))"
  have run: "allocate_slots env r nnew ncomp nc look nexternal delay nenc km =
      (if ?k > get_num_free_blocks p2 then Inr (None, km\<lparr>km_coordinator := ?c2\<rparr>, r)
       else bindR (if \<not> is_empty_blocks ncbs \<or> nexternal > 0 then co_allocate_new_computed_blocks ?rid ncbs ?nl nexternal ?c2 else Inr ?c2)
              (\<lambda>c3. bindR (co_allocate_new_blocks ?rid n (?tot + nnew) nenc c3) (\<lambda>(xs, c4). ?rest xs c4)))"
    unfolding allocate_slots_def if_not_P [OF t(4)] Let_def ncbs [symmetric] t(3) t(6) [symmetric] s(1) bindR_Inr cnt prod.case
    by simp
  have post: "coord_inv (mgrs ?c2) (c_block_pool ?c2) R" "same_config (km_pool km) (c_block_pool ?c2)"
    using s by (simp_all add: km_pool_def)
  show ?thesis
  proof (cases "?k > get_num_free_blocks p2")
    case True
    then show ?thesis using post ag2 s(3) run dem by (intro exI [of _ ?c2]) auto
  next
    case False
    have "\<exists>c3 xs ms p. (if \<not> is_empty_blocks ncbs \<or> nexternal > 0 then co_allocate_new_computed_blocks ?rid ncbs ?nl nexternal ?c2 else Inr ?c2) = Inr c3 \<and>
        co_allocate_new_blocks ?rid n (?tot + nnew) nenc c3 = Inr (xs, with_state ms p ?c2) \<and> coord_inv ms p R \<and>
        idx_all3 (slots_post ?rid n) 0 ms2 xs ms \<and> same_config p2 p"
    proof (cases "\<not> is_empty_blocks ncbs \<or> nexternal > 0")
      case True
      then show ?thesis
        using slots_enter [of ?c2 R ?nl nexternal n ?rid ncbs "?tot + nnew" nenc] s(2) ag2 t rdy False by (simp add: slots_ready_def)
    next
      case nh: False
      then show ?thesis
        using slots_go_on [of ?c2 R ?tot ?rid ncbs n "?tot + nnew" nenc] s(2) ag2 t rdy False by (simp add: slots_ready_def)
    qed
    then obtain c3 xs ms p where
      f: "(if \<not> is_empty_blocks ncbs \<or> nexternal > 0 then co_allocate_new_computed_blocks ?rid ncbs ?nl nexternal ?c2 else Inr ?c2) = Inr c3"
        "co_allocate_new_blocks ?rid n (?tot + nnew) nenc c3 = Inr (xs, with_state ms p ?c2)" "coord_inv ms p R"
        "idx_all3 (slots_post ?rid n) 0 ms2 xs ms" "same_config p2 p" by (elim exE conjE) (rule that)
    have "same_config (km_pool km) p" using same_config_trans [OF s(4) f(5)] by (simp add: km_pool_def)
    then have "\<exists>xs c4. coord_inv (mgrs c4) (c_block_pool c4) R \<and> same_config (km_pool km) (c_block_pool c4) \<and>
        idx_all3 (slots_post ?rid n) 0 (mgrs ?c2) xs (mgrs c4) \<and>
        allocate_slots env r nnew ncomp nc look nexternal delay nenc km = ?rest xs c4"
      using f(3,4) run False unfolding f(1) bindR_Inr f(2) prod.case by (intro exI [of _ xs] exI [of _ "with_state ms p ?c2"]) simp
    then show ?thesis using post ag2 s(3) dem False by (intro exI [of _ ?c2]) auto
  qed
qed

section \<open>Properties\<close>

text \<open>The tokens whose full blocks are cached in the same call.\<close>

definition slots_end :: "request \<Rightarrow> int \<Rightarrow> int \<Rightarrow> int \<Rightarrow> int" where
  "slots_end r num_new_tokens num_new_computed_tokens nexternal =
     min (num_computed_tokens r + num_new_computed_tokens + nexternal + num_new_tokens) (num_tokens r)"

lemma cached_state:
  assumes "kv_inv km R" "enable_caching (km_pool km)" "list_all attention_group (mgrs (km_coordinator km))"
    and "co_cache_blocks env r n (km_coordinator km) = Inr (c, r')"
  shows "kv_inv (km\<lparr>km_coordinator := c\<rparr>) R \<and>
     list_all2 (\<lambda>m m'. table_of m' = table_of m \<and> same_mgr m m') (mgrs (km_coordinator km)) (mgrs c)"
  using co_cache_blocks_keeps [OF assms(4)] assms(1-3) by (simp add: kv_inv_def km_pool_def)

text \<open>(C22) The outcome of \<^verbatim>\<open>allocate_slots\<close> for attention groups (full, sliding window, chunked;
  no Mamba and no cross attention group) in a call the scheduler can make (\<open>slots_call\<close>), with
  caching off, delayed or on. First the skipped blocks of this request are released. If the groups
  together then ask for more blocks than are free, the call returns None and changes nothing more.
  Otherwise it decides to return the new blocks: the table of every group ends with them and covers
  all tokens that need a slot, the tables of other requests are unchanged and the reference
  accounting is kept. With caching off or delayed this is the result, so the call never raises. With
  caching on the full blocks are cached in that state, which is the only step that can raise; it
  does not raise, keeps the tables and the accounting, and leaves every full block with a hash when
  the request has hashes for its full blocks, the uncached full blocks carry no hash yet and no two
  groups share one (\<open>all_cacheable\<close>).\<close>

theorem allocate_slots_outcome:
  assumes "kv_inv km R" "ncbs = (case nc of Some bs \<Rightarrow> bs | None \<Rightarrow> empty_kv_cache_blocks km)"
    and "slots_call r nnew ncomp ncbs look nexternal km"
  shows "\<exists>res km2 km4. kv_inv km2 R \<and> kv_inv km4 R \<and> same_config (km_pool km) (km_pool km4) \<and>
     (\<exists>us. idx_all3 (skip_post (request_id r) (num_computed_tokens r + ncomp + nexternal)) 0
        (mgrs (km_coordinator km)) us (mgrs (km_coordinator km2))) \<and>
     (if get_num_free_blocks (km_pool km2) <
         slots_demand (request_id r) ncbs (slots_needed r nnew ncomp look nexternal km) (num_computed_tokens r + ncomp + nexternal) km2
      then res = None \<and> km4 = km2
      else \<exists>xs. res = Some (create_kv_cache_blocks km xs) \<and>
        idx_all3 (slots_post (request_id r) (slots_needed r nnew ncomp look nexternal km)) 0
          (mgrs (km_coordinator km2)) xs (mgrs (km_coordinator km4))) \<and>
     (if res = None \<or> \<not> km_enable_caching km \<or> delay
      then allocate_slots env r nnew ncomp nc look nexternal delay nenc km = Inr (res, km4, r)
      else allocate_slots env r nnew ncomp nc look nexternal delay nenc km =
             bindR (km_cache_blocks env r (slots_end r nnew ncomp nexternal) km4) (\<lambda>(km', r'). Inr (res, km', r')) \<and>
           (enable_caching (km_pool km) \<and>
            all_cacheable r (slots_end r nnew ncomp nexternal) (km_pool km4) (mgrs (km_coordinator km4)) \<longrightarrow>
            (\<exists>km' r'. allocate_slots env r nnew ncomp nc look nexternal delay nenc km = Inr (res, km', r') \<and> kv_inv km' R \<and>
               list_all2 (\<lambda>m m'. table_of m' = table_of m \<and> same_mgr m m') (mgrs (km_coordinator km4)) (mgrs (km_coordinator km')) \<and>
               (\<forall>m\<in>set (mgrs (km_coordinator km4)). \<forall>b\<in>set (uncached r (slots_end r nnew ncomp nexternal) m).
                  b \<noteq> Blk 0 \<longrightarrow> block_hash (blocks (km_pool km') b) \<noteq> None))))"
proof -
  let ?n = "slots_needed r nnew ncomp look nexternal km" and ?tot = "num_computed_tokens r + ncomp + nexternal"
  let ?run = "allocate_slots env r nnew ncomp nc look nexternal delay nenc km" and ?e = "slots_end r nnew ncomp nexternal"
  from allocate_slots_stages [OF assms(1-3), of env delay nenc] obtain c2 us where
    c2: "coord_inv (mgrs c2) (c_block_pool c2) R" "same_config (km_pool km) (c_block_pool c2)" "list_all attention_group (mgrs c2)"
      "idx_all3 (skip_post (request_id r) ?tot) 0 (mgrs (km_coordinator km)) us (mgrs c2)"
      "if slots_demand (request_id r) ncbs ?n ?tot (km\<lparr>km_coordinator := c2\<rparr>) > get_num_free_blocks (c_block_pool c2)
       then ?run = Inr (None, km\<lparr>km_coordinator := c2\<rparr>, r)
       else \<exists>xs c4. coord_inv (mgrs c4) (c_block_pool c4) R \<and> same_config (km_pool km) (c_block_pool c4) \<and>
         idx_all3 (slots_post (request_id r) ?n) 0 (mgrs c2) xs (mgrs c4) \<and>
         ?run = (if \<not> km_enable_caching km \<or> delay
           then Inr (Some (create_kv_cache_blocks km xs), km\<lparr>km_coordinator := c4\<rparr>, r)
           else bindR (co_cache_blocks env r ?e c4)
                  (\<lambda>(c5, r'). Inr (Some (create_kv_cache_blocks km xs), km\<lparr>km_coordinator := c5\<rparr>, r')))"
    unfolding slots_end_def by blast
  let ?km2 = "km\<lparr>km_coordinator := c2\<rparr>"
  have k2: "kv_inv ?km2 R" using c2(1) by (simp add: kv_inv_def km_pool_def)
  show ?thesis
  proof (cases "get_num_free_blocks (c_block_pool c2) < slots_demand (request_id r) ncbs ?n ?tot ?km2")
    case True
    then show ?thesis using c2 k2 by (intro exI [of _ None] exI [of _ ?km2]) (auto simp: km_pool_def)
  next
    case False
    then obtain xs c4 where c4: "coord_inv (mgrs c4) (c_block_pool c4) R" "same_config (km_pool km) (c_block_pool c4)"
      "idx_all3 (slots_post (request_id r) ?n) 0 (mgrs c2) xs (mgrs c4)"
      "?run = (if \<not> km_enable_caching km \<or> delay
           then Inr (Some (create_kv_cache_blocks km xs), km\<lparr>km_coordinator := c4\<rparr>, r)
           else bindR (co_cache_blocks env r ?e c4)
                  (\<lambda>(c5, r'). Inr (Some (create_kv_cache_blocks km xs), km\<lparr>km_coordinator := c5\<rparr>, r')))" using c2(5) by auto
    let ?km4 = "km\<lparr>km_coordinator := c4\<rparr>" and ?res = "Some (create_kv_cache_blocks km xs)"
    have k4: "kv_inv ?km4 R" using c4(1) by (simp add: kv_inv_def km_pool_def)
    have ag4: "list_all attention_group (mgrs c4)" by (rule idx_attention [OF c4(3) c2(3)]) (simp add: slots_post_def)
    have cached: "\<exists>km' r'. ?run = Inr (?res, km', r') \<and> kv_inv km' R \<and>
        list_all2 (\<lambda>m m'. table_of m' = table_of m \<and> same_mgr m m') (mgrs c4) (mgrs (km_coordinator km')) \<and>
        (\<forall>m\<in>set (mgrs c4). \<forall>b\<in>set (uncached r ?e m). b \<noteq> Blk 0 \<longrightarrow> block_hash (blocks (km_pool km') b) \<noteq> None)"
      if nd: "\<not> (\<not> km_enable_caching km \<or> delay)" and ok: "enable_caching (km_pool km)" "all_cacheable r ?e (c_block_pool c4) (mgrs c4)"
    proof -
      have e4: "enable_caching (c_block_pool c4)" using ok(1) c4(2) by (simp add: same_config_def)
      from co_cache_blocks_ok [OF c4(1) e4 ag4 ok(2), of env] obtain c5 r' where
        c5: "co_cache_blocks env r ?e c4 = Inr (c5, r')"
          "\<forall>m\<in>set (mgrs c4). \<forall>b\<in>set (uncached r ?e m). b \<noteq> Blk 0 \<longrightarrow> block_hash (blocks (c_block_pool c5) b) \<noteq> None" by blast
      have "?run = Inr (?res, km\<lparr>km_coordinator := c5\<rparr>, r')" using c4(4) c5(1) unfolding if_not_P [OF nd] by simp
      then show ?thesis
        using cached_state [OF k4, of env r ?e c5 r'] e4 ag4 c5 by (intro exI [of _ "km\<lparr>km_coordinator := c5\<rparr>"] exI [of _ r']) (simp add: km_pool_def)
    qed
    have eq: "if \<not> km_enable_caching km \<or> delay then ?run = Inr (?res, ?km4, r)
        else ?run = bindR (km_cache_blocks env r ?e ?km4) (\<lambda>(km', r'). Inr (?res, km', r'))"
      using c4(4) by (cases "co_cache_blocks env r ?e c4") (auto simp: km_cache_blocks_def)
    show ?thesis
    proof (rule exI [of _ ?res], rule exI [of _ ?km2], rule exI [of _ ?km4], intro conjI)
      show "same_config (km_pool km) (km_pool ?km4)" using c4(2) by (simp add: km_pool_def)
      show "\<exists>us. idx_all3 (skip_post (request_id r) ?tot) 0 (mgrs (km_coordinator km)) us (mgrs (km_coordinator ?km2))"
        using c2(4) by auto
    qed (use k2 k4 c4(3) False eq cached in \<open>auto simp: km_pool_def\<close>)
  qed
qed

definition sample_kv_manager :: "block_pool \<Rightarrow> kv_manager" where
  "sample_kv_manager p =
     \<lparr>km_max_model_len = 100, km_enable_caching = True, km_use_eagle = False, log_stats = False, km_prefix_cache_stats = None,
      km_coordinator = \<lparr>c_config = \<lparr>num_blocks = 4, kv_cache_tensors = [], kv_cache_groups = [\<lparr>layer_names = [''l''], group_spec = sample_full\<rparr>]\<rparr>,
        c_enable_caching = True, use_eagle = False, c_dcp = 1, c_pcp = 1,
        single_type_managers = [init_manager sample_full p True 0 1 1], c_block_pool = p, c_kind = Unitary 2\<rparr>,
      num_kv_cache_groups = 1\<rparr>"

lemma sample_kv_inv: "pool_rep p fs {#} \<Longrightarrow> kv_inv (sample_kv_manager p) {#}"
  using sample_manager [of p fs] by (simp add: kv_inv_def sample_kv_manager_def coord_inv_Cons km_pool_def all_held_def)

text \<open>A pool of five usable blocks and two requests with a common prompt: the first is cached, the
  second enters with two hits, two externally computed tokens and one token to compute.\<close>

definition first_request :: "request res" where
  "first_request = update_block_hashes (Some (ser_env, 2)) ((sample_request ''a'' [5, 6, 7, 8])\<lparr>num_computed_tokens := 0\<rparr>)"

definition second_request :: "request res" where
  "second_request = update_block_hashes (Some (ser_env, 2)) ((sample_request ''b'' [5, 6, 7, 8, 9, 10, 11])\<lparr>num_computed_tokens := 0\<rparr>)"

definition first_call :: "block_pool \<Rightarrow> request \<Rightarrow> (kv_blocks option \<times> kv_manager \<times> request) res" where
  "first_call p a = allocate_slots ser_env a 4 0 None 0 0 False 0 (sample_kv_manager p)"

definition second_call :: "kv_manager \<Rightarrow> request \<Rightarrow> kv_blocks \<Rightarrow> (kv_blocks option \<times> kv_manager \<times> request) res" where
  "second_call km b hits = allocate_slots ser_env b 1 4 (Some hits) 0 2 False 0 km"

lemma first_slots_call:
  assumes "request_id a = ''a''" "num_computed_tokens a = 0"
  shows "slots_call a 4 0 [[]] 0 0 (sample_kv_manager p)"
  using assms
  by (simp add: slots_call_def sample_kv_manager_def attention_group_def init_manager_def sample_full_def sample_attn_def
      window_ok_def slots_ready_def is_empty_blocks_def goes_on_def km_pool_def)

lemma real_block_code [code]: "real_block p (Blk i) = (0 < i \<and> i < num_gpu_blocks p)"
  "real_block p FakeHead = False" "real_block p FakeTail = False"
  by (auto simp: real_block_def)

lemma two_calls_value:
  "case bindR (new_block_pool 6 True 2 False False) (\<lambda>p. bindR first_request (\<lambda>a. bindR second_request (\<lambda>b.
      bindR (first_call p a) (\<lambda>(res1, km1, a'). bindR (get_computed_blocks b km1) (\<lambda>(hits, n, km2).
      bindR (second_call km1 b hits) (\<lambda>(res2, km3, b'). Inr (p, a, b, res1, km1, a', hits, n, km2, res2, km3, b'))))))) of
     Inl e \<Rightarrow> False
   | Inr (p, a, b, res1, km1, a', hits, n, km2, res2, km3, b') \<Rightarrow>
       request_id a = ''a'' \<and> num_computed_tokens a = 0 \<and> hits = [[Blk 1, Blk 2]] \<and> n = 4 \<and>
       res1 = Some [[Blk 1, Blk 2]] \<and> res2 = Some [[Blk 4]] \<and> slots_call b 1 4 hits 0 2 km1 \<and> enable_caching (km_pool km1) \<and>
       map (\<lambda>m. table_of m ''b'') (mgrs (km_coordinator km3)) = [[Blk 1, Blk 2, Blk 3, Blk 4]] \<and>
       map (\<lambda>b. ref_cnt (blocks (km_pool km3) b)) [Blk 1, Blk 2, Blk 3, Blk 4] = [2, 2, 1, 1] \<and>
       block_hash (blocks (km_pool km1) (Blk 2)) \<noteq> None \<and>
       block_hash (blocks (km_pool km3) (Blk 3)) \<noteq> None \<and> block_hash (blocks (km_pool km3) (Blk 4)) = None"
  by code_simp

lemma two_calls:
  obtains p a b res1 km1 a' n res2 km3 b' where "new_block_pool 6 True 2 False False = Inr p" "first_request = Inr a"
    "second_request = Inr b" "first_call p a = Inr (res1, km1, a')" "get_computed_blocks b km1 = Inr ([[Blk 1, Blk 2]], 4, n)"
    "second_call km1 b [[Blk 1, Blk 2]] = Inr (res2, km3, b')" "request_id a = ''a''" "num_computed_tokens a = 0"
    "res1 = Some [[Blk 1, Blk 2]]" "res2 = Some [[Blk 4]]" "slots_call b 1 4 [[Blk 1, Blk 2]] 0 2 km1" "enable_caching (km_pool km1)"
    "map (\<lambda>m. table_of m ''b'') (mgrs (km_coordinator km3)) = [[Blk 1, Blk 2, Blk 3, Blk 4]]"
    "map (\<lambda>b. ref_cnt (blocks (km_pool km3) b)) [Blk 1, Blk 2, Blk 3, Blk 4] = [2, 2, 1, 1]"
    "block_hash (blocks (km_pool km1) (Blk 2)) \<noteq> None"
    "block_hash (blocks (km_pool km3) (Blk 3)) \<noteq> None" "block_hash (blocks (km_pool km3) (Blk 4)) = None"
  using two_calls_value by (auto simp: bindR_def split: sum.splits)

lemma sample_pool6:
  assumes "new_block_pool 6 True 2 False False = Inr p"
  shows "pool_rep p [Blk 1, Blk 2, Blk 3, Blk 4, Blk 5] {#}" "enable_caching p"
proof -
  have "\<exists>q. new_block_pool 6 True 2 False False = Inr q \<and> pool_rep q [Blk 1, Blk 2, Blk 3, Blk 4, Blk 5] {#} \<and> enable_caching q"
    using new_block_pool_spec [of 6 True 2 False False] by (auto simp: upt_conv_Cons eval_nat_numeral)
  then show "pool_rep p [Blk 1, Blk 2, Blk 3, Blk 4, Blk 5] {#}" "enable_caching p" using assms by auto
qed

lemma sample_empty_hits: "[[]] = (case None of Some bs \<Rightarrow> bs | None \<Rightarrow> empty_kv_cache_blocks (sample_kv_manager p))"
  by (simp add: empty_kv_cache_blocks_def sample_kv_manager_def)

lemma then_and: "if c then A else B \<and> C \<Longrightarrow> if c then A else B"
  by (cases c) simp_all

theorem allocate_slots_witness:
  "\<exists>p a km4 km1 a'. first_call p a = Inr (Some [[Blk 1, Blk 2]], km1, a') \<and>
     kv_inv km4 {#} \<and> km_cache_blocks ser_env a (slots_end a 4 0 0) km4 = Inr (km1, a') \<and>
     (\<forall>m\<in>set (mgrs (km_coordinator km4)). cdiv 4 (block_size m) \<le> int (length (table_of m ''a''))) \<and>
     block_hash (blocks (km_pool km1) (Blk 2)) \<noteq> None"
proof -
  obtain p a res1 km1 a' where c: "new_block_pool 6 True 2 False False = Inr p" "first_call p a = Inr (res1, km1, a')"
      "request_id a = ''a''" "num_computed_tokens a = 0" "res1 = Some [[Blk 1, Blk 2]]" "block_hash (blocks (km_pool km1) (Blk 2)) \<noteq> None"
    by (rule two_calls)
  have run: "allocate_slots ser_env a 4 0 None 0 0 False 0 (sample_kv_manager p) = Inr (Some [[Blk 1, Blk 2]], km1, a')"
    using c(2,5) by (simp add: first_call_def)
  have n: "slots_needed a 4 0 0 0 (sample_kv_manager p) = 4" using c(4) by (simp add: slots_needed_def sample_kv_manager_def)
  have e: "km_enable_caching (sample_kv_manager p)" by (simp add: sample_kv_manager_def)
  let ?e = "slots_end a 4 0 0" and ?ran = "Inr (Some [[Blk 1, Blk 2]], km1, a') :: (kv_blocks option \<times> kv_manager \<times> request) res"
  from allocate_slots_outcome [OF sample_kv_inv [OF sample_pool6(1) [OF c(1)]] sample_empty_hits first_slots_call [OF c(3,4)],
      of False ser_env 0, unfolded n run c(3)] obtain res km2 km4 where k: "kv_inv km4 {#}"
      "if get_num_free_blocks (km_pool km2) < slots_demand ''a'' [[]] 4 (num_computed_tokens a + 0 + 0) km2
       then res = None \<and> km4 = km2
       else \<exists>xs. res = Some (create_kv_cache_blocks (sample_kv_manager p) xs) \<and>
         idx_all3 (slots_post ''a'' 4) 0 (mgrs (km_coordinator km2)) xs (mgrs (km_coordinator km4))"
      "if res = None \<or> \<not> km_enable_caching (sample_kv_manager p) \<or> False then ?ran = Inr (res, km4, a)
       else ?ran = bindR (km_cache_blocks ser_env a ?e km4) (\<lambda>(km', r'). Inr (res, km', r'))"
    by (elim exE conjE, intro that) (assumption, assumption, erule then_and)
  have r: "res \<noteq> None"
  proof
    assume "res = None"
    with k(3) show False by simp
  qed
  then obtain xs where xs: "idx_all3 (slots_post ''a'' 4) 0 (mgrs (km_coordinator km2)) xs (mgrs (km_coordinator km4))"
    using k(2) by (auto split: if_splits)
  have "km_cache_blocks ser_env a ?e km4 = Inr (km1, a')" using k(3) r e
    by (cases "km_cache_blocks ser_env a ?e km4") auto
  moreover have "\<forall>m\<in>set (mgrs (km_coordinator km4)). cdiv 4 (block_size m) \<le> int (length (table_of m ''a''))"
    using xs by (auto simp: idx_all3_nth slots_post_def same_mgr_def in_set_conv_nth)
  ultimately show ?thesis using c(2,5,6) k(1) by blast
qed

text \<open>(C23) Whatever branch \<^verbatim>\<open>allocate_slots\<close> takes, with prefix hits, external tokens, speculative
  lookahead and caching of the full blocks in the same call, for attention groups (full, sliding
  window, chunked; no Mamba and no cross attention group) in a call the scheduler can make
  (\<open>slots_call\<close>): when it returns, the reference accounting of pool and tables holds again, and when
  it returns blocks, every group's table covers the tokens that need a slot.\<close>

theorem allocate_slots_keeps_invariant:
  assumes "kv_inv km R" "ncbs = (case nc of Some bs \<Rightarrow> bs | None \<Rightarrow> empty_kv_cache_blocks km)"
    and "slots_call r nnew ncomp ncbs look nexternal km" "enable_caching (km_pool km)"
    and "allocate_slots env r nnew ncomp nc look nexternal delay nenc km = Inr (res, km', r')"
  shows "kv_inv km' R \<and> (res \<noteq> None \<longrightarrow> (\<forall>m\<in>set (mgrs (km_coordinator km')).
     cdiv (slots_needed r nnew ncomp look nexternal km) (block_size m) \<le> int (length (table_of m (request_id r)))))"
proof -
  let ?n = "slots_needed r nnew ncomp look nexternal km" and ?tot = "num_computed_tokens r + ncomp + nexternal"
  let ?run = "allocate_slots env r nnew ncomp nc look nexternal delay nenc km"
  from allocate_slots_stages [OF assms(1-3), of env delay nenc] obtain c2 where
    c2: "coord_inv (mgrs c2) (c_block_pool c2) R" "list_all attention_group (mgrs c2)"
      "if slots_demand (request_id r) ncbs ?n ?tot (km\<lparr>km_coordinator := c2\<rparr>) > get_num_free_blocks (c_block_pool c2)
       then ?run = Inr (None, km\<lparr>km_coordinator := c2\<rparr>, r)
       else \<exists>xs c4. coord_inv (mgrs c4) (c_block_pool c4) R \<and> same_config (km_pool km) (c_block_pool c4) \<and>
         idx_all3 (slots_post (request_id r) ?n) 0 (mgrs c2) xs (mgrs c4) \<and>
         ?run = (if \<not> km_enable_caching km \<or> delay
           then Inr (Some (create_kv_cache_blocks km xs), km\<lparr>km_coordinator := c4\<rparr>, r)
           else bindR (co_cache_blocks env r (min (?tot + nnew) (num_tokens r)) c4)
                  (\<lambda>(c5, r'). Inr (Some (create_kv_cache_blocks km xs), km\<lparr>km_coordinator := c5\<rparr>, r')))"
    by blast
  show ?thesis
  proof (cases "slots_demand (request_id r) ncbs ?n ?tot (km\<lparr>km_coordinator := c2\<rparr>) > get_num_free_blocks (c_block_pool c2)")
    case True
    then show ?thesis using c2 assms(5) by (auto simp: kv_inv_def km_pool_def)
  next
    case False
    then obtain xs c4 where c4: "coord_inv (mgrs c4) (c_block_pool c4) R" "same_config (km_pool km) (c_block_pool c4)"
      "idx_all3 (slots_post (request_id r) ?n) 0 (mgrs c2) xs (mgrs c4)"
      "?run = (if \<not> km_enable_caching km \<or> delay
           then Inr (Some (create_kv_cache_blocks km xs), km\<lparr>km_coordinator := c4\<rparr>, r)
           else bindR (co_cache_blocks env r (min (?tot + nnew) (num_tokens r)) c4)
                  (\<lambda>(c5, r'). Inr (Some (create_kv_cache_blocks km xs), km\<lparr>km_coordinator := c5\<rparr>, r')))"
      using c2(3) by auto
    have ag4: "list_all attention_group (mgrs c4)" by (rule idx_attention [OF c4(3) c2(2)]) (simp add: slots_post_def)
    have cov: "cdiv ?n (block_size m) \<le> int (length (table_of m (request_id r)))" if "m \<in> set (mgrs c4)" for m
      using c4(3) that by (auto simp: idx_all3_nth slots_post_def same_mgr_def in_set_conv_nth)
    show ?thesis
    proof (cases "\<not> km_enable_caching km \<or> delay")
      case True
      then show ?thesis using c4(1,4) cov assms(5) by (auto simp: kv_inv_def km_pool_def)
    next
      case nd: False
      then obtain c5 where c5: "co_cache_blocks env r (min (?tot + nnew) (num_tokens r)) c4 = Inr (c5, r')" "km' = km\<lparr>km_coordinator := c5\<rparr>"
        using c4(4) assms(5) by (auto simp: bindR_eq_Inr)
      have "enable_caching (c_block_pool c4)" using c4(2) assms(4) by (simp add: same_config_def)
      from co_cache_blocks_keeps [OF c5(1) c4(1) this ag4] have k: "coord_inv (mgrs c5) (c_block_pool c5) R"
        "list_all2 (\<lambda>m m'. table_of m' = table_of m \<and> same_mgr m m') (mgrs c4) (mgrs c5)" by simp_all
      have "cdiv ?n (block_size m') \<le> int (length (table_of m' (request_id r)))" if m': "m' \<in> set (mgrs c5)" for m'
      proof -
        obtain m where "m \<in> set (mgrs c4)" "table_of m' = table_of m" "same_mgr m m'"
          using k(2) m' unfolding list_all2_conv_all_nth in_set_conv_nth by metis
        then show ?thesis using cov by (simp add: same_mgr_def)
      qed
      then show ?thesis using k(1) c5(2) by (auto simp: kv_inv_def km_pool_def)
    qed
  qed
qed

theorem allocate_slots_keeps_witness:
  "\<exists>p a b km1 a' n km3 b'. first_call p a = Inr (Some [[Blk 1, Blk 2]], km1, a') \<and>
     get_computed_blocks b km1 = Inr ([[Blk 1, Blk 2]], 4, n) \<and>
     second_call km1 b [[Blk 1, Blk 2]] = Inr (Some [[Blk 4]], km3, b') \<and> kv_inv km3 {#} \<and>
     map (\<lambda>m. table_of m ''b'') (mgrs (km_coordinator km3)) = [[Blk 1, Blk 2, Blk 3, Blk 4]] \<and>
     map (\<lambda>b. ref_cnt (blocks (km_pool km3) b)) [Blk 1, Blk 2, Blk 3, Blk 4] = [2, 2, 1, 1] \<and>
     block_hash (blocks (km_pool km3) (Blk 3)) \<noteq> None"
proof -
  obtain p a b res1 km1 a' n res2 km3 b' where c: "new_block_pool 6 True 2 False False = Inr p" "first_call p a = Inr (res1, km1, a')"
    "get_computed_blocks b km1 = Inr ([[Blk 1, Blk 2]], 4, n)" "second_call km1 b [[Blk 1, Blk 2]] = Inr (res2, km3, b')"
    "request_id a = ''a''" "num_computed_tokens a = 0" "res1 = Some [[Blk 1, Blk 2]]" "res2 = Some [[Blk 4]]"
    "slots_call b 1 4 [[Blk 1, Blk 2]] 0 2 km1" "enable_caching (km_pool km1)"
    "map (\<lambda>m. table_of m ''b'') (mgrs (km_coordinator km3)) = [[Blk 1, Blk 2, Blk 3, Blk 4]]"
    "map (\<lambda>b. ref_cnt (blocks (km_pool km3) b)) [Blk 1, Blk 2, Blk 3, Blk 4] = [2, 2, 1, 1]"
    "block_hash (blocks (km_pool km3) (Blk 3)) \<noteq> None"
    by (rule two_calls)
  have e: "enable_caching (km_pool (sample_kv_manager p))" using sample_pool6(2) [OF c(1)] by (simp add: km_pool_def sample_kv_manager_def)
  have "kv_inv km1 {#}"
    using allocate_slots_keeps_invariant [OF sample_kv_inv [OF sample_pool6(1) [OF c(1)]] sample_empty_hits first_slots_call [OF c(5,6)] e
      c(2) [unfolded first_call_def]] by simp
  then have "kv_inv km3 {#}"
    using allocate_slots_keeps_invariant [OF _ _ c(9,10) c(4) [unfolded second_call_def]] by simp
  then show ?thesis using c by (intro exI conjI) (assumption | simp)+
qed

text \<open>Freeing a request releases it in every group, Mamba and cross attention groups included:
  it never raises, no group keeps a table or a cached count for the request, the other
  requests keep their tables, the accounting holds and no free block is lost.\<close>

lemma km_free_releases_all:
  assumes "kv_inv km R"
  shows "\<exists>km'. km_free r km = Inr km' \<and> kv_inv km' R \<and> get_num_free_blocks (km_pool km) \<le> get_num_free_blocks (km_pool km') \<and>
     length (mgrs (km_coordinator km')) = length (mgrs (km_coordinator km)) \<and>
     (\<forall>i<length (mgrs (km_coordinator km)).
        table_of (mgrs (km_coordinator km') ! i) = (table_of (mgrs (km_coordinator km) ! i))(request_id r := []) \<and>
        num_cached_block (mgrs (km_coordinator km') ! i) (request_id r) = None \<and>
        request_id r \<notin> set (od_keys (req_to_blocks (mgrs (km_coordinator km') ! i))))"
proof -
  let ?c = "km_coordinator km"
  have "coord_inv (mgrs ?c) (c_block_pool ?c) R" using assms by (simp add: kv_inv_def km_pool_def)
  from co_free_ok [OF this, of "request_id r"] obtain xs ms p where
    f: "co_free (request_id r) ?c = Inr (with_state ms p ?c)" "coord_inv ms p R" "idx_all3 (free_post (request_id r)) 0 (mgrs ?c) xs ms"
      "get_num_free_blocks (c_block_pool ?c) \<le> get_num_free_blocks p" by (elim exE conjE) (rule that)
  then show ?thesis
    by (intro exI [of _ "km\<lparr>km_coordinator := with_state ms p ?c\<rparr>"])
       (simp add: km_free_def kv_inv_def km_pool_def idx_all3_nth free_post_def)
qed

theorem km_free_witness:
  "\<exists>p km'. km_free (sample_request ''r'' [1]) (sample_kv_manager p) = Inr km' \<and> kv_inv km' {#}"
proof -
  obtain p where p: "pool_rep p [Blk 1, Blk 2, Blk 3] {#}" using sample_pool by blast
  from km_free_releases_all [OF sample_kv_inv [OF p], of "sample_request ''r'' [1]"] show ?thesis by blast
qed

text \<open>(C24) The groups take their prefix hits one after the other, and the blocks for externally
  computed tokens in between. With two full attention groups whose hits \<open>b\<close> and \<open>x\<close> are both
  free and \<open>x\<close> the least recently used block, the first group is given \<open>x\<close> for its external
  tokens before the second group touches it: \<open>x\<close> then stands in both tables, for different
  tokens.\<close>

theorem external_tokens_reuse_hit_block:
  assumes "pool_rep p (x # b # y # fs) {#}"
    and "mgrs c = [init_manager sample_full p True 0 1 1, init_manager sample_full p True 1 1 1]" "c_block_pool c = p"
  shows "\<exists>c'. co_allocate_new_computed_blocks rid [[b], [x]] 2 2 c = Inr c' \<and>
     map (\<lambda>m. table_of m rid) (mgrs c') = [[b, x], [x, y]]"
proof -
  let ?m = "\<lambda>g. init_manager sample_full p True g 1 1"
  have ci: "cnt_inv p (x # b # y # fs) {#}" using assms(1) by (simp add: pool_rep_split)
  have d: "distinct (x # b # y # fs)" using cnt_invD(2) [OF ci] .
  have rb: "real_block p x" "real_block p b" "x \<noteq> Blk 0" "b \<noteq> Blk 0" using cnt_invD(4) [OF ci] real_not_null by auto
  have skip: "get_num_skipped_tokens m t = 0" if "mspec m = sample_full" for m t
    using that by (simp add: get_num_skipped_tokens_def sample_full_def)
  have bs: "block_size (?m g) = 2" for g by (simp add: init_manager_def sample_full_def sample_attn_def)
  have cd: "cdiv 4 2 = (2 :: int)" by (simp add: cdiv_def)
  have f: "filter (\<lambda>c. c \<notin> set [b]) (x # b # y # fs) = x # y # fs" "filter (\<lambda>c. c \<notin> set [x]) (y # fs) = y # fs"
    using d by (auto intro!: filter_True)
  obtain p1 where
    t1: "touch [b] p = Inr p1" "pool_rep p1 (x # y # fs) (held [b])" "same_config p p1"
    using touch_spec [OF assms(1), of "[b]", unfolded f] rb(2) by auto
  from get_new_blocks_spec [OF t1(2), of 1] obtain p2 where
    g1: "get_new_blocks 1 p1 = Inr ([x], p2)" "pool_rep p2 (y # fs) (held [b] + {#x#})" "same_config p1 p2" by auto
  have c2: "same_config p p2" using same_config_trans [OF t1(3) g1(3)] .
  obtain p3 where t2: "touch [x] p2 = Inr p3" "pool_rep p3 (y # fs) (held [b] + {#x#} + held [x])"
    using touch_spec [OF g1(2), of "[x]", unfolded f] rb(1) real_block_config [OF c2] by auto
  from get_new_blocks_spec [OF t2(2), of 1] obtain p4 where g2: "get_new_blocks 1 p3 = Inr ([y], p4)" by auto
  have one: "\<exists>m'. allocate_new_computed_blocks rid [v] 2 2 (?m g, q) = Inr (m', q2) \<and> table_of m' rid = [v, w]"
    if "touch [v] q = Inr q1" "get_new_blocks 1 q1 = Inr ([w], q2)" for g v w q q1 q2
  proof -
    have f: "\<not> is_cross (mspec (?m g))" "req_table rid (?m g) = ([], (?m g)\<lparr>req_to_blocks := [(rid, [])]\<rparr>)"
      "num_cached_block (?m g) rid = None" "m_enable_caching (?m g)" "mspec (?m g) = sample_full"
      by (simp_all add: init_manager_def sample_full_def req_table_def)
    show ?thesis
      using that f skip [of "(?m g)\<lparr>req_to_blocks := [(rid, [])]\<rparr>"]
      by (simp add: allocate_new_computed_blocks_def base_allocate_new_computed_blocks_def bs set_table_def cd table_of_def)
  qed
  obtain m0 m1 where "allocate_new_computed_blocks rid [b] 2 2 (?m 0, p) = Inr (m0, p2)" "table_of m0 rid = [b, x]"
    "allocate_new_computed_blocks rid [x] 2 2 (?m 1, p2) = Inr (m1, p4)" "table_of m1 rid = [x, y]"
    using one [OF t1(1) g1(1), of 0] one [OF t2(1) g2, of 1] by blast
  then show ?thesis
    using assms(2,3) by (simp add: co_allocate_new_computed_blocks_def on_managers_def no_result_def py_get_def)
qed

theorem external_tokens_witness:
  "\<exists>p c c'. c_block_pool c = p \<and> coord_inv (mgrs c) p {#} \<and>
     co_allocate_new_computed_blocks ''r'' [[Blk 2], [Blk 1]] 2 2 c = Inr c' \<and>
     map (\<lambda>m. table_of m ''r'') (mgrs c') = [[Blk 2, Blk 1], [Blk 1, Blk 3]]"
proof -
  obtain p where p: "pool_rep p [Blk 1, Blk 2, Blk 3] {#}" using sample_pool by blast
  let ?c = "(km_coordinator (sample_kv_manager p))
    \<lparr>single_type_managers := [init_manager sample_full p True 0 1 1, init_manager sample_full p True 1 1 1]\<rparr>"
  have "mgr_inv (init_manager sample_full p True g 1 1) p {#}" for g
    by (rule init_manager_inv [OF p]) (simp add: init_manager_def sample_full_def sample_attn_def)
  then have "coord_inv (mgrs ?c) p {#}" by (simp add: coord_inv_def all_held_def mgr_inv_static init_manager_def tables_held_def)
  moreover have "c_block_pool ?c = p" by (simp add: sample_kv_manager_def)
  moreover obtain c' where "co_allocate_new_computed_blocks ''r'' [[Blk 2], [Blk 1]] 2 2 ?c = Inr c'"
    "map (\<lambda>m. table_of m ''r'') (mgrs c') = [[Blk 2, Blk 1], [Blk 1, Blk 3]]"
    using external_tokens_reuse_hit_block [OF p, of ?c "''r''"] calculation(2) by (elim meta_impE exE conjE) simp_all
  ultimately show ?thesis by (intro exI [of _ p] exI [of _ ?c] exI [of _ c'] conjI)
qed

text \<open>The hit statistics: whatever is observed, the aggregates are the sums over the recorded
  observations, the latest one is never dropped, and older ones are kept only as long as the
  number of requests stays within the window.\<close>

lemma observe_window:
  assumes "metrics_inv c"
  shows "metrics_inv (observe s c) \<and>
     (st_requests s \<noteq> 0 \<longrightarrow> query_queue (observe s c) \<noteq> [] \<and>
        last (query_queue (observe s c)) = (st_requests s, st_queries s, st_hits s) \<and>
        (length (query_queue (observe s c)) = 1 \<or> aggregated_requests (observe s c) \<le> max_recent_requests c))"
proof -
  define c0 where "c0 = (if st_reset s then metrics_reset c else c)"
  define c1 where "c1 = c0\<lparr>query_queue := query_queue c0 @ [(st_requests s, st_queries s, st_hits s)],
      aggregated_requests := aggregated_requests c0 + st_requests s,
      aggregated_query_total := aggregated_query_total c0 + st_queries s, aggregated_query_hit := aggregated_query_hit c0 + st_hits s\<rparr>"
  have i0: "metrics_inv c0" "max_recent_requests c1 = max_recent_requests c"
    using assms by (auto simp: c0_def c1_def metrics_inv_def metrics_reset_def)
  then have i1: "metrics_inv c1" by (auto simp: c1_def metrics_inv_def)
  have o: "observe s c = (if st_requests s = 0 then c0 else drop_oldest c1)" by (simp add: observe_def Let_def c0_def c1_def)
  have ne: "query_queue c1 \<noteq> []" by (simp add: c1_def)
  from drop_oldest_inv [OF i1] obtain k where d: "metrics_inv (drop_oldest c1)" "query_queue (drop_oldest c1) = drop k (query_queue c1)"
    "query_queue (drop_oldest c1) \<noteq> []"
    "length (query_queue (drop_oldest c1)) \<le> 1 \<or> aggregated_requests (drop_oldest c1) \<le> max_recent_requests c"
    using i0(2) ne by metis
  have "last (query_queue (drop_oldest c1)) = (st_requests s, st_queries s, st_hits s)"
  proof -
    have "last (query_queue (drop_oldest c1)) = last (query_queue c1)" unfolding d(2) by (rule last_drop) (use d(2,3) in auto)
    then show ?thesis by (simp add: c1_def)
  qed
  moreover have "length (query_queue (drop_oldest c1)) = 1 \<or> aggregated_requests (drop_oldest c1) \<le> max_recent_requests c"
    using d(3,4) by (cases "query_queue (drop_oldest c1)") auto
  ultimately show ?thesis using o i0(1) d(1,3) by simp
qed

theorem observe_witness:
  "let c = \<lparr>max_recent_requests = 2, aggregated_requests = 2, aggregated_query_total = 10, aggregated_query_hit = 4,
            query_queue = [(1, 5, 0), (1, 5, 4)]\<rparr>;
       s = new_prefix_cache_stats\<lparr>st_requests := 1, st_queries := 8, st_hits := 8\<rparr>
   in metrics_inv c \<and> metrics_inv (observe s c)"
proof -
  let ?c = "\<lparr>max_recent_requests = 2, aggregated_requests = 2, aggregated_query_total = 10, aggregated_query_hit = 4,
            query_queue = [(1, 5, 0), (1, 5, 4)]\<rparr> :: caching_metrics"
  have "metrics_inv ?c" by (simp add: metrics_inv_def)
  with observe_window [OF this, of "new_prefix_cache_stats\<lparr>st_requests := 1, st_queries := 8, st_hits := 8\<rparr>"] show ?thesis
    by (simp add: Let_def)
qed

end
