(* ===== verification/Encoder_Cache.thy ===== *)
theory Encoder_Cache
  imports Block_Hash
begin

text \<open>
  The encoder cache of v1/core/encoder\_cache\_manager.py: a capacity-limited cache of
  multi-modal encoder outputs, shared between requests by hash, with eviction of the oldest
  unreferenced entry, the simpler manager for encoder-decoder models, and the computation of
  the budget. \<^verbatim>\<open>freeable\<close> is an association list in insertion order, the first entry
  being the oldest. The invariant ties the two slot counters to the entries.
\<close>

section \<open>The cache\<close>

record encoder_cache =
  ec_size :: int
  num_free_slots :: int
  num_freeable_slots :: int
  cached :: "string \<Rightarrow> req_id set option"
  freeable :: "(string, int) odict"
  freed :: "string list"

definition new_encoder_cache :: "int \<Rightarrow> encoder_cache" where
  "new_encoder_cache n =
     \<lparr>ec_size = n, num_free_slots = n, num_freeable_slots = n, cached = Map.empty, freeable = [], freed = []\<rparr>"

definition ec_reset :: "encoder_cache \<Rightarrow> encoder_cache" where
  "ec_reset e = e\<lparr>cached := Map.empty, freeable := [], freed := [], num_free_slots := ec_size e, num_freeable_slots := ec_size e\<rparr>"

definition mm_hash_of :: "request \<Rightarrow> nat \<Rightarrow> string res" where
  "mm_hash_of r i = bindR (py_get (mm_features r) (int i)) (\<lambda>f. Inr (mm_identifier f))"

definition check_and_update_cache :: "request \<Rightarrow> nat \<Rightarrow> encoder_cache \<Rightarrow> (bool \<times> encoder_cache) res" where
  "check_and_update_cache r i e =
     bindR (mm_hash_of r i) (\<lambda>h.
       case cached e h of
         None \<Rightarrow> Inr (False, e)
       | Some S \<Rightarrow>
           bindR (if S = {}
                  then (case od_get (freeable e) h of
                          None \<Rightarrow> Inl KeyError
                        | Some n \<Rightarrow> Inr (e\<lparr>freeable := od_del h (freeable e), num_freeable_slots := num_freeable_slots e - n\<rparr>))
                  else Inr e) (\<lambda>e1.
             Inr (True, e1\<lparr>cached := (cached e1)(h \<mapsto> insert (request_id r) S)\<rparr>)))"

text \<open>The eviction loop: it pops the oldest freeable entry while space is missing.\<close>

fun evict_loop :: "int \<Rightarrow> (string, int) odict \<Rightarrow> encoder_cache \<Rightarrow> encoder_cache res" where
  "evict_loop num_embeds [] e = (if num_embeds > num_free_slots e then Inl KeyError else Inr e)"
| "evict_loop num_embeds ((h, n) # d) e =
     (if num_embeds > num_free_slots e
      then if cached e h = None then Inl KeyError
           else evict_loop num_embeds d (e\<lparr>freeable := d, cached := (cached e)(h := None), freed := freed e @ [h],
                                            num_free_slots := num_free_slots e + n\<rparr>)
      else Inr e)"

definition can_allocate :: "request \<Rightarrow> nat \<Rightarrow> int \<Rightarrow> int \<Rightarrow> encoder_cache \<Rightarrow> (bool \<times> encoder_cache) res" where
  "can_allocate r i encoder_compute_budget num_embeds_to_schedule e =
     bindR (get_num_encoder_embeds r i) (\<lambda>n.
       if n > encoder_compute_budget then Inr (False, e)
       else let num_embeds = n + num_embeds_to_schedule
            in if num_embeds \<le> num_free_slots e then Inr (True, e)
               else if num_embeds > num_freeable_slots e then Inr (False, e)
               else bindR (evict_loop num_embeds (freeable e) e) (\<lambda>e'. Inr (True, e')))"

definition ec_allocate :: "request \<Rightarrow> nat \<Rightarrow> encoder_cache \<Rightarrow> encoder_cache res" where
  "ec_allocate r i e =
     bindR (mm_hash_of r i) (\<lambda>h.
       let S = (case cached e h of None \<Rightarrow> {} | Some S \<Rightarrow> S)
       in bindR (get_num_encoder_embeds r i) (\<lambda>n.
          bindR (assertR (num_free_slots e \<ge> n)) (\<lambda>_. bindR (assertR (num_freeable_slots e \<ge> n)) (\<lambda>_.
            Inr (e\<lparr>cached := (cached e)(h \<mapsto> insert (request_id r) S), num_free_slots := num_free_slots e - n,
                   num_freeable_slots := num_freeable_slots e - n\<rparr>)))))"

definition get_cached_input_ids :: "request \<Rightarrow> encoder_cache \<Rightarrow> nat list" where
  "get_cached_input_ids r e = filter (\<lambda>i. cached e (mm_identifier (mm_features r ! i)) \<noteq> None) [0..<length (mm_features r)]"

definition free_encoder_input :: "request \<Rightarrow> nat \<Rightarrow> encoder_cache \<Rightarrow> encoder_cache res" where
  "free_encoder_input r i e =
     bindR (mm_hash_of r i) (\<lambda>h.
       case cached e h of
         None \<Rightarrow> Inr e
       | Some S \<Rightarrow>
           if S = {} then Inr e
           else let S' = S - {request_id r}; e1 = e\<lparr>cached := (cached e)(h \<mapsto> S')\<rparr>
                in if S' = {}
                   then bindR (get_num_encoder_embeds r i) (\<lambda>n.
                          Inr (e1\<lparr>freeable := od_set h n (freeable e1), num_freeable_slots := num_freeable_slots e1 + n\<rparr>))
                   else Inr e1)"

text \<open>\<^verbatim>\<open>free\<close> visits the cached inputs in the order of a set; here it is the ascending one, and
  the properties of \<^verbatim>\<open>free_encoder_input\<close> hold for any order.\<close>

definition ec_free :: "request \<Rightarrow> encoder_cache \<Rightarrow> encoder_cache res" where
  "ec_free r e = foldR (free_encoder_input r) (get_cached_input_ids r e) e"

definition get_freed_mm_hashes :: "encoder_cache \<Rightarrow> string list \<times> encoder_cache" where
  "get_freed_mm_hashes e = (freed e, e\<lparr>freed := []\<rparr>)"

section \<open>Budget\<close>

definition compute_mm_encoder_budget ::
  "bool \<Rightarrow> int \<Rightarrow> int \<Rightarrow> int \<Rightarrow> (string \<times> int) list \<Rightarrow> (int \<times> int) res" where
  "compute_mm_encoder_budget disable_chunked_mm_input max_batched max_encoder_input encoder_cache_size mm_max_toks_per_item =
     (if mm_max_toks_per_item = [] then Inr (0, 0)
      else bindR (maxR (map snd mm_max_toks_per_item)) (\<lambda>max_tokens_per_mm_item.
        if disable_chunked_mm_input \<and> max_tokens_per_mm_item > max_batched then Inl ValueError
        else Inr (max max_encoder_input max_tokens_per_mm_item, max encoder_cache_size max_tokens_per_mm_item)))"

section \<open>The encoder-decoder manager\<close>

record encdec_cache =
  ed_size :: int
  ed_num_free_slots :: int
  allocated :: "string list"
  to_free :: "string list"

definition new_encdec_cache :: "int \<Rightarrow> encdec_cache" where
  "new_encdec_cache n = \<lparr>ed_size = n, ed_num_free_slots = n, allocated = [], to_free = []\<rparr>"

definition ed_reset :: "encdec_cache \<Rightarrow> encdec_cache" where
  "ed_reset e = e\<lparr>ed_num_free_slots := ed_size e, allocated := [], to_free := []\<rparr>"

definition ed_can_allocate :: "request \<Rightarrow> nat \<Rightarrow> int \<Rightarrow> int \<Rightarrow> encdec_cache \<Rightarrow> bool res" where
  "ed_can_allocate r i encoder_compute_budget num_embeds_to_schedule e =
     bindR (get_num_encoder_embeds r i) (\<lambda>n.
       if n > encoder_compute_budget then Inr False else Inr (n + num_embeds_to_schedule \<le> ed_num_free_slots e))"

definition ed_allocate :: "request \<Rightarrow> nat \<Rightarrow> encdec_cache \<Rightarrow> encdec_cache res" where
  "ed_allocate r i e =
     bindR (get_num_encoder_embeds r i) (\<lambda>n.
     bindR (mm_hash_of r i) (\<lambda>h.
       Inr (e\<lparr>ed_num_free_slots := ed_num_free_slots e - n, allocated := allocated e @ [h]\<rparr>)))"

definition ed_free_encoder_input :: "request \<Rightarrow> nat \<Rightarrow> encdec_cache \<Rightarrow> encdec_cache res" where
  "ed_free_encoder_input r i e =
     bindR (get_num_encoder_embeds r i) (\<lambda>n. Inr (e\<lparr>ed_num_free_slots := ed_num_free_slots e + n\<rparr>))"

definition ed_free :: "request \<Rightarrow> encdec_cache \<Rightarrow> encdec_cache res" where
  "ed_free r e = foldR (ed_free_encoder_input r) [0..<length (mm_features r)] e"

definition ed_get_cached_input_ids :: "request \<Rightarrow> nat list" where
  "ed_get_cached_input_ids r = [0..<length (mm_features r)]"

definition ed_get_freed_mm_hashes :: "encdec_cache \<Rightarrow> string list \<times> encdec_cache" where
  "ed_get_freed_mm_hashes e = (to_free e, e\<lparr>to_free := allocated e, allocated := []\<rparr>)"

section \<open>Invariant\<close>

text \<open>\<open>sz\<close> gives the number of embeddings behind a hash; equal hashes mean equal items.\<close>

definition sized_by :: "(string \<Rightarrow> int) \<Rightarrow> request \<Rightarrow> bool" where
  "sized_by sz r \<longleftrightarrow> (\<forall>i<length (mm_features r).
     get_num_embeds (mm_position (mm_features r ! i)) = Inr (sz (mm_identifier (mm_features r ! i))) \<and>
     0 \<le> sz (mm_identifier (mm_features r ! i)))"

definition referenced :: "encoder_cache \<Rightarrow> string set" where
  "referenced e = {h. \<exists>S. cached e h = Some S \<and> S \<noteq> {}}"

definition enc_inv :: "(string \<Rightarrow> int) \<Rightarrow> encoder_cache \<Rightarrow> bool" where
  "enc_inv sz e \<longleftrightarrow> finite (dom (cached e)) \<and> od_wf (freeable e) \<and>
     (\<forall>h. od_get (freeable e) h = (if cached e h = Some {} then Some (sz h) else None)) \<and>
     num_free_slots e = ec_size e - sum sz (dom (cached e)) \<and>
     num_freeable_slots e = ec_size e - sum sz (referenced e) \<and>
     0 \<le> num_free_slots e \<and> (\<forall>h\<in>dom (cached e). 0 \<le> sz h)"

lemma mm_hash_of_ok: "i < length (mm_features r) \<Longrightarrow> mm_hash_of r i = Inr (mm_identifier (mm_features r ! i))"
  by (simp add: mm_hash_of_def)

lemma sized_embeds: "sized_by sz r \<Longrightarrow> i < length (mm_features r) \<Longrightarrow>
    get_num_encoder_embeds r i = Inr (sz (mm_identifier (mm_features r ! i))) \<and> 0 \<le> sz (mm_identifier (mm_features r ! i))"
  by (simp add: sized_by_def get_num_encoder_embeds_def)

lemma referenced_dom: "referenced e \<subseteq> dom (cached e)"
  by (auto simp: referenced_def)

lemma referenced_finite: "enc_inv sz e \<Longrightarrow> finite (referenced e)"
  by (rule finite_subset [OF referenced_dom]) (simp add: enc_inv_def)

lemma new_encoder_cache_inv: "0 \<le> n \<Longrightarrow> enc_inv sz (new_encoder_cache n)"
  by (simp add: enc_inv_def new_encoder_cache_def referenced_def)

lemma check_and_update_spec:
  assumes "enc_inv sz e" "i < length (mm_features r)"
  defines "h \<equiv> mm_identifier (mm_features r ! i)"
  shows "\<exists>e'. check_and_update_cache r i e = Inr (h \<in> dom (cached e), e') \<and> enc_inv sz e' \<and>
     dom (cached e') = dom (cached e) \<and> num_free_slots e' = num_free_slots e \<and> freed e' = freed e \<and> ec_size e' = ec_size e \<and>
     (h \<notin> dom (cached e) \<longrightarrow> e' = e) \<and> (h \<in> dom (cached e) \<longrightarrow> request_id r \<in> the (cached e' h))"
proof (cases "cached e h")
  case None
  then show ?thesis using assms(1,2) by (auto simp: check_and_update_cache_def mm_hash_of_ok h_def)
next
  case (Some S)
  note I = assms(1) [unfolded enc_inv_def]
  let ?c = "(cached e)(h \<mapsto> insert (request_id r) S)"
  have dom: "dom ?c = dom (cached e)" using Some by auto
  show ?thesis
  proof (cases "S = {}")
    case False
    let ?e = "e\<lparr>cached := ?c\<rparr>"
    have "referenced ?e = referenced e" using False Some by (auto simp: referenced_def)
    moreover have "(?c h' = Some {}) = (cached e h' = Some {})" for h' using False Some by auto
    ultimately have "enc_inv sz ?e" using I dom by (simp add: enc_inv_def)
    moreover have "check_and_update_cache r i e = Inr (True, ?e)"
      using False Some assms(2) by (simp add: check_and_update_cache_def mm_hash_of_ok h_def)
    moreover have "h \<in> dom (cached e)" "dom (cached ?e) = dom (cached e)" "request_id r \<in> the (cached ?e h)" using Some by auto
    ultimately show ?thesis by (intro exI [of _ ?e] conjI) (simp_all del: dom_fun_upd add: domIff)
  next
    case True
    let ?e = "e\<lparr>freeable := od_del h (freeable e), num_freeable_slots := num_freeable_slots e - sz h, cached := ?c\<rparr>"
    have f: "od_get (freeable e) h = Some (sz h)" using I True Some by simp
    have "referenced ?e = insert h (referenced e)" "h \<notin> referenced e" using True Some by (auto simp: referenced_def)
    moreover have "finite (referenced e)" by (rule referenced_finite [OF assms(1)])
    moreover have "(?c h' = Some {}) = (cached e h' = Some {} \<and> h' \<noteq> h)" for h' by auto
    ultimately have "enc_inv sz ?e" using I dom by (simp add: enc_inv_def)
    moreover have "check_and_update_cache r i e = Inr (True, ?e)"
      using True Some f assms(2) by (simp add: check_and_update_cache_def mm_hash_of_ok h_def)
    moreover have "h \<in> dom (cached e)" "dom (cached ?e) = dom (cached e)" "request_id r \<in> the (cached ?e h)" using Some by auto
    ultimately show ?thesis by (intro exI [of _ ?e] conjI) (simp_all del: dom_fun_upd add: domIff)
  qed
qed

text \<open>The eviction loop removes a prefix of the freeable entries, the oldest ones, just long
  enough, and never an entry a request refers to.\<close>

lemma evict_loop_spec:
  assumes "enc_inv sz e" "num_embeds \<le> num_freeable_slots e"
  shows "\<exists>e' k. evict_loop num_embeds (freeable e) e = Inr e' \<and> enc_inv sz e' \<and> num_embeds \<le> num_free_slots e' \<and>
     freeable e' = drop k (freeable e) \<and> k \<le> length (freeable e) \<and> freed e' = freed e @ od_keys (take k (freeable e)) \<and>
     referenced e' = referenced e \<and> (\<forall>h\<in>referenced e. cached e' h = cached e h) \<and>
     num_freeable_slots e' = num_freeable_slots e \<and> ec_size e' = ec_size e \<and>
     dom (cached e') = dom (cached e) - set (od_keys (take k (freeable e))) \<and>
     (k = 0 \<or> num_embeds > num_free_slots e + sum_list (map snd (take (k - 1) (freeable e))))"
  using assms
proof (induction "freeable e" arbitrary: e)
  case Nil
  have "dom (cached e) = referenced e"
  proof
    show "dom (cached e) \<subseteq> referenced e"
    proof
      fix h assume "h \<in> dom (cached e)"
      then obtain S where S: "cached e h = Some S" by blast
      have "od_get (freeable e) h = None" by (simp flip: Nil(1))
      then have "S \<noteq> {}" using S Nil(2) by (auto simp: enc_inv_def)
      then show "h \<in> referenced e" using S by (auto simp: referenced_def)
    qed
  qed (rule referenced_dom)
  then have "num_free_slots e = num_freeable_slots e" using Nil(2) by (simp add: enc_inv_def)
  then show ?case using Nil by (intro exI [of _ e] exI [of _ 0]) (simp flip: Nil(1))
next
  case (Cons x d)
  obtain h n where x: "x = (h, n)" by (cases x)
  have I: "finite (dom (cached e))" "od_wf (freeable e)"
    "\<And>h'. od_get (freeable e) h' = (if cached e h' = Some {} then Some (sz h') else None)"
    "num_free_slots e = ec_size e - sum sz (dom (cached e))" "num_freeable_slots e = ec_size e - sum sz (referenced e)"
    "0 \<le> num_free_slots e" "\<forall>h\<in>dom (cached e). 0 \<le> sz h" using Cons.prems(1) by (simp_all add: enc_inv_def)
  have fe: "freeable e = (h, n) # d" using Cons(2) x by simp
  show ?case
  proof (cases "num_embeds > num_free_slots e")
    case False
    then have "evict_loop num_embeds (freeable e) e = Inr e" by (simp add: fe)
    then show ?thesis using False Cons.prems by (intro exI [of _ e] exI [of _ 0]) simp
  next
    case True
    have c: "cached e h = Some {}" "n = sz h" using I(3) [of h] by (auto simp: fe split: if_splits)
    have hd: "h \<in> dom (cached e)" using c by blast
    let ?e = "e\<lparr>freeable := d, cached := (cached e)(h := None), freed := freed e @ [h], num_free_slots := num_free_slots e + n\<rparr>"
    have ref: "referenced ?e = referenced e" using c by (auto simp: referenced_def)
    have dm: "dom (cached ?e) = dom (cached e) - {h}" by auto
    have hd': "h \<notin> set (od_keys d)" using I(2) by (simp add: fe od_wf_def)
    have g: "od_get d h' = (if cached ?e h' = Some {} then Some (sz h') else None)" for h'
    proof (cases "h' = h")
      case True
      then show ?thesis using hd' od_get_None_iff [of d h] by simp
    next
      case False
      then show ?thesis using I(3) [of h'] by (simp add: fe)
    qed
    have sm: "sum sz (dom (cached e) - {h}) = sum sz (dom (cached e)) - sz h" using I(1) hd by (simp add: sum_diff1)
    have inv: "enc_inv sz ?e"
      unfolding enc_inv_def ref dm sm using I c(2) hd hd' g by (auto simp: fe od_wf_def)
    have "d = freeable ?e" "num_embeds \<le> num_freeable_slots ?e" using Cons.prems(2) by simp_all
    from Cons(1) [OF this(1) inv this(2)] obtain e' k where
      k: "evict_loop num_embeds d ?e = Inr e'" "enc_inv sz e'" "num_embeds \<le> num_free_slots e'" "freeable e' = drop k d"
        "k \<le> length d" "freed e' = freed e @ [h] @ od_keys (take k d)" "referenced e' = referenced e"
        "\<forall>h\<in>referenced e. cached e' h = cached ?e h" "num_freeable_slots e' = num_freeable_slots e" "ec_size e' = ec_size e"
        "dom (cached e') = dom (cached e) - {h} - set (od_keys (take k d))"
        "k = 0 \<or> num_embeds > num_free_slots e + n + sum_list (map snd (take (k - 1) d))"
      unfolding ref dm by auto
    have "\<forall>h'\<in>referenced e. cached e' h' = cached e h'" using k(8) c by (auto simp: referenced_def)
    moreover have "num_embeds > num_free_slots e + sum_list (map snd (take (Suc k - 1) (freeable e)))"
      using k(12) True by (cases k) (auto simp: fe)
    moreover have "evict_loop num_embeds (freeable e) e = Inr e'" using True c k(1) by (simp add: fe)
    moreover have "dom (cached e') = dom (cached e) - set (od_keys (take (Suc k) (freeable e)))" using k(11) by (auto simp: fe)
    ultimately show ?thesis using k(2-7,9,10)
      by (intro exI [of _ e'] exI [of _ "Suc k"] conjI) (simp_all add: fe)
  qed
qed

lemma free_le_freeable: "enc_inv sz e \<Longrightarrow> num_free_slots e \<le> num_freeable_slots e"
  using referenced_dom [of e] sum_mono2 [of "dom (cached e)" "referenced e" sz] by (auto simp: enc_inv_def)

lemma ec_allocate_spec:
  assumes "enc_inv sz e" "sized_by sz r" "i < length (mm_features r)"
  defines "h \<equiv> mm_identifier (mm_features r ! i)"
  assumes "h \<notin> dom (cached e)" "sz h \<le> num_free_slots e"
  shows "\<exists>e'. ec_allocate r i e = Inr e' \<and> enc_inv sz e' \<and> cached e' h = Some {request_id r} \<and>
     num_free_slots e' = num_free_slots e - sz h \<and> ec_size e' = ec_size e"
proof -
  have c: "cached e h = None" using assms(5) by auto
  have n: "get_num_encoder_embeds r i = Inr (sz h)" "0 \<le> sz h" using sized_embeds [OF assms(2,3)] by (simp_all add: h_def)
  let ?e = "e\<lparr>cached := (cached e)(h \<mapsto> {request_id r}), num_free_slots := num_free_slots e - sz h,
      num_freeable_slots := num_freeable_slots e - sz h\<rparr>"
  have ref: "referenced ?e = insert h (referenced e)" "h \<notin> referenced e" using c by (auto simp: referenced_def)
  have "ec_allocate r i e = Inr ?e"
    using c n assms(3,6) free_le_freeable [OF assms(1)]
    by (simp add: ec_allocate_def mm_hash_of_ok [OF assms(3)] h_def [symmetric] assertR_def Let_def)
  moreover have "enc_inv sz ?e"
    unfolding enc_inv_def ref(1)
    using assms(1,6) c n(2) ref(2) referenced_finite [OF assms(1)] assms(5) by (auto simp: enc_inv_def)
  ultimately show ?thesis by (intro exI [of _ ?e]) simp
qed

lemma free_encoder_input_spec:
  assumes "enc_inv sz e" "sized_by sz r" "i < length (mm_features r)"
  defines "h \<equiv> mm_identifier (mm_features r ! i)"
  shows "\<exists>e'. free_encoder_input r i e = Inr e' \<and> enc_inv sz e' \<and> num_free_slots e' = num_free_slots e \<and> ec_size e' = ec_size e \<and>
     freed e' = freed e \<and> cached e' = (cached e)(h := map_option (\<lambda>S. S - {request_id r}) (cached e h))"
proof (cases "cached e h = None \<or> cached e h = Some {}")
  case True
  then have "free_encoder_input r i e = Inr e" using assms(3) by (auto simp: free_encoder_input_def mm_hash_of_ok h_def)
  moreover have "cached e = (cached e)(h := map_option (\<lambda>S. S - {request_id r}) (cached e h))" using True by auto
  ultimately show ?thesis using assms(1) by metis
next
  case False
  then obtain S where S: "cached e h = Some S" "S \<noteq> {}" by auto
  have n: "get_num_encoder_embeds r i = Inr (sz h)" using sized_embeds [OF assms(2,3)] by (simp add: h_def)
  let ?S = "S - {request_id r}"
  let ?e1 = "e\<lparr>cached := (cached e)(h \<mapsto> ?S)\<rparr>"
  have dm: "dom ((cached e)(h \<mapsto> ?S)) = dom (cached e)" using S by auto
  have nf: "h \<notin> set (od_keys (freeable e))" using assms(1) S od_get_None_iff [of "freeable e" h] by (auto simp: enc_inv_def)
  have run: "free_encoder_input r i e =
      (if ?S = {} then Inr (?e1\<lparr>freeable := od_set h (sz h) (freeable e), num_freeable_slots := num_freeable_slots e + sz h\<rparr>) else Inr ?e1)"
    using S n by (simp add: free_encoder_input_def mm_hash_of_ok [OF assms(3)] h_def [symmetric] Let_def)
  show ?thesis
  proof (cases "?S = {}")
    case True
    let ?e = "e\<lparr>cached := (cached e)(h \<mapsto> {}), freeable := od_set h (sz h) (freeable e), num_freeable_slots := num_freeable_slots e + sz h\<rparr>"
    have r1: "free_encoder_input r i e = Inr ?e" using run unfolding if_P [OF True] True by simp
    have "referenced ?e = referenced e - {h}" "h \<in> referenced e" using S by (auto simp: referenced_def)
    moreover from this have "sum sz (referenced ?e) = sum sz (referenced e) - sz h"
      using referenced_finite [OF assms(1)] by (simp add: sum_diff1)
    ultimately have "enc_inv sz ?e" using assms(1) dm [unfolded True] by (simp add: enc_inv_def del: dom_fun_upd)
    moreover have "cached ?e = (cached e)(h := map_option (\<lambda>S. S - {request_id r}) (cached e h))"
      unfolding S(1) option.map True by simp
    ultimately show ?thesis using r1 by (intro exI [of _ ?e]) simp
  next
    case False
    have "referenced ?e1 = referenced e" using S False by (auto simp: referenced_def)
    moreover have "(((cached e)(h \<mapsto> ?S)) h' = Some {}) = (cached e h' = Some {})" for h' using S False by auto
    ultimately have "enc_inv sz ?e1" using assms(1) dm by (simp add: enc_inv_def del: dom_fun_upd)
    then show ?thesis using run False S(1) by (intro exI [of _ ?e1]) simp
  qed
qed

lemma free_inputs_spec:
  assumes "enc_inv sz e" "sized_by sz r" "\<forall>i\<in>set is. i < length (mm_features r)"
  shows "\<exists>e'. foldR (free_encoder_input r) is e = Inr e' \<and> enc_inv sz e' \<and> ec_size e' = ec_size e \<and>
     (\<forall>h. cached e' h = (if \<exists>i\<in>set is. mm_identifier (mm_features r ! i) = h
                         then map_option (\<lambda>S. S - {request_id r}) (cached e h) else cached e h))"
  using assms(1,3)
proof (induction "is" arbitrary: e)
  case (Cons i "is")
  from free_encoder_input_spec [OF Cons.prems(1) assms(2), of i] Cons.prems(2) obtain e1 where
    e1: "free_encoder_input r i e = Inr e1" "enc_inv sz e1" "ec_size e1 = ec_size e"
      "cached e1 = (cached e)(mm_identifier (mm_features r ! i) :=
         map_option (\<lambda>S. S - {request_id r}) (cached e (mm_identifier (mm_features r ! i))))" by auto
  from Cons.IH [OF e1(2)] Cons.prems(2) obtain e' where
    e': "foldR (free_encoder_input r) is e1 = Inr e'" "enc_inv sz e'" "ec_size e' = ec_size e1"
      "\<forall>h. cached e' h = (if \<exists>i\<in>set is. mm_identifier (mm_features r ! i) = h
                         then map_option (\<lambda>S. S - {request_id r}) (cached e1 h) else cached e1 h)" by auto
  have "map_option (\<lambda>S. S - {request_id r}) (map_option (\<lambda>S. S - {request_id r}) x) = map_option (\<lambda>S. S - {request_id r}) x"
    for x :: "req_id set option" by (cases x) auto
  then have "\<forall>h. cached e' h = (if \<exists>j\<in>set (i # is). mm_identifier (mm_features r ! j) = h
      then map_option (\<lambda>S. S - {request_id r}) (cached e h) else cached e h)" using e'(4) e1(4) by auto
  then show ?case using e1(1,3) e'(1-3) by (intro exI [of _ e']) simp
qed simp

lemma ec_free_spec:
  assumes "enc_inv sz e" "sized_by sz r"
  shows "\<exists>e'. ec_free r e = Inr e' \<and> enc_inv sz e' \<and> ec_size e' = ec_size e \<and>
     (\<forall>i<length (mm_features r). \<forall>S. cached e' (mm_identifier (mm_features r ! i)) = Some S \<longrightarrow> request_id r \<notin> S)"
proof -
  have "\<forall>i\<in>set (get_cached_input_ids r e). i < length (mm_features r)" by (simp add: get_cached_input_ids_def)
  from free_inputs_spec [OF assms this] obtain e' where
    e': "foldR (free_encoder_input r) (get_cached_input_ids r e) e = Inr e'" "enc_inv sz e'" "ec_size e' = ec_size e"
      "\<forall>h. cached e' h = (if \<exists>i\<in>set (get_cached_input_ids r e). mm_identifier (mm_features r ! i) = h
         then map_option (\<lambda>S. S - {request_id r}) (cached e h) else cached e h)" by (elim exE conjE) (rule that)
  have "request_id r \<notin> S" if i: "i < length (mm_features r)" and S: "cached e' (mm_identifier (mm_features r ! i)) = Some S" for i S
  proof (cases "cached e (mm_identifier (mm_features r ! i))")
    case None
    then show ?thesis using S e'(4) by (auto split: if_splits)
  next
    case (Some T)
    then have "i \<in> set (get_cached_input_ids r e)" using i by (simp add: get_cached_input_ids_def)
    then show ?thesis using S e'(4) Some by (auto split: if_splits)
  qed
  then show ?thesis using e'(1-3) by (intro exI [of _ e']) (simp add: ec_free_def)
qed

section \<open>Runs of the cache\<close>

text \<open>The calls of the scheduler. It allocates only an item that \<^verbatim>\<open>check_and_update_cache\<close> did not
  find and that fits.\<close>

inductive enc_step :: "(string \<Rightarrow> int) \<Rightarrow> encoder_cache \<Rightarrow> encoder_cache \<Rightarrow> bool" for sz where
  step_check: "i < length (mm_features r) \<Longrightarrow> check_and_update_cache r i e = Inr (b, e') \<Longrightarrow> enc_step sz e e'"
| step_can: "sized_by sz r \<Longrightarrow> can_allocate r i budget sched e = Inr (b, e') \<Longrightarrow> enc_step sz e e'"
| step_allocate: "sized_by sz r \<Longrightarrow> i < length (mm_features r) \<Longrightarrow> mm_identifier (mm_features r ! i) \<notin> dom (cached e) \<Longrightarrow>
    sz (mm_identifier (mm_features r ! i)) \<le> num_free_slots e \<Longrightarrow> ec_allocate r i e = Inr e' \<Longrightarrow> enc_step sz e e'"
| step_free_input: "sized_by sz r \<Longrightarrow> i < length (mm_features r) \<Longrightarrow> free_encoder_input r i e = Inr e' \<Longrightarrow> enc_step sz e e'"
| step_free: "sized_by sz r \<Longrightarrow> ec_free r e = Inr e' \<Longrightarrow> enc_step sz e e'"
| step_reset: "enc_step sz e (ec_reset e)"
| step_freed: "get_freed_mm_hashes e = (hs, e') \<Longrightarrow> enc_step sz e e'"

inductive enc_reach :: "(string \<Rightarrow> int) \<Rightarrow> int \<Rightarrow> encoder_cache \<Rightarrow> bool" for sz n where
  reach_new: "enc_reach sz n (new_encoder_cache n)"
| reach_step: "enc_reach sz n e \<Longrightarrow> enc_step sz e e' \<Longrightarrow> enc_reach sz n e'"

lemma can_allocate_spec:
  assumes "enc_inv sz e" "sized_by sz r" "i < length (mm_features r)"
  defines "n \<equiv> sz (mm_identifier (mm_features r ! i))"
  shows "\<exists>e' k. can_allocate r i budget sched e = Inr (n \<le> budget \<and> n + sched \<le> num_freeable_slots e, e') \<and> enc_inv sz e' \<and>
     ec_size e' = ec_size e \<and> referenced e' = referenced e \<and> (\<forall>h\<in>referenced e. cached e' h = cached e h) \<and>
     freeable e' = drop k (freeable e) \<and> freed e' = freed e @ od_keys (take k (freeable e)) \<and>
     (k = 0 \<or> n + sched > num_free_slots e + sum_list (map snd (take (k - 1) (freeable e)))) \<and>
     (n \<le> budget \<and> n + sched \<le> num_freeable_slots e \<longrightarrow> n + sched \<le> num_free_slots e') \<and>
     (\<not> (n \<le> budget \<and> n + sched \<le> num_freeable_slots e) \<longrightarrow> e' = e)"
proof -
  have e: "get_num_encoder_embeds r i = Inr n" using sized_embeds [OF assms(2,3)] by (simp add: n_def)
  consider (no) "\<not> (n \<le> budget \<and> n + sched \<le> num_freeable_slots e)" | (free) "n \<le> budget" "n + sched \<le> num_free_slots e"
    | (evict) "n \<le> budget" "n + sched \<le> num_freeable_slots e" "\<not> n + sched \<le> num_free_slots e" by linarith
  then show ?thesis
  proof cases
    case no
    then show ?thesis using e assms(1) free_le_freeable [OF assms(1)]
      by (intro exI [of _ e] exI [of _ 0]) (auto simp: can_allocate_def Let_def)
  next
    case free
    then show ?thesis using e assms(1) free_le_freeable [OF assms(1)]
      by (intro exI [of _ e] exI [of _ 0]) (auto simp: can_allocate_def Let_def)
  next
    case evict
    from evict_loop_spec [OF assms(1) evict(2)] obtain e' k where
      "evict_loop (n + sched) (freeable e) e = Inr e'" "enc_inv sz e'" "n + sched \<le> num_free_slots e'"
      "freeable e' = drop k (freeable e)" "freed e' = freed e @ od_keys (take k (freeable e))"
      "referenced e' = referenced e" "\<forall>h\<in>referenced e. cached e' h = cached e h" "ec_size e' = ec_size e"
      "k = 0 \<or> n + sched > num_free_slots e + sum_list (map snd (take (k - 1) (freeable e)))" by (elim exE conjE) (rule that)
    then show ?thesis using evict e
      by (intro exI [of _ e'] exI [of _ k]) (simp add: can_allocate_def Let_def)
  qed
qed

lemma enc_step_inv: "enc_step sz e e' \<Longrightarrow> enc_inv sz e \<Longrightarrow> enc_inv sz e' \<and> ec_size e' = ec_size e"
proof (induction rule: enc_step.induct)
  case (step_check i r e b e')
  then show ?case using check_and_update_spec [of sz e i r] by auto
next
  case (step_can r i budget sched e b e')
  have "i < length (mm_features r)"
    using step_can(2) by (auto simp: can_allocate_def get_num_encoder_embeds_def bindR_eq_Inr split: if_splits)
  then show ?case using step_can can_allocate_spec [of sz e r i budget sched] by auto
next
  case (step_allocate r i e e')
  then show ?case using ec_allocate_spec [of sz e r i] by auto
next
  case (step_free_input r i e e')
  then show ?case using free_encoder_input_spec [of sz e r i] by auto
next
  case (step_free r e e')
  then show ?case using ec_free_spec [of sz e r] by auto
next
  case (step_reset e)
  have "0 \<le> sum sz (dom (cached e))" using step_reset by (intro sum_nonneg) (simp add: enc_inv_def)
  then show ?case using step_reset by (simp add: enc_inv_def ec_reset_def referenced_def)
next
  case (step_freed e hs e')
  then show ?case by (auto simp: get_freed_mm_hashes_def enc_inv_def referenced_def)
qed

section \<open>Properties\<close>

text \<open>(C25) In every state the encoder cache can reach from an empty one of capacity \<open>n\<close>, whatever
  the calls: the entries together never exceed the capacity, the free slots are exactly the
  capacity not used by entries, the freeable slots exactly the capacity not used by entries
  some request refers to, and the freeable queue holds exactly the unreferenced entries.\<close>

theorem encoder_cache_invariant:
  assumes "enc_reach sz n e" "0 \<le> n"
  shows "enc_inv sz e \<and> ec_size e = n \<and> 0 \<le> num_free_slots e \<and> num_free_slots e \<le> num_freeable_slots e \<and>
     sum sz (dom (cached e)) \<le> n"
proof -
  have "enc_inv sz e \<and> ec_size e = n"
    using assms
  proof (induction rule: enc_reach.induct)
    case reach_new
    then show ?case using new_encoder_cache_inv by (simp add: new_encoder_cache_def)
  next
    case (reach_step e e')
    then show ?case using enc_step_inv by metis
  qed
  then show ?thesis using free_le_freeable [of sz e] by (auto simp: enc_inv_def)
qed

definition sample_mm_request :: "string \<Rightarrow> string \<Rightarrow> request" where
  "sample_mm_request rid h = (sample_request rid [1])
     \<lparr>mm_features := [\<lparr>mm_identifier = h, mm_position = \<lparr>offset = 0, pr_length = 5, is_embed = None\<rparr>\<rparr>]\<rparr>"

lemma sample_mm_simps [simp]:
  "mm_features (sample_mm_request rid h) = [\<lparr>mm_identifier = h, mm_position = \<lparr>offset = 0, pr_length = 5, is_embed = None\<rparr>\<rparr>]"
  "request_id (sample_mm_request rid h) = rid"
  by (simp_all add: sample_mm_request_def sample_request_def init_request_def sample_sampling_def length_from_prompt_def Let_def)

lemma sample_sized: "sized_by (\<lambda>_. 5) (sample_mm_request rid h)"
  by (simp add: sized_by_def get_num_embeds_def)

theorem encoder_cache_invariant_witness:
  "\<exists>e. enc_reach (\<lambda>_. 5) 8 e \<and> cached e ''img'' = Some {''r''} \<and> num_free_slots e = 3 \<and> enc_inv (\<lambda>_. 5) e"
proof -
  let ?e = "new_encoder_cache 8" and ?r = "sample_mm_request ''r'' ''img''"
  have r0: "enc_reach (\<lambda>_. 5) 8 ?e" by (rule reach_new)
  obtain e' where e': "ec_allocate ?r 0 ?e = Inr e'" "cached e' ''img'' = Some {''r''}" "num_free_slots e' = 3"
    by (simp add: ec_allocate_def mm_hash_of_def get_num_encoder_embeds_def get_num_embeds_def new_encoder_cache_def assertR_def py_get_def)
  have "enc_step (\<lambda>_. 5) ?e e'"
    by (rule step_allocate [OF sample_sized _ _ _ e'(1)]) (simp_all add: new_encoder_cache_def)
  with r0 have "enc_reach (\<lambda>_. 5) 8 e'" by (rule reach_step)
  with encoder_cache_invariant [OF this] e' show ?thesis by auto
qed

text \<open>(C26) \<^verbatim>\<open>can_allocate\<close> never raises. It says yes exactly when the item fits the compute budget and
  the space that is free or can be reclaimed. Then, after it, the space is free; it evicts
  entries in the order they became unreferenced, no more than needed, reports them in
  \<^verbatim>\<open>freed\<close>, and keeps every entry a request refers to. If it says no, nothing changes.\<close>

theorem can_allocate_correct:
  assumes "enc_inv sz e" "sized_by sz r" "i < length (mm_features r)" "n = sz (mm_identifier (mm_features r ! i))"
  shows "\<exists>e' k. can_allocate r i budget sched e = Inr (n \<le> budget \<and> n + sched \<le> num_freeable_slots e, e') \<and> enc_inv sz e' \<and>
     referenced e' = referenced e \<and> (\<forall>h\<in>referenced e. cached e' h = cached e h) \<and>
     freeable e' = drop k (freeable e) \<and> freed e' = freed e @ od_keys (take k (freeable e)) \<and>
     (k = 0 \<or> n + sched > num_free_slots e + sum_list (map snd (take (k - 1) (freeable e)))) \<and>
     (n \<le> budget \<and> n + sched \<le> num_freeable_slots e \<longrightarrow> n + sched \<le> num_free_slots e') \<and>
     (\<not> (n \<le> budget \<and> n + sched \<le> num_freeable_slots e) \<longrightarrow> e' = e)"
  using can_allocate_spec [OF assms(1-3), of budget sched] unfolding assms(4) by (elim exE conjE) (intro exI conjI)

theorem can_allocate_witness:
  "\<exists>e'. can_allocate (sample_mm_request ''r'' ''img'') 0 10 0
     \<lparr>ec_size = 6, num_free_slots = 1, num_freeable_slots = 6, cached = [''old'' \<mapsto> {}], freeable = [(''old'', 5)], freed = []\<rparr> =
       Inr (True, e') \<and> 5 \<le> num_free_slots e'"
proof -
  let ?e = "\<lparr>ec_size = 6, num_free_slots = 1, num_freeable_slots = 6, cached = [''old'' \<mapsto> {}], freeable = [(''old'', 5)], freed = []\<rparr>"
  have "referenced ?e = {}" by (auto simp: referenced_def)
  then have "enc_inv (\<lambda>_. 5) ?e" by (simp add: enc_inv_def od_wf_def)
  from can_allocate_correct [OF this sample_sized, of 0 "''r''" "''img''" 5 10 0] show ?thesis by auto
qed

text \<open>The manager of encoder-decoder models gives back the slots of an input each time the input
  is freed, without remembering that it was freed. The scheduler frees the inputs after every
  step of a running request and once more when it ends: after one allocation and \<open>k\<close> such
  calls the manager has \<open>k - 1\<close> times the input too many free slots, so its capacity check no
  longer limits anything.\<close>

lemma encdec_free_unbounded:
  fixes k :: nat
  assumes "length (mm_features r) = 1" "get_num_embeds (mm_position (mm_features r ! 0)) = Inr n" "0 < n" "n \<le> csize"
  shows "\<exists>e1 e2. ed_allocate r 0 (new_encdec_cache csize) = Inr e1 \<and> foldR (\<lambda>_. ed_free r) [0..<k] e1 = Inr e2 \<and>
     ed_num_free_slots e2 = csize + (int k - 1) * n"
proof -
  let ?e1 = "\<lparr>ed_size = csize, ed_num_free_slots = csize - n, allocated = [mm_identifier (mm_features r ! 0)], to_free = []\<rparr>"
  have a: "ed_allocate r 0 (new_encdec_cache csize) = Inr ?e1"
    using assms by (simp add: ed_allocate_def get_num_encoder_embeds_def mm_hash_of_ok new_encdec_cache_def)
  have step: "ed_free r e = Inr (e\<lparr>ed_num_free_slots := ed_num_free_slots e + n\<rparr>)" for e
    using assms(1,2) by (simp add: ed_free_def ed_free_encoder_input_def get_num_encoder_embeds_def)
  have "\<exists>e2. foldR (\<lambda>_. ed_free r) [0..<k] ?e1 = Inr e2 \<and> ed_num_free_slots e2 = csize + (int k - 1) * n"
  proof (induction k)
    case (Suc k)
    then show ?case by (auto simp: foldR_append step algebra_simps)
  qed simp
  then show ?thesis using a by blast
qed

theorem encdec_free_witness:
  "\<exists>e1 e2. ed_allocate (sample_mm_request ''r'' ''audio'') 0 (new_encdec_cache 8) = Inr e1 \<and>
     foldR (\<lambda>_. ed_free (sample_mm_request ''r'' ''audio'')) [0..<3] e1 = Inr e2 \<and> ed_num_free_slots e2 = 18"
  using encdec_free_unbounded [of "sample_mm_request ''r'' ''audio''" 5 8 3] by (simp add: get_num_embeds_def)

end
