(* ===== verification/Request_Queue.thy ===== *)
theory Request_Queue
  imports Block_Hash
begin

text \<open>
  The waiting queues of v1/core/sched/request\_queue.py. The priority queue is a binary heap
  in a list, with the algorithms of Python's heapq module (\<^verbatim>\<open>_siftdown\<close>, \<^verbatim>\<open>_siftup\<close>, heappush,
  heappop, heapify) over the order of the requests; the first-come-first-served queue is a
  deque. Elements are compared by identity in the code; here elements are distinct values.
  Both queues are interpretations of the locale \<open>request_queue_spec\<close>.
\<close>

section \<open>heapq\<close>

text \<open>\<^verbatim>\<open>parentpos = (pos - 1) >> 1\<close>.\<close>

definition parent :: "nat \<Rightarrow> nat" where
  "parent pos = (pos - 1) div 2"

lemma parent_less: "0 < i \<Longrightarrow> parent i < i"
  by (simp add: parent_def)

lemma parent_child [simp]: "parent (Suc (2 * pos)) = pos" "parent (Suc (Suc (2 * pos))) = pos"
  by (simp_all add: parent_def)

lemma parent_cases: "0 < i \<Longrightarrow> i = 2 * parent i + 1 \<or> i = 2 * parent i + 2"
  unfolding parent_def by presburger

text \<open>\<^verbatim>\<open>_siftdown(heap, startpos, pos)\<close> with \<^verbatim>\<open>newitem\<close> held aside.\<close>

function siftdown :: "('a \<Rightarrow> 'a \<Rightarrow> bool) \<Rightarrow> nat \<Rightarrow> nat \<Rightarrow> 'a \<Rightarrow> 'a list \<Rightarrow> 'a list" where
  "siftdown lt startpos pos newitem heap =
     (if pos > startpos \<and> lt newitem (heap ! parent pos)
      then siftdown lt startpos (parent pos) newitem (heap[pos := heap ! (parent pos)])
      else heap[pos := newitem])"
  by pat_completeness auto
termination by (relation "measure (\<lambda>(_, _, pos, _, _). pos)") (auto intro: parent_less)

declare siftdown.simps [simp del]

definition smaller_child :: "('a \<Rightarrow> 'a \<Rightarrow> bool) \<Rightarrow> 'a list \<Rightarrow> nat \<Rightarrow> nat" where
  "smaller_child lt heap pos =
     (let c = 2 * pos + 1; r = c + 1
      in if r < length heap \<and> \<not> lt (heap ! c) (heap ! r) then r else c)"

text \<open>The loop of \<^verbatim>\<open>_siftup\<close>: the hole moves to a leaf along the smaller children.\<close>

function siftup_loop :: "('a \<Rightarrow> 'a \<Rightarrow> bool) \<Rightarrow> nat \<Rightarrow> 'a list \<Rightarrow> nat \<times> 'a list" where
  "siftup_loop lt pos heap =
     (if 2 * pos + 1 < length heap
      then siftup_loop lt (smaller_child lt heap pos) (heap[pos := heap ! smaller_child lt heap pos])
      else (pos, heap))"
  by pat_completeness auto
termination
  by (relation "measure (\<lambda>(_, pos, heap). length heap - pos)") (auto simp: smaller_child_def Let_def)

declare siftup_loop.simps [simp del]

definition siftup :: "('a \<Rightarrow> 'a \<Rightarrow> bool) \<Rightarrow> nat \<Rightarrow> 'a list \<Rightarrow> 'a list" where
  "siftup lt pos heap = (case siftup_loop lt pos heap of (pos', heap') \<Rightarrow> siftdown lt pos pos' (heap ! pos) heap')"

definition heappush :: "('a \<Rightarrow> 'a \<Rightarrow> bool) \<Rightarrow> 'a list \<Rightarrow> 'a \<Rightarrow> 'a list" where
  "heappush lt heap item = siftdown lt 0 (length heap) item (heap @ [item])"

definition heappop :: "('a \<Rightarrow> 'a \<Rightarrow> bool) \<Rightarrow> 'a list \<Rightarrow> ('a \<times> 'a list) res" where
  "heappop lt heap =
     (if heap = [] then Inl IndexError
      else let lastelt = last heap; rest = butlast heap
           in if rest = [] then Inr (lastelt, [])
              else Inr (hd rest, siftup lt 0 (rest[0 := lastelt])))"

definition heapify :: "('a \<Rightarrow> 'a \<Rightarrow> bool) \<Rightarrow> 'a list \<Rightarrow> 'a list" where
  "heapify lt xs = fold (siftup lt) (rev [0..<length xs div 2]) xs"

section \<open>The queues\<close>

datatype 'a request_queue = FCFSRequestQueue "'a list" | PriorityRequestQueue "'a list"

datatype scheduling_policy = FCFS | PRIORITY

definition create_request_queue :: "scheduling_policy \<Rightarrow> 'a request_queue" where
  "create_request_queue policy = (case policy of PRIORITY \<Rightarrow> PriorityRequestQueue [] | FCFS \<Rightarrow> FCFSRequestQueue [])"

fun add_request :: "('a \<Rightarrow> 'a \<Rightarrow> bool) \<Rightarrow> 'a \<Rightarrow> 'a request_queue \<Rightarrow> 'a request_queue" where
  "add_request lt r (FCFSRequestQueue q) = FCFSRequestQueue (q @ [r])"
| "add_request lt r (PriorityRequestQueue h) = PriorityRequestQueue (heappush lt h r)"

fun pop_request :: "('a \<Rightarrow> 'a \<Rightarrow> bool) \<Rightarrow> 'a request_queue \<Rightarrow> ('a \<times> 'a request_queue) res" where
  "pop_request lt (FCFSRequestQueue q) = (case q of [] \<Rightarrow> Inl IndexError | r # q' \<Rightarrow> Inr (r, FCFSRequestQueue q'))"
| "pop_request lt (PriorityRequestQueue h) = bindR (heappop lt h) (\<lambda>(r, h'). Inr (r, PriorityRequestQueue h'))"

fun peek_request :: "'a request_queue \<Rightarrow> 'a res" where
  "peek_request (FCFSRequestQueue q) = (case q of [] \<Rightarrow> Inl IndexError | r # _ \<Rightarrow> Inr r)"
| "peek_request (PriorityRequestQueue h) = (case h of [] \<Rightarrow> Inl IndexError | r # _ \<Rightarrow> Inr r)"

fun prepend_request :: "('a \<Rightarrow> 'a \<Rightarrow> bool) \<Rightarrow> 'a \<Rightarrow> 'a request_queue \<Rightarrow> 'a request_queue" where
  "prepend_request lt r (FCFSRequestQueue q) = FCFSRequestQueue (r # q)"
| "prepend_request lt r (PriorityRequestQueue h) = PriorityRequestQueue (heappush lt h r)"

text \<open>Iteration; the priority queue pops from a copy. \<open>drain\<close> pops at most \<open>n\<close> times.\<close>

fun drain :: "('a \<Rightarrow> 'a \<Rightarrow> bool) \<Rightarrow> nat \<Rightarrow> 'a list \<Rightarrow> 'a list" where
  "drain lt 0 h = []"
| "drain lt (Suc n) h = (case heappop lt h of Inl _ \<Rightarrow> [] | Inr (r, h') \<Rightarrow> r # drain lt n h')"

fun queue_iter :: "('a \<Rightarrow> 'a \<Rightarrow> bool) \<Rightarrow> 'a request_queue \<Rightarrow> 'a list" where
  "queue_iter lt (FCFSRequestQueue q) = q"
| "queue_iter lt (PriorityRequestQueue h) = drain lt (length h) h"

fun prepend_requests :: "('a \<Rightarrow> 'a \<Rightarrow> bool) \<Rightarrow> 'a request_queue \<Rightarrow> 'a request_queue \<Rightarrow> 'a request_queue" where
  "prepend_requests lt rs (FCFSRequestQueue q) = FCFSRequestQueue (rev (queue_iter lt rs) @ q)"
| "prepend_requests lt rs (PriorityRequestQueue h) =
     PriorityRequestQueue (fold (\<lambda>r h. heappush lt h r) (queue_iter lt rs) h)"

fun remove_request :: "('a \<Rightarrow> 'a \<Rightarrow> bool) \<Rightarrow> 'a \<Rightarrow> 'a request_queue \<Rightarrow> 'a request_queue res" where
  "remove_request lt r (FCFSRequestQueue q) = (if r \<in> set q then Inr (FCFSRequestQueue (remove1 r q)) else Inl ValueError)"
| "remove_request lt r (PriorityRequestQueue h) =
     (if r \<in> set h then Inr (PriorityRequestQueue (heapify lt (remove1 r h))) else Inl ValueError)"

fun remove_requests :: "('a \<Rightarrow> 'a \<Rightarrow> bool) \<Rightarrow> 'a list \<Rightarrow> 'a request_queue \<Rightarrow> 'a request_queue" where
  "remove_requests lt rs (FCFSRequestQueue q) = FCFSRequestQueue (filter (\<lambda>r. r \<notin> set rs) q)"
| "remove_requests lt rs (PriorityRequestQueue h) = PriorityRequestQueue (heapify lt (filter (\<lambda>r. r \<notin> set rs) h))"

fun queue_list :: "'a request_queue \<Rightarrow> 'a list" where
  "queue_list (FCFSRequestQueue q) = q"
| "queue_list (PriorityRequestQueue h) = h"

definition queue_len :: "'a request_queue \<Rightarrow> nat" where
  "queue_len q = length (queue_list q)"

definition queue_bool :: "'a request_queue \<Rightarrow> bool" where
  "queue_bool q \<longleftrightarrow> queue_list q \<noteq> []"

section \<open>Heaps in a list\<close>

text \<open>The heap property for parents from \<open>s\<close> on.\<close>

definition heap_from :: "('a \<Rightarrow> 'a \<Rightarrow> bool) \<Rightarrow> nat \<Rightarrow> 'a list \<Rightarrow> bool" where
  "heap_from lt s h \<longleftrightarrow> (\<forall>i<length h. 0 < i \<longrightarrow> s \<le> parent i \<longrightarrow> \<not> lt (h ! i) (h ! parent i))"

inductive below :: "nat \<Rightarrow> nat \<Rightarrow> bool" for s where
  below_refl: "below s s"
| below_step: "below s (parent i) \<Longrightarrow> 0 < i \<Longrightarrow> s \<le> parent i \<Longrightarrow> below s i"

inductive_cases below_cases: "below s i"

lemma below_le: "below s i \<Longrightarrow> s \<le> i"
  by (induction rule: below.induct) (auto dest: parent_less)

lemma below_parent: "below s i \<Longrightarrow> s < i \<Longrightarrow> below s (parent i) \<and> s \<le> parent i"
  by (erule below_cases) (auto dest: below_le)

text \<open>Every edge holds but the one from \<open>pos\<close> to its parent, and the parent of \<open>pos\<close> is not
  above a child of \<open>pos\<close>.\<close>

definition heap_but :: "('a \<Rightarrow> 'a \<Rightarrow> bool) \<Rightarrow> nat \<Rightarrow> nat \<Rightarrow> 'a list \<Rightarrow> bool" where
  "heap_but lt s pos h \<longleftrightarrow> (\<forall>i<length h. 0 < i \<longrightarrow> s \<le> parent i \<longrightarrow> i \<noteq> pos \<longrightarrow> \<not> lt (h ! i) (h ! parent i)) \<and>
     (s < pos \<longrightarrow> (\<forall>i<length h. 0 < i \<longrightarrow> parent i = pos \<longrightarrow> \<not> lt (h ! i) (h ! parent pos)))"

text \<open>Every edge holds that does not touch \<open>pos\<close>.\<close>

definition heap_hole :: "('a \<Rightarrow> 'a \<Rightarrow> bool) \<Rightarrow> nat \<Rightarrow> nat \<Rightarrow> 'a list \<Rightarrow> bool" where
  "heap_hole lt s pos h \<longleftrightarrow>
     (\<forall>i<length h. 0 < i \<longrightarrow> s \<le> parent i \<longrightarrow> i \<noteq> pos \<longrightarrow> parent i \<noteq> pos \<longrightarrow> \<not> lt (h ! i) (h ! parent i)) \<and>
     (s < pos \<longrightarrow> (\<forall>i<length h. 0 < i \<longrightarrow> parent i = pos \<longrightarrow> \<not> lt (h ! i) (h ! parent pos)))"

lemma mset_move:
  assumes "pos < length h" "c < length h" "c \<noteq> pos"
  shows "mset ((h[pos := h ! c])[c := x]) = mset (h[pos := x])"
proof -
  have "(h[pos := h ! c])[c := x] = (h[pos := x])[pos := (h[pos := x]) ! c, c := (h[pos := x]) ! pos]"
    using assms by (simp add: list_update_swap)
  moreover have "mset ((h[pos := x])[pos := (h[pos := x]) ! c, c := (h[pos := x]) ! pos]) = mset (h[pos := x])"
    by (rule mset_swap) (use assms in auto)
  ultimately show ?thesis by simp
qed

locale heap_order =
  fixes lt :: "'a \<Rightarrow> 'a \<Rightarrow> bool"
  assumes lt_asym: "lt a b \<Longrightarrow> \<not> lt b a"
    and nlt_trans: "\<not> lt b a \<Longrightarrow> \<not> lt c b \<Longrightarrow> \<not> lt c a"
begin

lemma heap_but_step:
  assumes "pos < length h" "below s pos" "s < pos" "heap_but lt s pos (h[pos := x])" "lt x (h ! parent pos)"
  shows "heap_but lt s (parent pos) ((h[pos := h ! parent pos])[parent pos := x])"
proof -
  let ?p = "parent pos"
  let ?h = "(h[pos := h ! ?p])[?p := x]"
  have p: "?p < pos" "s \<le> ?p" "0 < pos" using below_parent [OF assms(2,3)] assms(3) parent_less [of pos] by auto
  have e: "\<not> lt ((h[pos := x]) ! i) ((h[pos := x]) ! parent i)" if "i < length h" "0 < i" "s \<le> parent i" "i \<noteq> pos" for i
    using assms(4) that by (simp add: heap_but_def)
  have k: "\<not> lt (h ! i) (h ! ?p)" if "i < length h" "0 < i" "parent i = pos" for i
  proof -
    have "i \<noteq> pos" using that(3) parent_less [OF that(2)] by simp
    then show ?thesis using assms(3,4) that p(1) by (auto simp: heap_but_def)
  qed
  have sib: "\<not> lt (h ! i) (h ! ?p)" if "i < length h" "0 < i" "parent i = ?p" "i \<noteq> pos" for i
    using e [OF that(1,2) _ that(4)] that p by simp
  have edge: "\<not> lt (?h ! i) (?h ! parent i)" if i: "i < length h" "0 < i" "s \<le> parent i" "i \<noteq> ?p" for i
  proof -
    consider (a) "i = pos" | (b) "i \<noteq> pos" "parent i = pos" | (c) "i \<noteq> pos" "parent i = ?p" | (d) "i \<noteq> pos" "parent i \<noteq> pos" "parent i \<noteq> ?p"
      by blast
    then show ?thesis
    proof cases
      case a
      then show ?thesis using lt_asym [OF assms(5)] assms(1) p i by simp
    next
      case b
      then show ?thesis using k [OF i(1,2)] i assms(1) p by simp
    next
      case c
      then show ?thesis using nlt_trans [OF lt_asym [OF assms(5)] sib [OF i(1,2)]] i assms(1) p by simp
    next
      case d
      then show ?thesis using e [OF i(1-3)] i by simp
    qed
  qed
  have up: "\<not> lt (?h ! i) (?h ! parent ?p)" if i: "s < ?p" "i < length h" "0 < i" "parent i = ?p" for i
  proof -
    have pp: "parent ?p < ?p" "s \<le> parent ?p" using below_parent [of s ?p] below_parent [OF assms(2,3)] i(1) parent_less [of ?p] by auto
    have g: "\<not> lt (h ! ?p) (h ! parent ?p)" using e [of ?p] pp p assms(1) by simp
    show ?thesis
    proof (cases "i = pos")
      case True
      then show ?thesis using g pp p assms(1) by simp
    next
      case False
      then show ?thesis using nlt_trans [OF g sib [OF i(2-4)]] pp p i parent_less [OF i(3)] by simp
    qed
  qed
  show ?thesis unfolding heap_but_def using edge up by simp
qed

lemma siftdown_spec:
  assumes "pos < length h" "below s pos" "heap_but lt s pos (h[pos := x])"
  shows "heap_from lt s (siftdown lt s pos x h) \<and> mset (siftdown lt s pos x h) = mset (h[pos := x]) \<and>
     length (siftdown lt s pos x h) = length h"
  using assms
proof (induction pos arbitrary: h rule: less_induct)
  case (less pos)
  let ?p = "parent pos"
  show ?case
  proof (cases "s < pos \<and> lt x (h ! ?p)")
    case True
    have p: "?p < pos" "below s ?p" using below_parent [OF less.prems(2)] True parent_less [of pos] by auto
    have eq: "siftdown lt s pos x h = siftdown lt s ?p x (h[pos := h ! ?p])" using True by (subst siftdown.simps) simp
    have "heap_but lt s ?p ((h[pos := h ! ?p])[?p := x])" using heap_but_step [OF less.prems(1,2) _ less.prems(3)] True by simp
    then show ?thesis
      using less.IH [OF p(1), of "h[pos := h ! ?p]"] less.prems(1) p mset_move [of pos h ?p x] unfolding eq by simp
  next
    case False
    then have eq: "siftdown lt s pos x h = h[pos := x]" by (subst siftdown.simps) auto
    have "\<not> lt ((h[pos := x]) ! i) ((h[pos := x]) ! parent i)" if i: "i < length h" "0 < i" "s \<le> parent i" for i
    proof (cases "i = pos")
      case True
      then have "s < pos" using i parent_less [of pos] by simp
      then show ?thesis using False True i parent_less [of pos] by simp
    next
      case ne: False
      then show ?thesis using less.prems(3) i by (simp add: heap_but_def)
    qed
    then show ?thesis unfolding eq by (simp add: heap_from_def)
  qed
qed

lemma smaller_child_spec:
  assumes "2 * pos + 1 < length h"
  shows "smaller_child lt h pos < length h" "parent (smaller_child lt h pos) = pos" "pos < smaller_child lt h pos"
    "i < length h \<Longrightarrow> 0 < i \<Longrightarrow> parent i = pos \<Longrightarrow> \<not> lt (h ! i) (h ! smaller_child lt h pos)"
proof -
  have irr: "\<not> lt a a" for a using lt_asym by blast
  show "smaller_child lt h pos < length h" "parent (smaller_child lt h pos) = pos" "pos < smaller_child lt h pos"
    using assms by (auto simp: smaller_child_def Let_def)
  show "\<not> lt (h ! i) (h ! smaller_child lt h pos)" if "i < length h" "0 < i" "parent i = pos"
  proof -
    have "i = 2 * pos + 1 \<or> i = 2 * pos + 2" using parent_cases [OF that(2)] that(3) by simp
    then show ?thesis using that irr lt_asym by (auto simp: smaller_child_def Let_def)
  qed
qed

lemma heap_hole_step:
  assumes "2 * pos + 1 < length h" "below s pos" "heap_hole lt s pos h"
  defines "c \<equiv> smaller_child lt h pos"
  shows "heap_hole lt s c (h[pos := h ! c])"
proof -
  note C = smaller_child_spec [OF assms(1), folded c_def]
  let ?h = "h[pos := h ! c]"
  have sp: "s \<le> pos" using below_le [OF assms(2)] .
  have edge: "\<not> lt (?h ! i) (?h ! parent i)" if i: "i < length h" "0 < i" "s \<le> parent i" "i \<noteq> c" "parent i \<noteq> c" for i
  proof -
    consider (a) "i = pos" | (b) "i \<noteq> pos" "parent i = pos" | (c) "i \<noteq> pos" "parent i \<noteq> pos" by blast
    then show ?thesis
    proof cases
      case a
      then have "s < pos" "parent pos < pos" using i parent_less [of pos] by auto
      then show ?thesis using a assms(3) C i by (auto simp: heap_hole_def)
    next
      case b
      then show ?thesis using C(4) [OF i(1,2)] i assms(1) by simp
    next
      case c
      then show ?thesis using assms(3) i by (simp add: heap_hole_def)
    qed
  qed
  moreover have "\<not> lt (?h ! i) (?h ! parent c)" if i: "i < length h" "0 < i" "parent i = c" for i
  proof -
    have "i \<noteq> pos" "i \<noteq> c" using i parent_less [OF i(2)] C(3) by auto
    moreover have "\<not> lt (h ! i) (h ! parent i)" using assms(3) i calculation C(3) sp by (auto simp: heap_hole_def)
    ultimately show ?thesis using C i by simp
  qed
  ultimately show ?thesis unfolding heap_hole_def by simp
qed

lemma siftup_loop_spec:
  assumes "pos < length h" "below s pos" "heap_hole lt s pos h"
  shows "\<exists>pos' h'. siftup_loop lt pos h = (pos', h') \<and> pos' < length h' \<and> length h' = length h \<and> below s pos' \<and>
     heap_hole lt s pos' h' \<and> length h \<le> 2 * pos' + 1 \<and> (\<forall>x. mset (h'[pos' := x]) = mset (h[pos := x]))"
  using assms
proof (induction "length h - pos" arbitrary: pos h rule: less_induct)
  case less
  show ?case
  proof (cases "2 * pos + 1 < length h")
    case False
    then have "siftup_loop lt pos h = (pos, h)" by (subst siftup_loop.simps) simp
    then show ?thesis using less.prems False by auto
  next
    case True
    let ?c = "smaller_child lt h pos"
    note C = smaller_child_spec [OF True]
    have b: "below s ?c" by (rule below_step) (use C less.prems(2) below_le [OF less.prems(2)] in auto)
    have "length (h[pos := h ! ?c]) - ?c < length h - pos" using C by simp
    from less.hyps [OF this] obtain pos' h' where
      k: "siftup_loop lt ?c (h[pos := h ! ?c]) = (pos', h')" "pos' < length h'" "length h' = length h" "below s pos'" "heap_hole lt s pos' h'"
        "length h \<le> 2 * pos' + 1" "\<forall>x. mset (h'[pos' := x]) = mset ((h[pos := h ! ?c])[?c := x])"
      using C b heap_hole_step [OF True less.prems(2,3)] by auto
    have "siftup_loop lt pos h = (pos', h')" using True k(1) by (subst siftup_loop.simps) simp
    moreover have "\<forall>x. mset (h'[pos' := x]) = mset (h[pos := x])" using k(7) mset_move [of pos h ?c] less.prems(1) C by simp
    ultimately show ?thesis using k by blast
  qed
qed

lemma siftup_spec:
  assumes "s < length h" "heap_from lt (Suc s) h"
  shows "heap_from lt s (siftup lt s h) \<and> mset (siftup lt s h) = mset h \<and> length (siftup lt s h) = length h"
proof -
  have "heap_hole lt s s h" using assms(2) by (auto simp: heap_hole_def heap_from_def)
  from siftup_loop_spec [OF assms(1) below_refl this] obtain pos' h' where
    k: "siftup_loop lt s h = (pos', h')" "pos' < length h'" "length h' = length h" "below s pos'" "heap_hole lt s pos' h'"
      "length h \<le> 2 * pos' + 1" "\<forall>x. mset (h'[pos' := x]) = mset (h[s := x])" by blast
  have leaf: "pos' \<noteq> parent i" if "i < length h'" "0 < i" for i using that k(3,6) parent_cases [OF that(2)] by auto
  have "heap_but lt s pos' (h'[pos' := h ! s])"
    using k(5) leaf unfolding heap_hole_def heap_but_def by (auto dest: leaf)
  from siftdown_spec [OF k(2,4) this] show ?thesis using k(1,3,7) by (simp add: siftup_def)
qed

lemma heapify_spec: "heap_from lt 0 (heapify lt xs) \<and> mset (heapify lt xs) = mset xs"
proof -
  have "heap_from lt 0 (fold (siftup lt) (rev [0..<n]) h) \<and> mset (fold (siftup lt) (rev [0..<n]) h) = mset h"
    if "heap_from lt n h" "n \<le> length h" for n h
    using that
  proof (induction n arbitrary: h)
    case (Suc n)
    from siftup_spec [of n h] Suc.prems have "heap_from lt n (siftup lt n h)" "mset (siftup lt n h) = mset h" "length (siftup lt n h) = length h"
      by auto
    then show ?case using Suc.IH [of "siftup lt n h"] Suc.prems by simp
  qed simp
  moreover have "heap_from lt (length xs div 2) xs"
  proof -
    have "\<not> length xs div 2 \<le> parent i" if "i < length xs" "0 < i" for i using that parent_cases [OF that(2)] by presburger
    then show ?thesis by (auto simp: heap_from_def)
  qed
  ultimately show ?thesis by (simp add: heapify_def)
qed

lemma heappush_spec:
  assumes "heap_from lt 0 h"
  shows "heap_from lt 0 (heappush lt h x) \<and> mset (heappush lt h x) = add_mset x (mset h)"
proof -
  have b: "below 0 i" for i
  proof (induction i rule: less_induct)
    case (less i)
    then show ?case using parent_less [of i] below_step [of 0 i] below_refl [of 0] by (cases "i = 0") auto
  qed
  have par: "parent i < length h" if "i < Suc (length h)" "0 < i" for i using that parent_less [OF that(2)] by simp
  have "heap_but lt 0 (length h) ((h @ [x])[length h := x])"
    unfolding heap_but_def
  proof (intro conjI impI allI)
    fix i assume i: "i < length ((h @ [x])[length h := x])" "0 < i"
    then have p: "parent i < length h" using par by simp
    show "\<not> lt ((h @ [x])[length h := x] ! i) ((h @ [x])[length h := x] ! parent i)" if "i \<noteq> length h"
      using assms i p that by (simp add: heap_from_def nth_append)
    show "\<not> lt ((h @ [x])[length h := x] ! i) ((h @ [x])[length h := x] ! parent (length h))" if "parent i = length h"
      using p that by simp
  qed
  from siftdown_spec [OF _ b this] show ?thesis by (simp add: heappush_def)
qed

lemma heap_root_min:
  assumes "heap_from lt 0 h" "i < length h"
  shows "\<not> lt (h ! i) (h ! 0)"
  using assms(2)
proof (induction i rule: less_induct)
  case (less i)
  show ?case
  proof (cases "i = 0")
    case True
    then show ?thesis using lt_asym by blast
  next
    case False
    then have "\<not> lt (h ! parent i) (h ! 0)" "\<not> lt (h ! i) (h ! parent i)"
      using less parent_less [of i] assms(1) by (auto simp: heap_from_def)
    then show ?thesis by (rule nlt_trans)
  qed
qed

lemma heappop_spec:
  assumes "heap_from lt 0 h" "h \<noteq> []"
  shows "\<exists>h'. heappop lt h = Inr (h ! 0, h') \<and> heap_from lt 0 h' \<and> mset h = add_mset (h ! 0) (mset h') \<and>
     (\<forall>r\<in>set h. \<not> lt r (h ! 0))"
proof -
  have min: "\<forall>r\<in>set h. \<not> lt r (h ! 0)" using heap_root_min [OF assms(1)] by (auto simp: in_set_conv_nth)
  show ?thesis
  proof (cases "butlast h = []")
    case True
    then obtain a where "h = [a]" using assms(2) by (cases h) (auto split: if_splits)
    then show ?thesis using min by (simp add: heappop_def heap_from_def)
  next
    case False
    let ?r = "(butlast h)[0 := last h]"
    obtain a t where b: "butlast h = a # t" using False by (cases "butlast h") auto
    have h: "h = a # t @ [last h]" using append_butlast_last_id [OF assms(2)] b by simp
    have "heap_from lt (Suc 0) ?r"
      unfolding heap_from_def
    proof (intro allI impI)
      fix i assume i: "i < length ?r" "0 < i" "Suc 0 \<le> parent i"
      have p: "parent i < i" "0 < parent i" using i parent_less by auto
      have e: "(butlast h)[0 := last h] ! j = h ! j" if "0 < j" "j < length (butlast h)" for j
        using that by (simp add: nth_butlast)
      have "\<not> lt (h ! i) (h ! parent i)" using assms(1) i by (auto simp: heap_from_def)
      then show "\<not> lt (?r ! i) (?r ! parent i)" using e [of i] e [of "parent i"] i p by simp
    qed
    from siftup_spec [OF _ this] have s: "heap_from lt 0 (siftup lt 0 ?r)" "mset (siftup lt 0 ?r) = mset ?r" using b by auto
    have "h ! 0 = a" by (subst h) simp
    then have "heappop lt h = Inr (h ! 0, siftup lt 0 ?r)" using assms(2) b by (simp add: heappop_def Let_def)
    moreover have "mset h = add_mset (h ! 0) (mset ?r)"
    proof -
      have "mset ?r = add_mset (last h) (mset t)" using b by simp
      then show ?thesis by (subst h, subst (2) h) simp
    qed
    ultimately show ?thesis using s min by auto
  qed
qed

end

section \<open>The interface\<close>

fun pops :: "('q \<Rightarrow> ('a \<times> 'q) res) \<Rightarrow> nat \<Rightarrow> 'q \<Rightarrow> ('a list \<times> 'q) res" where
  "pops pop 0 q = Inr ([], q)"
| "pops pop (Suc n) q = bindR (pop q) (\<lambda>(x, q'). bindR (pops pop n q') (\<lambda>(xs, q''). Inr (x # xs, q'')))"

locale request_queue_spec =
  fixes inv :: "'q \<Rightarrow> bool"
    and elems :: "'q \<Rightarrow> 'a multiset"
    and add :: "'a \<Rightarrow> 'q \<Rightarrow> 'q"
    and prepend :: "'a \<Rightarrow> 'q \<Rightarrow> 'q"
    and pop :: "'q \<Rightarrow> ('a \<times> 'q) res"
    and peek :: "'q \<Rightarrow> 'a res"
    and remove :: "'a \<Rightarrow> 'q \<Rightarrow> 'q res"
    and remove_all :: "'a list \<Rightarrow> 'q \<Rightarrow> 'q"
  assumes add_ok: "inv q \<Longrightarrow> inv (add x q) \<and> elems (add x q) = add_mset x (elems q)"
    and prepend_ok: "inv q \<Longrightarrow> inv (prepend x q) \<and> elems (prepend x q) = add_mset x (elems q)"
    and pop_ok: "inv q \<Longrightarrow> elems q \<noteq> {#} \<Longrightarrow>
          \<exists>x q'. pop q = Inr (x, q') \<and> peek q = Inr x \<and> inv q' \<and> elems q = add_mset x (elems q')"
    and pop_empty: "inv q \<Longrightarrow> elems q = {#} \<Longrightarrow> pop q = Inl IndexError \<and> peek q = Inl IndexError"
    and remove_ok: "inv q \<Longrightarrow> x \<in># elems q \<Longrightarrow> \<exists>q'. remove x q = Inr q' \<and> inv q' \<and> elems q' = elems q - {#x#}"
    and remove_absent: "inv q \<Longrightarrow> x \<notin># elems q \<Longrightarrow> remove x q = Inl ValueError"
    and remove_all_ok: "inv q \<Longrightarrow> inv (remove_all xs q) \<and> elems (remove_all xs q) = filter_mset (\<lambda>x. x \<notin> set xs) (elems q)"
begin

text \<open>Popping until empty gives every element exactly once.\<close>

lemma pops_all: "inv q \<Longrightarrow> \<exists>xs q'. pops pop (size (elems q)) q = Inr (xs, q') \<and> mset xs = elems q \<and> inv q' \<and> elems q' = {#}"
proof (induction "size (elems q)" arbitrary: q)
  case 0
  then show ?case by auto
next
  case (Suc n)
  then have "elems q \<noteq> {#}" by auto
  with pop_ok [OF Suc.prems] obtain x q1 where
    p: "pop q = Inr (x, q1)" "inv q1" "elems q = add_mset x (elems q1)" by blast
  then have "n = size (elems q1)" using Suc(2) by simp
  from Suc(1) [OF this p(2)] show ?case using p Suc(2) by (auto simp: bindR_def)
qed

lemma add_then_remove:
  assumes "inv q"
  shows "\<exists>q'. remove x (add x q) = Inr q' \<and> inv q' \<and> elems q' = elems q"
  using add_ok [OF assms, of x] remove_ok [of "add x q" x] by auto

end

definition queue_ok :: "('a \<Rightarrow> 'a \<Rightarrow> bool) \<Rightarrow> 'a request_queue \<Rightarrow> bool" where
  "queue_ok lt q = (case q of PriorityRequestQueue h \<Rightarrow> heap_from lt 0 h | FCFSRequestQueue _ \<Rightarrow> True)"

abbreviation queue_elems :: "'a request_queue \<Rightarrow> 'a multiset" where
  "queue_elems q \<equiv> mset (queue_list q)"

sublocale heap_order \<subseteq> rq: request_queue_spec "queue_ok lt" queue_elems "add_request lt" "prepend_request lt" "pop_request lt"
  peek_request "remove_request lt" "remove_requests lt"
proof unfold_locales
  fix q :: "'a request_queue" and x assume q: "queue_ok lt q"
  show "queue_ok lt (add_request lt x q) \<and> queue_elems (add_request lt x q) = add_mset x (queue_elems q)"
    "queue_ok lt (prepend_request lt x q) \<and> queue_elems (prepend_request lt x q) = add_mset x (queue_elems q)"
    using q heappush_spec by (cases q; auto simp: queue_ok_def)+
  show "\<exists>x q'. pop_request lt q = Inr (x, q') \<and> peek_request q = Inr x \<and> queue_ok lt q' \<and> queue_elems q = add_mset x (queue_elems q')"
    if ne: "queue_elems q \<noteq> {#}"
  proof (cases q)
    case (FCFSRequestQueue l)
    then show ?thesis using ne by (cases l) (auto simp: queue_ok_def)
  next
    case (PriorityRequestQueue h)
    then obtain h' where "heappop lt h = Inr (h ! 0, h')" "heap_from lt 0 h'" "mset h = add_mset (h ! 0) (mset h')"
      using heappop_spec [of h] q ne by (auto simp: queue_ok_def)
    then show ?thesis using PriorityRequestQueue ne by (cases h) (auto simp: queue_ok_def)
  qed
  show "pop_request lt q = Inl IndexError \<and> peek_request q = Inl IndexError" if "queue_elems q = {#}"
    using that by (cases q) (auto simp: heappop_def)
  show "\<exists>q'. remove_request lt x q = Inr q' \<and> queue_ok lt q' \<and> queue_elems q' = queue_elems q - {#x#}" if "x \<in># queue_elems q"
    using that heapify_spec by (cases q) (auto simp: queue_ok_def)
  show "remove_request lt x q = Inl ValueError" if "x \<notin># queue_elems q" using that by (cases q) auto
  show "queue_ok lt (remove_requests lt xs q) \<and>
      queue_elems (remove_requests lt xs q) = filter_mset (\<lambda>x. x \<notin> set xs) (queue_elems q)" for xs
    using heapify_spec by (cases q) (auto simp: queue_ok_def mset_filter)
qed

context heap_order
begin

lemma pops_sorted:
  "heap_from lt 0 h \<Longrightarrow> pops (pop_request lt) n (PriorityRequestQueue h) = Inr (xs, q') \<Longrightarrow>
     sorted_wrt (\<lambda>a b. \<not> lt b a) xs \<and> set xs \<subseteq> set h"
proof (induction n arbitrary: h xs)
  case (Suc n)
  have "h \<noteq> []" using Suc.prems(2) by (auto simp: heappop_def)
  from heappop_spec [OF Suc.prems(1) this] obtain h' where
    h': "heappop lt h = Inr (h ! 0, h')" "heap_from lt 0 h'" "mset h = add_mset (h ! 0) (mset h')" "\<forall>r\<in>set h. \<not> lt r (h ! 0)" by blast
  obtain ys where ys: "xs = h ! 0 # ys" "pops (pop_request lt) n (PriorityRequestQueue h') = Inr (ys, q')"
    using Suc.prems(2) h'(1) by (auto simp: bindR_eq_Inr)
  have "set h = insert (h ! 0) (set h')" using arg_cong [OF h'(3), of set_mset] by simp
  then show ?case using Suc.IH [OF h'(2) ys(2)] h'(4) ys(1) by auto
qed simp

end

lemma request_lt_nlt_trans: "\<not> request_lt b a \<Longrightarrow> \<not> request_lt c b \<Longrightarrow> \<not> request_lt c a"
  using str_less_linear str_less_trans unfolding request_lt_def by (auto split: if_splits) metis+

lemma request_lt_asym: "request_lt a b \<Longrightarrow> \<not> request_lt b a"
  using request_lt_trans request_lt_irrefl by blast

interpretation req_order: heap_order request_lt
  by unfold_locales (erule request_lt_asym, erule (1) request_lt_nlt_trans)

section \<open>Runs of a queue\<close>

fun policy_of :: "'a request_queue \<Rightarrow> scheduling_policy" where
  "policy_of (FCFSRequestQueue _) = FCFS"
| "policy_of (PriorityRequestQueue _) = PRIORITY"

text \<open>What happened to a queue, the latest event first: a request was added, was prepended, was
  taken out (returned by \<^verbatim>\<open>pop_request\<close> or named to \<^verbatim>\<open>remove_request\<close>), or several were removed.\<close>

datatype queue_event = Added request | Prepended request | Taken request | Dropped "request list"

inductive queue_run :: "scheduling_policy \<Rightarrow> queue_event list \<Rightarrow> request request_queue \<Rightarrow> bool" for policy where
  run_create: "queue_run policy [] (create_request_queue policy)"
| run_add: "queue_run policy h q \<Longrightarrow> queue_run policy (Added r # h) (add_request request_lt r q)"
| run_prepend: "queue_run policy h q \<Longrightarrow> queue_run policy (Prepended r # h) (prepend_request request_lt r q)"
| run_pop: "queue_run policy h q \<Longrightarrow> pop_request request_lt q = Inr (r, q') \<Longrightarrow> queue_run policy (Taken r # h) q'"
| run_prepend_all: "queue_run policy h q \<Longrightarrow>
    queue_run policy (rev (map Prepended (queue_iter request_lt qs)) @ h) (prepend_requests request_lt qs q)"
| run_remove: "queue_run policy h q \<Longrightarrow> remove_request request_lt r q = Inr q' \<Longrightarrow> queue_run policy (Taken r # h) q'"
| run_remove_all: "queue_run policy h q \<Longrightarrow> queue_run policy (Dropped rs # h) (remove_requests request_lt rs q)"

text \<open>Who waits after a history, with tickets: the \<open>n\<close>-th event hands out the ticket \<open>n\<close> to an added
  request and \<open>-n\<close> to a prepended one, so that a smaller ticket means an earlier turn. A request
  that is taken out gives back its earliest ticket. No queue is involved.\<close>

fun turns :: "queue_event list \<Rightarrow> (int \<times> request) list" where
  "turns [] = []"
| "turns (Added r # h) = (int (length h) + 1, r) # turns h"
| "turns (Prepended r # h) = (- int (length h) - 1, r) # turns h"
| "turns (Taken r # h) =
     (let ts = map fst (filter (\<lambda>e. snd e = r) (turns h))
      in if ts = [] then turns h else remove1 (Min (set ts), r) (turns h))"
| "turns (Dropped rs # h) = filter (\<lambda>e. snd e \<notin> set rs) (turns h)"

text \<open>A deque that is the line of tickets, a heap that holds the requests of the line.\<close>

definition in_turn :: "queue_event list \<Rightarrow> request request_queue \<Rightarrow> bool" where
  "in_turn h q \<longleftrightarrow> (case q of
     FCFSRequestQueue l \<Rightarrow> \<exists>L. map snd L = l \<and> mset L = mset (turns h) \<and> sorted_wrt (<) (map fst L) \<and>
       (\<forall>e\<in>set L. \<bar>fst e\<bar> \<le> int (length h))
   | PriorityRequestQueue p \<Rightarrow> mset p = mset (map snd (turns h)))"

lemma turns_take_first:
  assumes "mset (A @ (t, r) # B) = mset (turns h)" "sorted_wrt (<) (map fst (A @ (t, r) # B))" "r \<notin> snd ` set A"
  shows "mset (A @ B) = mset (turns (Taken r # h))"
proof -
  let ?ts = "map fst (filter (\<lambda>e. snd e = r) (turns h))"
  have s: "set (turns h) = insert (t, r) (set A \<union> set B)" using arg_cong [OF assms(1), of set_mset] by auto
  have m: "\<forall>e\<in>set B. t < fst e" using assms(2) by (auto simp: sorted_wrt_append)
  have "Min (set ?ts) = t"
  proof (rule Min_eqI)
    show "t \<in> set ?ts" using s by force
    show "t \<le> x" if "x \<in> set ?ts" for x
    proof -
      have "\<exists>e. e \<in> set (turns h) \<and> snd e = r \<and> x = fst e" using that by force
      then obtain e where e: "e \<in> set (turns h)" "snd e = r" "x = fst e" by blast
      then have "e \<notin> set A" using assms(3) by auto
      then have "e = (t, r) \<or> e \<in> set B" using e(1) s by auto
      then show ?thesis using m e(3) by fastforce
    qed
  qed simp
  moreover have "?ts \<noteq> []" using s by (auto simp: filter_empty_conv)
  ultimately have "mset (turns (Taken r # h)) = mset (turns h) - {#(t, r)#}" by (simp add: Let_def)
  then show ?thesis unfolding assms(1) [symmetric] by simp
qed

lemma turns_take_elem:
  assumes "r \<in> snd ` set (turns h)"
  shows "mset (map snd (turns (Taken r # h))) = mset (map snd (turns h)) - {#r#}"
proof -
  let ?ts = "map fst (filter (\<lambda>e. snd e = r) (turns h))"
  have ne: "?ts \<noteq> []" using assms by (auto simp: filter_empty_conv)
  have "Min (set ?ts) \<in> set ?ts" by (intro Min_in, simp, unfold set_empty) (rule ne)
  moreover have "(t, r) \<in> set (turns h)" if "t \<in> set ?ts" for t using that by auto
  ultimately have "(Min (set ?ts), r) \<in> set (turns h)" by blast
  then have "mset (turns h) = add_mset (Min (set ?ts), r) (mset (turns (Taken r # h)))" using ne by (simp add: Let_def)
  then have "image_mset snd (mset (turns h)) = add_mset r (image_mset snd (mset (turns (Taken r # h))))" by simp
  then show ?thesis by (metis add_mset_remove_trivial mset_map)
qed

lemma sorted_split:
  assumes "r \<in> snd ` set L"
  obtains A t B where "L = A @ (t, r) # B" "r \<notin> snd ` set A" "remove1 r (map snd L) = map snd (A @ B)"
proof -
  have "\<exists>e\<in>set L. snd e = r" using assms by auto
  from split_list_first_prop [OF this] obtain A e B where s: "L = A @ e # B" "snd e = r" "\<forall>e\<in>set A. snd e \<noteq> r" by blast
  then have "L = A @ (fst e, r) # B" "r \<notin> snd ` set A" "remove1 r (map snd L) = map snd (A @ B)"
    by (auto simp: remove1_append)
  then show ?thesis by (rule that)
qed

lemma in_turn_fcfs:
  "in_turn h (FCFSRequestQueue l) \<longleftrightarrow> (\<exists>L. map snd L = l \<and> mset L = mset (turns h) \<and> sorted_wrt (<) (map fst L) \<and>
     (\<forall>e\<in>set L. \<bar>fst e\<bar> \<le> int (length h)))"
  by (simp add: in_turn_def)

lemma in_turn_priority: "policy_of q = PRIORITY \<Longrightarrow> in_turn h q \<longleftrightarrow> queue_elems q = mset (map snd (turns h))"
  by (cases q) (simp_all add: in_turn_def)

definition run_ok :: "scheduling_policy \<Rightarrow> queue_event list \<Rightarrow> request request_queue \<Rightarrow> bool" where
  "run_ok policy h q \<longleftrightarrow> queue_ok request_lt q \<and> policy_of q = policy \<and> in_turn h q"

lemma run_okD: "run_ok policy h q \<Longrightarrow> queue_ok request_lt q" "run_ok policy h q \<Longrightarrow> policy_of q = policy"
  by (simp_all add: run_ok_def)

lemma run_ok_add:
  assumes "run_ok policy h q"
  shows "run_ok policy (Added r # h) (add_request request_lt r q)"
proof -
  have k: "queue_ok request_lt (add_request request_lt r q)" "queue_elems (add_request request_lt r q) = add_mset r (queue_elems q)"
    using req_order.rq.add_ok [OF run_okD(1) [OF assms]] by simp_all
  have "in_turn (Added r # h) (add_request request_lt r q)"
  proof (cases q)
    case (FCFSRequestQueue l)
    then obtain L where L: "map snd L = l" "mset L = mset (turns h)" "sorted_wrt (<) (map fst L)" "\<forall>e\<in>set L. \<bar>fst e\<bar> \<le> int (length h)"
      using assms by (auto simp: run_ok_def in_turn_fcfs)
    have "\<forall>e\<in>set L. fst e < int (length h) + 1" using L(4) by fastforce
    then show ?thesis unfolding FCFSRequestQueue add_request.simps in_turn_fcfs using L
      by (intro exI [of _ "L @ [(int (length h) + 1, r)]"]) (auto simp: sorted_wrt_append)
  qed (use assms k(2) in \<open>auto simp: run_ok_def in_turn_priority\<close>)
  then show ?thesis using assms k(1) by (cases q) (auto simp: run_ok_def)
qed

lemma run_ok_prepend:
  assumes "run_ok policy h q"
  shows "run_ok policy (Prepended r # h) (prepend_request request_lt r q)"
proof -
  have k: "queue_ok request_lt (prepend_request request_lt r q)"
      "queue_elems (prepend_request request_lt r q) = add_mset r (queue_elems q)"
    using req_order.rq.prepend_ok [OF run_okD(1) [OF assms]] by simp_all
  have "in_turn (Prepended r # h) (prepend_request request_lt r q)"
  proof (cases q)
    case (FCFSRequestQueue l)
    then obtain L where L: "map snd L = l" "mset L = mset (turns h)" "sorted_wrt (<) (map fst L)" "\<forall>e\<in>set L. \<bar>fst e\<bar> \<le> int (length h)"
      using assms by (auto simp: run_ok_def in_turn_fcfs)
    have "\<forall>e\<in>set L. - int (length h) - 1 < fst e" using L(4) by fastforce
    then show ?thesis unfolding FCFSRequestQueue prepend_request.simps in_turn_fcfs using L
      by (intro exI [of _ "(- int (length h) - 1, r) # L"]) auto
  qed (use assms k(2) in \<open>auto simp: run_ok_def in_turn_priority\<close>)
  then show ?thesis using assms k(1) by (cases q) (auto simp: run_ok_def)
qed

lemma prepend_requests_fold:
  "prepend_requests lt qs q = fold (\<lambda>r q. prepend_request lt r q) (queue_iter lt qs) q"
proof (cases q)
  case (FCFSRequestQueue l)
  have "fold (\<lambda>r q. prepend_request lt r q) rs (FCFSRequestQueue l) = FCFSRequestQueue (rev rs @ l)" for rs l
    by (induction rs arbitrary: l) auto
  then show ?thesis using FCFSRequestQueue by simp
next
  case (PriorityRequestQueue p)
  have "fold (\<lambda>r q. prepend_request lt r q) rs (PriorityRequestQueue p) = PriorityRequestQueue (fold (\<lambda>r h. heappush lt h r) rs p)" for rs p
    by (induction rs arbitrary: p) auto
  then show ?thesis using PriorityRequestQueue by simp
qed

lemma run_ok_prepends:
  "run_ok policy h q \<Longrightarrow> run_ok policy (rev (map Prepended rs) @ h) (fold (\<lambda>r q. prepend_request request_lt r q) rs q)"
proof (induction rs arbitrary: h q)
  case (Cons r rs)
  from Cons.IH [OF run_ok_prepend [OF Cons.prems, of r]] show ?case by simp
qed simp

text \<open>Taking a request out, by either operation.\<close>

lemma run_ok_take:
  assumes "run_ok policy h q" "queue_ok request_lt q'" "policy_of q' = policy_of q" "queue_elems q = add_mset r (queue_elems q')"
    and "\<And>l l'. q = FCFSRequestQueue l \<Longrightarrow> q' = FCFSRequestQueue l' \<Longrightarrow> l' = remove1 r l"
  shows "run_ok policy (Taken r # h) q'"
proof -
  have "in_turn (Taken r # h) q'"
  proof (cases q)
    case (FCFSRequestQueue l)
    then obtain l' where q': "q' = FCFSRequestQueue l'" using assms(3) by (cases q') auto
    obtain L where L: "map snd L = l" "mset L = mset (turns h)" "sorted_wrt (<) (map fst L)" "\<forall>e\<in>set L. \<bar>fst e\<bar> \<le> int (length h)"
      using assms(1) FCFSRequestQueue by (auto simp: run_ok_def in_turn_fcfs)
    have "r \<in># queue_elems q" using assms(4) by simp
    then have "r \<in> snd ` set L" using L(1) FCFSRequestQueue by auto
    then obtain A t B where s: "L = A @ (t, r) # B" "r \<notin> snd ` set A" "remove1 r (map snd L) = map snd (A @ B)"
      by (rule sorted_split)
    have "mset (A @ B) = mset (turns (Taken r # h))" using turns_take_first s L(2,3) by metis
    moreover have "sorted_wrt (<) (map fst (A @ B))" using L(3) unfolding s(1) by (auto simp: sorted_wrt_append)
    moreover have "\<bar>fst e\<bar> \<le> int (length (Taken r # h))" if "e \<in> set (A @ B)" for e
      using bspec [OF L(4), of e] that by (auto simp: s(1))
    moreover have "map snd (A @ B) = l'" using assms(5) [OF FCFSRequestQueue q'] s(3) L(1) by simp
    ultimately show ?thesis unfolding q' in_turn_fcfs by blast
  next
    case (PriorityRequestQueue p)
    then have p: "policy_of q = PRIORITY" "policy_of q' = PRIORITY" using assms(3) by simp_all
    have e: "queue_elems q = mset (map snd (turns h))" using assms(1) in_turn_priority [OF p(1)] by (simp add: run_ok_def)
    have "r \<in># queue_elems q" unfolding assms(4) by simp
    then have "r \<in># mset (map snd (turns h))" unfolding e .
    then have "r \<in> snd ` set (turns h)" by simp
    from turns_take_elem [OF this] have "mset (map snd (turns (Taken r # h))) = queue_elems q - {#r#}" unfolding e .
    then show ?thesis unfolding in_turn_priority [OF p(2)] assms(4) add_mset_remove_trivial by (rule sym)
  qed
  then show ?thesis using assms(1-3) by (simp add: run_ok_def)
qed

lemma run_ok_drop:
  assumes "run_ok policy h q"
  shows "run_ok policy (Dropped rs # h) (remove_requests request_lt rs q)"
proof -
  have k: "queue_ok request_lt (remove_requests request_lt rs q)"
      "queue_elems (remove_requests request_lt rs q) = filter_mset (\<lambda>x. x \<notin> set rs) (queue_elems q)"
    using req_order.rq.remove_all_ok [OF run_okD(1) [OF assms]] by simp_all
  have "in_turn (Dropped rs # h) (remove_requests request_lt rs q)"
  proof (cases q)
    case (FCFSRequestQueue l)
    then obtain L where L: "map snd L = l" "mset L = mset (turns h)" "sorted_wrt (<) (map fst L)" "\<forall>e\<in>set L. \<bar>fst e\<bar> \<le> int (length h)"
      using assms by (auto simp: run_ok_def in_turn_fcfs)
    let ?L = "filter (\<lambda>e. snd e \<notin> set rs) L"
    have "map snd ?L = filter (\<lambda>r. r \<notin> set rs) l" using L(1) by (auto simp: filter_map comp_def)
    moreover have "mset ?L = mset (turns (Dropped rs # h))" using L(2) by (simp add: mset_filter)
    moreover have "sorted_wrt (<) (map fst ?L)" using L(3) by (simp add: sorted_wrt_map sorted_wrt_filter)
    moreover have "\<forall>e\<in>set ?L. \<bar>fst e\<bar> \<le> int (length (Dropped rs # h))" using L(4) by fastforce
    ultimately show ?thesis unfolding FCFSRequestQueue remove_requests.simps in_turn_fcfs by blast
  next
    case (PriorityRequestQueue p)
    have "map snd (filter (\<lambda>e. snd e \<notin> set rs) xs) = filter (\<lambda>r. r \<notin> set rs) (map snd xs)" for xs :: "(int \<times> request) list"
      by (simp add: filter_map comp_def)
    then have "map snd (turns (Dropped rs # h)) = filter (\<lambda>r. r \<notin> set rs) (map snd (turns h))" by simp
    then have "mset (map snd (turns (Dropped rs # h))) = filter_mset (\<lambda>r. r \<notin> set rs) (mset (map snd (turns h)))"
      unfolding mset_filter [symmetric] by (rule arg_cong)
    moreover have "policy_of q = PRIORITY" "policy_of (remove_requests request_lt rs q) = PRIORITY" using PriorityRequestQueue by simp_all
    ultimately show ?thesis using assms k(2) by (simp add: run_ok_def in_turn_priority)
  qed
  then show ?thesis using assms k(1) by (cases q) (auto simp: run_ok_def)
qed

lemma queue_run_ok: "queue_run policy h q \<Longrightarrow> run_ok policy h q"
proof (induction rule: queue_run.induct)
  case run_create
  then show ?case by (cases policy) (auto simp: run_ok_def create_request_queue_def queue_ok_def heap_from_def in_turn_def)
next
  case (run_pop h q r q')
  have ok: "queue_ok request_lt q" using run_pop run_okD by blast
  have "queue_elems q \<noteq> {#}" using run_pop(2) req_order.rq.pop_empty [OF ok] by auto
  from req_order.rq.pop_ok [OF ok this] run_pop(2) have e: "queue_ok request_lt q'" "queue_elems q = add_mset r (queue_elems q')" by auto
  have "policy_of q' = policy_of q" using run_pop(2) by (cases q) (auto simp: bindR_eq_Inr split: list.splits)
  moreover have "l' = remove1 r l" if "q = FCFSRequestQueue l" "q' = FCFSRequestQueue l'" for l l'
    using run_pop(2) that by (auto split: list.splits)
  ultimately show ?case using run_ok_take [OF _ e(1) _ e(2)] run_pop.IH by blast
next
  case (run_prepend_all h q qs)
  show ?case unfolding prepend_requests_fold by (rule run_ok_prepends [OF run_prepend_all.IH])
next
  case (run_remove h q r q')
  have ok: "queue_ok request_lt q" using run_remove run_okD by blast
  have m: "r \<in># queue_elems q"
  proof (rule ccontr)
    assume "r \<notin># queue_elems q"
    from req_order.rq.remove_absent [OF ok this] run_remove(2) show False by simp
  qed
  from req_order.rq.remove_ok [OF ok m] run_remove(2) m have e: "queue_ok request_lt q'" "queue_elems q = add_mset r (queue_elems q')" by auto
  have "policy_of q' = policy_of q" using run_remove(2) by (cases q) (auto split: if_splits)
  moreover have "l' = remove1 r l" if "q = FCFSRequestQueue l" "q' = FCFSRequestQueue l'" for l l'
    using run_remove(2) that by (auto split: if_splits)
  ultimately show ?case using run_ok_take [OF _ e(1) _ e(2)] run_remove.IH by blast
qed (auto intro: run_ok_add run_ok_prepend run_ok_drop)

lemma run_elems:
  assumes "run_ok policy h q"
  shows "queue_elems q = mset (map snd (turns h))"
proof (cases q)
  case (FCFSRequestQueue l)
  then obtain L where "map snd L = l" "mset L = mset (turns h)" using assms by (auto simp: run_ok_def in_turn_fcfs)
  then show ?thesis using FCFSRequestQueue by (metis mset_map queue_list.simps(1))
qed (use assms in \<open>simp add: run_ok_def in_turn_def\<close>)

section \<open>Properties\<close>

text \<open>(C27) However a waiting queue was built, popping it to the end never raises and yields every
  request still waiting exactly once, in the order the policy promises. Who waits, and since when,
  is told by the history of the calls alone (\<open>turns\<close>): added requests draw growing tickets,
  prepended ones go before everyone, a request taken out gives back its earliest ticket. Under the
  first-come-first-served policy the requests come in the order of their tickets; under the priority
  policy in the order of priority, arrival time and id.\<close>

theorem waiting_queue_order:
  assumes "queue_run policy h q"
  shows "\<exists>xs q'. pops (pop_request request_lt) (queue_len q) q = Inr (xs, q') \<and> queue_list q' = [] \<and>
     mset xs = mset (map snd (turns h)) \<and>
     (policy = FCFS \<longrightarrow> xs = map snd (sort_key fst (turns h))) \<and>
     (policy = PRIORITY \<longrightarrow> sorted_wrt (\<lambda>a b. \<not> request_lt b a) xs)"
proof -
  have ok: "queue_ok request_lt q" "policy_of q = policy" "in_turn h q" using queue_run_ok [OF assms] by (simp_all add: run_ok_def)
  from req_order.rq.pops_all [OF ok(1)] obtain xs q' where
    p: "pops (pop_request request_lt) (queue_len q) q = Inr (xs, q')" "mset xs = queue_elems q" "queue_elems q' = {#}"
    by (auto simp: queue_len_def)
  have fc: "pops (pop_request request_lt) (length l) (FCFSRequestQueue l) = Inr (l, FCFSRequestQueue [])" for l
    by (induction l) auto
  have "xs = map snd (sort_key fst (turns h)) \<and> mset xs = mset (map snd (turns h))" if f: "policy = FCFS"
  proof -
    obtain l where l: "q = FCFSRequestQueue l" using f ok(2) by (cases q) auto
    then obtain L where L: "map snd L = l" "mset L = mset (turns h)" "sorted_wrt (<) (map fst L)" using ok(3) by (auto simp: in_turn_fcfs)
    have "xs = l" using p(1) fc l by (simp add: queue_len_def)
    moreover have "sort_key fst (turns h) = L"
    proof (rule sort_key_inj_key_eq)
      have "distinct (map fst L)" using L(3) strict_sorted_iff by blast
      then have "inj_on fst (set L)" by (simp add: distinct_map)
      then show "inj_on fst (set (turns h))" using L(2) by (metis set_mset_mset)
      show "sorted (map fst L)" using L(3) strict_sorted_imp_sorted by blast
    qed (simp add: L(2))
    ultimately show ?thesis using L(1,2) by (metis mset_map)
  qed
  moreover have "sorted_wrt (\<lambda>a b. \<not> request_lt b a) xs \<and> mset xs = mset (map snd (turns h))" if "policy = PRIORITY"
    using ok p(1,2) that req_order.pops_sorted in_turn_priority by (cases q) (auto simp: queue_ok_def)
  ultimately show ?thesis using p(1,3) by (cases policy) auto
qed

definition prio_request :: "string \<Rightarrow> int \<Rightarrow> request" where
  "prio_request rid k = (sample_request rid [1])\<lparr>priority := k\<rparr>"

text \<open>Two requests are added, a preempted one is prepended, and one is removed.\<close>

definition sample_history :: "queue_event list" where
  "sample_history = [Taken (prio_request ''b'' 1), Prepended (prio_request ''c'' 9), Added (prio_request ''b'' 1),
     Added (prio_request ''a'' 5), Added (prio_request ''b'' 1)]"

lemma prio_request_priority: "priority (prio_request a k) = k"
  by (simp add: prio_request_def)

lemma prio_distinct:
  assumes "k \<noteq> l"
  shows "prio_request a k \<noteq> prio_request b l"
proof
  assume "prio_request a k = prio_request b l"
  from arg_cong [OF this, of priority] assms show False by (simp add: prio_request_priority)
qed

lemma sample_turns: "turns sample_history = [(-4, prio_request ''c'' 9), (3, prio_request ''b'' 1), (2, prio_request ''a'' 5)]"
  by (simp add: sample_history_def prio_distinct Let_def)

theorem waiting_queue_order_witness:
  "\<exists>q p xs q' p'. queue_run FCFS sample_history q \<and> queue_run PRIORITY sample_history p \<and>
     pops (pop_request request_lt) (queue_len q) q =
       Inr ([prio_request ''c'' 9, prio_request ''a'' 5, prio_request ''b'' 1], q') \<and>
     pops (pop_request request_lt) (queue_len p) p = Inr (xs, p') \<and>
     mset xs = {#prio_request ''a'' 5, prio_request ''b'' 1, prio_request ''c'' 9#} \<and> sorted_wrt (\<lambda>a b. \<not> request_lt b a) xs"
proof -
  let ?a = "prio_request ''a'' 5" and ?b = "prio_request ''b'' 1" and ?c = "prio_request ''c'' 9"
  have run: "\<exists>q. queue_run P sample_history q" for P
  proof -
    let ?q = "prepend_request request_lt ?c (add_request request_lt ?b (add_request request_lt ?a (add_request request_lt ?b (create_request_queue P))))"
    have r: "queue_run P [Prepended ?c, Added ?b, Added ?a, Added ?b] ?q" by (intro run_prepend run_add run_create)
    have ok: "queue_ok request_lt ?q" using queue_run_ok [OF r] by (simp add: run_ok_def)
    have "?b \<in># queue_elems ?q" unfolding run_elems [OF queue_run_ok [OF r]] by simp
    from req_order.rq.remove_ok [OF ok this] obtain q' where "remove_request request_lt ?b ?q = Inr q'" by blast
    from run_remove [OF r this] show ?thesis by (auto simp: sample_history_def)
  qed
  obtain q p where r: "queue_run FCFS sample_history q" "queue_run PRIORITY sample_history p" using run by blast
  have "sort_key fst (turns sample_history) = [(-4, ?c), (2, ?a), (3, ?b)]" by (simp add: sample_turns)
  then show ?thesis
    using waiting_queue_order [OF r(1)] waiting_queue_order [OF r(2)] r
    by (elim exE conjE) (intro exI conjI, assumption, assumption, (simp add: sample_turns add_mset_commute)+)
qed

end
