(* ===== verification/Queue_Contents.thy ===== *)
theory Queue_Contents
  imports Request_Queue
begin

text \<open>
  The contents of a request queue under any comparison. The scheduler compares requests whose
  fields it changes while they wait, so the heap order cannot be relied on there; that no request
  is lost or doubled does not need it. \<open>queue_elems\<close> is the multiset of the queued requests.
\<close>

lemma siftdown_mset: "pos < length h \<Longrightarrow> mset (siftdown lt s pos x h) = mset (h[pos := x])"
proof (induction lt s pos x h rule: siftdown.induct)
  case (1 lt s pos x h)
  show ?case
  proof (cases "pos > s \<and> lt x (h ! parent pos)")
    case True
    have p: "parent pos < pos" using True parent_less [of pos] by simp
    have "mset (siftdown lt s pos x h) = mset ((h[pos := h ! parent pos])[parent pos := x])"
      using 1 True p by (subst siftdown.simps) simp
    then show ?thesis using mset_move [of pos h "parent pos" x] 1(2) p by simp
  next
    case False
    then show ?thesis by (subst siftdown.simps) (simp only: if_not_P if_False)
  qed
qed

lemma siftup_loop_mset:
  assumes "siftup_loop lt pos h = (pos', h')" "pos < length h"
  shows "pos' < length h' \<and> length h' = length h \<and> mset (h'[pos' := x]) = mset (h[pos := x])"
  using assms
proof (induction lt pos h arbitrary: pos' h' rule: siftup_loop.induct)
  case (1 lt pos h)
  show ?case
  proof (cases "2 * pos + 1 < length h")
    case True
    let ?c = "smaller_child lt h pos"
    have c: "?c < length h" "?c \<noteq> pos" using True by (auto simp: smaller_child_def Let_def)
    have "siftup_loop lt ?c (h[pos := h ! ?c]) = (pos', h')"
      using 1(2) True by (subst (asm) siftup_loop.simps) simp
    from 1(1) [OF True this] c show ?thesis using mset_move [of pos h ?c x] 1(3) by simp
  next
    case False
    then show ?thesis using 1(2,3) by (subst (asm) siftup_loop.simps) simp
  qed
qed

lemma siftup_mset:
  assumes "pos < length h"
  shows "mset (siftup lt pos h) = mset h"
proof -
  obtain pos' h' where e: "siftup_loop lt pos h = (pos', h')" by fastforce
  note l = siftup_loop_mset [OF e assms, of "h ! pos"]
  show ?thesis using siftdown_mset [of pos' h' lt pos "h ! pos"] l by (simp add: siftup_def e)
qed

lemma siftup_length: "pos < length h \<Longrightarrow> length (siftup lt pos h) = length h"
  by (metis siftup_mset size_mset)

lemma heappush_mset: "mset (heappush lt h x) = add_mset x (mset h)"
  using siftdown_mset [of "length h" "h @ [x]" lt 0 x] by (simp add: heappush_def)

lemma heappop_mset:
  assumes "heappop lt h = Inr (x, h')"
  shows "mset h = add_mset x (mset h') \<and> h \<noteq> [] \<and> x = hd h"
proof -
  have ne: "h \<noteq> []" using assms by (auto simp: heappop_def split: if_splits)
  show ?thesis
  proof (cases "butlast h = []")
    case True
    then have "h = [last h]" using ne by (metis append_butlast_last_id append_Nil)
    then show ?thesis using assms True ne by (cases h) (auto simp: heappop_def)
  next
    case False
    then obtain y t where b: "butlast h = y # t" by (cases "butlast h") auto
    have h: "h = y # t @ [last h]" using append_butlast_last_id [OF ne] b by simp
    have e: "x = y" "h' = siftup lt 0 (last h # t)" using assms ne b by (auto simp: heappop_def)
    have "mset h' = add_mset (last h) (mset t)" using siftup_mset [of 0 "last h # t" lt] by (simp add: e(2))
    then have "mset (y # t @ [last h]) = add_mset x (mset h')" using e(1) by simp
    then show ?thesis using h e(1) ne by (metis list.sel(1))
  qed
qed

lemma heapify_mset: "mset (heapify lt xs) = mset xs"
proof -
  have "mset (fold (siftup lt) (rev [0..<n]) h) = mset h \<and> length (fold (siftup lt) (rev [0..<n]) h) = length h"
    if "n \<le> length h" for n h
    using that
  proof (induction n arbitrary: h)
    case (Suc n)
    then show ?case using siftup_mset [of n h lt] siftup_length [of n h lt] Suc.IH [of "siftup lt n h"] by simp
  qed simp
  from this [of "length xs div 2" xs] show ?thesis by (simp add: heapify_def)
qed

lemma heappop_ok: "h \<noteq> [] \<Longrightarrow> \<exists>x h'. heappop lt h = Inr (x, h')"
  by (auto simp: heappop_def Let_def)

lemma drain_mset: "mset (drain lt (length h) h) = mset h"
proof (induction "length h" arbitrary: h)
  case (Suc n)
  then have ne: "h \<noteq> []" by auto
  obtain x h' where p: "heappop lt h = Inr (x, h')" using heappop_ok [OF ne] by blast
  have m: "mset h = add_mset x (mset h')" using heappop_mset [OF p] by simp
  then have "length h = Suc (length h')" by (metis size_add_mset size_mset)
  then have "n = length h'" using Suc.hyps(2) by simp
  then show ?case using Suc.hyps(1) [of h'] m p \<open>length h = Suc (length h')\<close> by simp
qed simp

lemma fold_push_mset: "mset (fold (\<lambda>r h. heappush lt h r) rs h) = mset rs + mset h"
  by (induction rs arbitrary: h) (simp_all add: heappush_mset)

lemma queue_iter_elems [simp]: "mset (queue_iter lt q) = queue_elems q"
  by (cases q) (simp_all add: drain_mset)

lemma add_request_elems [simp]: "queue_elems (add_request lt r q) = add_mset r (queue_elems q)"
  by (cases q) (simp_all add: heappush_mset)

lemma prepend_request_elems [simp]: "queue_elems (prepend_request lt r q) = add_mset r (queue_elems q)"
  by (cases q) (simp_all add: heappush_mset)

lemma prepend_requests_elems [simp]: "queue_elems (prepend_requests lt rs q) = queue_elems rs + queue_elems q"
  by (cases q) (simp_all add: fold_push_mset)

lemma remove_requests_elems [simp]: "queue_elems (remove_requests lt rs q) = filter_mset (\<lambda>r. r \<notin> set rs) (queue_elems q)"
  by (cases q) (simp_all add: heapify_mset mset_filter)

lemma pop_request_elems:
  assumes "pop_request lt q = Inr (r, q')"
  shows "queue_elems q = add_mset r (queue_elems q') \<and> peek_request q = Inr r"
proof (cases q)
  case (PriorityRequestQueue h)
  then obtain h' where h: "heappop lt h = Inr (r, h')" "q' = PriorityRequestQueue h'" using assms by (auto simp: bindR_eq_Inr)
  from heappop_mset [OF h(1)] show ?thesis using PriorityRequestQueue h(2) by (cases h) auto
qed (use assms in \<open>auto split: list.splits\<close>)

lemma pop_request_len: "pop_request lt q = Inr (r, q') \<Longrightarrow> queue_len q = Suc (queue_len q')"
  by (metis pop_request_elems queue_len_def size_add_mset size_mset)

lemma create_request_queue_elems [simp]: "queue_elems (create_request_queue p) = {#}"
  by (simp add: create_request_queue_def split: scheduling_policy.splits)

end
