(* ===== verification/Sched_Utils.thy ===== *)
theory Sched_Utils
  imports Block_Hash "HOL-Library.Sublist"
begin

text \<open>
  The helpers of v1/core/sched/utils.py: detection of a repeating tail of the output, removal
  from the running list, and the stop check after each new token. Python's negative indices
  are those of \<open>py_get\<close>, so an index out of range would be an IndexError of the model;
  the detection is shown to be free of it and to find exactly the repeated patterns.
\<close>

section \<open>Definitions\<close>

fun repeats_at :: "token list \<Rightarrow> token \<Rightarrow> int \<Rightarrow> int \<Rightarrow> int list \<Rightarrow> bool res" where
  "repeats_at token_ids target_token pattern_len n [] = Inr True"
| "repeats_at token_ids target_token pattern_len n (m # ms) =
     bindR (py_get token_ids (- (pattern_len * m + n))) (\<lambda>t.
       if t \<noteq> target_token then Inr False else repeats_at token_ids target_token pattern_len n ms)"

fun repeats_all :: "token list \<Rightarrow> int \<Rightarrow> int \<Rightarrow> int list \<Rightarrow> bool res" where
  "repeats_all token_ids pattern_len repetition_min_count [] = Inr True"
| "repeats_all token_ids pattern_len repetition_min_count (n # ns) =
     bindR (py_get token_ids (- n)) (\<lambda>target_token.
     bindR (repeats_at token_ids target_token pattern_len n [1..repetition_min_count - 1]) (\<lambda>ok.
       if ok then repeats_all token_ids pattern_len repetition_min_count ns else Inr False))"

definition has_repeating_pattern :: "token list \<Rightarrow> int \<Rightarrow> int \<Rightarrow> bool res" where
  "has_repeating_pattern token_ids pattern_len repetition_min_count =
     repeats_all token_ids pattern_len repetition_min_count [1..pattern_len]"

fun repetition_loop :: "token list \<Rightarrow> int \<Rightarrow> int list \<Rightarrow> bool res" where
  "repetition_loop token_ids cnt [] = Inr False"
| "repetition_loop token_ids cnt (pattern_len # ls) =
     (if pattern_len * cnt > int (length token_ids) then Inr False
      else bindR (has_repeating_pattern token_ids pattern_len cnt) (\<lambda>b.
             if b then Inr True else repetition_loop token_ids cnt ls))"

definition check_sequence_repetition :: "token list \<Rightarrow> repetition_detection_params \<Rightarrow> bool res" where
  "check_sequence_repetition token_ids ps =
     (let minp = (if min_pattern_size ps \<le> 0 then 1 else min_pattern_size ps)
      in if max_pattern_size ps \<le> 0 \<or> min_count ps < 2 \<or> minp > max_pattern_size ps then Inr False
         else repetition_loop token_ids (min_count ps) [minp..max_pattern_size ps])"

text \<open>\<^verbatim>\<open>remove_all\<close>: the set of items as a list without duplicates. For one item the first
  occurrence is removed, as \<^verbatim>\<open>list.remove\<close> does.\<close>

definition remove_all :: "'a list \<Rightarrow> 'a list \<Rightarrow> 'a list" where
  "remove_all lst items_to_remove =
     (if items_to_remove = [] then lst
      else if length items_to_remove = 1 then remove1 (hd items_to_remove) lst
      else filter (\<lambda>x. x \<notin> set items_to_remove) lst)"

definition check_stop :: "int \<Rightarrow> request \<Rightarrow> (bool \<times> request) res" where
  "check_stop max_len r =
     bindR (assertR (pooling r = None)) (\<lambda>_.
       case sampling r of
         None \<Rightarrow> Inl AssertionError
       | Some sp \<Rightarrow>
           if num_output_tokens r < min_tokens sp then Inr (False, r)
           else bindR (py_get (output_token_ids r) (- 1)) (\<lambda>last_token_id.
             if eos_token_id sp = Some last_token_id then Inr (True, r\<lparr>status := FINISHED_STOPPED\<rparr>)
             else if last_token_id \<in> set (case stop_token_ids sp of Some ts \<Rightarrow> ts | None \<Rightarrow> [])
             then Inr (True, r\<lparr>status := FINISHED_STOPPED, stop_reason := Some (StopToken last_token_id)\<rparr>)
             else if num_tokens r \<ge> max_len \<or> num_output_tokens r \<ge> max_tokens r
             then Inr (True, r\<lparr>status := FINISHED_LENGTH_CAPPED\<rparr>)
             else (case repetition_detection sp of
                     None \<Rightarrow> Inr (False, r)
                   | Some ps \<Rightarrow>
                       bindR (check_sequence_repetition (output_token_ids r) ps) (\<lambda>b.
                         if b then Inr (True, r\<lparr>status := FINISHED_REPETITION,
                                               stop_reason := Some (StopText ''repetition_detected'')\<rparr>)
                         else Inr (False, r)))))"

section \<open>Repetition\<close>

lemma py_get_neg: "0 < k \<Longrightarrow> k \<le> int (length xs) \<Longrightarrow> py_get xs (- k) = Inr (rev xs ! nat (k - 1))"
  by (auto simp: py_get_def rev_nth intro!: arg_cong [of _ _ "nth xs"])

lemma repeats_at_spec:
  assumes "0 < L" "1 \<le> n" "n \<le> L" "\<forall>m\<in>set ms. 1 \<le> m \<and> L * m + n \<le> int (length xs)"
  shows "repeats_at xs t L n ms = Inr (\<forall>m\<in>set ms. rev xs ! nat (L * m + n - 1) = t)"
  using assms(4)
proof (induction ms)
  case (Cons m ms)
  have "0 < L * m + n" using assms(1,2) Cons.prems by (simp add: add_nonneg_pos)
  then show ?case using Cons py_get_neg [of "L * m + n" xs] by simp
qed simp

lemma repeats_all_spec:
  assumes "0 < L" "2 \<le> c" "L * c \<le> int (length xs)" "\<forall>n\<in>set ns. 1 \<le> n \<and> n \<le> L"
  shows "repeats_all xs L c ns =
     Inr (\<forall>n\<in>set ns. \<forall>m. 1 \<le> m \<longrightarrow> m < c \<longrightarrow> rev xs ! nat (L * m + n - 1) = rev xs ! nat (n - 1))"
  using assms(4)
proof (induction ns)
  case (Cons n ns)
  have n: "1 \<le> n" "n \<le> L" using Cons.prems by simp_all
  have le: "L * m + n \<le> int (length xs)" if "m < c" for m
  proof -
    have "L * m + n \<le> L * (m + 1)" using n by (simp add: algebra_simps)
    also have "\<dots> \<le> L * c" using that assms(1) by (intro mult_left_mono) simp_all
    finally show ?thesis using assms(3) by simp
  qed
  have t: "py_get xs (- n) = Inr (rev xs ! nat (n - 1))" using n le [of 0] assms(2) by (intro py_get_neg) simp_all
  have "repeats_at xs (rev xs ! nat (n - 1)) L n [1..c - 1] =
      Inr (\<forall>m. 1 \<le> m \<longrightarrow> m < c \<longrightarrow> rev xs ! nat (L * m + n - 1) = rev xs ! nat (n - 1))"
    using repeats_at_spec [OF assms(1) n, of "[1..c - 1]" xs] le by auto
  then show ?case using t Cons by auto
qed simp

text \<open>Tails that repeat: a word that stands \<open>c\<close> times at the end.\<close>

definition repeated_tail :: "token list \<Rightarrow> nat \<Rightarrow> nat \<Rightarrow> bool" where
  "repeated_tail xs L c \<longleftrightarrow> (\<exists>w. length w = L \<and> suffix (concat (replicate c w)) xs)"

lemma concat_replicate_nth: "i < c * length w \<Longrightarrow> concat (replicate c w) ! i = w ! (i mod length w)"
proof (induction c arbitrary: i)
  case (Suc c)
  show ?case
  proof (cases "i < length w")
    case False
    then have "i - length w < c * length w" using Suc.prems by simp
    then show ?thesis using Suc.IH [of "i - length w"] False by (simp add: nth_append le_mod_geq)
  qed (simp add: nth_append)
qed simp

lemma rev_concat_replicate: "rev (concat (replicate c w)) = concat (replicate c (rev w))"
  by (simp add: rev_concat)

lemma repeated_tail_nth:
  assumes "L * c \<le> length xs" "0 < c"
  shows "repeated_tail xs L c \<longleftrightarrow> (\<forall>i<L * c. rev xs ! i = rev xs ! (i mod L))"
proof -
  let ?R = "rev xs"
  have "repeated_tail xs L c \<longleftrightarrow> (\<exists>w. length w = L \<and> prefix (concat (replicate c w)) ?R)"
  proof -
    have "suffix (concat (replicate c w)) xs \<longleftrightarrow> prefix (concat (replicate c (rev w))) ?R" for w
      by (simp add: suffix_to_prefix rev_concat_replicate)
    then show ?thesis unfolding repeated_tail_def by (metis length_rev rev_rev_ident)
  qed
  also have "\<dots> \<longleftrightarrow> (\<exists>w. length w = L \<and> (\<forall>i<L * c. ?R ! i = w ! (i mod L)))"
  proof -
    have "prefix (concat (replicate c w)) ?R \<longleftrightarrow> (\<forall>i<L * c. ?R ! i = w ! (i mod L))" if w: "length w = L" for w
    proof -
      have len: "length (concat (replicate c w)) = L * c" using w by (simp add: length_concat sum_list_replicate)
      have "prefix (concat (replicate c w)) ?R \<longleftrightarrow> concat (replicate c w) = take (L * c) ?R"
        using len by (metis append_eq_conv_conj prefix_def take_is_prefix append_take_drop_id)
      also have "\<dots> \<longleftrightarrow> (\<forall>i<L * c. concat (replicate c w) ! i = ?R ! i)"
        using len assms(1) by (auto simp: list_eq_iff_nth_eq)
      also have "\<dots> \<longleftrightarrow> (\<forall>i<L * c. ?R ! i = w ! (i mod L))"
        using concat_replicate_nth [of _ c w] w by (auto simp: mult.commute)
      finally show ?thesis .
    qed
    then show ?thesis by blast
  qed
  also have "\<dots> \<longleftrightarrow> (\<forall>i<L * c. ?R ! i = ?R ! (i mod L))"
  proof
    assume "\<exists>w. length w = L \<and> (\<forall>i<L * c. ?R ! i = w ! (i mod L))"
    then obtain w where w: "\<forall>i<L * c. ?R ! i = w ! (i mod L)" by blast
    have "i mod L < L * c" if "i < L * c" for i using that by (metis mod_less_eq_dividend order_le_less_trans)
    then show "\<forall>i<L * c. ?R ! i = ?R ! (i mod L)" using w by (metis mod_mod_trivial)
  next
    assume a: "\<forall>i<L * c. ?R ! i = ?R ! (i mod L)"
    have Lle: "L \<le> length xs" using assms by (metis mult.right_neutral mult_le_mono2 Suc_leI One_nat_def order_trans)
    have "?R ! i = take L ?R ! (i mod L)" if "i < L * c" for i
    proof -
      have "0 < L" using that by (cases L) auto
      then show ?thesis using a that by simp
    qed
    then show "\<exists>w. length w = L \<and> (\<forall>i<L * c. ?R ! i = w ! (i mod L))"
      using Lle by (intro exI [of _ "take L ?R"]) simp
  qed
  finally show ?thesis .
qed

lemma has_repeating_pattern_spec:
  assumes "0 < L" "2 \<le> c" "L * c \<le> int (length xs)"
  shows "has_repeating_pattern xs L c = Inr (repeated_tail xs (nat L) (nat c))"
proof -
  define l k where "l = nat L" and "k = nat c"
  then have l: "L = int l" "0 < l" and k: "c = int k" "0 < k" using assms(1,2) by auto
  have lk: "l * k \<le> length xs" using assms(3) l k by (metis of_nat_le_iff of_nat_mult)
  have "(\<forall>n\<in>{1..L}. \<forall>m. 1 \<le> m \<longrightarrow> m < c \<longrightarrow> rev xs ! nat (L * m + n - 1) = rev xs ! nat (n - 1)) \<longleftrightarrow>
      (\<forall>i<l * k. rev xs ! i = rev xs ! (i mod l))" (is "?A \<longleftrightarrow> ?B")
  proof
    assume A: ?A
    show ?B
    proof (intro allI impI)
      fix i assume i: "i < l * k"
      have im: "i mod l < l" using l(2) by simp
      show "rev xs ! i = rev xs ! (i mod l)"
      proof (cases "i div l = 0")
        case True
        then show ?thesis using l(2) by (simp add: div_eq_0_iff)
      next
        case False
        have "i div l < k" using i l(2) by (simp add: less_mult_imp_div_less mult.commute)
        then have "rev xs ! nat (L * int (i div l) + (int (i mod l) + 1) - 1) = rev xs ! nat (int (i mod l) + 1 - 1)"
          using A [rule_format, of "int (i mod l) + 1" "int (i div l)"] False im l(1) k(1) by simp
        moreover have "nat (L * int (i div l) + (int (i mod l) + 1) - 1) = i"
          unfolding l(1) by (simp flip: of_nat_mult of_nat_add)
        ultimately show ?thesis by simp
      qed
    qed
  next
    assume B: ?B
    show ?A
    proof (intro ballI allI impI)
      fix n m assume n: "n \<in> {1..L}" and m: "1 \<le> m" "m < c"
      define i where "i = nat (L * m + n - 1)"
      define j where "j = nat (n - 1)"
      have j: "j < l" "n = int j + 1" using n l(1) by (auto simp: j_def)
      define q where "q = nat m"
      then have q: "m = int q" "q < k" using m k(1) by auto
      have i: "i = l * q + j" unfolding i_def l(1) q(1) j(2) by (simp flip: of_nat_mult of_nat_add)
      have "l * q + j < l * (q + 1)" using j(1) by simp
      also have "\<dots> \<le> l * k" using q(2) by (intro mult_le_mono2) simp
      finally have "i < l * k" using i by simp
      then have "rev xs ! i = rev xs ! (i mod l)" using B by simp
      moreover have "i mod l = j" using i j(1) by simp
      ultimately show "rev xs ! nat (L * m + n - 1) = rev xs ! nat (n - 1)" by (simp add: i_def j_def)
    qed
  qed
  then show ?thesis
    using repeats_all_spec [OF assms, of "[1..L]"] repeated_tail_nth [OF lk] l k by (simp add: has_repeating_pattern_def)
qed

lemma repetition_loop_spec:
  assumes "2 \<le> c" "sorted ls" "\<forall>L\<in>set ls. 0 < L"
  shows "repetition_loop xs c ls = Inr (\<exists>L\<in>set ls. repeated_tail xs (nat L) (nat c))"
  using assms(2,3)
proof (induction ls)
  case (Cons L ls)
  show ?case
  proof (cases "L * c > int (length xs)")
    case True
    have "\<not> repeated_tail xs (nat L') (nat c)" if "L' \<in> set (L # ls)" for L'
    proof
      assume "repeated_tail xs (nat L') (nat c)"
      then obtain w where "length w = nat L'" "suffix (concat (replicate (nat c) w)) xs" by (auto simp: repeated_tail_def)
      then have "nat L' * nat c \<le> length xs"
        using suffix_length_le by (fastforce simp: length_concat sum_list_replicate mult.commute)
      then have "L' * c \<le> int (length xs)" using assms(1) Cons.prems(2) that by (metis nat_mult_distrib nat_le_iff order_less_imp_le)
      moreover have "L * c \<le> L' * c" using Cons.prems(1) that assms(1) by (intro mult_right_mono) auto
      ultimately show False using True by simp
    qed
    then show ?thesis using True by auto
  next
    case False
    then show ?thesis using Cons has_repeating_pattern_spec [of L c xs] assms(1) by auto
  qed
qed simp

section \<open>Properties\<close>

text \<open>(C28) Repetition detection: it never indexes out of range, and it reports a repetition exactly
  when some word whose length lies between the bounds (a non-positive lower bound counts as 1)
  stands at least \<open>min_count\<close> times in a row at the end of the output.\<close>

theorem check_sequence_repetition_correct:
  "check_sequence_repetition xs ps =
     Inr (2 \<le> min_count ps \<and>
          (\<exists>w. max 1 (min_pattern_size ps) \<le> int (length w) \<and> int (length w) \<le> max_pattern_size ps \<and>
               suffix (concat (replicate (nat (min_count ps)) w)) xs))"
proof -
  define minp where "minp = max 1 (min_pattern_size ps)"
  have m: "(if min_pattern_size ps \<le> 0 then 1 else min_pattern_size ps) = minp" "1 \<le> minp" by (simp_all add: minp_def)
  show ?thesis
  proof (cases "max_pattern_size ps \<le> 0 \<or> min_count ps < 2 \<or> minp > max_pattern_size ps")
    case True
    then show ?thesis unfolding check_sequence_repetition_def m(1) Let_def if_P [OF True] minp_def [symmetric] using m(2) by auto
  next
    case False
    have "repetition_loop xs (min_count ps) [minp..max_pattern_size ps] =
        Inr (\<exists>L\<in>set [minp..max_pattern_size ps]. repeated_tail xs (nat L) (nat (min_count ps)))"
      using False by (intro repetition_loop_spec) (auto simp: minp_def)
    moreover have "(\<exists>L\<in>set [minp..max_pattern_size ps]. repeated_tail xs (nat L) (nat (min_count ps))) \<longleftrightarrow>
        (\<exists>w. minp \<le> int (length w) \<and> int (length w) \<le> max_pattern_size ps \<and> suffix (concat (replicate (nat (min_count ps)) w)) xs)"
      (is "?A \<longleftrightarrow> ?B")
    proof
      assume ?A
      then obtain L w where "minp \<le> L" "L \<le> max_pattern_size ps" "length w = nat L" "suffix (concat (replicate (nat (min_count ps)) w)) xs"
        by (auto simp: repeated_tail_def)
      moreover have "0 \<le> minp" by (simp add: minp_def)
      ultimately show ?B by (intro exI [of _ w]) auto
    next
      assume ?B
      then obtain w where "minp \<le> int (length w)" "int (length w) \<le> max_pattern_size ps" "suffix (concat (replicate (nat (min_count ps)) w)) xs"
        by blast
      then show ?A by (intro bexI [of _ "int (length w)"]) (auto simp: repeated_tail_def)
    qed
    ultimately show ?thesis
      using False unfolding check_sequence_repetition_def m(1) Let_def if_not_P [OF False] minp_def [symmetric] by simp
  qed
qed

text \<open>(C29) The stop check of a generating request with at least one output token never raises.
  Below \<open>min_tokens\<close> outputs it lets the request go on. Otherwise the request goes on exactly
  when its last token is neither the end-of-sequence token nor a stop token, it is below both
  length limits and no repetition is found; it is unchanged then. When it stops, the request
  is finished, with the reason of the first condition met in this order.\<close>

theorem check_stop_decision:
  fixes max_len :: int
  assumes "pooling r = None" "sampling r = Some sp" "output_token_ids r \<noteq> []"
  defines "t \<equiv> last (output_token_ids r)"
  defines "rep \<equiv> (case repetition_detection sp of None \<Rightarrow> False | Some ps \<Rightarrow> check_sequence_repetition (output_token_ids r) ps = Inr True)"
  defines "stop_tok \<equiv> eos_token_id sp = Some t \<or> t \<in> set (case stop_token_ids sp of Some ts \<Rightarrow> ts | None \<Rightarrow> [])"
  defines "capped \<equiv> num_tokens r \<ge> max_len \<or> num_output_tokens r \<ge> max_tokens r"
  shows "\<exists>b r'. check_stop max_len r = Inr (b, r') \<and> (b \<longleftrightarrow> min_tokens sp \<le> num_output_tokens r \<and> (stop_tok \<or> capped \<or> rep)) \<and>
     (if b then is_finished r' \<and> get_finished_reason r' = Some (if stop_tok then FR_STOP else if capped then FR_LENGTH else FR_REPETITION) \<and>
               output_token_ids r' = output_token_ids r \<and> block_hashes r' = block_hashes r
      else r' = r)"
proof -
  have g: "py_get (output_token_ids r) (- 1) = Inr t"
    using assms(3) py_get_neg [of 1 "output_token_ids r"] by (simp add: t_def rev_nth last_conv_nth Suc_le_eq)
  have rp: "\<exists>b. check_sequence_repetition (output_token_ids r) ps = Inr b" for ps
    unfolding check_sequence_repetition_def Let_def
    using repetition_loop_spec [of "min_count ps" "[_..max_pattern_size ps]"] by auto
  show ?thesis
  proof (cases "num_output_tokens r < min_tokens sp")
    case True
    then show ?thesis using assms(1,2) by (intro exI [of _ False] exI [of _ r]) (simp add: check_stop_def)
  next
    case False
    then have le: "min_tokens sp \<le> num_output_tokens r" by simp
    note F = check_stop_def assms(1,2) g False le
    consider (stop) stop_tok | (cap) "\<not> stop_tok" capped | (rep) "\<not> stop_tok" "\<not> capped" rep | (go) "\<not> stop_tok" "\<not> capped" "\<not> rep"
      by blast
    then show ?thesis
    proof cases
      case stop
      then show ?thesis using False
        by (auto simp: F stop_tok_def is_finished_def get_finished_reason_def status_is_finished_cases)
    next
      case cap
      then show ?thesis using False
        by (auto simp: F stop_tok_def capped_def is_finished_def get_finished_reason_def status_is_finished_cases)
    next
      case rep
      then obtain ps where "repetition_detection sp = Some ps" "check_sequence_repetition (output_token_ids r) ps = Inr True"
        by (auto simp: rep_def split: option.splits)
      then show ?thesis using rep False
        by (auto simp: F stop_tok_def capped_def is_finished_def get_finished_reason_def status_is_finished_cases)
    next
      case go
      have "check_stop max_len r = Inr (False, r)"
      proof (cases "repetition_detection sp")
        case None
        then show ?thesis using go by (auto simp: F stop_tok_def capped_def)
      next
        case (Some ps)
        then have "check_sequence_repetition (output_token_ids r) ps = Inr False" using go(3) rp [of ps] by (auto simp: rep_def)
        then show ?thesis using go(1,2) Some by (auto simp: F stop_tok_def capped_def)
      qed
      then show ?thesis using go by (intro exI [of _ False] exI [of _ r]) simp
    qed
  qed
qed

definition stop_request :: "token list \<Rightarrow> request" where
  "stop_request outs = (sample_request ''r'' [1, 2])
     \<lparr>sampling := Some (sample_sampling\<lparr>eos_token_id := Some 7, min_tokens := 1, stop_token_ids := None, repetition_detection := None\<rparr>),
      output_token_ids := outs, all_token_ids := [1, 2] @ outs, max_tokens := 10\<rparr>"

theorem check_stop_witness:
  "\<exists>r'. check_stop 100 (stop_request [5, 7]) = Inr (True, r') \<and> get_finished_reason r' = Some FR_STOP"
proof -
  have p: "pooling (stop_request [5, 7]) = None" "sampling (stop_request [5, 7]) =
      Some (sample_sampling\<lparr>eos_token_id := Some 7, min_tokens := 1, stop_token_ids := None, repetition_detection := None\<rparr>)"
    "output_token_ids (stop_request [5, 7]) \<noteq> []"
    by (simp_all add: stop_request_def sample_request_def init_request_def sample_sampling_def length_from_prompt_def Let_def)
  have n: "output_token_ids (stop_request [5, 7]) = [5, 7]" "num_output_tokens (stop_request [5, 7]) = 2"
    by (simp_all add: stop_request_def num_output_tokens_def)
  from check_stop_decision [OF p, of 100] show ?thesis unfolding n by (auto split: if_splits)
qed

text \<open>The lower bound on the output comes before the length limits: a request that has not
  produced \<open>min_tokens\<close> tokens is not stopped even when it fills the context of the model or
  its own \<open>max_tokens\<close>.\<close>

lemma min_tokens_defers_length_cap:
  assumes "pooling r = None" "sampling r = Some sp" "num_output_tokens r < min_tokens sp" "num_tokens r \<ge> max_len"
  shows "check_stop max_len r = Inr (False, r) \<and> \<not> num_tokens r < max_len"
  using assms by (simp add: check_stop_def)

end
