(* ===== verification/Scheduler.thy ===== *)
theory Scheduler
  imports KV_Manager Encoder_Cache Queue_Contents Sched_Utils Result_Logic
begin

text \<open>
  The scheduler of v1/core/sched/scheduler.py and its subclass of async\_scheduler.py. A request
  object is shared by the dictionary \<^verbatim>\<open>requests\<close> and the queues; here the dictionary is the store
  and the queues hold request ids, so an update of a request is one update of the store. What lies
  outside the scheduler answers through the record \<open>sched_env\<close>, which is an argument of every
  operation and may differ from call to call: the KV connector, the encoder cache connector and
  the grammars of structured output. Event logging, metrics, log probabilities and routed experts
  only observe and are left out.
\<close>

section \<open>State\<close>

datatype pause_state = UNPAUSED | PAUSED_NEW | PAUSED_ALL

record sched_config =
  max_num_running_reqs :: int
  max_num_scheduled_tokens :: int
  sc_max_model_len :: int
  long_prefill_token_threshold :: int
  enable_chunked_prefill :: bool
  disable_chunked_mm_input :: bool
  policy :: scheduling_policy
  max_loras :: "int option"
  max_num_encoder_input_tokens :: int
  is_encoder_decoder :: bool
  sc_use_eagle :: bool
  num_spec_tokens :: nat
  num_lookahead_tokens :: int
  need_mamba_block_aligned_split :: bool
  cache_block_size :: int
  sc_block_size :: int
  has_connector :: bool
  connector_supports_hma :: bool
  has_ec_connector :: bool
  recompute_kv_load_failures :: bool
  needs_kv_cache_zeroing :: bool
  use_pp :: bool
  async_scheduling :: bool
  use_v2_model_runner :: bool

record sched_env =
  se_hash :: hash_env
  se_hasher :: block_hasher
  conn_match :: "req_id \<Rightarrow> int \<Rightarrow> int option \<times> bool"
  conn_request_finished :: "req_id \<Rightarrow> bool"
  conn_reset_cache :: bool
  ec_has_cache_item :: "string \<Rightarrow> bool"
  grammar_ready :: "req_id \<Rightarrow> bool"
  should_advance :: "req_id \<Rightarrow> bool"
  validate_tokens :: "req_id \<Rightarrow> token list \<Rightarrow> token list"

text \<open>\<^verbatim>\<open>EncoderDecoderCacheManager\<close> is used exactly for encoder-decoder models.\<close>

datatype encoder_mgr = EncCache encoder_cache | EncDecCache encdec_cache

fun em_check_and_update_cache :: "request \<Rightarrow> nat \<Rightarrow> encoder_mgr \<Rightarrow> (bool \<times> encoder_mgr) res" where
  "em_check_and_update_cache r i (EncCache e) = bindR (check_and_update_cache r i e) (\<lambda>(b, e'). Inr (b, EncCache e'))"
| "em_check_and_update_cache r i (EncDecCache e) = Inr (False, EncDecCache e)"

fun em_can_allocate :: "request \<Rightarrow> nat \<Rightarrow> int \<Rightarrow> int \<Rightarrow> encoder_mgr \<Rightarrow> (bool \<times> encoder_mgr) res" where
  "em_can_allocate r i budget n (EncCache e) = bindR (can_allocate r i budget n e) (\<lambda>(b, e'). Inr (b, EncCache e'))"
| "em_can_allocate r i budget n (EncDecCache e) = bindR (ed_can_allocate r i budget n e) (\<lambda>b. Inr (b, EncDecCache e))"

fun em_allocate :: "request \<Rightarrow> nat \<Rightarrow> encoder_mgr \<Rightarrow> encoder_mgr res" where
  "em_allocate r i (EncCache e) = bindR (ec_allocate r i e) (\<lambda>e'. Inr (EncCache e'))"
| "em_allocate r i (EncDecCache e) = bindR (ed_allocate r i e) (\<lambda>e'. Inr (EncDecCache e'))"

fun em_free :: "request \<Rightarrow> encoder_mgr \<Rightarrow> encoder_mgr res" where
  "em_free r (EncCache e) = bindR (ec_free r e) (\<lambda>e'. Inr (EncCache e'))"
| "em_free r (EncDecCache e) = bindR (ed_free r e) (\<lambda>e'. Inr (EncDecCache e'))"

fun em_free_encoder_input :: "request \<Rightarrow> nat \<Rightarrow> encoder_mgr \<Rightarrow> encoder_mgr res" where
  "em_free_encoder_input r i (EncCache e) = bindR (free_encoder_input r i e) (\<lambda>e'. Inr (EncCache e'))"
| "em_free_encoder_input r i (EncDecCache e) = bindR (ed_free_encoder_input r i e) (\<lambda>e'. Inr (EncDecCache e'))"

fun em_get_cached_input_ids :: "request \<Rightarrow> encoder_mgr \<Rightarrow> nat list" where
  "em_get_cached_input_ids r (EncCache e) = get_cached_input_ids r e"
| "em_get_cached_input_ids r (EncDecCache e) = ed_get_cached_input_ids r"

fun em_get_freed_mm_hashes :: "encoder_mgr \<Rightarrow> string list \<times> encoder_mgr" where
  "em_get_freed_mm_hashes (EncCache e) = (case get_freed_mm_hashes e of (hs, e') \<Rightarrow> (hs, EncCache e'))"
| "em_get_freed_mm_hashes (EncDecCache e) = (case ed_get_freed_mm_hashes e of (hs, e') \<Rightarrow> (hs, EncDecCache e'))"

fun em_reset :: "encoder_mgr \<Rightarrow> encoder_mgr" where
  "em_reset (EncCache e) = EncCache (ec_reset e)"
| "em_reset (EncDecCache e) = EncDecCache (ed_reset e)"

record scheduler =
  cfg :: sched_config
  requests :: "(req_id, request) odict"
  waiting :: "req_id request_queue"
  skipped_waiting :: "req_id request_queue"
  running :: "req_id list"
  finished_req_ids :: "req_id list"
  finished_req_ids_dict :: "(int, req_id list) odict option"
  prev_step_scheduled_req_ids :: "req_id list"
  num_waiting_for_streaming_input :: int
  finished_recving_kv_req_ids :: "req_id list"
  failed_recving_kv_req_ids :: "req_id list"
  kv_cache_manager :: kv_manager
  encoder_cache_manager :: encoder_mgr
  connector_prefix_cache_stats :: "prefix_cache_stats option"
  pause :: pause_state

definition new_scheduler :: "sched_config \<Rightarrow> kv_manager \<Rightarrow> int \<Rightarrow> bool \<Rightarrow> bool \<Rightarrow> scheduler" where
  "new_scheduler c km encoder_cache_size include_finished_set lstats =
     \<lparr>cfg = c, requests = [], waiting = create_request_queue (policy c), skipped_waiting = create_request_queue (policy c),
      running = [], finished_req_ids = [], finished_req_ids_dict = (if include_finished_set then Some [] else None),
      prev_step_scheduled_req_ids = [], num_waiting_for_streaming_input = 0, finished_recving_kv_req_ids = [],
      failed_recving_kv_req_ids = [], kv_cache_manager = km,
      encoder_cache_manager = (if is_encoder_decoder c then EncDecCache (new_encdec_cache encoder_cache_size)
                               else EncCache (new_encoder_cache encoder_cache_size)),
      connector_prefix_cache_stats = (if has_connector c \<and> lstats then Some new_prefix_cache_stats else None),
      pause = UNPAUSED\<rparr>"

text \<open>A Python set of ids, kept as a list without repetitions.\<close>

definition set_add :: "'a \<Rightarrow> 'a list \<Rightarrow> 'a list" where
  "set_add x xs = (if x \<in> set xs then xs else xs @ [x])"

definition get_req :: "req_id \<Rightarrow> scheduler \<Rightarrow> request res" where
  "get_req rid s = (case od_get (requests s) rid of Some r \<Rightarrow> Inr r | None \<Rightarrow> Inl KeyError)"

definition put_req :: "request \<Rightarrow> scheduler \<Rightarrow> scheduler" where
  "put_req r s = s\<lparr>requests := od_set (request_id r) r (requests s)\<rparr>"

text \<open>The order of two queued requests, read from the store.\<close>

definition req_before :: "scheduler \<Rightarrow> req_id \<Rightarrow> req_id \<Rightarrow> bool" where
  "req_before s a b =
     (case od_get (requests s) a of
        None \<Rightarrow> False
      | Some x \<Rightarrow> (case od_get (requests s) b of None \<Rightarrow> False | Some y \<Rightarrow> request_lt x y))"

section \<open>Queues and preemption\<close>

definition is_blocked_waiting_status :: "request_status \<Rightarrow> bool" where
  "is_blocked_waiting_status st \<longleftrightarrow> st \<in> {WAITING_FOR_FSM, WAITING_FOR_REMOTE_KVS, WAITING_FOR_STREAMING_REQ}"

definition enqueue_waiting_request :: "req_id \<Rightarrow> scheduler \<Rightarrow> scheduler res" where
  "enqueue_waiting_request rid s =
     bindR (get_req rid s) (\<lambda>r.
       Inr (if is_blocked_waiting_status (status r)
            then s\<lparr>skipped_waiting := add_request (req_before s) rid (skipped_waiting s)\<rparr>
            else s\<lparr>waiting := add_request (req_before s) rid (waiting s)\<rparr>))"

datatype queue_name = Waiting | SkippedWaiting

definition queue_of :: "queue_name \<Rightarrow> scheduler \<Rightarrow> req_id request_queue" where
  "queue_of q s = (case q of Waiting \<Rightarrow> waiting s | SkippedWaiting \<Rightarrow> skipped_waiting s)"

definition set_queue :: "queue_name \<Rightarrow> req_id request_queue \<Rightarrow> scheduler \<Rightarrow> scheduler" where
  "set_queue q v s = (case q of Waiting \<Rightarrow> s\<lparr>waiting := v\<rparr> | SkippedWaiting \<Rightarrow> s\<lparr>skipped_waiting := v\<rparr>)"

definition select_waiting_queue_for_scheduling :: "scheduler \<Rightarrow> queue_name option res" where
  "select_waiting_queue_for_scheduling s =
     (let w = queue_bool (waiting s); k = queue_bool (skipped_waiting s) in
      if policy (cfg s) = FCFS
      then Inr (if k then Some SkippedWaiting else if w then Some Waiting else None)
      else if w \<and> k
      then bindR (peek_request (waiting s)) (\<lambda>wr. bindR (peek_request (skipped_waiting s)) (\<lambda>sr.
             Inr (Some (if req_before s wr sr then Waiting else SkippedWaiting))))
      else Inr (if w then Some Waiting else if k then Some SkippedWaiting else None))"

definition preempt_request :: "req_id \<Rightarrow> scheduler \<Rightarrow> scheduler res" where
  "preempt_request rid s =
     bindR (get_req rid s) (\<lambda>r.
     bindR (assertR (status r = RUNNING)) (\<lambda>_.
     bindR (km_free r (kv_cache_manager s)) (\<lambda>km.
     bindR (em_free r (encoder_cache_manager s)) (\<lambda>em.
       let s' = put_req (r\<lparr>status := PREEMPTED, num_computed_tokens := 0, spec_token_ids := [],
                          num_preemptions := num_preemptions r + 1\<rparr>)
                  (s\<lparr>kv_cache_manager := km, encoder_cache_manager := em\<rparr>)
       in Inr (s'\<lparr>waiting := prepend_request (req_before s') rid (waiting s')\<rparr>)))))"

definition mamba_block_aligned_split :: "sched_config \<Rightarrow> request \<Rightarrow> int \<Rightarrow> int \<Rightarrow> int \<Rightarrow> int res" where
  "mamba_block_aligned_split c r num_new_tokens nlocal nexternal =
     bindR (assertR (nexternal = 0)) (\<lambda>_.
       let ncomputed = num_computed_tokens r + nlocal + nexternal in
       if ncomputed < max (num_prompt_tokens r) (num_tokens r - 1)
       then let bs = cache_block_size c;
                last0 = num_tokens r - num_tokens r mod bs;
                last_cache_position = (if sc_use_eagle c then max (last0 - bs) 0 else last0);
                after = ncomputed + num_new_tokens in
            Inr (if after < last_cache_position then num_new_tokens div bs * bs
                 else if ncomputed < last_cache_position \<and> last_cache_position < after
                 then last_cache_position - ncomputed
                 else num_new_tokens)
       else Inr num_new_tokens)"

section \<open>Encoder inputs of a step\<close>

record enc_plan =
  ep_mgr :: encoder_mgr
  ep_inputs :: "nat list"
  ep_tokens :: int
  ep_budget :: int
  ep_external :: "nat list"
  ep_hashes :: "string list"
  ep_embeds :: int

text \<open>The loop over the multi-modal items; a \<^verbatim>\<open>break\<close> ends the recursion.\<close>

fun encoder_inputs_loop ::
  "sched_config \<Rightarrow> (string \<Rightarrow> bool) \<Rightarrow> request \<Rightarrow> int \<Rightarrow> int \<Rightarrow> (nat \<times> mm_feature) list \<Rightarrow> enc_plan \<Rightarrow> enc_plan res" where
  "encoder_inputs_loop c has_item r ncomputed shift [] p = Inr p"
| "encoder_inputs_loop c has_item r ncomputed shift ((i, f) # rest) p =
     (let start_pos = offset (mm_position f); n = pr_length (mm_position f) in
      bindR (get_num_embeds (mm_position f)) (\<lambda>num_embeds.
      if start_pos \<ge> ncomputed + ep_tokens p + shift then Inr p
      else if is_encoder_decoder c \<and> ncomputed > 0
      then bindR (assertR (start_pos = 0)) (\<lambda>_. encoder_inputs_loop c has_item r ncomputed shift rest p)
      else if start_pos + n \<le> ncomputed then encoder_inputs_loop c has_item r ncomputed shift rest p
      else if \<not> is_encoder_decoder c \<and> mm_identifier f \<in> set (ep_hashes p)
      then encoder_inputs_loop c has_item r ncomputed shift rest p
      else bindR (if is_encoder_decoder c then Inr (False, ep_mgr p) else em_check_and_update_cache r i (ep_mgr p)) (\<lambda>(hit, em1).
      if hit then encoder_inputs_loop c has_item r ncomputed shift rest (p\<lparr>ep_mgr := em1\<rparr>)
      else if disable_chunked_mm_input c \<and> ncomputed < start_pos \<and> ncomputed + ep_tokens p < start_pos + n
      then Inr (p\<lparr>ep_mgr := em1, ep_tokens := max 0 (start_pos - (ncomputed + shift))\<rparr>)
      else bindR (em_can_allocate r i (ep_budget p) (ep_embeds p) em1) (\<lambda>(can, em2).
      if \<not> can
      then Inr (p\<lparr>ep_mgr := em2,
                  ep_tokens := (if ncomputed + shift < start_pos then start_pos - (ncomputed + shift) else 0)\<rparr>)
      else bindR (get_embeds_indices_in_range (mm_position f) (max 0 (ncomputed - start_pos))
                    (min n (ncomputed + ep_tokens p - start_pos))) (\<lambda>(a, b).
      if b - a = 0 then encoder_inputs_loop c has_item r ncomputed shift rest (p\<lparr>ep_mgr := em2\<rparr>)
      else if has_ec_connector c \<and> has_item (mm_identifier f)
      then encoder_inputs_loop c has_item r ncomputed shift rest
             (p\<lparr>ep_mgr := em2, ep_hashes := mm_identifier f # ep_hashes p, ep_external := ep_external p @ [i],
                ep_embeds := ep_embeds p + num_embeds\<rparr>)
      else encoder_inputs_loop c has_item r ncomputed shift rest
             (p\<lparr>ep_mgr := em2, ep_embeds := ep_embeds p + num_embeds, ep_budget := ep_budget p - num_embeds,
                ep_hashes := mm_identifier f # ep_hashes p, ep_inputs := ep_inputs p @ [i]\<rparr>))))))"

definition try_schedule_encoder_inputs ::
  "sched_env \<Rightarrow> request \<Rightarrow> int \<Rightarrow> int \<Rightarrow> int \<Rightarrow> scheduler \<Rightarrow> (nat list \<times> int \<times> int \<times> nat list \<times> scheduler) res" where
  "try_schedule_encoder_inputs env r ncomputed num_new_tokens budget s =
     (if num_new_tokens = 0 \<or> \<not> has_encoder_inputs r then Inr ([], num_new_tokens, budget, [], s)
      else bindR (encoder_inputs_loop (cfg s) (ec_has_cache_item env) r ncomputed (if sc_use_eagle (cfg s) then 1 else 0)
                    (enumerate 0 (mm_features r))
                    \<lparr>ep_mgr = encoder_cache_manager s, ep_inputs = [], ep_tokens = num_new_tokens, ep_budget = budget,
                     ep_external = [], ep_hashes = [], ep_embeds = 0\<rparr>) (\<lambda>p.
        Inr (ep_inputs p, ep_tokens p, ep_budget p, ep_external p, s\<lparr>encoder_cache_manager := ep_mgr p\<rparr>)))"

definition allocate_encoder_inputs :: "request \<Rightarrow> nat list \<Rightarrow> scheduler \<Rightarrow> scheduler res" where
  "allocate_encoder_inputs r ids s =
     bindR (foldR (em_allocate r) ids (encoder_cache_manager s)) (\<lambda>em. Inr (s\<lparr>encoder_cache_manager := em\<rparr>))"

section \<open>One scheduling step: the running requests\<close>

text \<open>The local variables of \<^verbatim>\<open>schedule\<close> together with the scheduler.\<close>

record sched_run =
  sr_sched :: scheduler
  req_index :: int
  scheduled_new_reqs :: "req_id list"
  scheduled_resumed_reqs :: "req_id list"
  scheduled_running_reqs :: "req_id list"
  preempted_reqs :: "req_id list"
  req_to_new_blocks :: "(req_id, kv_blocks) odict"
  num_scheduled_tokens :: "(req_id, int) odict"
  token_budget :: int
  scheduled_encoder_inputs :: "(req_id, nat list) odict"
  encoder_compute_budget :: int
  scheduled_spec_decode_tokens :: "(req_id, token list) odict"
  scheduled_loras :: "int list"
  step_skipped_waiting :: "req_id request_queue"

definition start_run :: "scheduler \<Rightarrow> sched_run" where
  "start_run s =
     \<lparr>sr_sched = s\<lparr>kv_cache_manager := km_new_step_starts (kv_cache_manager s)\<rparr>, req_index = 0,
      scheduled_new_reqs = [], scheduled_resumed_reqs = [], scheduled_running_reqs = [], preempted_reqs = [],
      req_to_new_blocks = [], num_scheduled_tokens = [],
      token_budget = (if pause s = PAUSED_ALL then 0 else max_num_scheduled_tokens (cfg s)),
      scheduled_encoder_inputs = [], encoder_compute_budget = max_num_encoder_input_tokens (cfg s),
      scheduled_spec_decode_tokens = [], scheduled_loras = [], step_skipped_waiting = create_request_queue (policy (cfg s))\<rparr>"

text \<open>\<^verbatim>\<open>dict.pop(key)\<close>, which raises for an absent key.\<close>

definition od_pop :: "'k \<Rightarrow> ('k, 'v) odict \<Rightarrow> ('v \<times> ('k, 'v) odict) res" where
  "od_pop k d = (case od_get d k of None \<Rightarrow> Inl KeyError | Some v \<Rightarrow> Inr (v, od_del k d))"

text \<open>\<^verbatim>\<open>max(xs, key=...)\<close>: the first maximal element.\<close>

fun first_max :: "('a \<Rightarrow> 'a \<Rightarrow> bool) \<Rightarrow> 'a list \<Rightarrow> 'a res" where
  "first_max lt [] = Inl ValueError"
| "first_max lt (x # xs) = Inr (fold (\<lambda>b a. if lt a b then b else a) xs x)"

definition victim_lt :: "scheduler \<Rightarrow> req_id \<Rightarrow> req_id \<Rightarrow> bool" where
  "victim_lt s a b =
     (case od_get (requests s) a of
        None \<Rightarrow> False
      | Some x \<Rightarrow> (case od_get (requests s) b of None \<Rightarrow> False
          | Some y \<Rightarrow> priority x < priority y \<or> priority x = priority y \<and> arrival_time x < arrival_time y))"

text \<open>Undoing what this step had already scheduled for the victim.\<close>

definition unschedule :: "req_id \<Rightarrow> sched_run \<Rightarrow> sched_run res" where
  "unschedule v st =
     (if v \<notin> set (scheduled_running_reqs st) then Inr st
      else bindR (od_pop v (num_scheduled_tokens st)) (\<lambda>(n, nst).
           bindR (od_pop v (req_to_new_blocks st)) (\<lambda>(_, nb).
           bindR (get_req v (sr_sched st)) (\<lambda>r.
           bindR (mapR (get_num_encoder_embeds r)
                   (case od_get (scheduled_encoder_inputs st) v of None \<Rightarrow> [] | Some ids \<Rightarrow> ids)) (\<lambda>embeds.
             Inr (st\<lparr>scheduled_running_reqs := remove1 v (scheduled_running_reqs st),
                     token_budget := token_budget st + n, num_scheduled_tokens := nst, req_to_new_blocks := nb,
                     scheduled_spec_decode_tokens := od_del v (scheduled_spec_decode_tokens st),
                     scheduled_encoder_inputs := od_del v (scheduled_encoder_inputs st),
                     encoder_compute_budget := encoder_compute_budget st + sum_list embeds,
                     req_index := req_index st - 1\<rparr>))))))"

definition preempt_victim :: "sched_run \<Rightarrow> (req_id \<times> sched_run) res" where
  "preempt_victim st =
     (let s = sr_sched st in
      bindR (if policy (cfg s) = PRIORITY
             then bindR (first_max (victim_lt s) (running s)) (\<lambda>v.
                  bindR (unschedule v (st\<lparr>sr_sched := s\<lparr>running := remove1 v (running s)\<rparr>\<rparr>)) (\<lambda>st1. Inr (v, st1)))
             else if running s = [] then Inl IndexError
             else Inr (last (running s), st\<lparr>sr_sched := s\<lparr>running := butlast (running s)\<rparr>\<rparr>)) (\<lambda>(v, st1).
      bindR (preempt_request v (sr_sched st1)) (\<lambda>s2.
        Inr (v, st1\<lparr>sr_sched := s2, preempted_reqs := preempted_reqs st1 @ [v]\<rparr>))))"

lemma preempt_request_running: "preempt_request rid s = Inr s' \<Longrightarrow> running s' = running s \<and> cfg s' = cfg s"
  by (auto simp: preempt_request_def bindR_eq_Inr Let_def put_req_def)

lemma unschedule_frame:
  assumes "unschedule v st = Inr st'"
  shows "sr_sched st' = sr_sched st \<and> req_index st' \<in> {req_index st, req_index st - 1} \<and> preempted_reqs st' = preempted_reqs st"
  using assms by (auto simp: unschedule_def bindR_eq_Inr split: if_splits)

lemma first_max_mem: "first_max lt xs = Inr x \<Longrightarrow> x \<in> set xs"
proof -
  have "fold (\<lambda>b a. if lt a b then b else a) ys a \<in> insert a (set ys)" for ys a
    by (induction ys arbitrary: a) (simp, fastforce)
  then show "first_max lt xs = Inr x \<Longrightarrow> x \<in> set xs" by (cases xs) auto
qed

lemma preempt_victim_frame:
  assumes "preempt_victim st = Inr (v, st')"
  shows "length (running (sr_sched st')) + 1 = length (running (sr_sched st)) \<and> cfg (sr_sched st') = cfg (sr_sched st) \<and>
    req_index st' \<in> {req_index st, req_index st - 1}"
proof (cases "policy (cfg (sr_sched st)) = PRIORITY")
  case True
  let ?s = "sr_sched st"
  obtain st1 s2 where m: "first_max (victim_lt ?s) (running ?s) = Inr v"
      "unschedule v (st\<lparr>sr_sched := ?s\<lparr>running := remove1 v (running ?s)\<rparr>\<rparr>) = Inr st1"
      "preempt_request v (sr_sched st1) = Inr s2" "st' = st1\<lparr>sr_sched := s2, preempted_reqs := preempted_reqs st1 @ [v]\<rparr>"
    using assms True by (auto simp: preempt_victim_def Let_def bindR_eq_Inr)
  have "v \<in> set (running ?s)" using m(1) by (rule first_max_mem)
  moreover have "running ?s \<noteq> []" using calculation by auto
  ultimately show ?thesis
    using unschedule_frame [OF m(2)] preempt_request_running [OF m(3)] m(4)
    by (auto simp: length_remove1 Suc_diff_1 length_pos_if_in_set)
next
  case False
  then show ?thesis
    using assms preempt_request_running
    by (fastforce simp: preempt_victim_def Let_def bindR_eq_Inr split: if_splits)
qed

text \<open>The loop around \<^verbatim>\<open>allocate_slots\<close>, which preempts until the request fits or is itself
  preempted.\<close>

function alloc_loop :: "sched_env \<Rightarrow> req_id \<Rightarrow> int \<Rightarrow> sched_run \<Rightarrow> (kv_blocks option \<times> sched_run) res" where
  "alloc_loop env rid num_new_tokens st =
     bindR (get_req rid (sr_sched st)) (\<lambda>r.
     bindR (allocate_slots (se_hash env) r num_new_tokens 0 None (num_lookahead_tokens (cfg (sr_sched st))) 0 False 0
              (kv_cache_manager (sr_sched st))) (\<lambda>(nb, km, r').
       let st1 = st\<lparr>sr_sched := put_req r' ((sr_sched st)\<lparr>kv_cache_manager := km\<rparr>)\<rparr> in
       case nb of
         Some b \<Rightarrow> Inr (Some b, st1)
       | None \<Rightarrow> bindR (preempt_victim st1) (\<lambda>(v, st2).
           if v = rid then Inr (None, st2) else alloc_loop env rid num_new_tokens st2)))"
  by pat_completeness auto
termination
proof (relation "measure (\<lambda>(_, _, _, st). length (running (sr_sched st)))", goal_cases)
  case (2 env rid n st r y nb z km r' st1 w v st2)
  then show ?case using preempt_victim_frame [of st1 v st2] by (auto simp: put_req_def)
qed simp

declare alloc_loop.simps [simp del]

lemma alloc_loop_frame:
  assumes "alloc_loop env rid n st = Inr (nb, st')"
  shows "int (length (running (sr_sched st'))) - req_index st' \<le> int (length (running (sr_sched st))) - req_index st \<and>
    cfg (sr_sched st') = cfg (sr_sched st)"
  using assms
proof (induction env rid n st arbitrary: nb st' rule: alloc_loop.induct)
  case (1 env rid n st)
  from 1(2) obtain r nb1 km r' where a: "get_req rid (sr_sched st) = Inr r"
      "allocate_slots (se_hash env) r n 0 None (num_lookahead_tokens (cfg (sr_sched st))) 0 False 0 (kv_cache_manager (sr_sched st)) = Inr (nb1, km, r')"
    by (subst (asm) alloc_loop.simps) (auto simp: bindR_eq_Inr)
  define st1 where "st1 = st\<lparr>sr_sched := put_req r' ((sr_sched st)\<lparr>kv_cache_manager := km\<rparr>)\<rparr>"
  have f1: "running (sr_sched st1) = running (sr_sched st)" "cfg (sr_sched st1) = cfg (sr_sched st)" "req_index st1 = req_index st"
    by (simp_all add: st1_def put_req_def)
  show ?case
  proof (cases nb1)
    case (Some b)
    then show ?thesis using 1(2) a f1 by (subst (asm) alloc_loop.simps) (simp add: Let_def st1_def [symmetric])
  next
    case None
    obtain v st2 where v: "preempt_victim st1 = Inr (v, st2)" "(if v = rid then Inr (None, st2) else alloc_loop env rid n st2) = Inr (nb, st')"
      using 1(2) a None by (subst (asm) alloc_loop.simps) (auto simp: Let_def st1_def [symmetric] bindR_eq_Inr)
    have f2: "length (running (sr_sched st2)) + 1 = length (running (sr_sched st1))" "cfg (sr_sched st2) = cfg (sr_sched st1)"
      "req_index st2 \<in> {req_index st1, req_index st1 - 1}" using preempt_victim_frame [OF v(1)] by simp_all
    show ?thesis
    proof (cases "v = rid")
      case True
      then show ?thesis using v(2) f1 f2 by auto
    next
      case False
      then show ?thesis using 1(1) [OF a(1,2) refl refl st1_def None v(1) refl False, of nb st'] v(2) f1 f2 by auto
    qed
  qed
qed

text \<open>How many tokens of a running request this step would compute, before encoder inputs and
  block alignment are considered.\<close>

definition running_num_new_tokens :: "sched_config \<Rightarrow> request \<Rightarrow> int \<Rightarrow> int" where
  "running_num_new_tokens c r budget =
     (let n = num_tokens_with_spec r + num_output_placeholders r - num_computed_tokens r;
          n1 = (if 0 < long_prefill_token_threshold c \<and> long_prefill_token_threshold c < n
                then long_prefill_token_threshold c else n);
          n2 = min n1 budget
      in min n2 (sc_max_model_len c - 1 - num_computed_tokens r))"

text \<open>Asynchronous scheduling: the previous step is known to reach \<^verbatim>\<open>max_tokens\<close>.\<close>

definition reaches_max_tokens :: "request \<Rightarrow> bool" where
  "reaches_max_tokens r \<longleftrightarrow> num_output_placeholders r > 0 \<and>
     num_computed_tokens r + 2 - num_output_placeholders r \<ge> num_prompt_tokens r + max_tokens r"

text \<open>The bookkeeping after a successful allocation.\<close>

definition commit_running ::
  "req_id \<Rightarrow> int \<Rightarrow> kv_blocks \<Rightarrow> nat list \<Rightarrow> int \<Rightarrow> nat list \<Rightarrow> sched_run \<Rightarrow> sched_run res" where
  "commit_running rid n nb enc_inputs enc_budget ext st =
     bindR (get_req rid (sr_sched st)) (\<lambda>r.
       let k = n + num_computed_tokens r - num_tokens r - num_output_placeholders r;
           spec = scheduled_spec_decode_tokens st;
           spec' = (if spec_token_ids r \<noteq> [] \<and> k > 0 then od_set rid (take (nat k) (spec_token_ids r)) spec else spec);
           r' = (if spec_token_ids r \<noteq> [] then r\<lparr>spec_token_ids := []\<rparr> else r)
       in bindR (allocate_encoder_inputs r' (enc_inputs @ ext) (put_req r' (sr_sched st))) (\<lambda>s.
         Inr (st\<lparr>sr_sched := s, scheduled_running_reqs := scheduled_running_reqs st @ [rid],
                 req_to_new_blocks := od_set rid nb (req_to_new_blocks st),
                 num_scheduled_tokens := od_set rid n (num_scheduled_tokens st),
                 token_budget := token_budget st - n, req_index := req_index st + 1,
                 scheduled_spec_decode_tokens := spec',
                 scheduled_encoder_inputs :=
                   (if enc_inputs \<noteq> [] then od_set rid enc_inputs (scheduled_encoder_inputs st) else scheduled_encoder_inputs st),
                 encoder_compute_budget := (if enc_inputs \<noteq> [] then enc_budget else encoder_compute_budget st)\<rparr>)))"

text \<open>The body of the loop; the flag says whether the loop goes on.\<close>

definition running_step :: "sched_env \<Rightarrow> sched_run \<Rightarrow> (bool \<times> sched_run) res" where
  "running_step env st =
     (let s = sr_sched st; c = cfg s in
      bindR (py_get (running s) (req_index st)) (\<lambda>rid.
      bindR (get_req rid s) (\<lambda>r.
      if reaches_max_tokens r then Inr (True, st\<lparr>req_index := req_index st + 1\<rparr>)
      else
        bindR (try_schedule_encoder_inputs env r (num_computed_tokens r) (running_num_new_tokens c r (token_budget st))
                 (encoder_compute_budget st) s) (\<lambda>(enc_inputs, n1, enc_budget, ext, s1).
        bindR (if need_mamba_block_aligned_split c then mamba_block_aligned_split c r n1 0 0 else Inr n1) (\<lambda>n.
        if n = 0 then Inr (True, st\<lparr>sr_sched := s1, req_index := req_index st + 1\<rparr>)
        else
          bindR (alloc_loop env rid n (st\<lparr>sr_sched := s1\<rparr>)) (\<lambda>(nb, st1).
            case nb of
              None \<Rightarrow> Inr (False, st1)
            | Some b \<Rightarrow> bindR (commit_running rid n b enc_inputs enc_budget ext st1) (\<lambda>st2. Inr (True, st2))))))))"

definition run_distance :: "sched_run \<Rightarrow> int" where
  "run_distance st = int (length (running (sr_sched st))) - req_index st"

lemma commit_running_frame:
  assumes "commit_running rid n nb ei eb ext st = Inr st'"
  shows "running (sr_sched st') = running (sr_sched st) \<and> req_index st' = req_index st + 1 \<and> cfg (sr_sched st') = cfg (sr_sched st) \<and>
    preempted_reqs st' = preempted_reqs st"
  using assms by (auto simp: commit_running_def Let_def bindR_eq_Inr allocate_encoder_inputs_def put_req_def)

lemma try_schedule_frame:
  assumes "try_schedule_encoder_inputs env r nc n b s = Inr (ei, n', b', ext, s')"
  shows "\<exists>em. s' = s\<lparr>encoder_cache_manager := em\<rparr>"
  using assms by (auto simp: try_schedule_encoder_inputs_def bindR_eq_Inr split: if_splits intro: exI [of _ "encoder_cache_manager s"])

lemma running_step_distance:
  assumes "running_step env st = Inr (go, st')"
  shows "cfg (sr_sched st') = cfg (sr_sched st) \<and> (go \<longrightarrow> run_distance st' < run_distance st)"
proof -
  let ?s = "sr_sched st" and ?c = "cfg (sr_sched st)"
  obtain rid r where r: "py_get (running ?s) (req_index st) = Inr rid" "get_req rid ?s = Inr r"
    using assms by (auto simp: running_step_def Let_def bindR_eq_Inr)
  show ?thesis
  proof (cases "reaches_max_tokens r")
    case True
    then show ?thesis using assms r by (auto simp: running_step_def Let_def run_distance_def)
  next
    case False
    obtain ei n1 eb ext s1 n where e: "try_schedule_encoder_inputs env r (num_computed_tokens r)
          (running_num_new_tokens ?c r (token_budget st)) (encoder_compute_budget st) ?s = Inr (ei, n1, eb, ext, s1)"
        "(if need_mamba_block_aligned_split ?c then mamba_block_aligned_split ?c r n1 0 0 else Inr n1) = Inr n"
      using assms r False by (auto simp: running_step_def Let_def bindR_eq_Inr)
    obtain em where s1: "s1 = ?s\<lparr>encoder_cache_manager := em\<rparr>" using try_schedule_frame [OF e(1)] by blast
    note go = assms [unfolded running_step_def Let_def r bindR_Inr e if_not_P [OF False] prod.case]
    show ?thesis
    proof (cases "n = 0")
      case True
      then show ?thesis using go s1 by (auto simp: run_distance_def)
    next
      case False
      obtain nb st1 where al: "alloc_loop env rid n (st\<lparr>sr_sched := s1\<rparr>) = Inr (nb, st1)"
          "(case nb of None \<Rightarrow> Inr (False, st1) | Some b \<Rightarrow>
            bindR (commit_running rid n b ei eb ext st1) (\<lambda>st2. Inr (True, st2))) = Inr (go, st')"
        using go False by (auto simp: bindR_eq_Inr)
      then show ?thesis
        using alloc_loop_frame [OF al(1)] commit_running_frame [of rid n _ ei eb ext st1] s1
        by (auto simp: run_distance_def bindR_eq_Inr split: option.splits)
    qed
  qed
qed

function running_loop :: "sched_env \<Rightarrow> sched_run \<Rightarrow> sched_run res" where
  "running_loop env st =
     (if req_index st < int (length (running (sr_sched st))) \<and> token_budget st > 0
      then bindR (running_step env st) (\<lambda>(go, st'). if go then running_loop env st' else Inr st')
      else Inr st)"
  by pat_completeness auto
termination
proof (relation "measure (\<lambda>(_, st). nat (run_distance st))", goal_cases)
  case (2 env st x go st')
  then show ?case using running_step_distance [of env st go st'] by (auto simp: run_distance_def)
qed simp

declare running_loop.simps [simp del]

text \<open>The LoRA adapters of the scheduled requests.\<close>

definition record_loras :: "sched_run \<Rightarrow> sched_run res" where
  "record_loras st =
     (case max_loras (cfg (sr_sched st)) of
        None \<Rightarrow> Inr st
      | Some m \<Rightarrow>
          bindR (mapR (\<lambda>rid. get_req rid (sr_sched st)) (scheduled_running_reqs st)) (\<lambda>rs.
            let ids = fold (\<lambda>r xs. case lora_request r of
                               Some l \<Rightarrow> if lora_int_id l > 0 then set_add (lora_int_id l) xs else xs
                             | None \<Rightarrow> xs) rs []
            in bindR (assertR (int (length ids) \<le> m)) (\<lambda>_. Inr (st\<lparr>scheduled_loras := ids\<rparr>))))"

section \<open>One scheduling step: the waiting requests\<close>

text \<open>\<^verbatim>\<open>set.remove\<close> raises for an absent element.\<close>

definition set_remove :: "'a \<Rightarrow> 'a list \<Rightarrow> 'a list res" where
  "set_remove x xs = (if x \<in> set xs then Inr (removeAll x xs) else Inl KeyError)"

text \<open>Caching the received blocks, or releasing them when nothing was received.\<close>

definition cache_received_blocks :: "sched_env \<Rightarrow> request \<Rightarrow> scheduler \<Rightarrow> scheduler res" where
  "cache_received_blocks env r s =
     (if request_id r \<in> set (failed_recving_kv_req_ids s)
      then if num_computed_tokens r \<noteq> 0
           then bindR (km_cache_blocks (se_hash env) r (num_computed_tokens r) (kv_cache_manager s)) (\<lambda>(km, r').
                  Inr (put_req r' (s\<lparr>kv_cache_manager := km,
                         failed_recving_kv_req_ids := removeAll (request_id r) (failed_recving_kv_req_ids s)\<rparr>)))
           else bindR (km_free r (kv_cache_manager s)) (\<lambda>km.
                  Inr (s\<lparr>kv_cache_manager := km,
                         failed_recving_kv_req_ids := removeAll (request_id r) (failed_recving_kv_req_ids s)\<rparr>))
      else bindR (km_cache_blocks (se_hash env) r (num_computed_tokens r) (kv_cache_manager s)) (\<lambda>(km, r').
           let r1 = (if num_computed_tokens r' = num_tokens r' then r'\<lparr>num_computed_tokens := num_tokens r' - 1\<rparr> else r');
               r2 = (if num_cached_tokens r1 < 0 then r1\<lparr>num_cached_tokens := num_computed_tokens r1\<rparr> else r1)
           in Inr (put_req r2 (s\<lparr>kv_cache_manager := km\<rparr>))))"

definition update_waiting_for_remote_kv :: "sched_env \<Rightarrow> req_id \<Rightarrow> scheduler \<Rightarrow> scheduler res" where
  "update_waiting_for_remote_kv env rid s =
     bindR (assertR (has_connector (cfg s))) (\<lambda>_.
     bindR (get_req rid s) (\<lambda>r.
     bindR (cache_received_blocks env r s) (\<lambda>s2.
     bindR (set_remove rid (finished_recving_kv_req_ids s2)) (\<lambda>ids.
       Inr (s2\<lparr>finished_recving_kv_req_ids := ids\<rparr>)))))"

definition set_status :: "req_id \<Rightarrow> request_status \<Rightarrow> scheduler \<Rightarrow> scheduler res" where
  "set_status rid st s = bindR (get_req rid s) (\<lambda>r. Inr (put_req (r\<lparr>status := st\<rparr>) s))"

definition try_promote_blocked_waiting_request :: "sched_env \<Rightarrow> req_id \<Rightarrow> scheduler \<Rightarrow> (bool \<times> scheduler) res" where
  "try_promote_blocked_waiting_request env rid s =
     bindR (get_req rid s) (\<lambda>r.
       case status r of
         WAITING_FOR_REMOTE_KVS \<Rightarrow>
           if rid \<notin> set (finished_recving_kv_req_ids s) then Inr (False, s)
           else bindR (update_waiting_for_remote_kv env rid s) (\<lambda>s1.
                bindR (set_status rid (if num_preemptions r \<noteq> 0 then PREEMPTED else WAITING) s1) (\<lambda>s2. Inr (True, s2)))
       | WAITING_FOR_FSM \<Rightarrow>
           if \<not> grammar_ready env rid then Inr (False, s)
           else bindR (set_status rid WAITING s) (\<lambda>s1. Inr (True, s1))
       | WAITING_FOR_STREAMING_REQ \<Rightarrow>
           bindR (assertR (streaming_queue r = None \<or> streaming_queue r = Some [])) (\<lambda>_. Inr (False, s))
       | _ \<Rightarrow> Inl AssertionError)"

text \<open>Popping the head and keeping it aside for the rest of the step.\<close>

definition skip_waiting :: "queue_name \<Rightarrow> req_id \<Rightarrow> sched_run \<Rightarrow> sched_run res" where
  "skip_waiting q rid st =
     bindR (pop_request (req_before (sr_sched st)) (queue_of q (sr_sched st))) (\<lambda>(_, q').
       let s = set_queue q q' (sr_sched st)
       in Inr (st\<lparr>sr_sched := s, step_skipped_waiting := prepend_request (req_before s) rid (step_skipped_waiting st)\<rparr>))"

definition exceeds_max_loras :: "request \<Rightarrow> sched_run \<Rightarrow> bool" where
  "exceeds_max_loras r st =
     (case max_loras (cfg (sr_sched st)) of
        None \<Rightarrow> False
      | Some m \<Rightarrow> (case lora_request r of
            None \<Rightarrow> False
          | Some l \<Rightarrow> int (length (scheduled_loras st)) = m \<and> lora_int_id l \<notin> set (scheduled_loras st)))"

text \<open>The tokens a waiting request need not compute: prefix hits and what the connector offers.
  The connector may not know yet; then the request is skipped.\<close>

record computed_info =
  ci_blocks :: kv_blocks
  ci_local :: int
  ci_external :: int
  ci_async :: bool
  ci_computed :: int
  ci_queries :: int
  ci_hits :: int

definition waiting_computed :: "sched_env \<Rightarrow> req_id \<Rightarrow> scheduler \<Rightarrow> (computed_info option \<times> scheduler) res" where
  "waiting_computed env rid s =
     bindR (get_req rid s) (\<lambda>r.
       if num_computed_tokens r = 0
       then bindR (get_computed_blocks r (kv_cache_manager s)) (\<lambda>(bs, nlocal, km).
         let s1 = s\<lparr>kv_cache_manager := km\<rparr> in
         if has_connector (cfg s)
         then (case conn_match env rid nlocal of
                 (None, _) \<Rightarrow> Inr (None, s1)
               | (Some ext, async) \<Rightarrow>
                   bindR (assertR (nlocal + ext \<le> num_tokens r)) (\<lambda>_.
                     Inr (Some \<lparr>ci_blocks = bs, ci_local = nlocal, ci_external = ext, ci_async = async,
                               ci_computed = nlocal + ext, ci_queries = num_tokens r - nlocal, ci_hits = ext\<rparr>,
                          put_req (r\<lparr>num_external_computed_tokens := ext\<rparr>) s1)))
         else bindR (assertR (nlocal \<le> num_tokens r)) (\<lambda>_.
                Inr (Some \<lparr>ci_blocks = bs, ci_local = nlocal, ci_external = 0, ci_async = False,
                          ci_computed = nlocal, ci_queries = 0, ci_hits = 0\<rparr>, s1)))
       else Inr (Some \<lparr>ci_blocks = empty_kv_cache_blocks (kv_cache_manager s), ci_local = 0, ci_external = 0, ci_async = False,
                      ci_computed = num_computed_tokens r, ci_queries = 0, ci_hits = 0\<rparr>, s))"

text \<open>The tokens a waiting request computes in this step; \<open>None\<close> is a \<^verbatim>\<open>break\<close>.\<close>

definition waiting_num_new_tokens ::
  "sched_env \<Rightarrow> request \<Rightarrow> computed_info \<Rightarrow> int \<Rightarrow> int \<Rightarrow> scheduler \<Rightarrow> ((nat list \<times> int \<times> int \<times> nat list) option \<times> scheduler) res" where
  "waiting_num_new_tokens env r ci budget enc_budget s =
     (if ci_async ci
      then bindR (assertR (ci_external ci > 0)) (\<lambda>_. Inr (Some ([], 0, enc_budget, []), s))
      else
        let n0 = num_tokens r - ci_computed ci;
            t = long_prefill_token_threshold (cfg s);
            n1 = (if 0 < t \<and> t < n0 then t else n0);
            n2 = min n1 budget
        in if \<not> enable_chunked_prefill (cfg s) \<and> n1 > budget then Inr (None, s)
           else bindR (assertR (n2 > 0)) (\<lambda>_.
             bindR (try_schedule_encoder_inputs env r (ci_computed ci) n2 enc_budget s) (\<lambda>(ei, n3, eb, ext, s1).
               Inr (if has_encoder_inputs r \<and> n3 = 0 then None else Some (ei, n3, eb, ext), s1))))"

definition waiting_tokens ::
  "sched_env \<Rightarrow> req_id \<Rightarrow> computed_info \<Rightarrow> int \<Rightarrow> int \<Rightarrow> scheduler \<Rightarrow> ((nat list \<times> int \<times> int \<times> nat list) option \<times> scheduler) res" where
  "waiting_tokens env rid ci budget enc_budget s =
     bindR (get_req rid s) (\<lambda>r.
     bindR (waiting_num_new_tokens env r ci budget enc_budget s) (\<lambda>(plan, s2).
     case plan of
       None \<Rightarrow> Inr (None, s2)
     | Some (ei, n3, eb, ext) \<Rightarrow>
         if need_mamba_block_aligned_split (cfg s)
         then bindR (mamba_block_aligned_split (cfg s) r n3 (ci_local ci) (ci_external ci)) (\<lambda>n4.
                Inr (if n4 = 0 then None else Some (ei, n4, eb, ext), s2))
         else Inr (Some (ei, n3, eb, ext), s2)))"

text \<open>What happens once the slots are allocated: the request starts an asynchronous load, or it
  starts to run.\<close>

definition admit_waiting ::
  "queue_name \<Rightarrow> req_id \<Rightarrow> computed_info \<Rightarrow> nat list \<Rightarrow> int \<Rightarrow> int \<Rightarrow> nat list \<Rightarrow> sched_run \<Rightarrow> sched_run res" where
  "admit_waiting q rid ci ei n eb ext st =
     (let s0 = sr_sched st in
      bindR (get_req rid s0) (\<lambda>r0.
      let s1 = (if has_connector (cfg s0) \<and> ci_queries ci \<noteq> 0
                then s0\<lparr>connector_prefix_cache_stats :=
                       map_option (stats_record (ci_queries ci) (ci_hits ci) (num_preemptions r0 > 0)) (connector_prefix_cache_stats s0)\<rparr>
                else s0) in
      bindR (pop_request (req_before s1) (queue_of q s1)) (\<lambda>(rid', q').
      let s2 = set_queue q q' s1 in
      bindR (get_req rid' s2) (\<lambda>r.
      if ci_async ci
      then let s3 = put_req (r\<lparr>status := WAITING_FOR_REMOTE_KVS, num_computed_tokens := ci_computed ci\<rparr>) s2 in
           Inr (st\<lparr>sr_sched := s3, step_skipped_waiting := prepend_request (req_before s3) rid' (step_skipped_waiting st)\<rparr>)
      else
        bindR (if status r = WAITING then Inr (st\<lparr>scheduled_new_reqs := scheduled_new_reqs st @ [rid']\<rparr>)
               else if status r = PREEMPTED then Inr (st\<lparr>scheduled_resumed_reqs := scheduled_resumed_reqs st @ [rid']\<rparr>)
               else Inl RuntimeError) (\<lambda>st1.
        let r' = r\<lparr>status := RUNNING, num_computed_tokens := ci_computed ci,
                   num_cached_tokens := (if num_cached_tokens r < 0 then ci_computed ci else num_cached_tokens r)\<rparr> in
        bindR (allocate_encoder_inputs r' (ei @ ext) (put_req r' (s2\<lparr>running := running s2 @ [rid']\<rparr>))) (\<lambda>s3.
          Inr (st1\<lparr>sr_sched := s3,
                   scheduled_loras := (case max_loras (cfg s2) of None \<Rightarrow> scheduled_loras st1
                                       | Some _ \<Rightarrow> (case lora_request r of None \<Rightarrow> scheduled_loras st1
                                           | Some l \<Rightarrow> set_add (lora_int_id l) (scheduled_loras st1))),
                   req_to_new_blocks := od_set rid (km_get_blocks rid (kv_cache_manager s2)) (req_to_new_blocks st1),
                   num_scheduled_tokens := od_set rid n (num_scheduled_tokens st1),
                   token_budget := token_budget st1 - n,
                   scheduled_encoder_inputs :=
                     (if ei \<noteq> [] then od_set rid ei (scheduled_encoder_inputs st1) else scheduled_encoder_inputs st1),
                   encoder_compute_budget := (if ei \<noteq> [] then eb else encoder_compute_budget st1)\<rparr>)))))))"

definition waiting_step :: "sched_env \<Rightarrow> sched_run \<Rightarrow> (bool \<times> sched_run) res" where
  "waiting_step env st =
     (let s = sr_sched st in
      if int (length (running s)) = max_num_running_reqs (cfg s) then Inr (False, st)
      else
      bindR (select_waiting_queue_for_scheduling s) (\<lambda>sel.
      case sel of None \<Rightarrow> Inl AssertionError | Some q \<Rightarrow>
      bindR (peek_request (queue_of q s)) (\<lambda>rid.
      bindR (get_req rid s) (\<lambda>r0.
      bindR (if is_blocked_waiting_status (status r0) then try_promote_blocked_waiting_request env rid s else Inr (True, s)) (\<lambda>(ready, s1).
      let st1 = st\<lparr>sr_sched := s1\<rparr> in
      if \<not> ready then bindR (skip_waiting q rid st1) (\<lambda>st2. Inr (True, st2))
      else
      bindR (get_req rid s1) (\<lambda>r.
      if exceeds_max_loras r st1 then bindR (skip_waiting q rid st1) (\<lambda>st2. Inr (True, st2))
      else
      bindR (waiting_computed env rid s1) (\<lambda>(info, s2).
      let st2 = st\<lparr>sr_sched := s2\<rparr> in
      case info of None \<Rightarrow> bindR (skip_waiting q rid st2) (\<lambda>st3. Inr (True, st3)) | Some ci \<Rightarrow>
      bindR (waiting_tokens env rid ci (token_budget st) (encoder_compute_budget st) s2) (\<lambda>(plan, s3).
      case plan of None \<Rightarrow> Inr (False, st\<lparr>sr_sched := s3\<rparr>) | Some (ei, n, eb, ext) \<Rightarrow>
      bindR (get_req rid s3) (\<lambda>r3.
      bindR (if is_encoder_decoder (cfg s3) \<and> has_encoder_inputs r3 \<and> ei \<noteq> []
             then mapR (get_num_encoder_embeds r3) ei else Inr []) (\<lambda>embeds.
      bindR (allocate_slots (se_hash env) r3 n (ci_local ci) (Some (ci_blocks ci))
               (if num_computed_tokens r3 = 0 then 0 else num_lookahead_tokens (cfg s3))
               (ci_external ci) (ci_async ci) (sum_list embeds) (kv_cache_manager s3)) (\<lambda>(nb, km, r4).
      let s4 = put_req r4 (s3\<lparr>kv_cache_manager := km\<rparr>) in
      case nb of
        None \<Rightarrow> bindR (if has_encoder_inputs r4 then em_free r4 (encoder_cache_manager s4) else Inr (encoder_cache_manager s4)) (\<lambda>em.
                  Inr (False, st\<lparr>sr_sched := s4\<lparr>encoder_cache_manager := em\<rparr>\<rparr>))
      | Some _ \<Rightarrow> bindR (admit_waiting q rid ci ei n eb ext (st\<lparr>sr_sched := s4\<rparr>)) (\<lambda>st5. Inr (True, st5)))))))))))))"

text \<open>Everything up to the admission leaves the queues alone.\<close>

definition same_queues :: "scheduler \<Rightarrow> scheduler \<Rightarrow> bool" where
  "same_queues s s' \<longleftrightarrow> waiting s' = waiting s \<and> skipped_waiting s' = skipped_waiting s \<and> running s' = running s \<and> cfg s' = cfg s"

lemma same_queues_refl [simp]: "same_queues s s"
  by (simp add: same_queues_def)

lemma same_queues_trans: "same_queues s s' \<Longrightarrow> same_queues s' s'' \<Longrightarrow> same_queues s s''"
  by (simp add: same_queues_def)

lemma same_queues_put [simp]: "same_queues s (put_req r s') = same_queues s s'"
  by (simp add: same_queues_def put_req_def)

lemma same_queues_upd [simp]:
  "same_queues s (s'\<lparr>kv_cache_manager := km\<rparr>) = same_queues s s'"
  "same_queues s (s'\<lparr>encoder_cache_manager := em\<rparr>) = same_queues s s'"
  "same_queues s (s'\<lparr>failed_recving_kv_req_ids := a\<rparr>) = same_queues s s'"
  "same_queues s (s'\<lparr>finished_recving_kv_req_ids := a\<rparr>) = same_queues s s'"
  "same_queues s (s'\<lparr>connector_prefix_cache_stats := x\<rparr>) = same_queues s s'"
  by (simp_all add: same_queues_def)

lemma set_status_same: "ensures (same_queues s) (set_status rid st s)"
  unfolding set_status_def by (intro ens_intros) simp

lemma cache_received_same: "ensures (same_queues s) (cache_received_blocks env r s)"
  unfolding cache_received_blocks_def by (intro ens_intros) simp_all

lemma update_waiting_same: "ensures (same_queues s) (update_waiting_for_remote_kv env rid s)"
  unfolding update_waiting_for_remote_kv_def
  by (intro ens_intros) (use cache_received_same [THEN ensuresD] in simp)

lemma try_promote_same: "ensures (\<lambda>(b, s'). same_queues s s') (try_promote_blocked_waiting_request env rid s)"
  unfolding try_promote_blocked_waiting_request_def
proof (rule ens_bind)
  fix r
  show "ensures (\<lambda>(b, s'). same_queues s s') (case status r of
         WAITING_FOR_REMOTE_KVS \<Rightarrow>
           if rid \<notin> set (finished_recving_kv_req_ids s) then Inr (False, s)
           else bindR (update_waiting_for_remote_kv env rid s) (\<lambda>s1.
                bindR (set_status rid (if num_preemptions r \<noteq> 0 then PREEMPTED else WAITING) s1) (\<lambda>s2. Inr (True, s2)))
       | WAITING_FOR_FSM \<Rightarrow>
           if \<not> grammar_ready env rid then Inr (False, s)
           else bindR (set_status rid WAITING s) (\<lambda>s1. Inr (True, s1))
       | WAITING_FOR_STREAMING_REQ \<Rightarrow>
           bindR (assertR (streaming_queue r = None \<or> streaming_queue r = Some [])) (\<lambda>_. Inr (False, s))
       | _ \<Rightarrow> Inl AssertionError)"
    by (cases "status r") (auto intro!: ens_intros
        dest!: update_waiting_same [THEN ensuresD] set_status_same [THEN ensuresD] intro: same_queues_trans)
qed

lemma waiting_computed_same: "ensures (\<lambda>(ci, s'). same_queues s s') (waiting_computed env rid s)"
  unfolding waiting_computed_def by (intro ens_intros) simp_all

lemma try_schedule_same: "ensures (\<lambda>(ei, n', b', ext, s'). same_queues s s') (try_schedule_encoder_inputs env r nc n b s)"
  unfolding try_schedule_encoder_inputs_def by (intro ens_intros) simp_all

lemma waiting_num_same: "ensures (\<lambda>(p, s'). same_queues s s') (waiting_num_new_tokens env r ci b eb s)"
  unfolding waiting_num_new_tokens_def by (intro ens_intros) (use try_schedule_same [THEN ensuresD] in auto)

lemma waiting_tokens_same: "ensures (\<lambda>(p, s'). same_queues s s') (waiting_tokens env rid ci b eb s)"
  unfolding waiting_tokens_def by (intro ens_intros) (use waiting_num_same [THEN ensuresD] in auto)

lemma allocate_encoder_same: "ensures (same_queues s) (allocate_encoder_inputs r ids s)"
  unfolding allocate_encoder_inputs_def by (intro ens_intros) simp

definition waiting_total :: "scheduler \<Rightarrow> nat" where
  "waiting_total s = queue_len (waiting s) + queue_len (skipped_waiting s)"

lemma same_queues_total: "same_queues s s' \<Longrightarrow> waiting_total s' = waiting_total s"
  by (simp add: same_queues_def waiting_total_def)

lemma pop_total:
  assumes "pop_request lt (queue_of q s) = Inr (r, q')"
  shows "waiting_total s = Suc (waiting_total (set_queue q q' s))"
  using pop_request_len [OF assms] by (cases q) (simp_all add: queue_of_def set_queue_def waiting_total_def)

lemma skip_waiting_total:
  "ensures (\<lambda>st'. waiting_total (sr_sched st) = Suc (waiting_total (sr_sched st'))) (skip_waiting q rid st)"
  unfolding skip_waiting_def by (intro ens_intros) (use pop_total in auto)

lemma admit_waiting_total:
  "ensures (\<lambda>st'. waiting_total (sr_sched st) = Suc (waiting_total (sr_sched st'))) (admit_waiting q rid ci ei n eb ext st)"
  unfolding admit_waiting_def
  apply (intro ens_intros)
  subgoal by (auto simp: put_req_def waiting_total_def dest!: pop_total split: if_splits)
  subgoal by (auto simp: put_req_def waiting_total_def dest!: pop_total allocate_encoder_same [THEN ensuresD] same_queues_total split: if_splits)
  done

lemma promoted_same:
  assumes "(if b then try_promote_blocked_waiting_request env rid s else Inr (True, s)) = Inr (ready, s1)"
  shows "same_queues s s1"
  using assms try_promote_same [THEN ensuresD, of env rid s "(ready, s1)"] by (auto split: if_splits)

lemma waiting_step_total:
  "ensures (\<lambda>(go, st'). go \<longrightarrow> waiting_total (sr_sched st') < waiting_total (sr_sched st)) (waiting_step env st)"
  unfolding waiting_step_def
  by (intro ens_intros)
    (auto dest!: promoted_same waiting_computed_same [THEN ensuresD] waiting_tokens_same [THEN ensuresD]
      skip_waiting_total [THEN ensuresD] admit_waiting_total [THEN ensuresD] same_queues_total simp: waiting_total_def put_req_def)

function waiting_loop :: "sched_env \<Rightarrow> sched_run \<Rightarrow> sched_run res" where
  "waiting_loop env st =
     (if (queue_bool (waiting (sr_sched st)) \<or> queue_bool (skipped_waiting (sr_sched st))) \<and> token_budget st > 0
      then bindR (waiting_step env st) (\<lambda>(go, st'). if go then waiting_loop env st' else Inr st')
      else Inr st)"
  by pat_completeness auto
termination
proof (relation "measure (\<lambda>(_, st). waiting_total (sr_sched st))", goal_cases)
  case (2 env st x go st')
  then show ?case using waiting_step_total [THEN ensuresD, of env st "(go, st')"] by auto
qed simp

declare waiting_loop.simps [simp del]

definition schedule_waiting :: "sched_env \<Rightarrow> sched_run \<Rightarrow> sched_run res" where
  "schedule_waiting env st =
     (if preempted_reqs st = [] \<and> pause (sr_sched st) = UNPAUSED
      then bindR (waiting_loop env st) (\<lambda>st1.
             Inr (if queue_bool (step_skipped_waiting st1)
                  then st1\<lparr>sr_sched := (sr_sched st1)\<lparr>skipped_waiting :=
                         prepend_requests (req_before (sr_sched st1)) (step_skipped_waiting st1) (skipped_waiting (sr_sched st1))\<rparr>\<rparr>
                  else st1))
      else Inr st)"

section \<open>The scheduler output\<close>

record new_request_data =
  nrd_req_id :: req_id
  nrd_prompt_token_ids :: "token list option"
  nrd_mm_features :: "mm_feature list"
  nrd_sampling :: "sampling_params option"
  nrd_pooling :: "pooling_params option"
  nrd_block_ids :: "int list list"
  nrd_num_computed_tokens :: int
  nrd_lora_request :: "lora_request_data option"
  nrd_prompt_embeds :: "bytes list option"
  nrd_prefill_token_ids :: "token list option"

definition new_request_data_from_request :: "request \<Rightarrow> int list list \<Rightarrow> token list option \<Rightarrow> new_request_data" where
  "new_request_data_from_request r block_ids prefill =
     \<lparr>nrd_req_id = request_id r, nrd_prompt_token_ids = prompt_token_ids r, nrd_mm_features = mm_features r,
      nrd_sampling = sampling r, nrd_pooling = pooling r, nrd_block_ids = block_ids,
      nrd_num_computed_tokens = num_computed_tokens r, nrd_lora_request = lora_request r,
      nrd_prompt_embeds = prompt_embeds r, nrd_prefill_token_ids = prefill\<rparr>"

record cached_request_data =
  crd_req_ids :: "req_id list"
  crd_resumed_req_ids :: "req_id list"
  crd_new_token_ids :: "token list list"
  crd_all_token_ids :: "(req_id, token list) odict"
  crd_new_block_ids :: "int list list option list"
  crd_num_computed_tokens :: "int list"
  crd_num_output_tokens :: "int list"

definition od_index :: "'k \<Rightarrow> ('k, 'v) odict \<Rightarrow> 'v res" where
  "od_index k d = (case od_get d k of None \<Rightarrow> Inl KeyError | Some v \<Rightarrow> Inr v)"

text \<open>A slice between two integer positions, both counted from the end when negative.\<close>

definition int_slice :: "int \<Rightarrow> int \<Rightarrow> 'a list \<Rightarrow> 'a list" where
  "int_slice a b xs =
     (let pos = (\<lambda>i. nat (if i < 0 then max 0 (i + int (length xs)) else i))
      in drop (pos a) (take (pos b) xs))"

definition cached_data_step ::
  "bool \<Rightarrow> (req_id, int) odict \<Rightarrow> (req_id, token list) odict \<Rightarrow> (req_id, kv_blocks) odict \<Rightarrow> scheduler \<Rightarrow>
   bool \<times> req_id \<Rightarrow> cached_request_data \<Rightarrow> cached_request_data res" where
  "cached_data_step send_tokens nst spec nblocks s x d =
     (case x of (resumed, rid) \<Rightarrow>
       bindR (get_req rid s) (\<lambda>r.
       bindR (od_index rid nst) (\<lambda>n.
       bindR (od_index rid nblocks) (\<lambda>nb.
       let prev = rid \<in> set (prev_step_scheduled_req_ids s);
           k = n - int (length (case od_get spec rid of None \<Rightarrow> [] | Some ts \<Rightarrow> ts)) in
       bindR (assertR (resumed \<longrightarrow> \<not> prev)) (\<lambda>_.
         Inr \<lparr>crd_req_ids = crd_req_ids d @ [rid],
              crd_resumed_req_ids = (if resumed then set_add rid (crd_resumed_req_ids d) else crd_resumed_req_ids d),
              crd_new_token_ids = (if send_tokens
                then crd_new_token_ids d @ [int_slice (num_computed_tokens r) (num_computed_tokens r + k) (all_token_ids r)]
                else crd_new_token_ids d),
              crd_all_token_ids = (if prev then crd_all_token_ids d else od_set rid (all_token_ids r) (crd_all_token_ids d)),
              crd_new_block_ids = crd_new_block_ids d @ [blocks_get_block_ids True nb],
              crd_num_computed_tokens = crd_num_computed_tokens d @ [num_computed_tokens r],
              crd_num_output_tokens = crd_num_output_tokens d @ [num_output_tokens r + num_output_placeholders r]\<rparr>)))))"

definition make_cached_request_data ::
  "req_id list \<Rightarrow> req_id list \<Rightarrow> (req_id, int) odict \<Rightarrow> (req_id, token list) odict \<Rightarrow> (req_id, kv_blocks) odict \<Rightarrow> scheduler \<Rightarrow>
   cached_request_data res" where
  "make_cached_request_data running_reqs resumed_reqs nst spec nblocks s =
     foldR (cached_data_step (use_pp (cfg s) \<and> \<not> async_scheduling (cfg s)) nst spec nblocks s)
       (map (Pair False) running_reqs @ map (Pair True) resumed_reqs)
       \<lparr>crd_req_ids = [], crd_resumed_req_ids = [], crd_new_token_ids = [], crd_all_token_ids = [], crd_new_block_ids = [],
        crd_num_computed_tokens = [], crd_num_output_tokens = []\<rparr>"

record scheduler_output =
  so_new_reqs :: "new_request_data list"
  so_cached_reqs :: cached_request_data
  so_num_scheduled_tokens :: "(req_id, int) odict"
  so_total_num_scheduled_tokens :: int
  so_spec_decode_tokens :: "(req_id, token list) odict"
  so_encoder_inputs :: "(req_id, nat list) odict"
  so_num_common_prefix_blocks :: "int list"
  so_preempted_req_ids :: "req_id list"
  so_finished_req_ids :: "req_id list"
  so_free_encoder_mm_hashes :: "string list"
  so_new_block_ids_to_zero :: "int list option"
  so_has_structured_output_requests :: bool
  so_pending_structured_output_tokens :: bool
  so_num_invalid_spec_tokens :: "(req_id, int) odict option"

text \<open>Building the output, with the checks of the scheduling constraints.\<close>

definition new_reqs_data :: "sched_run \<Rightarrow> req_id list \<Rightarrow> new_request_data list res" where
  "new_reqs_data st rids =
     mapR (\<lambda>rid. bindR (get_req rid (sr_sched st)) (\<lambda>r. bindR (od_index rid (req_to_new_blocks st)) (\<lambda>nb.
       Inr (new_request_data_from_request r (map (map block_id) nb)
              (if use_v2_model_runner (cfg (sr_sched st)) then Some (all_token_ids r) else None))))) rids"

definition common_prefix_blocks :: "scheduler \<Rightarrow> (int list \<times> scheduler) res" where
  "common_prefix_blocks s =
     (case running s of
        [] \<Rightarrow> Inr (replicate (num_kv_cache_groups (kv_cache_manager s)) 0, s)
      | rid # _ \<Rightarrow> bindR (km_get_num_common_prefix_blocks rid (kv_cache_manager s)) (\<lambda>(ns, km). Inr (ns, s\<lparr>kv_cache_manager := km\<rparr>)))"

definition constraints_hold :: "sched_run \<Rightarrow> bool" where
  "constraints_hold st \<longleftrightarrow>
     sum_list (map snd (num_scheduled_tokens st)) \<le> max_num_scheduled_tokens (cfg (sr_sched st)) \<and> 0 \<le> token_budget st \<and>
     int (length (running (sr_sched st))) \<le> max_num_running_reqs (cfg (sr_sched st)) \<and>
     length (scheduled_new_reqs st) + length (scheduled_resumed_reqs st) + length (scheduled_running_reqs st)
       \<le> length (running (sr_sched st))"

definition make_scheduler_output :: "sched_run \<Rightarrow> (scheduler_output \<times> scheduler) res" where
  "make_scheduler_output st =
     bindR (assertR (constraints_hold st)) (\<lambda>_.
     bindR (common_prefix_blocks (sr_sched st)) (\<lambda>(ncommon, s1).
     let st1 = st\<lparr>sr_sched := s1\<rparr>;
         v2 = use_v2_model_runner (cfg s1);
         news = (if v2 then scheduled_new_reqs st @ scheduled_resumed_reqs st else scheduled_new_reqs st);
         resumed = (if v2 then [] else scheduled_resumed_reqs st) in
     bindR (new_reqs_data st1 news) (\<lambda>nrd.
     bindR (make_cached_request_data (scheduled_running_reqs st) resumed (num_scheduled_tokens st)
              (scheduled_spec_decode_tokens st) (req_to_new_blocks st) s1) (\<lambda>crd.
     let s2 = s1\<lparr>prev_step_scheduled_req_ids := map fst (num_scheduled_tokens st)\<rparr>;
         (zero, km) = (if needs_kv_cache_zeroing (cfg s2)
                       then (case km_take_new_block_ids (kv_cache_manager s2) of (ids, km) \<Rightarrow> (if ids = [] then None else Some ids, km))
                       else (None, kv_cache_manager s2));
         (freed_hashes, em) = em_get_freed_mm_hashes (encoder_cache_manager s2)
     in Inr (\<lparr>so_new_reqs = nrd, so_cached_reqs = crd, so_num_scheduled_tokens = num_scheduled_tokens st,
              so_total_num_scheduled_tokens = sum_list (map snd (num_scheduled_tokens st)),
              so_spec_decode_tokens = scheduled_spec_decode_tokens st, so_encoder_inputs = scheduled_encoder_inputs st,
              so_num_common_prefix_blocks = ncommon, so_preempted_req_ids = remdups (preempted_reqs st),
              so_finished_req_ids = finished_req_ids s2, so_free_encoder_mm_hashes = freed_hashes,
              so_new_block_ids_to_zero = zero, so_has_structured_output_requests = False,
              so_pending_structured_output_tokens = False, so_num_invalid_spec_tokens = None\<rparr>,
             s2\<lparr>kv_cache_manager := km, encoder_cache_manager := em\<rparr>)))))"

section \<open>After scheduling\<close>

definition free_encoder_inputs :: "req_id \<Rightarrow> scheduler \<Rightarrow> scheduler res" where
  "free_encoder_inputs rid s =
     bindR (get_req rid s) (\<lambda>r.
     bindR (foldR (\<lambda>i em.
              if i < length (mm_features r)
              then let p = mm_position (mm_features r ! i) in
                   if is_encoder_decoder (cfg s) \<and> num_computed_tokens r > 0 \<or> offset p + pr_length p \<le> num_computed_tokens r
                   then em_free_encoder_input r i em else Inr em
              else Inl IndexError)
            (em_get_cached_input_ids r (encoder_cache_manager s)) (encoder_cache_manager s)) (\<lambda>em.
       Inr (s\<lparr>encoder_cache_manager := em\<rparr>)))"

definition advance_step :: "req_id \<times> int \<Rightarrow> scheduler_output \<times> scheduler \<Rightarrow> (scheduler_output \<times> scheduler) res" where
  "advance_step x st =
     (case x of (rid, n) \<Rightarrow> case st of (so, s) \<Rightarrow>
       bindR (get_req rid s) (\<lambda>r.
       let nc = num_computed_tokens r + n;
           chunk = (nc < num_tokens r + num_output_placeholders r);
           r' = r\<lparr>num_computed_tokens := nc, is_prefill_chunk := chunk\<rparr>;
           so' = so\<lparr>so_has_structured_output_requests :=
                      so_has_structured_output_requests so \<or> (use_structured_output r \<and> \<not> chunk)\<rparr>;
           s' = put_req r' s in
       bindR (if has_encoder_inputs r then free_encoder_inputs rid s' else Inr s') (\<lambda>s''. Inr (so', s''))))"

text \<open>The additional part of AsyncScheduler: place holders for the tokens the step will produce.\<close>

definition async_advance_step :: "req_id \<Rightarrow> scheduler_output \<times> scheduler \<Rightarrow> (scheduler_output \<times> scheduler) res" where
  "async_advance_step rid st =
     (case st of (so, s) \<Rightarrow>
       bindR (get_req rid s) (\<lambda>r.
         if is_prefill_chunk r then Inr (so, s)
         else let nspec = int (length (case od_get (so_spec_decode_tokens so) rid of None \<Rightarrow> [] | Some ts \<Rightarrow> ts)) in
              Inr (so\<lparr>so_pending_structured_output_tokens :=
                        so_pending_structured_output_tokens so \<or> (use_structured_output r \<and> num_output_placeholders r > 0)\<rparr>,
                   put_req (r\<lparr>num_output_placeholders := num_output_placeholders r + 1 + nspec,
                              spec_token_ids := replicate (num_spec_tokens (cfg s)) (- 1)\<rparr>) s)))"

definition update_after_schedule :: "scheduler_output \<Rightarrow> scheduler \<Rightarrow> (scheduler_output \<times> scheduler) res" where
  "update_after_schedule so s =
     bindR (foldR advance_step (so_num_scheduled_tokens so) (so, s)) (\<lambda>(so1, s1).
     let s2 = s1\<lparr>finished_req_ids := []\<rparr> in
     if async_scheduling (cfg s) then foldR async_advance_step (map fst (so_num_scheduled_tokens so1)) (so1, s2)
     else Inr (so1, s2))"

definition schedule_requests :: "sched_env \<Rightarrow> scheduler \<Rightarrow> sched_run res" where
  "schedule_requests env s =
     bindR (running_loop env (start_run s)) (\<lambda>st1. bindR (record_loras st1) (schedule_waiting env))"

definition schedule :: "sched_env \<Rightarrow> scheduler \<Rightarrow> (scheduler_output \<times> scheduler) res" where
  "schedule env s =
     bindR (schedule_requests env s) (\<lambda>st.
     bindR (make_scheduler_output st) (\<lambda>(so, s1). update_after_schedule so s1))"

end
