(* ===== verification/Scheduler_Update.thy ===== *)
theory Scheduler_Update
  imports Scheduler
begin

text \<open>
  The part of v1/core/sched/scheduler.py that changes the scheduler between two scheduling steps:
  arrival, streaming updates, abortion and completion of requests, the results of a model step
  (\<^verbatim>\<open>update_from_output\<close>), failed and finished KV transfers, draft tokens, and resets.
\<close>

section \<open>Finishing\<close>

definition connector_finished :: "sched_env \<Rightarrow> request \<Rightarrow> scheduler \<Rightarrow> (bool \<times> scheduler) res" where
  "connector_finished env r s =
     (if \<not> has_connector (cfg s) then Inr (False, s)
      else bindR (km_remove_skipped_blocks (request_id r) (num_tokens r) (kv_cache_manager s)) (\<lambda>km.
           bindR (assertR (connector_supports_hma (cfg s) \<or> num_kv_cache_groups km = 1)) (\<lambda>_.
             Inr (conn_request_finished env (request_id r), s\<lparr>kv_cache_manager := km\<rparr>))))"

definition free_request_blocks :: "req_id \<Rightarrow> scheduler \<Rightarrow> scheduler res" where
  "free_request_blocks rid s =
     bindR (get_req rid s) (\<lambda>r.
     bindR (assertR (is_finished r)) (\<lambda>_.
     bindR (km_free r (kv_cache_manager s)) (\<lambda>km.
       Inr (s\<lparr>kv_cache_manager := km, requests := od_del rid (requests s)\<rparr>))))"

text \<open>\<^verbatim>\<open>finished_req_ids_dict[client].add(id)\<close> of a \<^verbatim>\<open>defaultdict(set)\<close>.\<close>

definition note_finished :: "int \<Rightarrow> req_id \<Rightarrow> (int, req_id list) odict option \<Rightarrow> (int, req_id list) odict option" where
  "note_finished client rid d =
     map_option (\<lambda>m. od_set client (set_add rid (case od_get m client of None \<Rightarrow> [] | Some ids \<Rightarrow> ids)) m) d"

definition sched_free_request :: "sched_env \<Rightarrow> req_id \<Rightarrow> bool \<Rightarrow> scheduler \<Rightarrow> scheduler res" where
  "sched_free_request env rid delay_free_blocks s =
     bindR (get_req rid s) (\<lambda>r.
     bindR (assertR (is_finished r)) (\<lambda>_.
     bindR (connector_finished env r s) (\<lambda>(cdelay, s1).
     bindR (em_free r (encoder_cache_manager s1)) (\<lambda>em.
       let s2 = s1\<lparr>encoder_cache_manager := em, finished_req_ids := set_add rid (finished_req_ids s1),
                  finished_req_ids_dict := note_finished (client_index r) rid (finished_req_ids_dict s1)\<rparr>
       in if delay_free_blocks \<or> cdelay then Inr s2 else free_request_blocks rid s2))))"

text \<open>The first pass of \<^verbatim>\<open>finish_requests\<close> collects the unfinished requests; the second one
  finishes them.\<close>

definition unfinished_ids :: "scheduler \<Rightarrow> req_id list \<Rightarrow> req_id list" where
  "unfinished_ids s ids = filter (\<lambda>rid. case od_get (requests s) rid of None \<Rightarrow> False | Some r \<Rightarrow> \<not> is_finished r) ids"

definition status_of :: "scheduler \<Rightarrow> req_id \<Rightarrow> request_status option" where
  "status_of s rid = map_option status (od_get (requests s) rid)"

definition finish_one :: "sched_env \<Rightarrow> request_status \<Rightarrow> req_id \<Rightarrow> scheduler \<Rightarrow> scheduler res" where
  "finish_one env finished_status rid s =
     bindR (get_req rid s) (\<lambda>r.
       let remote = (status r = WAITING_FOR_REMOTE_KVS);
           delay = (remote \<and> rid \<notin> set (finished_recving_kv_req_ids s));
           s1 = (if remote
                 then s\<lparr>finished_recving_kv_req_ids := removeAll rid (finished_recving_kv_req_ids s),
                        failed_recving_kv_req_ids := removeAll rid (failed_recving_kv_req_ids s)\<rparr>
                 else s)
       in sched_free_request env rid delay (put_req (r\<lparr>status := finished_status\<rparr>) s1))"

definition finish_requests ::
  "sched_env \<Rightarrow> req_id list option \<Rightarrow> request_status \<Rightarrow> scheduler \<Rightarrow> ((req_id \<times> int) list \<times> scheduler) res" where
  "finish_requests env request_ids finished_status s =
     bindR (assertR (status_is_finished finished_status)) (\<lambda>_.
     let valid = unfinished_ids s (case request_ids of None \<Rightarrow> map fst (requests s) | Some ids \<Rightarrow> remdups ids);
         run = filter (\<lambda>rid. status_of s rid = Some RUNNING) valid;
         wait = filter (\<lambda>rid. status_of s rid \<noteq> Some RUNNING) valid;
         nstream = length (filter (\<lambda>rid. status_of s rid = Some WAITING_FOR_STREAMING_REQ) valid);
         s1 = s\<lparr>num_waiting_for_streaming_input := num_waiting_for_streaming_input s - int nstream,
                running := (if run \<noteq> [] then remove_all (running s) run else running s),
                waiting := (if wait \<noteq> [] then remove_requests (req_before s) wait (waiting s) else waiting s),
                skipped_waiting := (if wait \<noteq> [] then remove_requests (req_before s) wait (skipped_waiting s) else skipped_waiting s)\<rparr> in
     bindR (mapR (\<lambda>rid. bindR (get_req rid s) (\<lambda>r. Inr (request_id r, client_index r))) valid) (\<lambda>res.
     bindR (foldR (finish_one env finished_status) valid s1) (\<lambda>s2. Inr (res, s2))))"

section \<open>Streaming sessions and arrival\<close>

definition update_request_as_session :: "sched_env \<Rightarrow> req_id \<Rightarrow> streaming_update \<Rightarrow> scheduler \<Rightarrow> scheduler res" where
  "update_request_as_session env rid u s =
     bindR (get_req rid s) (\<lambda>r.
       let ncomputed = num_computed_tokens r;
           kept = int_slice (num_prompt_tokens r) ncomputed (all_token_ids r);
           all0 = int_slice 0 ncomputed (all_token_ids r) in
       case prompt_token_ids r of
         None \<Rightarrow> Inl AssertionError
       | Some prompt \<Rightarrow>
           let fs = (case su_mm_features u of None \<Rightarrow> [] | Some fs \<Rightarrow> fs);
               base = int (length all0);
               shifted = map (\<lambda>f. f\<lparr>mm_position := (mm_position f)\<lparr>offset := offset (mm_position f) + base\<rparr>\<rparr>) fs;
               new_tokens = (case su_prompt_token_ids u of None \<Rightarrow> [] | Some ts \<Rightarrow> ts);
               prompt' = prompt @ kept @ new_tokens;
               r1 = r\<lparr>all_token_ids := all0 @ new_tokens, output_token_ids := [], prompt_token_ids := Some prompt',
                      mm_features := mm_features r @ shifted\<rparr> in
           bindR (update_block_hashes (se_hasher env) r1) (\<lambda>r2.
             let r3 = r2\<lparr>num_prompt_tokens := int (length prompt'), arrival_time := su_arrival_time u,
                         sampling := su_sampling_params u, status := WAITING\<rparr>;
                 s1 = (if status r = WAITING_FOR_STREAMING_REQ
                       then s\<lparr>num_waiting_for_streaming_input := num_waiting_for_streaming_input s - 1\<rparr> else s)
             in Inr (put_req r3 s1)))"

text \<open>The flag says whether the request is finished.\<close>

definition handle_stopped_request :: "sched_env \<Rightarrow> req_id \<Rightarrow> scheduler \<Rightarrow> (bool \<times> scheduler) res" where
  "handle_stopped_request env rid s =
     bindR (get_req rid s) (\<lambda>r.
       if \<not> resumable r then Inr (True, s)
       else (case streaming_queue r of
               Some (u # q) \<Rightarrow>
                 let s1 = put_req (r\<lparr>streaming_queue := Some q\<rparr>) s in
                 (case u of
                    None \<Rightarrow> Inr (True, s1)
                  | Some upd \<Rightarrow>
                      bindR (update_request_as_session env rid upd s1) (\<lambda>s2.
                      bindR (enqueue_waiting_request rid s2) (\<lambda>s3. Inr (False, s3))))
             | _ \<Rightarrow>
                 let s1 = (put_req (r\<lparr>status := WAITING_FOR_STREAMING_REQ\<rparr>) s)
                            \<lparr>num_waiting_for_streaming_input := num_waiting_for_streaming_input s + 1\<rparr>
                 in bindR (enqueue_waiting_request rid s1) (\<lambda>s2. Inr (False, s2))))"

definition sched_add_request :: "sched_env \<Rightarrow> request \<Rightarrow> scheduler \<Rightarrow> scheduler res" where
  "sched_add_request env r s =
     (let rid = request_id r in
      case od_get (requests s) rid of
        Some ex \<Rightarrow>
          let upd = streaming_update_from_request r in
          if status ex \<noteq> WAITING_FOR_STREAMING_REQ
          then (case streaming_queue ex of
                  None \<Rightarrow> Inl AssertionError
                | Some q \<Rightarrow> Inr (put_req (ex\<lparr>streaming_queue := Some (q @ [upd])\<rparr>) s))
          else (case upd of
                  Some u \<Rightarrow> update_request_as_session env rid u s
                | None \<Rightarrow> bindR (finish_requests env (Some [rid]) FINISHED_ABORTED s) (\<lambda>(_, s1). Inr s1))
      | None \<Rightarrow>
          enqueue_waiting_request rid (put_req (if resumable r then r\<lparr>streaming_queue := Some []\<rparr> else r) s))"

section \<open>The results of a model step\<close>

record kv_connector_output =
  invalid_block_ids :: "int list"
  finished_recving :: "req_id list"
  finished_sending :: "req_id list"

record model_runner_output =
  sampled_token_ids :: "token list list"
  req_id_to_index :: "(req_id, nat) odict"
  pooler_output :: "bool list"
  mro_kv_connector_output :: "kv_connector_output option"

record engine_core_output =
  eco_request_id :: req_id
  eco_new_token_ids :: "token list"
  eco_finish_reason :: "finish_reason option"
  eco_stop_reason :: "stop_reason_val option"
  eco_pooling_output :: bool
  eco_num_cached_tokens :: int
  eco_num_external_computed_tokens :: int

fun append_until_stop ::
  "block_hasher \<Rightarrow> int \<Rightarrow> token list \<Rightarrow> token list \<Rightarrow> request \<Rightarrow> (token list \<times> bool \<times> request) res" where
  "append_until_stop hasher max_len done [] r = Inr (done, False, r)"
| "append_until_stop hasher max_len done (t # ts) r =
     bindR (append_output_token_ids hasher [t] r) (\<lambda>r1.
     bindR (check_stop max_len r1) (\<lambda>(stopped, r2).
       if stopped then Inr (done @ [t], True, r2) else append_until_stop hasher max_len (done @ [t]) ts r2))"

text \<open>\<^verbatim>\<open>_update_request_with_output\<close> of Scheduler and of AsyncScheduler.\<close>

definition update_request_with_output ::
  "sched_env \<Rightarrow> req_id \<Rightarrow> token list \<Rightarrow> scheduler \<Rightarrow> (token list \<times> bool \<times> scheduler) res" where
  "update_request_with_output env rid new_token_ids s =
     bindR (get_req rid s) (\<lambda>r.
     if \<not> async_scheduling (cfg s)
     then bindR (append_until_stop (se_hasher env) (sc_max_model_len (cfg s)) [] new_token_ids r) (\<lambda>(ts, stopped, r1).
            Inr (ts, stopped, put_req r1 s))
     else if discard_latest_async_tokens r
     then Inr ([], False, put_req (r\<lparr>discard_latest_async_tokens := False\<rparr>) s)
     else bindR (append_until_stop (se_hasher env) (sc_max_model_len (cfg s)) [] new_token_ids r) (\<lambda>(ts, stopped, r1).
          let r2 = r1\<lparr>num_output_placeholders := num_output_placeholders r1 - int (length ts)\<rparr> in
          bindR (assertR (num_output_placeholders r2 \<ge> 0)) (\<lambda>_.
            if status r = RUNNING
            then bindR (km_cache_blocks (se_hash env) r2 (num_computed_tokens r2 - num_output_placeholders r2) (kv_cache_manager s)) (\<lambda>(km, r3).
                   Inr (ts, stopped, put_req r3 (s\<lparr>kv_cache_manager := km\<rparr>)))
            else Inr (ts, stopped, put_req r2 s))))"

text \<open>Rejected draft tokens are taken back.\<close>

definition reject_draft_tokens :: "token list \<Rightarrow> token list \<Rightarrow> request \<Rightarrow> request" where
  "reject_draft_tokens spec gen r =
     (if spec \<noteq> [] \<and> gen \<noteq> []
      then let rejected = int (length spec) - (int (length gen) - 1);
               r1 = (if num_computed_tokens r > 0 then r\<lparr>num_computed_tokens := num_computed_tokens r - rejected\<rparr> else r)
           in if num_output_placeholders r1 > 0 then r1\<lparr>num_output_placeholders := num_output_placeholders r1 - rejected\<rparr> else r1
      else r)"

record update_run =
  ur_sched :: scheduler
  ur_outputs :: "(int, engine_core_output list) odict"
  stopped_running_reqs :: "req_id list"
  stopped_preempted_reqs :: "req_id list"

definition add_output :: "int \<Rightarrow> engine_core_output \<Rightarrow> (int, engine_core_output list) odict \<Rightarrow> (int, engine_core_output list) odict" where
  "add_output client o' outs = od_set client ((case od_get outs client of None \<Rightarrow> [] | Some os \<Rightarrow> os) @ [o']) outs"

text \<open>The new tokens, whether the request stopped, and the pooling case.\<close>

definition apply_output :: "sched_env \<Rightarrow> req_id \<Rightarrow> token list \<Rightarrow> bool \<Rightarrow> scheduler \<Rightarrow> (token list \<times> bool \<times> scheduler) res" where
  "apply_output env rid gen pooled s =
     bindR (get_req rid s) (\<lambda>r.
       if gen \<noteq> [] then update_request_with_output env rid gen s
       else if pooling r \<noteq> None \<and> pooled then Inr (gen, True, put_req (r\<lparr>status := FINISHED_STOPPED\<rparr>) s)
       else Inr (gen, False, s))"

definition finish_if_stopped :: "sched_env \<Rightarrow> req_id \<Rightarrow> bool \<Rightarrow> scheduler \<Rightarrow> scheduler res" where
  "finish_if_stopped env rid stopped s =
     (if \<not> stopped then Inr s
      else bindR (handle_stopped_request env rid s) (\<lambda>(finished, s1).
             if finished then sched_free_request env rid False s1 else Inr s1))"

definition output_step ::
  "sched_env \<Rightarrow> scheduler_output \<Rightarrow> model_runner_output \<Rightarrow> req_id list \<Rightarrow> req_id \<times> int \<Rightarrow> update_run \<Rightarrow> update_run res" where
  "output_step env so mro failed x u =
     (case x of (rid, n) \<Rightarrow>
     bindR (assertR (n > 0)) (\<lambda>_.
     if rid \<in> set failed then Inr u
     else (case od_get (requests (ur_sched u)) rid of
       None \<Rightarrow> Inr u
     | Some r \<Rightarrow>
       if is_finished r then Inr u
       else
       bindR (od_index rid (req_id_to_index mro)) (\<lambda>i.
       bindR (if sampled_token_ids mro = [] then Inr [] else py_get (sampled_token_ids mro) (int i)) (\<lambda>gen.
       bindR (if pooler_output mro = [] then Inr False else py_get (pooler_output mro) (int i)) (\<lambda>pooled.
       let r1 = reject_draft_tokens (case od_get (so_spec_decode_tokens so) rid of None \<Rightarrow> [] | Some ts \<Rightarrow> ts) gen r in
       bindR (apply_output env rid gen pooled (put_req r1 (ur_sched u))) (\<lambda>(ts, stopped, s2).
       bindR (get_req rid s2) (\<lambda>r2.
       bindR (finish_if_stopped env rid stopped s2) (\<lambda>s3.
         Inr (u\<lparr>ur_sched := s3,
                stopped_running_reqs := (if stopped \<and> status r1 = RUNNING then set_add rid (stopped_running_reqs u) else stopped_running_reqs u),
                stopped_preempted_reqs := (if stopped \<and> status r1 \<noteq> RUNNING then set_add rid (stopped_preempted_reqs u) else stopped_preempted_reqs u),
                ur_outputs :=
                  (if ts \<noteq> [] \<or> pooled \<or> stopped
                   then add_output (client_index r2)
                          \<lparr>eco_request_id = rid, eco_new_token_ids = ts,
                           eco_finish_reason = (if stopped then get_finished_reason r2 else None),
                           eco_stop_reason = stop_reason r2, eco_pooling_output = pooled,
                           eco_num_cached_tokens = num_cached_tokens r2,
                           eco_num_external_computed_tokens = num_external_computed_tokens r2\<rparr> (ur_outputs u)
                   else ur_outputs u)\<rparr>))))))))))"

section \<open>KV transfers\<close>

definition kv_received_step :: "req_id \<Rightarrow> scheduler \<Rightarrow> scheduler res" where
  "kv_received_step rid s =
     (case od_get (requests s) rid of
        None \<Rightarrow> Inl AssertionError
      | Some r \<Rightarrow>
          if status r = WAITING_FOR_REMOTE_KVS
          then Inr (s\<lparr>finished_recving_kv_req_ids := set_add rid (finished_recving_kv_req_ids s)\<rparr>)
          else bindR (assertR (is_finished r)) (\<lambda>_. free_request_blocks rid s))"

definition kv_sent_step :: "req_id \<Rightarrow> scheduler \<Rightarrow> scheduler res" where
  "kv_sent_step rid s = (case od_get (requests s) rid of None \<Rightarrow> Inl AssertionError | Some _ \<Rightarrow> free_request_blocks rid s)"

definition update_from_kv_xfer_finished :: "kv_connector_output \<Rightarrow> scheduler \<Rightarrow> scheduler res" where
  "update_from_kv_xfer_finished o' s =
     bindR (foldR kv_received_step (finished_recving o') s) (foldR kv_sent_step (finished_sending o'))"

text \<open>The scan of one request's blocks for invalid ones. The first invalid block no earlier request
  has marked truncates the computed tokens.\<close>

record invalid_scan =
  is_marked_here :: bool
  is_affected :: bool
  marked_invalid_block_ids :: "int list"
  total_affected_tokens :: int
  blocks_to_evict :: "int list"
  scan_request :: request

definition invalid_block_step ::
  "int list \<Rightarrow> bool \<Rightarrow> int \<Rightarrow> int \<Rightarrow> int list \<Rightarrow> nat \<times> int \<Rightarrow> invalid_scan \<Rightarrow> invalid_scan" where
  "invalid_block_step invalid evict bs ncomputed req_block_ids x v =
     (case x of (idx, bid) \<Rightarrow>
       if bid \<notin> set invalid then v
       else let v1 = v\<lparr>is_affected := True\<rparr> in
         if bid \<in> set (marked_invalid_block_ids v1) then v1
         else let v2 = v1\<lparr>marked_invalid_block_ids := bid # marked_invalid_block_ids v1\<rparr> in
           if is_marked_here v2 then v2
           else let r = scan_request v2; n' = int idx * bs; lost = ncomputed - n' in
             v2\<lparr>is_marked_here := True,
                scan_request := r\<lparr>num_computed_tokens := n', num_external_computed_tokens := num_external_computed_tokens r - lost\<rparr>,
                total_affected_tokens := total_affected_tokens v2 + lost,
                blocks_to_evict := (if evict then blocks_to_evict v2 @ drop idx req_block_ids else blocks_to_evict v2)\<rparr>)"

definition invalid_request_step ::
  "int list \<Rightarrow> bool \<Rightarrow> req_id \<Rightarrow> req_id list \<times> int \<times> int list \<times> int list \<times> scheduler \<Rightarrow>
   (req_id list \<times> int \<times> int list \<times> int list \<times> scheduler) res" where
  "invalid_request_step invalid evict rid acc =
     (case acc of (affected, tot, marked, to_evict, s) \<Rightarrow>
       bindR (get_req rid s) (\<lambda>r.
       case km_get_block_ids rid (kv_cache_manager s) of
         [req_block_ids] \<Rightarrow>
           let bs = sc_block_size (cfg s);
               ncomputed = (if status r = WAITING_FOR_REMOTE_KVS then num_computed_tokens r else num_cached_tokens r);
               nblocks = nat ((ncomputed + bs - 1) div bs);
               v = fold (invalid_block_step invalid evict bs ncomputed req_block_ids)
                     (enumerate 0 (take nblocks req_block_ids))
                     \<lparr>is_marked_here = False, is_affected = False, marked_invalid_block_ids = marked,
                      total_affected_tokens = tot, blocks_to_evict = to_evict, scan_request = r\<rparr>;
               r' = scan_request v;
               shared = is_affected v \<and> \<not> is_marked_here v
           in Inr (if is_affected v then set_add rid affected else affected,
                   if shared then total_affected_tokens v + (num_computed_tokens r' - num_cached_tokens r') else total_affected_tokens v,
                   marked_invalid_block_ids v, blocks_to_evict v,
                   put_req (if shared then r'\<lparr>num_computed_tokens := num_cached_tokens r'\<rparr> else r') s)
       | _ \<Rightarrow> Inl ValueError))"

definition update_requests_with_invalid_blocks ::
  "req_id list \<Rightarrow> int list \<Rightarrow> bool \<Rightarrow> scheduler \<Rightarrow> (req_id list \<times> int \<times> int list \<times> scheduler) res" where
  "update_requests_with_invalid_blocks rids invalid evict s =
     bindR (foldR (invalid_request_step invalid evict) rids ([], 0, [], [], s)) (\<lambda>(affected, tot, _, to_evict, s').
       Inr (affected, tot, to_evict, s'))"

definition handle_invalid_blocks :: "int list \<Rightarrow> scheduler \<Rightarrow> (req_id list \<times> scheduler) res" where
  "handle_invalid_blocks invalid s =
     (let async = filter (\<lambda>rid. status_of s rid = Some WAITING_FOR_REMOTE_KVS) (queue_iter (req_before s) (skipped_waiting s)) in
      bindR (update_requests_with_invalid_blocks async invalid False s) (\<lambda>(async_failed, _, _, s1).
      bindR (update_requests_with_invalid_blocks (running s1) invalid True s1) (\<lambda>(sync_failed, _, to_evict, s2).
      if async_failed = [] \<and> sync_failed = [] then Inr ([], s2)
      else
        bindR (if to_evict \<noteq> [] \<and> \<not> recompute_kv_load_failures (cfg s2)
               then km_evict_blocks (map nat (remdups to_evict)) (kv_cache_manager s2)
               else Inr (kv_cache_manager s2)) (\<lambda>km.
        let s3 = s2\<lparr>kv_cache_manager := km\<rparr> in
        if \<not> recompute_kv_load_failures (cfg s3) then Inr (fold set_add sync_failed async_failed, s3)
        else Inr (sync_failed, s3\<lparr>failed_recving_kv_req_ids := fold set_add async_failed (failed_recving_kv_req_ids s3)\<rparr>)))))"

section \<open>\<open>update_from_output\<close>\<close>

definition fail_requests :: "sched_env \<Rightarrow> req_id list \<Rightarrow> update_run \<Rightarrow> update_run res" where
  "fail_requests env failed u =
     (if failed = [] \<or> recompute_kv_load_failures (cfg (ur_sched u)) then Inr u
      else
        bindR (mapR (\<lambda>rid. get_req rid (ur_sched u)) failed) (\<lambda>rs.
        bindR (finish_requests env (Some failed) FINISHED_ERROR (ur_sched u)) (\<lambda>(_, s1).
          Inr (u\<lparr>ur_sched := s1,
                 ur_outputs := fold (\<lambda>r outs. add_output (client_index r)
                   \<lparr>eco_request_id = request_id r, eco_new_token_ids = [],
                    eco_finish_reason = (if is_finished r then get_finished_reason r else status_finished_reason FINISHED_ERROR),
                    eco_stop_reason = None, eco_pooling_output = False, eco_num_cached_tokens = num_cached_tokens r,
                    eco_num_external_computed_tokens = 0\<rparr> outs) rs (ur_outputs u)\<rparr>))))"

record engine_core_outputs =
  ecos_outputs :: "engine_core_output list"
  ecos_finished_requests :: "req_id list option"

definition collect_outputs ::
  "(int, engine_core_output list) odict \<Rightarrow> (int, req_id list) odict option \<Rightarrow> (int, engine_core_outputs) odict" where
  "collect_outputs outs fin =
     fold (\<lambda>(client, ids) d. case od_get d client of
             Some e \<Rightarrow> od_set client (e\<lparr>ecos_finished_requests := Some ids\<rparr>) d
           | None \<Rightarrow> od_set client \<lparr>ecos_outputs = [], ecos_finished_requests = Some ids\<rparr> d)
       (case fin of None \<Rightarrow> [] | Some m \<Rightarrow> m)
       (map (\<lambda>(client, os). (client, \<lparr>ecos_outputs = os, ecos_finished_requests = None\<rparr>)) outs)"

definition update_from_output ::
  "sched_env \<Rightarrow> scheduler_output \<Rightarrow> model_runner_output \<Rightarrow> scheduler \<Rightarrow> ((int, engine_core_outputs) odict \<times> scheduler) res" where
  "update_from_output env so mro s =
     bindR (case mro_kv_connector_output mro of
              None \<Rightarrow> Inr ([], s)
            | Some o' \<Rightarrow> if invalid_block_ids o' = [] then Inr ([], s) else handle_invalid_blocks (invalid_block_ids o') s) (\<lambda>(failed, s1).
     bindR (foldR (output_step env so mro failed) (so_num_scheduled_tokens so)
              \<lparr>ur_sched = s1, ur_outputs = [], stopped_running_reqs = [], stopped_preempted_reqs = []\<rparr>) (\<lambda>u1.
     let s2 = ur_sched u1;
         s3 = s2\<lparr>running := (if stopped_running_reqs u1 \<noteq> [] then remove_all (running s2) (stopped_running_reqs u1) else running s2),
                 waiting := (if stopped_preempted_reqs u1 \<noteq> []
                             then remove_requests (req_before s2) (stopped_preempted_reqs u1) (waiting s2) else waiting s2)\<rparr> in
     bindR (fail_requests env failed (u1\<lparr>ur_sched := s3\<rparr>)) (\<lambda>u2.
     bindR (case mro_kv_connector_output mro of
              None \<Rightarrow> Inr (ur_sched u2)
            | Some o' \<Rightarrow> update_from_kv_xfer_finished o' (ur_sched u2)) (\<lambda>s4.
       let km1 = snd (km_take_events (kv_cache_manager s4));
           km2 = snd (make_prefix_cache_stats km1);
           s5 = s4\<lparr>kv_cache_manager := km2,
                   connector_prefix_cache_stats := (if log_stats km1 then map_option (\<lambda>_. new_prefix_cache_stats) (connector_prefix_cache_stats s4)
                                                    else connector_prefix_cache_stats s4),
                   finished_req_ids_dict := map_option (\<lambda>_. []) (finished_req_ids_dict s4)\<rparr>
       in Inr (collect_outputs (ur_outputs u2) (finished_req_ids_dict s4), s5)))))"

section \<open>Draft tokens, pausing and resets\<close>

definition draft_step :: "sched_env \<Rightarrow> req_id \<times> token list \<Rightarrow> scheduler \<Rightarrow> scheduler" where
  "draft_step env x s =
     (case x of (rid, spec) \<Rightarrow>
       (case od_get (requests s) rid of
          None \<Rightarrow> s
        | Some r \<Rightarrow>
            if is_finished r then s
            else if is_prefill_chunk r then put_req (r\<lparr>spec_token_ids := []\<rparr>) s
            else put_req (r\<lparr>spec_token_ids := (if should_advance env rid then validate_tokens env rid spec else spec)\<rparr>) s))"

definition update_draft_token_ids :: "sched_env \<Rightarrow> (req_id \<times> token list) list \<Rightarrow> scheduler \<Rightarrow> scheduler" where
  "update_draft_token_ids env drafts s = fold (draft_step env) drafts s"

definition draft_output_step ::
  "sched_env \<Rightarrow> scheduler \<Rightarrow> req_id \<times> token list \<Rightarrow> (req_id, token list) odict \<times> (req_id, int) odict \<Rightarrow>
   (req_id, token list) odict \<times> (req_id, int) odict" where
  "draft_output_step env s x st =
     (case x of (rid, spec) \<Rightarrow> case st of (sched_spec, invalid) \<Rightarrow>
       (case od_get (requests s) rid of
          None \<Rightarrow> st
        | Some r \<Rightarrow>
            if is_finished r then st
            else (case od_get sched_spec rid of
                    None \<Rightarrow> st
                  | Some placeholders \<Rightarrow>
                      if placeholders = [] then st
                      else let n = length placeholders;
                               trimmed = take n spec;
                               kept = (if should_advance env rid then validate_tokens env rid trimmed else trimmed);
                               k = int n - int (length kept)
                           in if k \<noteq> 0 then (od_set rid (kept @ replicate (nat k) (- 1)) sched_spec, od_set rid k invalid)
                              else (od_set rid kept sched_spec, invalid))))"

definition update_draft_token_ids_in_output ::
  "sched_env \<Rightarrow> (req_id \<times> token list) list \<Rightarrow> scheduler \<Rightarrow> scheduler_output \<Rightarrow> scheduler_output" where
  "update_draft_token_ids_in_output env drafts s so =
     (case fold (draft_output_step env s) drafts (so_spec_decode_tokens so, []) of (spec, invalid) \<Rightarrow>
       so\<lparr>so_spec_decode_tokens := spec, so_num_invalid_spec_tokens := Some invalid\<rparr>)"

definition get_request_counts :: "scheduler \<Rightarrow> nat \<times> nat" where
  "get_request_counts s = (length (running s), queue_len (waiting s) + queue_len (skipped_waiting s))"

definition set_pause_state :: "pause_state \<Rightarrow> scheduler \<Rightarrow> scheduler" where
  "set_pause_state p s = s\<lparr>pause := p\<rparr>"

definition get_num_unfinished_requests :: "scheduler \<Rightarrow> int" where
  "get_num_unfinished_requests s =
     (case pause s of
        PAUSED_ALL \<Rightarrow> 0
      | PAUSED_NEW \<Rightarrow> int (length (running s))
      | UNPAUSED \<Rightarrow> int (queue_len (waiting s)) + int (queue_len (skipped_waiting s)) - num_waiting_for_streaming_input s
                    + int (length (running s)))"

definition has_finished_requests :: "scheduler \<Rightarrow> bool" where
  "has_finished_requests s \<longleftrightarrow> finished_req_ids s \<noteq> []"

definition reset_preempt_step :: "req_id \<Rightarrow> scheduler \<Rightarrow> scheduler res" where
  "reset_preempt_step rid s =
     bindR (preempt_request rid (s\<lparr>running := butlast (running s)\<rparr>)) (\<lambda>s1.
     bindR (get_req rid s1) (\<lambda>r.
       Inr (put_req (r\<lparr>num_output_placeholders := 0, discard_latest_async_tokens := True\<rparr>) s1)))"

definition reset_connector_cache :: "sched_env \<Rightarrow> scheduler \<Rightarrow> (bool \<times> scheduler) res" where
  "reset_connector_cache env s =
     (if \<not> has_connector (cfg s) then Inr (False, s)
      else if \<not> conn_reset_cache env then Inr (False, s)
      else if log_stats (kv_cache_manager s)
      then (case connector_prefix_cache_stats s of
              None \<Rightarrow> Inl AssertionError
            | Some st \<Rightarrow> Inr (True, s\<lparr>connector_prefix_cache_stats := Some (st\<lparr>st_reset := True\<rparr>)\<rparr>))
      else Inr (True, s))"

definition sched_reset_prefix_cache :: "sched_env \<Rightarrow> bool \<Rightarrow> bool \<Rightarrow> scheduler \<Rightarrow> (bool \<times> scheduler) res" where
  "sched_reset_prefix_cache env reset_running reset_connector s =
     bindR (if reset_running
            then bindR (foldR reset_preempt_step (rev (running s)) s) (\<lambda>s1. Inr (s1\<lparr>prev_step_scheduled_req_ids := []\<rparr>))
            else Inr s) (\<lambda>s2.
     bindR (km_reset_prefix_cache (kv_cache_manager s2)) (\<lambda>(successful, km).
       let s3 = s2\<lparr>kv_cache_manager := km\<rparr> in
       if reset_running \<and> \<not> successful then Inl RuntimeError
       else if reset_connector
       then bindR (reset_connector_cache env s3) (\<lambda>(b, s4). Inr (b \<and> successful, s4))
       else Inr (successful, s3)))"

definition reset_encoder_cache :: "scheduler \<Rightarrow> scheduler" where
  "reset_encoder_cache s = s\<lparr>encoder_cache_manager := em_reset (encoder_cache_manager s)\<rparr>"

end
