(* ===== verification/Scheduler_Inv.thy ===== *)
theory Scheduler_Inv
  imports Scheduler_Update
begin

text \<open>
  The scheduler keeps every unfinished request in exactly one place: the running list, the waiting
  queue or the queue of skipped requests, with a status that fits the place. The invariant
  \<open>sched_inv\<close> states this; it is proved for every operation, and for a whole scheduling step also
  that the token and request limits checked at its end hold.
\<close>

section \<open>Allocation changes nothing of a request but its memo\<close>

lemma km_cache_blocks_memo: "ensures (\<lambda>(km', r'). memo_only r r') (km_cache_blocks env r n km)"
  unfolding km_cache_blocks_def by (intro ens_intros) (auto dest!: co_cache_blocks_memo [THEN ensuresD])

lemma allocate_slots_memo: "ensures (\<lambda>(nb, km', r'). memo_only r r') (allocate_slots env r a b c d e f g km)"
  unfolding allocate_slots_def Let_def by (intro ens_intros) (auto dest!: co_cache_blocks_memo [THEN ensuresD])

section \<open>The invariant\<close>

definition live :: "scheduler \<Rightarrow> req_id set" where
  "live s = {rid. \<exists>r. od_get (requests s) rid = Some r \<and> \<not> is_finished r}"

definition queued :: "scheduler \<Rightarrow> req_id multiset" where
  "queued s = mset (running s) + queue_elems (waiting s) + queue_elems (skipped_waiting s)"

definition store_ok :: "scheduler \<Rightarrow> bool" where
  "store_ok s \<longleftrightarrow> od_wf (requests s) \<and> (\<forall>rid r. od_get (requests s) rid = Some r \<longrightarrow> request_id r = rid)"

definition in_waiting :: "scheduler \<Rightarrow> req_id \<Rightarrow> bool" where
  "in_waiting s rid \<longleftrightarrow> (\<exists>r. od_get (requests s) rid = Some r \<and> \<not> is_finished r \<and> status r \<noteq> RUNNING)"

definition in_running :: "scheduler \<Rightarrow> req_id \<Rightarrow> bool" where
  "in_running s rid \<longleftrightarrow> (\<exists>r. od_get (requests s) rid = Some r \<and> status r = RUNNING)"

text \<open>\<open>X\<close> are requests held outside the queues for the moment.\<close>

definition queue_inv :: "req_id multiset \<Rightarrow> scheduler \<Rightarrow> bool" where
  "queue_inv X s \<longleftrightarrow> store_ok s \<and> queued s + X = mset_set (live s) \<and> (\<forall>rid \<in> set (running s). in_running s rid) \<and>
     (\<forall>rid. rid \<in># queue_elems (waiting s) + queue_elems (skipped_waiting s) \<longrightarrow> in_waiting s rid)"

definition sched_inv :: "scheduler \<Rightarrow> bool" where
  "sched_inv s \<longleftrightarrow> queue_inv {#} s"

lemma running_not_finished: "\<not> status_is_finished RUNNING"
  by (simp add: status_is_finished_def less_request_status_def)

lemma queue_inv_storeD: "queue_inv X s \<Longrightarrow> store_ok s"
  by (simp add: queue_inv_def)

lemma get_reqD: "get_req rid s = Inr r \<Longrightarrow> od_get (requests s) rid = Some r"
  by (auto simp: get_req_def split: option.splits)

lemma get_req_id: "store_ok s \<Longrightarrow> get_req rid s = Inr r \<Longrightarrow> request_id r = rid"
  by (auto simp: store_ok_def dest: get_reqD)

lemma store_ok_put: "store_ok s \<Longrightarrow> store_ok (put_req r s)"
  by (simp add: store_ok_def put_req_def)

lemma requests_put [simp]: "od_get (requests (put_req r s)) rid = (if rid = request_id r then Some r else od_get (requests s) rid)"
  by (simp add: put_req_def)

lemma queues_put [simp]:
  "running (put_req r s) = running s" "waiting (put_req r s) = waiting s" "skipped_waiting (put_req r s) = skipped_waiting s"
  "queued (put_req r s) = queued s" "cfg (put_req r s) = cfg s" "kv_cache_manager (put_req r s) = kv_cache_manager s"
  by (simp_all add: put_req_def queued_def)

text \<open>Two states with the same queues and requests of the same kinds.\<close>

definition same_kind :: "request_status \<Rightarrow> request_status \<Rightarrow> bool" where
  "same_kind a b \<longleftrightarrow> status_is_finished a = status_is_finished b \<and> (a = RUNNING) = (b = RUNNING)"

definition same_kinds :: "scheduler \<Rightarrow> scheduler \<Rightarrow> bool" where
  "same_kinds s s' \<longleftrightarrow> (\<forall>rid. rel_option (\<lambda>r r'. same_kind (status r) (status r')) (od_get (requests s) rid) (od_get (requests s') rid))"

lemma same_kind_refl [simp]: "same_kind a a"
  by (simp add: same_kind_def)

lemma same_kinds_refl [simp]: "same_kinds s s"
  by (simp add: same_kinds_def option.rel_refl)

lemma same_kinds_some:
  assumes "same_kinds s s'" "od_get (requests s) rid = Some r"
  shows "\<exists>r'. od_get (requests s') rid = Some r' \<and> same_kind (status r) (status r')"
  using assms(1) [unfolded same_kinds_def, rule_format, of rid] assms(2) by (auto simp: option_rel_Some1)

lemma same_kinds_sym: "same_kinds s s' \<Longrightarrow> same_kinds s' s"
proof -
  assume a: "same_kinds s s'"
  have "rel_option (\<lambda>r r'. same_kind (status r) (status r')) (od_get (requests s') rid) (od_get (requests s) rid)" for rid
    using a [unfolded same_kinds_def, rule_format, of rid] by (cases "od_get (requests s) rid"; cases "od_get (requests s') rid") (auto simp: same_kind_def)
  then show ?thesis by (simp add: same_kinds_def)
qed

lemma same_kinds_live: "same_kinds s s' \<Longrightarrow> live s' = live s"
proof -
  have "rid \<in> live s'" if "same_kinds s s'" "rid \<in> live s" for s s' rid
    using that same_kinds_some [OF that(1)] by (fastforce simp: live_def is_finished_def same_kind_def)
  then show "same_kinds s s' \<Longrightarrow> live s' = live s" using same_kinds_sym by blast
qed

lemma same_kinds_in:
  assumes "same_kinds s s'"
  shows "in_running s rid \<Longrightarrow> in_running s' rid" "in_waiting s rid \<Longrightarrow> in_waiting s' rid"
  using same_kinds_some [OF assms] by (fastforce simp: in_running_def in_waiting_def is_finished_def same_kind_def)+

lemma same_kinds_put:
  assumes "od_get (requests s) (request_id r) = Some r0" "same_kind (status r0) (status r)"
  shows "same_kinds s (put_req r s)"
  using assms by (auto simp: same_kinds_def option.rel_refl)

lemma queue_inv_frame:
  assumes "queue_inv X s" "same_queues s s'" "same_kinds s s'" "store_ok s'"
  shows "queue_inv X s'"
  using assms same_kinds_live [OF assms(3)] same_kinds_in [OF assms(3)]
  by (auto simp: queue_inv_def queued_def same_queues_def)

lemma queue_inv_put:
  assumes "queue_inv X s" "od_get (requests s) rid = Some r0" "request_id r = rid" "same_kind (status r0) (status r)"
  shows "queue_inv X (put_req r s)"
  by (rule queue_inv_frame [OF assms(1)])
    (use assms in \<open>auto intro: same_kinds_put store_ok_put dest: queue_inv_storeD\<close>)

text \<open>The parts of the state the invariant does not look at.\<close>

lemma queue_inv_upd [simp]:
  "queue_inv X (s\<lparr>kv_cache_manager := km\<rparr>) = queue_inv X s"
  "queue_inv X (s\<lparr>encoder_cache_manager := em\<rparr>) = queue_inv X s"
  "queue_inv X (s\<lparr>failed_recving_kv_req_ids := a\<rparr>) = queue_inv X s"
  "queue_inv X (s\<lparr>finished_recving_kv_req_ids := b\<rparr>) = queue_inv X s"
  "queue_inv X (s\<lparr>connector_prefix_cache_stats := x\<rparr>) = queue_inv X s"
  "queue_inv X (s\<lparr>prev_step_scheduled_req_ids := c\<rparr>) = queue_inv X s"
  "queue_inv X (s\<lparr>finished_req_ids := d\<rparr>) = queue_inv X s"
  "queue_inv X (s\<lparr>finished_req_ids_dict := e\<rparr>) = queue_inv X s"
  "queue_inv X (s\<lparr>num_waiting_for_streaming_input := i\<rparr>) = queue_inv X s"
  "queue_inv X (s\<lparr>pause := p\<rparr>) = queue_inv X s"
  by (simp_all add: queue_inv_def store_ok_def queued_def live_def in_running_def in_waiting_def)


section \<open>Steps that only change requests within their kind\<close>

definition evolves :: "scheduler \<Rightarrow> scheduler \<Rightarrow> bool" where
  "evolves s s' \<longleftrightarrow> (store_ok s \<longrightarrow> same_queues s s' \<and> same_kinds s s' \<and> store_ok s')"

lemma same_kind_trans: "same_kind a b \<Longrightarrow> same_kind b c \<Longrightarrow> same_kind a c"
  by (simp add: same_kind_def)

lemma same_kinds_trans: "same_kinds s s' \<Longrightarrow> same_kinds s' s'' \<Longrightarrow> same_kinds s s''"
proof -
  assume a: "same_kinds s s'" "same_kinds s' s''"
  have "rel_option (\<lambda>r r'. same_kind (status r) (status r')) (od_get (requests s) rid) (od_get (requests s'') rid)" for rid
    using a(1) [unfolded same_kinds_def, rule_format, of rid] a(2) [unfolded same_kinds_def, rule_format, of rid]
    by (cases "od_get (requests s) rid"; cases "od_get (requests s') rid"; cases "od_get (requests s'') rid") (auto intro: same_kind_trans)
  then show ?thesis by (simp add: same_kinds_def)
qed

lemma evolves_refl [simp]: "evolves s s"
  by (simp add: evolves_def)

lemma evolves_trans: "evolves s s' \<Longrightarrow> evolves s' s'' \<Longrightarrow> evolves s s''"
  by (auto simp: evolves_def intro: same_queues_trans same_kinds_trans)

lemma evolves_inv: "queue_inv X s \<Longrightarrow> evolves s s' \<Longrightarrow> queue_inv X s'"
  by (auto simp: evolves_def dest: queue_inv_storeD intro: queue_inv_frame)

lemma evolves_waiting: "store_ok s \<Longrightarrow> evolves s s' \<Longrightarrow> in_waiting s rid \<Longrightarrow> in_waiting s' rid"
  by (auto simp: evolves_def intro: same_kinds_in)

lemma evolves_store: "store_ok s \<Longrightarrow> evolves s s' \<Longrightarrow> store_ok s'"
  by (simp add: evolves_def)

lemma evolves_queues: "store_ok s \<Longrightarrow> evolves s s' \<Longrightarrow> same_queues s s'"
  by (simp add: evolves_def)

lemma evolves_put:
  assumes "get_req rid s = Inr r0" "request_id r = request_id r0" "same_kind (status r0) (status r)"
  shows "evolves s (put_req r s)"
  using assms get_req_id [OF _ assms(1)] get_reqD [OF assms(1)]
  by (auto simp: evolves_def intro: same_kinds_put store_ok_put)

lemma evolves_put_memo: "get_req rid s = Inr r0 \<Longrightarrow> memo_only r0 r \<Longrightarrow> evolves s (put_req r s)"
  by (rule evolves_put) (auto simp: memo_only_fields)

lemma put_req_upd [simp]:
  "put_req r (s\<lparr>kv_cache_manager := km\<rparr>) = (put_req r s)\<lparr>kv_cache_manager := km\<rparr>"
  "put_req r (s\<lparr>encoder_cache_manager := em\<rparr>) = (put_req r s)\<lparr>encoder_cache_manager := em\<rparr>"
  "put_req r (s\<lparr>failed_recving_kv_req_ids := a\<rparr>) = (put_req r s)\<lparr>failed_recving_kv_req_ids := a\<rparr>"
  by (simp_all add: put_req_def)

lemma evolves_upd [simp]:
  "evolves s (s'\<lparr>kv_cache_manager := km\<rparr>) = evolves s s'"
  "evolves s (s'\<lparr>encoder_cache_manager := em\<rparr>) = evolves s s'"
  "evolves s (s'\<lparr>failed_recving_kv_req_ids := a\<rparr>) = evolves s s'"
  "evolves s (s'\<lparr>finished_recving_kv_req_ids := a\<rparr>) = evolves s s'"
  "evolves s (s'\<lparr>connector_prefix_cache_stats := x\<rparr>) = evolves s s'"
  by (simp_all add: evolves_def same_kinds_def store_ok_def)

lemma get_req_upd [simp]:
  "get_req rid (s\<lparr>kv_cache_manager := km\<rparr>) = get_req rid s"
  "get_req rid (s\<lparr>encoder_cache_manager := em\<rparr>) = get_req rid s"
  "get_req rid (s\<lparr>finished_recving_kv_req_ids := a\<rparr>) = get_req rid s"
  by (simp_all add: get_req_def)

lemma get_req_put: "get_req rid (put_req r s) = (if rid = request_id r then Inr r else get_req rid s)"
  by (simp add: get_req_def)

lemma cache_received_evolves:
  assumes "get_req rid s = Inr r"
  shows "ensures (evolves s) (cache_received_blocks env r s)"
proof -
  note k = km_cache_blocks_memo [THEN ensuresD]
  show ?thesis
    unfolding cache_received_blocks_def Let_def
    by (intro ens_intros) (auto dest!: k simp: memo_only_fields intro!: evolves_put [OF assms])
qed

lemma update_waiting_evolves: "ensures (evolves s) (update_waiting_for_remote_kv env rid s)"
  unfolding update_waiting_for_remote_kv_def
  by (intro ens_intros) (auto dest: cache_received_evolves [THEN ensuresD])

lemma set_status_evolves:
  assumes "evolves s0 s" "get_req rid s0 = Inr r0" "same_kind (status r0) st"
  shows "ensures (evolves s0) (set_status rid st s)"
  unfolding set_status_def
proof (intro ens_intros)
  fix r
  assume g: "get_req rid s = Inr r"
  have "evolves s (put_req (r\<lparr>status := st\<rparr>) s)" if o: "store_ok s0"
  proof (rule evolves_put [OF g])
    have "same_kinds s0 s" using assms(1) o by (simp add: evolves_def)
    then have "same_kind (status r0) (status r)"
      using same_kinds_some [OF _ get_reqD [OF assms(2)]] get_reqD [OF g] by fastforce
    then show "same_kind (status r) (status (r\<lparr>status := st\<rparr>))" using assms(3) by (simp add: same_kind_def)
  qed simp
  then show "evolves s0 (put_req (r\<lparr>status := st\<rparr>) s)"
    using assms(1) evolves_trans [of s0 s] by (auto simp: evolves_def)
qed

lemma not_finished_status [simp]:
  "\<not> status_is_finished WAITING" "\<not> status_is_finished PREEMPTED" "\<not> status_is_finished RUNNING" "\<not> status_is_finished WAITING_FOR_FSM"
  "\<not> status_is_finished WAITING_FOR_REMOTE_KVS" "\<not> status_is_finished WAITING_FOR_STREAMING_REQ"
  by (simp_all add: status_is_finished_def less_request_status_def)

lemma try_promote_evolves: "ensures (\<lambda>(b, s'). evolves s s') (try_promote_blocked_waiting_request env rid s)"
  unfolding try_promote_blocked_waiting_request_def
proof (rule ens_bind)
  fix r
  assume g: "get_req rid s = Inr r"
  note u = update_waiting_evolves [THEN ensuresD]
  have st: "set_status rid k s1 = Inr s2 \<Longrightarrow> evolves s s1 \<Longrightarrow> same_kind (status r) k \<Longrightarrow> evolves s s2" for k s1 s2
    using set_status_evolves [OF _ g, THEN ensuresD] by blast
  show "ensures (\<lambda>(b, s'). evolves s s') (case status r of
         WAITING_FOR_REMOTE_KVS \<Rightarrow>
           if rid \<notin> set (finished_recving_kv_req_ids s) then Inr (False, s)
           else bindR (update_waiting_for_remote_kv env rid s) (\<lambda>s1.
                bindR (set_status rid (if num_preemptions r \<noteq> 0 then PREEMPTED else WAITING) s1) (\<lambda>s2. Inr (True, s2)))
       | WAITING_FOR_FSM \<Rightarrow>
           if \<not> grammar_ready env rid then Inr (False, s)
           else bindR (set_status rid WAITING s) (\<lambda>s1. Inr (True, s1))
       | WAITING_FOR_STREAMING_REQ \<Rightarrow>
           bindR (assertR (streaming_queue r = None \<or> streaming_queue r = Some [])) (\<lambda>_. Inr (False, s))
       | _ \<Rightarrow> Inl AssertionError)"
    by (cases "status r") (auto intro!: ens_intros dest!: u intro: st simp: same_kind_def)
qed

lemma promoted_evolves:
  assumes "(if b then try_promote_blocked_waiting_request env rid s else Inr (True, s)) = Inr (ready, s1)"
  shows "evolves s s1"
  using assms try_promote_evolves [THEN ensuresD, of env rid s "(ready, s1)"] by (auto split: if_splits)

lemma waiting_computed_evolves: "ensures (\<lambda>(ci, s'). evolves s s') (waiting_computed env rid s)"
  unfolding waiting_computed_def by (intro ens_intros) (auto intro: evolves_put)

lemma try_schedule_evolves: "ensures (\<lambda>(ei, n', b', ext, s'). evolves s s' \<and> requests s' = requests s) (try_schedule_encoder_inputs env r nc n b s)"
  unfolding try_schedule_encoder_inputs_def by (intro ens_intros) simp_all

lemma waiting_num_evolves: "ensures (\<lambda>(p, s'). evolves s s') (waiting_num_new_tokens env r ci b eb s)"
  unfolding waiting_num_new_tokens_def by (intro ens_intros) (use try_schedule_evolves [THEN ensuresD] in auto)

lemma waiting_tokens_evolves: "ensures (\<lambda>(p, s'). evolves s s') (waiting_tokens env rid ci b eb s)"
  unfolding waiting_tokens_def by (intro ens_intros) (use waiting_num_evolves [THEN ensuresD] in auto)

lemma allocate_encoder_evolves: "ensures (evolves s) (allocate_encoder_inputs r ids s)"
  unfolding allocate_encoder_inputs_def by (intro ens_intros) simp

lemma slots_evolve:
  assumes "get_req rid s = Inr r" "allocate_slots env r a b c d e f g km = Inr (nb, km', r')"
  shows "evolves s (put_req r' (s\<lparr>kv_cache_manager := km'\<rparr>))"
  using allocate_slots_memo [THEN ensuresD, OF assms(2)] evolves_put_memo [OF assms(1)] by simp


section \<open>Moving requests between the queues\<close>

lemma finite_live: "finite (live s)"
  by (rule finite_subset [of _ "fst ` set (requests s)"]) (auto simp: live_def dest!: map_of_SomeD intro: rev_image_eqI)

lemma queue_inv_unique:
  assumes "queue_inv X s"
  shows "count (queued s + X) rid \<le> 1" "rid \<in># queued s + X \<longleftrightarrow> rid \<in> live s"
  using assms finite_live [of s] by (auto simp: queue_inv_def count_mset_set')

lemma queue_inv_outside:
  assumes "queue_inv (add_mset rid X) s"
  shows "rid \<notin># queued s" "rid \<notin># X"
proof -
  have "count (queued s) rid + count X rid = 0" using queue_inv_unique(1) [OF assms, of rid] by simp
  then show "rid \<notin># queued s" "rid \<notin># X" by (simp_all add: not_in_iff)
qed

lemma queue_inv_move:
  assumes "queue_inv X s" "requests s' = requests s" "queued s' + X' = queued s + X"
    and "\<forall>rid \<in> set (running s'). in_running s rid"
    and "\<forall>rid. rid \<in># queue_elems (waiting s') + queue_elems (skipped_waiting s') \<longrightarrow> in_waiting s rid"
  shows "queue_inv X' s'"
  using assms by (simp add: queue_inv_def store_ok_def live_def in_running_def in_waiting_def)

lemma queue_inv_held_put:
  assumes "queue_inv (add_mset rid X) s" "request_id r = rid" "\<not> is_finished r"
  shows "queue_inv (add_mset rid X) (put_req r s)"
proof -
  have "rid \<in> live s" using queue_inv_unique(2) [OF assms(1), of rid] by simp
  then have "live (put_req r s) = live s" using assms(2,3) by (auto simp: live_def)
  then show ?thesis
    using assms(1,2) queue_inv_outside(1) [OF assms(1)]
    by (auto simp: queue_inv_def store_ok_put in_running_def in_waiting_def queued_def)
qed

lemma queue_inv_push:
  assumes "queue_inv (add_mset rid X) s"
  shows "in_waiting s rid \<Longrightarrow> queue_elems q = add_mset rid (queue_elems (waiting s)) \<Longrightarrow> queue_inv X (s\<lparr>waiting := q\<rparr>)"
    and "in_waiting s rid \<Longrightarrow> queue_elems q = add_mset rid (queue_elems (skipped_waiting s)) \<Longrightarrow> queue_inv X (s\<lparr>skipped_waiting := q\<rparr>)"
    and "in_running s rid \<Longrightarrow> queue_inv X (s\<lparr>running := running s @ [rid]\<rparr>)"
  using assms by (auto simp: queued_def queue_inv_def store_ok_def live_def in_running_def in_waiting_def)

lemma queue_inv_take_running:
  assumes "queue_inv X s" "mset (running s) = add_mset rid (mset rs)"
  shows "queue_inv (add_mset rid X) (s\<lparr>running := rs\<rparr>)"
proof (rule queue_inv_move [OF assms(1)])
  have "set rs \<subseteq> set (running s)" using assms(2) by (metis set_mset_add_mset_insert set_mset_mset subset_insertI)
  then show "\<forall>rid \<in> set (running (s\<lparr>running := rs\<rparr>)). in_running s rid" using assms(1) by (auto simp: queue_inv_def)
qed (use assms in \<open>auto simp: queued_def queue_inv_def\<close>)

lemma queue_inv_take_waiting:
  assumes "queue_inv X s" "pop_request lt (queue_of q s) = Inr (rid, q')"
  shows "queue_inv (add_mset rid X) (set_queue q q' s)" "in_waiting s rid"
proof -
  note e = pop_request_elems [OF assms(2), THEN conjunct1]
  then show "in_waiting s rid" using assms(1) by (cases q) (auto simp: queue_inv_def queue_of_def)
  show "queue_inv (add_mset rid X) (set_queue q q' s)"
    by (rule queue_inv_move [OF assms(1)])
      (use e assms(1) in \<open>cases q; auto simp: queued_def queue_inv_def queue_of_def set_queue_def\<close>)+
qed

lemma in_waiting_upd [simp]:
  "in_waiting (s\<lparr>waiting := q\<rparr>) = in_waiting s" "in_waiting (s\<lparr>skipped_waiting := q\<rparr>) = in_waiting s"
  "in_waiting (s\<lparr>running := rs\<rparr>) = in_waiting s" "in_waiting (set_queue n q s) = in_waiting s"
  "in_waiting (s\<lparr>kv_cache_manager := km\<rparr>) = in_waiting s" "in_waiting (s\<lparr>encoder_cache_manager := em\<rparr>) = in_waiting s"
  "in_waiting (s\<lparr>connector_prefix_cache_stats := cs\<rparr>) = in_waiting s"
  by (auto simp: in_waiting_def fun_eq_iff set_queue_def split: queue_name.split)

section \<open>Preemption\<close>

lemma preempt_request_inv:
  assumes "queue_inv (add_mset rid X) s"
  shows "ensures (queue_inv X) (preempt_request rid s)"
  unfolding preempt_request_def Let_def
proof (intro ens_intros, goal_cases)
  case (1 r u km em)
  let ?r = "r\<lparr>status := PREEMPTED, num_computed_tokens := 0, spec_token_ids := [], num_preemptions := num_preemptions r + 1\<rparr>"
  let ?s = "put_req ?r (s\<lparr>kv_cache_manager := km, encoder_cache_manager := em\<rparr>)"
  have id: "request_id r = rid" using get_req_id [OF queue_inv_storeD [OF assms] 1(1)] .
  have "queue_inv (add_mset rid X) ?s"
    using queue_inv_held_put [of rid X "s\<lparr>kv_cache_manager := km, encoder_cache_manager := em\<rparr>" ?r] assms id by (simp add: is_finished_def)
  then show ?case
    by (rule queue_inv_push(1)) (use id in \<open>simp_all add: in_waiting_def is_finished_def\<close>)
qed

lemma unschedule_sched: "unschedule v st = Inr st' \<Longrightarrow> sr_sched st' = sr_sched st \<and> step_skipped_waiting st' = step_skipped_waiting st"
  by (auto simp: unschedule_def bindR_eq_Inr split: if_splits)

lemma preempt_victim_cases:
  assumes "preempt_victim st = Inr (v, st')"
  obtains rs s2 where "mset (running (sr_sched st)) = add_mset v (mset rs)"
    "preempt_request v ((sr_sched st)\<lparr>running := rs\<rparr>) = Inr s2" "sr_sched st' = s2" "step_skipped_waiting st' = step_skipped_waiting st"
proof (cases "policy (cfg (sr_sched st)) = PRIORITY")
  case True
  let ?s = "sr_sched st"
  obtain st1 s2 where m: "first_max (victim_lt ?s) (running ?s) = Inr v"
      "unschedule v (st\<lparr>sr_sched := ?s\<lparr>running := remove1 v (running ?s)\<rparr>\<rparr>) = Inr st1"
      "preempt_request v (sr_sched st1) = Inr s2" "st' = st1\<lparr>sr_sched := s2, preempted_reqs := preempted_reqs st1 @ [v]\<rparr>"
    using assms True by (auto simp: preempt_victim_def Let_def bindR_eq_Inr)
  show ?thesis
    by (rule that [of "remove1 v (running ?s)" s2]) (use first_max_mem [OF m(1)] unschedule_sched [OF m(2)] m(3,4) in simp_all)
next
  case False
  let ?s = "sr_sched st"
  obtain s2 where m: "running ?s \<noteq> []" "v = last (running ?s)" "preempt_request v (?s\<lparr>running := butlast (running ?s)\<rparr>) = Inr s2"
      "st' = st\<lparr>sr_sched := s2, preempted_reqs := preempted_reqs st @ [v]\<rparr>"
    using assms False by (auto simp: preempt_victim_def Let_def bindR_eq_Inr split: if_splits)
  have "mset (running ?s) = add_mset v (mset (butlast (running ?s)))"
    using m(1,2) by (metis add_mset_add_single append_butlast_last_id mset_append mset_single_iff_right)
  then show ?thesis by (rule that) (use m in simp_all)
qed

lemma preempt_victim_inv:
  assumes "queue_inv X (sr_sched st)"
  shows "ensures (\<lambda>(v, st'). queue_inv X (sr_sched st') \<and> step_skipped_waiting st' = step_skipped_waiting st) (preempt_victim st)"
proof (rule ensuresI, clarify)
  fix v st'
  assume "preempt_victim st = Inr (v, st')"
  then obtain rs s2 where m: "mset (running (sr_sched st)) = add_mset v (mset rs)"
    "preempt_request v ((sr_sched st)\<lparr>running := rs\<rparr>) = Inr s2" "sr_sched st' = s2" "step_skipped_waiting st' = step_skipped_waiting st"
    by (rule preempt_victim_cases)
  show "queue_inv X (sr_sched st') \<and> step_skipped_waiting st' = step_skipped_waiting st"
    using preempt_request_inv [OF queue_inv_take_running [OF assms m(1)], THEN ensuresD, OF m(2)] m(3,4) by simp
qed

text \<open>Invariants of the allocation loop and of the loop over the running requests.\<close>

lemma alloc_loop_invariant:
  assumes "P st"
    and slots: "\<And>st r nb km r'. P st \<Longrightarrow> get_req rid (sr_sched st) = Inr r \<Longrightarrow>
      allocate_slots (se_hash env) r n 0 None (num_lookahead_tokens (cfg (sr_sched st))) 0 False 0 (kv_cache_manager (sr_sched st)) = Inr (nb, km, r') \<Longrightarrow>
      P (st\<lparr>sr_sched := put_req r' ((sr_sched st)\<lparr>kv_cache_manager := km\<rparr>)\<rparr>)"
    and victim: "\<And>st v st'. P st \<Longrightarrow> preempt_victim st = Inr (v, st') \<Longrightarrow> P st'"
  shows "ensures (\<lambda>(nb, st'). P st') (alloc_loop env rid n st)"
  using assms
proof (induction env rid n st rule: alloc_loop.induct)
  case (1 env rid n st)
  note ih = 1(1) and prems = 1(2-4)
  show ?case
  proof (subst alloc_loop.simps, intro ens_intros, goal_cases)
    case (1 r x nb z km r' st1 w v st2)
    have "P st1" using prems(2) [OF prems(1) 1(1)] 1(2-5) by simp
    then show ?case using prems(3) 1(7,8) by simp
  next
    case (2 r x nb z km r' st1 w v st2)
    have "P st1" using prems(2) [OF prems(1) 2(1)] 2(2-5) by simp
    then have "P st2" using prems(3) 2(7,8) by simp
    then show ?case using ih [OF 2(1,2) 2(3,4) [symmetric] 2(5-7) 2(8) [symmetric] 2(9)] prems(2,3) by blast
  next
    case (3 r x nb z km r' st1)
    then show ?case using prems(2) [OF prems(1) 3(1)] by simp
  qed
qed

lemma running_loop_invariant:
  assumes "P st" "\<And>st. P st \<Longrightarrow> ensures (\<lambda>(go, st'). P st') (running_step env st)"
  shows "ensures P (running_loop env st)"
  using assms
proof (induction env st rule: running_loop.induct)
  case (1 env st)
  show ?case
    by (subst running_loop.simps, intro ens_intros)
      (use 1 1(3) [OF 1(2), THEN ensuresD] in fastforce)+
qed

lemma alloc_loop_inv:
  assumes "queue_inv X (sr_sched st)"
  shows "ensures (\<lambda>(nb, st'). queue_inv X (sr_sched st') \<and> step_skipped_waiting st' = step_skipped_waiting st) (alloc_loop env rid n st)"
proof (rule alloc_loop_invariant)
  fix st1 r nb km r'
  assume a: "queue_inv X (sr_sched st1) \<and> step_skipped_waiting st1 = step_skipped_waiting st" "get_req rid (sr_sched st1) = Inr r"
    "allocate_slots (se_hash env) r n 0 None (num_lookahead_tokens (cfg (sr_sched st1))) 0 False 0 (kv_cache_manager (sr_sched st1)) = Inr (nb, km, r')"
  then show "queue_inv X (sr_sched (st1\<lparr>sr_sched := put_req r' ((sr_sched st1)\<lparr>kv_cache_manager := km\<rparr>)\<rparr>)) \<and>
      step_skipped_waiting (st1\<lparr>sr_sched := put_req r' ((sr_sched st1)\<lparr>kv_cache_manager := km\<rparr>)\<rparr>) = step_skipped_waiting st"
    using evolves_inv [OF _ slots_evolve [OF a(2,3)]] by simp
next
  fix st1 v st'
  assume "queue_inv X (sr_sched st1) \<and> step_skipped_waiting st1 = step_skipped_waiting st" "preempt_victim st1 = Inr (v, st')"
  then show "queue_inv X (sr_sched st') \<and> step_skipped_waiting st' = step_skipped_waiting st"
    using preempt_victim_inv [of X st1, THEN ensuresD, of "(v, st')"] by simp
qed (use assms in simp)

section \<open>A scheduling step keeps the invariant\<close>

text \<open>During a step the requests in \<open>step_skipped_waiting\<close> are outside the queues.\<close>

definition run_inv :: "sched_run \<Rightarrow> bool" where
  "run_inv st \<longleftrightarrow> queue_inv (queue_elems (step_skipped_waiting st)) (sr_sched st) \<and>
     (\<forall>rid. rid \<in># queue_elems (step_skipped_waiting st) \<longrightarrow> in_waiting (sr_sched st) rid)"

lemma run_inv_evolves:
  assumes "run_inv st" "evolves (sr_sched st) s'"
  shows "run_inv (st\<lparr>sr_sched := s'\<rparr>)"
  using assms queue_inv_storeD by (auto simp: run_inv_def intro: evolves_inv evolves_waiting)

lemma run_inv_sched: "run_inv st \<Longrightarrow> store_ok (sr_sched st)"
  by (auto simp: run_inv_def dest: queue_inv_storeD)

lemma alloc_loop_run_inv:
  assumes "queue_inv {#} (sr_sched st)" "queue_elems (step_skipped_waiting st) = {#}" "alloc_loop env rid n st = Inr (nb, st')"
  shows "queue_inv {#} (sr_sched st')" "queue_elems (step_skipped_waiting st') = {#}"
  using alloc_loop_inv [OF assms(1), THEN ensuresD, OF assms(3)] assms(2) by simp_all

lemma commit_running_evolves:
  "ensures (\<lambda>st'. evolves (sr_sched st) (sr_sched st') \<and> step_skipped_waiting st' = step_skipped_waiting st) (commit_running rid n nb ei eb ext st)"
  unfolding commit_running_def
proof (intro ens_intros, goal_cases)
  case (1 r k spec spec' r' s)
  have "evolves (sr_sched st) (put_req r' (sr_sched st))" by (rule evolves_put [OF 1(1)]) (use 1 in simp_all)
  then show ?case using allocate_encoder_evolves [THEN ensuresD, OF 1(6)] evolves_trans by simp
qed

lemma running_step_inv:
  assumes "queue_inv {#} (sr_sched st)" "queue_elems (step_skipped_waiting st) = {#}"
  shows "ensures (\<lambda>(go, st'). queue_inv {#} (sr_sched st') \<and> queue_elems (step_skipped_waiting st') = {#}) (running_step env st)"
  unfolding running_step_def Let_def
proof (intro ens_intros, goal_cases)
  case (2 rid r x ei y n1 z eb w ext s1 n)
  then show ?case using evolves_inv [OF assms(1)] try_schedule_evolves [THEN ensuresD] assms(2) by fastforce
next
  case (3 rid r x ei y n1 z eb w ext s1 n v nb st1)
  then have "queue_inv {#} s1" using evolves_inv [OF assms(1)] try_schedule_evolves [THEN ensuresD] by fastforce
  then show ?case using alloc_loop_run_inv [of "st\<lparr>sr_sched := s1\<rparr>" env rid n nb st1] assms(2) 3 by simp
next
  case (4 rid r x ei y n1 z eb w ext s1 n v nb st1 b st2)
  then have "queue_inv {#} s1" using evolves_inv [OF assms(1)] try_schedule_evolves [THEN ensuresD] by fastforce
  then have "queue_inv {#} (sr_sched st1)" "queue_elems (step_skipped_waiting st1) = {#}"
    using alloc_loop_run_inv [of "st\<lparr>sr_sched := s1\<rparr>" env rid n nb st1] assms(2) 4 by simp_all
  then show ?case using commit_running_evolves [THEN ensuresD, OF 4(14)] by (auto intro: evolves_inv)
qed (use assms in simp)

lemma running_loop_inv:
  assumes "queue_inv {#} (sr_sched st)" "queue_elems (step_skipped_waiting st) = {#}"
  shows "ensures (\<lambda>st'. queue_inv {#} (sr_sched st') \<and> queue_elems (step_skipped_waiting st') = {#}) (running_loop env st)"
  by (rule running_loop_invariant) (use assms running_step_inv in auto)

lemma record_loras_frame: "ensures (\<lambda>st'. sr_sched st' = sr_sched st \<and> step_skipped_waiting st' = step_skipped_waiting st) (record_loras st)"
  unfolding record_loras_def Let_def by (intro ens_intros) simp_all

lemma skip_waiting_inv:
  assumes "run_inv st" "peek_request (queue_of q (sr_sched st)) = Inr rid"
  shows "ensures run_inv (skip_waiting q rid st)"
  unfolding skip_waiting_def
proof (intro ens_intros, goal_cases)
  case (1 x rid' q' s)
  have p: "pop_request (req_before (sr_sched st)) (queue_of q (sr_sched st)) = Inr (rid', q')" using 1 by simp
  have "rid' = rid" using pop_request_elems [OF p] assms(2) by simp
  then show ?case
    using queue_inv_take_waiting [OF _ p] assms(1) 1(3) by (auto simp: run_inv_def)
qed

text \<open>A request taken from its queue gets a status that is not final.\<close>

lemma taken_put:
  assumes "run_inv st" "pop_request lt (queue_of q (sr_sched st)) = Inr (rid, q')" "get_req rid (set_queue q q' (sr_sched st)) = Inr r"
    and "request_id r' = request_id r" "\<not> is_finished r'"
  shows "queue_inv (add_mset rid (queue_elems (step_skipped_waiting st))) (put_req r' (set_queue q q' (sr_sched st)))"
    and "request_id r = rid" "rid \<notin># queue_elems (step_skipped_waiting st)"
    and "\<forall>k. k \<in># queue_elems (step_skipped_waiting st) \<longrightarrow> in_waiting (put_req r' (set_queue q q' (sr_sched st))) k"
proof -
  let ?X = "queue_elems (step_skipped_waiting st)" and ?s = "set_queue q q' (sr_sched st)"
  have i: "queue_inv ?X (sr_sched st)" "\<forall>k. k \<in># ?X \<longrightarrow> in_waiting (sr_sched st) k" using assms(1) by (simp_all add: run_inv_def)
  have t: "queue_inv (add_mset rid ?X) ?s" by (rule queue_inv_take_waiting [OF i(1) assms(2)])
  show id: "request_id r = rid" using get_req_id [OF queue_inv_storeD [OF t] assms(3)] .
  show n: "rid \<notin># ?X" by (rule queue_inv_outside [OF t])
  show "queue_inv (add_mset rid ?X) (put_req r' ?s)" by (rule queue_inv_held_put [OF t]) (use assms(4,5) id in simp_all)
  have "in_waiting (put_req r' ?s) k" if "k \<in># ?X" for k
  proof -
    have "k \<noteq> rid" using that n by auto
    then show ?thesis using i(2) that id assms(4) by (cases q) (auto simp: in_waiting_def set_queue_def)
  qed
  then show "\<forall>k. k \<in># ?X \<longrightarrow> in_waiting (put_req r' ?s) k" by blast
qed

lemma evolves_waiting_all:
  "store_ok s \<Longrightarrow> evolves s s' \<Longrightarrow> \<forall>k. k \<in># X \<longrightarrow> in_waiting s k \<Longrightarrow> \<forall>k. k \<in># X \<longrightarrow> in_waiting s' k"
  using evolves_waiting by blast

lemma put_running_swap: "put_req r (s\<lparr>running := rs\<rparr>) = (put_req r s)\<lparr>running := rs\<rparr>"
  by (simp add: put_req_def)

lemma admit_waiting_inv:
  assumes "run_inv st"
  shows "ensures run_inv (admit_waiting q rid ci ei n eb ext st)"
  unfolding admit_waiting_def
proof (intro ens_intros, goal_cases)
  case (1 s0 r0 s1 x rid' q' s2 r s3)
  have s1: "run_inv (st\<lparr>sr_sched := s1\<rparr>)" using run_inv_evolves [OF assms, of s1] 1 by simp
  note t = taken_put [OF s1, simplified, of "req_before s1" q rid' q' r "r\<lparr>status := WAITING_FOR_REMOTE_KVS, num_computed_tokens := ci_computed ci\<rparr>"]
  have p: "pop_request (req_before s1) (queue_of q s1) = Inr (rid', q')" "get_req rid' (set_queue q q' s1) = Inr r" using 1 by simp_all
  show ?case using t [OF p] 1(5-) by (auto simp: run_inv_def is_finished_def in_waiting_def)
next
  case (2 s0 r0 s1 x rid' q' s2 r st1 r' s3)
  have s1: "run_inv (st\<lparr>sr_sched := s1\<rparr>)" using run_inv_evolves [OF assms, of s1] 2 by simp
  note t = taken_put [OF s1, simplified, of "req_before s1" q rid' q' r r']
  have p: "pop_request (req_before s1) (queue_of q s1) = Inr (rid', q')" "get_req rid' (set_queue q q' s1) = Inr r" using 2 by simp_all
  have r': "request_id r' = request_id r" "\<not> is_finished r'" "status r' = RUNNING" using 2(10) by (simp_all add: is_finished_def)
  let ?X = "queue_elems (step_skipped_waiting st)" and ?s = "(put_req r' s2)\<lparr>running := running s2 @ [rid']\<rparr>"
  have k: "step_skipped_waiting st1 = step_skipped_waiting st" using 2(9) by (auto split: if_splits)
  have "queue_inv ?X ((put_req r' s2)\<lparr>running := running (put_req r' s2) @ [rid']\<rparr>)"
    by (rule queue_inv_push(3)) (use t [OF p r'(1,2)] 2(6) r' in \<open>auto simp: in_running_def\<close>)
  then have s: "queue_inv ?X ?s" by simp
  have w: "\<forall>k. k \<in># ?X \<longrightarrow> in_waiting ?s k" using t(4) [OF p r'(1,2)] 2(6) by simp
  have "evolves ?s s3" using allocate_encoder_evolves [THEN ensuresD] 2(11) by (simp add: put_running_swap)
  then show ?case
    using evolves_inv [OF s] evolves_waiting_all [OF queue_inv_storeD [OF s] _ w] k by (simp add: run_inv_def)
qed


lemma skip_waiting_evolved:
  assumes "run_inv st" "peek_request (queue_of q (sr_sched st)) = Inr rid"
    and "evolves (sr_sched st) s'" "skip_waiting q rid (st\<lparr>sr_sched := s'\<rparr>) = Inr st'"
  shows "run_inv st'"
proof -
  have "queue_of q s' = queue_of q (sr_sched st)"
    using evolves_queues [OF run_inv_sched [OF assms(1)] assms(3)] by (simp add: same_queues_def queue_of_def split: queue_name.split)
  then show ?thesis
    using skip_waiting_inv [OF run_inv_evolves [OF assms(1,3)], of q rid, THEN ensuresD, OF _ assms(4)] assms(2) by simp
qed

lemma waiting_step_inv:
  assumes "run_inv st"
  shows "ensures (\<lambda>(go, st'). run_inv st') (waiting_step env st)"
proof -
  note e1 = promoted_evolves
    and e2 = waiting_computed_evolves [THEN ensuresD, of env _ _ "(_, _)", unfolded prod.case]
    and e3 = waiting_tokens_evolves [THEN ensuresD, of env _ _ _ _ _ "(_, _)", unfolded prod.case]
  show ?thesis
    unfolding waiting_step_def Let_def
  proof (intro ens_intros, goal_cases)
    case (2 sel q rid r0 x ready s1 st2)
    then show ?case using skip_waiting_evolved [OF assms _ e1, of q rid] by simp
  next
    case (3 sel q rid r0 x ready s1 r st2)
    then show ?case using skip_waiting_evolved [OF assms _ e1, of q rid] by simp
  next
    case (4 sel q rid r0 x ready s1 r y info s2 st3)
    then have "evolves (sr_sched st) s2" using evolves_trans [OF e1 e2] by simp
    then show ?case using skip_waiting_evolved [OF assms, of q rid s2] 4 by simp
  next
    case (5 sel q rid r0 x ready s1 r y info s2 ci z plan s3)
    then have "evolves (sr_sched st) s3" using evolves_trans [OF evolves_trans [OF e1 e2] e3] by simp
    then show ?case using run_inv_evolves [OF assms] by simp
  next
    case (6 sel q rid r0 x ready s1 r y info s2 ci z plan s3 pl ei p1 n p2 eb ext r3 embeds w nb p3 km r4 em)
    then have "evolves (sr_sched st) s3" using evolves_trans [OF evolves_trans [OF e1 e2] e3] by simp
    then have "evolves (sr_sched st) (put_req r4 (s3\<lparr>kv_cache_manager := km\<rparr>))"
      using evolves_trans [OF _ slots_evolve [of rid s3 r3]] 6 by simp
    then show ?case using run_inv_evolves [OF assms] by simp
  next
    case (7 sel q rid r0 x ready s1 r y info s2 ci z plan s3 pl ei p1 n p2 eb ext r3 embeds w nb p3 km r4 b st5)
    then have "evolves (sr_sched st) s3" using evolves_trans [OF evolves_trans [OF e1 e2] e3] by simp
    then have "evolves (sr_sched st) (put_req r4 (s3\<lparr>kv_cache_manager := km\<rparr>))"
      using evolves_trans [OF _ slots_evolve [of rid s3 r3]] 7 by simp
    note run_inv_evolves [OF assms this]
    then show ?case using admit_waiting_inv [THEN ensuresD] 7 by simp
  qed (use assms in simp)
qed

lemma waiting_loop_inv: "run_inv st \<Longrightarrow> ensures run_inv (waiting_loop env st)"
proof (induction env st rule: waiting_loop.induct)
  case (1 env st)
  show ?case
    by (subst waiting_loop.simps, intro ens_intros)
      (use 1 waiting_step_inv [OF 1(2), THEN ensuresD] in fastforce)+
qed

text \<open>The result of a step: nothing is held outside the queues any more.\<close>

lemma schedule_waiting_inv:
  assumes "queue_inv {#} (sr_sched st)" "queue_elems (step_skipped_waiting st) = {#}"
  shows "ensures (\<lambda>st'. queue_inv {#} (sr_sched st')) (schedule_waiting env st)"
  unfolding schedule_waiting_def
proof (intro ens_intros, goal_cases)
  case (1 st1)
  have "run_inv st" using assms by (simp add: run_inv_def)
  then have i: "run_inv st1" using waiting_loop_inv [THEN ensuresD] 1(2) by blast
  let ?s = "(sr_sched st1)\<lparr>skipped_waiting := prepend_requests (req_before (sr_sched st1)) (step_skipped_waiting st1) (skipped_waiting (sr_sched st1))\<rparr>"
  have "queue_inv {#} ?s"
    by (rule queue_inv_move [of "queue_elems (step_skipped_waiting st1)" "sr_sched st1"])
      (use i in \<open>auto simp: run_inv_def queue_inv_def queued_def ac_simps\<close>)
  moreover have "queue_elems (step_skipped_waiting st1) = {#}" if "\<not> queue_bool (step_skipped_waiting st1)"
    using that by (cases "step_skipped_waiting st1") (simp_all add: queue_bool_def)
  ultimately show ?case using i by (auto simp: run_inv_def)
qed (use assms in simp)

lemma schedule_requests_inv:
  assumes "sched_inv s"
  shows "ensures (\<lambda>st. sched_inv (sr_sched st)) (schedule_requests env s)"
  unfolding schedule_requests_def sched_inv_def
proof (intro ens_intros, goal_cases)
  case (1 st1 st2)
  have "queue_inv {#} (sr_sched st1) \<and> queue_elems (step_skipped_waiting st1) = {#}"
    by (rule running_loop_inv [THEN ensuresD, OF _ _ 1(1)]) (use assms in \<open>simp_all add: start_run_def sched_inv_def\<close>)
  then show ?case
    using record_loras_frame [THEN ensuresD, OF 1(2)] schedule_waiting_inv [of st2] by simp
qed


lemma new_reqs_only [simp]:
  "queue_inv X (s\<lparr>prev_step_scheduled_req_ids := a, kv_cache_manager := km, encoder_cache_manager := em\<rparr>) = queue_inv X s"
  by simp

lemma make_scheduler_output_inv:
  assumes "sched_inv (sr_sched st)"
  shows "ensures (\<lambda>(so, s'). sched_inv s') (make_scheduler_output st)"
proof -
  have c: "ensures (\<lambda>(ns, s'). queue_inv {#} s') (common_prefix_blocks (sr_sched st))"
    unfolding common_prefix_blocks_def
    by (cases "running (sr_sched st)") (use assms in \<open>auto intro!: ens_intros simp: sched_inv_def\<close>)
  show ?thesis
    unfolding make_scheduler_output_def sched_inv_def Let_def
    by (intro ens_intros) (auto dest!: c [THEN ensuresD])
qed

lemma free_encoder_inputs_evolves: "ensures (evolves s) (free_encoder_inputs rid s)"
  unfolding free_encoder_inputs_def by (intro ens_intros) simp

lemma advance_step_evolves: "ensures (\<lambda>(so', s'). evolves s s') (advance_step (rid, n) (so, s))"
  unfolding advance_step_def prod.case Let_def
proof (intro ens_intros, goal_cases)
  case (1 r s'')
  let ?r = "r\<lparr>num_computed_tokens := num_computed_tokens r + n,
              is_prefill_chunk := num_computed_tokens r + n < num_tokens r + num_output_placeholders r\<rparr>"
  have "evolves s (put_req ?r s)" by (rule evolves_put [OF 1(1)]) simp_all
  then show ?case using free_encoder_inputs_evolves [THEN ensuresD] evolves_trans 1(2) by (auto split: if_splits)
qed

lemma async_advance_step_evolves: "ensures (\<lambda>(so', s'). evolves s s') (async_advance_step rid (so, s))"
  unfolding async_advance_step_def prod.case Let_def by (intro ens_intros) (auto intro!: evolves_put)

lemma update_after_schedule_inv:
  assumes "sched_inv s"
  shows "ensures (\<lambda>(so', s'). sched_inv s') (update_after_schedule so s)"
  unfolding update_after_schedule_def sched_inv_def Let_def
proof (intro ens_intros, goal_cases)
  have f: "ensures (\<lambda>(so', s'). queue_inv {#} s') (foldR advance_step xs (so, s))" for xs
    by (rule ens_foldR) (use assms in \<open>auto simp: sched_inv_def intro: evolves_inv ensures_mono [OF advance_step_evolves]\<close>)
  {
    case (1 x so1 s1)
    have q: "queue_inv {#} (s1\<lparr>finished_req_ids := []\<rparr>)" using f [THEN ensuresD] 1(1,2) by fastforce
    show ?case
      by (rule ens_foldR) (use q in \<open>auto intro: evolves_inv ensures_mono [OF async_advance_step_evolves]\<close>)
  next
    case (2 x so1 s1)
    then show ?case using f [THEN ensuresD] by fastforce
  }
qed

lemma schedule_inv:
  assumes "sched_inv s"
  shows "ensures (\<lambda>(so, s'). sched_inv s') (schedule env s)"
  unfolding schedule_def
proof (intro ens_intros, goal_cases)
  case (1 st x so s1)
  then have "sched_inv (sr_sched st)" using schedule_requests_inv [OF assms, THEN ensuresD] by simp
  then have "sched_inv s1" using make_scheduler_output_inv [THEN ensuresD] 1 by fastforce
  then show ?case by (rule update_after_schedule_inv)
qed

end
