(* ===== verification/Scheduler_Update_Inv.thy ===== *)
theory Scheduler_Update_Inv
  imports Scheduler_Inv
begin

text \<open>
  The operations between two scheduling steps keep the scheduler's invariant: arrival, abortion,
  streaming updates, the results of a model step, KV transfers and resets.
\<close>

section \<open>Requests keep their identity\<close>

definition same_id :: "request \<Rightarrow> request \<Rightarrow> bool" where
  "same_id r r' \<longleftrightarrow> request_id r' = request_id r \<and> status r' = status r \<and> resumable r' = resumable r \<and>
     streaming_queue r' = streaming_queue r"

lemma same_id_refl [simp]: "same_id r r"
  by (simp add: same_id_def)

lemma same_id_trans: "same_id r r' \<Longrightarrow> same_id r' r'' \<Longrightarrow> same_id r r''"
  by (simp add: same_id_def)

lemma memo_same_id: "memo_only r r' \<Longrightarrow> same_id r r'"
  by (simp add: same_id_def memo_only_fields)

lemma hasher_loop_id: "ensures (\<lambda>(hs, r'). same_id r r') (hasher_loop env bs n r i mm prev hs0)"
proof (induction env bs n r i mm prev hs0 rule: hasher_loop.induct)
  case (1 env bs n r i mm prev hs0)
  show ?case
  proof (subst hasher_loop.simps, unfold Let_def, intro ens_intros, goal_cases)
    case (2 x ks y mm' r')
    have "same_id r r'" using extra_keys_memo [THEN ensuresD] memo_same_id 2(3-5) by fastforce
    moreover note 1 [OF 2(1) refl 2(2,3) 2(4) [symmetric] 2(5) [symmetric] refl refl]
    ultimately show ?case by (auto simp: ensures_def intro: same_id_trans)
  qed simp
qed

lemma update_block_hashes_id: "ensures (same_id r) (update_block_hashes hasher r)"
  unfolding update_block_hashes_def request_block_hasher_def Let_def
  by (intro ens_intros) (auto dest!: hasher_loop_id [THEN ensuresD] simp: same_id_def split: if_splits)

lemma append_output_id: "ensures (same_id r) (append_output_token_ids hasher ts r)"
  unfolding append_output_token_ids_def by (rule ensures_mono [OF update_block_hashes_id]) (simp add: same_id_def)

text \<open>The outcome of a stop check: a final status, or no change.\<close>

definition stop_outcome :: "request \<Rightarrow> bool \<Rightarrow> request \<Rightarrow> bool" where
  "stop_outcome r stopped r' \<longleftrightarrow> request_id r' = request_id r \<and> resumable r' = resumable r \<and>
     streaming_queue r' = streaming_queue r \<and> (if stopped then is_finished r' else status r' = status r)"

lemma stop_outcome_id: "same_id r r' \<Longrightarrow> stop_outcome r' b r'' \<Longrightarrow> stop_outcome r b r''"
  by (simp add: stop_outcome_def same_id_def)

lemma check_stop_outcome: "ensures (\<lambda>(stopped, r'). stop_outcome r stopped r') (check_stop max_len r)"
  unfolding check_stop_def Let_def
  by (intro ens_intros) (simp_all add: stop_outcome_def is_finished_def status_is_finished_def less_request_status_def)

lemma append_until_stop_outcome: "ensures (\<lambda>(ts, stopped, r'). stop_outcome r stopped r') (append_until_stop hasher max_len done ts r)"
proof (induction ts arbitrary: r "done")
  case (Cons t ts)
  show ?case
  proof (subst append_until_stop.simps, intro ens_intros, goal_cases)
    case (1 r1 x stopped r2)
    then show ?case
      using append_output_id [THEN ensuresD] check_stop_outcome [THEN ensuresD] stop_outcome_id by fastforce
  next
    case (2 r1 x stopped r2)
    then have "same_id r r1" "stop_outcome r1 stopped r2"
      using append_output_id [THEN ensuresD] check_stop_outcome [THEN ensuresD] by fastforce+
    then have "same_id r r2" using 2(4) by (simp add: same_id_def stop_outcome_def)
    then show ?case using Cons stop_outcome_id by (fastforce intro: ensures_mono)
  qed
qed (simp add: ens_ret stop_outcome_def)

section \<open>Finishing requests\<close>

lemma live_put_finished: "is_finished r \<Longrightarrow> live (put_req r s) = live s - {request_id r}"
  by (auto simp: live_def)

lemma live_del: "od_wf (requests s) \<Longrightarrow> od_get (requests s) rid = Some r \<Longrightarrow> is_finished r \<Longrightarrow>
    live (s\<lparr>requests := od_del rid (requests s)\<rparr>) = live s"
  by (auto simp: live_def)

lemma queue_inv_finish:
  assumes "queue_inv (add_mset rid X) s" "request_id r = rid" "is_finished r"
  shows "queue_inv X (put_req r s)"
proof -
  have l: "rid \<in> live s" using queue_inv_unique(2) [OF assms(1), of rid] by simp
  have "mset_set (live s) = add_mset rid (mset_set (live s - {rid}))" using mset_set.remove [OF finite_live l] .
  then have "queued s + X = mset_set (live (put_req r s))"
    using assms by (simp add: queue_inv_def live_put_finished)
  then show ?thesis
    using assms(1,2) queue_inv_outside(1) [OF assms(1)]
    by (auto simp: queue_inv_def store_ok_put in_running_def in_waiting_def queued_def)
qed

lemma queue_inv_del:
  assumes "queue_inv X s" "od_get (requests s) rid = Some r" "is_finished r"
  shows "queue_inv X (s\<lparr>requests := od_del rid (requests s)\<rparr>)"
proof -
  let ?s = "s\<lparr>requests := od_del rid (requests s)\<rparr>"
  have o: "store_ok s" using assms(1) by (rule queue_inv_storeD)
  have "store_ok ?s" "live ?s = live s"
    using o assms(2,3) by (auto simp: store_ok_def live_del split: if_splits)
  moreover have "in_running s k \<Longrightarrow> in_running ?s k" "in_waiting s k \<Longrightarrow> in_waiting ?s k" for k
    using assms(2,3) by (auto simp: in_running_def in_waiting_def is_finished_def)
  ultimately show ?thesis using assms(1) by (auto simp: queue_inv_def queued_def)
qed

lemma free_request_blocks_inv:
  assumes "queue_inv X s"
  shows "ensures (queue_inv X) (free_request_blocks rid s)"
  unfolding free_request_blocks_def
proof (intro ens_intros, goal_cases)
  case (1 r u km)
  then show ?case using queue_inv_del [of X "s\<lparr>kv_cache_manager := km\<rparr>" rid r] assms get_reqD by (simp add: assertR_eq_Inr)
qed

lemma connector_finished_inv: "queue_inv X s \<Longrightarrow> ensures (\<lambda>(b, s'). queue_inv X s' \<and> requests s' = requests s) (connector_finished env r s)"
  unfolding connector_finished_def by (intro ens_intros) simp_all

lemma sched_free_request_inv:
  assumes "queue_inv X s"
  shows "ensures (queue_inv X) (sched_free_request env rid d s)"
  unfolding sched_free_request_def Let_def
proof (intro ens_intros, goal_cases)
  case (1 r u x cd s1 em)
  then show ?case using connector_finished_inv [OF assms, THEN ensuresD] by fastforce
next
  case (2 r u x cd s1 em)
  then show ?case using connector_finished_inv [OF assms, THEN ensuresD] by (intro free_request_blocks_inv) fastforce
qed

lemma queue_inv_upd_recving [simp]:
  "queue_inv X (s\<lparr>finished_recving_kv_req_ids := a, failed_recving_kv_req_ids := b\<rparr>) = queue_inv X s"
  by simp

lemma finish_one_inv:
  assumes "queue_inv (add_mset rid X) s" "status_is_finished st"
  shows "ensures (queue_inv X) (finish_one env st rid s)"
  unfolding finish_one_def Let_def
proof (intro ens_intros sched_free_request_inv, goal_cases)
  case (1 r)
  let ?s = "if status r = WAITING_FOR_REMOTE_KVS
            then s\<lparr>finished_recving_kv_req_ids := removeAll rid (finished_recving_kv_req_ids s),
                   failed_recving_kv_req_ids := removeAll rid (failed_recving_kv_req_ids s)\<rparr> else s"
  have "queue_inv (add_mset rid X) ?s" using assms(1) by simp
  then show ?case
    by (rule queue_inv_finish) (use get_req_id [OF queue_inv_storeD [OF assms(1)] 1] assms(2) in \<open>simp_all add: is_finished_def\<close>)
qed

lemma finish_each_inv:
  "queue_inv (mset ids + X) s \<Longrightarrow> status_is_finished st \<Longrightarrow> ensures (queue_inv X) (foldR (finish_one env st) ids s)"
proof (induction ids arbitrary: s)
  case (Cons rid ids)
  then show ?case
    by (simp, intro ens_bind) (use finish_one_inv [of rid "mset ids + X" s st env, THEN ensuresD] in auto)
qed (simp add: ens_ret)


lemma remove_all_mset: "distinct xs \<Longrightarrow> mset (remove_all xs ys) = filter_mset (\<lambda>x. x \<notin> set ys) (mset xs)"
  by (cases ys) (auto simp: remove_all_def distinct_remove1_removeAll removeAll_filter_not_eq mset_filter
      intro: filter_mset_cong)

lemma queue_inv_distinct:
  assumes "queue_inv X s"
  shows "distinct (running s)"
proof -
  have "count (mset (running s)) k = (if k \<in> set (running s) then 1 else 0)" for k
  proof (cases "k \<in> set (running s)")
    case True
    then have "1 \<le> count (mset (running s)) k" by (simp only: count_greater_eq_one_iff set_mset_mset)
    moreover have "count (mset (running s)) k \<le> 1" using queue_inv_unique(1) [OF assms, of k] by (simp add: queued_def)
    ultimately have "count (mset (running s)) k = 1" by (rule antisym [rotated])
    then show ?thesis using True by (simp only: if_True)
  qed simp
  then show ?thesis unfolding distinct_count_atmost_1 by blast
qed

lemma unfinished_ids_live: "set (unfinished_ids s ids) \<subseteq> live s"
  by (auto simp: unfinished_ids_def live_def split: option.splits)

text \<open>A live request in the queues is where its status says.\<close>

lemma live_place:
  assumes "queue_inv {#} s" "od_get (requests s) k = Some r" "\<not> is_finished r"
  shows "status r = RUNNING \<Longrightarrow> k \<in> set (running s) \<and> k \<notin># queue_elems (waiting s) + queue_elems (skipped_waiting s)"
    and "status r \<noteq> RUNNING \<Longrightarrow> k \<notin> set (running s) \<and> k \<in># queue_elems (waiting s) + queue_elems (skipped_waiting s)"
proof -
  have k: "k \<in># queued s" using queue_inv_unique(2) [OF assms(1), of k] assms(2,3) by (auto simp: live_def)
  have "k \<in> set (running s) \<Longrightarrow> status r = RUNNING" "k \<in># queue_elems (waiting s) + queue_elems (skipped_waiting s) \<Longrightarrow> status r \<noteq> RUNNING"
    using assms(1,2) by (auto simp: queue_inv_def in_running_def in_waiting_def)
  then show "status r = RUNNING \<Longrightarrow> k \<in> set (running s) \<and> k \<notin># queue_elems (waiting s) + queue_elems (skipped_waiting s)"
    "status r \<noteq> RUNNING \<Longrightarrow> k \<notin> set (running s) \<and> k \<in># queue_elems (waiting s) + queue_elems (skipped_waiting s)"
    using k by (auto simp: queued_def)
qed

text \<open>Removing a set of live requests from the queues, by status.\<close>

lemma queue_inv_remove:
  assumes "queue_inv {#} s" "distinct ids" "set ids \<subseteq> live s"
    and "mset (running s') = filter_mset (\<lambda>k. \<not> (k \<in> set ids \<and> status_of s k = Some RUNNING)) (mset (running s))"
    and "queue_elems (waiting s') = filter_mset (\<lambda>k. \<not> (k \<in> set ids \<and> status_of s k \<noteq> Some RUNNING)) (queue_elems (waiting s))"
    and "queue_elems (skipped_waiting s') = filter_mset (\<lambda>k. \<not> (k \<in> set ids \<and> status_of s k \<noteq> Some RUNNING)) (queue_elems (skipped_waiting s))"
    and "requests s' = requests s"
  shows "queue_inv (mset ids) s'"
proof (rule queue_inv_move [OF assms(1,7)])
  show "queued s' + mset ids = queued s + {#}"
  proof (rule multiset_eqI)
    fix k
    show "count (queued s' + mset ids) k = count (queued s + {#}) k"
    proof (cases "k \<in> set ids")
      case True
      then obtain r where r: "od_get (requests s) k = Some r" "\<not> is_finished r" using assms(3) by (auto simp: live_def)
      have "k \<in># queued s" using queue_inv_unique(2) [OF assms(1), of k] assms(3) True by auto
      then have "count (queued s) k = 1" using queue_inv_unique(1) [OF assms(1), of k] by (simp add: Suc_leI le_antisym)
      moreover have "count (mset ids) k = 1" using True assms(2) by (simp add: distinct_count_atmost_1)
      moreover have "count (queued s') k = 0"
        using live_place [OF assms(1) r] True assms(4-6) r(1) by (cases "status r = RUNNING") (auto simp: queued_def status_of_def not_in_iff [symmetric])
      ultimately show ?thesis by simp
    next
      case False
      then show ?thesis using assms(4-6) by (simp add: queued_def count_mset_0_iff)
    qed
  qed
  have "set (running s') \<subseteq> set (running s)" using assms(4) by (metis multiset_filter_subset set_mset_mono set_mset_mset)
  then show "\<forall>rid \<in> set (running s'). in_running s rid" using assms(1) by (auto simp: queue_inv_def)
  show "\<forall>rid. rid \<in># queue_elems (waiting s') + queue_elems (skipped_waiting s') \<longrightarrow> in_waiting s rid"
    using assms(1,5,6) by (auto simp: queue_inv_def simp flip: set_mset_mset)
qed


lemma finish_requests_inv:
  assumes "sched_inv s"
  shows "ensures (\<lambda>(res, s'). sched_inv s') (finish_requests env ids st s)"
proof -
  let ?cand = "case ids of None \<Rightarrow> map fst (requests s) | Some ids \<Rightarrow> remdups ids"
  let ?valid = "unfinished_ids s ?cand"
  let ?run = "filter (\<lambda>rid. status_of s rid = Some RUNNING) ?valid"
    and ?wait = "filter (\<lambda>rid. status_of s rid \<noteq> Some RUNNING) ?valid"
  have q: "queue_inv {#} s" using assms by (simp add: sched_inv_def)
  have "distinct ?cand" using queue_inv_storeD [OF q] by (auto simp: store_ok_def od_wf_def split: option.split)
  then have d: "distinct ?valid" by (simp add: unfinished_ids_def)
  have i: "queue_inv (mset ?valid)
     (s\<lparr>num_waiting_for_streaming_input := n,
        running := (if ?run \<noteq> [] then remove_all (running s) ?run else running s),
        waiting := (if ?wait \<noteq> [] then remove_requests (req_before s) ?wait (waiting s) else waiting s),
        skipped_waiting := (if ?wait \<noteq> [] then remove_requests (req_before s) ?wait (skipped_waiting s) else skipped_waiting s)\<rparr>)" for n
    by (rule queue_inv_remove [OF q d unfinished_ids_live])
      (auto simp: remove_all_mset queue_inv_distinct [OF q] filter_empty_conv intro!: filter_mset_cong [THEN trans [rotated], OF refl] filter_mset_cong0)
  show ?thesis
    unfolding finish_requests_def Let_def sched_inv_def
  proof (intro ens_intros, goal_cases)
    case (1 u res s2)
    then show ?case using finish_each_inv [of ?valid "{#}"] i by (fastforce simp: assertR_eq_Inr dest: ensuresD)
  qed
qed

section \<open>Arrival and streaming sessions\<close>

lemma counter_if:
  "(if b then s\<lparr>num_waiting_for_streaming_input := n\<rparr> else s) = s\<lparr>num_waiting_for_streaming_input := if b then n else num_waiting_for_streaming_input s\<rparr>"
  by simp

lemma update_session_put:
  assumes "get_req rid s = Inr r"
  shows "ensures (\<lambda>s'. \<exists>r' n. s' = put_req r' (s\<lparr>num_waiting_for_streaming_input := n\<rparr>) \<and> request_id r' = request_id r \<and> status r' = WAITING)
    (update_request_as_session env rid u s)"
  unfolding update_request_as_session_def Let_def assms bindR_Inr counter_if
proof (intro ens_intros, goal_cases)
  case (1 prompt r2)
  show ?case
    by (intro exI conjI, rule refl) (use update_block_hashes_id [THEN ensuresD, OF 1(2)] in \<open>simp_all add: same_id_def\<close>)
qed

lemma queue_inv_new:
  assumes "queue_inv X s" "od_get (requests s) (request_id r) = None" "\<not> is_finished r"
  shows "queue_inv (add_mset (request_id r) X) (put_req r s)"
proof -
  have n: "request_id r \<notin> live s" using assms(2) by (simp add: live_def)
  have "live (put_req r s) = insert (request_id r) (live s)" using assms(3) by (auto simp: live_def)
  moreover have "mset_set (insert (request_id r) (live s)) = add_mset (request_id r) (mset_set (live s))"
    by (rule mset_set.insert [OF finite_live n])
  moreover have "in_running s k \<Longrightarrow> in_running (put_req r s) k" "in_waiting s k \<Longrightarrow> in_waiting (put_req r s) k" for k
    using assms(2) by (auto simp: in_running_def in_waiting_def)
  ultimately show ?thesis using assms(1) by (auto simp: queue_inv_def store_ok_put)
qed

lemma enqueue_inv:
  assumes "queue_inv (add_mset rid X) s" "in_waiting s rid"
  shows "ensures (queue_inv X) (enqueue_waiting_request rid s)"
  unfolding enqueue_waiting_request_def by (intro ens_intros) (use assms queue_inv_push in simp)

lemma sched_add_request_inv:
  assumes "sched_inv s" "\<not> is_finished r" "status r \<noteq> RUNNING"
  shows "ensures sched_inv (sched_add_request env r s)"
proof -
  have q: "queue_inv {#} s" using assms(1) by (simp add: sched_inv_def)
  show ?thesis
    unfolding sched_add_request_def Let_def
  proof (intro ens_intros, goal_cases)
    case 1
    let ?r = "if resumable r then r\<lparr>streaming_queue := Some []\<rparr> else r"
    have id: "request_id ?r = request_id r" "is_finished ?r = is_finished r" "status ?r = status r" by (simp_all add: is_finished_def)
    have "queue_inv (add_mset (request_id ?r) {#}) (put_req ?r s)"
      by (rule queue_inv_new [OF q]) (use 1 assms(2) id in simp_all)
    then have "ensures (queue_inv {#}) (enqueue_waiting_request (request_id ?r) (put_req ?r s))"
      by (rule enqueue_inv) (use assms(2,3) id in \<open>simp add: in_waiting_def\<close>)
    then show ?case unfolding sched_inv_def id(1) .
  next
    case (2 ex q)
    have "request_id ex = request_id r" using 2(1) queue_inv_storeD [OF \<open>queue_inv {#} s\<close>] by (simp add: store_ok_def)
    then show ?case using 2 q unfolding sched_inv_def by (auto intro: queue_inv_put)
  next
    case (3 ex x res s')
    then show ?case using finish_requests_inv [OF assms(1), THEN ensuresD] by fastforce
  next
    case (4 ex u)
    have g: "get_req (request_id r) s = Inr ex" using 4(1) by (simp add: get_req_def)
    have k: "same_kind (status ex) WAITING" using 4(2) by (simp add: same_kind_def)
    have id: "request_id ex = request_id r" using get_req_id [OF queue_inv_storeD [OF q] g] .
    show ?case
    proof (rule ensures_mono [OF update_session_put [OF g]], elim exE conjE)
      fix s' r' n
      assume "s' = put_req r' (s\<lparr>num_waiting_for_streaming_input := n\<rparr>)" "request_id r' = request_id ex" "status r' = WAITING"
      then show "sched_inv s'"
        unfolding sched_inv_def using q 4(1) k id by (auto intro: queue_inv_put)
    qed
  qed
qed


section \<open>The results of a model step\<close>

text \<open>The store gets \<open>r\<close> for \<open>rid\<close>; nothing else the invariant looks at changes.\<close>

definition puts :: "req_id \<Rightarrow> request \<Rightarrow> scheduler \<Rightarrow> scheduler \<Rightarrow> bool" where
  "puts rid r s s' \<longleftrightarrow> (\<forall>k. od_get (requests s') k = (if k = rid then Some r else od_get (requests s) k)) \<and>
     same_queues s s' \<and> store_ok s'"

lemma puts_put: "store_ok s \<Longrightarrow> request_id r = rid \<Longrightarrow> puts rid r s (put_req r s)"
  by (simp add: puts_def store_ok_put)

lemma puts_same: "store_ok s \<Longrightarrow> get_req rid s = Inr r \<Longrightarrow> puts rid r s s"
  by (auto simp: puts_def dest: get_reqD)

lemma puts_upd [simp]: "puts rid r s (s'\<lparr>kv_cache_manager := km\<rparr>) = puts rid r s s'"
  by (simp add: puts_def store_ok_def)

lemma puts_get: "puts rid r s s' \<Longrightarrow> get_req rid s' = Inr r"
  by (simp add: puts_def get_req_def)

lemma puts_trans: "puts rid r s s' \<Longrightarrow> puts rid r' s' s'' \<Longrightarrow> puts rid r' s s''"
  by (auto simp: puts_def intro: same_queues_trans)

lemma update_with_output_puts:
  assumes "store_ok s" "get_req rid s = Inr r"
  shows "ensures (\<lambda>(ts, stopped, s'). \<exists>r'. puts rid r' s s' \<and> stop_outcome r stopped r') (update_request_with_output env rid gen s)"
proof -
  note id = get_req_id [OF assms]
  note ap = append_until_stop_outcome [THEN ensuresD] and km = km_cache_blocks_memo [THEN ensuresD]
  have p: "stop_outcome r b r' \<Longrightarrow> \<exists>r''. puts rid r'' s (put_req r' s) \<and> stop_outcome r b r''" for b r'
    by (rule exI [of _ r']) (use puts_put [OF assms(1), of r' rid] id in \<open>simp add: stop_outcome_def\<close>)
  have m: "memo_only r1 r2 \<Longrightarrow> stop_outcome r b r1 \<Longrightarrow> stop_outcome r b r2" for b r1 r2
    by (auto simp: stop_outcome_def memo_only_fields is_finished_def split: if_splits)
  have n: "stop_outcome r b (r1\<lparr>num_output_placeholders := i\<rparr>) = stop_outcome r b r1" for b r1 i
    by (simp add: stop_outcome_def is_finished_def)
  show ?thesis
    unfolding update_request_with_output_def assms(2) bindR_Inr Let_def
  proof (intro ens_intros, goal_cases)
    case (1 x ts y stopped r1)
    then show ?case using ap p by fastforce
  next
    case 2
    then show ?case using p [of False "r\<lparr>discard_latest_async_tokens := False\<rparr>"] by (simp add: stop_outcome_def)
  next
    case (3 x ts y stopped r1 u z km r3)
    have "stop_outcome r stopped r1" using ap 3(3-5) by fastforce
    moreover have "memo_only (r1\<lparr>num_output_placeholders := num_output_placeholders r1 - int (length ts)\<rparr>) r3"
      using km 3(8,9) by fastforce
    ultimately have "stop_outcome r stopped r3" using m n by blast
    then show ?case using p by simp
  next
    case (4 x ts y stopped r1 u)
    have "stop_outcome r stopped r1" using ap 4(3-5) by fastforce
    then show ?case using p n by simp
  qed
qed

lemma apply_output_puts:
  assumes "store_ok s" "get_req rid s = Inr r" "\<not> is_finished r"
  shows "ensures (\<lambda>(ts, stopped, s'). \<exists>r'. puts rid r' s s' \<and> stop_outcome r stopped r') (apply_output env rid gen pooled s)"
  unfolding apply_output_def assms(2) bindR_Inr
proof (intro ens_intros update_with_output_puts [OF assms(1,2)], goal_cases)
  case 1
  then show ?case
    using puts_put [OF assms(1), of "r\<lparr>status := FINISHED_STOPPED\<rparr>" rid] get_req_id [OF assms(1,2)]
    by (auto simp: stop_outcome_def is_finished_def status_is_finished_def less_request_status_def)
next
  case 2
  then show ?case using puts_same [OF assms(1,2)] by (auto simp: stop_outcome_def)
qed


text \<open>Freeing a finished request only takes it out of the store, if anything.\<close>

definition drops :: "req_id \<Rightarrow> scheduler \<Rightarrow> scheduler \<Rightarrow> bool" where
  "drops rid s s' \<longleftrightarrow> (\<forall>k. k \<noteq> rid \<longrightarrow> od_get (requests s') k = od_get (requests s) k) \<and>
     (\<forall>r. od_get (requests s') rid = Some r \<longrightarrow> is_finished r) \<and> same_queues s s' \<and> store_ok s'"

lemma free_request_blocks_drops:
  assumes "store_ok s"
  shows "ensures (drops rid s) (free_request_blocks rid s)"
  unfolding free_request_blocks_def
  by (intro ens_intros) (use assms in \<open>auto simp: drops_def store_ok_def same_queues_def split: if_splits\<close>)

lemma connector_finished_frame: "ensures (\<lambda>(b, s'). \<exists>km. s' = s\<lparr>kv_cache_manager := km\<rparr>) (connector_finished env r s)"
  unfolding connector_finished_def by (intro ens_intros) (auto intro: exI [of _ "kv_cache_manager s"])

lemma sched_free_request_drops:
  assumes "store_ok s" "get_req rid s = Inr r" "is_finished r"
  shows "ensures (drops rid s) (sched_free_request env rid d s)"
  unfolding sched_free_request_def assms(2) bindR_Inr Let_def
proof (intro ens_intros, goal_cases)
  case (1 u x cd s1 em)
  then obtain km where "s1 = s\<lparr>kv_cache_manager := km\<rparr>" using connector_finished_frame [THEN ensuresD] by fastforce
  then show ?case using assms get_reqD [OF assms(2)] by (simp add: drops_def store_ok_def same_queues_def)
next
  case (2 u x cd s1 em)
  then obtain km where s1: "s1 = s\<lparr>kv_cache_manager := km\<rparr>" using connector_finished_frame [THEN ensuresD] by fastforce
  let ?s = "s1\<lparr>encoder_cache_manager := em, finished_req_ids := set_add rid (finished_req_ids s1),
               finished_req_ids_dict := note_finished (client_index r) rid (finished_req_ids_dict s1)\<rparr>"
  have "store_ok ?s" using assms(1) s1 by (simp add: store_ok_def)
  from free_request_blocks_drops [OF this, of rid] show ?case
    by (rule ensures_mono) (simp add: drops_def s1 same_queues_def)
qed

text \<open>A resumable request goes back to one of the waiting queues: to \<^verbatim>\<open>waiting\<close> when the next update
  of its session is there already, otherwise to \<^verbatim>\<open>skipped_waiting\<close>.\<close>

definition session_continues :: "request \<Rightarrow> bool" where
  "session_continues r \<longleftrightarrow> resumable r \<and>
     (case streaming_queue r of Some (Some u # q) \<Rightarrow> True | _ \<Rightarrow> False)"

lemma session_continues_id: "stop_outcome r b r' \<Longrightarrow> session_continues r' = session_continues r"
  by (simp add: session_continues_def stop_outcome_def)

definition requeued :: "req_id \<Rightarrow> scheduler \<Rightarrow> scheduler \<Rightarrow> bool" where
  "requeued rid s s' \<longleftrightarrow> (\<forall>k. k \<noteq> rid \<longrightarrow> od_get (requests s') k = od_get (requests s) k) \<and> in_waiting s' rid \<and>
     running s' = running s \<and> cfg s' = cfg s \<and> store_ok s' \<and>
     (queue_elems (waiting s') = add_mset rid (queue_elems (waiting s)) \<and> queue_elems (skipped_waiting s') = queue_elems (skipped_waiting s) \<or>
      queue_elems (waiting s') = queue_elems (waiting s) \<and> queue_elems (skipped_waiting s') = add_mset rid (queue_elems (skipped_waiting s)))"

lemma store_ok_upd [simp]:
  "store_ok (s\<lparr>waiting := a\<rparr>) = store_ok s" "store_ok (s\<lparr>skipped_waiting := b\<rparr>) = store_ok s" "store_ok (s\<lparr>running := c\<rparr>) = store_ok s"
  "store_ok (s\<lparr>num_waiting_for_streaming_input := n\<rparr>) = store_ok s" "store_ok (s\<lparr>kv_cache_manager := km\<rparr>) = store_ok s"
  by (simp_all add: store_ok_def)

lemma enqueue_requeued:
  assumes "store_ok s" "request_id r = rid" "\<not> is_finished r" "status r \<noteq> RUNNING"
  shows "ensures (requeued rid s) (enqueue_waiting_request rid (put_req r (s\<lparr>num_waiting_for_streaming_input := n\<rparr>)))"
proof -
  let ?s = "put_req r (s\<lparr>num_waiting_for_streaming_input := n\<rparr>)"
  have o: "store_ok ?s" using assms(1) by (intro store_ok_put) simp
  have w: "in_waiting ?s rid" using assms(2-4) by (simp add: in_waiting_def)
  have g: "\<forall>k. k \<noteq> rid \<longrightarrow> od_get (requests ?s) k = od_get (requests s) k" using assms(2) by simp
  show ?thesis
    unfolding enqueue_waiting_request_def
  proof (intro ens_intros, cases "is_blocked_waiting_status (status r)", goal_cases)
    case (1 r0)
    then have "r0 = r" using assms(2) by (simp add: get_req_put)
    then show ?case using 1(2) w o g unfolding requeued_def by (simp del: requests_put)
  next
    case (2 r0)
    then have "r0 = r" using assms(2) by (simp add: get_req_put)
    then show ?case using 2(2) w o g unfolding requeued_def by (simp del: requests_put)
  qed
qed

lemma enqueue_blocked_waiting:
  assumes "is_blocked_waiting_status (status r)"
  shows "ensures (\<lambda>s'. waiting s' = waiting s)
     (enqueue_waiting_request (request_id r) (put_req r (s\<lparr>num_waiting_for_streaming_input := n\<rparr>)))"
  unfolding enqueue_waiting_request_def by (intro ens_intros) (use assms in \<open>auto simp: get_req_put\<close>)

definition requeued_as :: "request \<Rightarrow> req_id \<Rightarrow> scheduler \<Rightarrow> scheduler \<Rightarrow> bool" where
  "requeued_as r rid s s' \<longleftrightarrow> resumable r \<and> requeued rid s s' \<and> (\<not> session_continues r \<longrightarrow> waiting s' = waiting s)"

lemma requeued_put: "requeued rid (put_req r s) s' \<Longrightarrow> request_id r = rid \<Longrightarrow> requeued rid s s'"
  by (simp add: requeued_def)

lemma put_req_num: "(put_req r s)\<lparr>num_waiting_for_streaming_input := n\<rparr> = put_req r (s\<lparr>num_waiting_for_streaming_input := n\<rparr>)"
  by (simp add: put_req_def)

lemma handle_stopped_cases:
  assumes "store_ok s" "get_req rid s = Inr r"
  shows "ensures (\<lambda>(finished, s'). if finished then \<exists>r'. puts rid r' s s' \<and> is_finished r' = is_finished r
                                  else requeued_as r rid s s') (handle_stopped_request env rid s)"
proof -
  note id = get_req_id [OF assms]
  let ?r = "\<lambda>q. r\<lparr>streaming_queue := Some q\<rparr>"
  have fin: "\<exists>r'. puts rid r' s (put_req (?r q) s) \<and> is_finished r' = is_finished r" for q
    by (rule exI [of _ "?r q"]) (use puts_put [OF assms(1), of "?r q" rid] id in \<open>simp add: is_finished_def\<close>)
  have same: "\<exists>r'. puts rid r' s s \<and> is_finished r' = is_finished r" using puts_same [OF assms] by blast
  have upd: "requeued rid s s3"
    if "update_request_as_session env rid u (put_req (?r q) s) = Inr s2" "enqueue_waiting_request rid s2 = Inr s3" for q u s2 s3
  proof -
    have "get_req rid (put_req (?r q) s) = Inr (?r q)" using id by (simp add: get_req_put)
    from update_session_put [OF this, THEN ensuresD, OF that(1)] obtain r' n
      where "s2 = put_req r' ((put_req (?r q) s)\<lparr>num_waiting_for_streaming_input := n\<rparr>)" "request_id r' = rid" "status r' = WAITING"
      using id by auto
    with enqueue_requeued [of "put_req (?r q) s" r' rid n, THEN ensuresD] that(2) store_ok_put [OF assms(1)]
    have "requeued rid (put_req (?r q) s) s3" by (simp add: is_finished_def)
    then show ?thesis by (rule requeued_put) (use id in simp)
  qed
  have idle: "requeued rid s s2 \<and> waiting s2 = waiting s"
    if "enqueue_waiting_request rid ((put_req (r\<lparr>status := WAITING_FOR_STREAMING_REQ\<rparr>) s)\<lparr>num_waiting_for_streaming_input := n\<rparr>) = Inr s2" for n s2
    using enqueue_requeued [OF assms(1), of "r\<lparr>status := WAITING_FOR_STREAMING_REQ\<rparr>" rid n, THEN ensuresD] that id
      enqueue_blocked_waiting [of "r\<lparr>status := WAITING_FOR_STREAMING_REQ\<rparr>" s n, THEN ensuresD]
    by (simp add: put_req_num is_finished_def is_blocked_waiting_status_def)
  show ?thesis
    unfolding handle_stopped_request_def assms(2) bindR_Inr Let_def
    by (intro ens_intros) (auto split: option.split list.split intro!: ens_intros fin same intro: upd simp: requeued_as_def session_continues_def dest: idle)
qed


lemma queue_inv_replace:
  assumes "queue_inv (add_mset rid X) s" "store_ok s'" "\<forall>k. k \<noteq> rid \<longrightarrow> od_get (requests s') k = od_get (requests s) k"
    and "mset (running s') = mset (running s)"
    and "in_waiting s' rid \<and> queue_elems (waiting s') + queue_elems (skipped_waiting s') = add_mset rid (queue_elems (waiting s) + queue_elems (skipped_waiting s)) \<or>
         rid \<notin> live s' \<and> queue_elems (waiting s') + queue_elems (skipped_waiting s') = queue_elems (waiting s) + queue_elems (skipped_waiting s)"
  shows "queue_inv X s'"
proof -
  have l: "rid \<in> live s" using queue_inv_unique(2) [OF assms(1), of rid] by simp
  have o: "queued s + X = mset_set (live s - {rid})"
    using assms(1) mset_set.remove [OF finite_live l] by (simp add: queue_inv_def)
  have w: "in_waiting s' rid \<Longrightarrow> rid \<in> live s'" by (auto simp: in_waiting_def live_def)
  have l': "live s' - {rid} = live s - {rid}" using assms(3) by (auto simp: live_def)
  have n: "rid \<notin># queued s" by (rule queue_inv_outside [OF assms(1)])
  have k: "k \<noteq> rid \<Longrightarrow> in_running s k \<Longrightarrow> in_running s' k" "k \<noteq> rid \<Longrightarrow> in_waiting s k \<Longrightarrow> in_waiting s' k" for k
    using assms(3) by (simp_all add: in_running_def in_waiting_def)
  have r: "set (running s') = set (running s)" using assms(4) by (metis set_mset_mset)
  have eq: "queued s' + X = mset_set (live s')"
  proof (cases "rid \<in> live s'")
    case True
    then have "queued s' = add_mset rid (queued s)" using assms(4,5) by (auto simp: queued_def add.assoc)
    then show ?thesis using o l' mset_set.remove [OF finite_live True] by simp
  next
    case False
    then have "queued s' = queued s" using assms(4,5) w by (auto simp: queued_def add.assoc)
    then show ?thesis using o l' False by simp
  qed
  have "in_running s' x" if "x \<in> set (running s')" for x
  proof (rule k(1))
    show "x \<noteq> rid" "in_running s x" using that r n assms(1) by (auto simp: queue_inv_def queued_def)
  qed
  moreover have "in_waiting s' x" if "x \<in># queue_elems (waiting s') + queue_elems (skipped_waiting s')" for x
  proof (cases "x = rid")
    case True
    have "rid \<notin># queue_elems (waiting s) + queue_elems (skipped_waiting s)" using n by (simp add: queued_def)
    then show ?thesis using that assms(5) True by (auto simp del: set_mset_union)
  next
    case False
    then have "x \<in># queue_elems (waiting s) + queue_elems (skipped_waiting s)" using that assms(5) by (auto simp del: set_mset_union)
    then show ?thesis using k(2) [OF False] assms(1) by (auto simp: queue_inv_def)
  qed
  ultimately show ?thesis using eq assms(2) by (simp add: queue_inv_def)
qed

lemma queue_inv_filter_running:
  assumes "queue_inv {#} s" "k \<in> set (running s)"
  shows "queue_inv {#k#} (s\<lparr>running := filter (\<lambda>x. x \<noteq> k) (running s)\<rparr>)"
proof (rule queue_inv_take_running [OF assms(1)])
  have "filter (\<lambda>x. x \<noteq> k) (running s) = remove1 k (running s)"
    using queue_inv_distinct [OF assms(1)] by (simp add: distinct_remove1_removeAll removeAll_filter_not_eq eq_commute)
  then show "mset (running s) = add_mset k (mset (filter (\<lambda>x. x \<noteq> k) (running s)))" using assms(2) by simp
qed

lemma queue_inv_filter_waiting:
  assumes "queue_inv {#} s" "k \<in># queue_elems (waiting s)"
  shows "queue_inv {#k#} (s\<lparr>waiting := FCFSRequestQueue (filter (\<lambda>x. x \<noteq> k) (queue_list (waiting s)))\<rparr>)"
proof (rule queue_inv_move [OF assms(1)])
  have c: "count (queue_elems (waiting s)) k = 1"
  proof (rule antisym)
    show "count (queue_elems (waiting s)) k \<le> 1" using queue_inv_unique(1) [OF assms(1), of k] by (simp add: queued_def)
    show "1 \<le> count (queue_elems (waiting s)) k" using assms(2) by (simp only: count_greater_eq_one_iff)
  qed
  have e: "add_mset k (filter_mset (\<lambda>x. x \<noteq> k) (queue_elems (waiting s))) = queue_elems (waiting s)"
    by (rule multiset_eqI) (use c in auto)
  then have "queue_elems (waiting s) = add_mset k (filter_mset (\<lambda>x. x \<noteq> k) (queue_elems (waiting s)))" ..
  then show "queued (s\<lparr>waiting := FCFSRequestQueue (filter (\<lambda>x. x \<noteq> k) (queue_list (waiting s)))\<rparr>) + {#k#} = queued s + {#}"
    by (simp add: queued_def mset_filter)
qed (use assms(1) in \<open>auto simp: queue_inv_def\<close>)


text \<open>The queues once the stopped requests have been removed from them.\<close>

definition settled :: "update_run \<Rightarrow> scheduler" where
  "settled u = (ur_sched u)\<lparr>running := filter (\<lambda>k. k \<notin> set (stopped_running_reqs u)) (running (ur_sched u)),
     waiting := FCFSRequestQueue (filter (\<lambda>k. k \<notin> set (stopped_preempted_reqs u)) (queue_list (waiting (ur_sched u))))\<rparr>"

definition same_stopped :: "update_run \<Rightarrow> update_run \<Rightarrow> bool" where
  "same_stopped u u' \<longleftrightarrow> stopped_running_reqs u' = stopped_running_reqs u \<and> stopped_preempted_reqs u' = stopped_preempted_reqs u"

definition note_stopped :: "req_id \<Rightarrow> request \<Rightarrow> update_run \<Rightarrow> update_run \<Rightarrow> bool" where
  "note_stopped rid r u u' \<longleftrightarrow>
     stopped_running_reqs u' = (if status r = RUNNING then set_add rid (stopped_running_reqs u) else stopped_running_reqs u) \<and>
     stopped_preempted_reqs u' = (if status r \<noteq> RUNNING then set_add rid (stopped_preempted_reqs u) else stopped_preempted_reqs u)"

text \<open>What one result of the model does: nothing, an update of the request in place, its removal, or
  its return to a waiting queue.\<close>

definition output_case :: "req_id \<Rightarrow> update_run \<Rightarrow> update_run \<Rightarrow> bool" where
  "output_case rid u u' \<longleftrightarrow> (let s = ur_sched u; s' = ur_sched u' in
     s' = s \<and> same_stopped u u' \<or>
     (\<exists>r. od_get (requests s) rid = Some r \<and> \<not> is_finished r \<and>
        ((\<exists>r'. puts rid r' s s' \<and> status r' = status r \<and> same_stopped u u') \<or>
         drops rid s s' \<and> note_stopped rid r u u' \<or>
         requeued_as r rid s s' \<and> note_stopped rid r u u')))"

lemma reject_draft_id: "same_id r (reject_draft_tokens spec gen r)"
  by (simp add: reject_draft_tokens_def same_id_def Let_def)

lemma drops_trans: "puts rid r s s' \<Longrightarrow> drops rid s' s'' \<Longrightarrow> drops rid s s''"
  by (auto simp: drops_def puts_def intro: same_queues_trans)

lemma requeued_trans: "puts rid r s s' \<Longrightarrow> requeued_as r' rid s' s'' \<Longrightarrow> requeued_as r' rid s s''"
  by (auto simp: requeued_as_def requeued_def puts_def same_queues_def)

lemma requeued_as_id: "stop_outcome r b r' \<Longrightarrow> requeued_as r' rid s s' = requeued_as r rid s s'"
  by (simp add: requeued_as_def session_continues_id) (simp add: stop_outcome_def)

lemma finish_if_stopped_cases:
  assumes "puts rid r s0 s" "stop_outcome r0 stopped r"
  shows "ensures (\<lambda>s'. if stopped then drops rid s0 s' \<or> requeued_as r0 rid s0 s' else s' = s) (finish_if_stopped env rid stopped s)"
  unfolding finish_if_stopped_def
proof (intro ens_intros, goal_cases)
  case (2 x fin s1)
  have o: "store_ok s" using assms(1) by (simp add: puts_def)
  obtain r1 where r1: "puts rid r1 s s1" "is_finished r1"
    using handle_stopped_cases [OF o puts_get [OF assms(1)], THEN ensuresD] 2 assms(2) by (fastforce simp: stop_outcome_def)
  have "store_ok s1" using r1(1) by (simp add: puts_def)
  from sched_free_request_drops [OF this puts_get [OF r1(1)] r1(2)] show ?case
    by (rule ensures_mono) (use 2 drops_trans [OF assms(1)] drops_trans [OF r1(1)] in auto)
next
  case (3 x fin s1)
  have o: "store_ok s" using assms(1) by (simp add: puts_def)
  have "requeued_as r rid s s1"
    using handle_stopped_cases [OF o puts_get [OF assms(1)], THEN ensuresD] 3 by fastforce
  then show ?case using 3 requeued_trans [OF assms(1)] requeued_as_id [OF assms(2)] by simp
qed simp

lemma output_step_cases:
  assumes "store_ok (ur_sched u)"
  shows "ensures (output_case rid u) (output_step env so mro failed (rid, n) u)"
  unfolding output_step_def prod.case
proof (intro ens_intros, goal_cases)
  case (4 v r i gen pooled r1 x ts y stopped s2 r2 s3)
  have id: "same_id r r1" "request_id r = rid"
    using reject_draft_id 4(8) get_req_id [OF assms, of rid r] 4(3) by (simp_all add: get_req_def)
  have o: "store_ok (put_req r1 (ur_sched u))" by (rule store_ok_put [OF assms])
  have p1: "puts rid r1 (ur_sched u) (put_req r1 (ur_sched u))" using puts_put [OF assms, of r1 rid] id by (simp add: same_id_def)
  have "\<not> is_finished r1" using 4(4) id(1) by (simp add: same_id_def is_finished_def)
  from apply_output_puts [OF o puts_get [OF p1] this, THEN ensuresD, OF 4(9)]
  obtain r' where r': "puts rid r' (put_req r1 (ur_sched u)) s2" "stop_outcome r1 stopped r'" using 4(10,11) by auto
  note p = puts_trans [OF p1 r'(1)]
  note f = finish_if_stopped_cases [OF p r'(2), THEN ensuresD, OF 4(13)]
  have r: "od_get (requests (ur_sched u)) rid = Some r" "\<not> is_finished r" "status r1 = status r"
    and q: "requeued_as r1 rid s s' = requeued_as r rid s s'" for s s'
    using 4(3,4) id(1) by (simp_all add: same_id_def requeued_as_def session_continues_def)
  show ?case
  proof (cases stopped)
    case True
    then show ?thesis using f r by (auto simp: output_case_def note_stopped_def Let_def q)
  next
    case False
    then show ?thesis using f r p r'(2) by (auto simp: output_case_def same_stopped_def stop_outcome_def Let_def)
  qed
qed (simp_all add: output_case_def same_stopped_def)


text \<open>The result for a request that does not run any more, because a later step has preempted it while
  the model was computing, is taken as intended if the request is still in \<^verbatim>\<open>waiting\<close> and no
  update of its session has arrived: \<^verbatim>\<open>update_from_output\<close> takes every stopped request out of
  \<^verbatim>\<open>waiting\<close>, and out of \<^verbatim>\<open>waiting\<close> only, after the request may have been queued there again.\<close>

definition result_timely :: "scheduler \<Rightarrow> req_id \<Rightarrow> bool" where
  "result_timely s k \<longleftrightarrow> (\<forall>r. od_get (requests s) k = Some r \<longrightarrow> \<not> is_finished r \<longrightarrow>
     status r = RUNNING \<or> k \<in># queue_elems (waiting s) \<and> \<not> session_continues r)"

definition unstopped :: "update_run \<Rightarrow> req_id \<Rightarrow> bool" where
  "unstopped u k \<longleftrightarrow> k \<notin> set (stopped_running_reqs u) \<and> k \<notin> set (stopped_preempted_reqs u)"

lemma settled_simps [simp]:
  "requests (settled u) = requests (ur_sched u)" "running (settled u) = filter (\<lambda>k. k \<notin> set (stopped_running_reqs u)) (running (ur_sched u))"
  "queue_elems (waiting (settled u)) = filter_mset (\<lambda>k. k \<notin> set (stopped_preempted_reqs u)) (queue_elems (waiting (ur_sched u)))"
  "skipped_waiting (settled u) = skipped_waiting (ur_sched u)" "store_ok (settled u) = store_ok (ur_sched u)"
  "live (settled u) = live (ur_sched u)" "in_waiting (settled u) = in_waiting (ur_sched u)" "in_running (settled u) = in_running (ur_sched u)"
  by (simp_all add: settled_def mset_filter store_ok_def live_def in_waiting_def in_running_def fun_eq_iff)

lemma set_set_add [simp]: "set (set_add x xs) = insert x (set xs)"
  by (auto simp: set_add_def)

lemma stopped_inv:
  assumes "queue_inv {#} (settled u)" "od_get (requests (ur_sched u)) rid = Some r" "\<not> is_finished r"
    and "unstopped u rid" "result_timely (ur_sched u) rid" "note_stopped rid r u u'"
    and "drops rid (ur_sched u) (ur_sched u') \<or> requeued_as r rid (ur_sched u) (ur_sched u')"
  shows "queue_inv {#} (settled u')"
proof (cases "status r = RUNNING")
  case True
  have "rid \<in> set (running (settled u))" using live_place(1) [OF assms(1), of rid r] assms(2,3) True by simp
  from queue_inv_filter_running [OF assms(1) this] show ?thesis
    by (rule queue_inv_replace)
      (use assms(4,6,7) True in \<open>auto simp: drops_def requeued_as_def requeued_def same_queues_def note_stopped_def unstopped_def live_def settled_def mset_filter
         filter_filter intro!: filter_mset_cong0\<close>)
next
  case False
  then have w: "\<not> session_continues r" "rid \<in># queue_elems (waiting (ur_sched u))" using assms(2,3,5) by (simp_all add: result_timely_def)
  then have "rid \<in># queue_elems (waiting (settled u))" using assms(4) by (simp add: unstopped_def)
  from queue_inv_filter_waiting [OF assms(1) this] show ?thesis
    by (rule queue_inv_replace)
      (use assms(6,7) False w in \<open>auto simp: drops_def requeued_as_def requeued_def same_queues_def note_stopped_def live_def settled_def mset_filter
         filter_filter intro!: filter_mset_cong0\<close>)
qed


lemma puts_inv:
  assumes "queue_inv {#} (settled u)" "od_get (requests (ur_sched u)) rid = Some r" "puts rid r' (ur_sched u) (ur_sched u')"
    and "status r' = status r" "same_stopped u u'"
  shows "queue_inv {#} (settled u')"
proof (rule queue_inv_frame [OF assms(1)])
  show "same_queues (settled u) (settled u')" "store_ok (settled u')"
    using assms(3,5) by (simp_all add: same_queues_def puts_def same_stopped_def settled_def store_ok_def)
  show "same_kinds (settled u) (settled u')"
    using assms(2-4) by (auto simp: same_kinds_def puts_def option.rel_refl)
qed

lemma output_case_inv:
  assumes "output_case rid u u'" "queue_inv {#} (settled u)" "unstopped u rid" "result_timely (ur_sched u) rid"
  shows "queue_inv {#} (settled u')"
proof -
  consider "ur_sched u' = ur_sched u" "same_stopped u u'"
    | r r' where "od_get (requests (ur_sched u)) rid = Some r" "puts rid r' (ur_sched u) (ur_sched u')" "status r' = status r" "same_stopped u u'"
    | r where "od_get (requests (ur_sched u)) rid = Some r" "\<not> is_finished r" "note_stopped rid r u u'"
        "drops rid (ur_sched u) (ur_sched u') \<or> requeued_as r rid (ur_sched u) (ur_sched u')"
    using assms(1) by (auto simp: output_case_def Let_def)
  then show ?thesis
  proof cases
    case 1
    then have "settled u' = settled u" by (simp add: settled_def same_stopped_def)
    then show ?thesis using assms(2) by simp
  next
    case (2 r r')
    then show ?thesis by (rule puts_inv [OF assms(2)])
  next
    case (3 r)
    then show ?thesis using stopped_inv [OF assms(2) _ _ assms(3,4)] by blast
  qed
qed

lemma output_case_waiting:
  assumes "output_case rid u u'"
  shows "queue_elems (waiting (ur_sched u)) \<subseteq># queue_elems (waiting (ur_sched u'))"
  using assms by (auto simp: output_case_def Let_def puts_def drops_def requeued_as_def requeued_def same_queues_def)

lemma output_case_store:
  assumes "output_case rid u u'" "k \<noteq> rid"
  shows "od_get (requests (ur_sched u')) k = od_get (requests (ur_sched u)) k"
  using assms by (auto simp: output_case_def Let_def puts_def drops_def requeued_as_def requeued_def)

lemma output_case_other:
  assumes "output_case rid u u'" "k \<noteq> rid"
  shows "unstopped u k \<Longrightarrow> unstopped u' k" "result_timely (ur_sched u) k \<Longrightarrow> result_timely (ur_sched u') k"
proof -
  show "unstopped u k \<Longrightarrow> unstopped u' k"
    using assms by (auto simp: output_case_def Let_def unstopped_def same_stopped_def note_stopped_def split: if_splits)
  show "result_timely (ur_sched u) k \<Longrightarrow> result_timely (ur_sched u') k"
    using output_case_store [OF assms] mset_subset_eqD [OF output_case_waiting [OF assms(1)]] by (auto simp: result_timely_def)
qed

lemma output_loop_inv:
  assumes "queue_inv {#} (settled u)" "distinct (map fst xs)" "\<forall>k \<in> fst ` set xs. unstopped u k \<and> result_timely (ur_sched u) k"
  shows "ensures (\<lambda>u'. queue_inv {#} (settled u')) (foldR (output_step env so mro failed) xs u)"
  using assms
proof (induction xs arbitrary: u)
  case (Cons x xs)
  obtain rid n where x: "x = (rid, n)" by fastforce
  show ?case
    unfolding foldR.simps
  proof (rule ens_bind)
    fix u1
    assume s: "output_step env so mro failed x u = Inr u1"
    have c: "output_case rid u u1"
      using output_step_cases [THEN ensuresD, OF _ s [unfolded x]] queue_inv_storeD [OF Cons.prems(1)] by simp
    show "ensures (\<lambda>u'. queue_inv {#} (settled u')) (foldR (output_step env so mro failed) xs u1)"
    proof (rule Cons.IH)
      show "queue_inv {#} (settled u1)" using output_case_inv [OF c Cons.prems(1)] Cons.prems(3) x by simp
      show "distinct (map fst xs)" using Cons.prems(2) by simp
      show "\<forall>k \<in> fst ` set xs. unstopped u1 k \<and> result_timely (ur_sched u1) k"
      proof
        fix k
        assume k: "k \<in> fst ` set xs"
        then have "k \<noteq> rid" using Cons.prems(2) x by auto
        then show "unstopped u1 k \<and> result_timely (ur_sched u1) k" using output_case_other [OF c] Cons.prems(3) k by auto
      qed
    qed
  qed
qed (simp add: ens_ret)


lemma output_loop_running:
  assumes "store_ok (ur_sched u)"
  shows "ensures (\<lambda>u'. running (ur_sched u') = running (ur_sched u) \<and> store_ok (ur_sched u')) (foldR (output_step env so mro failed) xs u)"
proof (rule ens_foldR)
  fix x :: "req_id \<times> int" and u1 :: update_run
  assume i: "running (ur_sched u1) = running (ur_sched u) \<and> store_ok (ur_sched u1)"
  obtain rid n where x: "x = (rid, n)" by fastforce
  show "ensures (\<lambda>u'. running (ur_sched u') = running (ur_sched u) \<and> store_ok (ur_sched u')) (output_step env so mro failed x u1)"
    unfolding x by (rule ensures_mono [OF output_step_cases])
      (use i in \<open>auto simp: output_case_def Let_def puts_def drops_def requeued_as_def requeued_def same_queues_def\<close>)
qed (use assms in simp)

section \<open>KV transfers\<close>

text \<open>Failed loads change how much of a request is computed, but not what kind of request it is.\<close>

definition same_ids :: "scheduler \<Rightarrow> scheduler \<Rightarrow> bool" where
  "same_ids s s' \<longleftrightarrow> same_queues s s' \<and> store_ok s' \<and> (\<forall>k. rel_option same_id (od_get (requests s) k) (od_get (requests s') k))"

lemma same_ids_refl: "store_ok s \<Longrightarrow> same_ids s s"
  by (simp add: same_ids_def option.rel_refl)

lemma same_ids_put:
  assumes "same_ids s0 s" "get_req rid s = Inr r" "same_id r r'"
  shows "same_ids s0 (put_req r' s)"
proof -
  have o: "store_ok s" using assms(1) by (simp add: same_ids_def)
  have id: "request_id r' = rid" using get_req_id [OF o assms(2)] assms(3) by (simp add: same_id_def)
  have "rel_option same_id (od_get (requests s0) k) (od_get (requests (put_req r' s)) k)" for k
    using assms(1) [unfolded same_ids_def, THEN conjunct2, THEN conjunct2, rule_format, of k] get_reqD [OF assms(2)] assms(3) id
    by (cases "od_get (requests s0) k") (auto intro: same_id_trans)
  then show ?thesis using assms(1) by (simp add: same_ids_def store_ok_put)
qed

lemma same_ids_upd [simp]:
  "same_ids s (s'\<lparr>kv_cache_manager := km\<rparr>) = same_ids s s'" "same_ids s (s'\<lparr>failed_recving_kv_req_ids := a\<rparr>) = same_ids s s'"
  by (simp_all add: same_ids_def store_ok_def)

lemma same_ids_inv:
  assumes "same_ids s s'" "queue_inv X s"
  shows "queue_inv X s'" "result_timely s k \<Longrightarrow> result_timely s' k"
proof -
  have "same_kinds s s'" unfolding same_kinds_def
  proof
    fix k
    show "rel_option (\<lambda>r r'. same_kind (status r) (status r')) (od_get (requests s) k) (od_get (requests s') k)"
      using assms(1) [unfolded same_ids_def, THEN conjunct2, THEN conjunct2, rule_format, of k]
      by (rule option.rel_mono_strong) (simp add: same_id_def)
  qed
  then show "queue_inv X s'" using assms by (intro queue_inv_frame [OF assms(2)]) (simp_all add: same_ids_def)
  show "result_timely s k \<Longrightarrow> result_timely s' k"
    using assms(1) [unfolded same_ids_def, THEN conjunct2, THEN conjunct2, rule_format, of k] assms(1)
    by (cases "od_get (requests s) k") (auto simp: result_timely_def same_ids_def same_queues_def same_id_def is_finished_def session_continues_def option_rel_Some1)
qed

lemma invalid_scan_id:
  "same_id r (scan_request v) \<Longrightarrow> same_id r (scan_request (fold (invalid_block_step invalid evict bs n ids) xs v))"
proof (induction xs arbitrary: v)
  case (Cons x xs)
  have "same_id (scan_request v) (scan_request (invalid_block_step invalid evict bs n ids x v))"
    by (cases x; cases "snd x \<in> set invalid"; cases "snd x \<in> set (marked_invalid_block_ids v)"; cases "is_marked_here v")
      (simp_all add: invalid_block_step_def same_id_def Let_def)
  from Cons.IH [OF same_id_trans [OF Cons.prems this]] show ?case by (simp only: fold_simps)
qed simp

lemma ens_list:
  "(xs = [] \<Longrightarrow> ensures Q a) \<Longrightarrow> (\<And>y ys. xs = y # ys \<Longrightarrow> ensures Q (b y ys)) \<Longrightarrow> ensures Q (case xs of [] \<Rightarrow> a | y # ys \<Rightarrow> b y ys)"
  by (cases xs) simp_all

lemma invalid_request_step_ids:
  assumes "same_ids s0 s"
  shows "ensures (\<lambda>(a', t', m', e', s'). same_ids s0 s') (invalid_request_step invalid evict rid (a, t, m, e, s))"
  unfolding invalid_request_step_def prod.case
proof (intro ens_intros ens_list, goal_cases)
  case (1 r ids rest bs nc nb v r' shared)
  have "same_id r r'" unfolding 1(7,8) by (rule invalid_scan_id) simp
  then have "same_id r (if shared then r'\<lparr>num_computed_tokens := num_cached_tokens r'\<rparr> else r')" by (simp add: same_id_def)
  from same_ids_put [OF assms 1(1) this] show ?case by simp
qed

lemma update_invalid_ids:
  assumes "same_ids s0 s"
  shows "ensures (\<lambda>(a, t, e, s'). same_ids s0 s') (update_requests_with_invalid_blocks rids invalid evict s)"
proof -
  have "ensures (\<lambda>(a, t, m, e, s'). same_ids s0 s') (foldR (invalid_request_step invalid evict) rids ([], 0, [], [], s))"
  proof (rule ens_foldR)
    fix rid and st :: "req_id list \<times> int \<times> int list \<times> int list \<times> scheduler"
    assume "case st of (a, t, m, e, s') \<Rightarrow> same_ids s0 s'"
    then show "ensures (\<lambda>(a, t, m, e, s'). same_ids s0 s') (invalid_request_step invalid evict rid st)"
      by (cases st rule: prod_cases5) (simp only: prod.case, rule invalid_request_step_ids)
  qed (use assms in simp)
  then show ?thesis unfolding update_requests_with_invalid_blocks_def by (rule ens_seq) (auto intro: ens_ret)
qed

lemma handle_invalid_ids:
  assumes "store_ok s"
  shows "ensures (\<lambda>(failed, s'). same_ids s s') (handle_invalid_blocks invalid s)"
proof -
  have u: "same_ids s0 s1 \<Longrightarrow> update_requests_with_invalid_blocks rids invalid evict s1 = Inr (a, t, e, s2) \<Longrightarrow> same_ids s0 s2"
    for s0 s1 rids evict a t e s2 using update_invalid_ids [THEN ensuresD] by fastforce
  show ?thesis
    unfolding handle_invalid_blocks_def Let_def
    by (intro ens_intros) (simp_all add: u [OF u [OF same_ids_refl [OF assms]]])
qed

lemma kv_received_inv: "queue_inv X s \<Longrightarrow> ensures (queue_inv X) (kv_received_step rid s)"
  unfolding kv_received_step_def by (intro ens_intros free_request_blocks_inv) simp_all

lemma kv_sent_inv: "queue_inv X s \<Longrightarrow> ensures (queue_inv X) (kv_sent_step rid s)"
  unfolding kv_sent_step_def by (intro ens_intros free_request_blocks_inv)

lemma kv_finished_inv: "queue_inv X s \<Longrightarrow> ensures (queue_inv X) (update_from_kv_xfer_finished o' s)"
  unfolding update_from_kv_xfer_finished_def
  by (rule ens_seq [where R = "queue_inv X"]; rule ens_foldR) (auto intro: kv_received_inv kv_sent_inv)


section \<open>The remaining operations\<close>

lemma fail_requests_inv:
  assumes "sched_inv (ur_sched u)"
  shows "ensures (\<lambda>u'. sched_inv (ur_sched u')) (fail_requests env failed u)"
  unfolding fail_requests_def
  by (intro ens_intros) (use assms finish_requests_inv [OF assms, THEN ensuresD] in fastforce)+

lemma update_from_output_inv:
  assumes "sched_inv s" "od_wf (so_num_scheduled_tokens so)" "\<forall>k \<in> fst ` set (so_num_scheduled_tokens so). result_timely s k"
  shows "ensures (\<lambda>(outs, s'). sched_inv s') (update_from_output env so mro s)"
proof -
  have q: "queue_inv {#} s" and o: "store_ok s" using assms(1) queue_inv_storeD by (simp_all add: sched_inv_def)
  let ?pre = "case mro_kv_connector_output mro of None \<Rightarrow> Inr ([], s)
     | Some o' \<Rightarrow> if invalid_block_ids o' = [] then Inr ([], s) else handle_invalid_blocks (invalid_block_ids o') s"
  have pre: "ensures (\<lambda>(failed, s1). same_ids s s1) ?pre"
    by (auto split: option.split intro: ens_ret same_ids_refl [OF o] handle_invalid_ids [OF o])
  have loop: "ensures (\<lambda>u1. queue_inv {#} (settled u1) \<and> distinct (running (ur_sched u1)))
     (foldR (output_step env so mro failed) (so_num_scheduled_tokens so)
        \<lparr>ur_sched = s1, ur_outputs = [], stopped_running_reqs = [], stopped_preempted_reqs = []\<rparr>)" (is "ensures _ (foldR _ _ ?u0)")
    if "same_ids s s1" for failed s1
  proof -
    have q1: "queue_inv {#} s1" by (rule same_ids_inv(1) [OF that q])
    have "queue_inv {#} (settled ?u0)"
      by (rule queue_inv_move [OF q1]) (use q1 in \<open>auto simp: queued_def queue_inv_def\<close>)
    then have "ensures (\<lambda>u1. queue_inv {#} (settled u1)) (foldR (output_step env so mro failed) (so_num_scheduled_tokens so) ?u0)"
      by (rule output_loop_inv) (use assms(2,3) same_ids_inv(2) [OF that q] in \<open>simp_all add: od_wf_def unstopped_def\<close>)
    moreover have "ensures (\<lambda>u1. distinct (running (ur_sched u1))) (foldR (output_step env so mro failed) (so_num_scheduled_tokens so) ?u0)"
      by (rule ensures_mono [OF output_loop_running]) (use queue_inv_distinct [OF q1] queue_inv_storeD [OF q1] in simp_all)
    ultimately show ?thesis by (rule ens_conj)
  qed
  have out: "queue_inv {#} ((ur_sched u)\<lparr>running := (if stopped_running_reqs u \<noteq> [] then remove_all (running (ur_sched u)) (stopped_running_reqs u) else running (ur_sched u)),
        waiting := (if stopped_preempted_reqs u \<noteq> [] then remove_requests (req_before (ur_sched u)) (stopped_preempted_reqs u) (waiting (ur_sched u))
                    else waiting (ur_sched u))\<rparr>)" (is "queue_inv _ ?s3")
    if "queue_inv {#} (settled u)" "distinct (running (ur_sched u))" for u
  proof (rule queue_inv_move [OF that(1)])
    have "mset (running ?s3) = mset (running (settled u))" "queue_elems (waiting ?s3) = queue_elems (waiting (settled u))"
      using remove_all_mset [OF that(2)] by (simp_all add: mset_filter)
    moreover from this have "set (running ?s3) = set (running (settled u))" by (metis set_mset_mset)
    ultimately show "queued ?s3 + {#} = queued (settled u) + {#}" "\<forall>rid \<in> set (running ?s3). in_running (settled u) rid"
      "\<forall>rid. rid \<in># queue_elems (waiting ?s3) + queue_elems (skipped_waiting ?s3) \<longrightarrow> in_waiting (settled u) rid"
      using that(1) unfolding queue_inv_def queued_def by (simp_all del: settled_simps add: settled_simps(4)) 
  qed simp
  have kv: "ensures (queue_inv {#}) (case mro_kv_connector_output mro of None \<Rightarrow> Inr s4 | Some o' \<Rightarrow> update_from_kv_xfer_finished o' s4)"
    if "queue_inv {#} s4" for s4 using that by (auto split: option.split intro: ens_ret kv_finished_inv)
  show ?thesis
    unfolding update_from_output_def Let_def
  proof (rule ens_seq [OF pre], clarify, rule ens_seq [OF loop], assumption, elim conjE, rule ens_seq [OF fail_requests_inv], goal_cases)
    case (1 failed s1 u1)
    show ?case using out [OF 1(2,3)] by (simp add: sched_inv_def)
  next
    case (2 failed s1 u1 u2)
    then show ?case
      by (intro ens_seq [OF kv] ens_ret) (simp_all add: sched_inv_def)
  qed
qed


lemma draft_step_evolves: "evolves s (draft_step env x s)"
proof (cases x)
  case (Pair rid spec)
  have "evolves s (put_req (r\<lparr>spec_token_ids := ts\<rparr>) s)" if "od_get (requests s) rid = Some r" for r ts
    by (rule evolves_put [of rid s r]) (use that in \<open>simp_all add: get_req_def\<close>)
  then show ?thesis using Pair by (simp add: draft_step_def split: option.split)
qed

lemma update_draft_inv: "sched_inv s \<Longrightarrow> sched_inv (update_draft_token_ids env drafts s)"
  unfolding update_draft_token_ids_def
  by (induction drafts arbitrary: s) (auto simp: sched_inv_def intro: evolves_inv [OF _ draft_step_evolves])

lemma reset_preempt_inv:
  assumes "queue_inv {#} s" "running s = rs @ [rid]"
  shows "ensures (\<lambda>s'. queue_inv {#} s' \<and> running s' = rs) (reset_preempt_step rid s)"
  unfolding reset_preempt_step_def
proof (intro ens_intros, goal_cases)
  case (1 s1 r)
  have "queue_inv {#rid#} (s\<lparr>running := rs\<rparr>)" by (rule queue_inv_take_running [OF assms(1)]) (simp add: assms(2))
  then have q: "queue_inv {#} s1" using preempt_request_inv [THEN ensuresD] 1(1) assms(2) by simp
  moreover have "running s1 = rs" using preempt_request_running [OF 1(1)] assms(2) by simp
  ultimately show ?case using evolves_inv [OF q evolves_put [OF 1(2)]] by simp
qed

lemma reset_preempt_all_inv:
  "queue_inv {#} s \<Longrightarrow> running s = rev xs \<Longrightarrow> ensures (queue_inv {#}) (foldR reset_preempt_step xs s)"
proof (induction xs arbitrary: s)
  case (Cons x xs)
  then show ?case using reset_preempt_inv [of s "rev xs" x, THEN ensuresD] by (auto intro: ens_bind)
qed (simp add: ens_ret)

lemma reset_prefix_cache_sched_inv:
  assumes "sched_inv s"
  shows "ensures (\<lambda>(b, s'). sched_inv s') (sched_reset_prefix_cache env run conn s)"
proof -
  have c: "ensures (\<lambda>(b, s'). queue_inv {#} s') (reset_connector_cache env s1)" if "queue_inv {#} s1" for s1
    unfolding reset_connector_cache_def by (intro ens_intros) (use that in simp_all)
  have p: "ensures (queue_inv {#}) (if run then bindR (foldR reset_preempt_step (rev (running s)) s) (\<lambda>s1. Inr (s1\<lparr>prev_step_scheduled_req_ids := []\<rparr>)) else Inr s)"
    by (intro ens_intros) (use assms reset_preempt_all_inv [of s "rev (running s)", THEN ensuresD] in \<open>auto simp: sched_inv_def\<close>)
  show ?thesis
    unfolding sched_reset_prefix_cache_def sched_inv_def Let_def
    by (rule ens_seq [OF p], intro ens_intros) (auto dest: c [THEN ensuresD, rotated])
qed

section \<open>Reachable schedulers\<close>

inductive sched_step :: "scheduler \<Rightarrow> scheduler \<Rightarrow> bool" where
  step_schedule: "schedule env s = Inr (so, s') \<Longrightarrow> sched_step s s'"
| step_add: "status r \<in> {WAITING, WAITING_FOR_FSM} \<Longrightarrow> sched_add_request env r s = Inr s' \<Longrightarrow> sched_step s s'"
| step_finish: "finish_requests env ids st s = Inr (res, s') \<Longrightarrow> sched_step s s'"
| step_output: "od_wf (so_num_scheduled_tokens so) \<Longrightarrow> \<forall>k \<in> fst ` set (so_num_scheduled_tokens so). result_timely s k \<Longrightarrow>
    update_from_output env so mro s = Inr (outs, s') \<Longrightarrow> sched_step s s'"
| step_draft: "sched_step s (update_draft_token_ids env drafts s)"
| step_reset: "sched_reset_prefix_cache env run conn s = Inr (b, s') \<Longrightarrow> sched_step s s'"
| step_reset_encoder: "sched_step s (reset_encoder_cache s)"
| step_pause: "sched_step s (set_pause_state p s)"

inductive sched_reach :: "scheduler \<Rightarrow> scheduler \<Rightarrow> bool" for s0 where
  reach_init: "sched_reach s0 s0"
| reach_step: "sched_reach s0 s \<Longrightarrow> sched_step s s' \<Longrightarrow> sched_reach s0 s'"

inductive_cases sched_stepE: "sched_step s s'"

lemma sched_step_inv: "sched_step s s' \<Longrightarrow> sched_inv s \<Longrightarrow> sched_inv s'"
proof (induction rule: sched_step.induct)
  case (step_schedule env s so s')
  then show ?case using schedule_inv [THEN ensuresD] by fastforce
next
  case (step_add r env s s')
  then show ?case using sched_add_request_inv [THEN ensuresD, of s r] by (auto simp: is_finished_def)
next
  case (step_finish env ids st s res s')
  then show ?case using finish_requests_inv [THEN ensuresD] by fastforce
next
  case (step_output so s env mro outs s')
  then show ?case using update_from_output_inv [THEN ensuresD] by fastforce
next
  case (step_reset env run conn s b s')
  then show ?case using reset_prefix_cache_sched_inv [THEN ensuresD] by fastforce
next
  case (step_draft s env drafts)
  then show ?case by (rule update_draft_inv)
qed (simp_all add: reset_encoder_cache_def set_pause_state_def sched_inv_def)

lemma sched_reach_inv: "sched_reach s0 s \<Longrightarrow> sched_inv s0 \<Longrightarrow> sched_inv s"
  by (induction rule: sched_reach.induct) (auto intro: sched_step_inv)

lemma new_scheduler_inv: "sched_inv (new_scheduler c km n fin ls)"
  by (simp add: sched_inv_def queue_inv_def store_ok_def new_scheduler_def queued_def live_def)

end
