(* ===== verification/Scheduler_Limits.thy ===== *)
theory Scheduler_Limits
  imports Scheduler_Update_Inv
begin

text \<open>
  A scheduling step respects its limits: the token budget is never overdrawn, every request is
  scheduled at most once and only while it runs, and the running list stays within its bound. So
  the checks at the end of \<^verbatim>\<open>schedule\<close> never fail.
\<close>

section \<open>The tokens of one request\<close>

lemma encoder_loop_tokens:
  "0 \<le> ep_tokens p \<Longrightarrow> ensures (\<lambda>p'. 0 \<le> ep_tokens p' \<and> ep_tokens p' \<le> ep_tokens p) (encoder_inputs_loop c h r nc sh fs p)"
proof (induction fs arbitrary: p)
  case (Cons x fs)
  obtain i f where x: "x = (i, f)" by fastforce
  have IH: "ensures (\<lambda>p'. 0 \<le> ep_tokens p' \<and> ep_tokens p' \<le> ep_tokens p) (encoder_inputs_loop c h r nc sh fs q)" if "ep_tokens q = ep_tokens p" for q
    using Cons.IH [of q] Cons.prems that by simp
  show ?case
    unfolding x encoder_inputs_loop.simps
    by (intro ens_intros IH) (use Cons.prems in simp_all)
qed (simp add: ens_ret)

lemma try_schedule_tokens:
  assumes "0 \<le> n"
  shows "ensures (\<lambda>(ei, n', b', ext, s'). 0 \<le> n' \<and> n' \<le> n \<and> (\<not> has_encoder_inputs r \<longrightarrow> n' = n)) (try_schedule_encoder_inputs env r nc n b s)"
  unfolding try_schedule_encoder_inputs_def
proof (intro ens_intros, goal_cases)
  case (2 p)
  then show ?case using encoder_loop_tokens [THEN ensuresD, OF _ 2(2)] assms by simp
qed (use assms in simp)

lemma mamba_split_tokens:
  assumes "0 \<le> n" "0 < cache_block_size c"
  shows "ensures (\<lambda>n'. 0 \<le> n' \<and> n' \<le> n) (mamba_block_aligned_split c r n nl ne)"
proof -
  have "0 \<le> n div cache_block_size c * cache_block_size c" "n div cache_block_size c * cache_block_size c \<le> n"
    using assms by (simp_all add: pos_imp_zdiv_nonneg_iff add: zmod_le_nonneg_dividend flip: minus_mod_eq_div_mult)
  then show ?thesis
    unfolding mamba_block_aligned_split_def Let_def by (intro ens_intros) (use assms(1) in auto)
qed

lemma aligned_tokens:
  assumes "0 \<le> n" "0 < cache_block_size c" "(if b then mamba_block_aligned_split c r n nl ne else Inr n) = Inr n'"
  shows "0 \<le> n' \<and> n' \<le> n"
  using assms mamba_split_tokens [OF assms(1,2), THEN ensuresD] by (auto split: if_splits)

section \<open>The invariant of the step\<close>

text \<open>\<open>B\<close> is the budget at the beginning of the step. What is scheduled lies before \<open>req_index\<close>.\<close>

definition budget_inv :: "int \<Rightarrow> sched_run \<Rightarrow> bool" where
  "budget_inv B st \<longleftrightarrow> token_budget st + sum_list (map snd (num_scheduled_tokens st)) = B \<and> 0 \<le> token_budget st \<and>
     od_wf (num_scheduled_tokens st) \<and> (\<forall>x \<in> set (num_scheduled_tokens st). 0 < snd x) \<and>
     mset (map fst (num_scheduled_tokens st)) =
       mset (scheduled_new_reqs st) + mset (scheduled_resumed_reqs st) + mset (scheduled_running_reqs st)"

definition index_inv :: "sched_run \<Rightarrow> bool" where
  "index_inv st \<longleftrightarrow> 0 \<le> req_index st \<and> scheduled_new_reqs st = [] \<and> scheduled_resumed_reqs st = [] \<and>
     set (scheduled_running_reqs st) \<subseteq> set (take (nat (req_index st)) (running (sr_sched st))) \<and>
     distinct (running (sr_sched st))"

text \<open>No running request has computed more tokens than it has, or reached the model's length.\<close>

definition progress :: "scheduler \<Rightarrow> req_id \<Rightarrow> bool" where
  "progress s rid \<longleftrightarrow> (\<forall>r. od_get (requests s) rid = Some r \<longrightarrow>
     num_computed_tokens r \<le> num_tokens_with_spec r + num_output_placeholders r \<and> num_computed_tokens r < sc_max_model_len (cfg s))"

lemma od_del_sum:
  fixes d :: "('k, int) odict"
  assumes "od_wf d" "od_get d k = Some n"
  shows "sum_list (map snd (od_del k d)) = sum_list (map snd d) - n" "mset (map fst d) = add_mset k (mset (map fst (od_del k d)))"
proof -
  have "sum_list (map snd (od_del k d)) = sum_list (map snd d) - n \<and> mset (map fst d) = add_mset k (mset (map fst (od_del k d)))"
    using assms
  proof (induction d)
    case (Cons x d)
    obtain k' v where x: "x = (k', v)" by fastforce
    show ?case
    proof (cases "k' = k")
      case True
      then have "k \<notin> set (od_keys d)" using Cons.prems(1) x by (auto simp: od_wf_def)
      then show ?thesis using Cons.prems(2) x True by (simp add: od_del_absent)
    next
      case False
      then show ?thesis using Cons x by (simp add: od_wf_def)
    qed
  qed simp
  then show "sum_list (map snd (od_del k d)) = sum_list (map snd d) - n" "mset (map fst d) = add_mset k (mset (map fst (od_del k d)))"
    by simp_all
qed

lemma od_set_sum:
  fixes d :: "('k, int) odict"
  assumes "k \<notin> set (od_keys d)"
  shows "sum_list (map snd (od_set k n d)) = sum_list (map snd d) + n" "mset (map fst (od_set k n d)) = add_mset k (mset (map fst d))"
  using assms by (simp_all add: od_set_absent)

section \<open>Removing a victim from the running list\<close>

lemma remove1_take:
  assumes "distinct xs" "v \<in> set xs"
  shows "set (take k xs) - {v} \<subseteq> set (take k (remove1 v xs))"
    and "v \<in> set (take k xs) \<Longrightarrow> set (take k xs) - {v} \<subseteq> set (take (k - 1) (remove1 v xs))"
    and "set (drop k (remove1 v xs)) \<subseteq> set (drop k xs)"
    and "v \<in> set (take k xs) \<Longrightarrow> drop (k - 1) (remove1 v xs) = drop k xs"
proof -
  obtain ys zs where xs: "xs = ys @ v # zs" "v \<notin> set ys" using split_list_first [OF assms(2)] by blast
  have r: "remove1 v xs = ys @ zs" using xs by (simp add: remove1_append)
  have z: "v \<notin> set zs" using assms(1) xs by simp
  have k: "v \<in> set (take k xs) \<longleftrightarrow> length ys < k"
    using xs z by (auto simp: take_Cons' dest: in_set_takeD)
  show "set (take k xs) - {v} \<subseteq> set (take k (remove1 v xs))"
    unfolding r unfolding xs(1) using set_take_subset_set_take [of "k - Suc (length ys)" "k - length ys" zs, OF diff_le_mono2 [OF le_SucI [OF order_refl]]]
    by (auto simp: take_Cons' split: if_splits)
  show "v \<in> set (take k xs) \<Longrightarrow> set (take k xs) - {v} \<subseteq> set (take (k - 1) (remove1 v xs))"
    unfolding k r unfolding xs(1) by (auto simp: take_Cons' diff_commute split: if_splits)
  show "set (drop k (remove1 v xs)) \<subseteq> set (drop k xs)"
    unfolding r unfolding xs(1) using set_drop_subset_set_drop [OF diff_le_mono2 [OF le_SucI [OF order_refl]], of k "length ys" zs]
    by (auto simp: drop_Cons' split: if_splits)
  show "v \<in> set (take k xs) \<Longrightarrow> drop (k - 1) (remove1 v xs) = drop k xs"
    unfolding k r unfolding xs(1) by (auto simp: drop_Cons' diff_commute)
qed

lemma last_remove1: "distinct xs \<Longrightarrow> xs \<noteq> [] \<Longrightarrow> remove1 (last xs) xs = butlast xs"
proof (induction xs rule: rev_induct)
  case (snoc x xs)
  then show ?case by (simp add: remove1_append)
qed simp


section \<open>The running requests\<close>

text \<open>The request at \<open>req_index\<close> may move one place to the left when another one is preempted.\<close>

definition turn :: "req_id \<Rightarrow> sched_run \<Rightarrow> bool" where
  "turn rid st \<longleftrightarrow> (let i = nat (req_index st); rs = running (sr_sched st) in
     rid \<in> set (take (i + 1) rs) \<and> rid \<notin> set (scheduled_running_reqs st) \<and>
     (\<forall>k \<in> set (drop (i + 1) rs). progress (sr_sched st) k) \<and>
     (policy (cfg (sr_sched st)) \<noteq> PRIORITY \<longrightarrow> i < length rs \<and> rs ! i = rid))"

lemma unschedule_budget:
  assumes "budget_inv B st" "scheduled_new_reqs st = []" "scheduled_resumed_reqs st = []"
  shows "ensures (\<lambda>st'. budget_inv B st' \<and> token_budget st \<le> token_budget st' \<and> sr_sched st' = sr_sched st \<and>
      scheduled_new_reqs st' = [] \<and> scheduled_resumed_reqs st' = [] \<and>
      scheduled_running_reqs st' = remove1 v (scheduled_running_reqs st) \<and>
      req_index st' = (if v \<in> set (scheduled_running_reqs st) then req_index st - 1 else req_index st)) (unschedule v st)"
  unfolding unschedule_def
proof (intro ens_intros, goal_cases)
  case 1
  then show ?case using assms by (simp add: remove1_idem)
next
  case (2 x n nst y z nb r embeds)
  have g: "od_get (num_scheduled_tokens st) v = Some n" "nst = od_del v (num_scheduled_tokens st)"
    using 2(2,3) by (auto simp: od_pop_def split: option.splits)
  have w: "od_wf (num_scheduled_tokens st)" using assms(1) by (simp add: budget_inv_def)
  have n: "0 < n" using assms(1) g(1) w by (force simp: budget_inv_def od_get_mem [OF w, symmetric])
  have sub: "\<forall>x \<in> set nst. 0 < snd x" using assms(1) g(2) by (auto simp: budget_inv_def od_del_def)
  have "mset (scheduled_running_reqs st) = add_mset v (mset (map fst nst))"
    using od_del_sum(2) [OF w g(1)] assms g(2) by (simp add: budget_inv_def)
  then have "mset (map fst nst) = mset (remove1 v (scheduled_running_reqs st))" by simp
  then show ?case
    using od_del_sum(1) [OF w g(1)] assms w n sub g(2) 2(1) by (simp add: budget_inv_def)
qed

lemma budget_inv_sched [simp]: "budget_inv B (st\<lparr>sr_sched := s\<rparr>) = budget_inv B st" "budget_inv B (st\<lparr>preempted_reqs := ps\<rparr>) = budget_inv B st"
  by (simp_all add: budget_inv_def)

lemma progress_upd [simp]:
  "progress (s\<lparr>running := rs\<rparr>) = progress s" "progress (s\<lparr>waiting := q\<rparr>) = progress s" "progress (s\<lparr>kv_cache_manager := km\<rparr>) = progress s"
  "progress (s\<lparr>encoder_cache_manager := em\<rparr>) = progress s"
  by (simp_all add: progress_def fun_eq_iff)

lemma progress_put_other: "rid \<noteq> request_id r \<Longrightarrow> progress (put_req r s) rid = progress s rid"
  by (simp add: progress_def)

lemma preempt_frame:
  assumes "preempt_request v s = Inr s'" "store_ok s"
  shows "running s' = running s \<and> cfg s' = cfg s \<and> (\<forall>k. k \<noteq> v \<longrightarrow> progress s' k = progress s k)"
proof -
  obtain r km em where r: "get_req v s = Inr r"
      "s' = (put_req (r\<lparr>status := PREEMPTED, num_computed_tokens := 0, spec_token_ids := [], num_preemptions := num_preemptions r + 1\<rparr>)
               (s\<lparr>kv_cache_manager := km, encoder_cache_manager := em\<rparr>))
              \<lparr>waiting := prepend_request (req_before (put_req (r\<lparr>status := PREEMPTED, num_computed_tokens := 0, spec_token_ids := [],
                 num_preemptions := num_preemptions r + 1\<rparr>) (s\<lparr>kv_cache_manager := km, encoder_cache_manager := em\<rparr>))) v (waiting s)\<rparr>"
    using assms(1) by (auto simp: preempt_request_def Let_def bindR_eq_Inr)
  have "request_id r = v" using get_req_id [OF assms(2) r(1)] .
  then show ?thesis unfolding r(2) by (simp add: progress_put_other)
qed


text \<open>The state after a victim has gone: \<open>rid\<close> is still to be allocated, or is itself the victim.\<close>

lemma victim_inv:
  assumes "budget_inv B st" "index_inv st" "turn rid st" "store_ok (sr_sched st)"
  shows "ensures (\<lambda>(v, st'). budget_inv B st' \<and> token_budget st \<le> token_budget st' \<and> index_inv st' \<and> (v \<noteq> rid \<longrightarrow> turn rid st') \<and>
      cfg (sr_sched st') = cfg (sr_sched st) \<and> length (running (sr_sched st')) \<le> length (running (sr_sched st))) (preempt_victim st)"
proof (rule ensuresI, clarify)
  fix v st'
  assume e: "preempt_victim st = Inr (v, st')"
  let ?s = "sr_sched st" and ?i = "nat (req_index st)"
  let ?rs = "running ?s"
  have i: "0 \<le> req_index st" "scheduled_new_reqs st = []" "scheduled_resumed_reqs st = []" "distinct ?rs"
    "set (scheduled_running_reqs st) \<subseteq> set (take ?i ?rs)" using assms(2) by (simp_all add: index_inv_def)
  define st0 where "st0 = st\<lparr>sr_sched := ?s\<lparr>running := remove1 v ?rs\<rparr>\<rparr>"
  have "\<exists>st1. v \<in> set ?rs \<and> (policy (cfg ?s) \<noteq> PRIORITY \<longrightarrow> v = last ?rs \<and> v \<notin> set (scheduled_running_reqs st)) \<and> unschedule v st0 = Inr st1 \<and> bindR (preempt_request v (sr_sched st1)) (\<lambda>s2. Inr (v, st1\<lparr>sr_sched := s2, preempted_reqs := preempted_reqs st1 @ [v]\<rparr>)) = Inr (v, st')"
  proof (cases "policy (cfg ?s) = PRIORITY")
    case True
    then show ?thesis using e first_max_mem by (fastforce simp: preempt_victim_def Let_def bindR_eq_Inr st0_def)
  next
    case False
    then have l: "?rs \<noteq> []" "v = last ?rs" using e by (auto simp: preempt_victim_def Let_def bindR_eq_Inr split: if_splits)
    have "v \<notin> set (take ?i ?rs)"
    proof
      assume "v \<in> set (take ?i ?rs)"
      then obtain j where "j < ?i" "j < length ?rs" "?rs ! j = v" by (auto simp: in_set_conv_nth)
      moreover have "?i < length ?rs" using assms(3) False by (simp add: turn_def Let_def)
      ultimately show False using l i(4) by (auto simp: last_conv_nth nth_eq_iff_index_eq)
    qed
    then have n: "v \<notin> set (scheduled_running_reqs st)" using i(5) by blast
    then have "unschedule v st0 = Inr st0" by (simp add: unschedule_def st0_def)
    then show ?thesis
      using e False l n last_remove1 [OF i(4) l(1)] by (auto simp: preempt_victim_def Let_def bindR_eq_Inr st0_def)
  qed
  then obtain st1 s2 where m: "v \<in> set ?rs" "unschedule v st0 = Inr st1" "preempt_request v (sr_sched st1) = Inr s2"
    "st' = st1\<lparr>sr_sched := s2, preempted_reqs := preempted_reqs st1 @ [v]\<rparr>"
    and fcfs: "policy (cfg ?s) \<noteq> PRIORITY \<longrightarrow> v = last ?rs \<and> v \<notin> set (scheduled_running_reqs st)" by (auto simp: bindR_eq_Inr)
  have u: "budget_inv B st1" "token_budget st \<le> token_budget st1" "sr_sched st1 = ?s\<lparr>running := remove1 v ?rs\<rparr>"
    "scheduled_new_reqs st1 = []" "scheduled_resumed_reqs st1 = []" "scheduled_running_reqs st1 = remove1 v (scheduled_running_reqs st)"
    "req_index st1 = (if v \<in> set (scheduled_running_reqs st) then req_index st - 1 else req_index st)"
    using unschedule_budget [of B st0 v, THEN ensuresD, OF _ _ _ m(2)] assms(1) i(2,3) by (simp_all add: st0_def)
  have p: "running s2 = remove1 v ?rs" "cfg s2 = cfg ?s" "\<forall>k. k \<noteq> v \<longrightarrow> progress s2 k = progress ?s k"
    using preempt_frame [OF m(3)] assms(4) u(3) by simp_all
  have d: "distinct (scheduled_running_reqs st)"
    using assms(1) i(2,3) mset_eq_imp_distinct_iff [of "map fst (num_scheduled_tokens st)" "scheduled_running_reqs st"]
    by (simp add: budget_inv_def od_wf_def)
  let ?sch = "scheduled_running_reqs st" and ?j = "nat (req_index st')"
  have st': "running (sr_sched st') = remove1 v ?rs" "scheduled_running_reqs st' = remove1 v ?sch"
    "req_index st' = (if v \<in> set ?sch then req_index st - 1 else req_index st)" "cfg (sr_sched st') = cfg ?s"
    "\<forall>k. k \<noteq> v \<longrightarrow> progress (sr_sched st') k = progress ?s k" "scheduled_new_reqs st' = []" "scheduled_resumed_reqs st' = []"
    using m(4) u p by simp_all
  note t = remove1_take [OF i(4) m(1)]
  have in_take: "v \<in> set (take ?i ?rs)" "?i \<noteq> 0" "?j = ?i - 1" if "v \<in> set ?sch"
  proof -
    show v: "v \<in> set (take ?i ?rs)" using that i(5) by blast
    then show "?i \<noteq> 0" by (cases ?i) auto
    then show "?j = ?i - 1" using that st'(3) by simp
  qed
  have ix: "index_inv st'"
  proof -
    have "set (remove1 v ?sch) \<subseteq> set (take ?j (remove1 v ?rs))"
      using t(1) [of ?i] t(2) [of ?i] in_take i(5) d st'(3) by (cases "v \<in> set ?sch") auto
    moreover have "0 \<le> req_index st'" using in_take(2) st'(3) i(1) by (cases "v \<in> set ?sch") auto
    ultimately show ?thesis using st' i(4) by (simp add: index_inv_def)
  qed
  have tn: "turn rid st'" if ne: "v \<noteq> rid"
  proof -
    have r: "rid \<in> set (take (?i + 1) ?rs)" "rid \<notin> set ?sch" "\<forall>k \<in> set (drop (?i + 1) ?rs). progress ?s k"
      "policy (cfg ?s) \<noteq> PRIORITY \<Longrightarrow> ?i < length ?rs \<and> ?rs ! ?i = rid" using assms(3) by (simp_all add: turn_def Let_def)
    have a: "rid \<in> set (take (?j + 1) (remove1 v ?rs)) \<and> (\<forall>k \<in> set (drop (?j + 1) (remove1 v ?rs)). progress ?s k)"
    proof (cases "v \<in> set ?sch")
      case True
      have "v \<in> set (take (?i + 1) ?rs)" using in_take(1) [OF True] set_take_subset_set_take [of ?i "?i + 1" ?rs] by auto
      then show ?thesis using t(2) [of "?i + 1"] t(4) [of "?i + 1"] r(1,3) ne in_take(2,3) [OF True] by auto
    next
      case False
      then show ?thesis using t(1) [of "?i + 1"] t(3) [of "?i + 1"] r(1,3) ne st'(3) by auto
    qed
    have b: "policy (cfg ?s) \<noteq> PRIORITY \<longrightarrow> ?j < length (remove1 v ?rs) \<and> remove1 v ?rs ! ?j = rid"
    proof
      assume f: "policy (cfg ?s) \<noteq> PRIORITY"
      have "?rs \<noteq> []" using m(1) by auto
      then have v: "v = last ?rs" "?j = ?i" "remove1 v ?rs = butlast ?rs"
        using fcfs f st'(3) last_remove1 [OF i(4)] by auto
      have k: "?i < length ?rs" "?rs ! ?i = rid" using r(4) [OF f] by simp_all
      have "?i \<noteq> length ?rs - 1" using k v(1) ne last_conv_nth [OF \<open>?rs \<noteq> []\<close>] by auto
      then show "?j < length (remove1 v ?rs) \<and> remove1 v ?rs ! ?j = rid" using k v(2,3) by (simp add: nth_butlast)
    qed
    have "progress (sr_sched st') k" if "k \<in> set (drop (?j + 1) (remove1 v ?rs))" for k
    proof -
      have "k \<noteq> v" using that i(4) by (auto dest: in_set_dropD)
      then show ?thesis using a st'(5) that by simp
    qed
    then show ?thesis using a b r(2) st' by (simp add: turn_def Let_def notin_set_remove1)
  qed
  show "budget_inv B st' \<and> token_budget st \<le> token_budget st' \<and> index_inv st' \<and> (v \<noteq> rid \<longrightarrow> turn rid st') \<and>
      cfg (sr_sched st') = cfg ?s \<and> length (running (sr_sched st')) \<le> length ?rs"
    using u(1,2) m(4) ix tn st'(1,4) by (simp add: length_remove1)
qed


lemma progress_put_memo:
  assumes "get_req rid s = Inr r" "memo_only r r'" "store_ok s"
  shows "progress (put_req r' s) k = progress s k"
proof -
  obtain m where m: "r' = r\<lparr>embeds_block_hashes := m\<rparr>" using assms(2) by (auto simp: memo_only_def)
  show ?thesis
    using get_req_id [OF assms(3,1)] get_reqD [OF assms(1)] by (simp add: m progress_def num_tokens_with_spec_def)
qed

lemma slots_limits:
  assumes "budget_inv B st" "index_inv st" "turn rid st" "store_ok (sr_sched st)"
    and "get_req k (sr_sched st) = Inr r" "allocate_slots env r a b c d e f g km = Inr (nb, km', r')"
    and "st1 = st\<lparr>sr_sched := put_req r' ((sr_sched st)\<lparr>kv_cache_manager := km'\<rparr>)\<rparr>"
  shows "budget_inv B st1" "index_inv st1" "turn rid st1"
proof -
  have m: "memo_only r r'" using allocate_slots_memo [THEN ensuresD, OF assms(6)] by simp
  show "budget_inv B st1" using assms(1,7) by simp
  show "index_inv st1" using assms(2,7) by (simp add: index_inv_def)
  show "turn rid st1" using assms(3,7) progress_put_memo [OF assms(5) m assms(4)] by (simp add: turn_def Let_def)
qed

lemma alloc_loop_limits:
  assumes "budget_inv B st" "index_inv st" "turn rid st" "queue_inv {#} (sr_sched st)"
  shows "ensures (\<lambda>(nb, st'). budget_inv B st' \<and> token_budget st \<le> token_budget st' \<and> index_inv st' \<and> (nb \<noteq> None \<longrightarrow> turn rid st') \<and>
      cfg (sr_sched st') = cfg (sr_sched st) \<and> length (running (sr_sched st')) \<le> length (running (sr_sched st))) (alloc_loop env rid n st)"
  using assms
proof (induction env rid n st rule: alloc_loop.induct)
  case (1 env rid n st)
  note ih = 1(1) and prems = 1(2-5)
  note o = queue_inv_storeD [OF prems(4)]
  show ?case
  proof (subst alloc_loop.simps, intro ens_intros, goal_cases)
    case (1 r x nb z km r' st1 w v st2)
    have s: "budget_inv B st1" "index_inv st1" "turn rid st1" using slots_limits [OF prems(1-3) o 1(1)] 1(2-5) by simp_all
    have "store_ok (sr_sched st1)" using evolves_store [OF o slots_evolve [of rid _ r]] 1 by simp
    then show ?case using victim_inv [OF s, THEN ensuresD] 1 by fastforce
  next
    case (2 r x nb z km r' st1 w v st2)
    have s: "budget_inv B st1" "index_inv st1" "turn rid st1" using slots_limits [OF prems(1-3) o 2(1)] 2(2-5) by simp_all
    have q: "queue_inv {#} (sr_sched st1)" using evolves_inv [OF prems(4) slots_evolve [of rid _ r]] 2 by simp
    have f: "token_budget st1 = token_budget st" "cfg (sr_sched st1) = cfg (sr_sched st)" "running (sr_sched st1) = running (sr_sched st)"
      using 2(5) by simp_all
    have v: "budget_inv B st2 \<and> token_budget st1 \<le> token_budget st2 \<and> index_inv st2 \<and> turn rid st2 \<and>
        cfg (sr_sched st2) = cfg (sr_sched st1) \<and> length (running (sr_sched st2)) \<le> length (running (sr_sched st1))"
      using victim_inv [OF s queue_inv_storeD [OF q], THEN ensuresD] 2 by fastforce
    have "queue_inv {#} (sr_sched st2)" using preempt_victim_inv [OF q, THEN ensuresD] 2(7,8) by fastforce
    then have "ensures (\<lambda>(nb, st'). budget_inv B st' \<and> token_budget st2 \<le> token_budget st' \<and> index_inv st' \<and> (nb \<noteq> None \<longrightarrow> turn rid st') \<and>
      cfg (sr_sched st') = cfg (sr_sched st2) \<and> length (running (sr_sched st')) \<le> length (running (sr_sched st2))) (alloc_loop env rid n st2)"
      using ih [OF 2(1,2) 2(3,4) [symmetric] 2(5-7) 2(8) [symmetric] 2(9)] v by simp
    then show ?case by (rule ensures_mono) (use v f in auto)
  next
    case (3 r x nb z km r' st1)
    then show ?case using slots_limits [OF prems(1-3) o 3(1)] by auto
  qed
qed


definition tail_progress :: "sched_run \<Rightarrow> bool" where
  "tail_progress st \<longleftrightarrow> (\<forall>k \<in> set (drop (nat (req_index st)) (running (sr_sched st))). progress (sr_sched st) k)"

text \<open>The limits while the running requests are scheduled.\<close>

definition limits :: "int \<Rightarrow> sched_run \<Rightarrow> sched_run \<Rightarrow> bool" where
  "limits B st0 st \<longleftrightarrow> budget_inv B st \<and> index_inv st \<and> cfg (sr_sched st) = cfg (sr_sched st0) \<and>
     length (running (sr_sched st)) \<le> length (running (sr_sched st0))"

lemma commit_running_limits:
  assumes "budget_inv B st" "index_inv st" "turn rid st" "store_ok (sr_sched st)" "0 < n" "n \<le> token_budget st"
    and "commit_running rid n nb ei eb ext st = Inr st'"
  shows "limits B st st'" "tail_progress st'"
proof -
  obtain r where g: "get_req rid (sr_sched st) = Inr r" using assms(7) by (auto simp: commit_running_def bindR_eq_Inr)
  define r' where "r' = (if spec_token_ids r \<noteq> [] then r\<lparr>spec_token_ids := []\<rparr> else r)"
  note run = assms(7) [unfolded commit_running_def Let_def g bindR_Inr, folded r'_def]
  obtain s1 where a: "allocate_encoder_inputs r' (ei @ ext) (put_req r' (sr_sched st)) = Inr s1" using run by (auto simp: bindR_eq_Inr)
  obtain em where em: "s1 = (put_req r' (sr_sched st))\<lparr>encoder_cache_manager := em\<rparr>"
    using a by (auto simp: allocate_encoder_inputs_def bindR_eq_Inr)
  have c: "get_req rid (sr_sched st) = Inr r" "request_id r' = request_id r"
      "sr_sched st' = (put_req r' (sr_sched st))\<lparr>encoder_cache_manager := em\<rparr>"
      "scheduled_running_reqs st' = scheduled_running_reqs st @ [rid]" "num_scheduled_tokens st' = od_set rid n (num_scheduled_tokens st)"
      "token_budget st' = token_budget st - n" "req_index st' = req_index st + 1"
      "scheduled_new_reqs st' = scheduled_new_reqs st" "scheduled_resumed_reqs st' = scheduled_resumed_reqs st"
    using run a em g by (auto simp: r'_def)
  have id: "request_id r' = rid" using get_req_id [OF assms(4) c(1)] c(2) by simp
  let ?i = "nat (req_index st)" and ?rs = "running (sr_sched st)"
  have i: "0 \<le> req_index st" "scheduled_new_reqs st = []" "scheduled_resumed_reqs st = []" "distinct ?rs"
    "set (scheduled_running_reqs st) \<subseteq> set (take ?i ?rs)" using assms(2) by (simp_all add: index_inv_def)
  have t: "rid \<in> set (take (?i + 1) ?rs)" "rid \<notin> set (scheduled_running_reqs st)" "\<forall>k \<in> set (drop (?i + 1) ?rs). progress (sr_sched st) k"
    using assms(3) by (simp_all add: turn_def Let_def)
  have keys: "mset (od_keys (num_scheduled_tokens st)) = mset (scheduled_running_reqs st)" using assms(1) i by (simp add: budget_inv_def)
  then have new: "rid \<notin> set (od_keys (num_scheduled_tokens st))" using t(2) by (metis set_mset_mset)
  have j: "nat (req_index st') = ?i + 1" using c(7) i(1) by simp
  have w: "od_wf (num_scheduled_tokens st')" using assms(1) c(5) by (simp add: budget_inv_def)
  have nn: "\<forall>x \<in> set (num_scheduled_tokens st'). 0 < snd x"
    using assms(1,5) c(5) od_set_absent [OF new, of n] by (auto simp: budget_inv_def)
  have "budget_inv B st'"
    using assms(1,6) c i od_set_sum [OF new] w nn unfolding budget_inv_def by simp
  moreover have "index_inv st'"
    using c i t(1) j set_take_subset_set_take [of ?i "?i + 1" ?rs] by (auto simp: index_inv_def)
  ultimately show "limits B st st'" using c(3) by (simp add: limits_def)
  have "progress (sr_sched st') k" if "k \<in> set (drop (?i + 1) ?rs)" for k
  proof -
    have "k \<noteq> rid" using that t(1) i(4) set_take_disj_set_drop_if_distinct [of ?rs "?i + 1" "?i + 1"] by auto
    then show ?thesis using t(3) that c(3) id progress_put_other by simp
  qed
  then show "tail_progress st'" using c(3) j by (simp add: tail_progress_def)
qed

lemma running_tokens:
  assumes "progress s rid" "get_req rid s = Inr r" "0 < b"
  shows "0 \<le> running_num_new_tokens (cfg s) r b \<and> running_num_new_tokens (cfg s) r b \<le> b"
  using assms get_reqD [OF assms(2)] by (auto simp: progress_def running_num_new_tokens_def Let_def)

lemma running_step_limits:
  assumes "budget_inv B st" "index_inv st" "tail_progress st" "queue_inv {#} (sr_sched st)" "0 < cache_block_size (cfg (sr_sched st))"
    and "req_index st < int (length (running (sr_sched st)))" "0 < token_budget st"
  shows "ensures (\<lambda>(go, st'). limits B st st' \<and> (go \<longrightarrow> tail_progress st')) (running_step env st)"
proof -
  let ?s = "sr_sched st" and ?i = "nat (req_index st)"
  let ?rs = "running ?s"
  have ix: "0 \<le> req_index st" "?i < length ?rs" using assms(2,6) by (simp_all add: index_inv_def nat_less_iff)
  have dr: "drop ?i ?rs = ?rs ! ?i # drop (?i + 1) ?rs" using ix(2) by (simp add: Cons_nth_drop_Suc)
  have skip: "limits B st (st\<lparr>sr_sched := s1, req_index := req_index st + 1\<rparr>) \<and> tail_progress (st\<lparr>sr_sched := s1, req_index := req_index st + 1\<rparr>)"
    if "s1 = ?s\<lparr>encoder_cache_manager := em\<rparr>" for s1 em
  proof -
    have "nat (req_index st + 1) = ?i + 1" using ix(1) by simp
    then show ?thesis
      using assms(1-3) that dr set_take_subset_set_take [of ?i "?i + 1" ?rs]
      by (auto simp: limits_def tail_progress_def index_inv_def budget_inv_def)
  qed
  have t0: "turn (?rs ! ?i) (st\<lparr>sr_sched := s1\<rparr>)" if "s1 = ?s\<lparr>encoder_cache_manager := em\<rparr>" for s1 em
  proof -
    have "?rs ! ?i \<notin> set (take ?i ?rs)" using assms(2) distinct_take [of ?rs "?i + 1"] take_Suc_conv_app_nth [OF ix(2)] by (simp add: index_inv_def)
    then show ?thesis
      using assms(2,3) that ix(2) dr by (auto simp: turn_def Let_def index_inv_def tail_progress_def take_Suc_conv_app_nth)
  qed
  have al: "ensures (\<lambda>(nb, st'). budget_inv B st' \<and> token_budget st \<le> token_budget st' \<and> index_inv st' \<and> (nb \<noteq> None \<longrightarrow> turn (?rs ! ?i) st') \<and>
      cfg (sr_sched st') = cfg ?s \<and> length (running (sr_sched st')) \<le> length ?rs) (alloc_loop env (?rs ! ?i) n (st\<lparr>sr_sched := s1\<rparr>)) \<and> queue_inv {#} s1"
    if "s1 = ?s\<lparr>encoder_cache_manager := em\<rparr>" for s1 em n
    using alloc_loop_limits [of B "st\<lparr>sr_sched := s1\<rparr>" "?rs ! ?i" env n] assms(1,2,4) t0 [OF that] that by (simp add: index_inv_def)
  have rid: "py_get ?rs (req_index st) = Inr (?rs ! ?i)" using py_get_nth [OF ix(2)] ix(1) by simp
  have tok: "0 \<le> n \<and> n \<le> token_budget st"
    if "get_req (?rs ! ?i) ?s = Inr r"
      "try_schedule_encoder_inputs env r (num_computed_tokens r) (running_num_new_tokens (cfg ?s) r (token_budget st)) (encoder_compute_budget st) ?s = Inr (ei, n1, eb, ext, s1)"
      "(if need_mamba_block_aligned_split (cfg ?s) then mamba_block_aligned_split (cfg ?s) r n1 0 0 else Inr n1) = Inr n" for r ei n1 eb ext s1 n
  proof -
    have "progress ?s (?rs ! ?i)" using assms(3) dr by (simp add: tail_progress_def)
    note b = running_tokens [OF this that(1) assms(7)]
    then have "0 \<le> n1 \<and> n1 \<le> token_budget st" using try_schedule_tokens [THEN ensuresD, OF _ that(2)] by fastforce
    then show ?thesis using aligned_tokens [OF _ assms(5) that(3)] by linarith
  qed
  show ?thesis
    unfolding running_step_def Let_def rid bindR_Inr
  proof (intro ens_intros, goal_cases)
    case (1 r)
    then show ?case using skip [of ?s "encoder_cache_manager ?s"] by simp
  next
    case (2 r x ei y n1 z eb w ext s1 n)
    then obtain em where "s1 = ?s\<lparr>encoder_cache_manager := em\<rparr>" using try_schedule_frame by blast
    then show ?case using skip by simp
  next
    case (3 r x ei y n1 z eb w ext s1 n v nb st1)
    then obtain em where "s1 = ?s\<lparr>encoder_cache_manager := em\<rparr>" using try_schedule_frame by blast
    then show ?case using al [THEN conjunct1, THEN ensuresD] 3(9-11) by (fastforce simp: limits_def)
  next
    case (4 r x ei y n1 z eb w ext s1 n v nb st1 b st2)
    then obtain em where "s1 = ?s\<lparr>encoder_cache_manager := em\<rparr>" using try_schedule_frame by blast
    note al1 = al [OF this]
    have e: "alloc_loop env (?rs ! ?i) n (st\<lparr>sr_sched := s1\<rparr>) = Inr (Some b, st1)" using 4 by simp
    have a: "budget_inv B st1" "token_budget st \<le> token_budget st1" "index_inv st1" "turn (?rs ! ?i) st1" "cfg (sr_sched st1) = cfg ?s"
      "length (running (sr_sched st1)) \<le> length ?rs"
      using al1 [THEN conjunct1, THEN ensuresD, OF e] by simp_all
    have "queue_inv {#} (sr_sched st1)" using alloc_loop_inv [THEN ensuresD, OF _ e] al1 by simp
    note st = commit_running_limits [OF a(1,3,4) queue_inv_storeD [OF this] _ _ 4(13)]
    show ?case using st tok [of r ei n1 eb ext s1 n] 4 a by (auto simp: limits_def)
  qed
qed


lemma limits_trans: "limits B st0 st1 \<Longrightarrow> limits B st1 st2 \<Longrightarrow> limits B st0 st2"
  by (simp add: limits_def)

lemma running_loop_limits:
  assumes "budget_inv B st" "index_inv st" "tail_progress st" "queue_inv {#} (sr_sched st)" "queue_elems (step_skipped_waiting st) = {#}"
    "0 < cache_block_size (cfg (sr_sched st))"
  shows "ensures (limits B st) (running_loop env st)"
  using assms
proof (induction env st rule: running_loop.induct)
  case (1 env st)
  note ih = 1(1) and prems = 1(2-7)
  show ?case
  proof (subst running_loop.simps, intro ens_intros, goal_cases)
    case (1 x go st1)
    have l: "limits B st st1" "tail_progress st1"
      using running_step_limits [OF prems(1-4,6), THEN ensuresD, of env "(go, st1)"] 1 by simp_all
    have q: "queue_inv {#} (sr_sched st1)" "queue_elems (step_skipped_waiting st1) = {#}"
      using running_step_inv [OF prems(4,5), THEN ensuresD, of env "(go, st1)"] 1 by simp_all
    have "ensures (limits B st1) (running_loop env st1)"
      by (rule ih [OF 1(1,2) 1(3) [symmetric] 1(4)]) (use l q prems(6) in \<open>simp_all add: limits_def\<close>)
    then show ?case by (rule ensures_mono) (rule limits_trans [OF l(1)])
  next
    case (2 x go st1)
    then show ?case using running_step_limits [OF prems(1-4,6), THEN ensuresD, of env "(go, st1)"] by simp
  next
    case 3
    then show ?case using prems by (simp add: limits_def)
  qed
qed

section \<open>The waiting requests\<close>

lemma waiting_tokens_bounds:
  assumes "0 < b" "0 < cache_block_size (cfg s)"
  shows "ensures (\<lambda>(plan, s'). \<forall>ei n eb ext. plan = Some (ei, n, eb, ext) \<longrightarrow> (\<not> ci_async ci \<longrightarrow> 0 < n) \<and> 0 \<le> n \<and> n \<le> b) (waiting_tokens env rid ci b enc s)"
proof -
  have w: "ensures (\<lambda>(plan, s'). \<forall>ei n eb ext. plan = Some (ei, n, eb, ext) \<longrightarrow> (\<not> ci_async ci \<longrightarrow> 0 < n) \<and> 0 \<le> n \<and> n \<le> b) (waiting_num_new_tokens env r ci b enc s)" for r
    unfolding waiting_num_new_tokens_def Let_def
    by (intro ens_intros) (use assms(1) in \<open>auto simp: assertR_eq_Inr dest!: try_schedule_tokens [THEN ensuresD, rotated]\<close>)
  show ?thesis
    unfolding waiting_tokens_def
  proof (intro ens_intros, goal_cases)
    case (2 r x plan s2 y ei y1 n3 y2 eb ext n4)
    have "(\<not> ci_async ci \<longrightarrow> 0 < n3) \<and> 0 \<le> n3 \<and> n3 \<le> b" using w [THEN ensuresD, OF 2(2)] 2(3-7) by simp
    then show ?case using mamba_split_tokens [OF _ assms(2), THEN ensuresD, OF _ 2(9)] by auto
  qed (use w [THEN ensuresD] in fastforce)+
qed

definition waiting_inv :: "int \<Rightarrow> sched_config \<Rightarrow> sched_run \<Rightarrow> bool" where
  "waiting_inv B c st \<longleftrightarrow> cfg (sr_sched st) = c \<and> run_inv st \<and> budget_inv B st \<and> fst ` set (num_scheduled_tokens st) \<subseteq> set (running (sr_sched st)) \<and>
     int (length (running (sr_sched st))) \<le> max_num_running_reqs c"

text \<open>Only the admission of a request changes what is scheduled.\<close>

definition same_plan :: "sched_run \<Rightarrow> sched_run \<Rightarrow> bool" where
  "same_plan st st' \<longleftrightarrow> token_budget st' = token_budget st \<and> num_scheduled_tokens st' = num_scheduled_tokens st \<and>
     scheduled_new_reqs st' = scheduled_new_reqs st \<and> scheduled_resumed_reqs st' = scheduled_resumed_reqs st \<and>
     scheduled_running_reqs st' = scheduled_running_reqs st \<and>
     running (sr_sched st') = running (sr_sched st) \<and> cfg (sr_sched st') = cfg (sr_sched st)"

lemma same_plan_inv: "waiting_inv B c st \<Longrightarrow> same_plan st st' \<Longrightarrow> run_inv st' \<Longrightarrow> waiting_inv B c st'"
  by (simp add: waiting_inv_def same_plan_def budget_inv_def)

lemma same_plan_evolves: "run_inv st \<Longrightarrow> evolves (sr_sched st) s' \<Longrightarrow> same_plan st (st\<lparr>sr_sched := s'\<rparr>)"
  using evolves_queues [OF run_inv_sched [of st], of s'] by (simp add: same_plan_def same_queues_def)

lemma skip_waiting_plan: "ensures (same_plan st) (skip_waiting q rid st)"
  unfolding skip_waiting_def by (intro ens_intros) (auto simp: same_plan_def set_queue_def split: queue_name.split)

lemma same_plan_trans: "same_plan st st1 \<Longrightarrow> same_plan st1 st2 \<Longrightarrow> same_plan st st2"
  by (simp add: same_plan_def)

lemma admit_waiting_limits:
  assumes "waiting_inv B c st" "\<not> ci_async ci \<longrightarrow> 0 < n" "n \<le> token_budget st" "peek_request (queue_of q (sr_sched st)) = Inr rid"
    and "int (length (running (sr_sched st))) \<noteq> max_num_running_reqs (cfg (sr_sched st))"
  shows "ensures (waiting_inv B c) (admit_waiting q rid ci ei n eb ext st)"
proof -
  have ri: "run_inv st" and b: "budget_inv B st" and sub: "fst ` set (num_scheduled_tokens st) \<subseteq> set (running (sr_sched st))"
    and len: "int (length (running (sr_sched st))) \<le> max_num_running_reqs c" and c: "cfg (sr_sched st) = c"
    using assms(1) by (simp_all add: waiting_inv_def)
  have "ensures (\<lambda>st'. cfg (sr_sched st') = c \<and> budget_inv B st' \<and> fst ` set (num_scheduled_tokens st') \<subseteq> set (running (sr_sched st')) \<and>
     int (length (running (sr_sched st'))) \<le> max_num_running_reqs c) (admit_waiting q rid ci ei n eb ext st)"
    unfolding admit_waiting_def
  proof (intro ens_intros, goal_cases)
    case (1 s0 r0 s1 x rid' q' s2 r s3)
    have "running s3 = running (sr_sched st)" "cfg s3 = cfg (sr_sched st)"
      using 1 by (auto simp: set_queue_def put_req_def split: queue_name.splits if_splits)
    then show ?case using b sub len c by (simp add: budget_inv_def)
  next
    case (2 s0 r0 s1 x rid' q' s2 r st1 r' s3)
    have s1: "evolves (sr_sched st) s1" "queue_of q s1 = queue_of q (sr_sched st)" "running s1 = running (sr_sched st)" "cfg s1 = cfg (sr_sched st)"
      using 2 by (auto simp: queue_of_def split: queue_name.splits if_splits)
    have p: "pop_request (req_before s1) (queue_of q s1) = Inr (rid', q')" using 2 by simp
    have rid: "rid' = rid" using pop_request_elems [OF p] assms(4) s1(2) by simp
    have s2: "running s2 = running (sr_sched st)" "cfg s2 = cfg (sr_sched st)" using 2(6) s1 by (auto simp: set_queue_def split: queue_name.split)
    obtain em where s3: "s3 = (put_req r' (s2\<lparr>running := running s2 @ [rid']\<rparr>))\<lparr>encoder_cache_manager := em\<rparr>"
      using 2(11) by (auto simp: allocate_encoder_inputs_def bindR_eq_Inr)
    have "queue_inv (queue_elems (step_skipped_waiting st)) s1" using ri s1(1) by (auto simp: run_inv_def intro: evolves_inv)
    then have "rid \<notin> set (running s2)"
      using queue_inv_outside(1) [OF queue_inv_take_waiting(1) [OF _ p]] 2(6) rid by (simp add: queued_def)
    then have new: "rid \<notin> set (od_keys (num_scheduled_tokens st))" using sub s2(1) by auto
    have st1: "num_scheduled_tokens st1 = num_scheduled_tokens st" "token_budget st1 = token_budget st"
      "scheduled_running_reqs st1 = scheduled_running_reqs st"
      "mset (scheduled_new_reqs st1) + mset (scheduled_resumed_reqs st1) = add_mset rid (mset (scheduled_new_reqs st) + mset (scheduled_resumed_reqs st))"
      using 2(9) rid by (auto split: if_splits)
    have w: "od_wf (od_set rid n (num_scheduled_tokens st))" using b by (simp add: budget_inv_def)
    have nn: "\<forall>x \<in> set (od_set rid n (num_scheduled_tokens st)). 0 < snd x"
      using b assms(2) 2(8) od_set_absent [OF new, of n] by (auto simp: budget_inv_def)
    show ?case
      using b c assms(3,5) len sub st1 w nn od_set_sum [OF new] od_set_absent [OF new, of n] s2 s3 rid unfolding budget_inv_def by auto
  qed
  from ens_conj [OF admit_waiting_inv [OF ri] this] show ?thesis by (rule ensures_mono) (simp add: waiting_inv_def)
qed


lemma skip_evolved_plan:
  assumes "run_inv st" "evolves (sr_sched st) s'" "skip_waiting q rid (st\<lparr>sr_sched := s'\<rparr>) = Inr st'"
  shows "same_plan st st'"
  using same_plan_trans [OF same_plan_evolves [OF assms(1,2)] skip_waiting_plan [THEN ensuresD, OF assms(3)]] .

lemma waiting_step_limits:
  assumes "waiting_inv B c st" "0 < token_budget st" "0 < cache_block_size c"
  shows "ensures (\<lambda>(go, st'). waiting_inv B c st') (waiting_step env st)"
proof -
  have ri: "run_inv st" using assms(1) by (simp add: waiting_inv_def)
  have skip: "waiting_inv B c st'"
    if "evolves (sr_sched st) s'" "peek_request (queue_of q (sr_sched st)) = Inr rid" "skip_waiting q rid (st\<lparr>sr_sched := s'\<rparr>) = Inr st'" for q rid s' st'
    by (rule same_plan_inv [OF assms(1) skip_evolved_plan [OF ri that(1,3)] skip_waiting_evolved [OF ri that(2,1,3)]])
  have stay: "waiting_inv B c (st\<lparr>sr_sched := s'\<rparr>)" if "evolves (sr_sched st) s'" for s'
    by (rule same_plan_inv [OF assms(1) same_plan_evolves [OF ri that] run_inv_evolves [OF ri that]])
  note e1 = promoted_evolves
    and e2 = waiting_computed_evolves [THEN ensuresD, of env _ _ "(_, _)", unfolded prod.case]
    and e3 = waiting_tokens_evolves [THEN ensuresD, of env _ _ _ _ _ "(_, _)", unfolded prod.case]
  show ?thesis
    unfolding waiting_step_def Let_def
  proof (intro ens_intros, goal_cases)
    case (2 sel q rid r0 x ready s1 st2)
    then have "evolves (sr_sched st) s1" using e1 by simp
    then show ?case using skip [of s1 q rid st2] 2 by simp
  next
    case (3 sel q rid r0 x ready s1 r st2)
    then have "evolves (sr_sched st) s1" using e1 by simp
    then show ?case using skip [of s1 q rid st2] 3 by simp
  next
    case (4 sel q rid r0 x ready s1 r y info s2 st3)
    then have "evolves (sr_sched st) s2" using evolves_trans [OF e1 e2] by simp
    then show ?case using skip [of s2 q rid st3] 4 by simp
  next
    case (5 sel q rid r0 x ready s1 r y info s2 ci z plan s3)
    then have "evolves (sr_sched st) s3" using evolves_trans [OF evolves_trans [OF e1 e2] e3] by simp
    then show ?case using stay by simp
  next
    case (6 sel q rid r0 x ready s1 r y info s2 ci z plan s3 pl ei p1 n p2 eb ext r3 embeds w nb p3 km r4 em)
    then have "evolves (sr_sched st) s3" using evolves_trans [OF evolves_trans [OF e1 e2] e3] by simp
    then have "evolves (sr_sched st) (put_req r4 (s3\<lparr>kv_cache_manager := km\<rparr>))"
      using evolves_trans [OF _ slots_evolve [of rid s3 r3]] 6 by simp
    then show ?case using stay [of "(put_req r4 (s3\<lparr>kv_cache_manager := km\<rparr>))\<lparr>encoder_cache_manager := em\<rparr>"] by simp
  next
    case (7 sel q rid r0 x ready s1 r y info s2 ci z plan s3 pl ei p1 n p2 eb ext r3 embeds w nb p3 km r4 b st5)
    then have s2: "evolves (sr_sched st) s2" using evolves_trans [OF e1 e2] by simp
    have "evolves (sr_sched st) s3" using 7 evolves_trans [OF s2 e3] by simp
    then have e: "evolves (sr_sched st) (put_req r4 (s3\<lparr>kv_cache_manager := km\<rparr>))"
      using evolves_trans [OF _ slots_evolve [of rid s3 r3]] 7 by simp
    have q: "same_queues (sr_sched st) (put_req r4 (s3\<lparr>kv_cache_manager := km\<rparr>))" using evolves_queues [OF run_inv_sched [OF ri] e] .
    have "0 < cache_block_size (cfg s2)" using assms(1,3) evolves_queues [OF run_inv_sched [OF ri] s2] waiting_inv_def by (simp add: same_queues_def)
    then have n: "(\<not> ci_async ci \<longrightarrow> 0 < n) \<and> n \<le> token_budget st" using waiting_tokens_bounds [OF assms(2), THEN ensuresD, of s2] 7 by fastforce
    let ?st = "st\<lparr>sr_sched := put_req r4 (s3\<lparr>kv_cache_manager := km\<rparr>)\<rparr>"
    have "ensures (waiting_inv B c) (admit_waiting q rid ci ei n eb ext ?st)"
      by (rule admit_waiting_limits [OF stay [OF e]])
        (use n q 7 in \<open>simp_all add: same_queues_def queue_of_def split: queue_name.splits\<close>)
    then show ?case using 7 by (simp add: ensures_def)
  qed (use assms in simp)
qed


lemma waiting_loop_limits:
  assumes "waiting_inv B c st" "0 < cache_block_size c"
  shows "ensures (waiting_inv B c) (waiting_loop env st)"
  using assms
proof (induction env st rule: waiting_loop.induct)
  case (1 env st)
  note ih = 1(1) and prems = 1(2,3)
  show ?case
  proof (subst waiting_loop.simps, intro ens_intros, goal_cases)
    case (1 x go st1)
    then have "waiting_inv B c st1" using waiting_step_limits [OF prems(1) _ prems(2), THEN ensuresD, of env "(go, st1)"] by simp
    then show ?case using ih [OF 1(1,2) 1(3) [symmetric] 1(4)] prems(2) by simp
  next
    case (2 x go st1)
    then show ?case using waiting_step_limits [OF prems(1) _ prems(2), THEN ensuresD, of env "(go, st1)"] by simp
  qed (use prems in simp)
qed

text \<open>What holds of the whole step.\<close>

definition within_limits :: "int \<Rightarrow> sched_config \<Rightarrow> sched_run \<Rightarrow> bool" where
  "within_limits B c st \<longleftrightarrow> budget_inv B st \<and> fst ` set (num_scheduled_tokens st) \<subseteq> set (running (sr_sched st)) \<and>
     int (length (running (sr_sched st))) \<le> max_num_running_reqs c \<and> cfg (sr_sched st) = c"

lemma schedule_waiting_limits:
  assumes "within_limits B c st" "queue_inv {#} (sr_sched st)" "queue_elems (step_skipped_waiting st) = {#}" "0 < cache_block_size c"
  shows "ensures (within_limits B c) (schedule_waiting env st)"
  unfolding schedule_waiting_def
proof (intro ens_intros, goal_cases)
  case (1 st1)
  have "waiting_inv B c st" using assms(1-3) by (simp add: waiting_inv_def within_limits_def run_inv_def)
  then have "waiting_inv B c st1" using waiting_loop_limits [OF _ assms(4), THEN ensuresD] 1(2) by blast
  then show ?case by (simp add: waiting_inv_def within_limits_def)
qed (use assms(1) in simp)

lemma within_limits_checks:
  assumes "within_limits B c st" "B \<le> max_num_scheduled_tokens c"
  shows "constraints_hold st"
proof -
  have b: "budget_inv B st" "fst ` set (num_scheduled_tokens st) \<subseteq> set (running (sr_sched st))" "cfg (sr_sched st) = c"
    "int (length (running (sr_sched st))) \<le> max_num_running_reqs c" using assms(1) by (simp_all add: within_limits_def)
  have "length (scheduled_new_reqs st) + length (scheduled_resumed_reqs st) + length (scheduled_running_reqs st) = length (num_scheduled_tokens st)"
  proof -
    have "size (mset (od_keys (num_scheduled_tokens st))) = size (mset (scheduled_new_reqs st) + mset (scheduled_resumed_reqs st) + mset (scheduled_running_reqs st))"
      using b(1) by (simp add: budget_inv_def)
    then show ?thesis by simp
  qed
  also have "\<dots> = card (fst ` set (num_scheduled_tokens st))" using b(1) distinct_card by (fastforce simp: budget_inv_def od_wf_def)
  also have "\<dots> \<le> length (running (sr_sched st))" using card_mono [OF _ b(2)] card_length [of "running (sr_sched st)"] by simp
  finally show ?thesis using b assms(2) by (simp add: constraints_hold_def budget_inv_def)
qed

lemma schedule_requests_limits:
  assumes "sched_inv s" "\<forall>rid \<in> set (running s). progress s rid" "0 < cache_block_size (cfg s)"
    and "0 \<le> max_num_scheduled_tokens (cfg s)" "int (length (running s)) \<le> max_num_running_reqs (cfg s)"
  shows "ensures (within_limits (token_budget (start_run s)) (cfg s)) (schedule_requests env s)"
  unfolding schedule_requests_def
proof (intro ens_intros, goal_cases)
  case (1 st1 st2)
  let ?st = "start_run s"
  have q: "queue_inv {#} (sr_sched ?st)" "queue_elems (step_skipped_waiting ?st) = {#}"
    using assms(1) by (simp_all add: sched_inv_def start_run_def)
  have b: "budget_inv (token_budget ?st) ?st" using assms(4) by (simp add: budget_inv_def start_run_def)
  have i: "index_inv ?st" using queue_inv_distinct [OF q(1)] by (simp add: index_inv_def start_run_def)
  have t: "tail_progress ?st" using assms(2) by (simp add: tail_progress_def start_run_def)
  have c: "cfg (sr_sched ?st) = cfg s" "running (sr_sched ?st) = running s" by (simp_all add: start_run_def)
  have l: "limits (token_budget ?st) ?st st1" using running_loop_limits [OF b i t q, of env] assms(3) c 1(1) by (simp add: ensures_def)
  have q1: "queue_inv {#} (sr_sched st1)" "queue_elems (step_skipped_waiting st1) = {#}"
    using running_loop_inv [OF q, THEN ensuresD, OF 1(1)] by simp_all
  have "mset (od_keys (num_scheduled_tokens st1)) = mset (scheduled_running_reqs st1)"
    using l by (simp add: limits_def index_inv_def budget_inv_def)
  then have "fst ` set (num_scheduled_tokens st1) = set (scheduled_running_reqs st1)" by (metis set_map set_mset_mset)
  then have "fst ` set (num_scheduled_tokens st1) \<subseteq> set (running (sr_sched st1))"
    using l by (auto simp: limits_def index_inv_def dest: in_set_takeD)
  then have w: "within_limits (token_budget ?st) (cfg s) st1" using l assms(5) c by (simp add: within_limits_def limits_def)
  have "\<exists>ls. st2 = st1\<lparr>scheduled_loras := ls\<rparr>"
    using 1(2) by (auto simp: record_loras_def Let_def bindR_eq_Inr split: option.splits intro: exI [of _ "scheduled_loras st1"])
  then obtain ls where "st2 = st1\<lparr>scheduled_loras := ls\<rparr>" ..
  then show ?case
    using schedule_waiting_limits [of "token_budget ?st" "cfg s" st2 env] w q1 assms(3) by (simp add: within_limits_def budget_inv_def)
qed

end
