(* ===== verification/Scheduler_Order.thy ===== *)
theory Scheduler_Order
  imports Scheduler_Update_Inv
begin

text \<open>
  Under the FCFS policy the running list followed by the waiting queue is the line of arrival: a
  preempted request goes from the end of the one to the front of the other, an admitted one the
  other way.
\<close>

section \<open>Preemption\<close>

definition fcfs :: "scheduler \<Rightarrow> bool" where
  "fcfs s \<longleftrightarrow> policy (cfg s) = FCFS"

text \<open>From \<open>rs\<close> running and \<open>w\<close> waiting, the last requests of \<open>rs\<close> have been preempted.\<close>

definition stepped_back :: "req_id list \<Rightarrow> req_id list \<Rightarrow> sched_run \<Rightarrow> bool" where
  "stepped_back rs w st \<longleftrightarrow> fcfs (sr_sched st) \<and> preempted_reqs st = rev (drop (length (running (sr_sched st))) rs) \<and>
     running (sr_sched st) = take (length (running (sr_sched st))) rs \<and>
     waiting (sr_sched st) = FCFSRequestQueue (drop (length (running (sr_sched st))) rs @ w)"

lemma stepped_back_frame:
  "stepped_back rs w st \<Longrightarrow> same_queues (sr_sched st) (sr_sched st') \<Longrightarrow> preempted_reqs st' = preempted_reqs st \<Longrightarrow> stepped_back rs w st'"
  by (simp add: stepped_back_def same_queues_def fcfs_def)

lemma preempt_request_waiting: "preempt_request rid s = Inr s' \<Longrightarrow> \<exists>lt. waiting s' = prepend_request lt rid (waiting s)"
  by (auto simp: preempt_request_def bindR_eq_Inr Let_def put_req_def)

lemma preempt_victim_back:
  assumes "stepped_back rs w st"
  shows "ensures (\<lambda>(v, st'). stepped_back rs w st') (preempt_victim st)"
proof (rule ensuresI, clarify)
  fix v st'
  assume e: "preempt_victim st = Inr (v, st')"
  let ?s = "sr_sched st" and ?n = "length (running (sr_sched st))"
  have f: "policy (cfg ?s) \<noteq> PRIORITY" "preempted_reqs st = rev (drop ?n rs)" "running ?s = take ?n rs" "waiting ?s = FCFSRequestQueue (drop ?n rs @ w)"
    using assms by (simp_all add: stepped_back_def fcfs_def)
  obtain s2 where m: "running ?s \<noteq> []" "v = last (running ?s)" "preempt_request v (?s\<lparr>running := butlast (running ?s)\<rparr>) = Inr s2"
      "st' = st\<lparr>sr_sched := s2, preempted_reqs := preempted_reqs st @ [v]\<rparr>"
    using e f(1) by (auto simp: preempt_victim_def Let_def bindR_eq_Inr split: if_splits)
  obtain k where n: "?n = Suc k" using m(1) by (cases ?n) auto
  have k: "k < length rs" using f(3) n by (metis Suc_le_lessD length_take min.absorb_iff2 nat_le_linear take_all_iff not_less_eq_eq)
  have l: "running ?s = take k rs @ [rs ! k]" using f(3) n k by (simp add: take_Suc_conv_app_nth)
  have s2: "running s2 = take k rs" "cfg s2 = cfg ?s" using preempt_request_running [OF m(3)] l by simp_all
  have w2: "waiting s2 = FCFSRequestQueue (rs ! k # drop (Suc k) rs @ w)"
    using preempt_request_waiting [OF m(3)] f(4) n m(2) l by auto
  have d: "drop k rs = rs ! k # drop (Suc k) rs" using k by (simp add: Cons_nth_drop_Suc)
  have v: "v = rs ! k" using m(2) l by simp
  show "stepped_back rs w st'"
    using assms m(4) v s2 w2 d k n f(2) by (simp add: stepped_back_def fcfs_def)
qed

lemma slots_same_queues: "same_queues s (put_req r (s\<lparr>kv_cache_manager := km\<rparr>))"
  by simp

lemma alloc_loop_back:
  assumes "stepped_back rs w st"
  shows "ensures (\<lambda>(nb, st'). stepped_back rs w st') (alloc_loop env rid n st)"
proof (rule alloc_loop_invariant [where P = "stepped_back rs w", OF assms])
  fix st r nb km r'
  assume "stepped_back rs w st"
  then show "stepped_back rs w (st\<lparr>sr_sched := put_req r' ((sr_sched st)\<lparr>kv_cache_manager := km\<rparr>)\<rparr>)"
    by (rule stepped_back_frame) simp_all
next
  fix st v st'
  assume "stepped_back rs w st" "preempt_victim st = Inr (v, st')"
  then show "stepped_back rs w st'" using preempt_victim_back [THEN ensuresD, of rs w st "(v, st')"] by simp
qed

lemma running_step_back:
  assumes "stepped_back rs w st"
  shows "ensures (\<lambda>(go, st'). stepped_back rs w st') (running_step env st)"
  unfolding running_step_def Let_def
proof (intro ens_intros, goal_cases)
  case (1 rid r)
  show ?case using stepped_back_frame [OF assms] by simp
next
  case (2 rid r x ei y n1 z eb v ext s1 n)
  then obtain em where "s1 = (sr_sched st)\<lparr>encoder_cache_manager := em\<rparr>" using try_schedule_frame by blast
  then show ?case using stepped_back_frame [OF assms] by simp
next
  case (3 rid r x ei y n1 z eb v ext s1 n u nb st1)
  then obtain em where "s1 = (sr_sched st)\<lparr>encoder_cache_manager := em\<rparr>" using try_schedule_frame by blast
  then have "stepped_back rs w (st\<lparr>sr_sched := s1\<rparr>)" using stepped_back_frame [OF assms] by simp
  then show ?case using alloc_loop_back [THEN ensuresD] 3 by fastforce
next
  case (4 rid r x ei y n1 z eb v ext s1 n u nb st1 b st2)
  then obtain em where "s1 = (sr_sched st)\<lparr>encoder_cache_manager := em\<rparr>" using try_schedule_frame by blast
  then have "stepped_back rs w (st\<lparr>sr_sched := s1\<rparr>)" using stepped_back_frame [OF assms] by simp
  then have "stepped_back rs w st1" using alloc_loop_back [THEN ensuresD] 4 by fastforce
  moreover have "waiting (sr_sched st2) = waiting (sr_sched st1)"
    using 4(14) allocate_encoder_same [THEN ensuresD]
    by (fastforce simp: commit_running_def Let_def bindR_eq_Inr same_queues_def)
  ultimately show ?case using commit_running_frame [OF 4(14)] by (simp add: stepped_back_def fcfs_def)
qed

lemma running_loop_back: "stepped_back rs w st \<Longrightarrow> ensures (stepped_back rs w) (running_loop env st)"
  by (erule running_loop_invariant) (rule running_step_back)

section \<open>Admission\<close>

text \<open>Steps that leave queues and statuses alone.\<close>

definition calm :: "scheduler \<Rightarrow> scheduler \<Rightarrow> bool" where
  "calm s s' \<longleftrightarrow> (store_ok s \<longrightarrow> same_queues s s' \<and> store_ok s' \<and> (\<forall>k. status_of s' k = status_of s k))"

lemma calm_refl [simp]: "calm s s"
  by (simp add: calm_def)

lemma calm_trans: "calm s s' \<Longrightarrow> calm s' s'' \<Longrightarrow> calm s s''"
  by (auto simp: calm_def intro: same_queues_trans)

lemma calm_upd [simp]:
  "calm s (s'\<lparr>kv_cache_manager := km\<rparr>) = calm s s'" "calm s (s'\<lparr>encoder_cache_manager := em\<rparr>) = calm s s'"
  by (simp_all add: calm_def status_of_def store_ok_def)

lemma store_ok_em [simp]: "store_ok (s\<lparr>encoder_cache_manager := em\<rparr>) = store_ok s"
  by (simp add: store_ok_def)

lemma calm_put:
  assumes "get_req rid s = Inr r0" "request_id r = request_id r0" "status r = status r0"
  shows "calm s (put_req r s)"
  using assms get_req_id [OF _ assms(1)] get_reqD [OF assms(1)] by (auto simp: calm_def status_of_def store_ok_put)

lemma waiting_computed_calm:
  assumes "\<not> has_connector (cfg s)"
  shows "ensures (\<lambda>(info, s'). calm s s' \<and> (\<exists>ci. info = Some ci \<and> \<not> ci_async ci)) (waiting_computed env rid s)"
  unfolding waiting_computed_def by (intro ens_intros) (use assms in simp_all)

lemma try_schedule_calm: "ensures (\<lambda>(ei, n', b', ext, s'). calm s s') (try_schedule_encoder_inputs env r nc n b s)"
  unfolding try_schedule_encoder_inputs_def by (intro ens_intros) simp_all

lemma waiting_num_calm: "ensures (\<lambda>(p, s'). calm s s') (waiting_num_new_tokens env r ci b eb s)"
  unfolding waiting_num_new_tokens_def by (intro ens_intros) (use try_schedule_calm [THEN ensuresD] in auto)

lemma waiting_tokens_calm: "ensures (\<lambda>(p, s'). calm s s') (waiting_tokens env rid ci b eb s)"
  unfolding waiting_tokens_def by (intro ens_intros) (use waiting_num_calm [THEN ensuresD] in auto)

lemma slots_calm:
  assumes "get_req rid s = Inr r" "allocate_slots env r a b c d e f g km = Inr (nb, km', r')"
  shows "calm s (put_req r' (s\<lparr>kv_cache_manager := km'\<rparr>))"
  using calm_put [OF assms(1), of r'] allocate_slots_memo [THEN ensuresD, OF assms(2)] by (simp add: memo_only_fields)

text \<open>The line of arrival, when nobody waits for anything but a place.\<close>

definition in_line :: "req_id list \<Rightarrow> sched_run \<Rightarrow> bool" where
  "in_line l st \<longleftrightarrow> (let s = sr_sched st in
     store_ok s \<and> fcfs s \<and> \<not> has_connector (cfg s) \<and> max_loras (cfg s) = None \<and> skipped_waiting s = FCFSRequestQueue [] \<and>
     queue_list (step_skipped_waiting st) = [] \<and> preempted_reqs st = [] \<and>
     (\<exists>w. waiting s = FCFSRequestQueue w \<and> running s @ w = l \<and> (\<forall>k \<in> set w. \<forall>x. status_of s k = Some x \<longrightarrow> \<not> is_blocked_waiting_status x) \<and>
          distinct w))"

lemma in_line_calm: "in_line l st \<Longrightarrow> calm (sr_sched st) s' \<Longrightarrow> in_line l (st\<lparr>sr_sched := s'\<rparr>)"
  by (auto simp: in_line_def calm_def same_queues_def fcfs_def Let_def)

lemma admit_in_line:
  assumes "in_line l st" "\<not> ci_async ci"
  shows "ensures (\<lambda>st'. in_line l st' \<and> length (running (sr_sched st)) \<le> length (running (sr_sched st'))) (admit_waiting Waiting rid ci ei n eb ext st)"
  unfolding admit_waiting_def
proof (intro ens_intros, goal_cases)
  case (1 s0 r0 s1 x rid' q' s2 r s3)
  then show ?case using assms(2) by simp
next
  case (2 s0 r0 s1 x rid' q' s2 r st1 r' s3)
  have c: "\<not> has_connector (cfg (sr_sched st))" using assms(1) by (simp add: in_line_def Let_def)
  then have s1: "s1 = sr_sched st" using 2(1,3) by simp
  obtain w where w: "waiting (sr_sched st) = FCFSRequestQueue (rid' # w)" "q' = FCFSRequestQueue w"
    using 2(4,5) s1 assms(1) by (auto simp: queue_of_def in_line_def Let_def split: list.splits)
  have s2: "s2 = (sr_sched st)\<lparr>waiting := FCFSRequestQueue w\<rparr>" using 2(6) s1 w(2) by (simp add: set_queue_def)
  have o: "store_ok (sr_sched st)" using assms(1) by (simp add: in_line_def Let_def)
  have id: "request_id r' = rid'" using get_req_id [OF _ 2(7)] o s2 2(10) by simp
  obtain em where s3: "s3 = (put_req r' (s2\<lparr>running := running s2 @ [rid']\<rparr>))\<lparr>encoder_cache_manager := em\<rparr>"
    using 2(11) by (auto simp: allocate_encoder_inputs_def bindR_eq_Inr)
  have st1: "preempted_reqs st1 = preempted_reqs st" "step_skipped_waiting st1 = step_skipped_waiting st"
    using 2(9) by (auto split: if_splits)
  have k: "store_ok s3" "running s3 = running (sr_sched st) @ [rid']" "waiting s3 = FCFSRequestQueue w" "cfg s3 = cfg (sr_sched st)"
    "skipped_waiting s3 = skipped_waiting (sr_sched st)" using o unfolding s3 s2 by (simp_all add: store_ok_put)
  have other: "status_of s3 k = status_of (sr_sched st) k" if "k \<noteq> rid'" for k
    using that id unfolding s3 s2 by (simp add: status_of_def put_req_def)
  have "rid' \<notin> set w" using assms(1) w(1) by (simp add: in_line_def Let_def)
  then have "\<forall>k \<in> set w. status_of s3 k = status_of (sr_sched st) k" using other by metis
  then show ?case using assms(1) w(1) st1 k by (auto simp: in_line_def Let_def fcfs_def)
qed


lemma waiting_step_in_line:
  assumes "in_line l st"
  shows "ensures (\<lambda>(go, st'). in_line l st' \<and> length (running (sr_sched st)) \<le> length (running (sr_sched st'))) (waiting_step env st)"
proof -
  let ?s = "sr_sched st"
  obtain w where w: "waiting ?s = FCFSRequestQueue w" "skipped_waiting ?s = FCFSRequestQueue []"
      "\<forall>k \<in> set w. \<forall>x. status_of ?s k = Some x \<longrightarrow> \<not> is_blocked_waiting_status x"
    and c: "policy (cfg ?s) = FCFS" "\<not> has_connector (cfg ?s)" "max_loras (cfg ?s) = None" "store_ok ?s"
    using assms by (auto simp: in_line_def Let_def fcfs_def)
  have sel: "select_waiting_queue_for_scheduling ?s = Inr (if w = [] then None else Some Waiting)"
    by (simp add: select_waiting_queue_for_scheduling_def w(1,2) c(1) queue_bool_def)
  have stay: "in_line l (st\<lparr>sr_sched := s'\<rparr>) \<and> length (running ?s) \<le> length (running s')" if "calm ?s s'" for s'
    using in_line_calm [OF assms that] that c(4) by (simp add: calm_def same_queues_def)
  note e2 = waiting_computed_calm [THEN ensuresD, of _ env _ "(_, _)", unfolded prod.case]
    and e3 = waiting_tokens_calm [THEN ensuresD, of env _ _ _ _ _ "(_, _)", unfolded prod.case]
  show ?thesis
  proof (cases w)
    case Nil
    then show ?thesis unfolding waiting_step_def Let_def sel bindR_Inr by (intro ens_intros) (use stay [of ?s] in simp_all)
  next
    case (Cons rid w')
    have sel': "(if w = [] then None else Some Waiting) = Some Waiting" "peek_request (queue_of Waiting ?s) = Inr rid"
      using Cons w(1) by (simp_all add: queue_of_def)
    have free: "\<not> is_blocked_waiting_status (status r)" if "get_req rid ?s = Inr r" for r
      using w(3) Cons get_reqD [OF that] by (simp add: status_of_def)
    show ?thesis
      unfolding waiting_step_def Let_def sel bindR_Inr sel' option.case
    proof (intro ens_intros, goal_cases)
      case 1
      then show ?case using stay [of ?s] by simp
    next
      case (2 r0 x ready s1 st2)
      then show ?case using free by simp
    next
      case (3 r0 x ready s1 r st2)
      then show ?case using free c(3) by (simp add: exceeds_max_loras_def)
    next
      case (4 r0 x ready s1 r y info s2 st3)
      then show ?case using free e2 c(2) by fastforce
    next
      case (5 r0 x ready s1 r y info s2 ci z plan s3)
      then have "calm ?s s3" using free e2 [of ?s] c(2) calm_trans [OF _ e3] by fastforce
      then show ?case using stay by simp
    next
      case (6 r0 x ready s1 r y info s2 ci z plan s3 pl ei p1 n p2 eb ext r3 embeds v nb p3 km r4 em)
      then have "calm ?s s3" using free e2 [of ?s] c(2) calm_trans [OF _ e3] by fastforce
      then have "calm ?s (put_req r4 (s3\<lparr>kv_cache_manager := km\<rparr>))" using calm_trans [OF _ slots_calm [of rid s3 r3]] 6 by simp
      then show ?case using stay [of "(put_req r4 (s3\<lparr>kv_cache_manager := km\<rparr>))\<lparr>encoder_cache_manager := em\<rparr>"] by simp
    next
      case (7 r0 x ready s1 r y info s2 ci z plan s3 pl ei p1 n p2 eb ext r3 embeds v nb p3 km r4 b st5)
      then have s3: "calm ?s s3" "\<not> ci_async ci" using free e2 [of ?s] c(2) calm_trans [OF _ e3] by fastforce+
      then have k: "calm ?s (put_req r4 (s3\<lparr>kv_cache_manager := km\<rparr>))" using calm_trans [OF _ slots_calm [of rid s3 r3]] 7 by simp
      then have "running (put_req r4 (s3\<lparr>kv_cache_manager := km\<rparr>)) = running ?s" using c(4) by (simp add: calm_def same_queues_def)
      then show ?case using admit_in_line [OF in_line_calm [OF assms k] s3(2), THEN ensuresD] 7 by fastforce
    qed
  qed
qed


lemma waiting_loop_in_line:
  assumes "in_line l st"
  shows "ensures (\<lambda>st'. in_line l st' \<and> length (running (sr_sched st)) \<le> length (running (sr_sched st'))) (waiting_loop env st)"
  using assms
proof (induction env st rule: waiting_loop.induct)
  case (1 env st)
  note ih = 1(1) and prems = 1(2)
  show ?case
  proof (subst waiting_loop.simps, intro ens_intros, goal_cases)
    case (1 x go st1)
    have s: "in_line l st1" "length (running (sr_sched st)) \<le> length (running (sr_sched st1))"
      using waiting_step_in_line [OF prems, THEN ensuresD, of env "(go, st1)"] 1 by simp_all
    from ih [OF 1(1,2) 1(3) [symmetric] 1(4) s(1)] show ?case by (rule ensures_mono) (use s(2) in auto)
  next
    case (2 x go st1)
    then show ?case using waiting_step_in_line [OF prems, THEN ensuresD, of env "(go, st1)"] by simp
  qed (use prems in simp)
qed

text \<open>The waiting requests are all schedulable.\<close>

definition nobody_blocked :: "scheduler \<Rightarrow> bool" where
  "nobody_blocked s \<longleftrightarrow>
     list_all (\<lambda>k. case status_of s k of None \<Rightarrow> True | Some x \<Rightarrow> \<not> is_blocked_waiting_status x) (queue_list (waiting s))"

lemma nobody_blockedD: "nobody_blocked s \<Longrightarrow> k \<in> set (queue_list (waiting s)) \<Longrightarrow> status_of s k = Some x \<Longrightarrow> \<not> is_blocked_waiting_status x"
  by (fastforce simp: nobody_blocked_def list_all_iff)

section \<open>A step\<close>

text \<open>The loop over the running requests blocks nobody: it only preempts.\<close>

definition unblocks :: "scheduler \<Rightarrow> scheduler \<Rightarrow> bool" where
  "unblocks s s' \<longleftrightarrow> (store_ok s \<longrightarrow> store_ok s' \<and> cfg s' = cfg s \<and> skipped_waiting s' = skipped_waiting s \<and>
     (\<forall>k x. status_of s' k = Some x \<longrightarrow> is_blocked_waiting_status x \<longrightarrow> status_of s k = Some x))"

lemma unblocks_refl [simp]: "unblocks s s"
  by (simp add: unblocks_def)

lemma unblocks_trans: "unblocks s s' \<Longrightarrow> unblocks s' s'' \<Longrightarrow> unblocks s s''"
  by (simp add: unblocks_def)

lemma unblocks_upd [simp]:
  "unblocks s (s'\<lparr>kv_cache_manager := km\<rparr>) = unblocks s s'" "unblocks s (s'\<lparr>encoder_cache_manager := em\<rparr>) = unblocks s s'"
  "unblocks s (s'\<lparr>waiting := w\<rparr>) = unblocks s s'" "unblocks s (s'\<lparr>running := rs\<rparr>) = unblocks s s'"
  by (simp_all add: unblocks_def status_of_def store_ok_def)

lemma calm_unblocks: "calm s s' \<Longrightarrow> unblocks s s'"
  by (simp add: unblocks_def calm_def same_queues_def)

lemma preempt_request_unblocks: "ensures (unblocks s) (preempt_request rid s)"
  unfolding preempt_request_def
proof (intro ens_intros, goal_cases)
  case (1 r x km em s')
  have "status_of s' k = (if k = rid then Some PREEMPTED else status_of s k)" if "store_ok s" for k
    using 1(5) get_req_id [OF that 1(1)] by (simp add: status_of_def put_req_def)
  moreover have "store_ok s'" "cfg s' = cfg s" "skipped_waiting s' = skipped_waiting s" if "store_ok s"
    using that 1(5) by (simp_all add: store_ok_put)
  ultimately have "unblocks s s'" by (simp add: unblocks_def is_blocked_waiting_status_def)
  then show ?case by simp
qed

lemma preempt_victim_unblocks: "ensures (\<lambda>(v, st'). unblocks (sr_sched st) (sr_sched st')) (preempt_victim st)"
proof (rule ensuresI, clarify)
  fix v st'
  assume "preempt_victim st = Inr (v, st')"
  then obtain rs s2 where m: "preempt_request v ((sr_sched st)\<lparr>running := rs\<rparr>) = Inr s2" "sr_sched st' = s2"
    by (rule preempt_victim_cases)
  have "unblocks (sr_sched st) ((sr_sched st)\<lparr>running := rs\<rparr>)" by simp
  then show "unblocks (sr_sched st) (sr_sched st')"
    using unblocks_trans preempt_request_unblocks [THEN ensuresD, OF m(1)] m(2) by blast
qed

lemma alloc_loop_unblocks: "ensures (\<lambda>(nb, st'). unblocks (sr_sched st) (sr_sched st')) (alloc_loop env rid n st)"
proof (rule alloc_loop_invariant)
  fix st1 r nb km r'
  assume a: "unblocks (sr_sched st) (sr_sched st1)" "get_req rid (sr_sched st1) = Inr r"
    "allocate_slots (se_hash env) r n 0 None (num_lookahead_tokens (cfg (sr_sched st1))) 0 False 0 (kv_cache_manager (sr_sched st1)) = Inr (nb, km, r')"
  show "unblocks (sr_sched st) (sr_sched (st1\<lparr>sr_sched := put_req r' ((sr_sched st1)\<lparr>kv_cache_manager := km\<rparr>)\<rparr>))"
    using unblocks_trans [OF a(1) calm_unblocks [OF slots_calm [OF a(2,3)]]] by simp
next
  fix st1 v st'
  assume "unblocks (sr_sched st) (sr_sched st1)" "preempt_victim st1 = Inr (v, st')"
  then show "unblocks (sr_sched st) (sr_sched st')"
    using unblocks_trans preempt_victim_unblocks [THEN ensuresD, of st1 "(v, st')"] by simp
qed simp

lemma allocate_encoder_calm: "ensures (calm s) (allocate_encoder_inputs r ids s)"
  unfolding allocate_encoder_inputs_def by (intro ens_intros) simp

lemma commit_running_unblocks: "ensures (\<lambda>st'. unblocks (sr_sched st) (sr_sched st')) (commit_running rid n nb ei eb ext st)"
  unfolding commit_running_def
proof (intro ens_intros, goal_cases)
  case (1 r k spec spec' r' s)
  have "calm (sr_sched st) (put_req r' (sr_sched st))" by (rule calm_put [OF 1(1)]) (use 1 in simp_all)
  then show ?case using calm_trans allocate_encoder_calm [THEN ensuresD, OF 1(6)] by (auto intro: calm_unblocks)
qed

lemma running_step_unblocks: "ensures (\<lambda>(go, st'). unblocks (sr_sched st) (sr_sched st')) (running_step env st)"
proof -
  note t = try_schedule_calm [THEN ensuresD, of _ _ _ _ _ _ "(_, _, _, _, _)", unfolded prod.case, THEN calm_unblocks]
    and a = alloc_loop_unblocks [THEN ensuresD, of _ _ _ _ "(_, _)", unfolded prod.case]
  show ?thesis
    unfolding running_step_def Let_def
  proof (intro ens_intros, goal_cases)
    case (2 rid r x ei y n1 z eb v ext s1 n)
    then show ?case using t by simp
  next
    case (3 rid r x ei y n1 z eb v ext s1 n u nb st1)
    then have "unblocks (sr_sched st) s1" "unblocks s1 (sr_sched st1)" using t a [of env rid n "st\<lparr>sr_sched := s1\<rparr>"] by simp_all
    then show ?case using unblocks_trans by simp
  next
    case (4 rid r x ei y n1 z eb v ext s1 n u nb st1 b st2)
    then have "unblocks (sr_sched st) s1" "unblocks s1 (sr_sched st1)" "unblocks (sr_sched st1) (sr_sched st2)"
      using t a [of env rid n "st\<lparr>sr_sched := s1\<rparr>"] commit_running_unblocks [THEN ensuresD] by simp_all
    then show ?case using unblocks_trans by (metis prod.case)
  qed simp
qed

lemma running_loop_unblocks:
  fixes st :: sched_run
  shows "ensures (\<lambda>st'. unblocks (sr_sched st) (sr_sched st')) (running_loop env st)"
proof (rule running_loop_invariant)
  fix st1 :: sched_run
  assume "unblocks (sr_sched st) (sr_sched st1)"
  then show "ensures (\<lambda>(go, st'). unblocks (sr_sched st) (sr_sched st')) (running_step env st1)"
    by (intro ensures_mono [OF running_step_unblocks]) (auto intro: unblocks_trans)
qed simp

lemma record_loras_sched: "record_loras st = Inr st' \<Longrightarrow> sr_sched st' = sr_sched st \<and> preempted_reqs st' = preempted_reqs st \<and>
    step_skipped_waiting st' = step_skipped_waiting st"
  by (auto simp: record_loras_def Let_def bindR_eq_Inr split: option.splits)

text \<open>Making the output and advancing the scheduled requests leaves the queues alone.\<close>

definition output_of :: "sched_run \<Rightarrow> scheduler_output \<Rightarrow> bool" where
  "output_of st so \<longleftrightarrow> so_num_scheduled_tokens so = num_scheduled_tokens st \<and> so_preempted_req_ids so = remdups (preempted_reqs st) \<and>
     so_total_num_scheduled_tokens so = sum_list (map snd (num_scheduled_tokens st)) \<and> constraints_hold st"

lemma common_prefix_same: "ensures (\<lambda>(ns, s'). same_queues s s') (common_prefix_blocks s)"
  unfolding common_prefix_blocks_def by (cases "running s") (auto intro!: ens_intros)

lemma make_output_same: "ensures (\<lambda>(so, s'). output_of st so \<and> same_queues (sr_sched st) s') (make_scheduler_output st)"
  unfolding make_scheduler_output_def Let_def
proof (intro ens_intros, goal_cases)
  case (1 x p ncommon s1 nrd crd q zero km)
  then show ?case using common_prefix_same [of "sr_sched st", THEN ensuresD, of "(ncommon, s1)"] by (simp add: output_of_def same_queues_def)
qed

lemma free_encoder_inputs_same: "ensures (same_queues s) (free_encoder_inputs rid s)"
  unfolding free_encoder_inputs_def by (intro ens_intros) simp

definition advanced :: "sched_run \<Rightarrow> scheduler_output \<times> scheduler \<Rightarrow> bool" where
  "advanced st x \<longleftrightarrow> output_of st (fst x) \<and> same_queues (sr_sched st) (snd x)"

lemma advance_step_same:
  assumes "advanced st x"
  shows "ensures (advanced st) (advance_step y x)"
proof (cases x, cases y)
  fix so s rid n
  assume x: "x = (so, s)" "y = (rid, n)"
  show ?thesis
    unfolding x advance_step_def prod.case Let_def
  proof (intro ens_intros, goal_cases)
    case (1 r s'')
    let ?s = "put_req (r\<lparr>num_computed_tokens := num_computed_tokens r + n,
                is_prefill_chunk := num_computed_tokens r + n < num_tokens r + num_output_placeholders r\<rparr>) s"
    have "same_queues ?s s''" using 1(2) free_encoder_inputs_same [THEN ensuresD] by (simp split: if_splits)
    then show ?case using assms x by (simp add: advanced_def output_of_def same_queues_def)
  qed
qed

lemma async_advance_step_same:
  assumes "advanced st x"
  shows "ensures (advanced st) (async_advance_step rid x)"
  using assms unfolding async_advance_step_def Let_def by (intro ens_intros) (auto simp: advanced_def output_of_def same_queues_def)

lemma update_after_same:
  assumes "advanced st (so, s)"
  shows "ensures (advanced st) (update_after_schedule so s)"
  unfolding update_after_schedule_def Let_def
proof (intro ens_intros, goal_cases)
  have f: "ensures (advanced st) (foldR advance_step xs (so, s))" for xs
    by (rule ens_foldR) (use assms in \<open>auto intro: advance_step_same\<close>)
  {
    case (1 x so1 s1)
    have "advanced st (so1, s1\<lparr>finished_req_ids := []\<rparr>)" using f [THEN ensuresD, OF 1(1)] 1(2) by (simp add: advanced_def same_queues_def)
    then show ?case by (rule ens_foldR) (auto intro: async_advance_step_same)
  next
    case (2 x so1 s1)
    then show ?case using f [THEN ensuresD, OF 2(1)] by (simp add: advanced_def same_queues_def)
  }
qed

lemma schedule_outcome:
  assumes "schedule env s = Inr (so, s')"
  obtains st where "schedule_requests env s = Inr st" "output_of st so" "same_queues (sr_sched st) s'"
proof -
  obtain st so1 s1 where m: "schedule_requests env s = Inr st" "make_scheduler_output st = Inr (so1, s1)"
      "update_after_schedule so1 s1 = Inr (so, s')"
    using assms by (auto simp: schedule_def bindR_eq_Inr)
  have "advanced st (so1, s1)" using make_output_same [THEN ensuresD, OF m(2)] by (simp add: advanced_def)
  then have "advanced st (so, s')" using update_after_same [THEN ensuresD] m(3) by blast
  then show ?thesis using that [OF m(1)] by (simp add: advanced_def)
qed

section \<open>The line of arrival\<close>

text \<open>The queued requests in the order in which they arrived.\<close>

definition arrival_line :: "scheduler \<Rightarrow> req_id list" where
  "arrival_line s = running s @ queue_list (waiting s)"

lemma stepped_back_line: "stepped_back rs w st \<Longrightarrow> arrival_line (sr_sched st) = rs @ w"
  by (metis arrival_line_def stepped_back_def queue_list.simps(1) append_assoc append_take_drop_id)

lemma in_line_line: "in_line l st \<Longrightarrow> arrival_line (sr_sched st) = l"
  by (auto simp: in_line_def Let_def arrival_line_def)

lemma start_run_back: "fcfs s \<Longrightarrow> waiting s = FCFSRequestQueue w \<Longrightarrow> stepped_back (running s) w (start_run s)"
  by (simp add: stepped_back_def start_run_def fcfs_def)

lemma schedule_waiting_preempted: "preempted_reqs st \<noteq> [] \<Longrightarrow> schedule_waiting env st = Inr st"
  by (simp add: schedule_waiting_def)

lemma schedule_waiting_in_line:
  assumes "in_line l st"
  shows "ensures (\<lambda>st'. in_line l st' \<and> length (running (sr_sched st)) \<le> length (running (sr_sched st'))) (schedule_waiting env st)"
  unfolding schedule_waiting_def
proof (intro ens_intros, goal_cases)
  case (1 st1)
  then have "in_line l st1 \<and> length (running (sr_sched st)) \<le> length (running (sr_sched st1))"
    using waiting_loop_in_line [OF assms, THEN ensuresD] by blast
  then show ?case by (simp add: in_line_def Let_def queue_bool_def)
qed (use assms in simp)

lemma queue_inv_waiting_distinct:
  assumes "queue_inv X s"
  shows "distinct (queue_list (waiting s))"
proof -
  have "queue_elems (waiting s) + (mset (running s) + queue_elems (skipped_waiting s) + X) = mset_set (live s)"
    using assms by (simp add: queue_inv_def queued_def ac_simps)
  then have "count (queue_elems (waiting s)) k \<le> count (mset_set (live s)) k" for k by (metis count_union le_add1)
  moreover have "count (mset_set (live s)) k \<le> 1" for k by (simp add: count_mset_set')
  ultimately have le: "count (queue_elems (waiting s)) k \<le> 1" for k by (meson le_trans)
  have "count (queue_elems (waiting s)) k = (if k \<in> set (queue_list (waiting s)) then 1 else 0)" for k
  proof (cases "k \<in> set (queue_list (waiting s))")
    case True
    then have "1 \<le> count (queue_elems (waiting s)) k" by (simp only: count_greater_eq_one_iff set_mset_mset)
    then have "count (queue_elems (waiting s)) k = 1" using le by (rule antisym [rotated])
    then show ?thesis using True by (simp only: if_True)
  next
    case False
    then show ?thesis by (simp add: count_mset_0_iff)
  qed
  then show ?thesis by (simp add: distinct_count_atmost_1)
qed

lemma start_in_line:
  assumes "sched_inv s" "fcfs s" "waiting s = FCFSRequestQueue w" "skipped_waiting s = FCFSRequestQueue []"
    and "\<not> has_connector (cfg s)" "max_loras (cfg s) = None" "nobody_blocked s"
    and "running_loop env (start_run s) = Inr st" "preempted_reqs st = []"
  shows "in_line (running s @ w) st"
proof -
  have q: "queue_inv {#} s" using assms(1) by (simp add: sched_inv_def)
  have u: "unblocks s (sr_sched st)"
    using running_loop_unblocks [THEN ensuresD, OF assms(8)] unblocks_trans [of s "sr_sched (start_run s)"] by (simp add: start_run_def)
  have b: "stepped_back (running s) w st"
    using running_loop_back [OF start_run_back [OF assms(2,3)], THEN ensuresD, OF assms(8)] .
  have "take (length (running (sr_sched st))) (running s) = running (sr_sched st)" "drop (length (running (sr_sched st))) (running s) = []"
    using b assms(9) by (simp_all add: stepped_back_def)
  then have r: "running (sr_sched st) = running s" "waiting (sr_sched st) = FCFSRequestQueue w"
    using b by (auto simp: stepped_back_def)
  have "distinct w" using queue_inv_waiting_distinct [OF q] assms(3) by simp
  have "queue_inv {#} (sr_sched (start_run s))" "queue_elems (step_skipped_waiting (start_run s)) = {#}"
    using q by (simp_all add: start_run_def)
  then have e: "queue_list (step_skipped_waiting st) = []" using running_loop_inv [THEN ensuresD, OF _ _ assms(8)] by simp
  have blocked: "status_of s k = Some x" if "status_of (sr_sched st) k = Some x" "is_blocked_waiting_status x" for k x
    using u queue_inv_storeD [OF q] that unfolding unblocks_def by blast
  then have "\<forall>k \<in> set w. \<forall>x. status_of (sr_sched st) k = Some x \<longrightarrow> \<not> is_blocked_waiting_status x"
    using nobody_blockedD [OF assms(7)] unfolding assms(3) queue_list.simps by blast
  moreover have "store_ok (sr_sched st)" "cfg (sr_sched st) = cfg s" "skipped_waiting (sr_sched st) = skipped_waiting s"
    using u queue_inv_storeD [OF q] by (simp_all add: unblocks_def)
  ultimately show ?thesis
    using r e \<open>distinct w\<close> assms(2,4,5,6,9) by (simp add: in_line_def fcfs_def)
qed

lemma skip_waiting_quiet: "ensures (\<lambda>st'. preempted_reqs st' = preempted_reqs st) (skip_waiting q rid st)"
  unfolding skip_waiting_def by (intro ens_intros) auto

lemma admit_waiting_quiet: "ensures (\<lambda>st'. preempted_reqs st' = preempted_reqs st) (admit_waiting q rid ci ei n eb ext st)"
  unfolding admit_waiting_def by (intro ens_intros) (auto split: if_splits)

lemma waiting_step_quiet: "ensures (\<lambda>(go, st'). preempted_reqs st' = preempted_reqs st) (waiting_step env st)"
  unfolding waiting_step_def
  by (intro ens_intros) (auto dest!: skip_waiting_quiet [THEN ensuresD] admit_waiting_quiet [THEN ensuresD])

lemma waiting_loop_invariant:
  fixes st :: sched_run
  assumes "P st" "\<And>st. P st \<Longrightarrow> ensures (\<lambda>(go, st'). P st') (waiting_step env st)"
  shows "ensures P (waiting_loop env st)"
  using assms
proof (induction env st rule: waiting_loop.induct)
  case (1 env st)
  show ?case
    by (subst waiting_loop.simps, intro ens_intros)
      (use 1 1(3) [OF 1(2), THEN ensuresD] in fastforce)+
qed

lemma waiting_loop_quiet:
  fixes st :: sched_run
  shows "ensures (\<lambda>st'. preempted_reqs st' = preempted_reqs st) (waiting_loop env st)"
proof (rule waiting_loop_invariant)
  fix st1 :: sched_run
  assume "preempted_reqs st1 = preempted_reqs st"
  then show "ensures (\<lambda>(go, st'). preempted_reqs st' = preempted_reqs st) (waiting_step env st1)"
    by (intro ensures_mono [OF waiting_step_quiet]) auto
qed simp

lemma schedule_waiting_quiet: "ensures (\<lambda>st'. preempted_reqs st' = preempted_reqs st) (schedule_waiting env st)"
  unfolding schedule_waiting_def by (intro ens_intros) (auto dest: waiting_loop_quiet [THEN ensuresD])

text \<open>What holds of a step, by whether it had to preempt.\<close>

lemma preempted_back:
  assumes "fcfs s" "waiting s = FCFSRequestQueue w" "schedule_requests env s = Inr st" "preempted_reqs st \<noteq> []"
  shows "stepped_back (running s) w st"
proof -
  obtain st1 st2 where m: "running_loop env (start_run s) = Inr st1" "record_loras st1 = Inr st2" "schedule_waiting env st2 = Inr st"
    using assms(3) by (auto simp: schedule_requests_def bindR_eq_Inr)
  have b1: "stepped_back (running s) w st1"
    using running_loop_back [OF start_run_back [OF assms(1,2)], THEN ensuresD, OF m(1)] .
  have b2: "stepped_back (running s) w st2" by (rule stepped_back_frame [OF b1]) (simp_all add: record_loras_sched [OF m(2)])
  show ?thesis
  proof (cases "preempted_reqs st2 = []")
    case True
    then have "preempted_reqs st = []" using schedule_waiting_quiet [THEN ensuresD, OF m(3)] by simp
    then show ?thesis using assms(4) by simp
  next
    case False
    then show ?thesis using schedule_waiting_preempted m b2 by simp
  qed
qed

lemma schedule_keeps_line:
  assumes "sched_inv s" "fcfs s" "waiting s = FCFSRequestQueue w" "skipped_waiting s = FCFSRequestQueue []"
    and "\<not> has_connector (cfg s)" "max_loras (cfg s) = None" "nobody_blocked s" "schedule_requests env s = Inr st"
  shows "arrival_line (sr_sched st) = running s @ w"
proof (cases "preempted_reqs st = []")
  case False
  then show ?thesis using stepped_back_line [OF preempted_back [OF assms(2,3,8)]] by simp
next
  case True
  obtain st1 st2 where m: "running_loop env (start_run s) = Inr st1" "record_loras st1 = Inr st2" "schedule_waiting env st2 = Inr st"
    using assms(8) by (auto simp: schedule_requests_def bindR_eq_Inr)
  have "preempted_reqs st1 = []"
    using schedule_waiting_quiet [THEN ensuresD, OF m(3)] record_loras_sched [OF m(2)] True by simp
  then have "in_line (running s @ w) st1" by (rule start_in_line [OF assms(1-7) m(1)])
  then have "in_line (running s @ w) st2" using record_loras_sched [OF m(2)] by (simp add: in_line_def)
  then have "in_line (running s @ w) st" using schedule_waiting_in_line [THEN ensuresD, OF _ m(3)] by blast
  then show ?thesis by (rule in_line_line)
qed

end
