(* ===== verification/Load_Failure.thy ===== *)
theory Load_Failure
  imports Scheduler_Update_Inv
begin

text \<open>
  Recovery from failed KV loads (\<^verbatim>\<open>_update_requests_with_invalid_blocks\<close>): the requests of a batch
  may share blocks, and each invalid block must be computed again by one of them.
\<close>

section \<open>The scan of one request\<close>

text \<open>The blocks of a request that may hold loaded tokens.\<close>

definition loaded_blocks :: "scheduler \<Rightarrow> request \<Rightarrow> int list" where
  "loaded_blocks s r =
     (let bs = sc_block_size (cfg s);
          n = (if status r = WAITING_FOR_REMOTE_KVS then num_computed_tokens r else num_cached_tokens r)
      in take (nat ((n + bs - 1) div bs)) (hd (km_get_block_ids (request_id r) (kv_cache_manager s))))"

lemma invalid_block_step_simps:
  "is_affected (invalid_block_step I ev bs c ids (i, b) v) \<longleftrightarrow> is_affected v \<or> b \<in> set I"
  "set (marked_invalid_block_ids (invalid_block_step I ev bs c ids (i, b) v)) =
     set (marked_invalid_block_ids v) \<union> ({b} \<inter> set I)"
  "is_marked_here (invalid_block_step I ev bs c ids (i, b) v) \<longleftrightarrow>
     is_marked_here v \<or> b \<in> set I - set (marked_invalid_block_ids v)"
  "scan_request (invalid_block_step I ev bs c ids (i, b) v) =
     (if \<not> is_marked_here v \<and> b \<in> set I - set (marked_invalid_block_ids v)
      then (scan_request v)\<lparr>num_computed_tokens := int i * bs,
             num_external_computed_tokens := num_external_computed_tokens (scan_request v) - (c - int i * bs)\<rparr>
      else scan_request v)"
  by (auto simp: invalid_block_step_def Let_def)

definition scan_blocks :: "int list \<Rightarrow> bool \<Rightarrow> int \<Rightarrow> int \<Rightarrow> int list \<Rightarrow> nat \<Rightarrow> int list \<Rightarrow> invalid_scan \<Rightarrow> invalid_scan" where
  "scan_blocks I ev bs c ids k bids v = fold (invalid_block_step I ev bs c ids) (enumerate k bids) v"

lemma scan_blocks_simps [simp]:
  "scan_blocks I ev bs c ids k [] v = v"
  "scan_blocks I ev bs c ids k (b # bids) v = scan_blocks I ev bs c ids (Suc k) bids (invalid_block_step I ev bs c ids (k, b) v)"
  by (simp_all add: scan_blocks_def)

lemma scan_affected: "is_affected (scan_blocks I ev bs c ids k bids v) \<longleftrightarrow> is_affected v \<or> set bids \<inter> set I \<noteq> {}"
  by (induction bids arbitrary: k v) (auto simp: invalid_block_step_simps)

lemma scan_marked:
  "set (marked_invalid_block_ids (scan_blocks I ev bs c ids k bids v)) = set (marked_invalid_block_ids v) \<union> (set bids \<inter> set I)"
  by (induction bids arbitrary: k v) (auto simp: invalid_block_step_simps)

lemma scan_marked_here:
  "is_marked_here (scan_blocks I ev bs c ids k bids v) \<longleftrightarrow>
     is_marked_here v \<or> \<not> set bids \<inter> set I \<subseteq> set (marked_invalid_block_ids v)"
  by (induction bids arbitrary: k v) (auto simp: invalid_block_step_simps)

lemma scan_request_same:
  "is_marked_here v \<or> set bids \<inter> set I \<subseteq> set (marked_invalid_block_ids v) \<Longrightarrow>
     scan_request (scan_blocks I ev bs c ids k bids v) = scan_request v"
proof (induction bids arbitrary: k v)
  case (Cons b bids)
  let ?v = "invalid_block_step I ev bs c ids (k, b) v"
  have "is_marked_here ?v \<or> set bids \<inter> set I \<subseteq> set (marked_invalid_block_ids ?v)"
    using Cons.prems by (auto simp: invalid_block_step_simps)
  from Cons.IH [OF this, of "Suc k"] show ?case using Cons.prems by (auto simp: invalid_block_step_simps)
qed simp

text \<open>Truncation at block \<open>i\<close>, the first invalid block that no earlier request has marked.\<close>

definition truncated_at :: "int \<Rightarrow> int \<Rightarrow> nat \<Rightarrow> request \<Rightarrow> request" where
  "truncated_at bs c i r = r\<lparr>num_computed_tokens := int i * bs,
     num_external_computed_tokens := num_external_computed_tokens r - (c - int i * bs)\<rparr>"

lemma scan_request_truncated:
  "\<not> is_marked_here v \<Longrightarrow> \<not> set bids \<inter> set I \<subseteq> set (marked_invalid_block_ids v) \<Longrightarrow>
     \<exists>i < length bids. bids ! i \<in> set I - set (marked_invalid_block_ids v) \<and>
       (\<forall>j < i. bids ! j \<notin> set I - set (marked_invalid_block_ids v)) \<and>
       scan_request (scan_blocks I ev bs c ids k bids v) = truncated_at bs c (k + i) (scan_request v)"
proof (induction bids arbitrary: k v)
  case (Cons b bids)
  let ?v = "invalid_block_step I ev bs c ids (k, b) v" and ?new = "set I - set (marked_invalid_block_ids v)"
  show ?case
  proof (cases "b \<in> ?new")
    case True
    then have "scan_request (scan_blocks I ev bs c ids (Suc k) bids ?v) = scan_request ?v"
      by (intro scan_request_same) (simp add: invalid_block_step_simps)
    then have "scan_request (scan_blocks I ev bs c ids k (b # bids) v) = truncated_at bs c (k + 0) (scan_request v)"
      using True Cons.prems(1) by (simp add: invalid_block_step_simps truncated_at_def)
    then show ?thesis using True by (intro exI [of _ 0]) simp
  next
    case False
    then have v: "scan_request ?v = scan_request v" "set (marked_invalid_block_ids ?v) = set (marked_invalid_block_ids v)" "\<not> is_marked_here ?v"
      using Cons.prems(1) by (auto simp: invalid_block_step_simps)
    have "\<not> set bids \<inter> set I \<subseteq> set (marked_invalid_block_ids v)" using False Cons.prems(2) by auto
    from Cons.IH [of ?v "Suc k", unfolded v, OF v(3) this] obtain i where i: "i < length bids" "bids ! i \<in> ?new"
        "\<forall>j < i. bids ! j \<notin> ?new" "scan_request (scan_blocks I ev bs c ids (Suc k) bids ?v) = truncated_at bs c (Suc k + i) (scan_request v)"
      by blast
    have "\<forall>j < Suc i. (b # bids) ! j \<notin> ?new" using i(3) False by (auto simp: less_Suc_eq_0_disj)
    then show ?thesis using i by (intro exI [of _ "Suc i"]) simp
  qed
qed simp

section \<open>One request after the other\<close>

definition recovered :: "int list \<Rightarrow> int list \<Rightarrow> scheduler \<Rightarrow> request \<Rightarrow> request \<Rightarrow> bool" where
  "recovered I M s r r' \<longleftrightarrow>
     (let bs = sc_block_size (cfg s); B = loaded_blocks s r;
          c = (if status r = WAITING_FOR_REMOTE_KVS then num_computed_tokens r else num_cached_tokens r) in
      if set B \<inter> set I = {} then r' = r
      else if set B \<inter> set I \<subseteq> set M then r' = r\<lparr>num_computed_tokens := num_cached_tokens r\<rparr>
      else \<exists>i < length B. B ! i \<in> set I - set M \<and> (\<forall>j < i. B ! j \<notin> set I - set M) \<and> r' = truncated_at bs c i r)"

lemma recovered_id: "recovered I M s r r' \<Longrightarrow> request_id r' = request_id r"
  by (auto simp: recovered_def Let_def truncated_at_def split: if_splits)

lemma invalid_request_step_spec:
  assumes "od_get (requests s) rid = Some r" "request_id r = rid" "km_get_block_ids rid (kv_cache_manager s) = [ids]"
  shows "\<exists>tot' M' ev' r'. invalid_request_step I ev rid (aff, tot, M, e, s) =
      Inr (if set (loaded_blocks s r) \<inter> set I \<noteq> {} then set_add rid aff else aff, tot', M', ev', put_req r' s) \<and>
      set M' = set M \<union> (set (loaded_blocks s r) \<inter> set I) \<and> recovered I M s r r'"
proof -
  let ?bs = "sc_block_size (cfg s)" and ?B = "loaded_blocks s r"
  let ?c = "if status r = WAITING_FOR_REMOTE_KVS then num_computed_tokens r else num_cached_tokens r"
  let ?start = "\<lparr>is_marked_here = False, is_affected = False, marked_invalid_block_ids = M, total_affected_tokens = tot,
    blocks_to_evict = e, scan_request = r\<rparr>"
  let ?v = "scan_blocks I ev ?bs ?c ids 0 ?B ?start"
  let ?r = "if is_affected ?v \<and> \<not> is_marked_here ?v then (scan_request ?v)\<lparr>num_computed_tokens := num_cached_tokens (scan_request ?v)\<rparr>
    else scan_request ?v"
  have B: "take (nat ((?c + ?bs - 1) div ?bs)) ids = ?B" by (simp add: loaded_blocks_def assms(2,3) Let_def)
  have "recovered I M s r ?r"
  proof (cases "set ?B \<inter> set I \<subseteq> set M")
    case True
    then show ?thesis by (simp add: recovered_def Let_def scan_affected scan_marked_here scan_request_same)
  next
    case False
    then obtain i where "i < length ?B" "?B ! i \<in> set I - set M" "\<forall>j < i. ?B ! j \<notin> set I - set M"
        "scan_request ?v = truncated_at ?bs ?c i r"
      using scan_request_truncated [of ?start ?B I ev ?bs ?c ids 0] by auto
    moreover have "is_marked_here ?v" "set ?B \<inter> set I \<noteq> {}" using False by (auto simp: scan_marked_here)
    ultimately show ?thesis using False unfolding recovered_def Let_def by auto
  qed
  moreover have "invalid_request_step I ev rid (aff, tot, M, e, s) =
      Inr (if is_affected ?v then set_add rid aff else aff,
           if is_affected ?v \<and> \<not> is_marked_here ?v
           then total_affected_tokens ?v + (num_computed_tokens (scan_request ?v) - num_cached_tokens (scan_request ?v))
           else total_affected_tokens ?v,
           marked_invalid_block_ids ?v, blocks_to_evict ?v, put_req ?r s)"
    unfolding invalid_request_step_def prod.case get_req_def assms(1) option.case bindR_Inr assms(3) list.case Let_def B scan_blocks_def ..
  moreover have a: "is_affected ?v \<longleftrightarrow> set ?B \<inter> set I \<noteq> {}" by (simp add: scan_affected)
  moreover have "set (marked_invalid_block_ids ?v) = set M \<union> (set ?B \<inter> set I)" by (simp add: scan_marked)
  ultimately show ?thesis unfolding a by blast
qed

text \<open>Block \<open>b\<close> will be computed again by request \<open>q\<close>.\<close>

definition recomputed_by :: "scheduler \<Rightarrow> scheduler \<Rightarrow> int \<Rightarrow> req_id \<Rightarrow> bool" where
  "recomputed_by s s' b q \<longleftrightarrow> (\<exists>r r' j. od_get (requests s) q = Some r \<and> od_get (requests s') q = Some r' \<and>
     j < length (loaded_blocks s r) \<and> loaded_blocks s r ! j = b \<and> num_computed_tokens r' \<le> int j * sc_block_size (cfg s))"

definition hit :: "int list \<Rightarrow> scheduler \<Rightarrow> req_id \<Rightarrow> int set" where
  "hit I s rid = (case od_get (requests s) rid of None \<Rightarrow> {} | Some r \<Rightarrow> set (loaded_blocks s r) \<inter> set I)"

definition repaired :: "int list \<Rightarrow> scheduler \<Rightarrow> req_id set \<Rightarrow> req_id list \<times> int \<times> int list \<times> int list \<times> scheduler \<Rightarrow> bool" where
  "repaired I s done acc \<longleftrightarrow> (case acc of (aff, _, M, _, s1) \<Rightarrow>
     store_ok s1 \<and> kv_cache_manager s1 = kv_cache_manager s \<and> cfg s1 = cfg s \<and>
     (\<forall>rid. rid \<notin> set aff \<longrightarrow> od_get (requests s1) rid = od_get (requests s) rid) \<and>
     set aff = {rid \<in> done. hit I s rid \<noteq> {}} \<and> (\<forall>rid \<in> done. hit I s rid \<subseteq> set M) \<and>
     (\<forall>b \<in> set M. \<exists>q \<in> done. recomputed_by s s1 b q))"

lemma recovered_blocks:
  assumes "recovered I M s r r'" "b \<in> set (loaded_blocks s r) \<inter> set I" "b \<notin> set M" "0 \<le> sc_block_size (cfg s)"
  shows "\<exists>j < length (loaded_blocks s r). loaded_blocks s r ! j = b \<and> num_computed_tokens r' \<le> int j * sc_block_size (cfg s)"
proof -
  let ?B = "loaded_blocks s r"
  have "\<not> set ?B \<inter> set I = {}" "\<not> set ?B \<inter> set I \<subseteq> set M" using assms(2,3) by auto
  then obtain i c where i: "\<forall>j < i. ?B ! j \<notin> set I - set M" "r' = truncated_at (sc_block_size (cfg s)) c i r"
    using assms(1) unfolding recovered_def Let_def if_not_P [OF \<open>\<not> set ?B \<inter> set I = {}\<close>] by (metis (no_types, lifting))
  obtain j where j: "j < length ?B" "?B ! j = b" using assms(2) by (auto simp: in_set_conv_nth)
  then have "i \<le> j" using i(1) assms(2,3) by (metis DiffI IntD2 not_le_imp_less)
  then have "num_computed_tokens r' \<le> int j * sc_block_size (cfg s)" using i(2) assms(4) by (simp add: truncated_at_def mult_right_mono)
  then show ?thesis using j by blast
qed

lemma repaired_step:
  assumes "repaired I s done acc" "rid \<notin> done" "od_get (requests s) rid = Some r" "request_id r = rid"
    and "km_get_block_ids rid (kv_cache_manager s) = [ids]" "0 \<le> sc_block_size (cfg s)"
  shows "\<exists>acc'. invalid_request_step I ev rid acc = Inr acc' \<and> repaired I s (insert rid done) acc'"
proof (cases acc rule: prod_cases5)
  case (fields aff tot M e s1)
  have j: "store_ok s1" "kv_cache_manager s1 = kv_cache_manager s" "cfg s1 = cfg s"
    "\<And>k. k \<notin> set aff \<Longrightarrow> od_get (requests s1) k = od_get (requests s) k" "set aff = {k \<in> done. hit I s k \<noteq> {}}"
    "\<And>k. k \<in> done \<Longrightarrow> hit I s k \<subseteq> set M" "\<And>b. b \<in> set M \<Longrightarrow> \<exists>q \<in> done. recomputed_by s s1 b q"
    using assms(1) by (auto simp: repaired_def fields)
  have "rid \<notin> set aff" using j(5) assms(2) by simp
  then have r1: "od_get (requests s1) rid = Some r" using j(4) assms(3) by simp
  have B: "loaded_blocks s1 r = loaded_blocks s r" by (simp add: loaded_blocks_def j(2,3))
  have h: "hit I s rid = set (loaded_blocks s r) \<inter> set I" by (simp add: hit_def assms(3))
  obtain tot' M' ev' r' where m: "invalid_request_step I ev rid acc =
      Inr (if hit I s rid \<noteq> {} then set_add rid aff else aff, tot', M', ev', put_req r' s1)"
      "set M' = set M \<union> hit I s rid" "recovered I M s1 r r'"
    using invalid_request_step_spec [OF r1 assms(4), of ids I ev aff tot M e] assms(5) j(2) unfolding B h fields by auto
  have id: "request_id r' = rid" using recovered_id [OF m(3)] assms(4) by simp
  have put: "od_get (requests (put_req r' s1)) k = (if k = rid then Some r' else od_get (requests s1) k)" for k by (simp add: id)
  have same: "r' = r" if "hit I s rid = {}" using m(3) that by (simp add: recovered_def B h)
  have old: "\<exists>q \<in> insert rid done. recomputed_by s (put_req r' s1) b q" if b: "b \<in> set M" for b
  proof -
    obtain q where q: "q \<in> done" "recomputed_by s s1 b q" using j(7) [OF b] by blast
    have "q \<noteq> rid" using q(1) assms(2) by blast
    then have "recomputed_by s (put_req r' s1) b q" using q(2) unfolding recomputed_by_def put by simp
    then show ?thesis using q(1) by blast
  qed
  have new: "recomputed_by s (put_req r' s1) b rid" if "b \<in> hit I s rid" "b \<notin> set M" for b
    using recovered_blocks [OF m(3), of b] that assms(3,6) unfolding recomputed_by_def put B h j(3) by auto
  have "\<exists>q \<in> insert rid done. recomputed_by s (put_req r' s1) b q" if "b \<in> set M'" for b
    using that m(2) old new by (cases "b \<in> set M") auto
  moreover have "hit I s k \<subseteq> set M'" if "k \<in> insert rid done" for k
    using that j(6) m(2) by (cases "k = rid") auto
  moreover have "set (if hit I s rid \<noteq> {} then set_add rid aff else aff) = {k \<in> insert rid done. hit I s k \<noteq> {}}"
    using j(5) by (auto simp: set_add_def)
  moreover have "od_get (requests (put_req r' s1)) k = od_get (requests s) k"
    if "k \<notin> set (if hit I s rid \<noteq> {} then set_add rid aff else aff)" for k
  proof (cases "k = rid")
    case True
    then have "hit I s rid = {}" using that by (auto simp: set_add_def split: if_splits)
    then show ?thesis using True same assms(3) put by simp
  next
    case False
    then have "k \<notin> set aff" using that by (auto simp: set_add_def split: if_splits)
    then show ?thesis using False j(4) put by simp
  qed
  ultimately have "repaired I s (insert rid done) (if hit I s rid \<noteq> {} then set_add rid aff else aff, tot', M', ev', put_req r' s1)"
    using j(1-3) unfolding repaired_def prod.case by (auto simp: store_ok_put simp del: requests_put)
  then show ?thesis using m(1) by blast
qed

lemma repaired_loop:
  assumes "repaired I s done acc" "distinct rids" "set rids \<inter> done = {}" "store_ok s" "0 \<le> sc_block_size (cfg s)"
    and "\<forall>rid \<in> set rids. od_get (requests s) rid \<noteq> None \<and> length (km_get_block_ids rid (kv_cache_manager s)) = 1"
  shows "\<exists>acc'. foldR (invalid_request_step I ev) rids acc = Inr acc' \<and> repaired I s (done \<union> set rids) acc'"
  using assms
proof (induction rids arbitrary: "done" acc)
  case (Cons rid rids)
  obtain r ids where r: "od_get (requests s) rid = Some r" "km_get_block_ids rid (kv_cache_manager s) = [ids]"
    using Cons.prems(6) by (auto simp: length_Suc_conv)
  have "request_id r = rid" using Cons.prems(4) r(1) by (simp add: store_ok_def)
  moreover have "rid \<notin> done" using Cons.prems(3) by simp
  ultimately obtain acc1 where a: "invalid_request_step I ev rid acc = Inr acc1" "repaired I s (insert rid done) acc1"
    using repaired_step [OF Cons.prems(1) _ r(1) _ r(2) Cons.prems(5)] by blast
  show ?case using Cons.IH [OF a(2) _ _ Cons.prems(4,5)] Cons.prems a(1) by simp
qed simp

section \<open>A batch\<close>

text \<open>(C5) A failed KV load is repaired. When the connector reports invalid blocks, the scan of a
  batch of requests (one KV cache group) never raises; the affected requests are exactly those with an
  invalid block among the blocks they may have loaded, no other request changes; and every such block is
  computed again: some request of the batch has it at a position at or behind its new number of computed
  tokens. So no request goes on reading an invalid block that nobody refills.\<close>

theorem failed_loads_recomputed:
  assumes "store_ok s" "0 \<le> sc_block_size (cfg s)" "distinct rids"
    and "\<forall>rid \<in> set rids. od_get (requests s) rid \<noteq> None \<and> length (km_get_block_ids rid (kv_cache_manager s)) = 1"
  shows "\<exists>aff tot ev s'. update_requests_with_invalid_blocks rids I evict s = Inr (aff, tot, ev, s') \<and>
     set aff = {rid \<in> set rids. hit I s rid \<noteq> {}} \<and>
     (\<forall>rid. rid \<notin> set aff \<longrightarrow> od_get (requests s') rid = od_get (requests s) rid) \<and>
     (\<forall>rid \<in> set rids. \<forall>b \<in> hit I s rid. \<exists>q \<in> set rids. recomputed_by s s' b q)"
proof -
  have "repaired I s {} ([], 0, [], [], s)" using assms(1) by (simp add: repaired_def)
  from repaired_loop [OF this assms(3) _ assms(1,2,4), of evict] obtain aff tot M ev s' where
    a: "foldR (invalid_request_step I evict) rids ([], 0, [], [], s) = Inr (aff, tot, M, ev, s')"
      "repaired I s (set rids) (aff, tot, M, ev, s')" by auto
  then show ?thesis by (fastforce simp: update_requests_with_invalid_blocks_def repaired_def)
qed

end
