(* ===== verification/Generation.thy ===== *)
theory Generation
  imports Scheduler_Update_Inv
begin

text \<open>
  Generation comes to an end: appending output tokens stops at a token of the batch once the request
  has reached its limit of output tokens.
\<close>

section \<open>A text request that generates\<close>

definition generating :: "hash_env \<Rightarrow> nat \<Rightarrow> sampling_params \<Rightarrow> int \<Rightarrow> request \<Rightarrow> bool" where
  "generating env bs sp m r \<longleftrightarrow> mm_features r = [] \<and> hashes_prefix env bs r \<and> pooling r = None \<and> sampling r = Some sp \<and> max_tokens r = m"

lemma append_output_generating:
  assumes "0 < bs" "generating env bs sp m r"
  shows "\<exists>r'. append_output_token_ids (Some (env, bs)) ts r = Inr r' \<and> generating env bs sp m r' \<and>
     output_token_ids r' = output_token_ids r @ ts"
proof -
  let ?r = "r\<lparr>output_token_ids := output_token_ids r @ ts, all_token_ids := all_token_ids r @ ts\<rparr>"
  obtain m' where m': "update_block_hashes (Some (env, bs)) ?r = Inr (?r\<lparr>embeds_block_hashes := m', block_hashes := chain env bs ?r\<rparr>)"
    "hashes_prefix env bs (?r\<lparr>embeds_block_hashes := m', block_hashes := chain env bs ?r\<rparr>)"
    using update_block_hashes_chain [OF assms(1) _ hashes_prefix_append [OF assms(1), where ts = ts and out = "output_token_ids r @ ts"]]
      assms(2) by (auto simp: generating_def)
  show ?thesis
    unfolding append_output_token_ids_def m'(1) using m'(2) assms(2)
    by (intro exI [of _ "?r\<lparr>embeds_block_hashes := m', block_hashes := chain env bs ?r\<rparr>"]) (simp add: generating_def)
qed

text \<open>The stop check at the limit of output tokens.\<close>

lemma check_stop_generating:
  assumes "generating env bs sp m r" "output_token_ids r \<noteq> []" "min_tokens sp \<le> m"
  shows "\<exists>b r'. check_stop max_len r = Inr (b, r') \<and> (b \<longrightarrow> is_finished r') \<and> (\<not> b \<longrightarrow> r' = r \<and> num_output_tokens r < m) \<and>
     output_token_ids r' = output_token_ids r"
proof -
  have g: "py_get (output_token_ids r) (- 1) = Inr (last (output_token_ids r))"
    using assms(2) py_get_neg [of 1 "output_token_ids r"] by (simp add: rev_nth last_conv_nth Suc_le_eq)
  have rp: "\<exists>b. check_sequence_repetition (output_token_ids r) ps = Inr b" for ps
    unfolding check_sequence_repetition_def Let_def
    using repetition_loop_spec [of "min_count ps" "[_..max_pattern_size ps]"] by auto
  have f: "pooling r = None" "sampling r = Some sp" "max_tokens r = m" using assms(1) by (simp_all add: generating_def)
  show ?thesis
  proof (cases "num_output_tokens r < m \<and> repetition_detection sp \<noteq> None")
    case True
    then obtain ps b where "repetition_detection sp = Some ps" "check_sequence_repetition (output_token_ids r) ps = Inr b"
      using rp by blast
    then show ?thesis using True assms(3) f g
      by (cases b) (auto simp: check_stop_def is_finished_def status_is_finished_cases)
  next
    case False
    then show ?thesis using assms(3) f g
      by (auto simp: check_stop_def is_finished_def status_is_finished_cases split: option.split)
  qed
qed

lemma append_until_stop_ends:
  assumes "0 < bs" "generating env bs sp m r" "min_tokens sp \<le> m" "ts \<noteq> []" "m \<le> num_output_tokens r + int (length ts)"
  shows "\<exists>k r'. 0 < k \<and> k \<le> length ts \<and> append_until_stop (Some (env, bs)) max_len d ts r = Inr (d @ take k ts, True, r') \<and>
     is_finished r' \<and> output_token_ids r' = output_token_ids r @ take k ts \<and> num_output_tokens r + int k \<le> max m (num_output_tokens r + 1)"
  using assms
proof (induction ts arbitrary: r d)
  case (Cons t ts)
  obtain r1 where r1: "append_output_token_ids (Some (env, bs)) [t] r = Inr r1" "generating env bs sp m r1"
      "output_token_ids r1 = output_token_ids r @ [t]"
    using append_output_generating [OF assms(1) Cons.prems(2), of "[t]"] by blast
  have n: "num_output_tokens r1 = num_output_tokens r + 1" using r1(3) by (simp add: num_output_tokens_def)
  obtain b r2 where c: "check_stop max_len r1 = Inr (b, r2)" "b \<longrightarrow> is_finished r2" "\<not> b \<longrightarrow> r2 = r1 \<and> num_output_tokens r1 < m"
      "output_token_ids r2 = output_token_ids r1"
    using check_stop_generating [OF r1(2) _ Cons.prems(3)] r1(3) by fastforce
  show ?case
  proof (cases b)
    case True
    then show ?thesis using r1 c by (intro exI [of _ 1] exI [of _ r2]) simp
  next
    case False
    then have "m \<le> num_output_tokens r1 + int (length ts)" "ts \<noteq> []" using n c(3) Cons.prems(5) by auto
    then obtain k r' where k: "0 < k" "k \<le> length ts" "append_until_stop (Some (env, bs)) max_len (d @ [t]) ts r1 = Inr ((d @ [t]) @ take k ts, True, r')"
        "is_finished r'" "output_token_ids r' = output_token_ids r1 @ take k ts" "num_output_tokens r1 + int k \<le> max m (num_output_tokens r1 + 1)"
      using Cons.IH [OF assms(1) r1(2) Cons.prems(3)] by blast
    then show ?thesis using r1 c False n by (intro exI [of _ "Suc k"] exI [of _ r']) simp
  qed
qed simp

section \<open>Termination\<close>

text \<open>(C6) Generation terminates. Appending sampled tokens to a text request never raises, and when
  \<^verbatim>\<open>min_tokens\<close> does not exceed \<^verbatim>\<open>max_tokens\<close> and enough tokens are sampled to reach the limit, it stops
  at one of them: the request has a final status, keeps the tokens up to there and drops the rest, and
  never has more than \<^verbatim>\<open>max_tokens\<close> output tokens if it had fewer before.\<close>

theorem generation_terminates:
  assumes "0 < bs" "generating env bs sp (max_tokens r) r" "min_tokens sp \<le> max_tokens r"
    and "num_output_tokens r < max_tokens r" "max_tokens r \<le> num_output_tokens r + int (length ts)"
  shows "\<exists>k r'. 0 < k \<and> k \<le> length ts \<and> append_until_stop (Some (env, bs)) max_len [] ts r = Inr (take k ts, True, r') \<and>
     is_finished r' \<and> output_token_ids r' = output_token_ids r @ take k ts \<and> num_output_tokens r' \<le> max_tokens r"
proof -
  have "ts \<noteq> []" using assms(4,5) by auto
  from append_until_stop_ends [OF assms(1-3) this assms(5), of max_len "[]"] obtain k r' where
    k: "0 < k" "k \<le> length ts" "append_until_stop (Some (env, bs)) max_len [] ts r = Inr (take k ts, True, r')"
      "is_finished r'" "output_token_ids r' = output_token_ids r @ take k ts" "num_output_tokens r + int k \<le> max (max_tokens r) (num_output_tokens r + 1)"
    by auto
  then have "num_output_tokens r' \<le> max_tokens r" using assms(4) by (simp add: num_output_tokens_def)
  then show ?thesis using k by blast
qed

theorem generation_terminates_witness:
  "\<exists>k r'. 0 < k \<and> k \<le> 16 \<and>
     append_until_stop (Some (ser_env, 2)) 100 [] (replicate 16 7) (sample_request ''a'' [5, 6, 7]) = Inr (take k (replicate 16 7), True, r') \<and>
     is_finished r'"
proof -
  let ?r = "sample_request ''a'' [5, 6, 7]"
  have f: "pooling ?r = None" "sampling ?r = Some sample_sampling" "max_tokens ?r = 16" "num_output_tokens ?r = 0"
    by (simp_all add: sample_request_def init_request_def sample_sampling_def length_from_prompt_def Let_def num_output_tokens_def)
  have "generating ser_env 2 sample_sampling (max_tokens ?r) ?r"
    using init_hashes_prefix [OF sample_request_init] f by (simp add: generating_def)
  from generation_terminates [OF _ this, of "replicate 16 7" 100] show ?thesis
    using f by (auto simp: sample_sampling_def)
qed

end
