(* ===== verification/Scheduler_Props.thy ===== *)
theory Scheduler_Props
  imports Scheduler_Limits Scheduler_Order Load_Failure Generation
begin

text \<open>
  Properties of the scheduler: no request is lost or doubled, a step respects its limits, and
  preemption keeps the order of arrival.
\<close>

section \<open>A small configuration\<close>

definition sample_sched_config :: sched_config where
  "sample_sched_config =
     \<lparr>max_num_running_reqs = 2, max_num_scheduled_tokens = 8, sc_max_model_len = 100, long_prefill_token_threshold = 0,
      enable_chunked_prefill = True, disable_chunked_mm_input = False, policy = FCFS, max_loras = None,
      max_num_encoder_input_tokens = 0, is_encoder_decoder = False, sc_use_eagle = False, num_spec_tokens = 0,
      num_lookahead_tokens = 0, need_mamba_block_aligned_split = False, cache_block_size = 2, sc_block_size = 2,
      has_connector = False, connector_supports_hma = False, has_ec_connector = False, recompute_kv_load_failures = True,
      needs_kv_cache_zeroing = False, use_pp = False, async_scheduling = False, use_v2_model_runner = False\<rparr>"

definition sample_sched_env :: sched_env where
  "sample_sched_env =
     \<lparr>se_hash = ser_env, se_hasher = Some (ser_env, 2), conn_match = (\<lambda>_ _. (Some 0, False)), conn_request_finished = (\<lambda>_. False),
      conn_reset_cache = False, ec_has_cache_item = (\<lambda>_. False), grammar_ready = (\<lambda>_. False), should_advance = (\<lambda>_. False),
      validate_tokens = (\<lambda>_ ts. ts)\<rparr>"

definition sample_arrival :: "string \<Rightarrow> token list \<Rightarrow> request res" where
  "sample_arrival rid ts = update_block_hashes (Some (ser_env, 2)) (sample_request rid ts)"

definition sample_empty :: "scheduler res" where
  "sample_empty = bindR (new_block_pool 4 True 2 False False) (\<lambda>p.
     Inr (new_scheduler sample_sched_config (sample_kv_manager p) 0 False False))"

definition sample_scheduler :: "scheduler res" where
  "sample_scheduler =
     bindR sample_empty (\<lambda>s0.
     bindR (sample_arrival ''a'' [1, 2, 3]) (\<lambda>a. bindR (sample_arrival ''b'' [1, 2, 4]) (\<lambda>b.
     bindR (sched_add_request sample_sched_env a s0) (sched_add_request sample_sched_env b))))"

definition sample_step :: "(scheduler_output \<times> scheduler) res" where
  "sample_step = bindR sample_scheduler (schedule sample_sched_env)"

lemma sample_step_result:
  "\<exists>so s. sample_step = Inr (so, s) \<and> so_num_scheduled_tokens so = [(''a'', 3), (''b'', 1)] \<and> running s = [''a'', ''b'']"
proof -
  have "case sample_step of Inr (so, s) \<Rightarrow> so_num_scheduled_tokens so = [(''a'', 3), (''b'', 1)] \<and> running s = [''a'', ''b''] | Inl e \<Rightarrow> False"
    by code_simp
  then show ?thesis by (auto split: sum.splits)
qed

lemma sample_request_status: "status (sample_request rid ts) = WAITING"
  by (simp add: sample_request_def init_request_def sample_sampling_def length_from_prompt_def Let_def)

lemma sample_arrival_status: "sample_arrival rid ts = Inr r \<Longrightarrow> status r = WAITING"
  using update_block_hashes_id [THEN ensuresD, of _ "sample_request rid ts" r] sample_request_status
  by (simp add: sample_arrival_def same_id_def)

lemma sample_scheduler_reach:
  assumes "sample_scheduler = Inr s"
  shows "\<exists>p. sched_reach (new_scheduler sample_sched_config (sample_kv_manager p) 0 False False) s"
proof -
  obtain p a b s1 where r: "sample_arrival ''a'' [1, 2, 3] = Inr a" "sample_arrival ''b'' [1, 2, 4] = Inr b"
      "sched_add_request sample_sched_env a (new_scheduler sample_sched_config (sample_kv_manager p) 0 False False) = Inr s1"
      "sched_add_request sample_sched_env b s1 = Inr s"
    using assms by (auto simp: sample_scheduler_def sample_empty_def bindR_eq_Inr)
  have "sched_step (new_scheduler sample_sched_config (sample_kv_manager p) 0 False False) s1" "sched_step s1 s"
    using sample_arrival_status [OF r(1)] sample_arrival_status [OF r(2)] by (simp_all add: step_add [OF _ r(3)] step_add [OF _ r(4)])
  then have "sched_reach (new_scheduler sample_sched_config (sample_kv_manager p) 0 False False) s"
    by (blast intro: reach_init reach_step)
  then show ?thesis by (rule exI)
qed

lemma sample_step_reach: "sample_step = Inr (so, s) \<Longrightarrow> \<exists>p. sched_reach (new_scheduler sample_sched_config (sample_kv_manager p) 0 False False) s"
  unfolding sample_step_def bindR_eq_Inr using sample_scheduler_reach step_schedule reach_step by blast

section \<open>Requests are conserved\<close>

text \<open>(C1) An unfinished request is queued exactly once, in the running list, in \<^verbatim>\<open>waiting\<close> or in
  \<^verbatim>\<open>skipped_waiting\<close>; nothing else is queued; the running list holds exactly the requests with status
  RUNNING; and the reported counts add up to the number of unfinished requests. This holds after any
  sequence of the scheduler's operations (\<^verbatim>\<open>schedule\<close>, \<^verbatim>\<open>add_request\<close> of new requests and session
  updates, \<^verbatim>\<open>finish_requests\<close>, \<^verbatim>\<open>update_from_output\<close>, draft tokens, resets, pausing) in which each result
  given to \<^verbatim>\<open>update_from_output\<close> is timely (\<open>result_timely\<close>): it is for a request that runs, that
  has finished or is gone, or that was preempted in the meantime, is still in \<^verbatim>\<open>waiting\<close> and has no
  update of its session queued. The code does not check this, and the section on late results shows
  that both halves of the condition are needed: otherwise a session is lost, or a stale entry is left.\<close>

theorem requests_conserved:
  assumes "sched_reach (new_scheduler c km n fin ls) s"
  shows "(\<forall>rid. count (mset (running s) + queue_elems (waiting s) + queue_elems (skipped_waiting s)) rid =
            (case od_get (requests s) rid of None \<Rightarrow> 0 | Some r \<Rightarrow> if is_finished r then 0 else 1) \<and>
          (rid \<in> set (running s) \<longleftrightarrow> status_of s rid = Some RUNNING)) \<and>
    fst (get_request_counts s) + snd (get_request_counts s) = card (live s)"
proof (intro conjI allI)
  have i: "queue_inv {#} s" using sched_reach_inv [OF assms new_scheduler_inv] by (simp add: sched_inv_def)
  then have q: "mset (running s) + queue_elems (waiting s) + queue_elems (skipped_waiting s) = mset_set (live s)"
    by (simp add: queue_inv_def queued_def)
  then have "size (mset (running s) + queue_elems (waiting s) + queue_elems (skipped_waiting s)) = card (live s)" by simp
  then show "fst (get_request_counts s) + snd (get_request_counts s) = card (live s)"
    by (simp add: get_request_counts_def queue_len_def)
  fix rid
  show "count (mset (running s) + queue_elems (waiting s) + queue_elems (skipped_waiting s)) rid =
      (case od_get (requests s) rid of None \<Rightarrow> 0 | Some r \<Rightarrow> if is_finished r then 0 else 1)"
    unfolding q using finite_live [of s] by (auto simp: count_mset_set' live_def split: option.split)
  show "rid \<in> set (running s) \<longleftrightarrow> status_of s rid = Some RUNNING"
    using i live_place(1) [OF i, of rid] by (auto simp: queue_inv_def in_running_def status_of_def is_finished_def)
qed

theorem requests_conserved_witness:
  "\<exists>so s. sample_step = Inr (so, s) \<and> running s = [''a'', ''b''] \<and> status_of s ''a'' = Some RUNNING \<and>
     fst (get_request_counts s) + snd (get_request_counts s) = card (live s)"
proof -
  obtain so s where s: "sample_step = Inr (so, s)" "running s = [''a'', ''b'']" using sample_step_result by blast
  obtain p where "sched_reach (new_scheduler sample_sched_config (sample_kv_manager p) 0 False False) s"
    using sample_step_reach [OF s(1)] by blast
  from requests_conserved [OF this] show ?thesis using s by auto
qed

section \<open>A step respects its limits\<close>

text \<open>(C2) When the running requests have tokens left to compute, what a step schedules passes the
  assertions at the end of \<^verbatim>\<open>schedule\<close>: the scheduled requests are distinct running requests, each
  gets at least one token, together they get at most \<^verbatim>\<open>max_num_scheduled_tokens\<close> and no more than
  \<^verbatim>\<open>max_num_running_reqs\<close> requests run. Tokens given to a request that is preempted later in the same
  step are returned to the budget.\<close>

theorem schedule_within_limits:
  assumes "sched_inv s" "\<forall>rid \<in> set (running s). progress s rid" "0 < cache_block_size (cfg s)"
    and "0 \<le> max_num_scheduled_tokens (cfg s)" "int (length (running s)) \<le> max_num_running_reqs (cfg s)"
    and "schedule_requests env s = Inr st"
  shows "constraints_hold st \<and> distinct (map fst (num_scheduled_tokens st)) \<and>
    set (map fst (num_scheduled_tokens st)) \<subseteq> set (running (sr_sched st)) \<and>
    (\<forall>x \<in> set (num_scheduled_tokens st). 0 < snd x) \<and>
    token_budget st + sum_list (map snd (num_scheduled_tokens st)) = token_budget (start_run s)"
proof -
  have w: "within_limits (token_budget (start_run s)) (cfg s) st"
    using schedule_requests_limits [OF assms(1-5), THEN ensuresD, OF assms(6)] .
  have "constraints_hold st" by (rule within_limits_checks [OF w]) (use assms(4) in \<open>simp add: start_run_def\<close>)
  then show ?thesis using w by (simp add: within_limits_def budget_inv_def od_wf_def)
qed

lemma sample_scheduler_inv: "sample_scheduler = Inr s \<Longrightarrow> sched_inv s"
  using sample_scheduler_reach sched_reach_inv new_scheduler_inv by blast

lemma sample_scheduler_value:
  "\<exists>s st. sample_scheduler = Inr s \<and> cfg s = sample_sched_config \<and> running s = [] \<and> waiting s = FCFSRequestQueue [''a'', ''b''] \<and>
     skipped_waiting s = FCFSRequestQueue [] \<and> nobody_blocked s \<and> schedule_requests sample_sched_env s = Inr st \<and>
     num_scheduled_tokens st = [(''a'', 3), (''b'', 1)]"
proof -
  have "case sample_scheduler of Inl e \<Rightarrow> False | Inr s \<Rightarrow>
      cfg s = sample_sched_config \<and> running s = [] \<and> waiting s = FCFSRequestQueue [''a'', ''b''] \<and>
      skipped_waiting s = FCFSRequestQueue [] \<and> nobody_blocked s \<and>
      (case schedule_requests sample_sched_env s of Inl e \<Rightarrow> False | Inr st \<Rightarrow> num_scheduled_tokens st = [(''a'', 3), (''b'', 1)])"
    by code_simp
  then show ?thesis by (auto split: sum.splits)
qed

theorem schedule_within_limits_witness:
  "\<exists>s st. sample_scheduler = Inr s \<and> schedule_requests sample_sched_env s = Inr st \<and> constraints_hold st \<and>
     token_budget st + 4 = token_budget (start_run s)"
proof -
  obtain s st where s: "sample_scheduler = Inr s" "cfg s = sample_sched_config" "running s = []"
      "schedule_requests sample_sched_env s = Inr st" "num_scheduled_tokens st = [(''a'', 3), (''b'', 1)]"
    using sample_scheduler_value by blast
  have "constraints_hold st \<and> token_budget st + sum_list (map snd (num_scheduled_tokens st)) = token_budget (start_run s)"
    using schedule_within_limits [OF sample_scheduler_inv [OF s(1)] _ _ _ _ s(4)] s(2,3) by (simp add: sample_sched_config_def)
  then show ?thesis using s by auto
qed

section \<open>First come, first served\<close>

text \<open>(C4) Under the FCFS policy a step that runs out of blocks preempts the requests that joined last:
  the running list is cut at some point, the requests behind it are preempted from the last one on, and
  they go back to the front of the waiting queue in the order in which they ran. Nothing is admitted in
  such a step.\<close>

theorem newest_preempted_first:
  assumes "policy (cfg s) = FCFS" "waiting s = FCFSRequestQueue w" "schedule env s = Inr (so, s')" "so_preempted_req_ids so \<noteq> []"
  shows "\<exists>k < length (running s). running s' = take k (running s) \<and> so_preempted_req_ids so = remdups (rev (drop k (running s))) \<and>
     waiting s' = FCFSRequestQueue (drop k (running s) @ w)"
proof -
  obtain st where m: "schedule_requests env s = Inr st" "output_of st so" "same_queues (sr_sched st) s'"
    using assms(3) by (rule schedule_outcome)
  let ?k = "length (running (sr_sched st))"
  have p: "preempted_reqs st \<noteq> []" using assms(4) m(2) by (simp add: output_of_def)
  have b: "stepped_back (running s) w st" by (rule preempted_back [OF _ assms(2) m(1) p]) (simp add: fcfs_def assms(1))
  then have "drop ?k (running s) \<noteq> []" using p by (simp add: stepped_back_def)
  then have "?k < length (running s)" by simp
  then show ?thesis using b m(2,3) by (auto simp: stepped_back_def output_of_def same_queues_def intro!: exI [of _ ?k])
qed

text \<open>Two requests of three tokens, in chunks of two, with two blocks of two tokens.\<close>

definition scarce_step :: "(scheduler_output \<times> scheduler) res" where
  "scarce_step =
     bindR (new_block_pool 3 True 2 False False) (\<lambda>p.
     bindR (sample_arrival ''a'' [1, 2, 3]) (\<lambda>a. bindR (sample_arrival ''b'' [4, 5, 6]) (\<lambda>b.
     let c = sample_sched_config\<lparr>long_prefill_token_threshold := 2\<rparr> in
     bindR (sched_add_request sample_sched_env a (new_scheduler c (sample_kv_manager p) 0 False False)) (\<lambda>s1.
     bindR (sched_add_request sample_sched_env b s1) (schedule sample_sched_env)))))"

lemma scarce_step_value:
  "\<exists>so s so' s'. scarce_step = Inr (so, s) \<and> policy (cfg s) = FCFS \<and> running s = [''a'', ''b''] \<and> waiting s = FCFSRequestQueue [] \<and>
     schedule sample_sched_env s = Inr (so', s') \<and> so_preempted_req_ids so' = [''b''] \<and> running s' = [''a'']"
proof -
  have "case scarce_step of Inl e \<Rightarrow> False | Inr (so, s) \<Rightarrow>
      policy (cfg s) = FCFS \<and> running s = [''a'', ''b''] \<and> waiting s = FCFSRequestQueue []"
    by code_simp
  then obtain so s where s: "scarce_step = Inr (so, s)" "policy (cfg s) = FCFS" "running s = [''a'', ''b'']" "waiting s = FCFSRequestQueue []"
    by (auto split: sum.splits)
  have "case bindR scarce_step (\<lambda>(so, s). schedule sample_sched_env s) of Inl e \<Rightarrow> False | Inr (so', s') \<Rightarrow>
      so_preempted_req_ids so' = [''b''] \<and> running s' = [''a'']"
    by code_simp
  then obtain so' s' where "bindR scarce_step (\<lambda>(so, s). schedule sample_sched_env s) = Inr (so', s')"
      "so_preempted_req_ids so' = [''b'']" "running s' = [''a'']"
    by (auto split: sum.splits)
  then show ?thesis using s unfolding s(1) bindR_Inr prod.case by blast
qed

theorem newest_preempted_first_witness:
  "\<exists>so s so' s'. scarce_step = Inr (so, s) \<and> schedule sample_sched_env s = Inr (so', s') \<and>
     so_preempted_req_ids so' = [''b''] \<and> waiting s' = FCFSRequestQueue [''b'']"
proof -
  obtain so s so' s' where s: "scarce_step = Inr (so, s)" "policy (cfg s) = FCFS" "running s = [''a'', ''b'']"
      "waiting s = FCFSRequestQueue []" "schedule sample_sched_env s = Inr (so', s')" "so_preempted_req_ids so' = [''b'']" "running s' = [''a'']"
    using scarce_step_value by blast
  obtain k where "[''a''] = take k [''a'', ''b'']" "waiting s' = FCFSRequestQueue (drop k [''a'', ''b''] @ [])"
    using newest_preempted_first [OF s(2,4,5), unfolded s(3,6,7)] by blast
  then have "waiting s' = FCFSRequestQueue [''b'']" by (cases k rule: nat.exhaust) (simp, rename_tac j, case_tac j, simp_all)
  then show ?thesis using s by blast
qed

text \<open>(C3) Under the FCFS policy, without a connector or a limit on LoRA adapters, when
  \<^verbatim>\<open>skipped_waiting\<close> is empty and no waiting request is blocked (on a grammar, on a remote load, or
  on the next input of a session), a step keeps the line of arrival: the running list followed by the waiting queue
  is the same list of requests after the step, however many requests were admitted or preempted. So no
  request overtakes another. Without these conditions the code itself lets requests overtake: a skipped
  request is moved to the other queue.\<close>

theorem first_come_first_served:
  assumes "sched_inv s" "policy (cfg s) = FCFS" "waiting s = FCFSRequestQueue w" "skipped_waiting s = FCFSRequestQueue []"
    and "\<not> has_connector (cfg s)" "max_loras (cfg s) = None" "nobody_blocked s" "schedule env s = Inr (so, s')"
  shows "arrival_line s' = arrival_line s"
proof -
  obtain st where m: "schedule_requests env s = Inr st" "same_queues (sr_sched st) s'"
    using assms(8) by (rule schedule_outcome)
  have "arrival_line (sr_sched st) = running s @ w"
    by (rule schedule_keeps_line [OF assms(1) _ assms(3-7) m(1)]) (simp add: fcfs_def assms(2))
  then show ?thesis using m(2) assms(3) by (simp add: arrival_line_def same_queues_def)
qed

theorem first_come_first_served_witness:
  "\<exists>s so s'. sample_scheduler = Inr s \<and> schedule sample_sched_env s = Inr (so, s') \<and> running s' = [''a'', ''b''] \<and>
     arrival_line s' = [''a'', ''b'']"
proof -
  obtain s where s: "sample_scheduler = Inr s" "cfg s = sample_sched_config" "running s = []" "waiting s = FCFSRequestQueue [''a'', ''b'']"
      "skipped_waiting s = FCFSRequestQueue []" "nobody_blocked s"
    using sample_scheduler_value by blast
  obtain so s' where s': "schedule sample_sched_env s = Inr (so, s')" "running s' = [''a'', ''b'']"
    using sample_step_result unfolding sample_step_def s(1) bindR_Inr by blast
  have "arrival_line s' = arrival_line s"
    by (rule first_come_first_served [OF sample_scheduler_inv [OF s(1)] _ s(4,5) _ _ s(6) s'(1)]) (simp_all add: s(2) sample_sched_config_def)
  then show ?thesis using s s' by (auto simp: arrival_line_def)
qed

section \<open>Recovery from a failed load\<close>

text \<open>In the sample state request \<open>b\<close> has loaded the block that it shares with \<open>a\<close>.\<close>

lemma sample_step_loads:
  assumes "sample_step = Inr (so, s)"
  shows "hit [1] s ''a'' = {} \<and> hit [1] s ''b'' = {1} \<and> sc_block_size (cfg s) = 2 \<and>
    (\<forall>rid \<in> {''a'', ''b''}. od_get (requests s) rid \<noteq> None \<and> length (km_get_block_ids rid (kv_cache_manager s)) = 1)"
proof -
  have "case sample_step of Inl e \<Rightarrow> False | Inr (so, s) \<Rightarrow>
      map (\<lambda>rid. map_option (loaded_blocks s) (od_get (requests s) rid)) [''a'', ''b''] = [Some [], Some [1]] \<and> sc_block_size (cfg s) = 2 \<and>
      map (\<lambda>rid. length (km_get_block_ids rid (kv_cache_manager s))) [''a'', ''b''] = [1, 1]"
    by code_simp
  then have "map_option (loaded_blocks s) (od_get (requests s) ''a'') = Some [] \<and> map_option (loaded_blocks s) (od_get (requests s) ''b'') = Some [1] \<and>
      sc_block_size (cfg s) = 2 \<and> length (km_get_block_ids ''a'' (kv_cache_manager s)) = 1 \<and> length (km_get_block_ids ''b'' (kv_cache_manager s)) = 1"
    unfolding assms sum.case prod.case by simp
  then show ?thesis by (auto simp: hit_def)
qed

theorem failed_loads_witness:
  "\<exists>so s aff tot ev s'. sample_step = Inr (so, s) \<and>
     update_requests_with_invalid_blocks [''a'', ''b''] [1] True s = Inr (aff, tot, ev, s') \<and> set aff = {''b''} \<and>
     recomputed_by s s' 1 ''b''"
proof -
  obtain so s where s: "sample_step = Inr (so, s)" using sample_step_result by blast
  note l = sample_step_loads [OF s]
  have h: "hit [1] s ''a'' = {}" "hit [1] s ''b'' = {1}" using l by simp_all
  have "sched_inv s" using sample_step_reach [OF s] sched_reach_inv new_scheduler_inv by blast
  then have "store_ok s" using queue_inv_storeD by (simp add: sched_inv_def)
  from failed_loads_recomputed [OF this, of "[''a'', ''b'']" "[1]" True] l obtain aff tot ev s' where
    m: "update_requests_with_invalid_blocks [''a'', ''b''] [1] True s = Inr (aff, tot, ev, s')"
      "set aff = {rid \<in> {''a'', ''b''}. hit [1] s rid \<noteq> {}}"
      "\<forall>rid \<in> {''a'', ''b''}. \<forall>b \<in> hit [1] s rid. \<exists>q \<in> {''a'', ''b''}. recomputed_by s s' b q" by auto
  have "\<not> recomputed_by s s' 1 ''a''"
  proof
    assume "recomputed_by s s' 1 ''a''"
    then have "1 \<in> hit [1] s ''a''" by (auto simp: recomputed_by_def hit_def in_set_conv_nth)
    then show False using h(1) by simp
  qed
  moreover have "\<exists>q \<in> {''a'', ''b''}. recomputed_by s s' 1 q" using m(3) h(2) by blast
  ultimately have "recomputed_by s s' 1 ''b''" by blast
  moreover have "set aff = {''b''}" unfolding m(2) using h by (intro equalityI subsetI) auto
  ultimately show ?thesis using s m(1) by blast
qed

section \<open>Results that arrive late\<close>

text \<open>The hypothesis on results cannot be dropped. Two requests run, \<open>a\<close> with a prompt of four tokens
  computed in chunks of two and \<open>b\<close> with a prompt of two; a second step, planned before the result of
  the first is there, preempts \<open>b\<close>. Then the result of the first step arrives, and \<open>b\<close> stops with it.\<close>

definition late_config :: sched_config where
  "late_config = sample_sched_config\<lparr>long_prefill_token_threshold := 2, has_connector := True, connector_supports_hma := True\<rparr>"

definition late_start :: "scheduler res" where
  "late_start = bindR (new_block_pool 3 True 2 False False) (\<lambda>p. Inr (new_scheduler late_config (sample_kv_manager p) 0 False False))"

definition late_session :: "bool \<Rightarrow> token list \<Rightarrow> request res" where
  "late_session res ts = update_block_hashes (Some (ser_env, 2)) ((sample_request ''b'' ts)\<lparr>max_tokens := 1, resumable := res\<rparr>)"

text \<open>The output of the first step and the state after the second one.\<close>

definition late_run :: "bool \<Rightarrow> (scheduler_output \<times> scheduler) res" where
  "late_run res = bindR late_start (\<lambda>s0.
     bindR (sample_arrival ''a'' [1, 2, 3, 4]) (\<lambda>a. bindR (sched_add_request sample_sched_env a s0) (\<lambda>s1.
     bindR (late_session res [5, 6]) (\<lambda>b. bindR (sched_add_request sample_sched_env b s1) (\<lambda>s2.
     bindR (schedule sample_sched_env s2) (\<lambda>(so, s3).
     bindR (schedule sample_sched_env s3) (\<lambda>(_, s4). Inr (so, s4))))))))"

definition late_result :: model_runner_output where
  "late_result = \<lparr>sampled_token_ids = [[], [9]], req_id_to_index = [(''a'', 0), (''b'', 1)], pooler_output = [], mro_kv_connector_output = None\<rparr>"

text \<open>An update of the session has come in before the result.\<close>

definition lost_session :: "scheduler res" where
  "lost_session = bindR (late_run True) (\<lambda>(so, s). bindR (late_session True [7]) (\<lambda>u.
     bindR (sched_add_request sample_sched_env u s) (\<lambda>s1.
     bindR (update_from_output sample_sched_env so late_result s1) (\<lambda>(_, s2). Inr s2))))"

text \<open>The request is queued again for its update and then removed with the copy from its preemption:
  it waits for ever.\<close>

lemma session_lost_by_late_result:
  "\<exists>s. lost_session = Inr s \<and> status_of s ''b'' = Some WAITING \<and>
     count (mset (running s) + queue_elems (waiting s) + queue_elems (skipped_waiting s)) ''b'' = 0"
proof -
  have "case lost_session of Inl e \<Rightarrow> False | Inr s \<Rightarrow> status_of s ''b'' = Some WAITING \<and>
      ''b'' \<notin> set (running s) \<and> ''b'' \<notin> set (queue_list (waiting s)) \<and> ''b'' \<notin> set (queue_list (skipped_waiting s))"
    by code_simp
  then show ?thesis by (auto split: sum.splits simp: count_mset_0_iff)
qed

text \<open>A preempted request that a third step has moved to \<^verbatim>\<open>skipped_waiting\<close>, because the connector
  does not know yet how many of its tokens it has, stays there after it finished: the entry refers to a
  request that does not exist any more.\<close>

definition stale_entry :: "scheduler res" where
  "stale_entry = bindR (late_run False) (\<lambda>(so, s).
     bindR (schedule (sample_sched_env\<lparr>conn_match := (\<lambda>_ _. (None, False))\<rparr>) s) (\<lambda>(_, s1).
     bindR (update_from_output sample_sched_env so late_result s1) (\<lambda>(_, s2). Inr s2)))"

lemma entry_left_by_late_result:
  "\<exists>s. stale_entry = Inr s \<and> od_get (requests s) ''b'' = None \<and> ''b'' \<in># queue_elems (skipped_waiting s)"
proof -
  have "case stale_entry of Inl e \<Rightarrow> False | Inr s \<Rightarrow> od_get (requests s) ''b'' = None \<and> ''b'' \<in> set (queue_list (skipped_waiting s))"
    by code_simp
  then show ?thesis by (auto split: sum.splits)
qed

end
