(* ===== verification/KV_Cache_Config.thy ===== *)
theory KV_Cache_Config
  imports KV_Cache_Spec
begin

text \<open>
  The configuration of the KV cache at engine start (v1/core/kv\_cache\_utils.py): the layers of
  the model are put into groups that share a block table, the available memory of each worker is
  turned into a number of blocks and tensors, and the length limit of the model is checked against
  it. A dictionary from layer names to specifications is an association list in insertion order;
  the specification of a layer is never itself a UniformTypeKVCacheSpecs. Functions that set
  \<^verbatim>\<open>vllm_config.model_config.max_model_len\<close> for a while and restore it take the configuration by value.
\<close>

type_synonym layer_specs = "(string, kv_cache_spec) odict"

section \<open>Memory of a request\<close>

definition floordivR :: "int \<Rightarrow> int \<Rightarrow> int res" where
  "floordivR a b = (if b = 0 then Inl ZeroDivisionError else Inr (a div b))"

definition cdivR :: "int \<Rightarrow> int \<Rightarrow> int res" where
  "cdivR a b = (if b = 0 then Inl ZeroDivisionError else Inr (cdiv a b))"

definition total_max_memory_usage_bytes :: "vllm_config \<Rightarrow> kv_cache_spec list \<Rightarrow> int res" where
  "total_max_memory_usage_bytes cfg specs = bindR (mapR (max_memory_usage_bytes cfg) specs) (\<lambda>ms. Inr (sum_list ms))"

text \<open>The binary search that both estimates use, over any check of a model length.\<close>

function search_model_len :: "(int \<Rightarrow> bool res) \<Rightarrow> int \<Rightarrow> int \<Rightarrow> int \<Rightarrow> int res" where
  "search_model_len fits left right result =
     (if left \<le> right
      then let mid = (left + right) div 2 in
           bindR (fits mid) (\<lambda>b. if b then search_model_len fits (mid + 1) right mid
                                 else search_model_len fits left (mid - 1) result)
      else Inr result)"
  by pat_completeness auto
termination by (relation "measure (\<lambda>(_, left, right, _). nat (right - left + 1))") auto

declare search_model_len.simps [simp del]

definition largest_model_len :: "(int \<Rightarrow> bool res) \<Rightarrow> int \<Rightarrow> int res" where
  "largest_model_len fits original_max =
     bindR (fits 1) (\<lambda>b. if b then search_model_len fits 1 original_max 1 else Inr 0)"

definition estimate_max_model_len :: "vllm_config \<Rightarrow> layer_specs \<Rightarrow> int \<Rightarrow> int res" where
  "estimate_max_model_len cfg kv_cache_spec available_memory =
     largest_model_len
       (\<lambda>n. bindR (total_max_memory_usage_bytes (cfg\<lparr>max_model_len := n\<rparr>) (map snd kv_cache_spec)) (\<lambda>m. Inr (m \<le> available_memory)))
       (max_model_len cfg)"

definition check_enough_memory :: "int \<Rightarrow> int res \<Rightarrow> (int \<Rightarrow> int res) \<Rightarrow> unit res" where
  "check_enough_memory available_memory needed_memory estimate =
     (if available_memory \<le> 0 then Inl ValueError
      else bindR needed_memory (\<lambda>needed.
        if needed > available_memory then bindR (estimate available_memory) (\<lambda>_. Inl ValueError) else Inr ()))"

definition check_enough_kv_cache_memory :: "vllm_config \<Rightarrow> layer_specs \<Rightarrow> int \<Rightarrow> unit res" where
  "check_enough_kv_cache_memory cfg kv_cache_spec available_memory =
     (if kv_cache_spec = [] then Inr ()
      else check_enough_memory available_memory (total_max_memory_usage_bytes cfg (map snd kv_cache_spec))
             (estimate_max_model_len cfg kv_cache_spec))"

section \<open>Groups\<close>

definition create_kv_cache_group_specs :: "layer_specs \<Rightarrow> string list list \<Rightarrow> kv_cache_group list res" where
  "create_kv_cache_group_specs d grouped =
     mapR (\<lambda>names. bindR (mapR (\<lambda>n. case od_get d n of None \<Rightarrow> Inl KeyError | Some sp \<Rightarrow> Inr sp) names) (\<lambda>specs.
             bindR (merge_specs specs) (\<lambda>sp. Inr \<lparr>layer_names = names, group_spec = sp\<rparr>))) grouped"

definition is_kv_cache_spec_uniform :: "layer_specs \<Rightarrow> bool res" where
  "is_kv_cache_spec_uniform d =
     (if d = [] then Inr True
      else case merge_specs (map snd d) of
             Inl e \<Rightarrow> if e = AssertionError then Inr False else Inl e
           | Inr _ \<Rightarrow> Inr True)"

definition may_override_num_blocks :: "vllm_config \<Rightarrow> int \<Rightarrow> int" where
  "may_override_num_blocks cfg n = (case num_gpu_blocks_override cfg of None \<Rightarrow> n | Some k \<Rightarrow> k)"

definition get_num_blocks :: "vllm_config \<Rightarrow> int \<Rightarrow> int \<Rightarrow> int \<Rightarrow> int res" where
  "get_num_blocks cfg num_layers available_memory page_size =
     bindR (floordivR available_memory page_size) (\<lambda>q. bindR (floordivR q num_layers) (\<lambda>n.
       Inr (may_override_num_blocks cfg (max n 0))))"

definition get_uniform_page_size :: "kv_cache_spec list \<Rightarrow> int res" where
  "get_uniform_page_size specs =
     bindR (mapR page_size_bytes specs) (\<lambda>ps. bindR (assertR (length (remdups ps) = 1)) (\<lambda>_. Inr (hd (remdups ps))))"

definition get_kv_cache_groups_uniform_spec :: "layer_specs \<Rightarrow> kv_cache_group list res" where
  "get_kv_cache_groups_uniform_spec d = create_kv_cache_group_specs d [map fst d]"

definition get_kv_cache_groups_uniform_type :: "layer_specs \<Rightarrow> kv_cache_spec \<Rightarrow> kv_cache_group list" where
  "get_kv_cache_groups_uniform_type d sp = [\<lparr>layer_names = map fst d, group_spec = sp\<rparr>]"

definition is_kv_cache_page_size_uniform :: "layer_specs \<Rightarrow> bool res" where
  "is_kv_cache_page_size_uniform d = bindR (mapR (\<lambda>kv. page_size_bytes (snd kv)) d) (\<lambda>ps. Inr (length (remdups ps) = 1))"

definition unify_layer_page_size :: "int \<Rightarrow> kv_cache_spec \<Rightarrow> kv_cache_spec res" where
  "unify_layer_page_size max_page_size sp =
     bindR (page_size_bytes sp) (\<lambda>p.
       if p = max_page_size then Inr sp
       else if p = 0 then Inl ZeroDivisionError
       else if max_page_size mod p \<noteq> 0 then Inl NotImplementedError
       else let sp' = copy_with_new_block_size sp (spec_block_size sp * (max_page_size div p)) in
            bindR (page_size_bytes sp') (\<lambda>p'. bindR (assertR (p' = max_page_size)) (\<lambda>_. Inr sp')))"

definition unify_kv_cache_spec_page_size :: "layer_specs \<Rightarrow> layer_specs res" where
  "unify_kv_cache_spec_page_size d =
     bindR (mapR (\<lambda>kv. page_size_bytes (snd kv)) d) (\<lambda>ps.
       if length (remdups ps) \<le> 1 then Inr d
       else bindR (maxR ps) (\<lambda>m. mapR (\<lambda>(n, sp). bindR (unify_layer_page_size m sp) (\<lambda>sp'. Inr (n, sp'))) d))"

text \<open>\<^verbatim>\<open>defaultdict(list)\<close> keyed by the specification, and the slice \<^verbatim>\<open>layers[i::k]\<close>.\<close>

definition same_type_layers :: "layer_specs \<Rightarrow> (kv_cache_spec, string list) odict" where
  "same_type_layers d =
     fold (\<lambda>(n, sp) m. od_set sp ((case od_get m sp of None \<Rightarrow> [] | Some ns \<Rightarrow> ns) @ [n]) m) d []"

definition every_nth :: "'a list \<Rightarrow> nat \<Rightarrow> nat \<Rightarrow> 'a list" where
  "every_nth xs i k = map ((!) xs) (filter (\<lambda>j. i \<le> j \<and> (j - i) mod k = 0) [0..<length xs])"

definition split_layers :: "int \<Rightarrow> string list \<Rightarrow> string list list" where
  "split_layers group_size layers =
     (let num_groups = nat (cdiv (int (length layers)) group_size) in map (\<lambda>i. every_nth layers i num_groups) [0..<num_groups])"

text \<open>\<^verbatim>\<open>max_num_layers < min_num_layers * 1.5\<close>, which floats decide exactly for layer counts.\<close>

definition choose_group_size :: "int list \<Rightarrow> int res" where
  "choose_group_size counts =
     bindR (minR counts) (\<lambda>mn. bindR (maxR counts) (\<lambda>mx. Inr (if 2 * mx < 3 * mn then mx else mn)))"

definition get_kv_cache_groups_uniform_page_size :: "layer_specs \<Rightarrow> kv_cache_group list res" where
  "get_kv_cache_groups_uniform_page_size d =
     (let layers = map snd (same_type_layers d) in
      bindR (choose_group_size (map (\<lambda>l. int (length l)) layers)) (\<lambda>group_size.
        create_kv_cache_group_specs d (concat (map (split_layers group_size) layers))))"

text \<open>Without the hybrid manager, windowed layers become full attention layers that remember
  their window.\<close>

fun as_full_attention :: "kv_cache_spec \<Rightarrow> kv_cache_spec" where
  "as_full_attention (SlidingWindowSpec a w) =
     FullAttentionSpec a \<lparr>head_size_v = head_size a, ff_sliding_window = Some w, ff_attention_chunk_size = None\<rparr>"
| "as_full_attention (ChunkedLocalAttentionSpec a c) =
     FullAttentionSpec a \<lparr>head_size_v = head_size a, ff_sliding_window = None, ff_attention_chunk_size = Some c\<rparr>"
| "as_full_attention sp = sp"

fun is_windowed :: "kv_cache_spec \<Rightarrow> bool" where
  "is_windowed (SlidingWindowSpec a w) = True"
| "is_windowed (ChunkedLocalAttentionSpec a c) = True"
| "is_windowed sp = False"

definition uniform_or_uniform_type :: "layer_specs \<Rightarrow> bool res" where
  "uniform_or_uniform_type d = bindR (is_kv_cache_spec_uniform d) (\<lambda>u. if u then Inr True else is_uniform_type d)"

definition unify_hybrid_kv_cache_specs :: "layer_specs \<Rightarrow> layer_specs res" where
  "unify_hybrid_kv_cache_specs d =
     bindR (uniform_or_uniform_type d) (\<lambda>u.
       if u then Inr d
       else let d' = (if list_ex (\<lambda>kv. is_full_attention (snd kv)) d \<and> list_ex (\<lambda>kv. is_windowed (snd kv)) d
                      then map (\<lambda>(n, sp). (n, as_full_attention sp)) d else d) in
            bindR (uniform_or_uniform_type d') (\<lambda>u'. if u' then Inr d' else Inl ValueError))"

definition is_kv_cache_type_attention_free :: "layer_specs \<Rightarrow> bool" where
  "is_kv_cache_type_attention_free d \<longleftrightarrow> d = []"

definition get_kv_cache_groups :: "vllm_config \<Rightarrow> layer_specs \<Rightarrow> kv_cache_group list res" where
  "get_kv_cache_groups cfg d0 =
     bindR (if disable_hybrid_kv_cache_manager cfg then unify_hybrid_kv_cache_specs d0 else Inr d0) (\<lambda>d.
       if is_kv_cache_type_attention_free d then Inr []
       else bindR (is_kv_cache_spec_uniform d) (\<lambda>u.
         if u then get_kv_cache_groups_uniform_spec d
         else bindR (from_specs d) (\<lambda>uniform_spec.
           case uniform_spec of
             Some sp \<Rightarrow> Inr (get_kv_cache_groups_uniform_type d sp)
           | None \<Rightarrow> bindR (unify_kv_cache_spec_page_size d) get_kv_cache_groups_uniform_page_size)))"

section \<open>Blocks and tensors of a worker\<close>

text \<open>The specifications of a single group of uniform type.\<close>

definition uniform_type_layers :: "kv_cache_group list \<Rightarrow> layer_specs option" where
  "uniform_type_layers gs =
     (case gs of [g] \<Rightarrow> (case group_spec g of UniformTypeKVCacheSpecs _ d \<Rightarrow> Some d | _ \<Rightarrow> None) | _ \<Rightarrow> None)"

definition group_size_of :: "kv_cache_group list \<Rightarrow> nat" where
  "group_size_of gs = fold max (map (\<lambda>g. length (layer_names g)) gs) 0"

text \<open>Tensor \<open>i\<close> is shared by the \<open>i\<close>-th layer of each group.\<close>

definition sharers :: "kv_cache_group list \<Rightarrow> nat \<Rightarrow> string list" where
  "sharers gs i = map (\<lambda>g. layer_names g ! i) (filter (\<lambda>g. i < length (layer_names g)) gs)"

definition get_kv_cache_config_from_groups :: "vllm_config \<Rightarrow> kv_cache_group list \<Rightarrow> int \<Rightarrow> kv_cache_config res" where
  "get_kv_cache_config_from_groups cfg gs available_memory =
     (if gs = [] then Inr \<lparr>num_blocks = 1, kv_cache_tensors = [], kv_cache_groups = []\<rparr>
      else case uniform_type_layers gs of
        Some d \<Rightarrow>
          bindR (page_size_bytes (group_spec (hd gs))) (\<lambda>p.
          bindR (floordivR available_memory p) (\<lambda>q.
          let n = may_override_num_blocks cfg q in
          bindR (mapR (\<lambda>name. case od_get d name of
                   None \<Rightarrow> Inl KeyError
                 | Some sp \<Rightarrow> bindR (page_size_bytes sp) (\<lambda>ps. Inr \<lparr>tensor_size = ps * n, shared_by = [name]\<rparr>))
                 (layer_names (hd gs))) (\<lambda>ts.
            Inr \<lparr>num_blocks = n, kv_cache_tensors = ts, kv_cache_groups = gs\<rparr>)))
      | None \<Rightarrow>
          let group_size = group_size_of gs in
          bindR (get_uniform_page_size (map group_spec gs)) (\<lambda>page_size.
          bindR (assertR (group_size > 0)) (\<lambda>_.
          bindR (get_num_blocks cfg (int group_size) available_memory page_size) (\<lambda>n.
            Inr \<lparr>num_blocks = n,
                 kv_cache_tensors = map (\<lambda>i. \<lparr>tensor_size = page_size * n, shared_by = sharers gs i\<rparr>) [0..<group_size],
                 kv_cache_groups = gs\<rparr>))))"

definition generate_scheduler_kv_cache_config :: "kv_cache_config list \<Rightarrow> kv_cache_config res" where
  "generate_scheduler_kv_cache_config cs =
     bindR (case cs of [] \<Rightarrow> Inr () | c # _ \<Rightarrow> assertR (list_all (\<lambda>c'. num_blocks c' = num_blocks c) cs)) (\<lambda>_.
     bindR (py_get cs 0) (\<lambda>c.
     bindR (mapR (\<lambda>g. case group_spec g of
              UniformTypeKVCacheSpecs _ d \<Rightarrow> bindR (next_iter (map snd d)) (\<lambda>sp. Inr (g\<lparr>group_spec := sp\<rparr>))
            | _ \<Rightarrow> Inr g) (kv_cache_groups c)) (\<lambda>gs.
       Inr (c\<lparr>kv_cache_groups := gs\<rparr>))))"

section \<open>Length limit and memory check\<close>

definition max_memory_usage_bytes_from_groups :: "vllm_config \<Rightarrow> kv_cache_group list \<Rightarrow> int res" where
  "max_memory_usage_bytes_from_groups cfg gs =
     (if gs = [] then Inr 0
      else case uniform_type_layers gs of
        Some d \<Rightarrow> total_max_memory_usage_bytes cfg (map snd d)
      | None \<Rightarrow>
          bindR (get_uniform_page_size (map group_spec gs)) (\<lambda>page_size.
          bindR (max_memory_usage_bytes cfg (group_spec (hd gs))) (\<lambda>m.
          bindR (cdivR m page_size) (\<lambda>blocks_needed.
            Inr (int (group_size_of gs) * page_size * blocks_needed)))))"

definition estimate_max_model_len_from_groups :: "vllm_config \<Rightarrow> kv_cache_group list \<Rightarrow> int \<Rightarrow> int res" where
  "estimate_max_model_len_from_groups cfg gs available_memory =
     largest_model_len
       (\<lambda>n. bindR (max_memory_usage_bytes_from_groups (cfg\<lparr>max_model_len := n\<rparr>) gs) (\<lambda>m. Inr (m \<le> available_memory)))
       (max_model_len cfg)"

definition auto_fit_max_model_len :: "vllm_config \<Rightarrow> kv_cache_group list list \<Rightarrow> int list \<Rightarrow> vllm_config res" where
  "auto_fit_max_model_len cfg groups_per_worker available_memory =
     (if list_all (\<lambda>gs. gs = []) groups_per_worker then Inr cfg
      else bindR (py_get available_memory 0) (\<lambda>_.
        bindR (foldR (\<lambda>(gs, mem) best.
                 if gs = [] then Inr best
                 else bindR (estimate_max_model_len_from_groups cfg gs mem) (\<lambda>k. Inr (if k < best then k else best)))
                 (zip groups_per_worker available_memory) (max_model_len cfg)) (\<lambda>best.
        if best \<le> 0 then Inl ValueError
        else Inr (if best \<ge> max_model_len cfg then cfg else cfg\<lparr>max_model_len := best\<rparr>))))"

definition project_group :: "layer_specs \<Rightarrow> kv_cache_group \<Rightarrow> kv_cache_group res" where
  "project_group worker_spec g =
     (let names = filter (\<lambda>n. od_get worker_spec n \<noteq> None) (layer_names g) in
      case group_spec g of
        UniformTypeKVCacheSpecs bs d \<Rightarrow>
          if names = [] then Inr (g\<lparr>layer_names := names\<rparr>)
          else bindR (mapR (\<lambda>n. case od_get d n of None \<Rightarrow> Inl KeyError | Some sp \<Rightarrow> Inr (n, sp)) names) (\<lambda>d'.
                 Inr \<lparr>layer_names = names, group_spec = UniformTypeKVCacheSpecs bs d'\<rparr>)
      | _ \<Rightarrow> Inr (g\<lparr>layer_names := names\<rparr>))"

definition project_kv_cache_groups_to_worker :: "kv_cache_group list \<Rightarrow> layer_specs \<Rightarrow> kv_cache_group list res" where
  "project_kv_cache_groups_to_worker gs worker_spec = mapR (project_group worker_spec) gs"

section \<open>All workers\<close>

definition merge_worker_specs :: "layer_specs list \<Rightarrow> layer_specs res" where
  "merge_worker_specs ws =
     foldR (\<lambda>(n, sp) m. case od_get m n of
              None \<Rightarrow> Inr (od_set n sp m)
            | Some sp' \<Rightarrow> bindR (assertR (sp' = sp)) (\<lambda>_. Inr m)) (concat ws) []"

definition shrink_tensor :: "int \<Rightarrow> int \<Rightarrow> kv_cache_tensor \<Rightarrow> kv_cache_tensor res" where
  "shrink_tensor old new t =
     (if old = 0 then Inl ZeroDivisionError
      else bindR (assertR (tensor_size t mod old = 0)) (\<lambda>_. Inr (t\<lparr>tensor_size := tensor_size t div old * new\<rparr>)))"

definition shrink_config :: "int \<Rightarrow> kv_cache_config \<Rightarrow> kv_cache_config res" where
  "shrink_config n c =
     bindR (mapR (shrink_tensor (num_blocks c) n) (kv_cache_tensors c)) (\<lambda>ts. Inr (c\<lparr>num_blocks := n, kv_cache_tensors := ts\<rparr>))"

text \<open>The configurations of the workers and the configuration of the engine, whose length limit may
  have been fitted to the memory; \<open>original_max_model_len\<close> is the limit the user asked for, -1 for the
  largest that fits.\<close>

definition get_kv_cache_configs ::
  "vllm_config \<Rightarrow> int \<Rightarrow> layer_specs list \<Rightarrow> int list \<Rightarrow> (vllm_config \<times> kv_cache_config list) res" where
  "get_kv_cache_configs cfg original_max_model_len kv_cache_specs available_memory =
     bindR (merge_worker_specs kv_cache_specs) (\<lambda>merged.
     bindR (get_kv_cache_groups cfg merged) (\<lambda>global_groups.
     bindR (mapR (project_kv_cache_groups_to_worker global_groups) kv_cache_specs) (\<lambda>projected.
     bindR (if original_max_model_len = - 1 then auto_fit_max_model_len cfg projected available_memory else Inr cfg) (\<lambda>cfg1.
     bindR (mapR (\<lambda>(gs, mem).
              if gs = [] then Inr ()
              else check_enough_memory mem (max_memory_usage_bytes_from_groups cfg1 gs) (estimate_max_model_len_from_groups cfg1 gs))
              (zip projected available_memory)) (\<lambda>_.
     bindR (mapR (\<lambda>(gs, ws, mem).
              bindR (assertR (sum_list (map (\<lambda>g. length (layer_names g)) gs) = length ws)) (\<lambda>_.
                get_kv_cache_config_from_groups cfg1 gs mem))
              (zip projected (zip kv_cache_specs available_memory))) (\<lambda>configs.
     bindR (minR (map num_blocks configs)) (\<lambda>n.
     bindR (mapR (shrink_config n) configs) (\<lambda>configs'. Inr (cfg1, configs')))))))))"

end
