(* ===== verification/KV_Cache_Config_Inv.thy ===== *)
theory KV_Cache_Config_Inv
  imports KV_Cache_Config
begin

text \<open>
  What the KV cache configuration guarantees: the groups partition the layers and share a page size,
  the tensors of a worker fit its memory, and the estimated model length is the largest that fits.
\<close>

section \<open>Splitting a list by position\<close>

lemma mset_concat_upt: "mset (concat (map h [0..<k])) = (\<Sum>i = 0..<k. mset (h i))"
  by (simp add: mset_concat interv_sum_list_conv_sum_set_nat comp_def)

lemma mset_concat_classes:
  "\<forall>j \<in> set js. f j < k \<Longrightarrow> mset (concat (map (\<lambda>i. filter (\<lambda>j. f j = i) js) [0..<k])) = mset js"
  unfolding mset_concat_upt
proof (induction js)
  case (Cons j js)
  have "mset (filter (\<lambda>j'. f j' = i) (j # js)) = (if f j = i then {#j#} else {#}) + mset (filter (\<lambda>j'. f j' = i) js)" for i
    by simp
  then have "(\<Sum>i = 0..<k. mset (filter (\<lambda>j'. f j' = i) (j # js))) =
      (\<Sum>i = 0..<k. if f j = i then {#j#} else {#}) + (\<Sum>i = 0..<k. mset (filter (\<lambda>j'. f j' = i) js))"
    by (simp only: sum.distrib)
  also have "(\<Sum>i = 0..<k. if f j = i then {#j#} else {#}) = {#j#}" using Cons.prems by simp
  finally show ?case using Cons by simp
qed simp

lemma every_nth_class: "i < k \<Longrightarrow> every_nth xs i k = map ((!) xs) (filter (\<lambda>j. j mod k = i) [0..<length xs])"
proof -
  assume "i < k"
  then have "(i \<le> j \<and> (j - i) mod k = 0) = (j mod k = i)" for j
    by (metis add_diff_inverse_nat diff_is_0_eq' le_add_diff_inverse mod_eq_dvd_iff_nat mod_eq_0_iff_dvd mod_less mod_less_eq_dividend nat_less_le)
  then show ?thesis by (simp add: every_nth_def)
qed

lemma every_nth_partition:
  assumes "0 < k"
  shows "mset (concat (map (\<lambda>i. every_nth xs i k) [0..<k])) = mset xs"
proof -
  have "map (\<lambda>i. every_nth xs i k) [0..<k] = map (map ((!) xs)) (map (\<lambda>i. filter (\<lambda>j. j mod k = i) [0..<length xs]) [0..<k])"
    by (simp add: every_nth_class)
  then have "mset (concat (map (\<lambda>i. every_nth xs i k) [0..<k])) =
      image_mset ((!) xs) (mset (concat (map (\<lambda>i. filter (\<lambda>j. j mod k = i) [0..<length xs]) [0..<k])))"
    by (simp only: map_concat [symmetric] mset_map)
  also have "\<dots> = image_mset ((!) xs) (mset [0..<length xs])" using assms by (subst mset_concat_classes) auto
  also have "\<dots> = mset xs" by (metis map_nth mset_map)
  finally show ?thesis .
qed

lemma every_nth_length:
  assumes "i < k" "length xs \<le> k * g"
  shows "length (every_nth xs i k) \<le> g"
proof -
  let ?js = "filter (\<lambda>j. j mod k = i) [0..<length xs]"
  have "inj_on (\<lambda>j. j div k) (set ?js)" by (rule inj_onI) (simp, metis div_mult_mod_eq)
  moreover have "(\<lambda>j. j div k) ` set ?js \<subseteq> {..<g}"
  proof
    fix m assume "m \<in> (\<lambda>j. j div k) ` set ?js"
    then obtain j where "j < length xs" "m = j div k" by auto
    then have "j < k * g" "m = j div k" using assms(2) by simp_all
    then show "m \<in> {..<g}" using assms(1) by (simp add: less_mult_imp_div_less mult.commute)
  qed
  ultimately have "card (set ?js) \<le> g" by (metis card_inj_on_le card_lessThan finite_lessThan)
  then show ?thesis using assms(1) by (simp add: every_nth_class distinct_card [symmetric])
qed

lemma split_layers_partition:
  assumes "0 < g" "ls \<noteq> []"
  shows "mset (concat (split_layers g ls)) = mset ls" "\<forall>l \<in> set (split_layers g ls). l \<noteq> [] \<and> int (length l) \<le> g"
proof -
  let ?n = "nat (cdiv (int (length ls)) g)"
  have pos: "0 < cdiv (int (length ls)) g" using assms less_cdiv_iff [of g 0] by simp
  then show "mset (concat (split_layers g ls)) = mset ls" by (simp add: split_layers_def Let_def every_nth_partition del: mset_concat)
  have le: "int (length ls) \<le> cdiv (int (length ls)) g * g" using cdiv_upper assms(1) by blast
  have "cdiv (int (length ls)) g \<le> int (length ls)" using cdiv_le_iff [OF assms(1)] assms(1) by (simp add: mult_le_cancel_left1)
  then have n: "?n \<le> length ls" by simp
  have "int (length ls) \<le> int (?n * nat g)" using le pos assms(1) by simp
  then have len: "length ls \<le> ?n * nat g" by (simp only: of_nat_le_iff)
  show "\<forall>l \<in> set (split_layers g ls). l \<noteq> [] \<and> int (length l) \<le> g"
  proof
    fix l assume "l \<in> set (split_layers g ls)"
    then obtain i where i: "i < ?n" "l = every_nth ls i ?n" by (auto simp: split_layers_def Let_def)
    have "length l \<le> nat g" using every_nth_length [OF i(1) len] i(2) by simp
    moreover have "i mod ?n = i" "i < length ls" using i(1) n by simp_all
    then have "i \<in> set (filter (\<lambda>j. j mod ?n = i) [0..<length ls])" by simp
    then have "l \<noteq> []" unfolding i(2) every_nth_class [OF i(1)] by (metis empty_iff list.map_disc_iff list.set(1))
    ultimately show "l \<noteq> [] \<and> int (length l) \<le> g" using assms(1) by simp
  qed
qed

section \<open>Layers by specification\<close>

definition add_layer :: "string \<times> kv_cache_spec \<Rightarrow> (kv_cache_spec, string list) odict \<Rightarrow> (kv_cache_spec, string list) odict" where
  "add_layer = (\<lambda>(n, sp) m. od_set sp ((case od_get m sp of None \<Rightarrow> [] | Some ns \<Rightarrow> ns) @ [n]) m)"

lemma same_type_layers_fold: "same_type_layers d = fold add_layer d []"
  by (simp add: same_type_layers_def add_layer_def)

lemma add_layer_names: "mset (concat (map snd (add_layer (n, sp) m))) = add_mset n (mset (concat (map snd m)))"
  by (induction m) (auto simp: add_layer_def)

lemma add_layer_set: "(k, ns) \<in> set (add_layer (n, sp) m) \<Longrightarrow> (k, ns) \<in> set m \<or> k = sp \<and> (ns = [n] \<or> (\<exists>ns0. (sp, ns0) \<in> set m \<and> ns = ns0 @ [n]))"
  by (induction m) (auto simp: add_layer_def split: if_splits)

lemma same_type_layers_props:
  "mset (concat (map snd (same_type_layers d))) = mset (map fst d)"
  "(sp, ns) \<in> set (same_type_layers d) \<Longrightarrow> ns \<noteq> [] \<and> (\<forall>n \<in> set ns. (n, sp) \<in> set d)"
proof -
  have "mset (concat (map snd (fold add_layer d m))) = mset (concat (map snd m)) + mset (map fst d)" for m
    by (induction d arbitrary: m) (auto simp: add_layer_names simp del: mset_concat)
  then show "mset (concat (map snd (same_type_layers d))) = mset (map fst d)" by (simp add: same_type_layers_fold)
  have "(sp, ns) \<in> set (fold add_layer d' m) \<Longrightarrow> \<forall>(sp, ns) \<in> set m. ns \<noteq> [] \<and> (\<forall>n \<in> set ns. (n, sp) \<in> D) \<Longrightarrow> set d' \<subseteq> D \<Longrightarrow>
      ns \<noteq> [] \<and> (\<forall>n \<in> set ns. (n, sp) \<in> D)" for d' m D
  proof (induction d' arbitrary: m)
    case (Cons x d')
    obtain n sp0 where x: "x = (n, sp0)" by (cases x)
    have "ns' \<noteq> [] \<and> (\<forall>n \<in> set ns'. (n, sp') \<in> D)" if "(sp', ns') \<in> set (add_layer x m)" for sp' ns'
    proof -
      have old: "ns0 \<noteq> [] \<and> (\<forall>n \<in> set ns0. (n, k) \<in> D)" if "(k, ns0) \<in> set m" for k ns0 using Cons.prems(2) that by blast
      have new: "(n, sp0) \<in> D" using Cons.prems(3) x by simp
      from add_layer_set [OF that [unfolded x]] show ?thesis using old new by auto
    qed
    then have "\<forall>(sp, ns) \<in> set (add_layer x m). ns \<noteq> [] \<and> (\<forall>n \<in> set ns. (n, sp) \<in> D)" by blast
    then show ?case using Cons.IH [of "add_layer x m"] Cons.prems(1,3) by simp
  qed auto
  from this [of d "[]" "set d"] show "(sp, ns) \<in> set (same_type_layers d) \<Longrightarrow> ns \<noteq> [] \<and> (\<forall>n \<in> set ns. (n, sp) \<in> set d)"
    by (simp add: same_type_layers_fold)
qed

section \<open>Merging keeps the page size\<close>

lemma merge_full_parts:
  assumes "merge_full_fields specs = Inr (a, f)"
  shows "\<exists>s0 f0. specs \<noteq> [] \<and> s0 = hd specs \<and> full_parts s0 = Some (a, f0) \<and> head_size_v f = head_size_v f0"
proof -
  have full: "list_all is_full_attention specs" using assms by (auto simp: merge_full_fields_def bindR_eq_Inr assertR_eq_Inr)
  obtain a0 f0 where p: "py_get (somes (map full_parts specs)) 0 = Inr (a0, f0)" "a = a0" "head_size_v f = head_size_v f0"
    using assms by (auto simp: merge_full_fields_def bindR_eq_Inr Let_def)
  show ?thesis
  proof (cases specs)
    case Nil
    then show ?thesis using p by (simp add: somes_def py_get_def)
  next
    case (Cons s0 specs')
    then have "is_full_attention s0" using full by simp
    then obtain b g where "full_parts s0 = Some (b, g)" by (cases s0) auto
    then show ?thesis using p Cons py_get_nth [of 0 "somes (map full_parts specs)"] by (auto simp: somes_def)
  qed
qed

definition mla_str :: "kv_cache_spec \<Rightarrow> string option" where
  "mla_str s = (case s of MLAAttentionSpec _ _ c \<Rightarrow> c | _ \<Rightarrow> None)"

lemma merge_mla_result:
  assumes "merge_mla specs = Inr sp" "specs \<noteq> []"
  shows "\<exists>a f. py_get (somes (map full_parts specs)) 0 = Inr (a, f) \<and>
    sp = MLAAttentionSpec a \<lparr>head_size_v = head_size a, ff_sliding_window = None, ff_attention_chunk_size = None\<rparr> (mla_str (hd specs))"
proof -
  have f: "(\<lambda>s. case s of MLAAttentionSpec _ _ c \<Rightarrow> c | _ \<Rightarrow> None) = mla_str" by (simp add: mla_str_def [abs_def])
  obtain a g where r: "length (remdups (map mla_str specs)) = 1" "py_get (somes (map full_parts specs)) 0 = Inr (a, g)"
    "sp = MLAAttentionSpec a \<lparr>head_size_v = head_size a, ff_sliding_window = None, ff_attention_chunk_size = None\<rparr> (hd (remdups (map mla_str specs)))"
    using assms(1) unfolding merge_mla_def f Let_def by (auto simp: bindR_eq_Inr assertR_eq_Inr)
  obtain x where x: "remdups (map mla_str specs) = [x]" using r(1) by (metis One_nat_def length_0_conv length_Suc_conv)
  have "mla_str (hd specs) \<in> set (remdups (map mla_str specs))" using assms(2) by simp
  then have "x = mla_str (hd specs)" unfolding x by simp
  then show ?thesis using r x by auto
qed

lemma merge_page_size:
  assumes "merge_specs specs = Inr sp"
  shows "specs \<noteq> [] \<and> page_size_bytes sp = page_size_bytes (hd specs)"
proof -
  obtain s0 ss where specs: "specs = s0 # ss" using assms by (cases specs) (auto simp: merge_specs_def py_get_def)
  have p: "py_get (s0 # ss) 0 = Inr s0" using py_get_nth [of 0 "s0 # ss"] by simp
  show ?thesis
  proof (cases s0)
    case (FullAttentionSpec a0 f0)
    then obtain a f where "merge_full_fields (s0 # ss) = Inr (a, f)" "sp = FullAttentionSpec a f"
      using assms p by (auto simp: merge_specs_def specs bindR_eq_Inr)
    then show ?thesis using merge_full_parts [of "s0 # ss" a f] FullAttentionSpec by (simp add: specs full_real_page_size_def)
  next
    case (SinkFullAttentionSpec a0 f0 sink)
    then obtain a f where "merge_full_fields (s0 # ss) = Inr (a, f)" "sp = SinkFullAttentionSpec a f sink"
      using assms p by (auto simp: merge_specs_def specs bindR_eq_Inr)
    then show ?thesis using merge_full_parts [of "s0 # ss" a f] SinkFullAttentionSpec by (simp add: specs full_real_page_size_def)
  next
    case (MLAAttentionSpec a0 f0 c)
    have "merge_mla specs = Inr sp" using assms p MLAAttentionSpec by (simp add: merge_specs_def specs)
    then obtain a f where m: "py_get (somes (map full_parts specs)) 0 = Inr (a, f)"
        "sp = MLAAttentionSpec a \<lparr>head_size_v = head_size a, ff_sliding_window = None, ff_attention_chunk_size = None\<rparr> (mla_str (hd specs))"
      using merge_mla_result [of specs sp] specs by auto
    have "py_get (somes (map full_parts specs)) 0 = Inr (a0, f0)"
      using MLAAttentionSpec py_get_nth [of 0 "somes (map full_parts specs)"] by (simp add: somes_def specs)
    then have "sp = MLAAttentionSpec a0 \<lparr>head_size_v = head_size a0, ff_sliding_window = None, ff_attention_chunk_size = None\<rparr> c"
      using m MLAAttentionSpec by (simp add: specs mla_str_def)
    then show ?thesis using MLAAttentionSpec by (simp add: specs mla_real_page_size_def)
  qed (use assms p in \<open>auto simp: merge_specs_def specs bindR_eq_Inr\<close>)
qed

section \<open>The groups of a model\<close>

lemma unify_layer_size: "unify_layer_page_size m sp = Inr sp' \<Longrightarrow> page_size_bytes sp' = Inr m"
  by (auto simp: unify_layer_page_size_def bindR_eq_Inr assertR_eq_Inr Let_def split: if_splits)

definition one_page_size :: "kv_cache_spec set \<Rightarrow> bool" where
  "one_page_size A \<longleftrightarrow> (\<forall>sp \<in> A. \<forall>sp' \<in> A. page_size_bytes sp = page_size_bytes sp')"

lemma one_page_sizeI: "(\<And>sp. sp \<in> A \<Longrightarrow> page_size_bytes sp = Inr p) \<Longrightarrow> one_page_size A"
  by (simp add: one_page_size_def)

lemma mapR_values: "mapR f xs = Inr ys \<Longrightarrow> x \<in> set xs \<Longrightarrow> \<exists>y \<in> set ys. f x = Inr y"
  by (induction xs arbitrary: ys) (auto simp: bindR_eq_Inr)

lemma mapR_sources: "mapR f xs = Inr ys \<Longrightarrow> y \<in> set ys \<Longrightarrow> \<exists>x \<in> set xs. f x = Inr y"
  by (induction xs arbitrary: ys) (auto simp: bindR_eq_Inr)

lemma mapR_map: "mapR f xs = Inr ys \<Longrightarrow> (\<And>x y. f x = Inr y \<Longrightarrow> h y = g x) \<Longrightarrow> map h ys = map g xs"
  by (induction xs arbitrary: ys) (auto simp: bindR_eq_Inr)

lemma length_remdups_le_one: "length (remdups xs) \<le> 1 \<Longrightarrow> x \<in> set xs \<Longrightarrow> y \<in> set xs \<Longrightarrow> x = y"
proof -
  assume a: "length (remdups xs) \<le> 1" "x \<in> set xs" "y \<in> set xs"
  then have "card (set xs) \<le> 1" by (simp add: length_remdups_card_conv)
  then show "x = y" using a(2,3) card_le_Suc0_iff_eq [of "set xs"] by simp
qed

lemma unify_page_size_props:
  assumes "unify_kv_cache_spec_page_size d = Inr d'"
  shows "map fst d' = map fst d \<and> one_page_size (snd ` set d')"
proof -
  obtain ps where ps: "mapR (\<lambda>kv. page_size_bytes (snd kv)) d = Inr ps" using assms by (auto simp: unify_kv_cache_spec_page_size_def bindR_eq_Inr)
  show ?thesis
  proof (cases "length (remdups ps) \<le> 1")
    case True
    have "one_page_size (snd ` set d)"
      unfolding one_page_size_def
    proof (intro ballI)
      fix a b assume "a \<in> snd ` set d" "b \<in> snd ` set d"
      then obtain x y where xy: "x \<in> set d" "a = snd x" "y \<in> set d" "b = snd y" by blast
      obtain p q where "p \<in> set ps" "page_size_bytes a = Inr p" "q \<in> set ps" "page_size_bytes b = Inr q"
        using mapR_values [OF ps xy(1)] mapR_values [OF ps xy(3)] xy(2,4) by blast
      then show "page_size_bytes a = page_size_bytes b" using length_remdups_le_one [OF True] by simp
    qed
    then show ?thesis using assms ps True by (simp add: unify_kv_cache_spec_page_size_def)
  next
    case False
    then obtain m where m: "mapR (\<lambda>(n, sp). bindR (unify_layer_page_size m sp) (\<lambda>sp'. Inr (n, sp'))) d = Inr d'"
      using assms ps by (auto simp: unify_kv_cache_spec_page_size_def bindR_eq_Inr)
    have "map fst d' = map fst d" by (rule mapR_map [OF m]) (auto simp: bindR_eq_Inr)
    moreover have "page_size_bytes sp = Inr m" if "sp \<in> snd ` set d'" for sp
      using that mapR_sources [OF m] unify_layer_size by (fastforce simp: bindR_eq_Inr)
    ultimately show ?thesis using one_page_sizeI by blast
  qed
qed

lemma create_groups_props:
  assumes "create_kv_cache_group_specs d grouped = Inr gs"
  shows "map layer_names gs = grouped" "g \<in> set gs \<Longrightarrow> \<exists>n \<in> set (layer_names g). \<exists>sp. od_get d n = Some sp \<and> page_size_bytes (group_spec g) = page_size_bytes sp"
proof -
  let ?look = "\<lambda>n. case od_get d n of None \<Rightarrow> Inl KeyError | Some sp \<Rightarrow> Inr sp"
  have m: "mapR (\<lambda>names. bindR (mapR ?look names) (\<lambda>specs. bindR (merge_specs specs) (\<lambda>sp. Inr \<lparr>layer_names = names, group_spec = sp\<rparr>))) grouped = Inr gs"
    using assms by (simp add: create_kv_cache_group_specs_def)
  have "map layer_names gs = map id grouped" by (rule mapR_map [OF m]) (auto simp: bindR_eq_Inr)
  then show "map layer_names gs = grouped" by simp
  assume "g \<in> set gs"
  then obtain names specs sp where g: "mapR ?look names = Inr specs" "merge_specs specs = Inr sp" "g = \<lparr>layer_names = names, group_spec = sp\<rparr>"
    using mapR_sources [OF m] by (fastforce simp: bindR_eq_Inr)
  note p = merge_page_size [OF g(2)]
  then obtain n where "n \<in> set names" "?look n = Inr (hd specs)" using mapR_sources [OF g(1), of "hd specs"] by auto
  then show "\<exists>n \<in> set (layer_names g). \<exists>sp. od_get d n = Some sp \<and> page_size_bytes (group_spec g) = page_size_bytes sp"
    using g(3) p by (auto split: option.splits)
qed

definition groups_of :: "layer_specs \<Rightarrow> kv_cache_group list \<Rightarrow> bool" where
  "groups_of d gs \<longleftrightarrow> mset (concat (map layer_names gs)) = mset (map fst d) \<and> (\<forall>g \<in> set gs. layer_names g \<noteq> []) \<and>
     one_page_size (group_spec ` set gs)"

lemma one_group_of: "d \<noteq> [] \<Longrightarrow> groups_of d [\<lparr>layer_names = map fst d, group_spec = sp\<rparr>]"
  by (simp add: groups_of_def one_page_size_def)

lemma uniform_spec_groups: "d \<noteq> [] \<Longrightarrow> get_kv_cache_groups_uniform_spec d = Inr gs \<Longrightarrow> groups_of d gs"
  using one_group_of by (auto simp: get_kv_cache_groups_uniform_spec_def create_kv_cache_group_specs_def bindR_eq_Inr)

lemma choose_group_size_pos: "choose_group_size cs = Inr g \<Longrightarrow> \<forall>c \<in> set cs. 0 < c \<Longrightarrow> 0 < g"
proof -
  assume a: "choose_group_size cs = Inr g" "\<forall>c \<in> set cs. 0 < c"
  have ne: "cs \<noteq> []" using a(1) by (auto simp: choose_group_size_def)
  then have "Min (set cs) \<in> set cs" "Max (set cs) \<in> set cs" by simp_all
  then show "0 < g" using a ne by (auto simp: choose_group_size_def minR_Min maxR_Max split: if_splits)
qed

lemma split_all_layers:
  assumes "0 < g" "\<forall>l \<in> set ls. l \<noteq> []"
  shows "mset (concat (concat (map (split_layers g) ls))) = mset (concat ls)" "\<forall>l \<in> set (concat (map (split_layers g) ls)). l \<noteq> []"
proof -
  show "mset (concat (concat (map (split_layers g) ls))) = mset (concat ls)"
    using assms(2)
  proof (induction ls)
    case (Cons l ls)
    then have "mset (concat (split_layers g l)) = mset l" using split_layers_partition(1) [OF assms(1)] by simp
    then show ?case using Cons by (simp del: mset_concat)
  qed simp
  show "\<forall>l \<in> set (concat (map (split_layers g) ls)). l \<noteq> []"
  proof
    fix l assume "l \<in> set (concat (map (split_layers g) ls))"
    then obtain l' where "l' \<in> set ls" "l \<in> set (split_layers g l')" by auto
    then show "l \<noteq> []" using split_layers_partition(2) [OF assms(1)] assms(2) by blast
  qed
qed

lemma uniform_page_size_groups:
  assumes "od_wf d" "one_page_size (snd ` set d)" "get_kv_cache_groups_uniform_page_size d = Inr gs"
  shows "groups_of d gs"
proof -
  let ?ls = "map snd (same_type_layers d)"
  obtain g where g: "choose_group_size (map (\<lambda>l. int (length l)) ?ls) = Inr g"
      "create_kv_cache_group_specs d (concat (map (split_layers g) ?ls)) = Inr gs"
    using assms(3) by (auto simp: get_kv_cache_groups_uniform_page_size_def Let_def bindR_eq_Inr)
  have ne: "\<forall>l \<in> set ?ls. l \<noteq> []" using same_type_layers_props(2) by fastforce
  then have "0 < g" using choose_group_size_pos [OF g(1)] by simp
  note split = split_all_layers [OF this ne, folded create_groups_props(1) [OF g(2)]]
  then have l: "mset (concat (map layer_names gs)) = mset (map fst d)" using same_type_layers_props(1) [of d] by simp
  have l2: "\<forall>g \<in> set gs. layer_names g \<noteq> []" using split(2) by simp
  have "page_size_bytes (group_spec a) = page_size_bytes (group_spec b)" if ab: "a \<in> set gs" "b \<in> set gs" for a b
  proof -
    have mem: "sp \<in> snd ` set d" if "od_get d n = Some sp" for n sp using map_of_SomeD [OF that] by force
    obtain n sp where a: "od_get d n = Some sp" "page_size_bytes (group_spec a) = page_size_bytes sp"
      using create_groups_props(2) [OF g(2), of a] ab(1) by blast
    obtain n' sp' where b: "od_get d n' = Some sp'" "page_size_bytes (group_spec b) = page_size_bytes sp'"
      using create_groups_props(2) [OF g(2), of b] ab(2) by blast
    have "page_size_bytes sp = page_size_bytes sp'" using assms(2) mem [OF a(1)] mem [OF b(1)] unfolding one_page_size_def by blast
    then show ?thesis using a(2) b(2) by simp
  qed
  then show ?thesis using l l2 unfolding groups_of_def one_page_size_def by blast
qed

lemma unify_hybrid_names: "unify_hybrid_kv_cache_specs d = Inr d' \<Longrightarrow> map fst d' = map fst d"
  by (auto simp: unify_hybrid_kv_cache_specs_def bindR_eq_Inr Let_def split: if_splits)

lemma groups_of_names: "map fst d' = map fst d \<Longrightarrow> groups_of d' gs \<Longrightarrow> groups_of d gs"
  unfolding groups_of_def by simp

lemma get_groups_of:
  assumes "od_wf d0" "get_kv_cache_groups cfg d0 = Inr gs"
  shows "groups_of d0 gs"
proof -
  obtain d where d: "(if disable_hybrid_kv_cache_manager cfg then unify_hybrid_kv_cache_specs d0 else Inr d0) = Inr d"
    using assms(2) by (auto simp: get_kv_cache_groups_def bindR_eq_Inr)
  then have names: "map fst d = map fst d0" using unify_hybrid_names by (auto split: if_splits)
  then have wf: "od_wf d" using assms(1) by (simp add: od_wf_def)
  show ?thesis
  proof (cases "d = []")
    case True
    then show ?thesis using assms(2) d names by (simp add: get_kv_cache_groups_def is_kv_cache_type_attention_free_def groups_of_def one_page_size_def)
  next
    case ne: False
    have "groups_of d gs"
    proof -
      obtain u where u: "is_kv_cache_spec_uniform d = Inr u"
          "(if u then get_kv_cache_groups_uniform_spec d
            else bindR (from_specs d) (\<lambda>us. case us of Some sp \<Rightarrow> Inr (get_kv_cache_groups_uniform_type d sp)
                | None \<Rightarrow> bindR (unify_kv_cache_spec_page_size d) get_kv_cache_groups_uniform_page_size)) = Inr gs"
        using assms(2) d ne by (auto simp: get_kv_cache_groups_def is_kv_cache_type_attention_free_def bindR_eq_Inr)
      consider "u" | sp where "\<not> u" "gs = get_kv_cache_groups_uniform_type d sp"
        | d' where "\<not> u" "unify_kv_cache_spec_page_size d = Inr d'" "get_kv_cache_groups_uniform_page_size d' = Inr gs"
        using u(2) by (auto simp: bindR_eq_Inr split: if_splits option.splits)
      then show ?thesis
      proof cases
        case 1
        then show ?thesis using uniform_spec_groups [OF ne] u(2) by simp
      next
        case 2
        then show ?thesis using one_group_of [OF ne] by (simp add: get_kv_cache_groups_uniform_type_def)
      next
        case 3
        have d': "map fst d' = map fst d" "one_page_size (snd ` set d')" using unify_page_size_props [OF 3(2)] by simp_all
        then have "od_wf d'" using wf by (simp add: od_wf_def)
        then show ?thesis using uniform_page_size_groups [OF _ d'(2) 3(3)] groups_of_names [OF d'(1)] by blast
      qed
    qed
    then show ?thesis using groups_of_names names by metis
  qed
qed

text \<open>A worker holds the layers it has specifications of.\<close>

lemma project_group_names: "project_group ws g = Inr g' \<Longrightarrow> layer_names g' = filter (\<lambda>n. n \<in> set (od_keys ws)) (layer_names g)"
proof -
  assume a: "project_group ws g = Inr g'"
  have "(\<lambda>n. od_get ws n \<noteq> None) = (\<lambda>n. n \<in> set (od_keys ws))" by (simp add: fun_eq_iff od_get_None_iff)
  then show "layer_names g' = filter (\<lambda>n. n \<in> set (od_keys ws)) (layer_names g)"
    using a by (auto simp: project_group_def Let_def bindR_eq_Inr split: kv_cache_spec.splits if_splits)
qed

text \<open>The specification a worker gets for a group: for layers of one type those of its own layers.\<close>

definition restricted_spec :: "string list \<Rightarrow> kv_cache_spec \<Rightarrow> kv_cache_spec \<Rightarrow> bool" where
  "restricted_spec names sp sp' \<longleftrightarrow>
     (case sp of
        UniformTypeKVCacheSpecs bs d \<Rightarrow>
          if names = [] then sp' = sp
          else (\<exists>d'. sp' = UniformTypeKVCacheSpecs bs d' \<and> od_keys d' = names \<and> (\<forall>n s. (n, s) \<in> set d' \<longrightarrow> od_get d n = Some s))
      | _ \<Rightarrow> sp' = sp)"

lemma looked_up_specs:
  assumes "mapR (\<lambda>n. case od_get d n of None \<Rightarrow> Inl KeyError | Some sp \<Rightarrow> Inr (n, sp)) names = Inr d'"
  shows "od_keys d' = names \<and> (\<forall>n s. (n, s) \<in> set d' \<longrightarrow> od_get d n = Some s)"
proof
  have "map fst d' = map id names" by (rule mapR_map [OF assms]) (auto split: option.splits)
  then show "od_keys d' = names" by simp
  show "\<forall>n s. (n, s) \<in> set d' \<longrightarrow> od_get d n = Some s" using mapR_sources [OF assms] by (fastforce split: option.splits)
qed

lemma project_group_spec:
  assumes "project_group ws g = Inr g'"
  shows "restricted_spec (layer_names g') (group_spec g) (group_spec g')"
  using assms
  by (auto simp: restricted_spec_def project_group_def Let_def bindR_eq_Inr split: kv_cache_spec.splits if_splits dest!: looked_up_specs)

text \<open>The groups a worker gets: those of the model, each with the worker's layers only.\<close>

definition projected_groups :: "layer_specs \<Rightarrow> kv_cache_group list \<Rightarrow> kv_cache_group list \<Rightarrow> bool" where
  "projected_groups ws gs pgs \<longleftrightarrow>
     map layer_names pgs = map (\<lambda>g. filter (\<lambda>n. n \<in> set (od_keys ws)) (layer_names g)) gs \<and>
     list_all2 (\<lambda>g g'. restricted_spec (layer_names g') (group_spec g) (group_spec g')) gs pgs \<and>
     mset (concat (map layer_names pgs)) = mset (od_keys ws) \<and>
     sum_list (map (\<lambda>g. length (layer_names g)) pgs) = length ws"

lemma mapR_list_all2: "mapR f xs = Inr ys \<Longrightarrow> (\<And>x y. f x = Inr y \<Longrightarrow> P x y) \<Longrightarrow> list_all2 P xs ys"
  by (induction xs arbitrary: ys) (auto simp: bindR_eq_Inr)

lemma project_groups:
  assumes "groups_of d gs" "od_wf d" "od_wf ws" "set (od_keys ws) \<subseteq> set (od_keys d)" "project_kv_cache_groups_to_worker gs ws = Inr pgs"
  shows "projected_groups ws gs pgs"
proof -
  let ?in = "\<lambda>n. n \<in> set (od_keys ws)"
  note m = assms(5) [unfolded project_kv_cache_groups_to_worker_def]
  have names: "map layer_names pgs = map (\<lambda>g. filter ?in (layer_names g)) gs" by (rule mapR_map [OF m]) (rule project_group_names)
  have specs: "list_all2 (\<lambda>g g'. restricted_spec (layer_names g') (group_spec g) (group_spec g')) gs pgs"
    using mapR_list_all2 [OF m project_group_spec] .
  have "concat (map layer_names pgs) = filter ?in (concat (map layer_names gs))" unfolding names by (simp add: filter_concat comp_def)
  then have "mset (concat (map layer_names pgs)) = filter_mset ?in (mset (concat (map layer_names gs)))" by (simp only: mset_filter)
  also have "\<dots> = mset (filter ?in (od_keys d))" using assms(1) by (simp only: groups_of_def mset_filter)
  also have "\<dots> = mset (od_keys ws)"
  proof (rule set_eq_iff_mset_eq_distinct [THEN iffD1])
    show "distinct (filter ?in (od_keys d))" "distinct (od_keys ws)" using assms(2,3) by (simp_all add: od_wf_def)
    show "set (filter ?in (od_keys d)) = set (od_keys ws)" using assms(4) by auto
  qed
  finally have all: "mset (concat (map layer_names pgs)) = mset (od_keys ws)" .
  from arg_cong [OF this, of size] have "length (concat (map layer_names pgs)) = length ws" by (simp only: size_mset length_map)
  then have "sum_list (map (\<lambda>g. length (layer_names g)) pgs) = length ws" by (simp add: length_concat comp_def)
  then show ?thesis using names specs all unfolding projected_groups_def by blast
qed

text \<open>(C7) The KV cache groups of a model are well formed, whichever way they were found: every layer is
  in exactly one group, no group is empty, and all groups have the same page size, so one block pool
  serves them all. Projected to a worker, each group keeps exactly those of its layers that the worker has,
  in order, with their specifications; together the projected groups hold every layer of the worker
  once, so the assertion on the number of assigned layers never fails.\<close>

theorem kv_cache_groups_partition:
  assumes "od_wf d" "get_kv_cache_groups cfg d = Inr gs"
  shows "mset (concat (map layer_names gs)) = mset (od_keys d) \<and> (\<forall>g \<in> set gs. layer_names g \<noteq> []) \<and>
     one_page_size (group_spec ` set gs) \<and>
     (\<forall>ws pgs. od_wf ws \<longrightarrow> set (od_keys ws) \<subseteq> set (od_keys d) \<longrightarrow> project_kv_cache_groups_to_worker gs ws = Inr pgs \<longrightarrow>
        projected_groups ws gs pgs)"
  using get_groups_of [OF assms] project_groups [OF get_groups_of [OF assms] assms(1)] unfolding groups_of_def by blast

definition sample_attn :: "int \<Rightarrow> attn_fields" where
  "sample_attn bs = \<lparr>af_block_size = bs, num_kv_heads = 1, head_size = 4, af_dtype = Dtype ''half'' 2, af_page_size_padded = None\<rparr>"

definition sample_full :: "int \<Rightarrow> kv_cache_spec" where
  "sample_full bs = FullAttentionSpec (sample_attn bs) \<lparr>head_size_v = 4, ff_sliding_window = None, ff_attention_chunk_size = None\<rparr>"

text \<open>A model that begins with a sliding window layer, like Gemma 3: three such layers, two full ones.\<close>

definition sample_layers :: layer_specs where
  "sample_layers = [(''w0'', SlidingWindowSpec (sample_attn 4) 8), (''f0'', sample_full 4), (''w1'', SlidingWindowSpec (sample_attn 4) 8),
     (''f1'', sample_full 4), (''w2'', SlidingWindowSpec (sample_attn 4) 8)]"

definition sample_engine_config :: vllm_config where
  "sample_engine_config =
     \<lparr>max_model_len = 400, max_num_batched_tokens = 8, max_num_encoder_input_tokens = 0, decode_context_parallel_size = 1,
      prefill_context_parallel_size = 1, cfg_mamba_cache_mode = ''none'', cfg_enable_prefix_caching = True,
      num_gpu_blocks_override = None, disable_hybrid_kv_cache_manager = False, max_num_seqs = 8\<rparr>"

lemma sample_layers_groups:
  "\<exists>gs. get_kv_cache_groups sample_engine_config sample_layers = Inr gs \<and> map layer_names gs = [[''w0'', ''w2''], [''w1''], [''f0'', ''f1'']]"
proof -
  have "case get_kv_cache_groups sample_engine_config sample_layers of Inl e \<Rightarrow> False
    | Inr gs \<Rightarrow> map layer_names gs = [[''w0'', ''w2''], [''w1''], [''f0'', ''f1'']]"
    by code_simp
  then show ?thesis by (auto split: sum.splits)
qed

definition sample_worker :: layer_specs where
  "sample_worker = [(''w0'', SlidingWindowSpec (sample_attn 4) 8), (''f0'', sample_full 4), (''w1'', SlidingWindowSpec (sample_attn 4) 8)]"

theorem kv_cache_groups_witness:
  "\<exists>gs pgs. get_kv_cache_groups sample_engine_config sample_layers = Inr gs \<and> one_page_size (group_spec ` set gs) \<and>
     project_kv_cache_groups_to_worker gs sample_worker = Inr pgs \<and> map layer_names pgs = [[''w0''], [''w1''], [''f0'']]"
proof -
  obtain gs where gs: "get_kv_cache_groups sample_engine_config sample_layers = Inr gs"
      "map layer_names gs = [[''w0'', ''w2''], [''w1''], [''f0'', ''f1'']]"
    using sample_layers_groups by (elim exE conjE) (rule that)
  have "case bindR (get_kv_cache_groups sample_engine_config sample_layers) (\<lambda>gs. project_kv_cache_groups_to_worker gs sample_worker) of
      Inl e \<Rightarrow> False | Inr pgs \<Rightarrow> True"
    by code_simp
  then obtain pgs where pgs: "project_kv_cache_groups_to_worker gs sample_worker = Inr pgs"
    unfolding gs(1) bindR_Inr by (auto split: sum.splits)
  have "od_wf sample_layers" "od_wf sample_worker" "set (od_keys sample_worker) \<subseteq> set (od_keys sample_layers)"
    by (simp_all add: sample_layers_def sample_worker_def od_wf_def)
  note k = kv_cache_groups_partition [OF this(1) gs(1), THEN conjunct2, THEN conjunct2]
    and w = this(2,3)
  have p: "one_page_size (group_spec ` set gs)" "projected_groups sample_worker gs pgs"
    by (rule k [THEN conjunct1]) (rule k [THEN conjunct2, rule_format, OF w pgs])
  have "map layer_names pgs = map (filter (\<lambda>n. n \<in> set (od_keys sample_worker))) (map layer_names gs)"
    using p(2) by (simp add: projected_groups_def comp_def)
  then have w: "map layer_names pgs = [[''w0''], [''w1''], [''f0'']]" unfolding gs(2) by (simp add: sample_worker_def)
  show ?thesis by (intro exI conjI) (rule gs(1) p(1) pgs w)+
qed

end
