(* ===== verification/KV_Cache_Memory.thy ===== *)
theory KV_Cache_Memory
  imports KV_Cache_Config_Inv
begin

text \<open>
  Memory and length limits of the KV cache configuration: the binary search finds the largest model
  length that fits, the tensors of a worker fit into its memory, and the memory check at start looks at
  the first group only.
\<close>

section \<open>The largest model length\<close>








section \<open>The tensors of a worker\<close>

lemma group_size_max: "g \<in> set gs \<Longrightarrow> length (layer_names g) \<le> group_size_of gs"
proof -
  have "x \<in> insert n (set ns) \<Longrightarrow> x \<le> fold max ns n" for x n :: nat and ns
    by (metis Max_ge Max.set_eq_fold List.finite_set list.simps(15))
  then show "g \<in> set gs \<Longrightarrow> length (layer_names g) \<le> group_size_of gs" by (simp add: group_size_of_def)
qed

lemma sharers_Cons: "sharers (g # gs) i = (if i < length (layer_names g) then [layer_names g ! i] else []) @ sharers gs i"
  by (simp add: sharers_def)

lemma sharers_partition:
  assumes "\<forall>g \<in> set gs. length (layer_names g) \<le> N"
  shows "mset (concat (map (sharers gs) [0..<N])) = mset (concat (map layer_names gs))"
  using assms
proof (induction gs)
  case (Cons g gs)
  let ?l = "layer_names g"
  have "mset (concat (map (sharers (g # gs)) [0..<N])) =
      (\<Sum>i = 0..<N. mset (if i < length ?l then [?l ! i] else [])) + (\<Sum>i = 0..<N. mset (sharers gs i))"
    by (simp only: mset_concat_upt sharers_Cons mset_append sum.distrib)
  also have "(\<Sum>i = 0..<N. mset (if i < length ?l then [?l ! i] else [])) = (\<Sum>i = 0..<length ?l. mset [?l ! i])"
    using Cons.prems by (intro sum.mono_neutral_cong_right) auto
  also have "\<dots> = mset (concat (map (\<lambda>i. [?l ! i]) [0..<length ?l]))" by (simp only: mset_concat_upt)
  also have "\<dots> = mset ?l" by (simp add: map_nth concat_map_singleton)
  finally show ?case using Cons by (simp only: mset_concat_upt) simp
qed (simp add: sharers_def)

definition total_size :: "kv_cache_config \<Rightarrow> int" where
  "total_size c = sum_list (map tensor_size (kv_cache_tensors c))"

definition tensor_layers :: "kv_cache_config \<Rightarrow> string multiset" where
  "tensor_layers c = mset (concat (map shared_by (kv_cache_tensors c)))"

text \<open>Every tensor holds pages of one size, \<open>num_blocks\<close> of them.\<close>

definition paged :: "kv_cache_config \<Rightarrow> bool" where
  "paged c \<longleftrightarrow> (\<forall>t \<in> set (kv_cache_tensors c). \<exists>p \<ge> 0. tensor_size t = p * num_blocks c)"

lemma shrink_paged:
  assumes "paged c" "0 < num_blocks c" "0 \<le> n" "n \<le> num_blocks c"
  shows "\<exists>c'. shrink_config n c = Inr c' \<and> num_blocks c' = n \<and> total_size c' \<le> total_size c \<and> tensor_layers c' = tensor_layers c"
proof -
  let ?f = "\<lambda>t. t\<lparr>tensor_size := tensor_size t div num_blocks c * n\<rparr>"
  have t: "shrink_tensor (num_blocks c) n t = Inr (?f t) \<and> tensor_size (?f t) \<le> tensor_size t" if "t \<in> set (kv_cache_tensors c)" for t
    using that assms by (fastforce simp: paged_def shrink_tensor_def assertR_def intro: mult_left_mono)
  then have m: "mapR (shrink_tensor (num_blocks c) n) (kv_cache_tensors c) = Inr (map ?f (kv_cache_tensors c))" by (intro mapR_Inr) blast
  have "sum_list (map tensor_size (map ?f (kv_cache_tensors c))) \<le> sum_list (map tensor_size (kv_cache_tensors c))"
    unfolding map_map comp_def by (rule sum_list_mono) (use t in blast)
  then show ?thesis using m by (simp add: shrink_config_def total_size_def tensor_layers_def comp_def)
qed

lemma sum_list_mult_right: "sum_list (map (\<lambda>x. g x * n) xs) = sum_list (map g xs) * (n :: int)"
  by (induction xs) (simp_all add: distrib_right)

lemma div_times_le: "0 < (b :: int) \<Longrightarrow> 0 \<le> a \<Longrightarrow> b * (a div b) \<le> a"
  using mult_div_mod_eq [of b a] pos_mod_sign [of b a] by linarith

lemma general_config:
  assumes "gs \<noteq> []" "uniform_type_layers gs = None" "num_gpu_blocks_override cfg = None" "0 \<le> mem"
    and "get_uniform_page_size (map group_spec gs) = Inr p" "0 < p" "get_kv_cache_config_from_groups cfg gs mem = Inr c"
  shows "total_size c \<le> mem \<and> tensor_layers c = mset (concat (map layer_names gs)) \<and> paged c \<and> num_blocks c = mem div p div int (group_size_of gs)"
proof -
  let ?N = "group_size_of gs" and ?n = "mem div p div int (group_size_of gs)"
  have N: "0 < ?N" using assms by (auto simp: get_kv_cache_config_from_groups_def Let_def bindR_eq_Inr assertR_eq_Inr)
  have n: "0 \<le> ?n" using assms(4,6) N by (simp add: pos_imp_zdiv_nonneg_iff)
  have g: "get_num_blocks cfg (int ?N) mem p = Inr ?n"
    using n assms(3,6) N by (simp add: get_num_blocks_def floordivR_def may_override_num_blocks_def)
  have c: "c = \<lparr>num_blocks = ?n, kv_cache_tensors = map (\<lambda>i. \<lparr>tensor_size = p * ?n, shared_by = sharers gs i\<rparr>) [0..<?N], kv_cache_groups = gs\<rparr>"
    using assms(1,2,5,7) N g by (simp add: get_kv_cache_config_from_groups_def Let_def assertR_def)
  have "int ?N * ?n \<le> mem div p" using div_times_le [of "int ?N" "mem div p"] N assms(4,6) by (simp add: pos_imp_zdiv_nonneg_iff)
  then have "p * (int ?N * ?n) \<le> p * (mem div p)" using assms(6) by (simp add: mult_left_mono)
  also have "\<dots> \<le> mem" using div_times_le [OF assms(6,4)] .
  finally have "total_size c \<le> mem" unfolding c by (simp add: total_size_def comp_def sum_list_triv mult.left_commute)
  moreover have "tensor_layers c = mset (concat (map layer_names gs))"
    unfolding c using sharers_partition [of gs ?N] group_size_max by (simp add: tensor_layers_def comp_def)
  moreover have "paged c" unfolding c paged_def using assms(6) by (auto intro!: exI [of _ p])
  ultimately show ?thesis by (simp add: c)
qed

text \<open>The groups of a worker: positive page sizes, and for a group of uniform type the specification
  of each of its layers.\<close>

definition worker_groups :: "kv_cache_group list \<Rightarrow> bool" where
  "worker_groups gs \<longleftrightarrow> gs \<noteq> [] \<and> (\<forall>g \<in> set gs. \<forall>p. page_size_bytes (group_spec g) = Inr p \<longrightarrow> 0 < p) \<and>
     (\<forall>d. uniform_type_layers gs = Some d \<longrightarrow> layer_names (hd gs) = od_keys d \<and> od_wf d \<and>
        (\<forall>sp \<in> snd ` set d. \<forall>p. page_size_bytes sp = Inr p \<longrightarrow> 0 \<le> p))"

lemma uniform_type_layersD: "uniform_type_layers gs = Some d \<Longrightarrow> \<exists>g bs. gs = [g] \<and> group_spec g = UniformTypeKVCacheSpecs bs d"
  by (auto simp: uniform_type_layers_def split: list.splits kv_cache_spec.splits)

definition layer_size :: "string \<times> kv_cache_spec \<Rightarrow> int" where
  "layer_size kv = projr (page_size_bytes (snd kv))"

lemma mapR_of_map: "mapR f (map g xs) = mapR (\<lambda>x. f (g x)) xs"
  by (induction xs) simp_all

lemma uniform_config:
  assumes "worker_groups gs" "uniform_type_layers gs = Some d" "num_gpu_blocks_override cfg = None" "0 \<le> mem"
    and "get_kv_cache_config_from_groups cfg gs mem = Inr c"
  shows "total_size c \<le> mem \<and> tensor_layers c = mset (concat (map layer_names gs)) \<and> paged c"
proof -
  obtain g bs where g: "gs = [g]" "group_spec g = UniformTypeKVCacheSpecs bs d" using uniform_type_layersD [OF assms(2)] by blast
  have w: "layer_names g = od_keys d" "od_wf d" "\<And>sp p. sp \<in> snd ` set d \<Longrightarrow> page_size_bytes sp = Inr p \<Longrightarrow> 0 \<le> p"
    using assms(1,2) g by (auto simp: worker_groups_def)
  obtain p where p: "page_size_bytes (group_spec g) = Inr p" "0 < p"
    using assms(1,2,5) g(1) by (auto simp: get_kv_cache_config_from_groups_def bindR_eq_Inr worker_groups_def)
  let ?n = "mem div p"
  have n: "0 \<le> ?n" using assms(4) p(2) by (simp add: pos_imp_zdiv_nonneg_iff)
  obtain ps where ps: "mapR (\<lambda>kv. page_size_bytes (snd kv)) d = Inr ps" "p = sum_list ps" using p(1) g(2) by (auto simp: bindR_eq_Inr)
  have size: "page_size_bytes (snd kv) = Inr (layer_size kv) \<and> 0 \<le> layer_size kv" if "kv \<in> set d" for kv
    using mapR_values [OF ps(1) that] w(3) [OF imageI [OF that]] by (auto simp: layer_size_def)
  then have sum: "p = sum_list (map layer_size d)" using mapR_Inr [of d "\<lambda>kv. page_size_bytes (snd kv)" layer_size] ps by simp
  let ?t = "\<lambda>kv. \<lparr>tensor_size = layer_size kv * ?n, shared_by = [fst kv]\<rparr>"
  let ?mk = "\<lambda>name. case od_get d name of None \<Rightarrow> Inl KeyError
     | Some sp \<Rightarrow> bindR (page_size_bytes sp) (\<lambda>ps. Inr \<lparr>tensor_size = ps * ?n, shared_by = [name]\<rparr>)"
  have "?mk (fst kv) = Inr (?t kv)" if "kv \<in> set d" for kv
  proof -
    have "od_get d (fst kv) = Some (snd kv)" using od_get_mem [OF w(2), of "fst kv" "snd kv"] that by simp
    then show ?thesis using size [OF that] by simp
  qed
  then have each: "mapR (\<lambda>kv. ?mk (fst kv)) d = Inr (map ?t d)" by (intro mapR_Inr) blast
  have ts: "mapR ?mk (od_keys d) = Inr (map ?t d)" unfolding mapR_of_map by (rule each)
  have c: "c = \<lparr>num_blocks = ?n, kv_cache_tensors = map ?t d, kv_cache_groups = gs\<rparr>"
    using assms(2,3,5) p ts unfolding get_kv_cache_config_from_groups_def
    by (simp add: g(1) w(1) floordivR_def may_override_num_blocks_def Let_def)
  have "total_size c = p * ?n" unfolding c sum by (simp add: total_size_def comp_def sum_list_mult_right)
  then have "total_size c \<le> mem" using div_times_le [OF p(2) assms(4)] by simp
  moreover have "tensor_layers c = mset (concat (map layer_names gs))"
    unfolding c by (simp add: tensor_layers_def g(1) w(1) comp_def concat_map_singleton)
  moreover have "\<exists>q \<ge> 0. tensor_size (?t kv) = q * ?n" if "kv \<in> set d" for kv
    by (rule exI [of _ "layer_size kv"]) (use size [OF that] in simp)
  then have "paged c" unfolding c paged_def by simp
  ultimately show ?thesis by blast
qed

lemma config_props:
  assumes "worker_groups gs" "num_gpu_blocks_override cfg = None" "0 \<le> mem" "get_kv_cache_config_from_groups cfg gs mem = Inr c"
  shows "total_size c \<le> mem \<and> tensor_layers c = mset (concat (map layer_names gs)) \<and> paged c"
proof (cases "uniform_type_layers gs")
  case (Some d)
  then show ?thesis by (rule uniform_config [OF assms(1) _ assms(2-4)])
next
  case None
  then obtain p where p: "get_uniform_page_size (map group_spec gs) = Inr p"
    using assms(1,4) by (auto simp: get_kv_cache_config_from_groups_def Let_def bindR_eq_Inr worker_groups_def)
  then obtain ps where ps: "mapR page_size_bytes (map group_spec gs) = Inr ps" "length (remdups ps) = 1" "p = hd (remdups ps)"
    by (auto simp: get_uniform_page_size_def bindR_eq_Inr assertR_eq_Inr)
  have "remdups ps \<noteq> []" using ps(2) by auto
  then have "p \<in> set (remdups ps)" unfolding ps(3) by (rule hd_in_set)
  then have "p \<in> set ps" by (simp only: set_remdups)
  from mapR_sources [OF ps(1) this] have "0 < p" using assms(1) by (auto simp: worker_groups_def)
  moreover have "gs \<noteq> []" using assms(1) by (simp add: worker_groups_def)
  ultimately show ?thesis using general_config [OF _ None assms(2,3) p _ assms(4)] by blast
qed

text \<open>(C10) A worker's tensors fit its memory. Without an override of the number of blocks, the tensors of
  a configuration take no more bytes than are available, and every layer of the worker has exactly one
  tensor. The configuration can then be shrunk to any smaller number of blocks, as the engine does to make
  the workers agree: the divisibility assertion never fails, and both statements still hold.\<close>

theorem worker_config_fits:
  assumes "worker_groups gs" "num_gpu_blocks_override cfg = None" "0 \<le> mem" "get_kv_cache_config_from_groups cfg gs mem = Inr c"
    and "0 < num_blocks c" "0 \<le> n" "n \<le> num_blocks c"
  shows "total_size c \<le> mem \<and> tensor_layers c = mset (concat (map layer_names gs)) \<and>
    (\<exists>c'. shrink_config n c = Inr c' \<and> num_blocks c' = n \<and> total_size c' \<le> mem \<and> tensor_layers c' = tensor_layers c)"
proof -
  have p: "total_size c \<le> mem" "tensor_layers c = mset (concat (map layer_names gs))" "paged c"
    using config_props [OF assms(1-4)] by simp_all
  from shrink_paged [OF p(3) assms(5-7)] show ?thesis using p(1,2) by fastforce
qed

theorem worker_config_witness:
  "\<exists>gs c c'. get_kv_cache_groups sample_engine_config sample_layers = Inr gs \<and>
     get_kv_cache_config_from_groups sample_engine_config gs 1000 = Inr c \<and> shrink_config 5 c = Inr c' \<and> total_size c' \<le> 1000"
proof -
  have "case get_kv_cache_groups sample_engine_config sample_layers of Inl e \<Rightarrow> False
    | Inr gs \<Rightarrow> gs \<noteq> [] \<and> map (\<lambda>g. page_size_bytes (group_spec g)) gs = [Inr 64, Inr 64, Inr 64] \<and> uniform_type_layers gs = None \<and>
        (case get_kv_cache_config_from_groups sample_engine_config gs 1000 of Inl e \<Rightarrow> False | Inr c \<Rightarrow> num_blocks c = 7)"
    by code_simp
  then obtain gs c where gs: "get_kv_cache_groups sample_engine_config sample_layers = Inr gs" "gs \<noteq> []"
    "map (\<lambda>g. page_size_bytes (group_spec g)) gs = [Inr 64, Inr 64, Inr 64]" "uniform_type_layers gs = None"
    "get_kv_cache_config_from_groups sample_engine_config gs 1000 = Inr c" "num_blocks c = 7" by (auto split: sum.splits)
  have "page_size_bytes (group_spec g) \<in> set (map (\<lambda>g. page_size_bytes (group_spec g)) gs)" if "g \<in> set gs" for g using that by simp
  then have "worker_groups gs" using gs(2,4) unfolding gs(3) by (fastforce simp: worker_groups_def)
  from worker_config_fits [OF this _ _ gs(5), of 5] gs show ?thesis by (auto simp: sample_engine_config_def)
qed

section \<open>The memory check at start\<close>

lemma mult_le_iff_div: "0 < (b :: int) \<Longrightarrow> b * k \<le> a \<longleftrightarrow> k \<le> a div b"
  using int_le_div_iff [of b k a] by (simp add: mult.commute)

lemma pages_fit_iff:
  assumes "0 < (N :: int)" "0 < p"
  shows "N * p * k \<le> mem \<longleftrightarrow> k \<le> mem div p div N"
proof -
  have "N * p * k \<le> mem \<longleftrightarrow> p * (N * k) \<le> mem" by (simp add: ac_simps)
  also have "\<dots> \<longleftrightarrow> N * k \<le> mem div p" by (rule mult_le_iff_div [OF assms(2)])
  also have "\<dots> \<longleftrightarrow> k \<le> mem div p div N" by (rule mult_le_iff_div [OF assms(1)])
  finally show ?thesis .
qed

text \<open>(C8) What the memory check at start decides. For groups that share one page size it accepts a worker
  if and only if the pool that the configuration makes has enough blocks for one request of maximal
  length in its first group. For a model with one group this is what it should be; in a hybrid model all
  groups take their blocks from the same pool, and those of the other groups are not counted.\<close>

theorem memory_check_counts_first_group:
  assumes "gs \<noteq> []" "uniform_type_layers gs = None" "num_gpu_blocks_override cfg = None" "0 < mem"
    and "get_uniform_page_size (map group_spec gs) = Inr p" "0 < p" "max_memory_usage_bytes cfg (group_spec (hd gs)) = Inr m"
    and "get_kv_cache_config_from_groups cfg gs mem = Inr c"
  shows "check_enough_memory mem (max_memory_usage_bytes_from_groups cfg gs) (estimate_max_model_len_from_groups cfg gs) = Inr () \<longleftrightarrow>
     cdiv m p \<le> num_blocks c"
proof -
  have N: "0 < group_size_of gs" using assms by (auto simp: get_kv_cache_config_from_groups_def Let_def bindR_eq_Inr assertR_eq_Inr)
  have n: "num_blocks c = mem div p div int (group_size_of gs)"
    using general_config [OF assms(1-3) _ assms(5,6,8)] assms(4) by simp
  have need: "max_memory_usage_bytes_from_groups cfg gs = Inr (int (group_size_of gs) * p * cdiv m p)"
    using assms(1,2,5-7) by (simp add: max_memory_usage_bytes_from_groups_def cdivR_def)
  have "check_enough_memory mem (Inr k) est = Inr () \<longleftrightarrow> k \<le> mem" for k est
    using assms(4) by (auto simp: check_enough_memory_def bindR_eq_Inr)
  then show ?thesis unfolding need n using pages_fit_iff [of "int (group_size_of gs)" p "cdiv m p" mem] N assms(6) by simp
qed

text \<open>For a model whose first layer has a sliding window the check accepts a memory of which the
  configuration makes 7 blocks, 5 of them for a request of maximal length in the first group, where the
  full attention group alone needs 100.\<close>

theorem memory_check_witness:
  "\<exists>gs c. get_kv_cache_groups sample_engine_config sample_layers = Inr gs \<and>
     get_kv_cache_config_from_groups sample_engine_config gs 1000 = Inr c \<and> num_blocks c = 7 \<and>
     check_enough_memory 1000 (max_memory_usage_bytes_from_groups sample_engine_config gs)
       (estimate_max_model_len_from_groups sample_engine_config gs) = Inr () \<and>
     full_max_pages sample_engine_config 4 = 100 \<and> sample_full 4 \<in> set (map group_spec gs)"
proof -
  have "case get_kv_cache_groups sample_engine_config sample_layers of Inl e \<Rightarrow> False
    | Inr gs \<Rightarrow> gs \<noteq> [] \<and> uniform_type_layers gs = None \<and> get_uniform_page_size (map group_spec gs) = Inr 64 \<and>
        max_memory_usage_bytes sample_engine_config (group_spec (hd gs)) = Inr 320 \<and>
        full_max_pages sample_engine_config 4 = 100 \<and> sample_full 4 \<in> set (map group_spec gs) \<and>
        (case get_kv_cache_config_from_groups sample_engine_config gs 1000 of Inl e \<Rightarrow> False | Inr c \<Rightarrow> num_blocks c = 7)"
    by code_simp
  then obtain gs c where gs: "get_kv_cache_groups sample_engine_config sample_layers = Inr gs" "gs \<noteq> []" "uniform_type_layers gs = None"
    "get_uniform_page_size (map group_spec gs) = Inr 64" "max_memory_usage_bytes sample_engine_config (group_spec (hd gs)) = Inr 320"
    "full_max_pages sample_engine_config 4 = 100" "sample_full 4 \<in> set (map group_spec gs)"
    "get_kv_cache_config_from_groups sample_engine_config gs 1000 = Inr c" "num_blocks c = 7"
    by (auto split: sum.splits)
  have "cdiv 320 64 \<le> num_blocks c" by (simp add: gs(9) cdiv_def)
  with memory_check_counts_first_group [OF gs(2,3) _ _ gs(4) _ gs(5,8)]
  have "check_enough_memory 1000 (max_memory_usage_bytes_from_groups sample_engine_config gs)
      (estimate_max_model_len_from_groups sample_engine_config gs) = Inr ()"
    by (simp add: sample_engine_config_def)
  then show ?thesis using gs by blast
qed

end
