(* ===== verification/Ngram_Proposer.thy ===== *)
theory Ngram_Proposer
  imports Request
begin

text \<open>
  The n-gram proposer of v1/spec\_decode/ngram\_proposer.py: drafts for speculative decoding are the
  tokens that followed an earlier occurrence of the last tokens of a request. The search is a
  Knuth-Morris-Pratt pass over the reversed tokens; every array access of the loop is checked in
  the model, and shown to be in range. The loop is a partial function, since its progress rests on
  the contents of the table \<^verbatim>\<open>lps\<close>. The buffers of the batch version are kept as the code keeps them:
  they are allocated once and overwritten by every call.
\<close>

section \<open>Definitions\<close>

text \<open>The variables of the loop. \<^verbatim>\<open>lps[i]\<close> is the length of the longest border of the first
  \<open>i + 1\<close> reversed tokens, stored for the first \<^verbatim>\<open>max_ngram\<close> of them.\<close>

record ngram_state =
  lps :: "nat list"
  longest_ngram :: nat
  ngram_position :: nat
  prev_lps :: nat
  loop_i :: nat

definition ngram_match :: "nat \<Rightarrow> ngram_state \<Rightarrow> ngram_state res" where
  "ngram_match max_ngram s =
     (let p = prev_lps s + 1;
          s1 = (if p \<ge> longest_ngram s then s\<lparr>longest_ngram := p, ngram_position := loop_i s\<rparr> else s);
          s2 = (if loop_i s < max_ngram then s1\<lparr>lps := (lps s1)[loop_i s := p]\<rparr> else s1)
      in bindR (if p = max_ngram then py_get (lps s2) (int max_ngram - 1) else Inr p) (\<lambda>p'.
           Inr (s2\<lparr>prev_lps := p', loop_i := loop_i s + 1\<rparr>)))"

definition ngram_step :: "token list \<Rightarrow> nat \<Rightarrow> ngram_state \<Rightarrow> ngram_state res" where
  "ngram_step tokens max_ngram s =
     bindR (py_get tokens (int (prev_lps s))) (\<lambda>a.
     bindR (py_get tokens (int (loop_i s))) (\<lambda>b.
       if a = b then ngram_match max_ngram s
       else if prev_lps s \<noteq> 0
       then bindR (py_get (lps s) (int (prev_lps s) - 1)) (\<lambda>p. Inr (s\<lparr>prev_lps := p\<rparr>))
       else Inr (s\<lparr>loop_i := loop_i s + 1\<rparr>)))"

partial_function (option) ngram_loop :: "token list \<Rightarrow> nat \<Rightarrow> ngram_state \<Rightarrow> ngram_state res option" where
  "ngram_loop tokens max_ngram s =
     (if loop_i s < length tokens
      then (case ngram_step tokens max_ngram s of
              Inl e \<Rightarrow> Some (Inl e)
            | Inr s' \<Rightarrow> ngram_loop tokens max_ngram s')
      else Some (Inr s))"

definition initial_ngram_state :: "nat \<Rightarrow> ngram_state" where
  "initial_ngram_state max_ngram =
     \<lparr>lps = replicate max_ngram 0, longest_ngram = 0, ngram_position = 0, prev_lps = 0, loop_i = 1\<rparr>"

text \<open>The function returns None if its loop does not end.\<close>

definition find_longest_matched_ngram_and_propose_tokens ::
    "token list \<Rightarrow> nat \<Rightarrow> nat \<Rightarrow> int \<Rightarrow> int \<Rightarrow> token list res option" where
  "find_longest_matched_ngram_and_propose_tokens origin_tokens min_ngram max_ngram max_model_len k =
     (let total_token = length origin_tokens;
          k1 = min k (max_model_len - int total_token)
      in if total_token < min_ngram then Some (Inr [])
         else if k1 \<le> 0 then Some (Inr [])
         else (case ngram_loop (rev origin_tokens) max_ngram (initial_ngram_state max_ngram) of
                 None \<Rightarrow> None
               | Some (Inl e) \<Rightarrow> Some (Inl e)
               | Some (Inr s) \<Rightarrow>
                   if longest_ngram s < min_ngram then Some (Inr [])
                   else let start_position = total_token - 1 - ngram_position s + longest_ngram s;
                            k2 = min k1 (int total_token - int start_position)
                        in Some (Inr (py_slice start_position (start_position + nat k2) origin_tokens))))"

text \<open>The proposer: \<open>draft_rows\<close> and \<open>num_drafts\<close> are the buffers \<^verbatim>\<open>valid_ngram_draft\<close> and
  \<^verbatim>\<open>valid_ngram_num_drafts\<close>. The number of threads does not affect the result: each index of the
  batch writes its own row.\<close>

record ngram_proposer =
  min_n :: nat
  max_n :: nat
  draft_k :: nat
  np_max_model_len :: int
  draft_rows :: "token list list"
  num_drafts :: "nat list"

definition new_ngram_proposer :: "nat \<Rightarrow> nat \<Rightarrow> nat \<Rightarrow> int \<Rightarrow> nat \<Rightarrow> ngram_proposer" where
  "new_ngram_proposer prompt_lookup_min prompt_lookup_max num_speculative_tokens max_len max_num_seqs =
     \<lparr>min_n = prompt_lookup_min, max_n = prompt_lookup_max, draft_k = num_speculative_tokens,
      np_max_model_len = max_len, draft_rows = replicate max_num_seqs (replicate num_speculative_tokens 0),
      num_drafts = replicate max_num_seqs 0\<rparr>"

text \<open>Writing the proposal of one request into its row: a longer proposal than the row, or an index
  past the buffers, is an IndexError of the model.\<close>

definition store_draft :: "ngram_proposer \<Rightarrow> nat \<Rightarrow> token list \<Rightarrow> ngram_proposer res" where
  "store_draft np idx out =
     (if idx < length (num_drafts np) \<and> idx < length (draft_rows np) \<and> length out \<le> length (draft_rows np ! idx)
      then Inr (np\<lparr>num_drafts := (num_drafts np)[idx := length out],
                   draft_rows := (if out = [] then draft_rows np
                                  else (draft_rows np)[idx := out @ drop (length out) (draft_rows np ! idx)])\<rparr>)
      else Inl IndexError)"

fun batch_propose_numba ::
    "nat list \<Rightarrow> nat list \<Rightarrow> token list list \<Rightarrow> ngram_proposer \<Rightarrow> ngram_proposer res option" where
  "batch_propose_numba [] num_tokens_no_spec token_ids_cpu np = Some (Inr np)"
| "batch_propose_numba (idx # ids) num_tokens_no_spec token_ids_cpu np =
     (case bindR (py_get num_tokens_no_spec (int idx)) (\<lambda>n.
             bindR (py_get token_ids_cpu (int idx)) (\<lambda>row. Inr (take n row))) of
        Inl e \<Rightarrow> Some (Inl e)
      | Inr context_token_ids \<Rightarrow>
          (case find_longest_matched_ngram_and_propose_tokens context_token_ids (min_n np) (max_n np)
                  (np_max_model_len np) (int (draft_k np)) of
             None \<Rightarrow> None
           | Some r \<Rightarrow>
               (case bindR r (store_draft np idx) of
                  Inl e \<Rightarrow> Some (Inl e)
                | Inr np' \<Rightarrow> batch_propose_numba ids num_tokens_no_spec token_ids_cpu np')))"

text \<open>The lists that \<^verbatim>\<open>batch_propose\<close> returns are read back from the buffers.\<close>

definition read_draft :: "ngram_proposer \<Rightarrow> nat list \<Rightarrow> nat \<Rightarrow> token list res" where
  "read_draft np valid_ngram_requests i =
     (if i \<in> set valid_ngram_requests
      then bindR (py_get (num_drafts np) (int i)) (\<lambda>n.
             if n > 0 then bindR (py_get (draft_rows np) (int i)) (\<lambda>row. Inr (take n row)) else Inr [])
      else Inr [])"

definition batch_propose ::
    "nat \<Rightarrow> nat list \<Rightarrow> nat list \<Rightarrow> token list list \<Rightarrow> ngram_proposer \<Rightarrow> (token list list \<times> ngram_proposer) res option" where
  "batch_propose num_requests valid_ngram_requests num_tokens_no_spec token_ids_cpu np =
     (case (if valid_ngram_requests \<noteq> []
            then batch_propose_numba valid_ngram_requests num_tokens_no_spec token_ids_cpu np
            else Some (Inr np)) of
        None \<Rightarrow> None
      | Some r \<Rightarrow> Some (bindR r (\<lambda>np'.
          bindR (mapR (read_draft np' valid_ngram_requests) [0..<num_requests]) (\<lambda>drafts. Inr (drafts, np')))))"

fun needs_ngram :: "ngram_proposer \<Rightarrow> nat list \<Rightarrow> (nat \<times> token list) list \<Rightarrow> nat list res" where
  "needs_ngram np num_tokens_no_spec [] = Inr []"
| "needs_ngram np num_tokens_no_spec ((i, sampled_ids) # rest) =
     (if sampled_ids = [] then needs_ngram np num_tokens_no_spec rest
      else bindR (py_get num_tokens_no_spec (int i)) (\<lambda>num_tokens.
             if int num_tokens \<ge> np_max_model_len np then needs_ngram np num_tokens_no_spec rest
             else bindR (needs_ngram np num_tokens_no_spec rest) (\<lambda>is. Inr (i # is))))"

definition propose ::
    "token list list \<Rightarrow> nat list \<Rightarrow> token list list \<Rightarrow> ngram_proposer \<Rightarrow> (token list list \<times> ngram_proposer) res option" where
  "propose sampled_token_ids num_tokens_no_spec token_ids_cpu np =
     (case needs_ngram np num_tokens_no_spec (zip [0..<length sampled_token_ids] sampled_token_ids) of
        Inl e \<Rightarrow> Some (Inl e)
      | Inr valid_ngram_requests \<Rightarrow>
          batch_propose (length sampled_token_ids) valid_ngram_requests num_tokens_no_spec token_ids_cpu np)"

section \<open>Borders\<close>

text \<open>\<open>border t e v\<close>: the first \<open>v\<close> elements of \<open>t\<close> occur again right before position \<open>e\<close>, not at
  the very start.\<close>

definition border :: "'a list \<Rightarrow> nat \<Rightarrow> nat \<Rightarrow> bool" where
  "border t e v = (v < e \<and> (\<forall>j<v. t ! j = t ! (e - v + j)))"

lemma border_0 [simp]: "border t e 0 \<longleftrightarrow> 0 < e"
  by (simp add: border_def)

lemma border_less: "border t e v \<Longrightarrow> v < e"
  by (simp add: border_def)

lemma border_Suc: "border t (Suc e) (Suc v) \<longleftrightarrow> border t e v \<and> t ! v = t ! e"
  by (auto simp: border_def less_Suc_eq)

lemma border_chain:
  assumes p: "border t e p" and w: "w < p"
  shows "border t e w \<longleftrightarrow> border t p w"
proof -
  have "t ! (p - w + j) = t ! (e - w + j)" if "j < w" for j
  proof -
    have "p - w + j < p" "e - p + (p - w + j) = e - w + j"
      using that w border_less [OF p] by auto
    then show ?thesis using p by (metis border_def)
  qed
  then show ?thesis using w border_less [OF p] by (auto simp: border_def)
qed

text \<open>\<open>v\<close> is the longest border before \<open>e\<close> of length at most \<open>m\<close>.\<close>

definition longest_border :: "nat \<Rightarrow> 'a list \<Rightarrow> nat \<Rightarrow> nat \<Rightarrow> bool" where
  "longest_border m t e v = (border t e v \<and> v \<le> m \<and> (\<forall>w\<le>m. border t e w \<longrightarrow> w \<le> v))"

lemma longest_border_extend:
  assumes "border t e p" "p < m" "\<forall>w<m. border t (Suc e) (Suc w) \<longrightarrow> w \<le> p" "t ! p = t ! e"
  shows "longest_border m t (Suc e) (Suc p)"
  unfolding longest_border_def
proof (intro conjI allI impI)
  show "border t (Suc e) (Suc p)" "Suc p \<le> m" using assms by (simp_all add: border_Suc)
  fix w assume "w \<le> m" "border t (Suc e) w"
  with assms(3) show "w \<le> Suc p" by (cases w) auto
qed

lemma longest_border_none:
  assumes "\<forall>w<m. border t (Suc e) (Suc w) \<longrightarrow> w \<le> 0" "t ! 0 \<noteq> t ! e"
  shows "longest_border m t (Suc e) 0"
  unfolding longest_border_def
proof (intro conjI allI impI)
  fix w assume w: "w \<le> m" "border t (Suc e) w"
  show "w \<le> 0"
  proof (cases w)
    case (Suc w')
    with w assms(1) have "w' = 0" by auto
    with w Suc assms(2) show ?thesis by (simp add: border_Suc)
  qed simp
qed simp_all

text \<open>What may be extended at the next position is a shorter border of the longest one.\<close>

lemma next_candidates:
  assumes "longest_border m t e v" "w < m" "border t (Suc e) (Suc w)"
  shows "w \<le> v"
  using assms by (auto simp: longest_border_def border_Suc)

lemma shorter_candidates:
  assumes "border t e p" "longest_border m t p v" "w < p" "w \<le> m" "border t (Suc e) (Suc w)"
  shows "w \<le> v"
  using assms border_chain [OF assms(1,3)] by (auto simp: longest_border_def border_Suc)

section \<open>The loop\<close>

text \<open>The table holds the longest borders of the first positions, 0 where it is not filled yet.\<close>

definition lps_table :: "nat \<Rightarrow> 'a list \<Rightarrow> nat \<Rightarrow> nat list \<Rightarrow> bool" where
  "lps_table m t i table =
     (length table = m \<and> (\<forall>e. 1 \<le> e \<and> e \<le> m \<and> e \<le> i \<longrightarrow> longest_border m t e (table ! (e - 1)))
      \<and> (\<forall>j. i \<le> j \<and> j < m \<longrightarrow> table ! j = 0))"

text \<open>The best border so far, and the last position where one of its length ends.\<close>

definition best_border :: "nat \<Rightarrow> 'a list \<Rightarrow> nat \<Rightarrow> nat \<Rightarrow> nat \<Rightarrow> bool" where
  "best_border m t i L P =
     (L \<le> m \<and> (\<forall>e w. e \<le> i \<and> w \<le> m \<and> border t e w \<longrightarrow> w \<le> L)
      \<and> (0 < L \<longrightarrow> P < i \<and> border t (Suc P) L \<and> (\<forall>e. Suc P < e \<and> e \<le> i \<longrightarrow> \<not> border t e L)))"

definition ngram_inv :: "nat \<Rightarrow> token list \<Rightarrow> ngram_state \<Rightarrow> bool" where
  "ngram_inv m t s =
     (1 \<le> loop_i s \<and> loop_i s \<le> length t \<and> prev_lps s < m \<and> border t (loop_i s) (prev_lps s)
      \<and> (\<forall>w<m. border t (Suc (loop_i s)) (Suc w) \<longrightarrow> w \<le> prev_lps s)
      \<and> lps_table m t (loop_i s) (lps s)
      \<and> best_border m t (loop_i s) (longest_ngram s) (ngram_position s))"

lemma longest_border_least: "longest_border m t e 0 \<Longrightarrow> border t e w \<Longrightarrow> w \<le> m \<Longrightarrow> w = 0"
  by (auto simp: longest_border_def)

lemma lps_table_next:
  assumes "lps_table m t i table" "longest_border m t (Suc i) v"
  shows "lps_table m t (Suc i) (if i < m then table[i := v] else table)"
  using assms by (auto simp: lps_table_def nth_list_update le_Suc_eq)

lemma lps_table_next_0:
  assumes "lps_table m t i table" "longest_border m t (Suc i) 0"
  shows "lps_table m t (Suc i) table"
proof (cases "i < m")
  case True
  then have "table[i := 0] = table" using assms(1) by (simp add: lps_table_def list_update_same_conv)
  then show ?thesis using lps_table_next [OF assms] True by simp
next
  case False
  then show ?thesis using lps_table_next [OF assms] by simp
qed

lemma best_border_next:
  assumes "best_border m t i L P" "longest_border m t (Suc i) v" "0 < v"
  shows "best_border m t (Suc i) (if v \<ge> L then v else L) (if v \<ge> L then i else P)"
  using assms by (fastforce simp: best_border_def longest_border_def le_Suc_eq)

lemma best_border_next_0:
  assumes "best_border m t i L P" "longest_border m t (Suc i) 0"
  shows "best_border m t (Suc i) L P"
  using assms by (fastforce simp: best_border_def longest_border_def le_Suc_eq)

lemma lps_table_entry:
  "lps_table m t i table \<Longrightarrow> 1 \<le> e \<Longrightarrow> e \<le> m \<Longrightarrow> e \<le> i \<Longrightarrow>
   py_get table (int e - 1) = Inr (table ! (e - 1)) \<and> longest_border m t e (table ! (e - 1))"
  by (auto simp: lps_table_def py_get_def nat_diff_distrib')

text \<open>The three branches of a round.\<close>

lemma ngram_match_ok:
  assumes inv: "ngram_inv m t s" and i: "loop_i s < length t" and eq: "t ! prev_lps s = t ! loop_i s"
  shows "\<exists>s'. ngram_match m s = Inr s' \<and> ngram_inv m t s' \<and> loop_i s' = Suc (loop_i s)
           \<and> prev_lps s' \<le> Suc (prev_lps s)"
proof -
  let ?p = "prev_lps s" and ?i = "loop_i s"
  note d = inv [unfolded ngram_inv_def]
  have lb: "longest_border m t (Suc ?i) (Suc ?p)"
    using d eq by (intro longest_border_extend) auto
  define tab where "tab = (if ?i < m then (lps s)[?i := Suc ?p] else lps s)"
  have tab: "lps_table m t (Suc ?i) tab"
    unfolding tab_def using d lb by (intro lps_table_next) auto
  define L P where "L = (if Suc ?p \<ge> longest_ngram s then Suc ?p else longest_ngram s)"
    and "P = (if Suc ?p \<ge> longest_ngram s then ?i else ngram_position s)"
  have best: "best_border m t (Suc ?i) L P"
    unfolding L_def P_def using d lb by (intro best_border_next) auto
  define p' where "p' = (if Suc ?p = m then tab ! (m - 1) else Suc ?p)"
  let ?s' = "s\<lparr>lps := tab, longest_ngram := L, ngram_position := P, prev_lps := p', loop_i := Suc ?i\<rparr>"
  have get: "Suc ?p = m \<Longrightarrow> py_get tab (int m - 1) = Inr (tab ! (m - 1)) \<and> longest_border m t m (tab ! (m - 1))"
    using lps_table_entry [OF tab, of m] d by (auto dest: border_less)
  have bm: "border t (Suc ?i) (Suc ?p)" using lb by (simp add: longest_border_def)
  have p': "p' < m \<and> border t (Suc ?i) p' \<and> (\<forall>w<m. border t (Suc (Suc ?i)) (Suc w) \<longrightarrow> w \<le> p') \<and> p' \<le> Suc ?p"
  proof (cases "Suc ?p = m")
    case True
    with get have v: "longest_border m t m p'" by (simp add: p'_def)
    then have "border t m p'" by (simp add: longest_border_def)
    then have "p' < m" "border t (Suc ?i) p'"
      using border_less border_chain [OF bm, of p'] True by auto
    moreover have "w \<le> p'" if "w < m" "border t (Suc (Suc ?i)) (Suc w)" for w
      using shorter_candidates [OF bm _ _ _ that(2)] v that(1) True by simp
    ultimately show ?thesis using True by auto
  next
    case False
    then show ?thesis using d bm next_candidates [OF lb] by (auto simp: p'_def)
  qed
  have "ngram_inv m t ?s'"
    using p' tab best i by (simp add: ngram_inv_def)
  moreover have "ngram_match m s = Inr ?s'"
    using get by (auto simp: ngram_match_def Let_def tab_def L_def P_def p'_def)
  ultimately show ?thesis using p' by auto
qed

lemma ngram_step_ok:
  assumes inv: "ngram_inv m t s" and i: "loop_i s < length t"
  shows "\<exists>s'. ngram_step t m s = Inr s' \<and> ngram_inv m t s'
           \<and> 2 * (length t - loop_i s') + prev_lps s' < 2 * (length t - loop_i s) + prev_lps s"
proof -
  let ?p = "prev_lps s" and ?i = "loop_i s"
  note d = inv [unfolded ngram_inv_def]
  have p: "?p < ?i" using d border_less by blast
  then have get: "py_get t (int ?p) = Inr (t ! ?p)" "py_get t (int ?i) = Inr (t ! ?i)"
    using i by simp_all
  consider "t ! ?p = t ! ?i" | "t ! ?p \<noteq> t ! ?i" "?p \<noteq> 0" | "t ! ?p \<noteq> t ! ?i" "?p = 0" by blast
  then show ?thesis
  proof cases
    case 1
    with ngram_match_ok [OF inv i] show ?thesis
      using get i by (fastforce simp: ngram_step_def)
  next
    case 2
    have e: "py_get (lps s) (int ?p - 1) = Inr (lps s ! (?p - 1))" "longest_border m t ?p (lps s ! (?p - 1))"
      using lps_table_entry [of m t ?i "lps s" ?p] d p 2 by auto
    let ?v = "lps s ! (?p - 1)"
    have v: "?v < ?p" "border t ?p ?v" using e(2) border_less by (auto simp: longest_border_def)
    have "w \<le> ?v" if "w < m" "border t (Suc ?i) (Suc w)" for w
    proof -
      have "w \<le> ?p" "w \<noteq> ?p" using d that 2 by (auto simp: border_Suc)
      then show ?thesis using shorter_candidates [OF _ e(2) _ _ that(2)] d that(1) by auto
    qed
    then have "ngram_inv m t (s\<lparr>prev_lps := ?v\<rparr>)"
      using d v border_chain [of t ?i ?p ?v] by (simp add: ngram_inv_def)
    then show ?thesis using get e(1) 2 v by (simp add: ngram_step_def)
  next
    case 3
    have lb: "longest_border m t (Suc ?i) 0" using d 3 by (intro longest_border_none) auto
    have "ngram_inv m t (s\<lparr>loop_i := Suc ?i\<rparr>)"
      using d 3 i lps_table_next_0 [OF _ lb] best_border_next_0 [OF _ lb] next_candidates [OF lb]
      by (simp add: ngram_inv_def)
    then show ?thesis using get i 3 by (simp add: ngram_step_def)
  qed
qed

lemma ngram_loop_ok:
  assumes "ngram_inv m t s"
  shows "\<exists>s'. ngram_loop t m s = Some (Inr s') \<and> ngram_inv m t s' \<and> loop_i s' = length t"
  using assms
proof (induction "2 * (length t - loop_i s) + prev_lps s" arbitrary: s rule: less_induct)
  case less
  show ?case
  proof (cases "loop_i s < length t")
    case True
    then obtain s1 where s1: "ngram_step t m s = Inr s1" "ngram_inv m t s1"
        "2 * (length t - loop_i s1) + prev_lps s1 < 2 * (length t - loop_i s) + prev_lps s"
      using ngram_step_ok [OF less.prems] by blast
    with less.hyps [OF s1(3,2)] True show ?thesis by (simp add: ngram_loop.simps [of t m s])
  next
    case False
    moreover from this have "loop_i s = length t" using less.prems by (simp add: ngram_inv_def)
    ultimately show ?thesis using less.prems by (simp add: ngram_loop.simps [of t m s])
  qed
qed

lemma initial_ngram_inv: "t \<noteq> [] \<Longrightarrow> 0 < m \<Longrightarrow> ngram_inv m t (initial_ngram_state m)"
  unfolding ngram_inv_def lps_table_def best_border_def initial_ngram_state_def
  by (cases t) (auto simp: longest_border_def border_def le_Suc_eq Suc_le_eq)

section \<open>The proposal\<close>

text \<open>The reference: the earlier positions where the last \<open>n\<close> tokens occur, the largest allowed \<open>n\<close>
  that has one, and the tokens after the first of them.\<close>

definition earlier_positions :: "token list \<Rightarrow> nat \<Rightarrow> nat list" where
  "earlier_positions toks n =
     filter (\<lambda>p. take n (drop p toks) = drop (length toks - n) toks) [0..<length toks - n]"

definition ngram_reference :: "token list \<Rightarrow> nat \<Rightarrow> nat \<Rightarrow> int \<Rightarrow> int \<Rightarrow> token list" where
  "ngram_reference toks min_ngram max_ngram max_model_len k =
     (case filter (\<lambda>n. earlier_positions toks n \<noteq> []) (rev [min_ngram..<Suc max_ngram]) of
        [] \<Rightarrow> []
      | n # _ \<Rightarrow> take (nat (min k (max_model_len - int (length toks)))) (drop (hd (earlier_positions toks n) + n) toks))"

lemma filter_first:
  assumes "xs = ys @ x # zs" "P x" "\<forall>y\<in>set ys. \<not> P y"
  shows "filter P xs = x # filter P zs"
  using assms by (simp add: filter_empty_conv [THEN iffD2])

lemma upt_split: "a \<le> p \<Longrightarrow> p < b \<Longrightarrow> [a..<b] = [a..<p] @ p # [Suc p..<b]"
  using upt_add_eq_append [of a p "b - p"] by (simp add: upt_conv_Cons)

lemma earlier_iff_border:
  assumes w: "w \<le> length ts" and p: "p < length ts - w"
  shows "take w (drop p ts) = drop (length ts - w) ts \<longleftrightarrow> border (rev ts) (length ts - p) w"
proof -
  let ?n = "length ts"
  have "take w (drop p ts) = drop (?n - w) ts \<longleftrightarrow> (\<forall>j<w. ts ! (p + j) = ts ! (?n - w + j))"
    using w p by (auto simp: list_eq_iff_nth_eq)
  also have "\<dots> \<longleftrightarrow> (\<forall>j<w. ts ! (p + (w - 1 - j)) = ts ! (?n - w + (w - 1 - j)))"
    by (metis (no_types, lifting) Suc_diff_1 diff_diff_cancel diff_less_Suc less_Suc_eq_le less_nat_zero_code
        bot_nat_0.not_eq_extremum)
  also have "\<dots> \<longleftrightarrow> (\<forall>j<w. rev ts ! j = rev ts ! (?n - p - w + j))"
  proof -
    have "rev ts ! j = ts ! (?n - w + (w - 1 - j)) \<and> rev ts ! (?n - p - w + j) = ts ! (p + (w - 1 - j))" if "j < w" for j
      using that w p by (simp add: rev_nth)
    then show ?thesis by (metis (full_types))
  qed
  finally show ?thesis using p by (auto simp: border_def)
qed

lemma earlier_positions_border:
  "w \<le> length ts \<Longrightarrow> p \<in> set (earlier_positions ts w) \<longleftrightarrow> p < length ts - w \<and> border (rev ts) (length ts - p) w"
  using earlier_iff_border by (auto simp: earlier_positions_def)

lemma slice_to_the_end:
  assumes "a \<le> length xs"
  shows "py_slice a (a + nat (min k (int (length xs) - int a))) xs = take (nat k) (drop a xs)"
proof -
  have "nat (min k (int (length xs) - int a)) = min (nat k) (length xs - a)" using assms by linarith
  then show ?thesis by (simp add: py_slice_def drop_take min_def)
qed

text \<open>The state at the end of the loop determines the reference.\<close>

lemma ngram_end_none:
  assumes best: "best_border m (rev ts) (length ts) L P" and "L < n" "n \<le> m"
  shows "earlier_positions ts n = []"
proof (rule ccontr)
  assume "earlier_positions ts n \<noteq> []"
  then obtain p where p: "p \<in> set (earlier_positions ts n)" by (cases "earlier_positions ts n") auto
  then have "n < length ts" by (auto simp: earlier_positions_def)
  with p have "border (rev ts) (length ts - p) n" using earlier_positions_border [of n ts p] by auto
  moreover have "\<forall>e w. e \<le> length ts \<and> w \<le> m \<and> border (rev ts) e w \<longrightarrow> w \<le> L"
    using best unfolding best_border_def by blast
  ultimately have "n \<le> L" using \<open>n \<le> m\<close> by (metis diff_le_self)
  with \<open>L < n\<close> show False by simp
qed

lemma ngram_end_first:
  assumes best: "best_border m (rev ts) (length ts) L P" and L: "0 < L"
  shows "P < length ts" "L \<le> P" "earlier_positions ts L \<noteq> []" "hd (earlier_positions ts L) = length ts - 1 - P"
proof -
  have b: "P < length ts" "border (rev ts) (Suc P) L" "\<And>e. Suc P < e \<Longrightarrow> e \<le> length ts \<Longrightarrow> \<not> border (rev ts) e L"
    using best L by (auto simp: best_border_def)
  show "P < length ts" by (rule b)
  show LP: "L \<le> P" using border_less [OF b(2)] by simp
  let ?p = "length ts - 1 - P"
  have p: "?p < length ts - L" using b(1) LP by simp
  have "earlier_positions ts L = ?p # filter (\<lambda>p. take L (drop p ts) = drop (length ts - L) ts) [Suc ?p..<length ts - L]"
    unfolding earlier_positions_def
  proof (rule filter_first [OF upt_split [OF _ p]])
    have "length ts - ?p = Suc P" using b(1) by simp
    then show "take L (drop ?p ts) = drop (length ts - L) ts"
      using earlier_iff_border [of L ts ?p] b p LP by simp
    show "\<forall>y\<in>set [0..<?p]. take L (drop y ts) \<noteq> drop (length ts - L) ts"
      using earlier_iff_border [of L ts] b p LP by auto
  qed simp
  then show "earlier_positions ts L \<noteq> []" "hd (earlier_positions ts L) = ?p" by simp_all
qed

lemma ngram_reference_none:
  "\<forall>n. min_ngram \<le> n \<and> n \<le> max_ngram \<longrightarrow> earlier_positions ts n = [] \<Longrightarrow>
   ngram_reference ts min_ngram max_ngram max_model_len k = []"
  by (simp add: ngram_reference_def filter_empty_conv [THEN iffD2] del: upt_Suc)

lemma ngram_reference_some:
  assumes "min_ngram \<le> n" "n \<le> max_ngram" "earlier_positions ts n \<noteq> []"
    and "\<forall>n'. n < n' \<and> n' \<le> max_ngram \<longrightarrow> earlier_positions ts n' = []"
  shows "ngram_reference ts min_ngram max_ngram max_model_len k =
    take (nat (min k (max_model_len - int (length ts)))) (drop (hd (earlier_positions ts n) + n) ts)"
proof -
  have "rev [min_ngram..<Suc max_ngram] = rev [Suc n..<Suc max_ngram] @ n # rev [min_ngram..<n]"
    using upt_split [of min_ngram n "Suc max_ngram"] assms by simp
  from filter_first [OF this, of "\<lambda>n. earlier_positions ts n \<noteq> []"] assms show ?thesis
    by (simp add: ngram_reference_def del: upt_Suc)
qed

lemma ngram_search:
  assumes "1 \<le> min_ngram" "min_ngram \<le> max_ngram"
  shows "find_longest_matched_ngram_and_propose_tokens toks min_ngram max_ngram max_model_len k =
           Some (Inr (ngram_reference toks min_ngram max_ngram max_model_len k))"
proof -
  let ?f = "find_longest_matched_ngram_and_propose_tokens toks min_ngram max_ngram max_model_len k"
  let ?k1 = "min k (max_model_len - int (length toks))"
  consider "length toks < min_ngram" | "?k1 \<le> 0" | "min_ngram \<le> length toks" "0 < ?k1" by linarith
  then show ?thesis
  proof cases
    case 1
    then have "ngram_reference toks min_ngram max_ngram max_model_len k = []"
      by (intro ngram_reference_none) (auto simp: earlier_positions_def)
    with 1 show ?thesis by (simp add: find_longest_matched_ngram_and_propose_tokens_def Let_def)
  next
    case 2
    then have "nat ?k1 = 0" by simp
    then have "ngram_reference toks min_ngram max_ngram max_model_len k = []"
      unfolding ngram_reference_def by (simp split: list.split del: upt_Suc nat_eq_iff min_less_iff_conj)
    with 2 show ?thesis by (simp add: find_longest_matched_ngram_and_propose_tokens_def Let_def)
  next
    case 3
    with assms have "rev toks \<noteq> []" by auto
    then obtain s where s: "ngram_loop (rev toks) max_ngram (initial_ngram_state max_ngram) = Some (Inr s)"
        and best: "best_border max_ngram (rev toks) (length toks) (longest_ngram s) (ngram_position s)"
      using ngram_loop_ok [OF initial_ngram_inv, of "rev toks" max_ngram] assms by (auto simp: ngram_inv_def)
    note none = ngram_end_none [OF best]
    show ?thesis
    proof (cases "longest_ngram s < min_ngram")
      case True
      then have "ngram_reference toks min_ngram max_ngram max_model_len k = []"
        using none by (intro ngram_reference_none) auto
      with s 3 True show ?thesis by (simp add: find_longest_matched_ngram_and_propose_tokens_def Let_def)
    next
      case False
      let ?L = "longest_ngram s" and ?P = "ngram_position s"
      let ?st = "length toks - 1 - ?P + ?L"
      have L: "0 < ?L" "?L \<le> max_ngram" using False assms best by (auto simp: best_border_def)
      note first = ngram_end_first [OF best L(1)]
      have ref: "ngram_reference toks min_ngram max_ngram max_model_len k = take (nat ?k1) (drop ?st toks)"
        using False L first none by (subst ngram_reference_some [of min_ngram ?L]) auto
      have "?st \<le> length toks" using first by simp
      then have "py_slice ?st (?st + nat (min ?k1 (int (length toks) - int ?st))) toks = take (nat ?k1) (drop ?st toks)"
        by (rule slice_to_the_end)
      with s 3 False ref show ?thesis
        by (simp add: find_longest_matched_ngram_and_propose_tokens_def Let_def)
    qed
  qed
qed

text \<open>(C36) For every request the search terminates without an access out of range, and proposes what
  the reference proposes: it takes the longest n-gram of a length within the bounds that ends the
  tokens and occurs earlier, at its earliest occurrence (which may overlap the end), and returns the
  tokens that follow it there, at most \<open>k\<close> and no more than the model length allows.\<close>

theorem ngram_search_reference:
  assumes "1 \<le> min_ngram" "min_ngram \<le> max_ngram"
  shows "find_longest_matched_ngram_and_propose_tokens toks min_ngram max_ngram max_model_len k =
           Some (Inr (ngram_reference toks min_ngram max_ngram max_model_len k))"
  using assms by (rule ngram_search)

theorem ngram_search_witness:
  "find_longest_matched_ngram_and_propose_tokens [1, 2, 3, 9, 1, 2, 3, 7, 2, 3] 2 3 100 2 = Some (Inr [9, 1])"
proof -
  have "ngram_reference [1, 2, 3, 9, 1, 2, 3, 7, 2, 3] 2 3 100 2 = [9, 1]"
    by code_simp
  with ngram_search_reference [of 2 3 "[1, 2, 3, 9, 1, 2, 3, 7, 2, 3]" 100 2] show ?thesis by simp
qed

section \<open>The batch\<close>

definition ngram_wf :: "ngram_proposer \<Rightarrow> bool" where
  "ngram_wf np =
     (1 \<le> min_n np \<and> min_n np \<le> max_n np \<and> length (draft_rows np) = length (num_drafts np)
      \<and> (\<forall>row\<in>set (draft_rows np). length row = draft_k np))"

abbreviation same_settings :: "ngram_proposer \<Rightarrow> ngram_proposer \<Rightarrow> bool" where
  "same_settings np np' \<equiv> min_n np' = min_n np \<and> max_n np' = max_n np \<and> draft_k np' = draft_k np
     \<and> np_max_model_len np' = np_max_model_len np \<and> length (num_drafts np') = length (num_drafts np)"

definition wanted_draft :: "ngram_proposer \<Rightarrow> nat list \<Rightarrow> token list list \<Rightarrow> nat \<Rightarrow> token list" where
  "wanted_draft np nums rows i =
     ngram_reference (take (nums ! i) (rows ! i)) (min_n np) (max_n np) (np_max_model_len np) (int (draft_k np))"

definition draft_stored :: "ngram_proposer \<Rightarrow> nat \<Rightarrow> token list \<Rightarrow> bool" where
  "draft_stored np i d = (num_drafts np ! i = length d \<and> take (length d) (draft_rows np ! i) = d)"

lemma new_ngram_wf: "1 \<le> a \<Longrightarrow> a \<le> b \<Longrightarrow> ngram_wf (new_ngram_proposer a b k len seqs)"
  by (simp add: ngram_wf_def new_ngram_proposer_def)

lemma ngram_reference_length:
  "length (ngram_reference ts a b len k) \<le> nat (min k (len - int (length ts)))"
  by (simp add: ngram_reference_def del: upt_Suc split: list.split)

lemma wanted_draft_length: "length (wanted_draft np nums rows i) \<le> draft_k np"
  using ngram_reference_length [of "take (nums ! i) (rows ! i)" "min_n np" "max_n np" "np_max_model_len np" "int (draft_k np)"]
  by (simp add: wanted_draft_def)

lemma wanted_draft_settings: "same_settings np np' \<Longrightarrow> wanted_draft np' nums rows i = wanted_draft np nums rows i"
  by (simp add: wanted_draft_def)

lemma needs_ngram_filter:
  "\<forall>(i, s)\<in>set ps. i < length nums \<Longrightarrow>
   needs_ngram np nums ps = Inr (map fst (filter (\<lambda>(i, s). s \<noteq> [] \<and> int (nums ! i) < np_max_model_len np) ps))"
  by (induction np nums ps rule: needs_ngram.induct) auto

lemma store_draft_ok:
  assumes "ngram_wf np" "i < length (num_drafts np)" "length d \<le> draft_k np"
  shows "\<exists>np'. store_draft np i d = Inr np' \<and> ngram_wf np' \<and> same_settings np np' \<and> draft_stored np' i d
    \<and> (\<forall>j. j \<noteq> i \<longrightarrow> num_drafts np' ! j = num_drafts np ! j \<and> draft_rows np' ! j = draft_rows np ! j)"
  using assms
  by (auto simp: store_draft_def ngram_wf_def draft_stored_def dest!: set_update_subset_insert [THEN subsetD])

lemma batch_propose_numba_ok:
  assumes "ngram_wf np" "distinct ids"
    and "\<forall>i\<in>set ids. i < length nums \<and> i < length rows \<and> i < length (num_drafts np)"
  shows "\<exists>np'. batch_propose_numba ids nums rows np = Some (Inr np') \<and> ngram_wf np' \<and> same_settings np np'
    \<and> (\<forall>i\<in>set ids. draft_stored np' i (wanted_draft np nums rows i))
    \<and> (\<forall>j. j \<notin> set ids \<longrightarrow> num_drafts np' ! j = num_drafts np ! j \<and> draft_rows np' ! j = draft_rows np ! j)"
  using assms
proof (induction ids arbitrary: np)
  case (Cons i ids)
  have search: "find_longest_matched_ngram_and_propose_tokens (take (nums ! i) (rows ! i)) (min_n np) (max_n np)
      (np_max_model_len np) (int (draft_k np)) = Some (Inr (wanted_draft np nums rows i))"
    using Cons.prems(1) by (simp add: wanted_draft_def ngram_search ngram_wf_def)
  obtain np1 where np1: "store_draft np i (wanted_draft np nums rows i) = Inr np1" "ngram_wf np1" "same_settings np np1"
      "draft_stored np1 i (wanted_draft np nums rows i)"
      "\<forall>j. j \<noteq> i \<longrightarrow> num_drafts np1 ! j = num_drafts np ! j \<and> draft_rows np1 ! j = draft_rows np ! j"
    using store_draft_ok [OF Cons.prems(1) _ wanted_draft_length] Cons.prems(3) by (meson list.set_intros(1))
  obtain np2 where np2: "batch_propose_numba ids nums rows np1 = Some (Inr np2)" "ngram_wf np2" "same_settings np1 np2"
      "\<forall>i\<in>set ids. draft_stored np2 i (wanted_draft np1 nums rows i)"
      "\<forall>j. j \<notin> set ids \<longrightarrow> num_drafts np2 ! j = num_drafts np1 ! j \<and> draft_rows np2 ! j = draft_rows np1 ! j"
    using Cons.IH [OF np1(2)] Cons.prems(2,3) np1(3) by auto
  have "batch_propose_numba (i # ids) nums rows np = Some (Inr np2)"
    using Cons.prems(3) search np1(1) np2(1) by simp
  moreover have "draft_stored np2 i (wanted_draft np nums rows i)"
    using np1(4) np2(5) Cons.prems(2) by (simp add: draft_stored_def)
  ultimately show ?case
    using np1(3,5) np2 wanted_draft_settings [OF np1(3)] by (intro exI [of _ np2]) auto
qed simp

lemma read_draft_stored:
  assumes "draft_stored np i d" "i < length (num_drafts np)" "i < length (draft_rows np)" "i \<in> set ids"
  shows "read_draft np ids i = Inr d"
  using assms by (auto simp: read_draft_def draft_stored_def)

text \<open>(C37) Drafting for a batch never raises and answers each request by itself: no draft without a
  newly sampled token or at the maximal model length, otherwise the proposal for the request's own
  tokens, whatever earlier calls left in the buffers; tokens and draft together stay within the
  maximal model length, and the buffers stay well formed for the next call.\<close>

theorem ngram_batch_proposals:
  assumes wf: "ngram_wf np"
    and len: "length sampled \<le> length nums" "length sampled \<le> length rows" "length sampled \<le> length (num_drafts np)"
    and rows: "\<forall>i<length sampled. nums ! i \<le> length (rows ! i)"
  shows "\<exists>drafts np'. propose sampled nums rows np = Some (Inr (drafts, np')) \<and> ngram_wf np'
    \<and> length drafts = length sampled
    \<and> (\<forall>i<length sampled.
         drafts ! i = (if sampled ! i = [] \<or> int (nums ! i) \<ge> np_max_model_len np then []
                       else ngram_reference (take (nums ! i) (rows ! i)) (min_n np) (max_n np)
                              (np_max_model_len np) (int (draft_k np)))
         \<and> (drafts ! i = [] \<or> int (nums ! i) + int (length (drafts ! i)) \<le> np_max_model_len np))"
proof -
  let ?n = "length sampled"
  let ?want = "\<lambda>i. sampled ! i \<noteq> [] \<and> int (nums ! i) < np_max_model_len np"
  define ids where "ids = filter ?want [0..<?n]"
  have zip: "zip [0..<?n] sampled = map (\<lambda>i. (i, sampled ! i)) [0..<?n]"
    by (rule nth_equalityI) auto
  have "map fst (filter (\<lambda>(i, s). s \<noteq> [] \<and> int (nums ! i) < np_max_model_len np) (zip [0..<?n] sampled)) = ids"
    unfolding ids_def zip by (simp add: filter_map comp_def)
  then have needs: "needs_ngram np nums (zip [0..<?n] sampled) = Inr ids"
    using len by (subst needs_ngram_filter) (auto dest!: set_zip_leftD)
  have ids: "distinct ids" "\<forall>i\<in>set ids. i < length nums \<and> i < length rows \<and> i < length (num_drafts np)"
    using len by (auto simp: ids_def)
  obtain np' where np': "batch_propose_numba ids nums rows np = Some (Inr np')" "ngram_wf np'" "same_settings np np'"
      "\<forall>i\<in>set ids. draft_stored np' i (wanted_draft np nums rows i)"
    using batch_propose_numba_ok [OF wf ids] by auto
  have written: "(if ids \<noteq> [] then batch_propose_numba ids nums rows np else Some (Inr np)) = Some (Inr (if ids = [] then np else np'))"
    using np'(1) by simp
  let ?draft = "\<lambda>i. if ?want i then wanted_draft np nums rows i else []"
  have "mapR (read_draft (if ids = [] then np else np') ids) [0..<?n] = Inr (map ?draft [0..<?n])"
  proof (rule mapR_Inr)
    fix i assume i: "i \<in> set [0..<?n]"
    show "read_draft (if ids = [] then np else np') ids i = Inr (?draft i)"
    proof (cases "i \<in> set ids")
      case True
      then have "ids \<noteq> []" by auto
      moreover have "?want i" using True by (simp add: ids_def)
      ultimately show ?thesis
        using True np' i ids(2) read_draft_stored [of np' i "wanted_draft np nums rows i" ids] by (simp add: ngram_wf_def)
    next
      case False
      then have "\<not> ?want i" using i by (auto simp: ids_def)
      with False show ?thesis by (auto simp: read_draft_def)
    qed
  qed
  then have "propose sampled nums rows np = Some (Inr (map ?draft [0..<?n], if ids = [] then np else np'))"
    using needs written by (simp add: propose_def batch_propose_def)
  moreover have "int (nums ! i) + int (length (wanted_draft np nums rows i)) \<le> np_max_model_len np"
    if "i < ?n" "?want i" for i
    using ngram_reference_length [of "take (nums ! i) (rows ! i)" "min_n np" "max_n np" "np_max_model_len np" "int (draft_k np)"]
      rows that by (auto simp: wanted_draft_def min_absorb2)
  ultimately show ?thesis
    using wf np'(2) by (intro exI [of _ "map ?draft [0..<?n]"] exI [of _ "if ids = [] then np else np'"])
      (auto simp: wanted_draft_def not_less)
qed

theorem ngram_batch_witness:
  "\<exists>np'. propose [[2], [], [9]] [5, 0, 10] [[1, 2, 3, 1, 2, 0], [], replicate 10 9]
            (new_ngram_proposer 1 2 2 10 3) = Some (Inr ([[3, 1], [], []], np')) \<and> ngram_wf np'"
proof -
  let ?np = "new_ngram_proposer 1 2 2 10 3" and ?rows = "[[1, 2, 3, 1, 2, 0], [], replicate 10 9] :: token list list"
    and ?sampled = "[[2], [], [9]] :: token list list" and ?nums = "[5, 0, 10] :: nat list"
  have wf: "ngram_wf ?np" by (simp add: new_ngram_wf)
  have ref: "ngram_reference [1, 2, 3, 1, 2] 1 2 10 2 = [3, 1]" by code_simp
  have len: "length ?sampled \<le> length ?nums" "length ?sampled \<le> length ?rows"
      "length ?sampled \<le> length (num_drafts ?np)" by (simp_all add: new_ngram_proposer_def)
  have "\<forall>i<length ?sampled. ?nums ! i \<le> length (?rows ! i)" by (simp add: less_Suc_eq all_conj_distrib imp_disjL)
  from ngram_batch_proposals [OF wf len this] obtain drafts np' where
      p: "propose ?sampled ?nums ?rows ?np = Some (Inr (drafts, np'))" "ngram_wf np'" "length drafts = length ?sampled"
    and d: "\<forall>i<length ?sampled.
         drafts ! i = (if ?sampled ! i = [] \<or> int (?nums ! i) \<ge> np_max_model_len ?np then []
                       else ngram_reference (take (?nums ! i) (?rows ! i)) (min_n ?np) (max_n ?np)
                              (np_max_model_len ?np) (int (draft_k ?np)))
         \<and> (drafts ! i = [] \<or> int (?nums ! i) + int (length (drafts ! i)) \<le> np_max_model_len ?np)"
    by (elim exE conjE) (rule that)
  note d1 = d [rule_format, THEN conjunct1]
  have np: "min_n ?np = 1" "max_n ?np = 2" "draft_k ?np = 2" "np_max_model_len ?np = 10"
    by (simp_all add: new_ngram_proposer_def)
  have "drafts ! 0 = [3, 1]" using d1 [of 0] unfolding np by (simp add: ref [unfolded One_nat_def])
  moreover have "drafts ! 1 = []" using d1 [of 1] unfolding np by simp
  moreover have "drafts ! 2 = []" using d1 [of 2] unfolding np by simp
  moreover obtain a b c where "drafts = [a, b, c]" using p(3) by (auto simp: length_Suc_conv)
  ultimately have "drafts = [[3, 1], [], []]" by simp
  with p show ?thesis by blast
qed

end
