(* ===== verification/Detokenizer.thy ===== *)
theory Detokenizer
  imports Request "HOL-Library.Sublist"
begin

text \<open>
  Incremental detokenization, v1/engine/detokenizer.py with the helpers of
  tokenizers/detokenizer\_utils.py: the text of a request grows with its tokens, is checked for stop
  strings, and is handed out piece by piece; the end of the text that may still turn out to
  belong to a stop string is held back. The abstract method \<^verbatim>\<open>decode_next\<close> is an argument
  of the base class operations; its two implementations call the tokenizer libraries, whose functions
  are arguments in turn. A Python string is a \<open>string\<close>; only equality and length of characters
  are used, except for the replacement character, which is an argument.
\<close>

section \<open>Stop strings\<close>

text \<open>\<^verbatim>\<open>text.find(sub, start)\<close>, where a negative start counts from the end.\<close>

definition py_find :: "string \<Rightarrow> string \<Rightarrow> int \<Rightarrow> int" where
  "py_find txt sub start =
     (let st = nat (if start < 0 then start + int (length txt) else start)
      in case find (\<lambda>i. take (length sub) (drop i txt) = sub) [st..<Suc (length txt)] of
           None \<Rightarrow> - 1
         | Some i \<Rightarrow> int i)"

fun check_stop_loop :: "string \<Rightarrow> nat \<Rightarrow> bool \<Rightarrow> string list \<Rightarrow> (string \<times> int) option" where
  "check_stop_loop txt new_char_count include_in_output [] = None"
| "check_stop_loop txt new_char_count include_in_output (stop_str # stops) =
     (let stop_index = py_find txt stop_str (1 - int new_char_count - int (length stop_str))
      in if stop_index = - 1 then check_stop_loop txt new_char_count include_in_output stops
         else if include_in_output
         then (let stop_end = stop_index + int (length stop_str)
               in if stop_end \<ge> int (length txt) then Some (stop_str, - 1) else Some (stop_str, stop_end))
         else Some (stop_str, stop_index))"

definition check_stop_strings :: "string \<Rightarrow> nat \<Rightarrow> string list \<Rightarrow> bool \<Rightarrow> (string \<times> int) option" where
  "check_stop_strings txt new_char_count stop include_in_output =
     (if new_char_count = 0 \<or> stop = [] then None
      else check_stop_loop txt new_char_count include_in_output stop)"

section \<open>The base class\<close>

text \<open>\<open>dt_prompt_len\<close> is 0 for the fast variant, whose token list holds output tokens only; in the
  slow variant the list starts with the prompt.\<close>

record 's detok =
  dt_token_ids :: "token list"
  dt_prompt_len :: nat
  dt_stop :: "string list"
  dt_min_tokens :: int
  include_stop_str_in_output :: bool
  stop_buffer_length :: int
  last_output_text_offset :: nat
  output_text :: string
  dt_decoder :: 's

datatype stop_param = NoStop | StopString string | StopList "string list"

fun stop_strings :: "stop_param \<Rightarrow> string list" where
  "stop_strings NoStop = []"
| "stop_strings (StopString s) = [s]"
| "stop_strings (StopList ss) = ss"

definition init_detok :: "stop_param \<Rightarrow> int \<Rightarrow> bool \<Rightarrow> token list \<Rightarrow> nat \<Rightarrow> 's \<Rightarrow> 's detok" where
  "init_detok stop minimum include prompt prompt_len dec =
     \<lparr>dt_token_ids = prompt, dt_prompt_len = prompt_len, dt_stop = stop_strings stop,
      dt_min_tokens = minimum, include_stop_str_in_output = include,
      stop_buffer_length =
        (if stop_strings stop \<noteq> [] \<and> \<not> include then int (Max (set (map length (stop_strings stop)))) - 1 else 0),
      last_output_text_offset = 0, output_text = '''', dt_decoder = dec\<rparr>"

definition dt_num_output_tokens :: "'s detok \<Rightarrow> int" where
  "dt_num_output_tokens d = int (length (dt_token_ids d)) - int (dt_prompt_len d)"

definition dt_output_token_ids :: "'s detok \<Rightarrow> token list" where
  "dt_output_token_ids d = (if dt_prompt_len d \<noteq> 0 then drop (dt_prompt_len d) (dt_token_ids d) else dt_token_ids d)"

type_synonym 's decode = "token list \<Rightarrow> token \<Rightarrow> 's \<Rightarrow> (string \<times> 's) res"

text \<open>The loop over the new tokens, with \<^verbatim>\<open>stop_check_offset\<close>.\<close>

fun decode_tokens :: "'s decode \<Rightarrow> token list \<Rightarrow> 's detok \<Rightarrow> nat \<Rightarrow> ('s detok \<times> nat) res" where
  "decode_tokens decode_next [] d stop_check_offset = Inr (d, stop_check_offset)"
| "decode_tokens decode_next (new_token_id # ts) d stop_check_offset =
     bindR (decode_next (dt_token_ids d @ [new_token_id]) new_token_id (dt_decoder d)) (\<lambda>(txt, dec).
       let d1 = d\<lparr>dt_token_ids := dt_token_ids d @ [new_token_id], output_text := output_text d @ txt,
                  dt_decoder := dec\<rparr>
       in decode_tokens decode_next ts d1
            (if dt_min_tokens d \<noteq> 0 \<and> dt_num_output_tokens d1 \<le> dt_min_tokens d
             then length (output_text d1) else stop_check_offset))"

text \<open>The second part of \<^verbatim>\<open>update\<close>: the stop strings are searched and the text is cut.\<close>

definition apply_stop_strings :: "'s detok \<Rightarrow> nat \<Rightarrow> string option \<times> 's detok" where
  "apply_stop_strings d stop_check_offset =
     (if dt_stop d \<noteq> [] \<and> dt_num_output_tokens d > dt_min_tokens d
      then (case check_stop_strings (output_text d) (length (output_text d) - stop_check_offset)
                   (dt_stop d) (include_stop_str_in_output d) of
              None \<Rightarrow> (None, d)
            | Some (stop_string, truncate_to) \<Rightarrow>
                (Some stop_string,
                 if truncate_to \<noteq> - 1 then d\<lparr>output_text := take (nat truncate_to) (output_text d)\<rparr> else d))
      else (None, d))"

definition dt_update :: "'s decode \<Rightarrow> token list \<Rightarrow> bool \<Rightarrow> 's detok \<Rightarrow> (string option \<times> 's detok) res" where
  "dt_update decode_next new_token_ids stop_terminated d =
     (if new_token_ids = [] then Inr (None, d)
      else let skip = stop_terminated \<and> \<not> include_stop_str_in_output d;
               toks = (if skip then butlast new_token_ids else new_token_ids)
           in bindR (decode_tokens decode_next toks d (length (output_text d))) (\<lambda>(d1, stop_check_offset).
              let d2 = (if skip then d1\<lparr>dt_token_ids := dt_token_ids d1 @ [last new_token_ids]\<rparr> else d1)
              in Inr (apply_stop_strings d2 stop_check_offset)))"

definition get_next_output_text :: "bool \<Rightarrow> bool \<Rightarrow> 's detok \<Rightarrow> string \<times> 's detok" where
  "get_next_output_text finished delta d =
     (let buffer_length = (if finished then 0 else stop_buffer_length d)
      in if \<not> delta
         then (if buffer_length = 0 then output_text d
               else take (nat (if buffer_length > 0 then int (length (output_text d)) - buffer_length else - buffer_length))
                      (output_text d), d)
         else let len = int (length (output_text d)) - buffer_length
              in if int (last_output_text_offset d) < len
                 then (py_slice (last_output_text_offset d) (nat len) (output_text d),
                       d\<lparr>last_output_text_offset := nat len\<rparr>)
                 else ('''', d))"

section \<open>The fast decoder\<close>

text \<open>The outcomes of \<^verbatim>\<open>DecodeStream.step\<close>: a piece of text or none yet, an OverflowError or
  TypeError, the exception of an invalid prefix, any other exception.\<close>

datatype step_outcome = StepText "string option" | StepBadToken | StepInvalidPrefix | StepOther

record 'd fast_decoder =
  fd_stream :: 'd
  spaces_between :: bool
  added_token_ids :: "token \<rightharpoonup> string"
  last_special :: bool

definition protected_step ::
    "('d \<Rightarrow> token \<Rightarrow> step_outcome \<times> 'd) \<Rightarrow> 'd \<Rightarrow> 'd \<Rightarrow> token \<Rightarrow> (string option \<times> 'd) res" where
  "protected_step step fresh_stream stream next_token_id =
     (case step stream next_token_id of
        (StepText t, stream') \<Rightarrow> Inr (t, stream')
      | (StepBadToken, stream') \<Rightarrow> Inr (None, stream')
      | (StepOther, _) \<Rightarrow> Inl RuntimeError
      | (StepInvalidPrefix, _) \<Rightarrow>
          (case step fresh_stream next_token_id of
             (StepText t, stream') \<Rightarrow> Inr (t, stream')
           | _ \<Rightarrow> Inl RuntimeError))"

definition fast_decode_next ::
    "('d \<Rightarrow> token \<Rightarrow> step_outcome \<times> 'd) \<Rightarrow> 'd \<Rightarrow> 'd fast_decoder decode" where
  "fast_decode_next step fresh_stream all_ids next_token_id fd =
     bindR (protected_step step fresh_stream (fd_stream fd) next_token_id) (\<lambda>(tok, stream).
       let special_token = added_token_ids fd next_token_id;
           use_special = (\<not> spaces_between fd \<and> special_token \<noteq> None \<and> last_special fd);
           tok1 = (if use_special then special_token else tok);
           fd1 = fd\<lparr>fd_stream := stream,
                    last_special := (if spaces_between fd then last_special fd else special_token \<noteq> None)\<rparr>
       in Inr (case tok1 of None \<Rightarrow> '''' | Some t \<Rightarrow> t, fd1))"

text \<open>\<^verbatim>\<open>getattr\<close> and the loop that reads the added tokens yield the dictionary \<open>added\<close>;
  if it is empty, spaces are not suppressed.\<close>

definition init_fast_decoder :: "'d \<Rightarrow> bool \<Rightarrow> bool \<Rightarrow> (token \<times> string) list \<Rightarrow> 'd fast_decoder" where
  "init_fast_decoder stream skip_special_tokens spaces_between_special_tokens added =
     \<lparr>fd_stream = stream,
      spaces_between = skip_special_tokens \<or> spaces_between_special_tokens \<or> added = [],
      added_token_ids = map_of added, last_special = False\<rparr>"

section \<open>The slow decoder\<close>

text \<open>The tokenizer: identifiers to optional tokens, tokens to text, the size of its
  vocabulary, the added vocabulary, the special tokens, whether it is a fast one, and the replacement
  character of an unfinished byte sequence.\<close>

record tokenizer =
  convert_ids_to_tokens :: "token list \<Rightarrow> bool \<Rightarrow> string option list"
  convert_tokens_to_string :: "string list \<Rightarrow> string"
  tokenizer_len :: nat
  added_vocab :: "string list"
  all_special_tokens :: "string list"
  tokenizer_is_fast :: bool
  replacement_char :: string

definition replace_none_with_empty :: "string option list \<Rightarrow> string list" where
  "replace_none_with_empty = map (\<lambda>t. case t of None \<Rightarrow> '''' | Some s \<Rightarrow> s)"

text \<open>The loop of \<^verbatim>\<open>_convert_tokens_to_string_with_added_encoders\<close>: finished pieces and the tokens of
  the current one.\<close>

fun sub_texts :: "tokenizer \<Rightarrow> string set \<Rightarrow> string list \<Rightarrow> string list \<Rightarrow> string list \<Rightarrow> string list" where
  "sub_texts tk special [] texts cur = (if cur \<noteq> [] then texts @ [convert_tokens_to_string tk cur] else texts)"
| "sub_texts tk special (tok # toks) texts cur =
     (if tok \<in> special then sub_texts tk special toks texts cur
      else if tok \<in> set (added_vocab tk)
      then sub_texts tk special toks
             ((if cur \<noteq> [] then texts @ [convert_tokens_to_string tk cur] else texts) @ [tok]) []
      else sub_texts tk special toks texts (cur @ [tok]))"

fun py_join :: "string \<Rightarrow> string list \<Rightarrow> string" where
  "py_join sep [] = ''''"
| "py_join sep [x] = x"
| "py_join sep (x # xs) = x @ sep @ py_join sep xs"

definition convert_with_added_encoders :: "tokenizer \<Rightarrow> string list \<Rightarrow> bool \<Rightarrow> bool \<Rightarrow> string" where
  "convert_with_added_encoders tk output_tokens skip_special_tokens spaces_between_special_tokens =
     (let special = (if skip_special_tokens then set (all_special_tokens tk) else {});
          texts = sub_texts tk special output_tokens [] []
      in py_join (if spaces_between_special_tokens then '' '' else '''') texts)"

definition convert_prompt_ids_to_tokens :: "tokenizer \<Rightarrow> token list \<Rightarrow> bool \<Rightarrow> string list \<times> nat \<times> nat" where
  "convert_prompt_ids_to_tokens tk prompt_ids skip_special_tokens =
     (let new_tokens = convert_ids_to_tokens tk (drop (length prompt_ids - 7) prompt_ids) skip_special_tokens;
          read_offset = length new_tokens
      in (replace_none_with_empty new_tokens, read_offset - 5, read_offset))"

text \<open>\<^verbatim>\<open>detokenize_incrementally\<close>: new tokens, new text, prefix and read offset.\<close>

definition detokenize_incrementally ::
    "tokenizer \<Rightarrow> token list \<Rightarrow> string list option \<Rightarrow> nat \<Rightarrow> nat \<Rightarrow> bool \<Rightarrow> bool
     \<Rightarrow> (string list \<times> string \<times> nat \<times> nat) res" where
  "detokenize_incrementally tk all_input_ids prev_tokens prefix_offset read_offset skip_special spaces =
     bindR (py_get all_input_ids (- 1)) (\<lambda>new_token_id.
       let (prev, pre, rd) = (case prev_tokens of
              None \<Rightarrow> convert_prompt_ids_to_tokens tk (butlast all_input_ids) skip_special
            | Some ts \<Rightarrow> (ts, prefix_offset, read_offset));
           new_tokens = (if 0 \<le> new_token_id \<and> new_token_id < int (tokenizer_len tk)
                         then replace_none_with_empty (convert_ids_to_tokens tk [new_token_id] skip_special)
                         else ['''']);
           output_tokens = prev @ new_tokens;
           result_tokens = (if prev_tokens = None then output_tokens else new_tokens);
           to_text = (\<lambda>ts. if tokenizer_is_fast tk \<or> added_vocab tk = [] then convert_tokens_to_string tk ts
                           else convert_with_added_encoders tk ts skip_special spaces);
           prefix_text = to_text (py_slice pre rd output_tokens);
           new_text = to_text (drop pre output_tokens)
       in if length new_text \<le> length prefix_text \<or> suffix (replacement_char tk) new_text
          then Inr (result_tokens, '''', pre, rd)
          else Inr (result_tokens, drop (length prefix_text) new_text, rd, length output_tokens))"

record slow_decoder =
  sd_tokens :: "string list"
  sd_prefix_offset :: nat
  sd_read_offset :: nat
  sd_skip_special :: bool
  sd_spaces :: bool

definition init_slow_decoder :: "tokenizer \<Rightarrow> token list option \<Rightarrow> nat \<Rightarrow> bool \<Rightarrow> bool \<Rightarrow> slow_decoder" where
  "init_slow_decoder tk prompt prompt_len skip_special spaces =
     (let (toks, pre, rd) = (case prompt of
             Some ids \<Rightarrow> convert_prompt_ids_to_tokens tk ids skip_special
           | None \<Rightarrow> (replicate prompt_len '''', 0, 0))
      in \<lparr>sd_tokens = toks, sd_prefix_offset = pre, sd_read_offset = rd,
          sd_skip_special = skip_special, sd_spaces = spaces\<rparr>)"

definition slow_decode_next :: "tokenizer \<Rightarrow> slow_decoder decode" where
  "slow_decode_next tk all_ids next_token_id sd =
     bindR (detokenize_incrementally tk all_ids (Some (sd_tokens sd)) (sd_prefix_offset sd) (sd_read_offset sd)
              (sd_skip_special sd) (sd_spaces sd)) (\<lambda>(new_tokens, decoded_text, pre, rd).
       Inr (decoded_text, sd\<lparr>sd_tokens := sd_tokens sd @ new_tokens, sd_prefix_offset := pre, sd_read_offset := rd\<rparr>))"

definition new_fast_detok ::
    "stop_param \<Rightarrow> int \<Rightarrow> bool \<Rightarrow> 'd \<Rightarrow> bool \<Rightarrow> bool \<Rightarrow> (token \<times> string) list \<Rightarrow> 'd fast_decoder detok" where
  "new_fast_detok stop minimum include stream skip_special spaces added =
     init_detok stop minimum include [] 0 (init_fast_decoder stream skip_special spaces added)"

definition new_slow_detok ::
    "stop_param \<Rightarrow> int \<Rightarrow> bool \<Rightarrow> tokenizer \<Rightarrow> token list option \<Rightarrow> nat \<Rightarrow> bool \<Rightarrow> bool \<Rightarrow> slow_decoder detok" where
  "new_slow_detok stop minimum include tk prompt prompt_len skip_special spaces =
     init_detok stop minimum include
       (case prompt of None \<Rightarrow> replicate prompt_len 0 | Some [] \<Rightarrow> replicate prompt_len 0 | Some ids \<Rightarrow> ids)
       prompt_len (init_slow_decoder tk prompt prompt_len skip_special spaces)"

section \<open>Searching\<close>

definition occurs_at :: "string \<Rightarrow> string \<Rightarrow> nat \<Rightarrow> bool" where
  "occurs_at sub txt i \<longleftrightarrow> take (length sub) (drop i txt) = sub"

text \<open>The first occurrence of \<open>sub\<close> that ends after the first \<open>off\<close> characters.\<close>

definition first_new_occurrence :: "string \<Rightarrow> string \<Rightarrow> nat \<Rightarrow> nat \<Rightarrow> bool" where
  "first_new_occurrence sub txt off i \<longleftrightarrow>
     occurs_at sub txt i \<and> off < i + length sub \<and> (\<forall>j<i. occurs_at sub txt j \<longrightarrow> j + length sub \<le> off)"

definition no_new_occurrence :: "string \<Rightarrow> string \<Rightarrow> nat \<Rightarrow> bool" where
  "no_new_occurrence sub txt off \<longleftrightarrow> (\<forall>i. occurs_at sub txt i \<longrightarrow> i + length sub \<le> off)"

lemma occurs_at_bound: "occurs_at sub txt i \<Longrightarrow> sub \<noteq> [] \<Longrightarrow> i + length sub \<le> length txt"
proof -
  assume "occurs_at sub txt i" and sub: "sub \<noteq> []"
  then have "min (length sub) (length txt - i) = length sub"
    unfolding occurs_at_def by (metis length_drop length_take min.commute)
  moreover have "0 < length sub" using sub by simp
  ultimately show "i + length sub \<le> length txt" by linarith
qed

lemma occurs_at_sublist: "occurs_at sub txt i \<Longrightarrow> sublist sub txt"
proof -
  assume "occurs_at sub txt i"
  then have "txt = take i txt @ sub @ drop (length sub) (drop i txt)"
    unfolding occurs_at_def by (metis append_take_drop_id)
  then show "sublist sub txt" unfolding sublist_def by blast
qed

lemma sublist_occurs_at: "sublist sub txt \<Longrightarrow> \<exists>i. occurs_at sub txt i"
proof -
  assume "sublist sub txt"
  then obtain ps ss where "txt = ps @ sub @ ss" by (auto simp: sublist_def)
  then have "occurs_at sub txt (length ps)" by (simp add: occurs_at_def)
  then show "\<exists>i. occurs_at sub txt i" by blast
qed

lemma occurs_at_append1: "i + length sub \<le> length xs \<Longrightarrow> occurs_at sub (xs @ ys) i \<longleftrightarrow> occurs_at sub xs i"
  by (simp add: occurs_at_def)

lemma occurs_at_take: "i + length sub \<le> k \<Longrightarrow> occurs_at sub (take k xs) i \<longleftrightarrow> occurs_at sub xs i"
  by (simp add: occurs_at_def drop_take min_absorb1)

lemma py_find_new:
  assumes "0 < ncc" "ncc \<le> length txt" "sub \<noteq> []"
  shows "(py_find txt sub (1 - int ncc - int (length sub)) = - 1 \<and> no_new_occurrence sub txt (length txt - ncc))
    \<or> (\<exists>i. py_find txt sub (1 - int ncc - int (length sub)) = int i \<and> first_new_occurrence sub txt (length txt - ncc) i)"
proof -
  let ?off = "length txt - ncc"
  let ?st = "Suc ?off - length sub"
  let ?P = "\<lambda>i. take (length sub) (drop i txt) = sub"
  have len: "0 < length sub" using assms(3) by simp
  then have "1 - int ncc - int (length sub) < 0" using assms(1) by linarith
  moreover have "nat (1 - int ncc - int (length sub) + int (length txt)) = ?st"
    using assms(2) len by linarith
  ultimately have find: "py_find txt sub (1 - int ncc - int (length sub)) =
      (case find ?P [?st..<Suc (length txt)] of None \<Rightarrow> - 1 | Some i \<Rightarrow> int i)"
    by (simp add: py_find_def del: upt_Suc)
  show ?thesis
  proof (cases "find ?P [?st..<Suc (length txt)]")
    case None
    have "i + length sub \<le> ?off" if i: "occurs_at sub txt i" for i
    proof (rule ccontr)
      assume "\<not> i + length sub \<le> ?off"
      then have "i \<in> set [?st..<Suc (length txt)]"
        using occurs_at_bound [OF i assms(3)] by auto
      then show False using None i by (auto simp: find_None_iff occurs_at_def)
    qed
    then show ?thesis using None find by (simp add: no_new_occurrence_def)
  next
    case (Some i)
    then obtain k where k: "k < length [?st..<Suc (length txt)]" "?P ([?st..<Suc (length txt)] ! k)"
        "i = [?st..<Suc (length txt)] ! k" "\<forall>j<k. \<not> ?P ([?st..<Suc (length txt)] ! j)"
      by (auto simp: find_Some_iff simp del: upt_Suc)
    then have i: "i = ?st + k" "occurs_at sub txt i" by (simp_all add: occurs_at_def del: upt_Suc)
    have "j + length sub \<le> ?off" if "j < i" "occurs_at sub txt j" for j
    proof (rule ccontr)
      assume "\<not> j + length sub \<le> ?off"
      then have "?st \<le> j" by simp
      then have "j - ?st < k" using that(1) i(1) by linarith
      moreover have "[?st..<Suc (length txt)] ! (j - ?st) = j"
        using \<open>?st \<le> j\<close> that(1) i(1) k(1) by (simp del: upt_Suc)
      ultimately show False using k(4) that(2) by (auto simp: occurs_at_def simp del: upt_Suc)
    qed
    moreover have "?off < i + length sub" using i(1) len by simp
    ultimately show ?thesis using Some find i(2) by (simp add: first_new_occurrence_def)
  qed
qed

lemma check_stop_loop_spec:
  assumes "0 < ncc" "ncc \<le> length txt" "\<forall>s\<in>set stops. s \<noteq> []"
  shows "case check_stop_loop txt ncc include stops of
      None \<Rightarrow> \<forall>s\<in>set stops. no_new_occurrence s txt (length txt - ncc)
    | Some (s, t) \<Rightarrow> s \<in> set stops \<and> (\<exists>i. first_new_occurrence s txt (length txt - ncc) i
        \<and> t = (if \<not> include then int i
               else if i + length s \<ge> length txt then - 1 else int (i + length s)))"
  using assms
proof (induction stops)
  case (Cons s stops)
  from py_find_new [OF Cons.prems(1,2), of s] Cons.prems(3)
  consider "py_find txt s (1 - int ncc - int (length s)) = - 1" "no_new_occurrence s txt (length txt - ncc)"
    | i where "py_find txt s (1 - int ncc - int (length s)) = int i" "first_new_occurrence s txt (length txt - ncc) i"
    by auto
  then show ?case
  proof cases
    case 1
    then show ?thesis using Cons by (auto split: option.splits)
  next
    case 2
    then have "check_stop_loop txt ncc include (s # stops) =
        Some (s, if \<not> include then int i else if i + length s \<ge> length txt then - 1 else int (i + length s))"
      by (simp add: Let_def)
    with 2(2) show ?thesis by auto
  qed
qed simp

section \<open>What an update does\<close>

definition same_setup :: "'s detok \<Rightarrow> 's detok \<Rightarrow> bool" where
  "same_setup d d' \<longleftrightarrow> dt_prompt_len d' = dt_prompt_len d \<and> dt_stop d' = dt_stop d \<and> dt_min_tokens d' = dt_min_tokens d
     \<and> include_stop_str_in_output d' = include_stop_str_in_output d \<and> stop_buffer_length d' = stop_buffer_length d
     \<and> last_output_text_offset d' = last_output_text_offset d"

lemma decode_tokens_spec:
  assumes "decode_tokens dec toks d off = Inr (d', off')" "off \<le> length (output_text d)"
  shows "same_setup d d' \<and> dt_token_ids d' = dt_token_ids d @ toks
    \<and> (\<exists>txt. output_text d' = output_text d @ txt) \<and> off \<le> off' \<and> off' \<le> length (output_text d')
    \<and> (dt_min_tokens d = 0 \<longrightarrow> off' = off)"
  using assms
proof (induction dec toks d off rule: decode_tokens.induct)
  case (2 dec t ts d off)
  from "2.prems"(1) obtain piece de where de: "dec (dt_token_ids d @ [t]) t (dt_decoder d) = Inr (piece, de)"
    by (auto simp: bindR_eq_Inr)
  let ?d1 = "d\<lparr>dt_token_ids := dt_token_ids d @ [t], output_text := output_text d @ piece, dt_decoder := de\<rparr>"
  let ?off1 = "if dt_min_tokens d \<noteq> 0 \<and> dt_num_output_tokens ?d1 \<le> dt_min_tokens d then length (output_text ?d1) else off"
  have "decode_tokens dec ts ?d1 ?off1 = Inr (d', off')" using "2.prems"(1) de by (simp add: Let_def)
  moreover have "?off1 \<le> length (output_text ?d1)" "off \<le> ?off1" using "2.prems"(2) by auto
  ultimately show ?case using "2.IH" [OF de refl refl] by (auto simp: same_setup_def)
qed (simp add: same_setup_def)

text \<open>The effect of an update, with the text before any cut and the offset of the check.\<close>

definition updated :: "token list \<Rightarrow> 's detok \<Rightarrow> string \<Rightarrow> nat \<Rightarrow> string option \<Rightarrow> 's detok \<Rightarrow> bool" where
  "updated toks d full off r d' \<longleftrightarrow>
     same_setup d d' \<and> dt_token_ids d' = dt_token_ids d @ toks \<and> prefix (output_text d) full
     \<and> length (output_text d) \<le> off \<and> off \<le> length full \<and> (dt_min_tokens d = 0 \<longrightarrow> off = length (output_text d))
     \<and> (case r of
          None \<Rightarrow> output_text d' = full
            \<and> (dt_min_tokens d = 0 \<and> dt_prompt_len d \<le> length (dt_token_ids d) \<longrightarrow>
                 (\<forall>s\<in>set (dt_stop d). no_new_occurrence s full off))
        | Some s \<Rightarrow> s \<in> set (dt_stop d) \<and> (\<exists>i. first_new_occurrence s full off i
            \<and> output_text d' = take (if include_stop_str_in_output d then i + length s else i) full))"

lemma no_new_text: "\<forall>s\<in>set stops. s \<noteq> [] \<Longrightarrow> s \<in> set stops \<Longrightarrow> no_new_occurrence s txt (length txt)"
  by (auto simp: no_new_occurrence_def dest: occurs_at_bound)

lemma check_stop_updated:
  assumes d2: "same_setup d d2" "dt_token_ids d2 = dt_token_ids d @ toks" "prefix (output_text d) (output_text d2)"
    and off: "length (output_text d) \<le> off" "off \<le> length (output_text d2)"
      "dt_min_tokens d = 0 \<longrightarrow> off = length (output_text d)"
    and stops: "\<forall>s\<in>set (dt_stop d). s \<noteq> []" and toks: "toks \<noteq> []"
    and res: "apply_stop_strings d2 off = (r, d')"
  shows "updated toks d (output_text d2) off r d'"
proof -
  let ?txt = "output_text d2" and ?inc = "include_stop_str_in_output d2"
  have same: "dt_stop d2 = dt_stop d" "dt_min_tokens d2 = dt_min_tokens d" "?inc = include_stop_str_in_output d"
      "dt_prompt_len d2 = dt_prompt_len d"
    using d2(1) by (simp_all add: same_setup_def)
  have none: "updated toks d ?txt off None d2" if "dt_min_tokens d = 0 \<and> dt_prompt_len d \<le> length (dt_token_ids d)
      \<longrightarrow> (\<forall>s\<in>set (dt_stop d). no_new_occurrence s ?txt off)"
    using d2 off that by (simp add: updated_def)
  show ?thesis
  proof (cases "dt_stop d2 \<noteq> [] \<and> dt_num_output_tokens d2 > dt_min_tokens d2")
    case False
    moreover have "0 < dt_num_output_tokens d2" if "dt_prompt_len d \<le> length (dt_token_ids d)"
      using that toks d2(2) same(4) by (cases toks) (simp_all add: dt_num_output_tokens_def)
    ultimately have "dt_min_tokens d = 0 \<and> dt_prompt_len d \<le> length (dt_token_ids d) \<longrightarrow> dt_stop d = []"
      using same(1,2) by auto
    then have "updated toks d ?txt off None d2" by (intro none) auto
    then show ?thesis using False res by (auto simp: apply_stop_strings_def)
  next
    case True
    show ?thesis
    proof (cases "length ?txt - off = 0")
      case no_new: True
      then have "off = length ?txt" using off by simp
      then have "updated toks d ?txt off None d2" using no_new_text [OF stops] by (intro none) auto
      then show ?thesis using True no_new res by (simp add: apply_stop_strings_def check_stop_strings_def)
    next
      case False
      then have ncc: "0 < length ?txt - off" "length ?txt - off \<le> length ?txt" "length ?txt - (length ?txt - off) = off"
        using off by simp_all
      note spec = check_stop_loop_spec [OF ncc(1,2), of "dt_stop d2" ?inc, unfolded ncc(3)]
      have check: "check_stop_strings ?txt (length ?txt - off) (dt_stop d2) ?inc =
          check_stop_loop ?txt (length ?txt - off) ?inc (dt_stop d2)"
        using True ncc by (simp add: check_stop_strings_def)
      show ?thesis
      proof (cases "check_stop_loop ?txt (length ?txt - off) ?inc (dt_stop d2)")
        case None
        then have "updated toks d ?txt off None d2" using spec stops same by (intro none) simp
        then show ?thesis using True check None res by (simp add: apply_stop_strings_def)
      next
        case (Some st)
        then obtain s t i where st: "check_stop_loop ?txt (length ?txt - off) ?inc (dt_stop d2) = Some (s, t)"
            "s \<in> set (dt_stop d)" "first_new_occurrence s ?txt off i"
            "t = (if \<not> ?inc then int i else if i + length s \<ge> length ?txt then - 1 else int (i + length s))"
          using spec stops same by (cases st) auto
        have "output_text d' = take (if ?inc then i + length s else i) ?txt" "r = Some s" "same_setup d d'"
            "dt_token_ids d' = dt_token_ids d @ toks"
          using res True check st(1,4) d2 by (auto simp: apply_stop_strings_def same_setup_def nat_int_add)
        then show ?thesis using st(2,3) d2(3) off same by (auto simp: updated_def)
      qed
    qed
  qed
qed

lemma dt_update_spec:
  assumes "dt_update dec toks st d = Inr (r, d')" and stops: "\<forall>s\<in>set (dt_stop d). s \<noteq> []" and "toks \<noteq> []"
  shows "\<exists>full off. updated toks d full off r d'"
proof -
  let ?skip = "st \<and> \<not> include_stop_str_in_output d"
  obtain d1 off where d1: "decode_tokens dec (if ?skip then butlast toks else toks) d (length (output_text d)) = Inr (d1, off)"
    using assms(1,3) by (auto simp: dt_update_def bindR_eq_Inr Let_def)
  define d2 where "d2 = (if ?skip then d1\<lparr>dt_token_ids := dt_token_ids d1 @ [last toks]\<rparr> else d1)"
  note spec = decode_tokens_spec [OF d1 order_refl]
  have "same_setup d d2" "dt_token_ids d2 = dt_token_ids d @ toks" "prefix (output_text d) (output_text d2)"
    using spec assms(3) by (auto simp: d2_def same_setup_def prefix_def)
  moreover have "length (output_text d) \<le> off" "off \<le> length (output_text d2)"
      "dt_min_tokens d = 0 \<longrightarrow> off = length (output_text d)"
    using spec by (auto simp: d2_def)
  ultimately have "updated toks d (output_text d2) off r d'"
  proof (rule check_stop_updated [OF _ _ _ _ _ _ stops assms(3)])
    show "apply_stop_strings d2 off = (r, d')"
      using assms(1,3) d1 by (simp add: dt_update_def Let_def d2_def)
  qed
  then show ?thesis by blast
qed

lemma dt_update_Nil [simp]: "dt_update dec [] st d = Inr (None, d)"
  by (simp add: dt_update_def)

section \<open>Handing out the text\<close>

text \<open>The stop strings of a request are not empty, and the held-back end is as long as the longest one
  less a character. What was handed out is the text up to the offset, which never reaches into the
  held-back end.\<close>

definition stops_ok :: "'s detok \<Rightarrow> bool" where
  "stops_ok d \<longleftrightarrow> (\<forall>s\<in>set (dt_stop d). s \<noteq> []) \<and> 0 \<le> stop_buffer_length d
     \<and> (\<not> include_stop_str_in_output d \<longrightarrow> (\<forall>s\<in>set (dt_stop d). int (length s) \<le> stop_buffer_length d + 1))"

definition handed_out :: "string \<Rightarrow> 's detok \<Rightarrow> bool" where
  "handed_out out d \<longleftrightarrow> out = take (last_output_text_offset d) (output_text d)
     \<and> last_output_text_offset d \<le> length (output_text d)"

definition held_back :: "'s detok \<Rightarrow> bool" where
  "held_back d \<longleftrightarrow> int (last_output_text_offset d) \<le> max 0 (int (length (output_text d)) - stop_buffer_length d)"

definition no_stop_in_text :: "'s detok \<Rightarrow> bool" where
  "no_stop_in_text d \<longleftrightarrow> dt_prompt_len d \<le> length (dt_token_ids d)
     \<and> (dt_min_tokens d = 0 \<longrightarrow> (\<forall>s\<in>set (dt_stop d). \<not> sublist s (output_text d)))"

lemma stops_ok_init: "\<forall>s\<in>set (stop_strings stop). s \<noteq> [] \<Longrightarrow> stops_ok (init_detok stop minimum include prompt n dec)"
proof -
  assume s: "\<forall>s\<in>set (stop_strings stop). s \<noteq> []"
  have "length s \<le> Max (length ` set (stop_strings stop))" if "s \<in> set (stop_strings stop)" for s
    using that by simp
  moreover have "1 \<le> Max (length ` set (stop_strings stop))" if "stop_strings stop \<noteq> []"
  proof -
    from that have "hd (stop_strings stop) \<in> set (stop_strings stop)" by simp
    with s have "1 \<le> length (hd (stop_strings stop))" "length (hd (stop_strings stop)) \<in> length ` set (stop_strings stop)"
      by (auto simp: Suc_le_eq)
    then show ?thesis by (meson List.finite_set Max_ge finite_imageI le_trans)
  qed
  ultimately show ?thesis using s by (auto simp: stops_ok_def init_detok_def)
qed

lemma stops_ok_same: "same_setup d d' \<Longrightarrow> stops_ok d \<Longrightarrow> stops_ok d'"
  by (simp add: same_setup_def stops_ok_def)

lemma take_py_slice: "a \<le> b \<Longrightarrow> take a xs @ py_slice a b xs = take b xs"
  using append_take_drop_id [of a "take b xs"] by (simp add: py_slice_def min_absorb1)

lemma get_next_unfinished:
  assumes "get_next_output_text False True d = (piece, d')" "stops_ok d" "handed_out out d" "held_back d"
  shows "handed_out (out @ piece) d' \<and> held_back d' \<and> output_text d' = output_text d \<and> dt_token_ids d' = dt_token_ids d
    \<and> dt_stop d' = dt_stop d \<and> dt_min_tokens d' = dt_min_tokens d \<and> dt_prompt_len d' = dt_prompt_len d
    \<and> include_stop_str_in_output d' = include_stop_str_in_output d \<and> stop_buffer_length d' = stop_buffer_length d"
proof (cases "int (last_output_text_offset d) < int (length (output_text d)) - stop_buffer_length d")
  case True
  let ?len = "nat (int (length (output_text d)) - stop_buffer_length d)"
  have "last_output_text_offset d \<le> ?len" "?len \<le> length (output_text d)" using True assms(2) by (auto simp: stops_ok_def)
  then have "take (last_output_text_offset d) (output_text d) @ py_slice (last_output_text_offset d) ?len (output_text d)
      = take ?len (output_text d)"
    by (intro take_py_slice)
  then show ?thesis using True assms \<open>?len \<le> _\<close>
    by (auto simp: get_next_output_text_def handed_out_def held_back_def Let_def)
next
  case False
  then show ?thesis using assms by (auto simp: get_next_output_text_def Let_def)
qed

lemma get_next_finished:
  assumes "get_next_output_text True True d = (piece, d')" "handed_out out d"
  shows "out @ piece = output_text d \<and> output_text d' = output_text d"
proof -
  have "take (last_output_text_offset d) (output_text d) @ py_slice (last_output_text_offset d) (length (output_text d)) (output_text d)
      = output_text d"
    by (simp add: py_slice_def)
  with assms show ?thesis
    by (auto simp: get_next_output_text_def handed_out_def Let_def split: if_splits)
qed

text \<open>A cut never goes back behind what was handed out.\<close>

lemma updated_handed_out:
  assumes up: "updated toks d full off r d'" and "stops_ok d" "handed_out out d" "held_back d"
  shows "handed_out out d' \<and> (r = None \<longrightarrow> held_back d')"
proof (cases r)
  case None
  with assms show ?thesis
    by (auto simp: updated_def same_setup_def handed_out_def held_back_def prefix_def)
next
  case (Some s)
  let ?n = "last_output_text_offset d"
  from up Some obtain i where s: "s \<in> set (dt_stop d)" and i: "first_new_occurrence s full off i"
      "output_text d' = take (if include_stop_str_in_output d then i + length s else i) full"
      "last_output_text_offset d' = ?n"
      and full: "prefix (output_text d) full" "length (output_text d) \<le> off"
    by (auto simp: updated_def same_setup_def)
  have "off < i + length s" using i(1) by (simp add: first_new_occurrence_def)
  then have "?n \<le> (if include_stop_str_in_output d then i + length s else i)"
    using assms(2,3,4) s full(2) by (auto simp: stops_ok_def handed_out_def held_back_def)
  moreover have "?n \<le> length full"
    using assms(3) full by (auto simp: handed_out_def prefix_def)
  moreover have "take ?n full = take ?n (output_text d)"
    using full assms(3) by (auto simp: handed_out_def prefix_def)
  ultimately show ?thesis using Some i assms(3)
    by (auto simp: handed_out_def min_absorb2)
qed

lemma no_stop_sublist:
  assumes "\<not> sublist s xs" "no_new_occurrence s (xs @ ys) (length xs)"
  shows "\<not> sublist s (xs @ ys)"
proof
  assume "sublist s (xs @ ys)"
  then obtain i where i: "occurs_at s (xs @ ys) i" using sublist_occurs_at by blast
  with assms(2) have "i + length s \<le> length xs" by (simp add: no_new_occurrence_def)
  with i have "occurs_at s xs i" by (simp add: occurs_at_append1)
  with assms(1) show False using occurs_at_sublist by blast
qed

lemma updated_no_stop:
  assumes "updated toks d full off None d'" "no_stop_in_text d"
  shows "no_stop_in_text d'"
proof -
  from assms(1) obtain ys where "full = output_text d @ ys" by (auto simp: updated_def prefix_def)
  with assms no_stop_sublist show ?thesis
    by (fastforce simp: updated_def same_setup_def no_stop_in_text_def)
qed
section \<open>A request's text\<close>

text \<open>The text of a running request: updates that find no stop string and, in any places, reads
  of the next piece. \<open>out\<close> is the concatenation of the pieces.\<close>

inductive streamed :: "'s decode \<Rightarrow> 's detok \<Rightarrow> string \<Rightarrow> 's detok \<Rightarrow> bool" for dec d0 where
  start: "streamed dec d0 '''' d0"
| update: "streamed dec d0 out d \<Longrightarrow> dt_update dec toks st d = Inr (None, d') \<Longrightarrow> streamed dec d0 out d'"
| read: "streamed dec d0 out d \<Longrightarrow> get_next_output_text False True d = (piece, d') \<Longrightarrow> streamed dec d0 (out @ piece) d'"

definition fresh_detok :: "'s detok \<Rightarrow> bool" where
  "fresh_detok d \<longleftrightarrow> (\<exists>stop minimum include prompt n de. d = init_detok stop minimum include prompt n de
     \<and> (\<forall>s\<in>set (stop_strings stop). s \<noteq> []) \<and> n \<le> length prompt)"

lemma fresh_detok_inv:
  assumes "fresh_detok d"
  shows "stops_ok d" "handed_out '''' d" "held_back d" "no_stop_in_text d"
proof -
  from assms obtain stop minimum incl prompt n de where d: "d = init_detok stop minimum incl prompt n de"
      "\<forall>s\<in>set (stop_strings stop). s \<noteq> []" "n \<le> length prompt"
    unfolding fresh_detok_def by blast
  show "stops_ok d" unfolding d(1) by (rule stops_ok_init [OF d(2)])
  show "handed_out '''' d" "held_back d" "no_stop_in_text d"
    using d by (auto simp: init_detok_def handed_out_def held_back_def no_stop_in_text_def)
qed

lemma streamed_inv:
  assumes "streamed dec d0 out d" "fresh_detok d0"
  shows "stops_ok d \<and> handed_out out d \<and> held_back d \<and> no_stop_in_text d \<and> dt_stop d = dt_stop d0
    \<and> dt_min_tokens d = dt_min_tokens d0 \<and> include_stop_str_in_output d = include_stop_str_in_output d0"
  using assms(1)
proof induction
  case start
  then show ?case using fresh_detok_inv [OF assms(2)] by simp
next
  case (update out d toks st d')
  show ?case
  proof (cases "toks = []")
    case False
    have "\<forall>s\<in>set (dt_stop d). s \<noteq> []" using update.IH by (simp add: stops_ok_def)
    then obtain full off where up: "updated toks d full off None d'"
      using dt_update_spec [OF update.hyps(2) _ False] by blast
    then have same: "same_setup d d'" by (simp add: updated_def)
    have "handed_out out d' \<and> held_back d'" using updated_handed_out [OF up] update.IH by blast
    moreover have "no_stop_in_text d'" using updated_no_stop [OF up] update.IH by blast
    moreover have "stops_ok d'" using stops_ok_same [OF same] update.IH by blast
    ultimately show ?thesis using same update.IH by (simp add: same_setup_def)
  qed (use update in simp)
next
  case (read out d piece d')
  then have ok: "stops_ok d" "handed_out out d" "held_back d" by blast+
  show ?case
    using get_next_unfinished [OF read.hyps(2) ok] read.IH by (simp add: stops_ok_def no_stop_in_text_def)
qed

lemma streamed_final:
  assumes "fresh_detok d0" "streamed dec d0 out d" "dt_update dec toks st d = Inr (r, d1)"
    and "get_next_output_text True True d1 = (piece, d2)"
  shows "out @ piece = output_text d1 \<and> output_text d2 = output_text d1"
proof -
  note inv = streamed_inv [OF assms(2,1)]
  have "handed_out out d1"
  proof (cases "toks = []")
    case True
    then show ?thesis using assms(3) inv by auto
  next
    case False
    have "\<forall>s\<in>set (dt_stop d). s \<noteq> []" using inv by (simp add: stops_ok_def)
    then obtain full off where up: "updated toks d full off r d1"
      using dt_update_spec [OF assms(3) _ False] by blast
    then show ?thesis using inv updated_handed_out [OF up] by blast
  qed
  with get_next_finished [OF assms(4)] show ?thesis by blast
qed

text \<open>(C30) Streaming a text loses nothing and takes nothing back. However the tokens arrive in steps
  and wherever the pieces are read, when the last update is done, with a stop string found or not, the
  pieces handed out before are a prefix of the final text, although a stop string may have cut
  it, and with the last piece they make up the final text exactly.\<close>

theorem streamed_text_complete:
  assumes "fresh_detok d0" "streamed dec d0 out d" "dt_update dec toks st d = Inr (r, d1)"
    and "get_next_output_text True True d1 = (piece, d2)"
  shows "out @ piece = output_text d1 \<and> output_text d2 = output_text d1"
  using assms by (rule streamed_final)

text \<open>(C31) Stop strings are found as soon as they are complete. Without a minimal number of tokens, while a
  request runs its text contains no stop string; an update that reports none leaves a text without any;
  an update that reports one has found its first occurrence in the text, which ends in the new part, and
  cuts the text there, before it or, if the stop string belongs to the output, behind it.\<close>

theorem stop_string_cut:
  assumes "fresh_detok d0" "dt_min_tokens d0 = 0" "streamed dec d0 out d" "dt_update dec toks st d = Inr (r, d1)"
    and "toks \<noteq> []"
  shows "(\<forall>s\<in>set (dt_stop d0). \<not> sublist s (output_text d))
    \<and> (case r of
         None \<Rightarrow> prefix (output_text d) (output_text d1) \<and> (\<forall>s\<in>set (dt_stop d0). \<not> sublist s (output_text d1))
       | Some s \<Rightarrow> s \<in> set (dt_stop d0) \<and> (\<exists>before rest. prefix (output_text d) (before @ s @ rest)
           \<and> length (output_text d) < length (before @ s)
           \<and> (\<forall>i<length before. \<not> occurs_at s (before @ s @ rest) i)
           \<and> output_text d1 = (if include_stop_str_in_output d0 then before @ s else before)))"
proof -
  note inv = streamed_inv [OF assms(3,1)]
  have stops: "\<forall>s\<in>set (dt_stop d). s \<noteq> []" using inv by (simp add: stops_ok_def)
  obtain full off where up: "updated toks d full off r d1"
    using dt_update_spec [OF assms(4) stops assms(5)] by blast
  have none: "\<forall>s\<in>set (dt_stop d0). \<not> sublist s (output_text d)"
    using inv assms(2) by (auto simp: no_stop_in_text_def)
  show ?thesis
  proof (cases r)
    case None
    with up have "updated toks d full off None d1" by simp
    from updated_no_stop [OF this] show ?thesis
      using None none up inv assms(2) by (auto simp: no_stop_in_text_def updated_def same_setup_def)
  next
    case (Some s)
    with up obtain i where s: "s \<in> set (dt_stop d)" and i: "first_new_occurrence s full off i"
        "output_text d1 = take (if include_stop_str_in_output d then i + length s else i) full"
      and full: "prefix (output_text d) full" "off = length (output_text d)"
      using inv assms(2) by (auto simp: updated_def)
    let ?b = "take i full" and ?rest = "drop (i + length s) full"
    have occ: "take (length s) (drop i full) = s" "off < i + length s" "i + length s \<le> length full"
      using i(1) occurs_at_bound [of s full i] stops s by (auto simp: first_new_occurrence_def occurs_at_def)
    have split: "full = ?b @ s @ ?rest"
      using occ(1) by (metis add.commute append_take_drop_id drop_drop)
    have "\<not> occurs_at s full j" if "j < i" for j
    proof
      assume j: "occurs_at s full j"
      then have "j + length s \<le> length (output_text d)"
        using i(1) that full(2) by (auto simp: first_new_occurrence_def)
      with j full(1) have "occurs_at s (output_text d) j"
        by (auto simp: prefix_def occurs_at_append1)
      then show False using occurs_at_sublist s none inv by auto
    qed
    moreover have "take (i + length s) full = ?b @ s" using occ(1) by (simp add: take_add)
    ultimately have "prefix (output_text d) (?b @ s @ ?rest) \<and> length (output_text d) < length (?b @ s)
        \<and> (\<forall>i<length ?b. \<not> occurs_at s (?b @ s @ ?rest) i)
        \<and> output_text d1 = (if include_stop_str_in_output d0 then ?b @ s else ?b)"
      unfolding split [symmetric] using full occ i(2) inv by auto
    then show ?thesis using Some s none inv by auto
  qed
qed
section \<open>Concrete runs\<close>

definition letter_decode :: "unit decode" where
  "letter_decode ids t u = Inr (if t = 1 then ''a'' else if t = 2 then ''b'' else ''c'', u)"

definition letter_detok :: "string list \<Rightarrow> unit detok" where
  "letter_detok stops = init_detok (StopList stops) 0 False [] 0 ()"

lemma letter_fresh: "\<forall>s\<in>set stops. s \<noteq> [] \<Longrightarrow> fresh_detok (letter_detok stops)"
proof -
  assume "\<forall>s\<in>set stops. s \<noteq> []"
  then have "letter_detok stops = init_detok (StopList stops) 0 False [] 0 ()"
      "\<forall>s\<in>set (stop_strings (StopList stops)). s \<noteq> []" "0 \<le> length ([] :: token list)"
    by (simp_all add: letter_detok_def)
  then show ?thesis unfolding fresh_detok_def by blast
qed

definition letters_read :: "unit detok" where
  "letters_read = \<lparr>dt_token_ids = [1, 2], dt_prompt_len = 0, dt_stop = [''bc''], dt_min_tokens = 0,
     include_stop_str_in_output = False, stop_buffer_length = 1, last_output_text_offset = 1,
     output_text = ''ab'', dt_decoder = ()\<rparr>"

lemma letters_streamed: "streamed letter_decode (letter_detok [''bc'']) ''a'' letters_read"
proof -
  let ?d = "letters_read\<lparr>last_output_text_offset := 0\<rparr>"
  have "dt_update letter_decode [1, 2] False (letter_detok [''bc'']) = Inr (None, ?d)" by code_simp
  from streamed.update [OF streamed.start this]
  have "streamed letter_decode (letter_detok [''bc'']) '''' ?d" .
  moreover have "get_next_output_text False True ?d = (''a'', letters_read)" by code_simp
  ultimately show ?thesis using streamed.read by fastforce
qed

lemma letters_last:
  "dt_update letter_decode [3] False letters_read = Inr (Some ''bc'', letters_read\<lparr>dt_token_ids := [1, 2, 3], output_text := ''a''\<rparr>)"
  by code_simp

lemma letters_fresh: "fresh_detok (letter_detok [''bc''])"
  by (rule letter_fresh) simp

theorem streamed_text_witness:
  "\<exists>d d1 d2 piece. streamed letter_decode (letter_detok [''bc'']) ''a'' d
     \<and> dt_update letter_decode [3] False d = Inr (Some ''bc'', d1) \<and> get_next_output_text True True d1 = (piece, d2)
     \<and> ''a'' @ piece = output_text d1"
proof -
  let ?d1 = "letters_read\<lparr>dt_token_ids := [1, 2, 3], output_text := ''a''\<rparr>"
  obtain piece d2 where g: "get_next_output_text True True ?d1 = (piece, d2)" by fastforce
  from streamed_text_complete [OF letters_fresh letters_streamed letters_last g] letters_streamed letters_last g
  show ?thesis by blast
qed

theorem stop_string_cut_witness:
  "\<exists>before rest. ''a'' = before \<and> prefix ''ab'' (before @ ''bc'' @ rest)"
proof -
  let ?d1 = "letters_read\<lparr>dt_token_ids := [1, 2, 3], output_text := ''a''\<rparr>"
  have m: "dt_min_tokens (letter_detok [''bc'']) = 0" and inc: "\<not> include_stop_str_in_output (letter_detok [''bc''])"
    by code_simp+
  have "[3 :: token] \<noteq> []" by simp
  note cut = stop_string_cut [OF letters_fresh m letters_streamed letters_last this,
    THEN conjunct2, unfolded option.case, THEN conjunct2]
  from cut obtain before rest where "prefix (output_text letters_read) (before @ ''bc'' @ rest)"
      "output_text ?d1 = (if include_stop_str_in_output (letter_detok [''bc'']) then before @ ''bc'' else before)"
    by (elim exE conjE) (rule that)
  then show ?thesis using inc by (intro exI [of _ before] exI [of _ rest]) (simp add: letters_read_def)
qed

text \<open>The stop strings are tried in the order of the list, not of the text: if two of them appear in
  one update, the cut is made at the first of the list, and the output still contains the other one,
  which would have stopped the request alone had the tokens come one by one.\<close>

lemma stop_order_of_list:
  "\<exists>d. dt_update letter_decode [1, 2] False (letter_detok [''b'', ''a'']) = Inr (Some ''b'', d) \<and> output_text d = ''a''"
  "\<exists>d. dt_update letter_decode [1] False (letter_detok [''b'', ''a'']) = Inr (Some ''a'', d) \<and> output_text d = ''''"
proof -
  have "dt_update letter_decode [1, 2] False (letter_detok [''b'', ''a'']) =
      Inr (Some ''b'', (letter_detok [''b'', ''a''])\<lparr>dt_token_ids := [1, 2], output_text := ''a''\<rparr>)" by code_simp
  then show "\<exists>d. dt_update letter_decode [1, 2] False (letter_detok [''b'', ''a'']) = Inr (Some ''b'', d) \<and> output_text d = ''a''"
    by simp
  have "dt_update letter_decode [1] False (letter_detok [''b'', ''a'']) =
      Inr (Some ''a'', (letter_detok [''b'', ''a''])\<lparr>dt_token_ids := [1], output_text := ''''\<rparr>)" by code_simp
  then show "\<exists>d. dt_update letter_decode [1] False (letter_detok [''b'', ''a'']) = Inr (Some ''a'', d) \<and> output_text d = ''''"
    by simp
qed

end
