(* ===== verification/Output_Processor.thy ===== *)
theory Output_Processor
  imports Detokenizer
begin

text \<open>
  The output side of the engine: v1/engine/output\_processor.py, the parent of parallel samples
  (v1/engine/parallel\_sampling.py) and the outputs of outputs.py. Each request has a state
  with its detokenizer; the outputs of the engine core become texts and token lists that are put
  into a collector, where outputs that were not fetched yet are merged. Parents and collectors
  are shared objects, so they live in stores and are referred to by name. Log probabilities are
  opaque; statistics, tracing, LoRA counters and KV transfer parameters are left out. The decoder
  of a request is a parameter, as in \<open>Detokenizer\<close>.
\<close>

section \<open>Outputs and their collector\<close>

type_synonym logprob = nat

datatype output_kind = CUMULATIVE | DELTA | FINAL_ONLY

record completion_output =
  co_index :: nat
  co_text :: string
  co_token_ids :: "token list"
  co_logprobs :: "logprob list option"
  co_finish_reason :: "finish_reason option"
  co_stop_reason :: "stop_reason_val option"

record request_output =
  ro_request_id :: string
  ro_prompt_token_ids :: "token list option"
  ro_prompt_logprobs :: "logprob option list option"
  ro_outputs :: "completion_output option list"
  ro_finished :: bool
  ro_num_cached_tokens :: int

text \<open>\<^verbatim>\<open>ro_outputs\<close> is a list of completions in the code; the aggregator of a parent, which it can be, has
  None at the places of children that are not finished.

  What a collector can hold: the output of a completion, of a pooling request (its data is
  opaque), or an exception.\<close>

datatype out_msg =
    CompletionMsg request_output
  | PoolingMsg string nat bool
  | ErrorMsg error

definition stream_finished :: request_output where
  "stream_finished = \<lparr>ro_request_id = '''', ro_prompt_token_ids = None, ro_prompt_logprobs = None,
     ro_outputs = [], ro_finished = True, ro_num_cached_tokens = 0\<rparr>"

text \<open>\<^verbatim>\<open>RequestOutput.add\<close>: outputs of the same index are merged or replaced.\<close>

definition merge_completion :: "completion_output \<Rightarrow> completion_output \<Rightarrow> completion_output res" where
  "merge_completion c next_c =
     (let c1 = c\<lparr>co_text := co_text c @ co_text next_c, co_token_ids := co_token_ids c @ co_token_ids next_c\<rparr>
      in bindR (case co_logprobs next_c of
                  None \<Rightarrow> Inr c1
                | Some lps \<Rightarrow> if lps = [] then Inr c1
                    else (case co_logprobs c of
                            None \<Rightarrow> Inl AssertionError
                          | Some l \<Rightarrow> Inr (c1\<lparr>co_logprobs := Some (l @ lps)\<rparr>))) (\<lambda>c2.
         Inr (c2\<lparr>co_finish_reason := co_finish_reason next_c, co_stop_reason := co_stop_reason next_c\<rparr>)))"

fun add_completion ::
    "bool \<Rightarrow> completion_output option \<Rightarrow> completion_output option list \<Rightarrow> completion_output option list res" where
  "add_completion aggregate next_c [] = Inr [next_c]"
| "add_completion aggregate None (c # cs) = Inl AttributeError"
| "add_completion aggregate (Some next_c) (None # cs) = Inl AttributeError"
| "add_completion aggregate (Some next_c) (Some c # cs) =
     (if co_index c = co_index next_c
      then (if aggregate then bindR (merge_completion c next_c) (\<lambda>c'. Inr (Some c' # cs)) else Inr (Some next_c # cs))
      else bindR (add_completion aggregate (Some next_c) cs) (\<lambda>cs'. Inr (Some c # cs')))"

definition merge_output :: "request_output \<Rightarrow> bool \<Rightarrow> request_output \<Rightarrow> request_output res" where
  "merge_output next_output aggregate ro =
     bindR (foldR (add_completion aggregate) (ro_outputs next_output) (ro_outputs ro)) (\<lambda>outs.
       Inr (ro\<lparr>ro_finished := ro_finished ro \<or> ro_finished next_output, ro_outputs := outs\<rparr>))"

record collector =
  cl_aggregate :: bool
  cl_output :: "out_msg option"

definition new_collector :: "output_kind \<Rightarrow> collector" where
  "new_collector kind = \<lparr>cl_aggregate = (kind = DELTA), cl_output = None\<rparr>"

definition collector_put :: "out_msg \<Rightarrow> collector \<Rightarrow> collector res" where
  "collector_put output q =
     (case (cl_output q, output) of
        (None, _) \<Rightarrow> Inr (q\<lparr>cl_output := Some output\<rparr>)
      | (Some _, ErrorMsg e) \<Rightarrow> Inr (q\<lparr>cl_output := Some output\<rparr>)
      | (Some (CompletionMsg ro), CompletionMsg ro') \<Rightarrow>
          bindR (merge_output ro' (cl_aggregate q) ro) (\<lambda>ro1. Inr (q\<lparr>cl_output := Some (CompletionMsg ro1)\<rparr>))
      | (Some (PoolingMsg _ _ _), PoolingMsg i d f) \<Rightarrow> Inr (q\<lparr>cl_output := Some output\<rparr>)
      | _ \<Rightarrow> Inr q)"

definition collector_get_nowait :: "collector \<Rightarrow> out_msg option res \<times> collector" where
  "collector_get_nowait q =
     (case cl_output q of
        None \<Rightarrow> (Inr None, q)
      | Some (ErrorMsg e) \<Rightarrow> (Inl e, q\<lparr>cl_output := None\<rparr>)
      | Some m \<Rightarrow> (Inr (Some m), q\<lparr>cl_output := None\<rparr>))"

section \<open>Parallel samples\<close>

record parent_request =
  pr_request_id :: string
  pr_external_req_id :: string
  pr_kind :: output_kind
  pr_n :: nat
  pr_seed :: "int option"
  child_requests :: "string list"
  output_aggregator :: "completion_output option list"

definition new_parent :: "string \<Rightarrow> string \<Rightarrow> output_kind \<Rightarrow> nat \<Rightarrow> int option \<Rightarrow> parent_request" where
  "new_parent rid ext kind n seed =
     \<lparr>pr_request_id = rid, pr_external_req_id = ext, pr_kind = kind, pr_n = n, pr_seed = seed,
      child_requests = [], output_aggregator = (if kind = FINAL_ONLY then replicate n None else [])\<rparr>"

text \<open>The number and the seed of the child's own parameters.\<close>

definition child_sampling_params :: "parent_request \<Rightarrow> nat \<Rightarrow> nat \<times> int option" where
  "child_sampling_params p index =
     (1, case pr_seed p of None \<Rightarrow> None | Some seed \<Rightarrow> Some (seed + int index))"

text \<open>Decimal digits, for the name of a child.\<close>

fun digits :: "nat \<Rightarrow> string" where
  "digits n = (if n < 10 then [char_of (48 + n)] else digits (n div 10) @ [char_of (48 + n mod 10)])"

declare digits.simps [simp del]

definition get_child_info :: "nat \<Rightarrow> parent_request \<Rightarrow> string \<times> (nat \<times> int option) \<times> parent_request" where
  "get_child_info index p =
     (let child_req_id = digits index @ ''_'' @ pr_request_id p
      in (child_req_id, child_sampling_params p index, p\<lparr>child_requests := List.insert child_req_id (child_requests p)\<rparr>))"

text \<open>The outputs to return and whether the parent is finished. Storing at an index outside the
  aggregator is an IndexError.\<close>

definition get_outputs ::
    "string \<Rightarrow> completion_output \<Rightarrow> parent_request \<Rightarrow> (completion_output option list \<times> bool \<times> parent_request) res" where
  "get_outputs child_request_id output p =
     (let done_before = (co_finish_reason output \<noteq> None \<and> child_request_id \<notin> set (child_requests p));
          p1 = (if co_finish_reason output \<noteq> None
                then p\<lparr>child_requests := remove1 child_request_id (child_requests p)\<rparr> else p);
          finished = (child_requests p1 = [])
      in if pr_kind p \<noteq> FINAL_ONLY
         then Inr (if done_before then [] else [Some output], finished, p1)
         else if co_index output < length (output_aggregator p1)
         then (let p2 = p1\<lparr>output_aggregator := (output_aggregator p1)[co_index output := Some output]\<rparr>
               in Inr (if finished then output_aggregator p2 else [], finished, p2))
         else Inl IndexError)"

section \<open>The state of a request\<close>

datatype 's any_detok = PlainDetok "token list" | TextDetok "'s detok"

fun ad_update :: "'s decode \<Rightarrow> token list \<Rightarrow> bool \<Rightarrow> 's any_detok \<Rightarrow> (string option \<times> 's any_detok) res" where
  "ad_update dec toks st (PlainDetok ids) = Inr (None, PlainDetok (ids @ toks))"
| "ad_update dec toks st (TextDetok d) = bindR (dt_update dec toks st d) (\<lambda>(r, d'). Inr (r, TextDetok d'))"

fun ad_num_output_tokens :: "'s any_detok \<Rightarrow> int" where
  "ad_num_output_tokens (PlainDetok ids) = int (length ids)"
| "ad_num_output_tokens (TextDetok d) = dt_num_output_tokens d"

fun ad_output_token_ids :: "'s any_detok \<Rightarrow> token list" where
  "ad_output_token_ids (PlainDetok ids) = ids"
| "ad_output_token_ids (TextDetok d) = dt_output_token_ids d"

fun ad_next_text :: "bool \<Rightarrow> bool \<Rightarrow> 's any_detok \<Rightarrow> string \<times> 's any_detok" where
  "ad_next_text finished delta (PlainDetok ids) = ('''', PlainDetok ids)"
| "ad_next_text finished delta (TextDetok d) =
     (case get_next_output_text finished delta d of (t, d') \<Rightarrow> (t, TextDetok d'))"

text \<open>A streaming input that waits for the current one to end; \<open>su_final\<close> marks the last.\<close>

record stream_chunk =
  su_prompt_token_ids :: "token list option"
  su_final :: bool

record 's req_state =
  rs_request_id :: string
  rs_external_req_id :: string
  rs_parent :: "string option"
  rs_index :: nat
  rs_kind :: output_kind
  rs_prompt_token_ids :: "token list option"
  rs_prompt_embeds :: "bytes list option"
  rs_prompt_len :: nat
  rs_detok :: "'s any_detok option"
  rs_logprobs :: "logprob list option"
  rs_prompt_logprobs :: "logprob option list option"
  rs_is_prefilling :: bool
  rs_queue :: "nat option"
  rs_num_cached_tokens :: int
  rs_stream_interval :: int
  sent_tokens_offset :: int
  streaming_input :: bool
  input_chunk_queue :: "stream_chunk list option"

definition apply_streaming_update :: "stream_chunk \<Rightarrow> 's req_state \<Rightarrow> 's req_state" where
  "apply_streaming_update u rs =
     (let new_ids = (case su_prompt_token_ids u of None \<Rightarrow> [] | Some ids \<Rightarrow> ids);
          ids = (case rs_prompt_token_ids rs of None \<Rightarrow> new_ids | Some old \<Rightarrow> old @ new_ids)
      in rs\<lparr>streaming_input := \<not> su_final u, rs_prompt_token_ids := Some ids, rs_prompt_len := length ids,
            rs_is_prefilling := True\<rparr>)"

text \<open>\<^verbatim>\<open>logprobs[-n:]\<close>, which is the whole list for \<^verbatim>\<open>n == 0\<close>.\<close>

definition last_n :: "nat \<Rightarrow> 'a list \<Rightarrow> 'a list" where
  "last_n n xs = (if n = 0 then xs else drop (length xs - n) xs)"

definition new_completion_output ::
    "token list \<Rightarrow> finish_reason option \<Rightarrow> stop_reason_val option \<Rightarrow> 's req_state \<Rightarrow> (completion_output \<times> 's req_state) res" where
  "new_completion_output token_ids finish stop rs =
     (case rs_detok rs of
        None \<Rightarrow> Inl AssertionError
      | Some ad \<Rightarrow>
          (let finished = (finish \<noteq> None);
               delta = (rs_kind rs = DELTA);
               (txt, ad') = ad_next_text finished delta ad;
               ids = (if delta then token_ids else ad_output_token_ids ad);
               lps = (case rs_logprobs rs of
                        None \<Rightarrow> None
                      | Some l \<Rightarrow> Some (if delta \<and> l \<noteq> [] then last_n (length ids) l else l))
           in Inr (\<lparr>co_index = rs_index rs, co_text = txt, co_token_ids = ids, co_logprobs = lps,
                    co_finish_reason = finish, co_stop_reason = (if finished then stop else None)\<rparr>,
                   rs\<lparr>rs_detok := Some ad'\<rparr>)))"

text \<open>\<^verbatim>\<open>_new_request_output\<close> for a completion.\<close>

definition new_request_output ::
    "string \<Rightarrow> completion_output option list \<Rightarrow> bool \<Rightarrow> 's req_state \<Rightarrow> (out_msg \<times> 's req_state) res" where
  "new_request_output external_req_id outputs finished rs =
     (let ids = (case (rs_prompt_token_ids rs, rs_prompt_embeds rs) of
            (Some ids, _) \<Rightarrow> Some ids
          | (None, Some e) \<Rightarrow> Some (replicate (length e) 0)
          | (None, None) \<Rightarrow> None)
      in bindR (assertR (ids \<noteq> None)) (\<lambda>_.
           Inr (CompletionMsg \<lparr>ro_request_id = external_req_id, ro_prompt_token_ids = ids,
                  ro_prompt_logprobs = rs_prompt_logprobs rs, ro_outputs = outputs, ro_finished = finished,
                  ro_num_cached_tokens = rs_num_cached_tokens rs\<rparr>,
                if rs_kind rs = DELTA \<and> rs_prompt_logprobs rs \<noteq> None
                then rs\<lparr>rs_prompt_logprobs := Some []\<rparr> else rs)))"

definition interval_reached :: "bool \<Rightarrow> 's any_detok \<Rightarrow> 's req_state \<Rightarrow> bool" where
  "interval_reached finished ad rs =
     (finished \<or> sent_tokens_offset rs = 0 \<or> ad_num_output_tokens ad - sent_tokens_offset rs \<ge> rs_stream_interval rs)"

type_synonym parents = "string \<rightharpoonup> parent_request"

text \<open>The part of \<^verbatim>\<open>make_request_output\<close> behind the check of the stream interval.\<close>

definition finish_request_output ::
    "token list \<Rightarrow> nat option \<Rightarrow> finish_reason option \<Rightarrow> stop_reason_val option \<Rightarrow> 's req_state \<Rightarrow> parents
     \<Rightarrow> (out_msg option \<times> 's req_state \<times> parents) res" where
  "finish_request_output new_token_ids pooling_output finish stop rs ps =
     (case pooling_output of
        Some d \<Rightarrow>
          bindR (assertR (rs_prompt_token_ids rs \<noteq> None \<or> rs_prompt_embeds rs \<noteq> None)) (\<lambda>_.
            Inr (Some (PoolingMsg (rs_external_req_id rs) d (finish \<noteq> None)), rs, ps))
      | None \<Rightarrow>
          bindR (new_completion_output new_token_ids finish stop rs) (\<lambda>(output, rs1).
            case rs_parent rs of
              None \<Rightarrow>
                bindR (new_request_output (rs_external_req_id rs) [Some output] (finish \<noteq> None) rs1) (\<lambda>(m, rs2).
                  Inr (Some m, rs2, ps))
            | Some pid \<Rightarrow>
                (case ps pid of
                   None \<Rightarrow> Inl AttributeError
                 | Some p \<Rightarrow>
                     bindR (get_outputs (rs_request_id rs) output p) (\<lambda>(outputs, finished, p1).
                       if outputs = [] then Inr (None, rs1, ps(pid \<mapsto> p1))
                       else bindR (new_request_output (pr_external_req_id p1) outputs finished rs1) (\<lambda>(m, rs2).
                              Inr (Some m, rs2, ps(pid \<mapsto> p1)))))))"

definition make_request_output ::
    "token list \<Rightarrow> nat option \<Rightarrow> finish_reason option \<Rightarrow> stop_reason_val option \<Rightarrow> 's req_state \<Rightarrow> parents
     \<Rightarrow> (out_msg option \<times> 's req_state \<times> parents) res" where
  "make_request_output new_token_ids pooling_output finish stop rs ps =
     (let finished = (finish \<noteq> None)
      in if \<not> finished \<and> rs_kind rs = FINAL_ONLY then Inr (None, rs, ps)
         else if rs_stream_interval rs > 1
         then (case rs_detok rs of
                 None \<Rightarrow> Inl AssertionError
               | Some ad \<Rightarrow>
                   if \<not> interval_reached finished ad rs then Inr (None, rs, ps)
                   else if rs_kind rs = DELTA
                   then finish_request_output (drop (nat (sent_tokens_offset rs)) (ad_output_token_ids ad))
                          pooling_output finish stop (rs\<lparr>sent_tokens_offset := ad_num_output_tokens ad\<rparr>) ps
                   else finish_request_output new_token_ids pooling_output finish stop rs ps)
         else finish_request_output new_token_ids pooling_output finish stop rs ps)"
section \<open>The output processor\<close>

text \<open>\<open>request_states\<close>, \<open>parent_keys\<close> (the keys of \<^verbatim>\<open>parent_requests\<close>) and \<open>external_req_ids\<close> are the
  dictionaries of the class; \<open>parents\<close> and \<open>collectors\<close> are the objects they and the request states refer to.\<close>

record 's output_processor =
  request_states :: "(string, 's req_state) odict"
  parent_keys :: "string list"
  external_req_ids :: "(string, string list) odict"
  op_parents :: parents
  collectors :: "nat \<rightharpoonup> collector"

definition new_output_processor :: "'s output_processor" where
  "new_output_processor = \<lparr>request_states = [], parent_keys = [], external_req_ids = [],
     op_parents = Map.empty, collectors = Map.empty\<rparr>"

text \<open>The parameters: the tokenizer, the decoder and its initial state for a prompt, whether it is the
  slow one, and the stream interval.\<close>

record 's output_env =
  oe_has_tokenizer :: bool
  oe_decode :: "'s decode"
  oe_fresh :: "token list option \<Rightarrow> 's"
  oe_slow :: bool
  oe_stream_interval :: int

record sampling_request =
  sq_kind :: output_kind
  sq_detokenize :: bool
  sq_stop :: stop_param
  sq_min_tokens :: int
  sq_include_stop :: bool
  sq_logprobs :: bool
  sq_prompt_logprobs :: bool

record core_request =
  cr_request_id :: string
  cr_external_req_id :: "string option"
  cr_prompt_token_ids :: "token list option"
  cr_prompt_embeds :: "bytes list option"
  cr_sampling :: "sampling_request option"
  cr_pooling_kind :: "output_kind option"
  cr_resumable :: bool

text \<open>\<^verbatim>\<open>IncrementalDetokenizer.from_new_request\<close>.\<close>

definition new_any_detok :: "'s output_env \<Rightarrow> core_request \<Rightarrow> sampling_request \<Rightarrow> 's any_detok res" where
  "new_any_detok env req sp =
     (if \<not> oe_has_tokenizer env \<or> \<not> sq_detokenize sp then Inr (PlainDetok [])
      else if \<not> oe_slow env
      then Inr (TextDetok (init_detok (sq_stop sp) (sq_min_tokens sp) (sq_include_stop sp) [] 0
                             (oe_fresh env (cr_prompt_token_ids req))))
      else bindR (length_from_prompt (cr_prompt_token_ids req) (cr_prompt_embeds req)) (\<lambda>n.
             Inr (TextDetok (init_detok (sq_stop sp) (sq_min_tokens sp) (sq_include_stop sp)
                   (case cr_prompt_token_ids req of
                      None \<Rightarrow> replicate (nat n) 0
                    | Some ids \<Rightarrow> if ids = [] then replicate (nat n) 0 else ids) (nat n)
                   (oe_fresh env (cr_prompt_token_ids req))))))"

definition new_req_state ::
    "'s output_env \<Rightarrow> core_request \<Rightarrow> string option \<Rightarrow> nat \<Rightarrow> nat option \<Rightarrow> 's req_state res" where
  "new_req_state env req parent index q =
     bindR (case cr_sampling req of
              Some sp \<Rightarrow> bindR (new_any_detok env req sp) (\<lambda>ad. Inr (Some ad, sq_kind sp,
                 if sq_logprobs sp then Some [] else None, if sq_prompt_logprobs sp then Some [None] else None))
            | None \<Rightarrow> (case cr_pooling_kind req of None \<Rightarrow> Inl AssertionError | Some k \<Rightarrow> Inr (None, k, None, None)))
       (\<lambda>(ad, kind, lps, plps).
        bindR (length_from_prompt (cr_prompt_token_ids req) (cr_prompt_embeds req)) (\<lambda>n.
         case cr_external_req_id req of
           None \<Rightarrow> Inl AssertionError
         | Some ext \<Rightarrow>
             Inr \<lparr>rs_request_id = cr_request_id req, rs_external_req_id = ext, rs_parent = parent,
                  rs_index = index, rs_kind = kind, rs_prompt_token_ids = cr_prompt_token_ids req,
                  rs_prompt_embeds = cr_prompt_embeds req, rs_prompt_len = nat n,
                  rs_detok = ad, rs_logprobs = lps, rs_prompt_logprobs = plps, rs_is_prefilling = True,
                  rs_queue = q, rs_num_cached_tokens = 0, rs_stream_interval = oe_stream_interval env,
                  sent_tokens_offset = 0, streaming_input = cr_resumable req,
                  input_chunk_queue = (if cr_resumable req then Some [] else None)\<rparr>))"

text \<open>\<^verbatim>\<open>internal_ids.remove(id)\<close> on an entry of the default dictionary, and its deletion when it is empty.\<close>

definition drop_external :: "string \<Rightarrow> string \<Rightarrow> (string, string list) odict \<Rightarrow> (string, string list) odict res" where
  "drop_external ext rid m =
     (let ids = (case od_get m ext of None \<Rightarrow> [] | Some l \<Rightarrow> l)
      in if rid \<notin> set ids then Inl ValueError
         else if remove1 rid ids = [] then Inr (od_del ext m)
         else Inr (od_set ext (remove1 rid ids) m))"

definition put_state :: "'s req_state \<Rightarrow> 's output_processor \<Rightarrow> 's output_processor" where
  "put_state rs op = op\<lparr>request_states := od_set (rs_request_id rs) rs (request_states op)\<rparr>"

definition put_msg :: "nat \<Rightarrow> out_msg \<Rightarrow> 's output_processor \<Rightarrow> 's output_processor res" where
  "put_msg q m op =
     (case collectors op q of
        None \<Rightarrow> Inl AttributeError
      | Some c \<Rightarrow> bindR (collector_put m c) (\<lambda>c'. Inr (op\<lparr>collectors := (collectors op)(q \<mapsto> c')\<rparr>)))"

definition finish_request :: "'s req_state \<Rightarrow> 's output_processor \<Rightarrow> 's output_processor res" where
  "finish_request rs op =
     (case od_get (request_states op) (rs_request_id rs) of
        None \<Rightarrow> Inl KeyError
      | Some _ \<Rightarrow>
          bindR (drop_external (rs_external_req_id rs) (rs_request_id rs) (external_req_ids op)) (\<lambda>m.
            let op1 = op\<lparr>request_states := od_del (rs_request_id rs) (request_states op), external_req_ids := m\<rparr>
            in (case rs_parent rs of
                  None \<Rightarrow> Inr op1
                | Some pid \<Rightarrow>
                    (case op_parents op pid of
                       None \<Rightarrow> Inl AttributeError
                     | Some p \<Rightarrow>
                         Inr (if child_requests p = []
                              then op1\<lparr>parent_keys := filter (\<lambda>k. k \<noteq> pr_request_id p) (parent_keys op1)\<rparr>
                              else op1)))))"

definition update_streaming_request_state ::
    "'s req_state \<Rightarrow> core_request \<Rightarrow> 's output_processor \<Rightarrow> 's output_processor res" where
  "update_streaming_request_state rs req op =
     (if \<not> cr_resumable req
      then (case input_chunk_queue rs of
              None \<Rightarrow>
                bindR (finish_request rs op) (\<lambda>op1.
                  case rs_queue rs of
                    None \<Rightarrow> Inr op1
                  | Some q \<Rightarrow> put_msg q (CompletionMsg stream_finished) op1)
            | Some [] \<Rightarrow> Inr (put_state (rs\<lparr>streaming_input := False\<rparr>) op)
            | Some us \<Rightarrow> Inr (put_state (rs\<lparr>input_chunk_queue := Some (butlast us @ [(last us)\<lparr>su_final := True\<rparr>])\<rparr>) op))
      else (let u = \<lparr>su_prompt_token_ids = cr_prompt_token_ids req, su_final = False\<rparr>
            in (case input_chunk_queue rs of
                  None \<Rightarrow> Inr (put_state ((apply_streaming_update u rs)\<lparr>input_chunk_queue := Some []\<rparr>) op)
                | Some us \<Rightarrow> Inr (put_state (rs\<lparr>input_chunk_queue := Some (us @ [u])\<rparr>) op))))"

definition op_add_request ::
    "'s output_env \<Rightarrow> core_request \<Rightarrow> string option \<Rightarrow> nat \<Rightarrow> nat option \<Rightarrow> 's output_processor \<Rightarrow> 's output_processor res" where
  "op_add_request env req parent index q op =
     (case od_get (request_states op) (cr_request_id req) of
        Some rs \<Rightarrow> update_streaming_request_state rs req op
      | None \<Rightarrow>
          bindR (new_req_state env req parent index q) (\<lambda>rs.
            let op1 = op\<lparr>request_states := od_set (cr_request_id req) rs (request_states op),
                         external_req_ids := od_set (rs_external_req_id rs)
                           ((case od_get (external_req_ids op) (rs_external_req_id rs) of None \<Rightarrow> [] | Some l \<Rightarrow> l)
                              @ [cr_request_id req]) (external_req_ids op)\<rparr>
            in (case parent of
                  None \<Rightarrow> Inr op1
                | Some pid \<Rightarrow>
                    (case op_parents op pid of
                       None \<Rightarrow> Inl AttributeError
                     | Some p \<Rightarrow> Inr (op1\<lparr>parent_keys := List.insert (pr_request_id p) (parent_keys op1)\<rparr>)))))"
text \<open>\<^verbatim>\<open>abort_requests\<close>: first the mapping of external names, then the requests. A parent's children are
  aborted by a recursive call, so the loop over the names is a partial function.\<close>

fun internal_ids :: "bool \<Rightarrow> string list \<Rightarrow> 's output_processor \<Rightarrow> (string list \<times> 's output_processor) res" where
  "internal_ids internal [] op = Inr ([], op)"
| "internal_ids internal (rid # rids) op =
     (if internal
      then bindR (case od_get (request_states op) rid of
                    None \<Rightarrow> Inr op
                  | Some rs \<Rightarrow> bindR (drop_external (rs_external_req_id rs) rid (external_req_ids op)) (\<lambda>m.
                                 Inr (op\<lparr>external_req_ids := m\<rparr>))) (\<lambda>op1.
           bindR (internal_ids internal rids op1) (\<lambda>(ids, op2). Inr (rid # ids, op2)))
      else bindR (internal_ids internal rids (op\<lparr>external_req_ids := od_del rid (external_req_ids op)\<rparr>)) (\<lambda>(ids, op2).
           Inr ((case od_get (external_req_ids op) rid of None \<Rightarrow> [] | Some l \<Rightarrow> l) @ ids, op2)))"

definition abort_state :: "'s req_state \<Rightarrow> 's output_processor \<Rightarrow> 's output_processor res" where
  "abort_state rs op =
     (let op1 = op\<lparr>request_states := od_del (rs_request_id rs) (request_states op)\<rparr>
      in (case rs_queue rs of
            None \<Rightarrow> Inr op1
          | Some q \<Rightarrow>
              bindR (make_request_output [] (if rs_detok rs = None then Some 0 else None) (Some FR_ABORT) None rs
                       (op_parents op)) (\<lambda>(out, rs1, ps).
                let op2 = op1\<lparr>op_parents := ps\<rparr>
                in (case out of None \<Rightarrow> Inr op2 | Some m \<Rightarrow> put_msg q m op2))))"

partial_function (option) abort_loop ::
    "string list \<Rightarrow> 's output_processor \<Rightarrow> (string list \<times> 's output_processor) res option" where
  "abort_loop ids op =
     (case ids of
        [] \<Rightarrow> Some (Inr ([], op))
      | rid # rids \<Rightarrow>
          (case od_get (request_states op) rid of
             Some rs \<Rightarrow>
               (case abort_state rs op of
                  Inl e \<Rightarrow> Some (Inl e)
                | Inr op1 \<Rightarrow> Option.bind (abort_loop rids op1) (\<lambda>r.
                    Some (bindR r (\<lambda>(aborted, op2). Inr (rid # aborted, op2)))))
           | None \<Rightarrow>
               if rid \<notin> set (parent_keys op) then abort_loop rids op
               else (case op_parents op rid of
                       None \<Rightarrow> Some (Inl AttributeError)
                     | Some p \<Rightarrow>
                         Option.bind
                           (if child_requests p = [] then Some (Inr ([], op))
                            else (case internal_ids True (child_requests p) op of
                                    Inl e \<Rightarrow> Some (Inl e)
                                  | Inr (children, op1) \<Rightarrow> abort_loop children op1)) (\<lambda>r.
                           (case r of
                              Inl e \<Rightarrow> Some (Inl e)
                            | Inr (children, op1) \<Rightarrow>
                                Option.bind (abort_loop rids
                                  (op1\<lparr>parent_keys := filter (\<lambda>k. k \<noteq> rid) (parent_keys op1)\<rparr>)) (\<lambda>r'.
                                  Some (bindR r' (\<lambda>(aborted, op2). Inr (children @ aborted, op2)))))))))"

declare abort_loop.simps [code]

definition op_abort_requests ::
    "string list \<Rightarrow> bool \<Rightarrow> 's output_processor \<Rightarrow> (string list \<times> 's output_processor) res option" where
  "op_abort_requests request_ids internal op =
     (case internal_ids internal request_ids op of
        Inl e \<Rightarrow> Some (Inl e)
      | Inr (ids, op1) \<Rightarrow> abort_loop ids op1)"

fun propagate_error :: "error \<Rightarrow> 's req_state list \<Rightarrow> 's output_processor \<Rightarrow> 's output_processor res" where
  "propagate_error e [] op = Inr op"
| "propagate_error e (rs # rss) op =
     (case rs_queue rs of
        None \<Rightarrow> Inl AssertionError
      | Some q \<Rightarrow> bindR (put_msg q (ErrorMsg e) op) (propagate_error e rss))"

text \<open>One output of the engine core.\<close>

record core_output =
  eo_request_id :: string
  eo_new_token_ids :: "token list"
  eo_new_logprobs :: "logprob list option"
  eo_new_prompt_logprobs :: "logprob list option"
  eo_pooling_output :: "nat option"
  eo_finish_reason :: "finish_reason option"
  eo_stop_reason :: "stop_reason_val option"
  eo_num_cached_tokens :: int

text \<open>\<^verbatim>\<open>LogprobsProcessor.update_from_output\<close>, one entry for each position.\<close>

definition update_logprobs :: "core_output \<Rightarrow> 's req_state \<Rightarrow> 's req_state res" where
  "update_logprobs eo rs =
     bindR (case eo_new_logprobs eo of
              None \<Rightarrow> Inr rs
            | Some new \<Rightarrow> (case rs_logprobs rs of
                             None \<Rightarrow> Inl AssertionError
                           | Some l \<Rightarrow> Inr (rs\<lparr>rs_logprobs := Some (l @ new)\<rparr>))) (\<lambda>rs1.
       case eo_new_prompt_logprobs eo of
         None \<Rightarrow> Inr rs1
       | Some new \<Rightarrow> (case rs_prompt_logprobs rs1 of
                        None \<Rightarrow> Inl AssertionError
                      | Some l \<Rightarrow> Inr (rs1\<lparr>rs_prompt_logprobs := Some (l @ map Some new)\<rparr>)))"

text \<open>Steps 1 to 3: the new tokens become text, and a stop string ends the request.\<close>

definition detokenize_output ::
    "'s decode \<Rightarrow> core_output \<Rightarrow> 's req_state
     \<Rightarrow> (finish_reason option \<times> stop_reason_val option \<times> 's req_state) res" where
  "detokenize_output dec eo rs =
     (let rs1 = rs\<lparr>rs_num_cached_tokens := eo_num_cached_tokens eo, rs_is_prefilling := False\<rparr>
      in if eo_pooling_output eo \<noteq> None then Inr (eo_finish_reason eo, eo_stop_reason eo, rs1)
         else (case rs_detok rs1 of
                 None \<Rightarrow> Inl AssertionError
               | Some ad \<Rightarrow>
                   bindR (ad_update dec (eo_new_token_ids eo) (eo_finish_reason eo = Some FR_STOP) ad) (\<lambda>(stop_string, ad1).
                   bindR (update_logprobs eo (rs1\<lparr>rs_detok := Some ad1\<rparr>)) (\<lambda>rs2.
                     Inr (case stop_string of
                            None \<Rightarrow> (eo_finish_reason eo, eo_stop_reason eo, rs2)
                          | Some s \<Rightarrow> if s = [] then (eo_finish_reason eo, eo_stop_reason eo, rs2)
                                      else (Some FR_STOP, Some (StopText s), rs2))))))"

definition unfinish :: "out_msg \<Rightarrow> out_msg" where
  "unfinish m = (case m of
       CompletionMsg ro \<Rightarrow> CompletionMsg (ro\<lparr>ro_finished := False\<rparr>)
     | PoolingMsg i d _ \<Rightarrow> PoolingMsg i d False
     | ErrorMsg e \<Rightarrow> ErrorMsg e)"

text \<open>Freeing a completed request, or going on with the next input of a streaming session.\<close>

definition complete_request ::
    "core_output \<Rightarrow> 's req_state \<Rightarrow> 's output_processor \<Rightarrow> (string list \<times> 's output_processor) res" where
  "complete_request eo rs op =
     (if streaming_input rs
      then (case input_chunk_queue rs of
              Some (u # us) \<Rightarrow> Inr ([], put_state (apply_streaming_update u (rs\<lparr>input_chunk_queue := Some us\<rparr>)) op)
            | _ \<Rightarrow> Inr ([], put_state (rs\<lparr>input_chunk_queue := None\<rparr>) op))
      else bindR (finish_request rs op) (\<lambda>op1.
             Inr (if eo_finish_reason eo = None then [rs_request_id rs] else [], op1)))"

definition process_one ::
    "'s output_env \<Rightarrow> core_output \<Rightarrow> out_msg list \<times> string list \<times> 's output_processor
     \<Rightarrow> (out_msg list \<times> string list \<times> 's output_processor) res" where
  "process_one env eo acc =
     (case acc of (outs, aborts, op) \<Rightarrow>
       (case od_get (request_states op) (eo_request_id eo) of
          None \<Rightarrow> Inr (outs, aborts, op)
        | Some rs \<Rightarrow>
            bindR (detokenize_output (oe_decode env) eo rs) (\<lambda>(finish, stop, rs1).
            bindR (make_request_output (eo_new_token_ids eo) (eo_pooling_output eo) finish stop rs1 (op_parents op))
              (\<lambda>(out, rs2, ps).
            let op1 = put_state rs2 (op\<lparr>op_parents := ps\<rparr>) in
            bindR (case out of
                     None \<Rightarrow> Inr (outs, op1)
                   | Some m \<Rightarrow>
                       (let m1 = (if streaming_input rs2 then unfinish m else m)
                        in (case rs_queue rs2 of
                              Some q \<Rightarrow> bindR (put_msg q m1 op1) (\<lambda>op2. Inr (outs, op2))
                            | None \<Rightarrow> Inr (outs @ [m1], op1)))) (\<lambda>(outs1, op2).
            if finish = None then Inr (outs1, aborts, op2)
            else bindR (complete_request eo rs2 op2) (\<lambda>(ab, op3). Inr (outs1, aborts @ ab, op3)))))))"

definition process_outputs ::
    "'s output_env \<Rightarrow> core_output list \<Rightarrow> 's output_processor \<Rightarrow> (out_msg list \<times> string list \<times> 's output_processor) res" where
  "process_outputs env eos op = foldR (process_one env) eos ([], [], op)"
text \<open>Fan-out of a request with several samples (AsyncLLM.add\_request and LLMEngine.add\_request):
  the parent is created, and each child is named and added in turn.\<close>

definition add_child ::
    "'s output_env \<Rightarrow> core_request \<Rightarrow> string \<Rightarrow> nat option \<Rightarrow> nat \<Rightarrow> 's output_processor \<Rightarrow> 's output_processor res" where
  "add_child env req pid q index op =
     (case op_parents op pid of
        None \<Rightarrow> Inl AttributeError
      | Some p \<Rightarrow>
          (let (child_id, _, p1) = get_child_info index p
           in op_add_request env (req\<lparr>cr_request_id := child_id\<rparr>) (Some pid) index q
                (op\<lparr>op_parents := (op_parents op)(pid \<mapsto> p1)\<rparr>)))"

definition fan_out ::
    "'s output_env \<Rightarrow> core_request \<Rightarrow> nat \<Rightarrow> int option \<Rightarrow> nat option \<Rightarrow> 's output_processor \<Rightarrow> 's output_processor res" where
  "fan_out env req n seed q op =
     (case (cr_external_req_id req, cr_sampling req) of
        (Some ext, Some sp) \<Rightarrow>
          foldR (add_child env req (cr_request_id req) q) [0..<n]
            (op\<lparr>op_parents := (op_parents op)(cr_request_id req \<mapsto>
               new_parent (cr_request_id req) ext (sq_kind sp) n seed)\<rparr>)
      | _ \<Rightarrow> Inl AssertionError)"

end
