(* ===== verification/Output_Props.thy ===== *)
theory Output_Props
  imports Output_Processor
begin

text \<open>
  What the output side guarantees: the dictionaries of the output processor agree in every reachable
  state, deltas add up to the whole output whatever the stream interval, a collector loses nothing by
  merging, and the parent of parallel samples returns all of them once they are all finished.
\<close>

section \<open>The names of a request never change\<close>

definition same_names :: "'s req_state \<Rightarrow> 's req_state \<Rightarrow> bool" where
  "same_names rs rs' \<longleftrightarrow> rs_request_id rs' = rs_request_id rs \<and> rs_external_req_id rs' = rs_external_req_id rs
     \<and> rs_parent rs' = rs_parent rs"

lemma same_names_refl [simp]: "same_names rs rs"
  by (simp add: same_names_def)

lemma same_names_trans: "same_names a b \<Longrightarrow> same_names b c \<Longrightarrow> same_names a c"
  by (simp add: same_names_def)

lemma new_completion_output_names: "new_completion_output ids f st rs = Inr (c, rs') \<Longrightarrow> same_names rs rs'"
  by (auto simp: new_completion_output_def Let_def same_names_def split: option.splits prod.splits)

lemma new_request_output_names: "new_request_output e outs f rs = Inr (m, rs') \<Longrightarrow> same_names rs rs'"
  by (auto simp: new_request_output_def Let_def same_names_def bindR_eq_Inr split: if_splits)

lemma finish_request_output_names:
  assumes "finish_request_output ids pool f st rs ps = Inr (out, rs', ps')"
  shows "same_names rs rs'"
proof (cases pool)
  case (Some d)
  then show ?thesis using assms by (auto simp: finish_request_output_def bindR_eq_Inr)
next
  case None
  then obtain c rs1 where c: "new_completion_output ids f st rs = Inr (c, rs1)"
    using assms by (auto simp: finish_request_output_def bindR_eq_Inr)
  have "same_names rs1 rs'"
    using assms None c
    by (auto simp: finish_request_output_def bindR_eq_Inr dest: new_request_output_names split: option.splits if_splits)
  then show ?thesis using new_completion_output_names [OF c] same_names_trans by blast
qed

lemma make_request_output_names:
  assumes "make_request_output ids pool f st rs ps = Inr (out, rs', ps')"
  shows "same_names rs rs'"
proof -
  have "same_names rs rs'" if "finish_request_output i pool f st (rs\<lparr>sent_tokens_offset := n\<rparr>) ps = Inr (out, rs', ps')" for i n
    using finish_request_output_names [OF that] by (simp add: same_names_def)
  moreover have "same_names rs rs'" if "finish_request_output i pool f st rs ps = Inr (out, rs', ps')" for i
    using finish_request_output_names [OF that] .
  ultimately show ?thesis
    using assms unfolding make_request_output_def Let_def
    by (simp split: if_splits option.splits)
qed

lemma update_logprobs_names: "update_logprobs eo rs = Inr rs' \<Longrightarrow> same_names rs rs'"
  by (auto simp: update_logprobs_def bindR_eq_Inr same_names_def split: option.splits)

lemma detokenize_output_names:
  assumes "detokenize_output dec eo rs = Inr (f, st, rs')"
  shows "same_names rs rs'"
proof (cases "eo_pooling_output eo")
  case (Some d)
  then show ?thesis using assms by (auto simp: detokenize_output_def Let_def same_names_def)
next
  case None
  let ?rs1 = "rs\<lparr>rs_num_cached_tokens := eo_num_cached_tokens eo, rs_is_prefilling := False\<rparr>"
  obtain ad where "rs_detok rs = Some ad"
    using assms None by (cases "rs_detok rs") (simp_all add: detokenize_output_def Let_def)
  then obtain s ad1 rs2 where "update_logprobs eo (?rs1\<lparr>rs_detok := Some ad1\<rparr>) = Inr rs2"
      "(case s of
         None \<Rightarrow> (eo_finish_reason eo, eo_stop_reason eo, rs2)
       | Some s \<Rightarrow> if s = [] then (eo_finish_reason eo, eo_stop_reason eo, rs2) else (Some FR_STOP, Some (StopText s), rs2))
       = (f, st, rs')"
    using assms None by (auto simp: detokenize_output_def Let_def bindR_eq_Inr)
  moreover from this(2) have "rs' = rs2" by (simp split: option.splits if_splits)
  ultimately show ?thesis using update_logprobs_names by (fastforce simp: same_names_def)
qed

lemma apply_streaming_names: "same_names rs ((apply_streaming_update u rs)\<lparr>input_chunk_queue := q\<rparr>)"
    "same_names rs (apply_streaming_update u rs)"
  by (simp_all add: apply_streaming_update_def same_names_def Let_def)

section \<open>The dictionaries agree\<close>

text \<open>\<open>op_inv D op\<close>: the states of the requests are stored under their own names, and the external names
  list exactly the requests that bear them, apart from those in \<open>D\<close>, which are about to be aborted.\<close>

definition ext_ids :: "string set \<Rightarrow> 's output_processor \<Rightarrow> string \<Rightarrow> string set" where
  "ext_ids D op e = {k. k \<notin> D \<and> (\<exists>rs. od_get (request_states op) k = Some rs \<and> rs_external_req_id rs = e)}"

definition lists_exactly :: "string list option \<Rightarrow> string set \<Rightarrow> bool" where
  "lists_exactly l S = (case l of None \<Rightarrow> S = {} | Some l \<Rightarrow> l \<noteq> [] \<and> distinct l \<and> set l = S)"

definition op_inv :: "string set \<Rightarrow> 's output_processor \<Rightarrow> bool" where
  "op_inv D op \<longleftrightarrow>
     (\<forall>k rs. od_get (request_states op) k = Some rs \<longrightarrow> rs_request_id rs = k)
     \<and> (\<forall>e. lists_exactly (od_get (external_req_ids op) e) (ext_ids D op e))"

lemma lists_exactly_simps [simp]:
  "lists_exactly None S \<longleftrightarrow> S = {}" "lists_exactly (Some l) S \<longleftrightarrow> l \<noteq> [] \<and> distinct l \<and> set l = S"
  by (simp_all add: lists_exactly_def)

lemma op_inv_cong:
  assumes "request_states op' = request_states op" "external_req_ids op' = external_req_ids op"
  shows "op_inv D op' \<longleftrightarrow> op_inv D op"
proof -
  have "ext_ids D op' e = ext_ids D op e" for e using assms(1) by (simp add: ext_ids_def)
  then show ?thesis using assms by (simp add: op_inv_def)
qed

lemma op_inv_lists: "op_inv D op \<Longrightarrow> lists_exactly (od_get (external_req_ids op) e) (ext_ids D op e)"
  by (simp add: op_inv_def)

lemma lists_exactly_default:
  "lists_exactly l S \<Longrightarrow> set (case l of None \<Rightarrow> [] | Some l \<Rightarrow> l) = S \<and> distinct (case l of None \<Rightarrow> [] | Some l \<Rightarrow> l)"
  by (cases l) simp_all

lemma op_inv_intro:
  assumes "\<And>k rs. od_get (request_states op) k = Some rs \<Longrightarrow> rs_request_id rs = k"
    and "\<And>e l. od_get (external_req_ids op) e = Some l \<Longrightarrow> l \<noteq> [] \<and> distinct l \<and> set l = ext_ids D op e"
    and "\<And>e. od_get (external_req_ids op) e = None \<Longrightarrow> ext_ids D op e = {}"
  shows "op_inv D op"
  unfolding op_inv_def
proof (intro conjI allI impI)
  fix e show "lists_exactly (od_get (external_req_ids op) e) (ext_ids D op e)"
  proof (cases "od_get (external_req_ids op) e")
    case None
    then show ?thesis using assms(3) [OF None] by (simp only: lists_exactly_simps)
  next
    case (Some l)
    show ?thesis using assms(2) [OF Some] unfolding Some lists_exactly_simps .
  qed
next
  fix k rs assume "od_get (request_states op) k = Some rs"
  then show "rs_request_id rs = k" by (rule assms(1))
qed

lemma op_inv_state: "op_inv D op \<Longrightarrow> od_get (request_states op) k = Some rs \<Longrightarrow> rs_request_id rs = k"
  by (simp add: op_inv_def)

text \<open>Replacing a state by one of the same names.\<close>

lemma put_state_inv:
  assumes "op_inv D op" "od_get (request_states op) (rs_request_id rs) = Some rs0" "same_names rs0 rs"
  shows "op_inv D (put_state rs op)"
proof -
  have "ext_ids D (put_state rs op) e = ext_ids D op e" for e
    using assms(2,3) by (auto simp: ext_ids_def put_state_def same_names_def)
  then show ?thesis
    using assms by (simp add: op_inv_def put_state_def)
qed

lemma drop_external_spec:
  assumes "drop_external e k m = Inr m'"
  shows "\<exists>l. od_get m e = Some l \<and> k \<in> set l
    \<and> (\<forall>e'. od_get m' e' = (if e' = e then (if remove1 k l = [] then None else Some (remove1 k l)) else od_get m e'))"
proof (cases "od_get m e")
  case None
  then show ?thesis using assms by (simp add: drop_external_def)
next
  case (Some l)
  then have "k \<in> set l" using assms by (simp add: drop_external_def split: if_splits)
  then have "m' = (if remove1 k l = [] then od_del e m else od_set e (remove1 k l) m)"
    using assms Some by (simp add: drop_external_def split: if_splits)
  then show ?thesis using Some \<open>k \<in> set l\<close> by auto
qed

lemma drop_external_inv:
  assumes inv: "op_inv D op" and st: "od_get (request_states op) k = Some rs"
    and drop: "drop_external (rs_external_req_id rs) k (external_req_ids op) = Inr m"
  shows "op_inv (insert k D) (op\<lparr>external_req_ids := m\<rparr>)"
proof -
  let ?e = "rs_external_req_id rs" and ?op = "op\<lparr>external_req_ids := m\<rparr>"
  obtain l where l: "od_get (external_req_ids op) ?e = Some l" "k \<in> set l"
      "\<forall>e'. od_get m e' = (if e' = ?e then (if remove1 k l = [] then None else Some (remove1 k l))
                             else od_get (external_req_ids op) e')"
    using drop_external_spec [OF drop] by blast
  have lk: "distinct l" "set l = ext_ids D op ?e" using op_inv_lists [OF inv, of ?e] l(1) by simp_all
  have ids: "ext_ids (insert k D) ?op e = ext_ids D op e - {k}" for e by (auto simp: ext_ids_def)
  have other: "k \<notin> ext_ids D op e" if "e \<noteq> ?e" for e using that st by (auto simp: ext_ids_def)
  have old: "lists_exactly (od_get (external_req_ids op) e) (ext_ids D op e)" for e
    using inv by (simp add: op_inv_def)
  show ?thesis
  proof (rule op_inv_intro)
    show "rs_request_id r = k'" if "od_get (request_states ?op) k' = Some r" for k' r
      using that inv by (simp add: op_inv_def)
    fix e
    show "l' \<noteq> [] \<and> distinct l' \<and> set l' = ext_ids (insert k D) ?op e" if "od_get (external_req_ids ?op) e = Some l'" for l'
    proof (cases "e = ?e")
      case True
      then show ?thesis using that l(3) lk ids by (auto split: if_splits)
    next
      case False
      then show ?thesis using that l(3) old [of e] ids other [OF False] by auto
    qed
    show "ext_ids (insert k D) ?op e = {}" if "od_get (external_req_ids ?op) e = None"
    proof (cases "e = ?e")
      case True
      then have "remove1 k l = []" using that l(3) by (auto split: if_splits)
      then have "set l - {k} = {}" using lk(1) by (metis set_remove1_eq set_empty)
      then show ?thesis using True lk ids by simp
    next
      case False
      then show ?thesis using that l(3) old [of e] ids by auto
    qed
  qed
qed

lemma delete_state_inv:
  assumes "op_inv D op" "k \<in> D"
  shows "op_inv (D - {k}) (op\<lparr>request_states := od_del k (request_states op)\<rparr>)"
proof -
  have "ext_ids (D - {k}) (op\<lparr>request_states := od_del k (request_states op)\<rparr>) e = ext_ids D op e" for e
    using assms(2) by (auto simp: ext_ids_def)
  then show ?thesis using assms(1) by (simp add: op_inv_def)
qed

lemma absent_inv:
  assumes "op_inv D op" "od_get (request_states op) k = None"
  shows "op_inv (D - {k}) op"
proof -
  have "ext_ids (D - {k}) op e = ext_ids D op e" for e using assms(2) by (auto simp: ext_ids_def)
  then show ?thesis using assms(1) by (simp add: op_inv_def)
qed
lemma absent_insert_inv:
  assumes "op_inv D op" "od_get (request_states op) k = None"
  shows "op_inv (insert k D) op"
proof -
  have "ext_ids (insert k D) op e = ext_ids D op e" for e using assms(2) by (auto simp: ext_ids_def)
  then show ?thesis using assms(1) by (simp add: op_inv_def)
qed

text \<open>Operations that leave the two dictionaries alone.\<close>

definition same_dicts :: "'s output_processor \<Rightarrow> 's output_processor \<Rightarrow> bool" where
  "same_dicts op op' \<longleftrightarrow> request_states op' = request_states op \<and> external_req_ids op' = external_req_ids op
     \<and> parent_keys op' = parent_keys op"

lemma same_dicts_inv: "same_dicts op op' \<Longrightarrow> op_inv D op' \<longleftrightarrow> op_inv D op"
  by (rule op_inv_cong) (simp_all add: same_dicts_def)

lemma put_msg_dicts: "put_msg q m op = Inr op' \<Longrightarrow> same_dicts op op' \<and> op_parents op' = op_parents op"
  by (auto simp: put_msg_def bindR_eq_Inr same_dicts_def split: option.splits)

lemma op_inv_parents [simp]: "op_inv D (op\<lparr>op_parents := ps\<rparr>) \<longleftrightarrow> op_inv D op"
  by (rule op_inv_cong) simp_all

lemma op_inv_parent_keys [simp]: "op_inv D (op\<lparr>parent_keys := ks\<rparr>) \<longleftrightarrow> op_inv D op"
  by (rule op_inv_cong) simp_all

lemma op_inv_collectors [simp]: "op_inv D (op\<lparr>collectors := cs\<rparr>) \<longleftrightarrow> op_inv D op"
  by (rule op_inv_cong) simp_all

text \<open>Finishing a request removes its state and its name.\<close>

lemma finish_request_spec:
  assumes "finish_request rs op = Inr op'"
  shows "\<exists>r0 m. od_get (request_states op) (rs_request_id rs) = Some r0
    \<and> drop_external (rs_external_req_id rs) (rs_request_id rs) (external_req_ids op) = Inr m
    \<and> (\<exists>ks. op' = op\<lparr>request_states := od_del (rs_request_id rs) (request_states op), external_req_ids := m, parent_keys := ks\<rparr>)"
proof -
  obtain r0 where r0: "od_get (request_states op) (rs_request_id rs) = Some r0"
    using assms by (cases "od_get (request_states op) (rs_request_id rs)") (simp_all add: finish_request_def)
  then obtain m where m: "drop_external (rs_external_req_id rs) (rs_request_id rs) (external_req_ids op) = Inr m"
    using assms by (auto simp: finish_request_def bindR_eq_Inr)
  let ?op1 = "op\<lparr>request_states := od_del (rs_request_id rs) (request_states op), external_req_ids := m\<rparr>"
  have "op' = ?op1 \<or> (\<exists>ks. op' = ?op1\<lparr>parent_keys := ks\<rparr>)"
    using assms r0 m by (auto simp: finish_request_def Let_def split: option.splits if_splits)
  moreover have "?op1 = ?op1\<lparr>parent_keys := parent_keys op\<rparr>" by simp
  ultimately show ?thesis using r0 m by metis
qed

lemma finish_request_inv:
  assumes "op_inv {} op" "finish_request rs op = Inr op'"
    and "od_get (request_states op) (rs_request_id rs) = Some r0" "same_names r0 rs"
  shows "op_inv {} op'"
proof -
  from finish_request_spec [OF assms(2)] obtain m ks where
      m: "drop_external (rs_external_req_id rs) (rs_request_id rs) (external_req_ids op) = Inr m"
    and op': "op' = op\<lparr>request_states := od_del (rs_request_id rs) (request_states op), external_req_ids := m, parent_keys := ks\<rparr>"
    by blast
  have "rs_external_req_id r0 = rs_external_req_id rs" using assms(4) by (simp add: same_names_def)
  then have "op_inv {rs_request_id rs} (op\<lparr>external_req_ids := m\<rparr>)"
    using drop_external_inv [OF assms(1,3)] m by simp
  from delete_state_inv [OF this, of "rs_request_id rs"]
  have "op_inv {} (op\<lparr>external_req_ids := m, request_states := od_del (rs_request_id rs) (request_states op)\<rparr>)" by simp
  then show ?thesis unfolding op' by (rule op_inv_cong [THEN iffD2, rotated 2]) simp_all
qed

lemma finish_request_total:
  assumes "op_inv {} op" "od_get (request_states op) k = Some rs" "rs_parent rs = None \<or> op_parents op (the (rs_parent rs)) \<noteq> None"
  shows "\<exists>op'. finish_request rs op = Inr op' \<and> od_get (request_states op') k = None"
proof -
  have k: "rs_request_id rs = k" using op_inv_state [OF assms(1,2)] .
  have "k \<in> ext_ids {} op (rs_external_req_id rs)" using assms(2) by (simp add: ext_ids_def)
  then obtain l where l: "od_get (external_req_ids op) (rs_external_req_id rs) = Some l" "k \<in> set l"
    using op_inv_lists [OF assms(1), of "rs_external_req_id rs"]
    by (cases "od_get (external_req_ids op) (rs_external_req_id rs)") auto
  then have "\<exists>m. drop_external (rs_external_req_id rs) k (external_req_ids op) = Inr m"
    by (simp add: drop_external_def)
  then show ?thesis using assms(2,3) k
    by (auto simp: finish_request_def Let_def split: option.split)
qed

section \<open>Aborting\<close>

lemma internal_ids_inv:
  assumes "internal_ids internal rids op = Inr (ids, op')" "op_inv D op"
  shows "op_inv (D \<union> set ids) op' \<and> request_states op' = request_states op \<and> parent_keys op' = parent_keys op
    \<and> op_parents op' = op_parents op \<and> (internal \<longrightarrow> ids = rids)"
  using assms
proof (induction internal rids op arbitrary: ids D rule: internal_ids.induct)
  case (2 internal rid rids op)
  show ?case
  proof (cases internal)
    case True
    with "2.prems"(1) obtain op1 ids1 where op1: "(case od_get (request_states op) rid of None \<Rightarrow> Inr op
          | Some rs \<Rightarrow> bindR (drop_external (rs_external_req_id rs) rid (external_req_ids op)) (\<lambda>m.
                         Inr (op\<lparr>external_req_ids := m\<rparr>))) = Inr op1"
        "internal_ids True rids op1 = Inr (ids1, op')" "ids = rid # ids1"
      by (auto simp: bindR_eq_Inr)
    have "op_inv (insert rid D) op1 \<and> request_states op1 = request_states op \<and> parent_keys op1 = parent_keys op
        \<and> op_parents op1 = op_parents op"
    proof (cases "od_get (request_states op) rid")
      case None
      then have "op_inv (insert rid D) op"
        using absent_insert_inv "2.prems"(2) by blast
      then show ?thesis using op1(1) None by simp
    next
      case (Some rs)
      then obtain m where m: "drop_external (rs_external_req_id rs) rid (external_req_ids op) = Inr m"
          "op1 = op\<lparr>external_req_ids := m\<rparr>"
        using op1(1) by (auto simp: bindR_eq_Inr)
      show ?thesis using drop_external_inv [OF "2.prems"(2) Some m(1)] m(2) by simp
    qed
    with "2.IH"(1) [OF True op1(1)] op1(2,3) True show ?thesis by fastforce
  next
    case False
    let ?l = "case od_get (external_req_ids op) rid of None \<Rightarrow> [] | Some l \<Rightarrow> l"
    let ?op1 = "op\<lparr>external_req_ids := od_del rid (external_req_ids op)\<rparr>"
    from False "2.prems"(1) obtain ids1 where ids1: "internal_ids False rids ?op1 = Inr (ids1, op')" "ids = ?l @ ids1"
      by (auto simp: bindR_eq_Inr)
    have l: "set ?l = ext_ids D op rid"
      using lists_exactly_default [OF op_inv_lists [OF "2.prems"(2)]] by blast
    have "op_inv (D \<union> set ?l) ?op1"
    proof (rule op_inv_intro)
      show "rs_request_id rs = k" if "od_get (request_states ?op1) k = Some rs" for k rs
        using that op_inv_state [OF "2.prems"(2)] by simp
      have ids: "ext_ids (D \<union> set ?l) ?op1 e = (if e = rid then {} else ext_ids D op e)" for e
        unfolding l by (auto simp: ext_ids_def)
      fix e
      show "l' \<noteq> [] \<and> distinct l' \<and> set l' = ext_ids (D \<union> set ?l) ?op1 e" if "od_get (external_req_ids ?op1) e = Some l'" for l'
        using that op_inv_lists [OF "2.prems"(2), of e] ids by (auto split: if_splits)
      show "ext_ids (D \<union> set ?l) ?op1 e = {}" if "od_get (external_req_ids ?op1) e = None"
        using that op_inv_lists [OF "2.prems"(2), of e] ids by (auto split: if_splits)
    qed
    with "2.IH"(2) [OF False] ids1 False show ?thesis by (fastforce simp: Un_assoc)
  qed
qed simp
text \<open>Outputs only take finished children out of the parents.\<close>

definition shrunk :: "parents \<Rightarrow> parents \<Rightarrow> bool" where
  "shrunk ps ps' \<longleftrightarrow> (\<forall>pid p'. ps' pid = Some p' \<longrightarrow>
     (\<exists>p. ps pid = Some p \<and> set (child_requests p') \<subseteq> set (child_requests p)))"

lemma shrunk_refl [simp]: "shrunk ps ps"
  by (simp add: shrunk_def)

lemma shrunk_trans: "shrunk a b \<Longrightarrow> shrunk b c \<Longrightarrow> shrunk a c"
  unfolding shrunk_def by (meson order_trans)

lemma get_outputs_shrinks:
  "get_outputs rid c p = Inr (outs, f, p') \<Longrightarrow> set (child_requests p') \<subseteq> set (child_requests p)"
  by (auto simp: get_outputs_def Let_def dest: in_set_remove1 [THEN iffD1] set_remove1_subset [THEN subsetD] split: if_splits)

lemma finish_request_output_shrunk:
  assumes "finish_request_output ids pool f st rs ps = Inr (out, rs', ps')"
  shows "shrunk ps ps'"
proof (cases "pool = None \<and> rs_parent rs \<noteq> None")
  case False
  then show ?thesis using assms
    by (cases pool; cases "rs_parent rs") (auto simp: finish_request_output_def bindR_eq_Inr)
next
  case True
  then obtain pid p c rs1 outs fin p1 where "ps pid = Some p" "get_outputs (rs_request_id rs) c p = Inr (outs, fin, p1)"
      "ps' = ps(pid \<mapsto> p1)"
    using assms by (auto simp: finish_request_output_def bindR_eq_Inr split: option.splits if_splits)
  then show ?thesis using get_outputs_shrinks by (fastforce simp: shrunk_def)
qed

lemma make_request_output_shrunk:
  assumes "make_request_output ids pool f st rs ps = Inr (out, rs', ps')"
  shows "shrunk ps ps'"
  using assms finish_request_output_shrunk unfolding make_request_output_def Let_def
  by (simp split: if_splits option.splits) blast+

lemma abort_state_spec:
  assumes "abort_state rs op = Inr op'"
  shows "request_states op' = od_del (rs_request_id rs) (request_states op)
    \<and> external_req_ids op' = external_req_ids op \<and> parent_keys op' = parent_keys op
    \<and> shrunk (op_parents op) (op_parents op')"
proof (cases "rs_queue rs")
  case None
  then show ?thesis using assms by (auto simp: abort_state_def Let_def)
next
  case (Some q)
  let ?op1 = "op\<lparr>request_states := od_del (rs_request_id rs) (request_states op)\<rparr>"
  obtain out rs1 ps where m: "make_request_output [] (if rs_detok rs = None then Some 0 else None) (Some FR_ABORT) None rs
      (op_parents op) = Inr (out, rs1, ps)"
    and op': "(case out of None \<Rightarrow> Inr (?op1\<lparr>op_parents := ps\<rparr>) | Some m \<Rightarrow> put_msg q m (?op1\<lparr>op_parents := ps\<rparr>)) = Inr op'"
    using assms Some by (auto simp: abort_state_def Let_def bindR_eq_Inr)
  have "same_dicts (?op1\<lparr>op_parents := ps\<rparr>) op' \<and> op_parents op' = ps"
    using op' put_msg_dicts by (cases out) (fastforce simp: same_dicts_def)+
  then show ?thesis using make_request_output_shrunk [OF m] by (simp add: same_dicts_def)
qed

lemma abort_state_inv:
  assumes "op_inv D op" "od_get (request_states op) k = Some rs" "k \<in> D" "abort_state rs op = Inr op'"
  shows "op_inv (D - {k}) op'"
proof -
  have k: "rs_request_id rs = k" using op_inv_state [OF assms(1,2)] .
  note s = abort_state_spec [OF assms(4), unfolded k]
  show ?thesis
    using delete_state_inv [OF assms(1,3)] by (rule op_inv_cong [THEN iffD2, rotated 2]) (simp_all add: s)
qed

lemma absent_inv_set:
  assumes "\<forall>k\<in>S. od_get (request_states op) k = None" "D - S = D' - S"
  shows "op_inv D op \<longleftrightarrow> op_inv D' op"
proof -
  have "ext_ids D op e = ext_ids D' op e" for e
    using assms by (auto simp: ext_ids_def)
  then show ?thesis by (simp add: op_inv_def)
qed

text \<open>Aborting a list of names that were dropped from the mapping before: their states are gone, the
  others are as before.\<close>

definition only_removed :: "'s output_processor \<Rightarrow> 's output_processor \<Rightarrow> bool" where
  "only_removed op op' \<longleftrightarrow> (\<forall>k. od_get (request_states op') k = None
     \<or> od_get (request_states op') k = od_get (request_states op) k)"

lemma only_removed_trans: "only_removed a b \<Longrightarrow> only_removed b c \<Longrightarrow> only_removed a c"
  unfolding only_removed_def by metis

lemma only_removed_same: "request_states op' = request_states op \<Longrightarrow> only_removed op op'"
  by (simp add: only_removed_def)

lemma only_removed_None: "only_removed op op' \<Longrightarrow> od_get (request_states op) k = None \<Longrightarrow> od_get (request_states op') k = None"
  unfolding only_removed_def by metis

lemma abort_state_removes:
  "abort_state rs op = Inr op' \<Longrightarrow> only_removed op op' \<and> od_get (request_states op') (rs_request_id rs) = None"
  using abort_state_spec by (fastforce simp: only_removed_def)

lemma abort_loop_inv:
  assumes "abort_loop ids op = Some r" "r = Inr (aborted, op')" "op_inv D op"
    and "\<forall>k\<in>set ids. od_get (request_states op) k \<noteq> None \<longrightarrow> k \<in> D"
  shows "op_inv (D - set ids) op' \<and> only_removed op op' \<and> (\<forall>k\<in>set ids. od_get (request_states op') k = None)"
  using assms
proof (induction arbitrary: aborted op' D rule: abort_loop.raw_induct [rotated 1, consumes 1, case_names step])
  case (step rec ids op r)
  note IH = step(1) and body0 = step(2) and r = step(3) and inv = step(4) and D = step(5)
  show ?case
  proof (cases ids)
    case Nil
    then show ?thesis using body0 r inv by (auto simp: only_removed_def)
  next
    case (Cons rid rids)
    note body = body0 [unfolded Cons list.case]
    show ?thesis
    proof (cases "od_get (request_states op) rid")
      case (Some rs)
      then obtain op1 r1 where op1: "abort_state rs op = Inr op1" "rec rids op1 = Some r1"
          "r = bindR r1 (\<lambda>(aborted, op2). Inr (rid # aborted, op2))"
        using body r by (auto split: sum.splits simp: bind_eq_Some_conv)
      then obtain ab where ab: "r1 = Inr (ab, op')" using r by (cases r1) auto
      have rid: "rid \<in> D" "rs_request_id rs = rid" using D Cons Some op_inv_state [OF inv Some] by auto
      note gone = abort_state_removes [OF op1(1), unfolded rid(2)]
      have "\<forall>k\<in>set rids. od_get (request_states op1) k \<noteq> None \<longrightarrow> k \<in> D - {rid}"
        using D Cons gone unfolding only_removed_def by (metis DiffI list.set_intros(2) singletonD)
      note rest = IH [OF op1(2) ab abort_state_inv [OF inv Some rid(1) op1(1)] this]
      have "D - set ids = D - {rid} - set rids" using Cons by auto
      then show ?thesis
        using rest gone only_removed_trans [of op op1 op'] only_removed_None [of op1 op'] Cons by auto
    next
      case None
      have absent: "op_inv (D - {rid}) op" by (rule absent_inv [OF inv None])
      show ?thesis
      proof (cases "rid \<in> set (parent_keys op)")
        case False
        then have "rec rids op = Some r" using body None by simp
        have sub: "\<forall>k\<in>set rids. od_get (request_states op) k \<noteq> None \<longrightarrow> k \<in> D - {rid}"
        proof (intro ballI impI)
          fix k assume "k \<in> set rids" "od_get (request_states op) k \<noteq> None"
          then show "k \<in> D - {rid}" using D Cons None by auto
        qed
        from IH [OF \<open>rec rids op = Some r\<close> r absent sub]
        have "op_inv (D - {rid} - set rids) op' \<and> only_removed op op' \<and> (\<forall>k\<in>set rids. od_get (request_states op') k = None)" .
        moreover have "D - set ids = D - {rid} - set rids" using Cons by auto
        ultimately show ?thesis using only_removed_None [OF _ None] Cons by auto
      next
        case True
        then obtain p r1 where p: "op_parents op rid = Some p"
            "(if child_requests p = [] then Some (Inr ([], op))
              else (case internal_ids True (child_requests p) op of
                      Inl e \<Rightarrow> Some (Inl e)
                    | Inr (children, op1) \<Rightarrow> rec children op1)) = Some r1"
            "(case r1 of Inl e \<Rightarrow> Some (Inl e)
              | Inr (children, op1) \<Rightarrow>
                  Option.bind (rec rids (op1\<lparr>parent_keys := filter (\<lambda>k. k \<noteq> rid) (parent_keys op1)\<rparr>)) (\<lambda>r'.
                  Some (bindR r' (\<lambda>(aborted, op2). Inr (children @ aborted, op2))))) = Some r"
          using body None r by (auto split: option.splits simp: bind_eq_Some_conv)
        obtain children op1 r2 ab where op1: "r1 = Inr (children, op1)"
            "rec rids (op1\<lparr>parent_keys := filter (\<lambda>k. k \<noteq> rid) (parent_keys op1)\<rparr>) = Some r2" "r2 = Inr (ab, op')"
          using p(3) r by (auto split: sum.splits simp: bind_eq_Some_conv bindR_eq_Inr)
        have kept: "op_inv D op1 \<and> only_removed op op1"
        proof (cases "child_requests p = []")
          case True
          then show ?thesis using p(2) op1(1) inv by (simp add: only_removed_def)
        next
          case False
          then obtain ch opx where ch: "internal_ids True (child_requests p) op = Inr (ch, opx)" "rec ch opx = Some r1"
            using p(2) op1(1) by (auto split: sum.splits)
          note x = internal_ids_inv [OF ch(1) inv]
          then have invx: "op_inv (D \<union> set ch) opx" and same: "request_states opx = request_states op" by blast+
          have "\<forall>k\<in>set ch. od_get (request_states opx) k \<noteq> None \<longrightarrow> k \<in> D \<union> set ch" by simp
          note c = IH [OF ch(2) op1(1) invx this]
          have "D \<union> set ch - set ch - set ch = D - set ch" by blast
          from absent_inv_set [OF _ this] c have "op_inv D op1" by blast
          then show ?thesis using c only_removed_trans only_removed_same [OF same] by blast
        qed
        let ?op2 = "op1\<lparr>parent_keys := filter (\<lambda>k. k \<noteq> rid) (parent_keys op1)\<rparr>"
        have none1: "od_get (request_states op1) rid = None" using kept only_removed_None [OF _ None] by blast
        then have inv2: "op_inv (D - {rid}) ?op2" using absent_inv kept by fastforce
        have "\<forall>k\<in>set rids. od_get (request_states ?op2) k \<noteq> None \<longrightarrow> k \<in> D - {rid}"
        proof (intro ballI impI)
          fix k assume k: "k \<in> set rids" "od_get (request_states ?op2) k \<noteq> None"
          then have "od_get (request_states op1) k \<noteq> None" by simp
          then have "od_get (request_states op) k \<noteq> None" using only_removed_None [OF conjunct2 [OF kept], of k] by (rule contrapos_nn)
          then show "k \<in> D - {rid}" using k D Cons none1 by auto
        qed
        note rest = IH [OF op1(2,3) inv2 this]
        have "only_removed op op'"
          using kept rest only_removed_trans [of op op1 op'] by (simp add: only_removed_def)
        moreover have "D - set ids = D - {rid} - set rids" using Cons by auto
        ultimately show ?thesis using rest only_removed_None [OF _ None] Cons by auto
      qed
    qed
  qed
qed
lemma op_abort_inv:
  assumes "op_abort_requests rids internal op = Some (Inr (aborted, op'))" "op_inv {} op"
  shows "op_inv {} op'"
proof -
  obtain ids op1 where ids: "internal_ids internal rids op = Inr (ids, op1)" "abort_loop ids op1 = Some (Inr (aborted, op'))"
    using assms(1) by (auto simp: op_abort_requests_def split: sum.splits)
  have "op_inv (set ids) op1" using internal_ids_inv [OF ids(1) assms(2)] by simp
  moreover have "\<forall>k\<in>set ids. od_get (request_states op1) k \<noteq> None \<longrightarrow> k \<in> set ids" by simp
  ultimately have "op_inv (set ids - set ids) op'" using abort_loop_inv [OF ids(2) refl] by blast
  then show ?thesis by simp
qed

section \<open>Arrivals and outputs\<close>

lemma update_streaming_inv:
  assumes "update_streaming_request_state rs req op = Inr op'" "op_inv {} op"
    and st: "od_get (request_states op) (rs_request_id rs) = Some rs"
  shows "op_inv {} op'"
proof -
  have put: "op_inv {} (put_state rs' op)" if "same_names rs rs'" for rs'
    using put_state_inv [OF assms(2) _ that] st that by (simp add: same_names_def)
  show ?thesis
  proof (cases "cr_resumable req")
    case True
    then show ?thesis
      using assms(1) put [OF apply_streaming_names(1)] put [of "rs\<lparr>input_chunk_queue := q\<rparr>" for q]
      by (auto simp: update_streaming_request_state_def Let_def same_names_def split: option.splits)
  next
    case False
    show ?thesis
    proof (cases "input_chunk_queue rs")
      case None
      then obtain op1 where op1: "finish_request rs op = Inr op1"
          "(case rs_queue rs of None \<Rightarrow> Inr op1 | Some q \<Rightarrow> put_msg q (CompletionMsg stream_finished) op1) = Inr op'"
        using assms(1) False by (auto simp: update_streaming_request_state_def bindR_eq_Inr)
      have "op_inv {} op1" using finish_request_inv [OF assms(2) op1(1) st] by simp
      moreover have "op' = op1 \<or> same_dicts op1 op'"
        using op1(2) put_msg_dicts by (cases "rs_queue rs") auto
      ultimately show ?thesis using same_dicts_inv by blast
    next
      case (Some us)
      then obtain f where "op' = put_state (f rs) op" "same_names rs (f rs)"
      proof (cases us)
        case Nil
        then show ?thesis using that [of "\<lambda>rs. rs\<lparr>streaming_input := False\<rparr>"] assms(1) False Some
          by (simp add: update_streaming_request_state_def same_names_def)
      next
        case (Cons u us')
        then show ?thesis
          using that [of "\<lambda>rs. rs\<lparr>input_chunk_queue := Some (butlast us @ [(last us)\<lparr>su_final := True\<rparr>])\<rparr>"] assms(1) False Some
          by (simp add: update_streaming_request_state_def same_names_def)
      qed
      then show ?thesis using put by blast
    qed
  qed
qed

lemma new_req_state_names:
  "new_req_state env req parent index q = Inr rs \<Longrightarrow> rs_request_id rs = cr_request_id req"
  by (auto simp: new_req_state_def bindR_eq_Inr split: option.splits)

lemma add_request_dicts:
  assumes "op_add_request env req parent index q op = Inr op'" "od_get (request_states op) (cr_request_id req) = None"
  shows "\<exists>rs. rs_request_id rs = cr_request_id req
    \<and> request_states op' = od_set (cr_request_id req) rs (request_states op)
    \<and> external_req_ids op' = od_set (rs_external_req_id rs)
        ((case od_get (external_req_ids op) (rs_external_req_id rs) of None \<Rightarrow> [] | Some l \<Rightarrow> l) @ [cr_request_id req])
        (external_req_ids op)"
proof -
  obtain rs where rs: "new_req_state env req parent index q = Inr rs"
    using assms by (auto simp: op_add_request_def bindR_eq_Inr)
  with assms show ?thesis
    by (intro exI [of _ rs])
      (auto simp: op_add_request_def Let_def new_req_state_names split: option.splits)
qed

lemma add_request_inv:
  assumes "op_add_request env req parent index q op = Inr op'" "op_inv {} op"
  shows "op_inv {} op'"
proof (cases "od_get (request_states op) (cr_request_id req)")
  case (Some rs)
  then have "update_streaming_request_state rs req op = Inr op'" using assms(1) by (simp add: op_add_request_def)
  then show ?thesis using update_streaming_inv assms(2) Some op_inv_state by metis
next
  case None
  let ?k = "cr_request_id req"
  obtain rs where rs: "rs_request_id rs = ?k" "request_states op' = od_set ?k rs (request_states op)"
      "external_req_ids op' = od_set (rs_external_req_id rs)
        ((case od_get (external_req_ids op) (rs_external_req_id rs) of None \<Rightarrow> [] | Some l \<Rightarrow> l) @ [?k]) (external_req_ids op)"
    using add_request_dicts [OF assms(1) None] by blast
  let ?e = "rs_external_req_id rs"
  let ?l = "case od_get (external_req_ids op) ?e of None \<Rightarrow> [] | Some l \<Rightarrow> l"
  have l: "set ?l = ext_ids {} op ?e" "distinct ?l" using lists_exactly_default [OF op_inv_lists [OF assms(2)]] by blast+
  have new: "?k \<notin> ext_ids {} op e" for e using None by (simp add: ext_ids_def)
  have ids: "ext_ids {} op' e = (if e = ?e then insert ?k (ext_ids {} op e) else ext_ids {} op e)" for e
    using None by (auto simp: ext_ids_def rs(2))
  show ?thesis
    unfolding op_inv_def
  proof (intro conjI allI impI)
    fix k r assume "od_get (request_states op') k = Some r"
    then show "rs_request_id r = k" using rs(1,2) op_inv_state [OF assms(2)] by (auto split: if_splits)
  next
    fix e
    show "lists_exactly (od_get (external_req_ids op') e) (ext_ids {} op' e)"
    proof (cases "e = ?e")
      case True
      then show ?thesis using l new [of ?e] unfolding ids rs(3) by simp
    next
      case False
      then show ?thesis using op_inv_lists [OF assms(2), of e] unfolding ids rs(3) by simp
    qed
  qed
qed

lemma complete_request_inv:
  assumes "complete_request eo rs op = Inr (ab, op')" "op_inv {} op"
    and st: "od_get (request_states op) (rs_request_id rs) = Some rs"
  shows "op_inv {} op'"
proof (cases "streaming_input rs")
  case True
  have put: "op_inv {} (put_state rs' op)" if "same_names rs rs'" for rs'
    using put_state_inv [OF assms(2) _ that] st that by (simp add: same_names_def)
  have ended: "op_inv {} (put_state (rs\<lparr>input_chunk_queue := None\<rparr>) op)"
    by (rule put) (simp add: same_names_def)
  have going: "op_inv {} (put_state (apply_streaming_update u (rs\<lparr>input_chunk_queue := q\<rparr>)) op)" for u q
    by (rule put, rule same_names_trans [OF _ apply_streaming_names(2)]) (simp add: same_names_def)
  consider u us where "input_chunk_queue rs = Some (u # us)" | "input_chunk_queue rs = None \<or> input_chunk_queue rs = Some []"
    by (metis neq_Nil_conv not_None_eq)
  then show ?thesis
  proof cases
    case 1
    then have "op' = put_state (apply_streaming_update u (rs\<lparr>input_chunk_queue := Some us\<rparr>)) op"
      using assms(1) True by (simp add: complete_request_def)
    then show ?thesis using going by simp
  next
    case 2
    then have "op' = put_state (rs\<lparr>input_chunk_queue := None\<rparr>) op"
      using assms(1) True by (auto simp: complete_request_def)
    then show ?thesis using ended by simp
  qed
next
  case False
  then show ?thesis
    using assms(1) finish_request_inv [OF assms(2) _ st] by (auto simp: complete_request_def bindR_eq_Inr)
qed

lemma process_one_inv:
  assumes "process_one env eo (outs, aborts, op) = Inr (outs', aborts', op')" "op_inv {} op"
  shows "op_inv {} op'"
proof (cases "od_get (request_states op) (eo_request_id eo)")
  case None
  then show ?thesis using assms by (simp add: process_one_def)
next
  case (Some rs)
  then obtain finish st rs1 out rs2 ps where
      d: "detokenize_output (oe_decode env) eo rs = Inr (finish, st, rs1)" and
      m: "make_request_output (eo_new_token_ids eo) (eo_pooling_output eo) finish st rs1 (op_parents op) = Inr (out, rs2, ps)"
    using assms(1) by (auto simp: process_one_def bindR_eq_Inr)
  let ?op1 = "put_state rs2 (op\<lparr>op_parents := ps\<rparr>)"
  obtain outs1 op2 where
      o: "(case out of None \<Rightarrow> Inr (outs, ?op1)
           | Some m \<Rightarrow> (let m1 = (if streaming_input rs2 then unfinish m else m)
                       in (case rs_queue rs2 of
                             Some q \<Rightarrow> bindR (put_msg q m1 ?op1) (\<lambda>op2. Inr (outs, op2))
                           | None \<Rightarrow> Inr (outs @ [m1], ?op1)))) = Inr (outs1, op2)"
    and c: "(if finish = None then Inr (outs1, aborts, op2)
             else bindR (complete_request eo rs2 op2) (\<lambda>(ab, op3). Inr (outs1, aborts @ ab, op3))) = Inr (outs', aborts', op')"
    using assms(1) Some d m by (auto simp: process_one_def Let_def bindR_eq_Inr)
  have names: "same_names rs rs2"
    using detokenize_output_names [OF d] make_request_output_names [OF m] same_names_trans by blast
  have rid: "rs_request_id rs2 = eo_request_id eo" using names op_inv_state [OF assms(2) Some] by (simp add: same_names_def)
  have inv1: "op_inv {} ?op1"
    by (rule put_state_inv [OF _ _ names]) (use assms(2) Some rid in simp_all)
  have st1: "od_get (request_states ?op1) (rs_request_id rs2) = Some rs2" by (simp add: put_state_def)
  have "same_dicts ?op1 op2"
    using o put_msg_dicts by (auto simp: Let_def bindR_eq_Inr same_dicts_def split: option.splits if_splits)
  then have "op_inv {} op2" "od_get (request_states op2) (rs_request_id rs2) = Some rs2"
    using inv1 st1 same_dicts_inv by (auto simp: same_dicts_def)
  then show ?thesis
    using c complete_request_inv [of eo rs2 op2] by (auto simp: bindR_eq_Inr split: if_splits)
qed

lemma process_outputs_inv:
  assumes "process_outputs env eos op = Inr (outs, aborts, op')" "op_inv {} op"
  shows "op_inv {} op'"
proof -
  have "op_inv {} (snd (snd (outs, aborts, op')))"
    using assms(1) unfolding process_outputs_def
  proof (rule foldR_invariant [where P = "\<lambda>acc. op_inv {} (snd (snd acc))"])
    show "op_inv {} (snd (snd ([], [], op)))" using assms(2) by simp
    show "op_inv {} (snd (snd acc'))" if "op_inv {} (snd (snd acc))" "process_one env eo acc = Inr acc'" for eo acc acc'
      using that process_one_inv by (cases acc; cases acc') auto
  qed
  then show ?thesis by simp
qed

lemma propagate_error_inv: "propagate_error e rss op = Inr op' \<Longrightarrow> op_inv D op \<Longrightarrow> op_inv D op'"
proof (induction e rss op rule: propagate_error.induct)
  case (2 e rs rss op)
  then obtain q op1 where "put_msg q (ErrorMsg e) op = Inr op1" "propagate_error e rss op1 = Inr op'" "rs_queue rs = Some q"
    by (auto simp: bindR_eq_Inr split: option.splits)
  then show ?case using "2.IH" "2.prems"(2) put_msg_dicts same_dicts_inv by blast
qed simp
section \<open>Reachable states\<close>

text \<open>What the engine front ends do with the output processor: create parents and collectors, add
  requests, samples one by one or all of them, pass on outputs and errors, abort, and fetch from collectors.\<close>

inductive op_reach :: "'s output_env \<Rightarrow> 's output_processor \<Rightarrow> bool" for env where
  init: "op_reach env new_output_processor"
| objects: "op_reach env op \<Longrightarrow> op_reach env (op\<lparr>op_parents := ps, collectors := cs\<rparr>)"
| add: "op_reach env op \<Longrightarrow> op_add_request env req parent index q op = Inr op' \<Longrightarrow> op_reach env op'"
| child: "op_reach env op \<Longrightarrow> add_child env req pid q index op = Inr op' \<Longrightarrow> op_reach env op'"
| fan: "op_reach env op \<Longrightarrow> fan_out env req n seed q op = Inr op' \<Longrightarrow> op_reach env op'"
| outputs: "op_reach env op \<Longrightarrow> process_outputs env eos op = Inr (outs, aborts, op') \<Longrightarrow> op_reach env op'"
| abort: "op_reach env op \<Longrightarrow> op_abort_requests rids internal op = Some (Inr (aborted, op')) \<Longrightarrow> op_reach env op'"
| error: "op_reach env op \<Longrightarrow> propagate_error e (map snd (request_states op)) op = Inr op' \<Longrightarrow> op_reach env op'"

lemma add_child_inv: "add_child env req pid q index op = Inr op' \<Longrightarrow> op_inv {} op \<Longrightarrow> op_inv {} op'"
  by (auto simp: add_child_def split: option.splits prod.splits intro: add_request_inv)

lemma fan_out_inv:
  assumes "fan_out env req n seed q op = Inr op'" "op_inv {} op"
  shows "op_inv {} op'"
proof -
  obtain ps where "foldR (add_child env req (cr_request_id req) q) [0..<n] (op\<lparr>op_parents := ps\<rparr>) = Inr op'"
    using assms(1) by (auto simp: fan_out_def split: option.splits)
  then show ?thesis
    using assms(2) add_child_inv foldR_invariant [where P = "op_inv {}"] by (metis op_inv_parents)
qed

lemma op_reach_inv: "op_reach env op \<Longrightarrow> op_inv {} op"
proof (induction rule: op_reach.induct)
  case init
  then show ?case by (simp add: op_inv_def ext_ids_def new_output_processor_def)
next
  case (objects op cs ps)
  then show ?case using op_inv_cong [of "op\<lparr>op_parents := ps, collectors := cs\<rparr>" op "{}"] by simp
qed (blast intro: add_request_inv add_child_inv fan_out_inv process_outputs_inv op_abort_inv propagate_error_inv)+

text \<open>(C33) In every reachable state of the output processor its dictionaries agree: each request
  state is stored under its own name; an external name is listed exactly if some request bears it, and
  then with the names of just these requests, each once. So a request without parent, or whose parent
  exists, can always be finished without a KeyError or ValueError, and its name is gone afterwards.\<close>

theorem output_states_consistent:
  assumes "op_reach env op"
  shows "(\<forall>k rs. od_get (request_states op) k = Some rs \<longrightarrow> rs_request_id rs = k)
    \<and> (\<forall>e. case od_get (external_req_ids op) e of
           None \<Rightarrow> \<forall>k rs. od_get (request_states op) k = Some rs \<longrightarrow> rs_external_req_id rs \<noteq> e
         | Some ids \<Rightarrow> ids \<noteq> [] \<and> distinct ids
             \<and> set ids = {k. \<exists>rs. od_get (request_states op) k = Some rs \<and> rs_external_req_id rs = e})
    \<and> (\<forall>k rs. od_get (request_states op) k = Some rs \<longrightarrow>
           rs_parent rs = None \<or> op_parents op (the (rs_parent rs)) \<noteq> None \<longrightarrow>
           (\<exists>op'. finish_request rs op = Inr op' \<and> od_get (request_states op') k = None))"
proof (intro conjI)
  have inv: "op_inv {} op" using op_reach_inv [OF assms] .
  show "\<forall>k rs. od_get (request_states op) k = Some rs \<longrightarrow> rs_request_id rs = k"
    using op_inv_state [OF inv] by blast
  show "\<forall>e. case od_get (external_req_ids op) e of
           None \<Rightarrow> \<forall>k rs. od_get (request_states op) k = Some rs \<longrightarrow> rs_external_req_id rs \<noteq> e
         | Some ids \<Rightarrow> ids \<noteq> [] \<and> distinct ids
             \<and> set ids = {k. \<exists>rs. od_get (request_states op) k = Some rs \<and> rs_external_req_id rs = e}"
  proof
    fix e
    show "case od_get (external_req_ids op) e of
           None \<Rightarrow> \<forall>k rs. od_get (request_states op) k = Some rs \<longrightarrow> rs_external_req_id rs \<noteq> e
         | Some ids \<Rightarrow> ids \<noteq> [] \<and> distinct ids
             \<and> set ids = {k. \<exists>rs. od_get (request_states op) k = Some rs \<and> rs_external_req_id rs = e}"
      using op_inv_lists [OF inv, of e]
      by (cases "od_get (external_req_ids op) e") (auto simp: ext_ids_def)
  qed
  show "\<forall>k rs. od_get (request_states op) k = Some rs \<longrightarrow>
           rs_parent rs = None \<or> op_parents op (the (rs_parent rs)) \<noteq> None \<longrightarrow>
           (\<exists>op'. finish_request rs op = Inr op' \<and> od_get (request_states op') k = None)"
    using finish_request_total [OF inv] by blast
qed
section \<open>Aborting ends\<close>

text \<open>The loop ends because a parent's children are no parents themselves.\<close>

definition children_no_parents :: "'s output_processor \<Rightarrow> bool" where
  "children_no_parents op \<longleftrightarrow>
     (\<forall>pid p. op_parents op pid = Some p \<longrightarrow> set (child_requests p) \<inter> set (parent_keys op) = {})"

lemma children_no_parents_shrunk:
  assumes "children_no_parents op" "shrunk (op_parents op) (op_parents op')" "set (parent_keys op') \<subseteq> set (parent_keys op)"
  shows "children_no_parents op'"
  unfolding children_no_parents_def
proof (intro allI impI)
  fix pid p' assume "op_parents op' pid = Some p'"
  then obtain p where "op_parents op pid = Some p" "set (child_requests p') \<subseteq> set (child_requests p)"
    using assms(2) unfolding shrunk_def by blast
  then show "set (child_requests p') \<inter> set (parent_keys op') = {}"
    using assms(1,3) unfolding children_no_parents_def by blast
qed

text \<open>The loop returned, and did nothing else to parents than take out children.\<close>

definition ended :: "'s output_processor \<Rightarrow> (string list \<times> 's output_processor) res option \<Rightarrow> bool" where
  "ended op r \<longleftrightarrow> (case r of
       None \<Rightarrow> False
     | Some (Inl e) \<Rightarrow> True
     | Some (Inr (_, op')) \<Rightarrow> shrunk (op_parents op) (op_parents op') \<and> set (parent_keys op') \<subseteq> set (parent_keys op))"

lemma ended_cong:
  "op_parents op1 = op_parents op \<Longrightarrow> parent_keys op1 = parent_keys op \<Longrightarrow> ended op1 r \<longleftrightarrow> ended op r"
  by (simp add: ended_def split: option.split sum.split)

lemma ended_map:
  assumes "ended op1 x" "shrunk (op_parents op) (op_parents op1)" "set (parent_keys op1) \<subseteq> set (parent_keys op)"
  shows "ended op (Option.bind x (\<lambda>r. Some (bindR r (\<lambda>(ab, op2). Inr (f ab, op2)))))"
proof (cases x)
  case None
  then show ?thesis using assms(1) by (simp add: ended_def)
next
  case (Some r)
  then show ?thesis using assms shrunk_trans by (cases r) (fastforce simp: ended_def)+
qed

lemma abort_loop_cons_state:
  assumes "od_get (request_states op) rid = Some rs" "\<And>op1. abort_state rs op = Inr op1 \<Longrightarrow> ended op1 (abort_loop rids op1)"
  shows "ended op (abort_loop (rid # rids) op)"
proof (cases "abort_state rs op")
  case (Inl e)
  then show ?thesis using assms(1) by (subst abort_loop.simps) (simp add: ended_def)
next
  case (Inr op1)
  have "ended op (Option.bind (abort_loop rids op1) (\<lambda>r. Some (bindR r (\<lambda>(ab, op2). Inr (rid # ab, op2)))))"
    by (rule ended_map [OF assms(2) [OF Inr]]) (use abort_state_spec [OF Inr] in simp_all)
  then show ?thesis using assms(1) Inr by (subst abort_loop.simps) simp
qed

lemma abort_loop_plain:
  assumes "set ids \<inter> set (parent_keys op) = {}"
  shows "ended op (abort_loop ids op)"
  using assms
proof (induction ids arbitrary: op)
  case Nil
  then show ?case by (subst abort_loop.simps) (simp add: ended_def)
next
  case (Cons rid rids)
  show ?case
  proof (cases "od_get (request_states op) rid")
    case None
    then show ?thesis using Cons by (subst abort_loop.simps) simp
  next
    case (Some rs)
    show ?thesis
    proof (rule abort_loop_cons_state [OF Some])
      fix op1 assume "abort_state rs op = Inr op1"
      then have "parent_keys op1 = parent_keys op" using abort_state_spec by blast
      then show "ended op1 (abort_loop rids op1)" using Cons by simp
    qed
  qed
qed

lemma internal_ids_frame:
  "internal_ids internal rids op = Inr (ids, op') \<Longrightarrow>
     parent_keys op' = parent_keys op \<and> op_parents op' = op_parents op \<and> (internal \<longrightarrow> ids = rids)"
proof (induction internal rids op arbitrary: ids rule: internal_ids.induct)
  case (2 internal rid rids op)
  show ?case
  proof (cases internal)
    case True
    with "2.prems" obtain op1 ids1 where op1: "(case od_get (request_states op) rid of None \<Rightarrow> Inr op
          | Some rs \<Rightarrow> bindR (drop_external (rs_external_req_id rs) rid (external_req_ids op)) (\<lambda>m.
                         Inr (op\<lparr>external_req_ids := m\<rparr>))) = Inr op1"
        "internal_ids True rids op1 = Inr (ids1, op')" "ids = rid # ids1"
      by (auto simp: bindR_eq_Inr)
    then have "parent_keys op1 = parent_keys op \<and> op_parents op1 = op_parents op"
      by (auto simp: bindR_eq_Inr split: option.splits)
    with "2.IH"(1) [OF True op1(1)] op1(2,3) True show ?thesis by simp
  next
    case False
    with "2.prems" "2.IH"(2) [OF False] show ?thesis by (fastforce simp: bindR_eq_Inr)
  qed
qed simp

lemma abort_loop_ends:
  assumes "children_no_parents op"
  shows "ended op (abort_loop ids op)"
  using assms
proof (induction ids arbitrary: op)
  case Nil
  then show ?case by (subst abort_loop.simps) (simp add: ended_def)
next
  case (Cons rid rids)
  show ?case
  proof (cases "od_get (request_states op) rid")
    case (Some rs)
    show ?thesis
    proof (rule abort_loop_cons_state [OF Some])
      fix op1 assume "abort_state rs op = Inr op1"
      then show "ended op1 (abort_loop rids op1)"
        using Cons children_no_parents_shrunk abort_state_spec by (metis order_refl)
    qed
  next
    case None
    show ?thesis
    proof (cases "rid \<in> set (parent_keys op) \<and> op_parents op rid \<noteq> None")
      case False
      then show ?thesis using None Cons by (subst abort_loop.simps) (auto simp: ended_def split: option.split)
    next
      case True
      then obtain p where p: "op_parents op rid = Some p" by blast
      define r where "r = (if child_requests p = [] then Some (Inr ([], op))
          else (case internal_ids True (child_requests p) op of
                  Inl e \<Rightarrow> Some (Inl e) | Inr (children, op1) \<Rightarrow> abort_loop children op1))"
      have r: "ended op r"
      proof (cases "child_requests p = []")
        case False
        show ?thesis
        proof (cases "internal_ids True (child_requests p) op")
          case (Inr x)
          then obtain ch op1 where x: "internal_ids True (child_requests p) op = Inr (ch, op1)" by (cases x) simp
          note frame = internal_ids_frame [OF x]
          have "set ch \<inter> set (parent_keys op1) = {}"
            using Cons.prems p frame by (auto simp: children_no_parents_def)
          then have "ended op1 (abort_loop ch op1)" by (rule abort_loop_plain)
          then have "ended op (abort_loop ch op1)" using ended_cong [of op1 op] frame by simp
          then show ?thesis using x False by (simp add: r_def)
        qed (use False in \<open>simp add: r_def ended_def\<close>)
      qed (simp add: r_def ended_def)
      have loop: "abort_loop (rid # rids) op = Option.bind r (\<lambda>r. case r of
          Inl e \<Rightarrow> Some (Inl e)
        | Inr (children, op1) \<Rightarrow>
            Option.bind (abort_loop rids (op1\<lparr>parent_keys := filter (\<lambda>k. k \<noteq> rid) (parent_keys op1)\<rparr>)) (\<lambda>r'.
            Some (bindR r' (\<lambda>(aborted, op2). Inr (children @ aborted, op2)))))"
        using None True p by (subst abort_loop.simps) (simp add: r_def)
      show ?thesis
      proof (cases r)
        case None
        then show ?thesis using r by (simp add: ended_def)
      next
        case (Some r1)
        show ?thesis
        proof (cases r1)
          case (Inl e)
          then show ?thesis using loop Some by (simp add: ended_def)
        next
          case (Inr x)
          then obtain children op1 where x: "r1 = Inr (children, op1)" by (cases x) simp
          let ?op2 = "op1\<lparr>parent_keys := filter (\<lambda>k. k \<noteq> rid) (parent_keys op1)\<rparr>"
          have sub: "shrunk (op_parents op) (op_parents ?op2)" "set (parent_keys ?op2) \<subseteq> set (parent_keys op)"
            using r Some x by (auto simp: ended_def)
          then have "ended ?op2 (abort_loop rids ?op2)"
            by (intro Cons.IH children_no_parents_shrunk [OF Cons.prems])
          then show ?thesis using ended_map [OF _ sub] loop Some x by simp
        qed
      qed
    qed
  qed
qed

lemma abort_requests_end:
  assumes "children_no_parents op"
  shows "op_abort_requests rids internal op \<noteq> None"
proof (cases "internal_ids internal rids op")
  case (Inr x)
  then obtain ids op1 where x: "internal_ids internal rids op = Inr (ids, op1)" by (cases x) simp
  have "children_no_parents op1" using assms internal_ids_frame [OF x] by (simp add: children_no_parents_def)
  then show ?thesis using abort_loop_ends [of op1 ids] x by (auto simp: op_abort_requests_def ended_def split: option.splits)
qed (simp add: op_abort_requests_def)
section \<open>Deltas add up\<close>

definition msg_completions :: "out_msg option \<Rightarrow> completion_output list" where
  "msg_completions m = (case m of Some (CompletionMsg ro) \<Rightarrow> [c. Some c \<leftarrow> ro_outputs ro] | _ \<Rightarrow> [])"

definition msg_tokens :: "out_msg option \<Rightarrow> token list" where
  "msg_tokens m = concat (map co_token_ids (msg_completions m))"

definition msg_text :: "out_msg option \<Rightarrow> string" where
  "msg_text m = concat (map co_text (msg_completions m))"

text \<open>The steps of a running request: outputs of the engine core that do not end it. \<open>all_toks\<close> are its
  tokens, \<open>sent\<close> and \<open>out\<close> the tokens and the text of the messages.\<close>

inductive delta_run :: "'s decode \<Rightarrow> 's req_state \<Rightarrow> token list \<Rightarrow> token list \<Rightarrow> string \<Rightarrow> 's req_state \<Rightarrow> bool"
  for dec rs0 where
  start: "delta_run dec rs0 [] [] '''' rs0"
| step: "delta_run dec rs0 all_toks sent out rs \<Longrightarrow> eo_pooling_output eo = None \<Longrightarrow>
    detokenize_output dec eo rs = Inr (None, st, rs1) \<Longrightarrow>
    make_request_output (eo_new_token_ids eo) None None st rs1 ps = Inr (m, rs2, ps') \<Longrightarrow>
    delta_run dec rs0 (all_toks @ eo_new_token_ids eo) (sent @ msg_tokens m) (out @ msg_text m) rs2"

definition delta_request :: "'s req_state \<Rightarrow> 's req_state \<Rightarrow> bool" where
  "delta_request rs0 rs \<longleftrightarrow> rs_kind rs = DELTA \<and> rs_parent rs = None \<and> rs_stream_interval rs = rs_stream_interval rs0"

lemma detokenize_output_text:
  assumes "detokenize_output dec eo rs = Inr (f, st, rs1)" "eo_pooling_output eo = None"
    and "rs_detok rs = Some (TextDetok d)"
  shows "\<exists>r d1. dt_update dec (eo_new_token_ids eo) (eo_finish_reason eo = Some FR_STOP) d = Inr (r, d1)
    \<and> rs_detok rs1 = Some (TextDetok d1) \<and> (f = None \<longrightarrow> r = None \<or> r = Some [])
    \<and> rs_kind rs1 = rs_kind rs \<and> rs_parent rs1 = rs_parent rs \<and> rs_stream_interval rs1 = rs_stream_interval rs
    \<and> sent_tokens_offset rs1 = sent_tokens_offset rs"
proof -
  let ?rs1 = "rs\<lparr>rs_num_cached_tokens := eo_num_cached_tokens eo, rs_is_prefilling := False\<rparr>"
  obtain r d1 rs2 where r: "dt_update dec (eo_new_token_ids eo) (eo_finish_reason eo = Some FR_STOP) d = Inr (r, d1)"
      "update_logprobs eo (?rs1\<lparr>rs_detok := Some (TextDetok d1)\<rparr>) = Inr rs2"
      "(case r of
         None \<Rightarrow> (eo_finish_reason eo, eo_stop_reason eo, rs2)
       | Some s \<Rightarrow> if s = [] then (eo_finish_reason eo, eo_stop_reason eo, rs2) else (Some FR_STOP, Some (StopText s), rs2))
       = (f, st, rs1)"
    using assms by (auto simp: detokenize_output_def Let_def bindR_eq_Inr)
  have "rs1 = rs2" "f = None \<longrightarrow> r = None \<or> r = Some []" using r(3) by (auto split: option.splits if_splits)
  moreover have "rs_detok rs2 = Some (TextDetok d1) \<and> rs_kind rs2 = rs_kind rs \<and> rs_parent rs2 = rs_parent rs
      \<and> rs_stream_interval rs2 = rs_stream_interval rs \<and> sent_tokens_offset rs2 = sent_tokens_offset rs"
    using r(2) by (auto simp: update_logprobs_def bindR_eq_Inr split: option.splits)
  ultimately show ?thesis using r(1) by blast
qed

lemma finish_request_output_delta:
  assumes "finish_request_output toks None f st rs ps = Inr (m, rs', ps')"
    and "rs_kind rs = DELTA" "rs_parent rs = None" "rs_detok rs = Some (TextDetok d)"
    and "get_next_output_text (f \<noteq> None) True d = (piece, d1)"
  shows "msg_tokens m = toks \<and> msg_text m = piece \<and> rs_detok rs' = Some (TextDetok d1) \<and> rs_kind rs' = DELTA
    \<and> rs_parent rs' = None \<and> rs_stream_interval rs' = rs_stream_interval rs \<and> sent_tokens_offset rs' = sent_tokens_offset rs
    \<and> m \<noteq> None"
  using assms
  by (auto simp: finish_request_output_def new_completion_output_def new_request_output_def Let_def bindR_eq_Inr
      msg_tokens_def msg_text_def msg_completions_def split: if_splits)

text \<open>What a message of a DELTA request holds, and when there is one.\<close>

lemma make_request_output_delta:
  assumes "make_request_output toks None f st rs ps = Inr (m, rs', ps')"
    and delta: "rs_kind rs = DELTA" "rs_parent rs = None" and d: "rs_detok rs = Some (TextDetok d)"
    and g: "get_next_output_text (f \<noteq> None) True d = (piece, d1)"
  shows "rs_kind rs' = DELTA \<and> rs_parent rs' = None \<and> rs_stream_interval rs' = rs_stream_interval rs
    \<and> (if rs_stream_interval rs > 1 \<and> \<not> interval_reached (f \<noteq> None) (TextDetok d) rs
       then m = None \<and> rs' = rs
       else msg_tokens m = (if rs_stream_interval rs > 1 then drop (nat (sent_tokens_offset rs)) (dt_output_token_ids d) else toks)
         \<and> msg_text m = piece \<and> rs_detok rs' = Some (TextDetok d1)
         \<and> sent_tokens_offset rs' = (if rs_stream_interval rs > 1 then dt_num_output_tokens d else sent_tokens_offset rs))"
proof (cases "rs_stream_interval rs > 1")
  case True
  let ?off = "dt_num_output_tokens d" and ?toks = "drop (nat (sent_tokens_offset rs)) (dt_output_token_ids d)"
  show ?thesis
  proof (cases "interval_reached (f \<noteq> None) (TextDetok d) rs")
    case False
    then show ?thesis using assms True by (simp add: make_request_output_def)
  next
    case reached: True
    then have "finish_request_output ?toks None f st (rs\<lparr>sent_tokens_offset := ?off\<rparr>) ps = Inr (m, rs', ps')"
      using assms(1) True delta d by (simp add: make_request_output_def)
    from finish_request_output_delta [OF this _ _ _ g] show ?thesis
      using True reached delta d by simp
  qed
next
  case False
  then have "finish_request_output toks None f st rs ps = Inr (m, rs', ps')"
    using assms(1) delta by (simp add: make_request_output_def)
  from finish_request_output_delta [OF this delta d g] False show ?thesis by simp
qed
lemma streamed_update:
  assumes "fresh_detok d0" "streamed dec d0 out d" "dt_update dec toks st d = Inr (r, d1)"
  shows "dt_token_ids d1 = dt_token_ids d @ toks \<and> dt_prompt_len d1 = dt_prompt_len d \<and> r \<noteq> Some []"
proof (cases "toks = []")
  case True
  then show ?thesis using assms(3) by auto
next
  case False
  have stops: "\<forall>s\<in>set (dt_stop d). s \<noteq> []" using streamed_inv [OF assms(2,1)] by (simp add: stops_ok_def)
  then obtain full off where "updated toks d full off r d1" using dt_update_spec [OF assms(3) _ False] by blast
  then show ?thesis using stops by (auto simp: updated_def same_setup_def split: option.splits)
qed

lemma get_next_frame:
  "get_next_output_text fin delta d = (piece, d1) \<Longrightarrow> dt_token_ids d1 = dt_token_ids d \<and> dt_prompt_len d1 = dt_prompt_len d"
  by (auto simp: get_next_output_text_def Let_def split: if_splits)

definition sent_ok :: "'s req_state \<Rightarrow> token list \<Rightarrow> token list \<Rightarrow> bool" where
  "sent_ok rs all_toks sent \<longleftrightarrow>
     (if rs_stream_interval rs > 1
      then 0 \<le> sent_tokens_offset rs \<and> sent_tokens_offset rs \<le> int (length all_toks)
        \<and> sent = take (nat (sent_tokens_offset rs)) all_toks
      else sent = all_toks)"

definition delta_inv :: "'s decode \<Rightarrow> 's detok \<Rightarrow> token list \<Rightarrow> token list \<Rightarrow> token list \<Rightarrow> string \<Rightarrow> 's req_state \<Rightarrow> bool" where
  "delta_inv dec d0 prompt all_toks sent out rs \<longleftrightarrow> rs_kind rs = DELTA \<and> rs_parent rs = None
     \<and> (\<exists>d. rs_detok rs = Some (TextDetok d) \<and> streamed dec d0 out d \<and> dt_token_ids d = prompt @ all_toks
          \<and> dt_prompt_len d = length prompt)
     \<and> sent_ok rs all_toks sent"

text \<open>One step, with the detokenizer behind its update.\<close>

lemma delta_step:
  assumes inv: "delta_inv dec d0 prompt all_toks sent out rs" and fresh: "fresh_detok d0"
    and pool: "eo_pooling_output eo = None" and det: "detokenize_output dec eo rs = Inr (f, st, rs1)"
    and mk: "make_request_output (eo_new_token_ids eo) None f st rs1 ps = Inr (m, rs2, ps')"
  shows "\<exists>r d d1 stt. streamed dec d0 out d \<and> dt_update dec (eo_new_token_ids eo) stt d = Inr (r, d1) \<and> (f = None \<longrightarrow> r = None)
    \<and> rs_detok rs1 = Some (TextDetok d1) \<and> dt_token_ids d1 = prompt @ all_toks @ eo_new_token_ids eo
    \<and> dt_prompt_len d1 = length prompt \<and> rs_kind rs2 = DELTA \<and> rs_parent rs2 = None
    \<and> sent_ok rs2 (all_toks @ eo_new_token_ids eo) (sent @ msg_tokens m)
    \<and> (f \<noteq> None \<longrightarrow> sent @ msg_tokens m = all_toks @ eo_new_token_ids eo
         \<and> msg_text m = fst (get_next_output_text True True d1))
    \<and> (f = None \<longrightarrow> (m = None \<and> rs_detok rs2 = Some (TextDetok d1))
         \<or> (\<exists>d2. get_next_output_text False True d1 = (msg_text m, d2) \<and> rs_detok rs2 = Some (TextDetok d2)))"
proof -
  obtain d where d: "rs_detok rs = Some (TextDetok d)" "streamed dec d0 out d" "dt_token_ids d = prompt @ all_toks"
      "dt_prompt_len d = length prompt" and kind: "rs_kind rs = DELTA" "rs_parent rs = None" and sent: "sent_ok rs all_toks sent"
    using inv by (auto simp: delta_inv_def)
  obtain r d1 where up: "dt_update dec (eo_new_token_ids eo) (eo_finish_reason eo = Some FR_STOP) d = Inr (r, d1)"
      "rs_detok rs1 = Some (TextDetok d1)" "f = None \<longrightarrow> r = None \<or> r = Some []"
      "rs_kind rs1 = DELTA" "rs_parent rs1 = None" "rs_stream_interval rs1 = rs_stream_interval rs"
      "sent_tokens_offset rs1 = sent_tokens_offset rs"
    using detokenize_output_text [OF det pool d(1)] kind by auto
  note frame = streamed_update [OF fresh d(2) up(1)]
  obtain piece d2 where g: "get_next_output_text (f \<noteq> None) True d1 = (piece, d2)" by fastforce
  note m = make_request_output_delta [OF mk up(4,5,2) g]
  let ?all = "all_toks @ eo_new_token_ids eo"
  have toks: "dt_token_ids d1 = prompt @ ?all" "dt_prompt_len d1 = length prompt" using frame d by simp_all
  have out_ids: "dt_output_token_ids d1 = ?all" "dt_num_output_tokens d1 = int (length ?all)"
    using toks by (auto simp: dt_output_token_ids_def dt_num_output_tokens_def)
  have sent_all: "sent @ drop (nat (sent_tokens_offset rs)) ?all = ?all" if "rs_stream_interval rs > 1"
  proof -
    have "nat (sent_tokens_offset rs) \<le> length all_toks" "sent = take (nat (sent_tokens_offset rs)) all_toks"
      using sent that by (auto simp: sent_ok_def)
    then show ?thesis by (simp flip: append_assoc)
  qed
  have ok: "sent_ok rs2 ?all (sent @ msg_tokens m)"
    using m sent sent_all up(6,7) out_ids by (auto simp: sent_ok_def msg_tokens_def msg_completions_def split: if_splits)
  have fin: "sent @ msg_tokens m = ?all \<and> msg_text m = fst (get_next_output_text True True d1)" if "f \<noteq> None"
    using m sent sent_all up(6,7) out_ids g that by (auto simp: sent_ok_def interval_reached_def split: if_splits)
  have run: "(m = None \<and> rs_detok rs2 = Some (TextDetok d1))
      \<or> (\<exists>d2. get_next_output_text False True d1 = (msg_text m, d2) \<and> rs_detok rs2 = Some (TextDetok d2))" if "f = None"
    using m g up(2) that by (auto split: if_splits)
  show ?thesis
    using d(2) up(1,2,3) frame toks ok fin run m by (intro exI [of _ r] exI [of _ d] exI [of _ d1] exI [of _ "eo_finish_reason eo = Some FR_STOP"]) auto
qed

lemma delta_run_inv:
  assumes "delta_run dec rs0 all_toks sent out rs" "fresh_detok d0" "delta_inv dec d0 prompt [] [] '''' rs0"
  shows "delta_inv dec d0 prompt all_toks sent out rs"
  using assms(1)
proof induction
  case start
  then show ?case by (rule assms(3))
next
  case (step all_toks sent out rs eo st rs1 ps m rs2 ps')
  from delta_step [OF step.IH assms(2) step.hyps(2-4)] obtain d d1 stt where
      s: "streamed dec d0 out d" "dt_update dec (eo_new_token_ids eo) stt d = Inr (None, d1)"
      "dt_token_ids d1 = prompt @ all_toks @ eo_new_token_ids eo" "dt_prompt_len d1 = length prompt"
      "rs_kind rs2 = DELTA" "rs_parent rs2 = None" "sent_ok rs2 (all_toks @ eo_new_token_ids eo) (sent @ msg_tokens m)"
    and m: "(m = None \<and> rs_detok rs2 = Some (TextDetok d1))
      \<or> (\<exists>d2. get_next_output_text False True d1 = (msg_text m, d2) \<and> rs_detok rs2 = Some (TextDetok d2))"
    by auto
  have d1: "streamed dec d0 out d1" using streamed.update [OF s(1,2)] .
  have "\<exists>d'. rs_detok rs2 = Some (TextDetok d') \<and> streamed dec d0 (out @ msg_text m) d'
      \<and> dt_token_ids d' = prompt @ all_toks @ eo_new_token_ids eo \<and> dt_prompt_len d' = length prompt"
    using m
  proof
    assume "m = None \<and> rs_detok rs2 = Some (TextDetok d1)"
    then show ?thesis using d1 s(3,4) by (auto simp: msg_text_def msg_completions_def)
  next
    assume "\<exists>d2. get_next_output_text False True d1 = (msg_text m, d2) \<and> rs_detok rs2 = Some (TextDetok d2)"
    then obtain d2 where d2: "get_next_output_text False True d1 = (msg_text m, d2)" "rs_detok rs2 = Some (TextDetok d2)" by blast
    show ?thesis using d2 streamed.read [OF d1 d2(1)] get_next_frame [OF d2(1)] s(3,4) by auto
  qed
  then show ?case using s(5-7) by (simp add: delta_inv_def)
qed

text \<open>(C32) The deltas of a request add up to its whole output. However the engine core splits the tokens into
  steps and whatever the stream interval, when the request ends (at a limit, by a stop token or a stop string, or by
  an abort, which brings no tokens) the token lists of the messages, with the last one, are all
  tokens in order, and their texts are the final text, even where a stop string cut it.\<close>

theorem delta_stream_complete:
  assumes "rs_kind rs0 = DELTA" "rs_parent rs0 = None" "sent_tokens_offset rs0 = 0"
    and d0: "rs_detok rs0 = Some (TextDetok (init_detok stop minimum inc prompt (length prompt) de))"
      "\<forall>s\<in>set (stop_strings stop). s \<noteq> []"
    and run: "delta_run dec rs0 all_toks sent out rs" and eo: "eo_pooling_output eo = None"
    and det: "detokenize_output dec eo rs = Inr (Some reason, st, rs1)"
    and mk: "make_request_output (eo_new_token_ids eo) None (Some reason) st rs1 ps = Inr (m, rs2, ps')"
  shows "sent @ msg_tokens m = all_toks @ eo_new_token_ids eo
    \<and> (\<exists>d. rs_detok rs1 = Some (TextDetok d) \<and> dt_output_token_ids d = all_toks @ eo_new_token_ids eo
         \<and> out @ msg_text m = output_text d)"
proof -
  let ?d0 = "init_detok stop minimum inc prompt (length prompt) de"
  have fresh: "fresh_detok ?d0" unfolding fresh_detok_def using d0(2) by blast
  have "delta_inv dec ?d0 prompt [] [] '''' rs0"
    using assms(1-3) d0 streamed.start [of dec ?d0] by (auto simp: delta_inv_def sent_ok_def init_detok_def)
  from delta_step [OF delta_run_inv [OF run fresh this] fresh eo det mk] obtain r d d1 stt where
      s: "streamed dec ?d0 out d" "dt_update dec (eo_new_token_ids eo) stt d = Inr (r, d1)" "rs_detok rs1 = Some (TextDetok d1)"
      "dt_token_ids d1 = prompt @ all_toks @ eo_new_token_ids eo" "dt_prompt_len d1 = length prompt"
      "sent @ msg_tokens m = all_toks @ eo_new_token_ids eo" "msg_text m = fst (get_next_output_text True True d1)"
    by auto
  obtain piece d2 where g: "get_next_output_text True True d1 = (piece, d2)" by fastforce
  have "out @ piece = output_text d1"
    using streamed_final [OF fresh s(1,2) g] by blast
  then show ?thesis using s g by (auto simp: dt_output_token_ids_def)
qed
lemma case_InrE:
  assumes "case r of Inl e \<Rightarrow> False | Inr x \<Rightarrow> P x"
  obtains x where "r = Inr x" "P x"
  using assms by (cases r) auto

text \<open>A run with stream interval 2 that ends by a stop string.\<close>

definition letter_state :: "output_kind \<Rightarrow> unit req_state" where
  "letter_state kind = \<lparr>rs_request_id = ''r'', rs_external_req_id = ''x'', rs_parent = None, rs_index = 0,
     rs_kind = kind, rs_prompt_token_ids = Some [5], rs_prompt_embeds = None, rs_prompt_len = 1,
     rs_detok = Some (TextDetok (letter_detok [''bc''])), rs_logprobs = Some [], rs_prompt_logprobs = None,
     rs_is_prefilling = True, rs_queue = None, rs_num_cached_tokens = 0, rs_stream_interval = 2,
     sent_tokens_offset = 0, streaming_input = False, input_chunk_queue = None\<rparr>"

definition letter_output :: "token list \<Rightarrow> logprob list \<Rightarrow> core_output" where
  "letter_output toks lps = \<lparr>eo_request_id = ''r'', eo_new_token_ids = toks, eo_new_logprobs = Some lps,
     eo_new_prompt_logprobs = None, eo_pooling_output = None, eo_finish_reason = None, eo_stop_reason = None,
     eo_num_cached_tokens = 0\<rparr>"

theorem delta_stream_witness:
  "\<exists>sent out rs st rs1 m rs2 ps'. delta_run letter_decode (letter_state DELTA) [1, 2] sent out rs
     \<and> detokenize_output letter_decode (letter_output [3] [30]) rs = Inr (Some FR_STOP, st, rs1)
     \<and> make_request_output [3] None (Some FR_STOP) st rs1 Map.empty = Inr (m, rs2, ps')
     \<and> sent @ msg_tokens m = [1, 2, 3]"
proof -
  let ?eo1 = "letter_output [1, 2] [10, 20]" and ?eo2 = "letter_output [3] [30]"
  have "case detokenize_output letter_decode ?eo1 (letter_state DELTA) of
      Inl e \<Rightarrow> False
    | Inr x \<Rightarrow> fst x = None \<and>
       (case make_request_output [1, 2] None None (fst (snd x)) (snd (snd x)) Map.empty of
          Inl e \<Rightarrow> False
        | Inr y \<Rightarrow>
           (case detokenize_output letter_decode ?eo2 (fst (snd y)) of
              Inl e \<Rightarrow> False
            | Inr z \<Rightarrow> fst z = Some FR_STOP \<and>
               (case make_request_output [3] None (fst z) (fst (snd z)) (snd (snd z)) Map.empty of
                  Inl e \<Rightarrow> False | Inr w \<Rightarrow> True)))"
    by code_simp
  then obtain x y z w where
      xyz: "detokenize_output letter_decode ?eo1 (letter_state DELTA) = Inr x" "fst x = None"
      "make_request_output [1, 2] None None (fst (snd x)) (snd (snd x)) Map.empty = Inr y"
      "detokenize_output letter_decode ?eo2 (fst (snd y)) = Inr z" "fst z = Some FR_STOP"
      "make_request_output [3] None (fst z) (fst (snd z)) (snd (snd z)) Map.empty = Inr w"
    by (elim case_InrE conjE) (rule that)
  obtain st rs1 where x: "x = (None, st, rs1)" using xyz(2) by (cases x) auto
  obtain m rs2 ps where y: "y = (m, rs2, ps)" by (cases y)
  obtain st2 rs3 where z: "z = (Some FR_STOP, st2, rs3)" using xyz(5) by (cases z) auto
  obtain m2 rs4 ps2 where w: "w = (m2, rs4, ps2)" by (cases w)
  have 1: "detokenize_output letter_decode ?eo1 (letter_state DELTA) = Inr (None, st, rs1)"
      "make_request_output [1, 2] None None st rs1 Map.empty = Inr (m, rs2, ps)"
    and 2: "detokenize_output letter_decode ?eo2 rs2 = Inr (Some FR_STOP, st2, rs3)"
      "make_request_output [3] None (Some FR_STOP) st2 rs3 Map.empty = Inr (m2, rs4, ps2)"
    using xyz unfolding x y z w by simp_all
  have eo: "eo_new_token_ids (letter_output toks lps) = toks" "eo_pooling_output (letter_output toks lps) = None" for toks lps
    by (simp_all add: letter_output_def)
  have run: "delta_run letter_decode (letter_state DELTA) [1, 2] (msg_tokens m) (msg_text m) rs2"
    using delta_run.step [OF delta_run.start eo(2) 1(1), unfolded eo, OF 1(2)] by simp
  have s0: "rs_kind (letter_state DELTA) = DELTA" "rs_parent (letter_state DELTA) = None"
      "sent_tokens_offset (letter_state DELTA) = 0"
      "rs_detok (letter_state DELTA) = Some (TextDetok (init_detok (StopList [''bc'']) 0 False [] (length ([] :: token list)) ()))"
      "\<forall>s\<in>set (stop_strings (StopList [''bc''])). s \<noteq> []"
    by (simp_all add: letter_state_def letter_detok_def)
  from delta_stream_complete [OF s0 run eo(2) 2(1), unfolded eo, OF 2(2)]
  have "msg_tokens m @ msg_tokens m2 = [1, 2, 3]" by simp
  with run 2 show ?thesis by blast
qed

section \<open>Samples of one request\<close>

text \<open>The children of a parent, named in turn.\<close>

definition child_name :: "parent_request \<Rightarrow> nat \<Rightarrow> string" where
  "child_name p i = digits i @ ''_'' @ pr_request_id p"

definition name_children :: "nat \<Rightarrow> parent_request \<Rightarrow> parent_request" where
  "name_children n p = foldl (\<lambda>p i. snd (snd (get_child_info i p))) p [0..<n]"

text \<open>The outputs of the children, in the order in which they arrive: the index of a child and what it sends.\<close>

type_synonym child_outputs = "(nat \<times> completion_output) list"

fun feed_outputs :: "child_outputs \<Rightarrow> parent_request \<Rightarrow> ((completion_output option list \<times> bool) list \<times> parent_request) res" where
  "feed_outputs [] p = Inr ([], p)"
| "feed_outputs ((i, c) # es) p =
     bindR (get_outputs (child_name p i) c p) (\<lambda>(outs, fin, p1).
     bindR (feed_outputs es p1) (\<lambda>(rs, p2). Inr ((outs, fin) # rs, p2)))"

fun undigits :: "nat \<Rightarrow> string \<Rightarrow> nat" where
  "undigits a [] = a"
| "undigits a (ch # cs) = undigits (a * 10 + (of_char ch - 48)) cs"

lemma undigits_append: "undigits a (xs @ ys) = undigits (undigits a xs) ys"
  by (induction a xs rule: undigits.induct) simp_all

lemma undigits_digits: "undigits 0 (digits n) = n"
proof (induction n rule: digits.induct)
  case (1 n)
  have ch: "(of_char (char_of (48 + k) :: char) :: nat) = 48 + k" if "k < 10" for k :: nat
    using that by (simp add: of_char_of)
  show ?case
  proof (cases "n < 10")
    case True
    then show ?thesis using ch [of n] by (simp add: digits.simps [of n])
  next
    case False
    then show ?thesis using 1 ch [of "n mod 10"] by (simp add: digits.simps [of n] undigits_append)
  qed
qed

lemma child_name_inj: "child_name p i = child_name p j \<longleftrightarrow> i = j"
  by (metis append_same_eq child_name_def undigits_digits)

lemma child_name_update: "child_name (p\<lparr>child_requests := xs\<rparr>) = child_name p"
  by (rule ext) (simp add: child_name_def)

lemma name_children_spec:
  assumes "child_requests p = []"
  shows "name_children n p = p\<lparr>child_requests := rev (map (child_name p) [0..<n])\<rparr>"
proof (induction n)
  case 0
  then show ?case using assms by (simp add: name_children_def)
next
  case (Suc n)
  have "name_children (Suc n) p = snd (snd (get_child_info n (name_children n p)))"
    by (simp add: name_children_def)
  moreover have "child_name p n \<notin> set (map (child_name p) [0..<n])" using child_name_inj by auto
  ultimately show ?case using Suc by (simp add: get_child_info_def child_name_def Let_def)
qed

text \<open>What the parent should answer when it has seen the outputs \<open>seen\<close>, the last one just now. A
  streaming client is handed each output at once; a client that only wants the end gets nothing until
  every child has finished, and then the last output of all of them by index.\<close>

definition finals :: "child_outputs \<Rightarrow> child_outputs" where
  "finals seen = filter (\<lambda>e. co_finish_reason (snd e) \<noteq> None) seen"

definition all_finished :: "nat \<Rightarrow> child_outputs \<Rightarrow> bool" where
  "all_finished n seen \<longleftrightarrow> (\<forall>i\<in>set [0..<n]. i \<in> fst ` set (finals seen))"

definition parent_answer :: "output_kind \<Rightarrow> nat \<Rightarrow> child_outputs \<Rightarrow> completion_output option list \<times> bool" where
  "parent_answer kind n seen =
     (if kind \<noteq> FINAL_ONLY then [Some (snd (last seen))]
      else if all_finished n seen then map (\<lambda>i. map_option snd (find (\<lambda>e. fst e = i) (finals seen))) [0..<n]
      else [],
      all_finished n seen)"

definition parent_state :: "output_kind \<Rightarrow> nat \<Rightarrow> child_outputs \<Rightarrow> parent_request \<Rightarrow> bool" where
  "parent_state kind n seen p \<longleftrightarrow> pr_kind p = kind \<and> distinct (child_requests p) \<and>
     set (child_requests p) = child_name p ` {i. i < n \<and> i \<notin> fst ` set (finals seen)} \<and>
     (kind = FINAL_ONLY \<longrightarrow> length (output_aggregator p) = n \<and>
        (\<forall>i<n. output_aggregator p ! i = map_option snd (find (\<lambda>e. fst e = i) (finals seen))))"

lemma parent_state_done:
  assumes "parent_state kind n seen p"
  shows "child_requests p = [] \<longleftrightarrow> all_finished n seen"
proof -
  have "child_requests p = [] \<longleftrightarrow> {i. i < n \<and> i \<notin> fst ` set (finals seen)} = {}"
    using assms by (metis (no_types, lifting) image_is_empty parent_state_def set_empty)
  then show ?thesis by (auto simp: all_finished_def)
qed

lemma find_snoc: "find P (xs @ [x]) = (case find P xs of None \<Rightarrow> if P x then Some x else None | Some y \<Rightarrow> Some y)"
  by (induction xs) auto

lemma parent_step:
  assumes "parent_state kind n seen p" "i < n" "co_index c = i"
    and "co_finish_reason c \<noteq> None \<longrightarrow> i \<notin> fst ` set (finals seen)" "kind = FINAL_ONLY \<longrightarrow> co_finish_reason c \<noteq> None"
  shows "\<exists>p'. get_outputs (child_name p i) c p = Inr (fst (parent_answer kind n (seen @ [(i, c)])),
       snd (parent_answer kind n (seen @ [(i, c)])), p') \<and> parent_state kind n (seen @ [(i, c)]) p' \<and> child_name p' = child_name p"
proof -
  note st = assms(1) [unfolded parent_state_def]
  define p1 where "p1 = (if co_finish_reason c \<noteq> None then p\<lparr>child_requests := remove1 (child_name p i) (child_requests p)\<rparr> else p)"
  have names: "child_name p1 = child_name p" by (rule ext) (simp add: p1_def child_name_def)
  have f: "set (finals (seen @ [(i, c)])) = (if co_finish_reason c \<noteq> None then insert (i, c) (set (finals seen)) else set (finals seen))"
    by (auto simp: finals_def)
  have ch: "distinct (child_requests p1)" "set (child_requests p1) = child_name p ` {j. j < n \<and> j \<notin> fst ` set (finals (seen @ [(i, c)]))}"
    using st unfolding f p1_def by (auto simp: child_name_inj)
  have k: "pr_kind p1 = kind" "kind = FINAL_ONLY \<longrightarrow> length (output_aggregator p1) = n" "output_aggregator p1 = output_aggregator p"
    using st by (simp_all add: p1_def)
  have known: "\<not> (co_finish_reason c \<noteq> None \<and> child_name p i \<notin> set (child_requests p))"
    using st assms(2,4) by (auto simp: child_name_inj)
  have get: "get_outputs (child_name p i) c p =
      (if kind \<noteq> FINAL_ONLY then Inr ([Some c], child_requests p1 = [], p1)
       else let p2 = p1\<lparr>output_aggregator := (output_aggregator p1)[i := Some c]\<rparr>
            in Inr (if child_requests p1 = [] then output_aggregator p2 else [], child_requests p1 = [], p2))"
    using known k(2) st assms(2,3) unfolding get_outputs_def p1_def [symmetric] Let_def by (cases "kind = FINAL_ONLY") simp_all
  show ?thesis
  proof (cases "kind = FINAL_ONLY")
    case False
    then have ps: "parent_state kind n (seen @ [(i, c)]) p1" using ch k by (simp add: parent_state_def names)
    show ?thesis using get False ps names parent_state_done [OF ps] by (simp add: parent_answer_def)
  next
    case True
    let ?p2 = "p1\<lparr>output_aggregator := (output_aggregator p1)[i := Some c]\<rparr>"
    have fin: "co_finish_reason c \<noteq> None" "finals (seen @ [(i, c)]) = finals seen @ [(i, c)]" using True assms(5) by (simp_all add: finals_def)
    have none: "find (\<lambda>e. fst e = i) (finals seen) = None" using assms(4) fin(1) by (force simp: find_None_iff)
    have len: "length (output_aggregator p1) = n" using k(2) True by simp
    have ag: "output_aggregator ?p2 ! j = map_option snd (find (\<lambda>e. fst e = j) (finals (seen @ [(i, c)])))" if "j < n" for j
      using that st True none len k(3) unfolding fin(2) find_snoc by (cases "j = i") (auto split: option.splits)
    have n2: "child_name ?p2 = child_name p" using names by (simp add: child_name_def fun_eq_iff)
    then have ps: "parent_state kind n (seen @ [(i, c)]) ?p2" using ch k(1) len ag True by (simp add: parent_state_def)
    have "output_aggregator ?p2 = map (\<lambda>j. map_option snd (find (\<lambda>e. fst e = j) (finals (seen @ [(i, c)])))) [0..<n]"
      using ag len by (intro nth_equalityI) simp_all
    then show ?thesis using get True ps n2 parent_state_done [OF ps] by (simp add: parent_answer_def Let_def)
  qed
qed

lemma finals_all: "finals es = es \<longleftrightarrow> (\<forall>e\<in>set es. co_finish_reason (snd e) \<noteq> None)"
  by (simp add: finals_def filter_id_conv)

lemma feed_outputs_run:
  assumes "parent_state kind n pre p" "\<forall>(i, c)\<in>set es. i < n \<and> co_index c = i" "distinct (map fst (finals (pre @ es)))"
    and "kind = FINAL_ONLY \<longrightarrow> finals es = es"
  shows "\<exists>p'. feed_outputs es p = Inr (map (\<lambda>k. parent_answer kind n (pre @ take (Suc k) es)) [0..<length es], p')"
  using assms
proof (induction es arbitrary: pre p)
  case (Cons e es)
  obtain i c where e: "e = (i, c)" by (cases e)
  have fr: "co_finish_reason c \<noteq> None \<longrightarrow> i \<notin> fst ` set (finals pre)"
  proof
    assume "co_finish_reason c \<noteq> None"
    then have "finals (pre @ e # es) = finals pre @ (i, c) # finals es" by (simp add: finals_def e)
    then have "i \<notin> set (map fst (finals pre))" using Cons.prems(3) by auto
    then show "i \<notin> fst ` set (finals pre)" by simp
  qed
  have fo: "kind = FINAL_ONLY \<longrightarrow> co_finish_reason c \<noteq> None \<and> finals es = es"
    using Cons.prems(4) unfolding finals_all e by simp
  have ix: "i < n" "co_index c = i" using Cons.prems(2) e by auto
  from parent_step [OF Cons.prems(1) ix fr] fo obtain p1 where
    p1: "get_outputs (child_name p i) c p = Inr (fst (parent_answer kind n (pre @ [(i, c)])), snd (parent_answer kind n (pre @ [(i, c)])), p1)"
      "parent_state kind n (pre @ [(i, c)]) p1" by blast
  from Cons.IH [OF p1(2)] Cons.prems(2,3) fo obtain p2 where
    p2: "feed_outputs es p1 = Inr (map (\<lambda>k. parent_answer kind n ((pre @ [(i, c)]) @ take (Suc k) es)) [0..<length es], p2)"
    unfolding e by auto
  have "map (\<lambda>k. parent_answer kind n (pre @ take (Suc k) (e # es))) [0..<length (e # es)] =
      parent_answer kind n (pre @ [(i, c)]) # map (\<lambda>k. parent_answer kind n ((pre @ [(i, c)]) @ take (Suc k) es)) [0..<length es]"
    by (simp add: e map_upt_Suc del: upt_Suc)
  then show ?case using p1(1) p2 by (simp add: e)
qed simp

text \<open>(C34) The parent of \<open>n\<close> parallel samples, when all its children are named before the first of them
  finishes, and each child finishes at most once: whatever order the outputs of the children arrive in,
  the parent answers each of them with \<open>parent_answer\<close>. For a streaming client every output is handed on
  at once, and the answer that comes with the end of the last child is the first one marked as finished.
  If only the final outputs are wanted (then only those reach the parent), nothing is
  returned until the last child has finished, and then the outputs of all samples in the order of their
  indices. Without the condition on the names this fails, see \<open>parent_finishes_early\<close>.\<close>

theorem parallel_samples_aggregated:
  assumes "\<forall>(i, c)\<in>set es. i < n \<and> co_index c = i" "distinct (map fst (finals es))" "kind = FINAL_ONLY \<longrightarrow> finals es = es"
  shows "\<exists>p'. feed_outputs es (name_children n (new_parent rid ext kind n seed)) =
    Inr (map (\<lambda>k. parent_answer kind n (take (Suc k) es)) [0..<length es], p')"
proof -
  let ?p0 = "new_parent rid ext kind n seed"
  have "child_requests ?p0 = []" by (simp add: new_parent_def)
  from name_children_spec [OF this, of n]
  have p: "name_children n ?p0 = ?p0\<lparr>child_requests := rev (map (child_name ?p0) [0..<n])\<rparr>" (is "_ = ?p") .
  have "parent_state kind n [] ?p"
    unfolding parent_state_def child_name_update
    by (simp add: finals_def distinct_map inj_on_def child_name_inj) (auto simp: new_parent_def)
  from feed_outputs_run [OF this assms(1)] assms(2,3) show ?thesis unfolding p by simp
qed

definition sample_output :: "nat \<Rightarrow> completion_output" where
  "sample_output i = \<lparr>co_index = i, co_text = '''', co_token_ids = [int i], co_logprobs = None,
     co_finish_reason = Some FR_LENGTH, co_stop_reason = None\<rparr>"

definition partial_output :: "nat \<Rightarrow> completion_output" where
  "partial_output i = (sample_output i)\<lparr>co_finish_reason := None\<rparr>"

theorem parallel_samples_witness:
  "(\<exists>p'. feed_outputs [(1, sample_output 1), (0, sample_output 0)] (name_children 2 (new_parent ''r'' ''x'' FINAL_ONLY 2 None)) =
     Inr ([([], False), ([Some (sample_output 0), Some (sample_output 1)], True)], p')) \<and>
   (\<exists>p'. feed_outputs [(1, partial_output 1), (0, sample_output 0), (1, sample_output 1)]
       (name_children 2 (new_parent ''r'' ''x'' DELTA 2 None)) =
     Inr ([([Some (partial_output 1)], False), ([Some (sample_output 0)], False), ([Some (sample_output 1)], True)], p'))"
proof -
  let ?f = "[(1, sample_output 1), (0, sample_output 0)]" and ?s = "[(1, partial_output 1), (0, sample_output 0), (1, sample_output 1)]"
  have f: "\<forall>(i, c)\<in>set ?f. i < 2 \<and> co_index c = i" "distinct (map fst (finals ?f))" "FINAL_ONLY = FINAL_ONLY \<longrightarrow> finals ?f = ?f"
    by (simp_all add: sample_output_def finals_def)
  have s: "\<forall>(i, c)\<in>set ?s. i < 2 \<and> co_index c = i" "distinct (map fst (finals ?s))" "DELTA = FINAL_ONLY \<longrightarrow> finals ?s = ?s"
    by (simp_all add: sample_output_def partial_output_def finals_def)
  have fa: "map (\<lambda>k. parent_answer FINAL_ONLY 2 (take (Suc k) ?f)) [0..<length ?f] =
      [([], False), ([Some (sample_output 0), Some (sample_output 1)], True)]" by code_simp
  have sa: "map (\<lambda>k. parent_answer DELTA 2 (take (Suc k) ?s)) [0..<length ?s] =
      [([Some (partial_output 1)], False), ([Some (sample_output 0)], False), ([Some (sample_output 1)], True)]" by code_simp
  show ?thesis
    using parallel_samples_aggregated [OF f, of "''r''" "''x''" None] parallel_samples_aggregated [OF s, of "''r''" "''x''" None]
    unfolding fa sa by blast
qed

text \<open>If a child finishes before the next one is named, which is possible as the front end names and
  adds the children one after the other, the parent believes that it is finished: it returns an
  aggregator with a gap.\<close>

lemma parent_finishes_early:
  "case get_child_info 0 (new_parent ''r'' ''x'' FINAL_ONLY 2 None) of
     (name, _, p) \<Rightarrow> (case get_outputs name (sample_output 0) p of
        Inl e \<Rightarrow> False
      | Inr (outs, finished, _) \<Rightarrow> outs = [Some (sample_output 0), None] \<and> finished)"
  by code_simp
section \<open>Concrete runs\<close>

definition plain_env :: "unit output_env" where
  "plain_env = \<lparr>oe_has_tokenizer = False, oe_decode = letter_decode, oe_fresh = (\<lambda>_. ()), oe_slow = False,
     oe_stream_interval = 1\<rparr>"

definition plain_request :: core_request where
  "plain_request = \<lparr>cr_request_id = ''r'', cr_external_req_id = Some ''x'', cr_prompt_token_ids = Some [5],
     cr_prompt_embeds = None,
     cr_sampling = Some \<lparr>sq_kind = FINAL_ONLY, sq_detokenize = True, sq_stop = NoStop, sq_min_tokens = 0,
       sq_include_stop = False, sq_logprobs = False, sq_prompt_logprobs = False\<rparr>,
     cr_pooling_kind = None, cr_resumable = False\<rparr>"

theorem output_states_witness:
  "\<exists>op. fan_out plain_env plain_request 2 None None new_output_processor = Inr op
     \<and> od_get (external_req_ids op) ''x'' = Some [''0_r'', ''1_r'']
     \<and> (\<forall>k rs. od_get (request_states op) k = Some rs \<longrightarrow> rs_request_id rs = k)"
proof -
  have "case fan_out plain_env plain_request 2 None None new_output_processor of
      Inl e \<Rightarrow> False | Inr op \<Rightarrow> od_get (external_req_ids op) ''x'' = Some [''0_r'', ''1_r'']"
    by code_simp
  then obtain op where op: "fan_out plain_env plain_request 2 None None new_output_processor = Inr op"
      "od_get (external_req_ids op) ''x'' = Some [''0_r'', ''1_r'']"
    by (rule case_InrE)
  from output_states_consistent [OF op_reach.fan [OF op_reach.init op(1)]] op show ?thesis by blast
qed

text \<open>Aborting the samples of a request by their external name leaves their parent registered for ever.\<close>

lemma external_abort_keeps_parent:
  "case fan_out plain_env plain_request 2 None None new_output_processor of
     Inl e \<Rightarrow> False
   | Inr op \<Rightarrow> (case op_abort_requests [''x''] False op of
       Some (Inr (aborted, op')) \<Rightarrow> request_states op' = [] \<and> external_req_ids op' = [] \<and> parent_keys op' = [''r'']
     | _ \<Rightarrow> False)"
  by code_simp



text \<open>The stream interval has no effect on a request that streams the whole output so far: its offset
  of sent tokens stays 0, which counts as the first message.\<close>

lemma cumulative_ignores_interval:
  assumes "rs_kind rs = CUMULATIVE" "sent_tokens_offset rs = 0" "rs_detok rs \<noteq> None"
  shows "make_request_output toks pool f st rs ps = finish_request_output toks pool f st rs ps"
  using assms by (auto simp: make_request_output_def interval_reached_def)

text \<open>A stop string that the detokenizer finds while more streaming input is expected does not lead to an
  abort in the engine core, which goes on generating for the input that was declared complete.\<close>

lemma session_stop_not_aborted:
  assumes "streaming_input rs"
  shows "\<exists>op'. complete_request eo rs op = Inr ([], op')"
  using assms by (auto simp: complete_request_def split: option.split list.split)

section \<open>The collector\<close>

text \<open>Deltas of one sample that are put into a collector faster than they are fetched are merged without
  a loss: the next fetch returns their tokens and texts in order.\<close>

lemma collector_merges:
  assumes "cl_aggregate q" "cl_output q = Some (CompletionMsg ro)" "ro_outputs ro = [Some c]"
    and "ro_outputs ro' = [Some c']" "co_index c' = co_index c" "co_logprobs c' = None"
  shows "\<exists>q' ro1 c1. collector_put (CompletionMsg ro') q = Inr q' \<and> collector_get_nowait q' = (Inr (Some (CompletionMsg ro1)), q\<lparr>cl_output := None\<rparr>)
    \<and> ro_outputs ro1 = [Some c1] \<and> co_token_ids c1 = co_token_ids c @ co_token_ids c' \<and> co_text c1 = co_text c @ co_text c'
    \<and> co_finish_reason c1 = co_finish_reason c' \<and> ro_finished ro1 = (ro_finished ro \<or> ro_finished ro')"
  using assms by (simp add: collector_put_def collector_get_nowait_def merge_output_def merge_completion_def Let_def)

end
