(* ===== verification/Spec2Isabelle.thy ===== *)
theory Spec2Isabelle
  imports KV_Offload_Spec Scheduler_Props KV_Cache_Memory Ngram_Proposer Output_Props
begin

text \<open>
  A verification development of the scheduling and KV cache core of the vLLM engine (version 1),
  in the copy under src/remote-home/vllm\_cscc/vllm. All paths below are relative to it.

  \<^bold>\<open>The program.\<close> An engine serves requests for text generation. Its scheduler decides, step by step,
  how many tokens of which requests the model computes next. The keys and values of computed
  tokens are kept in blocks of GPU memory; a block is counted by reference, found again by a hash of
  the tokens it holds (prefix caching), and evicted in order of last use. The scheduler calls the KV
  cache manager; the manager calls a coordinator, the coordinator one manager for each group of
  layers, and those share the block pool, which owns the free queue and the hash index. A request
  that finds no blocks preempts another one. Multi-modal inputs take slots of an encoder cache.
  Connectors may load keys and values from elsewhere, among them the offloading managers that keep
  blocks in CPU memory. At start the layers of the model are put into groups and the memory of the
  workers is divided into blocks. A proposer drafts tokens for speculative decoding from repetitions
  in the request itself. On the other side, an output processor turns the tokens of each request
  into text, looks for stop strings, and hands out messages to the client.

  \<^bold>\<open>Conventions.\<close> Python integers are \<open>int\<close> or, where they count or index, \<open>nat\<close>; only the C field
  \<^verbatim>\<open>ref_cnt\<close> of a block status is a 32 bit word. An object is a record, a class with
  subclasses a datatype or a case distinction, an object shared by several owners an entry of a store
  that the owners refer to by its key. A method that may raise returns \<open>error + 'a\<close>, every
  raise and failing assertion being an \<open>Inl\<close>; the state after an exception is not observed. A
  dictionary is a partial map, or an association list in insertion order where the order is visible.
  Names are those of the source, with a prefix where two classes share a method name.

  \<^bold>\<open>Theories and sources.\<close>
  \<^item> \<open>Prelude\<close>: exceptions, sequencing of fallible steps, \<^verbatim>\<open>cdiv\<close> and rounding
    (utils/math\_utils.py), slices, indexing, ordered dictionaries. \<open>Result_Logic\<close>: a small calculus for
    statements about successful results, used for the scheduler.
  \<^item> \<open>Free_Queue\<close>: FreeKVCacheBlockQueue (v1/core/kv\_cache\_utils.py), a doubly linked list given by two
    pointer functions; every operation is shown to implement the same operation on a list.
  \<^item> \<open>Request\<close>, \<open>Block_Hash\<close>: v1/request.py, PlaceholderRange of multimodal/inputs.py, and the block hash
    functions of v1/core/kv\_cache\_utils.py. The lemmas show that hashing while tokens arrive equals
    hashing from scratch, and that equal hashes mean equal prefixes.
  \<^item> \<open>Block_Pool\<close>, \<open>Block_Pool_Inv\<close>: v1/core/block\_pool.py. The invariant \<open>pool_inv p H\<close> relates the reference
    counts, the free queue and the hash index to the multiset \<open>H\<close> of references held outside; the
    locale \<open>ref_pool\<close> is the contract the managers use.
  \<^item> \<open>KV_Cache_Spec\<close>, \<open>Single_Type_Manager\<close>, \<open>Single_Type_Inv\<close>, \<open>Cache_Hit\<close>: v1/kv\_cache\_interface.py
    and v1/core/single\_type\_kv\_cache\_manager.py: the specification classes, allocation, caching,
    release and window skipping for each kind of attention, the accounting of references, and what the
    prefix searches return.
  \<^item> \<open>Coordinator\<close>, \<open>Coordinator_Inv\<close>, \<open>Caching\<close>, \<open>KV_Manager\<close>: v1/core/kv\_cache\_coordinator.py and
    v1/core/kv\_cache\_manager.py with the prefix cache statistics of v1/metrics/stats.py; the
    outcome of \<^verbatim>\<open>allocate_slots\<close> and the invariant across groups. All groups are
    modelled; the results about \<^verbatim>\<open>allocate_slots\<close> are for attention groups, without Mamba and
    cross attention groups, and \<open>Caching\<close> says when its last step, caching the full blocks, succeeds.
  \<^item> \<open>KV_Cache_Config\<close>, \<open>KV_Cache_Config_Inv\<close>, \<open>KV_Cache_Memory\<close>: the configuration part of
    v1/core/kv\_cache\_utils.py: grouping of layers, tensors of a worker, memory check, longest model length.
  \<^item> \<open>Encoder_Cache\<close>: v1/core/encoder\_cache\_manager.py.
  \<^item> \<open>Request_Queue\<close>, \<open>Queue_Contents\<close>, \<open>Sched_Utils\<close>, \<open>Generation\<close>: v1/core/sched/request\_queue.py with
    the algorithms of the standard library's heapq, and v1/core/sched/utils.py: repetition detection
    and the stop decision, and that generation ends. The queues are related to the history of the
    calls made to them.
  \<^item> \<open>Scheduler\<close>, \<open>Scheduler_Update\<close>: v1/core/sched/scheduler.py and async\_scheduler.py: the scheduling
    step, and everything between two steps (arrival, streaming sessions, abortion, the results of the
    model, failed and finished transfers, draft tokens, pausing, resets).
    \<open>Scheduler_Inv\<close>, \<open>Scheduler_Update_Inv\<close>: every operation keeps \<open>sched_inv\<close>, which puts each
    unfinished request in exactly one queue with a fitting status. \<open>Scheduler_Limits\<close>: token
    budget and number of running requests. \<open>Scheduler_Order\<close>: the line of arrival.
    \<open>Load_Failure\<close>: recovery from failed loads. \<open>Scheduler_Props\<close>: the theorems, and a concrete run in
    which a streaming session is lost because a result arrives for a request that is no longer running;
    this is the case that the conservation theorem has to exclude.
  \<^item> \<open>KV_Offload\<close>, \<open>KV_Offload_Spec\<close>: v1/kv\_offload: the CPU backend, the LRU and ARC managers and the
    reuse filter; an abstract manager as a transition relation, and the proof that the concrete ones
    refine it (locale \<open>offload_manager\<close>).
  \<^item> \<open>Ngram_Proposer\<close>: v1/spec\_decode/ngram\_proposer.py: the Knuth-Morris-Pratt search for the longest
    earlier occurrence of the last tokens equals a naive search, every array access of it is in range,
    and the batch version does not depend on what its buffers held.
  \<^item> \<open>Detokenizer\<close>: v1/engine/detokenizer.py and the helpers of tokenizers/detokenizer\_utils.py:
    the pieces of text handed out make up the final text, and stop strings are found when they end.
  \<^item> \<open>Output_Processor\<close>, \<open>Output_Props\<close>: v1/engine/output\_processor.py, v1/engine/parallel\_sampling.py,
    the constructor of the log probability processor and the outputs of outputs.py: delta streams are
    complete for any stream interval, the dictionaries of requests, parents and external names agree,
    parallel samples are collected, abortion ends.

  \<^bold>\<open>Parameters and hypotheses.\<close> Hash functions are arguments (record \<open>hash_env\<close>); the absence of
  collisions is assumed only where it is stated. What connectors, the grammar backend and the model
  answer comes to the scheduler in the record \<open>sched_env\<close> and the record of model outputs, without
  assumptions beyond those stated. The rounding of the floating point target of the ARC manager is an
  arbitrary function. Theorems about reachable states start from the constructor with a
  configuration that the engine accepts.

  \<^bold>\<open>Loops.\<close> No fuel is used. Loops over lists are structural recursions; loops with a condition are
  \<open>function\<close>s whose measure is proved to fall: the tokens or requests left, the requests that can
  still be preempted, the width of the binary search, the length of the hit. Three loops may run
  for ever on a broken state, so they are \<open>partial_function (option)\<close>, and that they return is proved from an
  invariant: the traversal of the linked free queue (\<open>collect_free\<close>), the search of the n-gram proposer
  (\<open>ngram_loop\<close>, from the contents of its table) and the abortion of parents and their children
  (\<open>abort_loop\<close>, if no child is a parent itself).

  \<^bold>\<open>Not modelled.\<close> Metrics other than the prefix cache statistics, logging, tracing and profiling only
  observe the modelled state; KV events are collected in the model but not published, and log
  probabilities are carried along as opaque values, not computed. The model runner, attention
  backends, kernels, quantisation, sampling and distributed execution compute tensors, and the code
  under csrc is not Python. Entry points, IPC
  and the asynchronous engine loop pass requests and outputs on. The structured output backends and the
  KV connectors call libraries and remote services; the scheduler model has their answers as
  parameters. The directory build holds a generated copy of the package.
\<close>

end
